(* ===== verification/Redis_Prelude.thy ===== *)
theory Redis_Prelude
  imports Main "HOL-Library.Word" "HOL-Library.Monad_Syntax"
begin

text \<open>
  Shared ground of the development: the machine types of the C sources, raw memory as a list
  of bytes with bounds-checked reads and writes (an access outside the allocation is
  \<open>None\<close>), the little endian layout of integers, and the collections of rewrite rules
  the component theories extend.
  \<^item> \<open>mem_read\<close>, \<open>mem_write\<close>, \<open>mem_move\<close>: \<^verbatim>\<open>memcpy\<close> and \<^verbatim>\<open>memmove\<close> within one
    allocation;
  \<^item> \<open>mem_realloc\<close>: \<^verbatim>\<open>zrealloc\<close>, where the bytes of a grown tail are whatever the allocator
    leaves there (the argument \<open>junk\<close>);
  \<^item> \<open>put_le\<close>, \<open>get_le\<close>, \<open>get_sle\<close>: integers of \<open>n\<close> bytes in little endian order, read
    unsigned or as two's complement.
\<close>

type_synonym u8 = "8 word"
type_synonym u16 = "16 word"
type_synonym u32 = "32 word"
type_synonym u64 = "64 word"

type_synonym mem = "u8 list"

named_theorems mem_simps \<open>reads and writes of raw memory\<close>
named_theorems le_simps \<open>little endian integers\<close>
named_theorems wf_intros \<open>preservation of the components' invariants\<close>

section \<open>Machine integers\<close>

abbreviation int8_range :: "int \<Rightarrow> bool" where
  "int8_range v \<equiv> - 128 \<le> v \<and> v \<le> 127"

abbreviation int64_range :: "int \<Rightarrow> bool" where
  "int64_range v \<equiv> - (2 ^ 63) \<le> v \<and> v < 2 ^ 63"

text \<open>Unsigned 32 bit arithmetic on \<open>nat\<close>, with the wrap-around written out.\<close>

definition wrap32 :: "nat \<Rightarrow> nat" where
  "wrap32 n = n mod 2 ^ 32"

definition sub32 :: "nat \<Rightarrow> nat \<Rightarrow> nat" where
  "sub32 a b = (a + (2 ^ 32 - b mod 2 ^ 32)) mod 2 ^ 32"

definition bytes :: "string \<Rightarrow> u8 list" where
  "bytes s = map of_char s"

abbreviation (input) ch :: "char \<Rightarrow> u8" where "ch c \<equiv> of_char c"

text \<open>Two's complement reading of the low \<open>n\<close> bytes.\<close>

definition sign_extend :: "nat \<Rightarrow> int \<Rightarrow> int" where
  "sign_extend n x = (let m = 256 ^ n in if 2 * (x mod m) < m then x mod m else x mod m - m)"

definition fits_signed :: "nat \<Rightarrow> int \<Rightarrow> bool" where
  "fits_signed n v \<longleftrightarrow> - (256 ^ n) \<le> 2 * v \<and> 2 * v < 256 ^ n"

section \<open>Raw memory\<close>

definition mem_read :: "nat \<Rightarrow> nat \<Rightarrow> mem \<Rightarrow> mem option" where
  "mem_read off n m = (if off + n \<le> length m then Some (take n (drop off m)) else None)"

definition rd :: "u8 list \<Rightarrow> nat \<Rightarrow> u8 option" where
  "rd buf i = (if i < length buf then Some (buf ! i) else None)"

definition mem_write :: "nat \<Rightarrow> u8 list \<Rightarrow> mem \<Rightarrow> mem option" where
  "mem_write off bs m =
     (if off + length bs \<le> length m
      then Some (take off m @ bs @ drop (off + length bs) m) else None)"

definition mem_move :: "nat \<Rightarrow> nat \<Rightarrow> nat \<Rightarrow> mem \<Rightarrow> mem option" where
  "mem_move dst src n m = do { bs \<leftarrow> mem_read src n m; mem_write dst bs m }"

definition mem_realloc :: "(nat \<Rightarrow> u8) \<Rightarrow> nat \<Rightarrow> mem \<Rightarrow> mem" where
  "mem_realloc junk n m = take n m @ map junk [length m..<n]"

text \<open>The length of a zero-terminated string at the start of a buffer.\<close>

definition strlen :: "mem \<Rightarrow> nat option" where
  "strlen m = (if 0 \<in> set m then Some (length (takeWhile (\<lambda>c. c \<noteq> 0) m)) else None)"

section \<open>Little endian integers\<close>

fun put_le :: "nat \<Rightarrow> int \<Rightarrow> u8 list" where
  "put_le 0 v = []"
| "put_le (Suc n) v = word_of_int v # put_le n (v div 256)"

fun get_le :: "u8 list \<Rightarrow> int" where
  "get_le [] = 0"
| "get_le (b # bs) = uint b + 256 * get_le bs"

definition get_sle :: "u8 list \<Rightarrow> int" where
  "get_sle bs = sign_extend (length bs) (get_le bs)"

section \<open>Lemmas on machine integers\<close>

lemma wrap32_id [simp]: "n < 2 ^ 32 \<Longrightarrow> wrap32 n = n"
  by (simp add: wrap32_def)

lemma sub32_id [simp]: "b \<le> a \<Longrightarrow> a < 2 ^ 32 \<Longrightarrow> sub32 a b = a - b"
proof -
  assume "b \<le> a" "a < 2 ^ 32"
  then have "a + (2 ^ 32 - b mod 2 ^ 32) = (a - b) + 2 ^ 32"
    by simp
  with \<open>a < 2 ^ 32\<close> show ?thesis by (simp add: sub32_def)
qed

lemma u8_less: "unat (c :: u8) < 256"
  by (rule order_less_le_trans [OF unsigned_less]) simp

section \<open>Lemmas on memory\<close>

lemma mem_read_Some [mem_simps]:
  "off + n \<le> length m \<Longrightarrow> mem_read off n m = Some (take n (drop off m))"
  by (simp add: mem_read_def)

lemma mem_write_Some [mem_simps]:
  "off + length bs \<le> length m \<Longrightarrow>
   mem_write off bs m = Some (take off m @ bs @ drop (off + length bs) m)"
  by (simp add: mem_write_def)

lemma mem_write_length: "mem_write off bs m = Some m' \<Longrightarrow> length m' = length m"
  by (auto simp: mem_write_def split: if_splits)

lemma mem_move_Some [mem_simps]:
  "src + n \<le> length m \<Longrightarrow> dst + n \<le> length m \<Longrightarrow>
   mem_move dst src n m = Some (take dst m @ take n (drop src m) @ drop (dst + n) m)"
  by (simp add: mem_move_def mem_read_def mem_write_def)

lemma strlen_terminated: "0 \<notin> set t \<Longrightarrow> strlen (t @ 0 # r) = Some (length t)"
  by (induction t) (auto simp: strlen_def split: if_splits)

lemma length_mem_realloc [simp]: "length (mem_realloc junk n m) = n"
  by (simp add: mem_realloc_def)

lemma mem_realloc_shrink: "n \<le> length m \<Longrightarrow> mem_realloc junk n m = take n m"
  by (simp add: mem_realloc_def)

lemma mem_realloc_grow: "length m \<le> n \<Longrightarrow> mem_realloc junk n m = m @ map junk [length m..<n]"
  by (simp add: mem_realloc_def)

section \<open>Lemmas on little endian integers\<close>

lemma length_put_le [simp]: "length (put_le n v) = n"
  by (induction n arbitrary: v) auto

lemma get_le_bounds: "0 \<le> get_le bs \<and> get_le bs < 256 ^ length bs"
proof (induction bs)
  case Nil
  then show ?case by simp
next
  case (Cons b bs)
  have "uint b < 256" "0 \<le> uint b"
    using uint_lt2p [of b] by simp_all
  with Cons show ?case by simp
qed

lemma get_le_put_le [le_simps]: "get_le (put_le n v) = v mod 256 ^ n"
proof (induction n arbitrary: v)
  case 0
  then show ?case by simp
next
  case (Suc n)
  have "uint (word_of_int v :: u8) = v mod 256"
    by (simp add: uint_word_of_int)
  with Suc show ?case
    by (simp add: zmod_zmult2_eq)
qed

lemma put_le_get_le [le_simps]: "put_le (length bs) (get_le bs) = bs"
proof (induction bs)
  case Nil
  then show ?case by simp
next
  case (Cons b bs)
  have "uint b < 256" "0 \<le> uint b"
    using uint_lt2p [of b] by simp_all
  then have "(uint b + 256 * get_le bs) div 256 = get_le bs"
    by simp
  moreover have "(word_of_int (uint b + 256 * get_le bs) :: u8) = b"
  proof -
    have "(word_of_int (256 * get_le bs) :: u8) = 0"
      by (subst word_of_int_eq_0_iff) simp
    then show ?thesis by (simp only: flip: wi_hom_add) simp
  qed
  ultimately show ?case using Cons by simp
qed

lemma put_le_mod: "put_le n (v mod 256 ^ n) = put_le n v"
  using put_le_get_le [of "put_le n v"] by (simp add: get_le_put_le)

lemma sign_extend_id: "fits_signed n v \<Longrightarrow> sign_extend n (v mod 256 ^ n) = v"
proof -
  assume f: "fits_signed n v"
  define m :: int where "m = 256 ^ n"
  have f': "- m \<le> 2 * v" "2 * v < m" and mpos: "0 < m"
    using f by (auto simp: fits_signed_def m_def)
  show ?thesis
  proof (cases "0 \<le> v")
    case True
    then have "v mod m = v" using f' by simp
    then show ?thesis using f' by (simp add: sign_extend_def Let_def flip: m_def)
  next
    case False
    have "v mod m = (v + m) mod m" by simp
    also have "\<dots> = v + m" using False f' by (intro mod_pos_pos_trivial) auto
    finally have "v mod m = v + m" .
    then show ?thesis using f' by (simp add: sign_extend_def Let_def flip: m_def)
  qed
qed

lemma sign_extend_fit: "fits_signed n v \<Longrightarrow> sign_extend n v = v"
proof -
  have "sign_extend n (v mod 256 ^ n) = sign_extend n v"
    by (simp only: sign_extend_def Let_def mod_mod_trivial)
  moreover assume "fits_signed n v"
  ultimately show ?thesis using sign_extend_id by simp
qed

lemma sign_extend_fits: "fits_signed n (sign_extend n x)"
proof -
  define m :: int where "m = 256 ^ n"
  have "0 < m" by (simp add: m_def)
  then have "0 \<le> x mod m" "x mod m < m" by simp_all
  then show ?thesis by (simp add: fits_signed_def sign_extend_def Let_def flip: m_def)
qed

lemma get_sle_put_le [le_simps]: "fits_signed n v \<Longrightarrow> get_sle (put_le n v) = v"
  by (simp add: get_sle_def get_le_put_le sign_extend_id)

lemma put_le_get_sle [le_simps]: "put_le (length bs) (get_sle bs) = bs"
proof -
  have "get_sle bs mod 256 ^ length bs = get_le bs"
    using get_le_bounds [of bs] by (auto simp: get_sle_def sign_extend_def Let_def)
  then show ?thesis
    by (metis put_le_get_le put_le_mod)
qed

lemma fits_get_sle: "fits_signed (length bs) (get_sle bs)"
  by (simp add: get_sle_def sign_extend_fits)

lemma fits_signed_mono: "fits_signed m v \<Longrightarrow> m \<le> n \<Longrightarrow> fits_signed n v"
proof -
  assume f: "fits_signed m v" and mn: "m \<le> n"
  from mn have "(256::int) ^ m \<le> 256 ^ n" by (intro power_increasing) auto
  with f show ?thesis unfolding fits_signed_def by linarith
qed

end
