(* ===== verification/Endian.thy ===== *)
theory Endian
  imports Redis_Prelude
begin

text \<open>
  \<^verbatim>\<open>endianconv.c\<close>: reversal of 16, 32 and 64 bit integers in place. The exchanges are
  written out byte by byte as in the source, on a list of bytes whose first elements are the
  ones \<open>p\<close> points to (a shorter list, an access out of bounds, is \<open>None\<close>).

  \<open>store_native\<close> is how the host writes an integer: \<open>be\<close> says whether it is big endian. The
  macros \<^verbatim>\<open>memrevNNifbe\<close> reverse on big endian hosts only; the lemmas show that a store
  followed by the macro leaves the little endian bytes on either host, which is what makes
  the serialised integer sets and ziplists independent of the host.
\<close>

definition swap_bytes :: "nat \<Rightarrow> nat \<Rightarrow> u8 list \<Rightarrow> u8 list" where
  "swap_bytes i j x = (let t = x ! i in (x[i := x ! j])[j := t])"

definition memrev16 :: "u8 list \<Rightarrow> u8 list option" where
  "memrev16 x = (if length x < 2 then None else Some (swap_bytes 0 1 x))"

definition memrev32 :: "u8 list \<Rightarrow> u8 list option" where
  "memrev32 x = (if length x < 4 then None else Some (swap_bytes 1 2 (swap_bytes 0 3 x)))"

definition memrev64 :: "u8 list \<Rightarrow> u8 list option" where
  "memrev64 x =
     (if length x < 8 then None
      else Some (swap_bytes 3 4 (swap_bytes 2 5 (swap_bytes 1 6 (swap_bytes 0 7 x)))))"

definition store_native :: "bool \<Rightarrow> nat \<Rightarrow> int \<Rightarrow> u8 list" where
  "store_native be n v = (if be then rev (put_le n v) else put_le n v)"

definition load_native :: "bool \<Rightarrow> u8 list \<Rightarrow> int" where
  "load_native be bs = get_le (if be then rev bs else bs)"

definition intrev16 :: "bool \<Rightarrow> int \<Rightarrow> int" where
  "intrev16 be v = load_native be (the (memrev16 (store_native be 2 v)))"

definition intrev32 :: "bool \<Rightarrow> int \<Rightarrow> int" where
  "intrev32 be v = load_native be (the (memrev32 (store_native be 4 v)))"

definition intrev64 :: "bool \<Rightarrow> int \<Rightarrow> int" where
  "intrev64 be v = load_native be (the (memrev64 (store_native be 8 v)))"

definition memrevifbe :: "bool \<Rightarrow> (u8 list \<Rightarrow> u8 list option) \<Rightarrow> u8 list \<Rightarrow> u8 list option" where
  "memrevifbe be memrev x = (if be then memrev x else Some x)"

lemma length_2_4_8:
  "length x = 2 \<Longrightarrow> \<exists>a b. x = [a, b]"
  "length x = 4 \<Longrightarrow> \<exists>a b c d. x = [a, b, c, d]"
  "length x = 8 \<Longrightarrow> \<exists>a b c d e f g h. x = [a, b, c, d, e, f, g, h]"
  by (auto simp: numeral_eq_Suc length_Suc_conv)

lemma memrev16_rev: "length x = 2 \<Longrightarrow> memrev16 x = Some (rev x)"
  by (auto dest!: length_2_4_8(1) simp: memrev16_def swap_bytes_def)

lemma memrev32_rev: "length x = 4 \<Longrightarrow> memrev32 x = Some (rev x)"
  by (auto dest!: length_2_4_8(2) simp: memrev32_def swap_bytes_def)

lemma memrev64_rev: "length x = 8 \<Longrightarrow> memrev64 x = Some (rev x)"
  by (drule length_2_4_8(3)) (auto simp: memrev64_def swap_bytes_def numeral_eq_Suc)

lemmas memrev_rev = memrev16_rev memrev32_rev memrev64_rev

lemma length_store_native [simp]: "length (store_native be n v) = n"
  by (simp add: store_native_def)

lemma load_store_native: "load_native be (store_native be n v) = v mod 256 ^ n"
  by (simp add: load_native_def store_native_def get_le_put_le)

lemma load_native_rev: "load_native be (rev bs) = load_native (\<not> be) bs"
  by (simp add: load_native_def)

text \<open>The interface the encoders rely on: a reversal that is \<^term>\<open>rev\<close> on \<open>n\<close> bytes.\<close>

locale byte_reverser =
  fixes memrev :: "u8 list \<Rightarrow> u8 list option"
    and n :: nat
  assumes memrev_is_rev: "length x = n \<Longrightarrow> memrev x = Some (rev x)"
begin

lemma involution: "length x = n \<Longrightarrow> Option.bind (memrev x) memrev = Some x"
  by (simp add: memrev_is_rev)

lemma store_then_revifbe: "memrevifbe be memrev (store_native be n v) = Some (put_le n v)"
  by (simp add: memrevifbe_def store_native_def memrev_is_rev)

lemma load_after_revifbe:
  "map_option (load_native be) (memrevifbe be memrev (put_le n v)) = Some (v mod 256 ^ n)"
  by (simp add: memrevifbe_def load_native_def memrev_is_rev get_le_put_le)

lemma intrev_twice:
  assumes v: "0 \<le> v" "v < 256 ^ n"
  shows "load_native be (the (memrev (store_native be n
           (load_native be (the (memrev (store_native be n v))))))) = v"
proof -
  let ?w = "load_native be (rev (store_native be n v))"
  have "store_native be n ?w = rev (store_native be n v)"
    using put_le_get_le [of "store_native be n v"] put_le_get_le [of "rev (store_native be n v)"]
    by (auto simp: load_native_def store_native_def)
  then have "load_native be (rev (store_native be n ?w)) = v mod 256 ^ n"
    by (simp add: load_store_native)
  with v show ?thesis by (simp add: memrev_is_rev)
qed

end

interpretation rev16: byte_reverser memrev16 2
  by unfold_locales (rule memrev16_rev)

interpretation rev32: byte_reverser memrev32 4
  by unfold_locales (rule memrev32_rev)

interpretation rev64: byte_reverser memrev64 8
  by unfold_locales (rule memrev64_rev)

text \<open>on a host of either byte order, an integer stored by the host and passed through
  the conditional reversal macros of \<^verbatim>\<open>endianconv.h\<close> lies in memory in little endian order, for
  each of the three widths; so what Redis serialises does not depend on the host.\<close>

theorem serialised_integers_little_endian:
  "memrevifbe be memrev16 (store_native be 2 v) = Some (put_le 2 v)
   \<and> memrevifbe be memrev32 (store_native be 4 v) = Some (put_le 4 v)
   \<and> memrevifbe be memrev64 (store_native be 8 v) = Some (put_le 8 v)"
  using rev16.store_then_revifbe rev32.store_then_revifbe rev64.store_then_revifbe by blast

lemma intrev64_involution: "0 \<le> v \<Longrightarrow> v < 2 ^ 64 \<Longrightarrow> intrev64 be (intrev64 be v) = v"
  unfolding intrev64_def by (rule rev64.intrev_twice) simp_all

lemma intrev32_involution: "0 \<le> v \<Longrightarrow> v < 2 ^ 32 \<Longrightarrow> intrev32 be (intrev32 be v) = v"
  unfolding intrev32_def by (rule rev32.intrev_twice) simp_all

lemma intrev16_involution: "0 \<le> v \<Longrightarrow> v < 2 ^ 16 \<Longrightarrow> intrev16 be (intrev16 be v) = v"
  unfolding intrev16_def by (rule rev16.intrev_twice) simp_all

end
