(* ===== verification/Interfaces.thy ===== *)
theory Interfaces
  imports Redis_Prelude
begin

text \<open>
  The contracts between the components, as locales: what a client may rely on when it calls
  a container. Operations that touch raw memory return an option, whose \<open>None\<close> is an access
  out of bounds; the contracts say that this does not happen.

  \<^item> \<open>set_impl\<close>: a mutable set with insertion, removal and membership, bounded in size. The
    flag that insertion and removal return tells whether the set changed. Interpreted by the
    integer sets.
  \<^item> \<open>seq_impl\<close>: a double-ended sequence. Interpreted by the doubly linked lists.
  \<^item> \<open>buf_impl\<close>: a growing buffer with a bound on its length. Interpreted by the dynamic strings.
  \<^item> \<open>map_impl\<close>: a finite map whose lookups may reorganise it. Interpreted by the hash tables.
  \<open>insert_all\<close> is the loop of a variadic command such as \<^verbatim>\<open>SADD\<close>: it counts the elements
  that were new.
\<close>

fun insert_all :: "('s \<Rightarrow> 'a \<Rightarrow> ('s \<times> bool) option) \<Rightarrow> 's \<Rightarrow> 'a list \<Rightarrow> ('s \<times> nat) option" where
  "insert_all ins s [] = Some (s, 0)"
| "insert_all ins s (x # xs) =
     do { (s', b) \<leftarrow> ins s x;
          (s'', n) \<leftarrow> insert_all ins s' xs;
          Some (s'', of_bool b + n) }"

locale set_impl =
  fixes empty :: 's
    and ins :: "'s \<Rightarrow> 'a \<Rightarrow> ('s \<times> bool) option"
    and del :: "'s \<Rightarrow> 'a \<Rightarrow> ('s \<times> bool) option"
    and mem :: "'s \<Rightarrow> 'a \<Rightarrow> bool option"
    and elems :: "'s \<Rightarrow> 'a set"
    and inv :: "'s \<Rightarrow> bool"
    and valid :: "'a \<Rightarrow> bool"
    and limit :: nat
  assumes inv_empty: "inv empty"
    and elems_empty: "elems empty = {}"
    and finite_elems: "inv s \<Longrightarrow> finite (elems s)"
    and ins_spec: "inv s \<Longrightarrow> valid x \<Longrightarrow> card (elems s) < limit \<Longrightarrow>
      \<exists>s'. ins s x = Some (s', x \<notin> elems s) \<and> inv s' \<and> elems s' = insert x (elems s)"
    and del_spec: "inv s \<Longrightarrow> valid x \<Longrightarrow>
      \<exists>s'. del s x = Some (s', x \<in> elems s) \<and> inv s' \<and> elems s' = elems s - {x}"
    and mem_spec: "inv s \<Longrightarrow> valid x \<Longrightarrow> mem s x = Some (x \<in> elems s)"
begin

lemma card_ins_le: "inv s \<Longrightarrow> card (insert x (elems s)) \<le> card (elems s) + 1"
  by (simp add: finite_elems card_insert_if)

lemma insert_all_spec:
  "inv s \<Longrightarrow> \<forall>x\<in>set xs. valid x \<Longrightarrow> card (elems s) + length xs \<le> limit \<Longrightarrow>
   \<exists>s'. insert_all ins s xs = Some (s', card (set xs - elems s)) \<and> inv s'
        \<and> elems s' = elems s \<union> set xs"
proof (induction xs arbitrary: s)
  case Nil
  then show ?case by simp
next
  case (Cons x xs)
  obtain s' where s': "ins s x = Some (s', x \<notin> elems s)" "inv s'" "elems s' = insert x (elems s)"
    using ins_spec [of s x] Cons.prems by auto
  have "card (elems s') + length xs \<le> limit"
    using Cons.prems card_ins_le [of s x] s'(3) by simp
  then obtain s'' where s'': "insert_all ins s' xs = Some (s'', card (set xs - elems s'))" "inv s''"
      "elems s'' = elems s' \<union> set xs"
    using Cons.IH [of s'] Cons.prems(2) s'(2) by auto
  have "card (set (x # xs) - elems s) = of_bool (x \<notin> elems s) + card (set xs - elems s')"
  proof (cases "x \<in> elems s")
    case True
    then show ?thesis by (simp add: s'(3) insert_absorb)
  next
    case False
    then have "set (x # xs) - elems s = insert x (set xs - elems s')" by (auto simp: s'(3))
    then show ?thesis using False by (simp add: s'(3))
  qed
  then show ?case using s' s'' by auto
qed

lemma ins_then_mem:
  assumes "inv s" "valid x" "valid y" "card (elems s) < limit"
  shows "\<exists>s' b. ins s x = Some (s', b) \<and> mem s' y = Some (y = x \<or> y \<in> elems s)"
  using ins_spec [OF assms(1,2,4)] mem_spec assms(3) by fastforce

lemma ins_del_cancel:
  assumes "inv s" "valid x" "card (elems s) < limit" "x \<notin> elems s"
  shows "\<exists>s' s''. ins s x = Some (s', True) \<and> del s' x = Some (s'', True) \<and> inv s'' \<and> elems s'' = elems s"
proof -
  obtain s' where s': "ins s x = Some (s', True)" "inv s'" "elems s' = insert x (elems s)"
    using ins_spec [OF assms(1,2,3)] assms(4) by auto
  obtain s'' where "del s' x = Some (s'', True)" "inv s''" "elems s'' = elems s"
    using del_spec [OF s'(2) assms(2)] s'(3) assms(4) by auto
  with s'(1) show ?thesis by blast
qed

end

fun push_all :: "('s \<Rightarrow> 'v \<Rightarrow> 's option) \<Rightarrow> 's \<Rightarrow> 'v list \<Rightarrow> 's option" where
  "push_all push s [] = Some s"
| "push_all push s (v # vs) = do { s' \<leftarrow> push s v; push_all push s' vs }"

locale seq_impl =
  fixes push_front :: "'s \<Rightarrow> 'v \<Rightarrow> 's option"
    and push_back :: "'s \<Rightarrow> 'v \<Rightarrow> 's option"
    and len :: "'s \<Rightarrow> nat"
    and rep :: "'s \<Rightarrow> 'v list \<Rightarrow> bool"
    and room :: "'s \<Rightarrow> bool"
  assumes push_front_spec:
      "rep s xs \<Longrightarrow> room s \<Longrightarrow> \<exists>s'. push_front s v = Some s' \<and> rep s' (v # xs)"
    and push_back_spec:
      "rep s xs \<Longrightarrow> room s \<Longrightarrow> \<exists>s'. push_back s v = Some s' \<and> rep s' (xs @ [v])"
    and no_room: "\<not> room s \<Longrightarrow> push_front s v = None \<and> push_back s v = None"
    and len_spec: "rep s xs \<Longrightarrow> len s = length xs"
begin

text \<open>The loops of \<^verbatim>\<open>LPUSH\<close> and \<^verbatim>\<open>RPUSH\<close>, when the memory allows them to run to the end.\<close>

lemma push_all_back: "rep s xs \<Longrightarrow> push_all push_back s vs = Some s' \<Longrightarrow> rep s' (xs @ vs)"
proof (induction vs arbitrary: s xs)
  case (Cons v vs)
  then obtain s1 where s1: "push_back s v = Some s1" "push_all push_back s1 vs = Some s'"
    by (auto split: bind_splits)
  then have "room s" using no_room by force
  then have "rep s1 (xs @ [v])" using push_back_spec [OF Cons.prems(1), of v] s1(1) by auto
  with Cons.IH s1(2) show ?case by fastforce
qed simp

lemma push_all_front: "rep s xs \<Longrightarrow> push_all push_front s vs = Some s' \<Longrightarrow> rep s' (rev vs @ xs)"
proof (induction vs arbitrary: s xs)
  case (Cons v vs)
  then obtain s1 where s1: "push_front s v = Some s1" "push_all push_front s1 vs = Some s'"
    by (auto split: bind_splits)
  then have "room s" using no_room by force
  then have "rep s1 (v # xs)" using push_front_spec [OF Cons.prems(1), of v] s1(1) by auto
  with Cons.IH s1(2) show ?case by fastforce
qed simp

lemma push_len:
  "rep s xs \<Longrightarrow> room s \<Longrightarrow> \<exists>s'. push_front s v = Some s' \<and> len s' = len s + 1"
  "rep s xs \<Longrightarrow> room s \<Longrightarrow> \<exists>s'. push_back s v = Some s' \<and> len s' = len s + 1"
  using push_front_spec push_back_spec len_spec by fastforce+

end

fun cat_all :: "('s \<Rightarrow> 'a list \<Rightarrow> 's option) \<Rightarrow> 's \<Rightarrow> 'a list list \<Rightarrow> 's option" where
  "cat_all cat s [] = Some s"
| "cat_all cat s (t # ts) = do { s' \<leftarrow> cat s t; cat_all cat s' ts }"

locale buf_impl =
  fixes cat :: "'s \<Rightarrow> 'a list \<Rightarrow> 's option"
    and val :: "'s \<Rightarrow> 'a list"
    and ok :: "'s \<Rightarrow> bool"
    and limit :: nat
  assumes cat_spec: "ok s \<Longrightarrow> length (val s) + length t \<le> limit \<Longrightarrow>
      \<exists>s'. cat s t = Some s' \<and> ok s' \<and> val s' = val s @ t"
begin

lemma cat_all_spec:
  "ok s \<Longrightarrow> length (val s) + length (concat ts) \<le> limit \<Longrightarrow>
   \<exists>s'. cat_all cat s ts = Some s' \<and> ok s' \<and> val s' = val s @ concat ts"
proof (induction ts arbitrary: s)
  case Nil
  then show ?case by simp
next
  case (Cons t ts)
  then obtain s1 where s1: "cat s t = Some s1" "ok s1" "val s1 = val s @ t"
    using cat_spec [of s t] by auto
  with Cons.IH [of s1] Cons.prems(2) show ?case by auto
qed

end

locale map_impl =
  fixes empty :: 's
    and lookup :: "'s \<Rightarrow> 'k \<Rightarrow> ('s \<times> 'v option) option"
    and add :: "'s \<Rightarrow> 'k \<Rightarrow> 'v \<Rightarrow> ('s \<times> bool) option"
    and replace :: "'s \<Rightarrow> 'k \<Rightarrow> 'v \<Rightarrow> ('s \<times> bool) option"
    and delete :: "'s \<Rightarrow> 'k \<Rightarrow> ('s \<times> bool) option"
    and mapping :: "'s \<Rightarrow> 'k \<rightharpoonup> 'v"
    and inv :: "'s \<Rightarrow> bool"
    and limit :: nat
  assumes inv_empty: "inv empty"
    and mapping_empty: "mapping empty = Map.empty"
    and finite_mapping: "inv s \<Longrightarrow> finite (dom (mapping s))"
    and lookup_spec: "inv s \<Longrightarrow>
      \<exists>s'. lookup s k = Some (s', mapping s k) \<and> inv s' \<and> mapping s' = mapping s"
    and add_spec: "inv s \<Longrightarrow> card (dom (mapping s)) < limit \<Longrightarrow>
      \<exists>s'. add s k v = Some (s', k \<notin> dom (mapping s)) \<and> inv s'
        \<and> mapping s' = (if k \<in> dom (mapping s) then mapping s else (mapping s)(k \<mapsto> v))"
    and replace_spec: "inv s \<Longrightarrow> card (dom (mapping s)) < limit \<Longrightarrow>
      \<exists>s'. replace s k v = Some (s', k \<notin> dom (mapping s)) \<and> inv s' \<and> mapping s' = (mapping s)(k \<mapsto> v)"
    and delete_spec: "inv s \<Longrightarrow>
      \<exists>s'. delete s k = Some (s', k \<in> dom (mapping s)) \<and> inv s' \<and> mapping s' = (mapping s)(k := None)"
begin

lemma replace_lookup:
  assumes "inv s" "card (dom (mapping s)) < limit"
  shows "\<exists>s1 b s2. replace s k v = Some (s1, b) \<and> lookup s1 k' = Some (s2, if k' = k then Some v else mapping s k') \<and> inv s2"
proof -
  obtain s1 where "replace s k v = Some (s1, k \<notin> dom (mapping s))" "inv s1" "mapping s1 = (mapping s)(k \<mapsto> v)"
    using replace_spec [OF assms] by blast
  moreover from this obtain s2 where "lookup s1 k' = Some (s2, mapping s1 k')" "inv s2" using lookup_spec by blast
  ultimately show ?thesis by auto
qed

lemma delete_lookup:
  assumes "inv s"
  shows "\<exists>s1 b s2. delete s k = Some (s1, b) \<and> lookup s1 k' = Some (s2, if k' = k then None else mapping s k') \<and> inv s2"
proof -
  obtain s1 where "delete s k = Some (s1, k \<in> dom (mapping s))" "inv s1" "mapping s1 = (mapping s)(k := None)"
    using delete_spec [OF assms] by blast
  moreover from this obtain s2 where "lookup s1 k' = Some (s2, mapping s1 k')" "inv s2" using lookup_spec by blast
  ultimately show ?thesis by auto
qed

end

end
