(* ===== verification/Intset.thy ===== *)
theory Intset
  imports Endian Interfaces
begin

text \<open>
  \<^verbatim>\<open>intset.c\<close>: the sorted array of integers that holds a small set. The struct is a record
  whose \<open>is_contents\<close> are the bytes of the flexible array member, \<open>is_encoding\<close> (2, 4 or 8)
  bytes per element in little endian order; on a little endian host the \<^verbatim>\<open>ifbe\<close> macros
  around every access are empty, and theory \<open>Endian\<close> shows that on a big endian host they
  leave the same bytes. Lengths and byte counts are 32 bit and wrap. Every access to the array
  is checked against the allocation: \<open>None\<close> is an access out of bounds.

  The lemmas relate the bytes to the strictly sorted list \<open>intset_vals\<close> and show that search,
  insertion (with the upgrade of the encoding) and removal implement the set operations,
  never leave the allocation and keep the invariant \<open>intset_ok\<close>.
\<close>

section \<open>The data and the operations\<close>

record intset =
  is_encoding :: nat
  is_length :: nat
  is_contents :: mem

abbreviation (input) INTSET_ENC_INT16 :: nat where "INTSET_ENC_INT16 \<equiv> 2"
abbreviation (input) INTSET_ENC_INT32 :: nat where "INTSET_ENC_INT32 \<equiv> 4"
abbreviation (input) INTSET_ENC_INT64 :: nat where "INTSET_ENC_INT64 \<equiv> 8"

definition intsetValueEncoding :: "int \<Rightarrow> nat" where
  "intsetValueEncoding v =
     (if v < - (2 ^ 31) \<or> v > 2 ^ 31 - 1 then INTSET_ENC_INT64
      else if v < - (2 ^ 15) \<or> v > 2 ^ 15 - 1 then INTSET_ENC_INT32
      else INTSET_ENC_INT16)"

definition intsetGetEncoded :: "intset \<Rightarrow> nat \<Rightarrow> nat \<Rightarrow> int option" where
  "intsetGetEncoded is pos enc =
     (if enc = INTSET_ENC_INT64 then map_option get_sle (mem_read (pos * 8) 8 (is_contents is))
      else if enc = INTSET_ENC_INT32 then map_option get_sle (mem_read (pos * 4) 4 (is_contents is))
      else map_option get_sle (mem_read (pos * 2) 2 (is_contents is)))"

definition intsetGetPos :: "intset \<Rightarrow> nat \<Rightarrow> int option" where
  "intsetGetPos is pos = intsetGetEncoded is pos (is_encoding is)"

definition intsetSet :: "intset \<Rightarrow> nat \<Rightarrow> int \<Rightarrow> intset option" where
  "intsetSet is pos value =
     (let put = (\<lambda>w. map_option (\<lambda>c. is\<lparr>is_contents := c\<rparr>)
                       (mem_write (pos * w) (put_le w value) (is_contents is)))
      in if is_encoding is = INTSET_ENC_INT64 then put 8
         else if is_encoding is = INTSET_ENC_INT32 then put 4
         else put 2)"

definition intsetNew :: intset where
  "intsetNew = \<lparr>is_encoding = INTSET_ENC_INT16, is_length = 0, is_contents = []\<rparr>"

definition intsetResize :: "(nat \<Rightarrow> u8) \<Rightarrow> intset \<Rightarrow> nat \<Rightarrow> intset" where
  "intsetResize junk is len =
     (let size = wrap32 (len * is_encoding is)
      in is\<lparr>is_contents := mem_realloc junk size (is_contents is)\<rparr>)"

text \<open>
  The loop of \<^verbatim>\<open>intsetSearch\<close>; it returns the final values of \<open>lo\<close>, \<open>mid\<close> and \<open>cur\<close>.
  \<open>lo\<close> and \<open>hi\<close> (\<^verbatim>\<open>min\<close> and \<^verbatim>\<open>max\<close>) are C ints, so their unsigned sum stays below \<open>2 ^ 32\<close> and the
  shifted sum is the exact mean.
\<close>

function intsetSearch_loop ::
  "intset \<Rightarrow> int \<Rightarrow> int \<Rightarrow> int \<Rightarrow> int \<Rightarrow> int \<Rightarrow> (int \<times> int \<times> int) option" where
  "intsetSearch_loop is value lo hi mid cur =
     (if hi \<ge> lo then
        let mid' = (lo + hi) div 2
        in (case intsetGetPos is (nat mid') of
              None \<Rightarrow> None
            | Some cur' \<Rightarrow>
                if value > cur' then intsetSearch_loop is value (mid' + 1) hi mid' cur'
                else if value < cur' then intsetSearch_loop is value lo (mid' - 1) mid' cur'
                else Some (lo, mid', cur'))
      else Some (lo, mid, cur))"
  by pat_completeness auto
termination
  by (relation "measure (\<lambda>(is, value, lo, hi, mid, cur). nat (hi - lo + 1))") auto

declare intsetSearch_loop.simps [simp del]

definition intsetSearch :: "intset \<Rightarrow> int \<Rightarrow> (bool \<times> nat) option" where
  "intsetSearch is value =
     (if is_length is = 0 then Some (False, 0)
      else do {
        last \<leftarrow> intsetGetPos is (is_length is - 1);
        if value > last then Some (False, is_length is)
        else do {
          first \<leftarrow> intsetGetPos is 0;
          if value < first then Some (False, 0)
          else do {
            (lo, mid, cur) \<leftarrow> intsetSearch_loop is value 0 (int (is_length is) - 1) (- 1) (- 1);
            if value = cur then Some (True, nat mid) else Some (False, nat lo)
          }
        }
      })"

fun intsetUpgrade_loop :: "nat \<Rightarrow> nat \<Rightarrow> nat \<Rightarrow> intset \<Rightarrow> intset option" where
  "intsetUpgrade_loop curenc prepend 0 is = Some is"
| "intsetUpgrade_loop curenc prepend (Suc n) is =
     do { v \<leftarrow> intsetGetEncoded is n curenc;
          is' \<leftarrow> intsetSet is (n + prepend) v;
          intsetUpgrade_loop curenc prepend n is' }"

definition intsetUpgradeAndAdd :: "(nat \<Rightarrow> u8) \<Rightarrow> intset \<Rightarrow> int \<Rightarrow> intset option" where
  "intsetUpgradeAndAdd junk is value =
     (let curenc = is_encoding is; newenc = intsetValueEncoding value;
          len = is_length is; prepend = (if value < 0 then 1 else 0);
          is1 = intsetResize junk (is\<lparr>is_encoding := newenc\<rparr>) (wrap32 (is_length is + 1))
      in do {
        is2 \<leftarrow> intsetUpgrade_loop curenc prepend len is1;
        is3 \<leftarrow> (if prepend = 1 then intsetSet is2 0 value
                else intsetSet is2 (is_length is2) value);
        Some (is3\<lparr>is_length := wrap32 (is_length is3 + 1)\<rparr>)
      })"

definition intsetMoveTail :: "intset \<Rightarrow> nat \<Rightarrow> nat \<Rightarrow> intset option" where
  "intsetMoveTail is from to =
     (let n = sub32 (is_length is) from;
          w = (if is_encoding is = INTSET_ENC_INT64 then 8
               else if is_encoding is = INTSET_ENC_INT32 then 4 else 2)
      in map_option (\<lambda>c. is\<lparr>is_contents := c\<rparr>)
           (mem_move (to * w) (from * w) (wrap32 (n * w)) (is_contents is)))"

text \<open>The result pairs the new set with the flag \<open>success\<close>.\<close>

definition intsetAdd :: "(nat \<Rightarrow> u8) \<Rightarrow> intset \<Rightarrow> int \<Rightarrow> (intset \<times> bool) option" where
  "intsetAdd junk is value =
     (let valenc = intsetValueEncoding value
      in if valenc > is_encoding is
         then map_option (\<lambda>is'. (is', True)) (intsetUpgradeAndAdd junk is value)
         else do {
           (found, pos) \<leftarrow> intsetSearch is value;
           if found then Some (is, False)
           else do {
             let is1 = intsetResize junk is (wrap32 (is_length is + 1));
             is2 \<leftarrow> (if pos < is_length is1 then intsetMoveTail is1 pos (pos + 1) else Some is1);
             is3 \<leftarrow> intsetSet is2 pos value;
             Some (is3\<lparr>is_length := wrap32 (is_length is3 + 1)\<rparr>, True)
           }
         })"

definition intsetRemove :: "(nat \<Rightarrow> u8) \<Rightarrow> intset \<Rightarrow> int \<Rightarrow> (intset \<times> bool) option" where
  "intsetRemove junk is value =
     (let valenc = intsetValueEncoding value
      in if valenc \<le> is_encoding is then do {
           (found, pos) \<leftarrow> intsetSearch is value;
           if found then do {
             let len = is_length is;
             is1 \<leftarrow> (if pos < sub32 len 1 then intsetMoveTail is (pos + 1) pos else Some is);
             let is2 = intsetResize junk is1 (sub32 len 1);
             Some (is2\<lparr>is_length := sub32 len 1\<rparr>, True)
           } else Some (is, False)
         } else Some (is, False))"

definition intsetFind :: "intset \<Rightarrow> int \<Rightarrow> bool option" where
  "intsetFind is value =
     (let valenc = intsetValueEncoding value
      in if valenc \<le> is_encoding is then map_option fst (intsetSearch is value) else Some False)"

text \<open>\<open>r\<close> is the result of \<^verbatim>\<open>rand()\<close>; an empty set is a division by zero.\<close>

definition intsetRandom :: "nat \<Rightarrow> intset \<Rightarrow> int option" where
  "intsetRandom r is =
     (if is_length is = 0 then None else intsetGetPos is (r mod is_length is))"

text \<open>The outer \<open>None\<close> is an access out of bounds, the inner one the return value 0.\<close>

definition intsetGet :: "intset \<Rightarrow> nat \<Rightarrow> int option option" where
  "intsetGet is pos =
     (if pos < is_length is then map_option Some (intsetGetPos is pos) else Some None)"

definition intsetLen :: "intset \<Rightarrow> nat" where
  "intsetLen is = is_length is"

definition intsetBlobLen :: "intset \<Rightarrow> nat" where
  "intsetBlobLen is = 8 + wrap32 (is_length is * is_encoding is)"

section \<open>Specification\<close>

definition intset_vals :: "intset \<Rightarrow> int list" where
  "intset_vals is =
     map (\<lambda>i. get_sle (take (is_encoding is) (drop (i * is_encoding is) (is_contents is))))
         [0..<is_length is]"

definition intset_ok :: "intset \<Rightarrow> bool" where
  "intset_ok is \<longleftrightarrow>
     is_encoding is \<in> {2, 4, 8}
     \<and> length (is_contents is) = is_length is * is_encoding is
     \<and> is_length is < 2 ^ 29
     \<and> sorted_wrt (<) (intset_vals is)"

section \<open>Arrays of encoded integers\<close>

definition enc_list :: "nat \<Rightarrow> int list \<Rightarrow> mem" where
  "enc_list e vs = concat (map (put_le e) vs)"

lemma enc_list_simps [simp]:
  "enc_list e [] = []" "enc_list e (v # vs) = put_le e v @ enc_list e vs"
  "enc_list e (vs @ ws) = enc_list e vs @ enc_list e ws"
  by (simp_all add: enc_list_def)

lemma length_enc_list [simp]: "length (enc_list e vs) = length vs * e"
  by (induction vs) auto

lemma take_enc_list: "take (i * e) (enc_list e vs) = enc_list e (take i vs)"
proof (induction vs arbitrary: i)
  case (Cons v vs)
  then show ?case by (cases i) auto
qed simp

lemma drop_enc_list: "drop (i * e) (enc_list e vs) = enc_list e (drop i vs)"
proof (induction vs arbitrary: i)
  case (Cons v vs)
  then show ?case by (cases i) auto
qed simp

lemmas enc_list_cut = take_enc_list drop_enc_list

lemma read_enc_list:
  assumes "i < length vs"
  shows "take e (drop (i * e) (enc_list e vs)) = put_le e (vs ! i)"
proof -
  have "take (1 * e) (enc_list e (drop i vs)) = enc_list e (take 1 (drop i vs))"
    by (rule take_enc_list)
  also have "take 1 (drop i vs) = [vs ! i]"
    using assms by (simp add: take_Suc_conv_app_nth flip: Cons_nth_drop_Suc)
  finally show ?thesis by (simp add: drop_enc_list)
qed

lemma write_enc_list:
  assumes "i < length vs"
  shows "mem_write (i * e) (put_le e v) (enc_list e vs) = Some (enc_list e (vs[i := v]))"
proof -
  have "Suc i * e \<le> length vs * e"
    using assms by (intro mult_le_mono1) simp
  then have "i * e + e \<le> length (enc_list e vs)" by simp
  moreover have "drop (i * e + e) (enc_list e vs) = enc_list e (drop (Suc i) vs)"
    using drop_enc_list [of "Suc i" e vs] by (simp add: add.commute)
  ultimately show ?thesis
    using assms by (simp add: mem_write_def take_enc_list upd_conv_take_nth_drop)
qed

lemma enc_list_exists:
  "length bs = k * e \<Longrightarrow>
   \<exists>vs. length vs = k \<and> bs = enc_list e vs \<and> (\<forall>v\<in>set vs. fits_signed e v)"
proof (induction k arbitrary: bs)
  case (Suc k)
  then have len: "length (take e bs) = e" "length (drop e bs) = k * e" by simp_all
  from Suc.IH [OF len(2)] obtain vs where
    vs: "length vs = k" "drop e bs = enc_list e vs" "\<forall>v\<in>set vs. fits_signed e v" by blast
  have "take e bs = put_le e (get_sle (take e bs))"
    using put_le_get_sle [of "take e bs"] len by simp
  then have "bs = enc_list e (get_sle (take e bs) # vs)"
    using vs by (metis append_take_drop_id enc_list_simps(2))
  moreover have "fits_signed e (get_sle (take e bs))"
    using fits_get_sle [of "take e bs"] len by simp
  ultimately show ?case
    using vs by (intro exI [of _ "get_sle (take e bs) # vs"]) auto
qed simp

section \<open>The set as a list of integers\<close>

text \<open>\<open>intset_rep is vs\<close>: the bytes of \<open>is\<close> are those of the elements \<open>vs\<close>.\<close>

definition intset_rep :: "intset \<Rightarrow> int list \<Rightarrow> bool" where
  "intset_rep is vs \<longleftrightarrow>
     is_encoding is \<in> {2, 4, 8} \<and> is_contents is = enc_list (is_encoding is) vs
     \<and> (\<forall>v\<in>set vs. fits_signed (is_encoding is) v)"

lemma intset_repD:
  assumes "intset_rep is vs"
  shows "is_encoding is \<in> {2, 4, 8}" "is_contents is = enc_list (is_encoding is) vs"
    "\<And>v. v \<in> set vs \<Longrightarrow> fits_signed (is_encoding is) v"
  using assms by (auto simp: intset_rep_def)

lemma vals_of_rep: "intset_rep is vs \<Longrightarrow> is_length is = length vs \<Longrightarrow> intset_vals is = vs"
  by (rule nth_equalityI) (auto simp: intset_vals_def intset_rep_def read_enc_list get_sle_put_le)

lemma rep_of_ok:
  assumes "intset_ok is"
  shows "intset_rep is (intset_vals is)" "is_length is = length (intset_vals is)"
    "sorted_wrt (<) (intset_vals is)" "is_length is < 2 ^ 29"
proof -
  obtain vs where vs: "length vs = is_length is" "is_contents is = enc_list (is_encoding is) vs"
      "\<forall>v\<in>set vs. fits_signed (is_encoding is) v"
    using assms enc_list_exists unfolding intset_ok_def by metis
  with assms have rep: "intset_rep is vs" by (auto simp: intset_rep_def intset_ok_def)
  with vs(1) have "intset_vals is = vs" by (simp add: vals_of_rep)
  with rep vs(1) show "intset_rep is (intset_vals is)" "is_length is = length (intset_vals is)"
    by simp_all
qed (use assms in \<open>auto simp: intset_ok_def\<close>)

lemma ok_of_rep:
  "intset_rep is vs \<Longrightarrow> is_length is = length vs \<Longrightarrow> sorted_wrt (<) vs \<Longrightarrow> length vs < 2 ^ 29
   \<Longrightarrow> intset_ok is"
  using vals_of_rep [of "is" vs] by (auto simp: intset_ok_def intset_rep_def)

lemma get_encoded_rep:
  assumes "intset_rep is vs" "i < length vs"
  shows "intsetGetEncoded is i (is_encoding is) = Some (vs ! i)"
proof -
  have "Suc i * is_encoding is \<le> length vs * is_encoding is"
    using assms by (intro mult_le_mono1) simp
  then have "i * is_encoding is + is_encoding is \<le> length (is_contents is)"
    using assms by (simp add: intset_rep_def)
  then have "mem_read (i * is_encoding is) (is_encoding is) (is_contents is)
             = Some (put_le (is_encoding is) (vs ! i))"
    using assms by (simp add: mem_read_def intset_rep_def read_enc_list)
  with assms show ?thesis
    by (auto simp: intsetGetEncoded_def intset_rep_def get_sle_put_le)
qed

lemma get_rep: "intset_rep is vs \<Longrightarrow> i < length vs \<Longrightarrow> intsetGetPos is i = Some (vs ! i)"
  by (simp add: intsetGetPos_def get_encoded_rep)

lemma set_eq_write:
  assumes "is_encoding is \<in> {2, 4, 8}"
  shows "intsetSet is pos v =
    map_option (\<lambda>c. is\<lparr>is_contents := c\<rparr>)
      (mem_write (pos * is_encoding is) (put_le (is_encoding is) v) (is_contents is))"
  using assms by (auto simp: intsetSet_def Let_def)

lemma set_rep:
  assumes "intset_rep is vs" "i < length vs" "fits_signed (is_encoding is) v"
  shows "\<exists>is'. intsetSet is i v = Some is' \<and> intset_rep is' (vs[i := v])
               \<and> is_length is' = is_length is \<and> is_encoding is' = is_encoding is"
  using assms by (auto simp: set_eq_write intset_rep_def write_enc_list dest: set_update_subset_insert [THEN subsetD])

lemma resize_rep_grow:
  assumes "intset_rep is vs" "length vs + 1 < 2 ^ 29"
  shows "\<exists>w. intset_rep (intsetResize junk is (length vs + 1)) (vs @ [w])"
proof -
  let ?e = "is_encoding is"
  have e: "?e \<in> {2, 4, 8}" and c: "is_contents is = enc_list ?e vs"
    using assms by (simp_all add: intset_rep_def)
  have "(length vs + 1) * ?e < 2 ^ 32" using e assms(2) by auto
  then have r: "is_contents (intsetResize junk is (length vs + 1))
           = enc_list ?e vs @ map junk [length vs * ?e..<length vs * ?e + ?e]"
    by (simp add: intsetResize_def c mem_realloc_grow add.commute)
  obtain ws where "length ws = 1" "map junk [length vs * ?e..<length vs * ?e + ?e] = enc_list ?e ws"
      "\<forall>v\<in>set ws. fits_signed ?e v"
    using enc_list_exists [of "map junk [length vs * ?e..<length vs * ?e + ?e]" 1 ?e] by auto
  then obtain w where "intset_rep (intsetResize junk is (length vs + 1)) (vs @ [w])"
    using assms(1) r by (auto simp: intset_rep_def length_Suc_conv intsetResize_def Let_def)
  then show ?thesis by blast
qed

lemma resize_fields [simp]:
  "is_length (intsetResize junk is n) = is_length is"
  "is_encoding (intsetResize junk is n) = is_encoding is"
  by (simp_all add: intsetResize_def Let_def)

lemma resize_rep_shrink:
  assumes "intset_rep is vs" "n \<le> length vs" "n < 2 ^ 29"
  shows "intset_rep (intsetResize junk is n) (take n vs)"
proof -
  have "n * is_encoding is < 2 ^ 32" "n * is_encoding is \<le> length vs * is_encoding is"
    using assms by (auto simp: intset_rep_def)
  with assms show ?thesis
    by (auto simp: intset_rep_def intsetResize_def mem_realloc_shrink take_enc_list dest: in_set_takeD)
qed

lemma move_tail_rep:
  assumes "intset_rep is vs" "is_length is = n" "n < 2 ^ 29"
    "from \<le> n" "n \<le> length vs" "to + (n - from) \<le> length vs"
  shows "\<exists>is'. intsetMoveTail is from to = Some is'
     \<and> intset_rep is' (take to vs @ take (n - from) (drop from vs) @ drop (to + (n - from)) vs)
     \<and> is_length is' = n \<and> is_encoding is' = is_encoding is"
proof -
  let ?e = "is_encoding is" and ?k = "n - from"
  have e: "?e \<in> {2, 4, 8}" and c: "is_contents is = enc_list ?e vs"
    using assms(1) by (simp_all add: intset_rep_def)
  have k: "?k * ?e < 2 ^ 32" using e assms(3) by auto
  have "(from + ?k) * ?e \<le> length vs * ?e" "(to + ?k) * ?e \<le> length vs * ?e"
    using assms by (auto intro!: mult_le_mono1)
  then have "mem_move (to * ?e) (from * ?e) (?k * ?e) (is_contents is)
    = Some (enc_list ?e (take to vs @ take ?k (drop from vs) @ drop (to + ?k) vs))"
    using drop_enc_list [of "to + ?k" ?e vs]
    by (simp add: mem_move_Some c enc_list_cut add_mult_distrib)
  moreover have "intsetMoveTail is from to
    = map_option (\<lambda>c. is\<lparr>is_contents := c\<rparr>) (mem_move (to * ?e) (from * ?e) (?k * ?e) (is_contents is))"
    using e assms k by (auto simp: intsetMoveTail_def Let_def)
  ultimately show ?thesis
    using assms(1,2) by (auto simp: intset_rep_def dest: in_set_takeD in_set_dropD)
qed

section \<open>Search\<close>

text \<open>What the position \<open>pos\<close> of a search for \<open>v\<close> says, when it was found and when it was
  not.\<close>

definition search_post :: "int list \<Rightarrow> int \<Rightarrow> bool \<Rightarrow> int \<Rightarrow> bool" where
  "search_post vs v found pos \<longleftrightarrow>
     0 \<le> pos \<and>
     (if found then nat pos < length vs \<and> vs ! nat pos = v
      else nat pos \<le> length vs \<and> (\<forall>i < nat pos. vs ! i < v)
           \<and> (\<forall>i < length vs. nat pos \<le> i \<longrightarrow> v < vs ! i))"

lemma search_loop_correct:
  assumes "intset_rep is vs" "sorted_wrt (<) vs"
    and "0 \<le> lo" "hi < int (length vs)" "lo \<le> hi + 1"
    and "\<And>i. i < nat lo \<Longrightarrow> vs ! i < v"
    and "\<And>i. hi < int i \<Longrightarrow> i < length vs \<Longrightarrow> v < vs ! i"
    and "hi < lo \<Longrightarrow> cur \<noteq> v"
  shows "\<exists>lo' mid' cur'. intsetSearch_loop is v lo hi mid cur = Some (lo', mid', cur')
     \<and> search_post vs v (v = cur') (if v = cur' then mid' else lo')"
  using assms
proof (induction "is" v lo hi mid cur rule: intsetSearch_loop.induct)
  case (1 "is" v lo hi mid cur)
  let ?m = "(lo + hi) div 2"
  note unf = intsetSearch_loop.simps [of "is" v lo hi mid cur]
  show ?case
  proof (cases "lo \<le> hi")
    case True
    then have m: "lo \<le> ?m" "?m \<le> hi" by auto
    then have ml: "nat ?m < length vs" using "1.prems" by linarith
    then have cur: "intsetGetPos is (nat ?m) = Some (vs ! nat ?m)"
      using "1.prems"(1) by (rule get_rep [rotated])
    have less: "vs ! i < vs ! j" if "i < j" "j < length vs" for i j
      using "1.prems"(2) that by (simp add: sorted_wrt_iff_nth_less)
    consider (gt) "vs ! nat ?m < v" | (lt) "v < vs ! nat ?m" | (eq) "v = vs ! nat ?m" by linarith
    then show ?thesis
    proof cases
      case gt
      have below: "vs ! i < v" if "i < nat (?m + 1)" for i
      proof (cases "i = nat ?m")
        case False
        then have "i < nat ?m" using that m "1.prems"(3) by linarith
        with less [OF _ ml] gt show ?thesis by force
      qed (use gt in simp)
      have step: "intsetSearch_loop is v lo hi mid cur
          = intsetSearch_loop is v (?m + 1) hi ?m (vs ! nat ?m)"
        using True gt by (simp add: unf cur Let_def)
      show ?thesis unfolding step
        by (rule "1.IH"(1) [OF True refl cur gt "1.prems"(1,2)]) (use "1.prems" m below gt [THEN less_imp_neq] in auto)
    next
      case lt
      have above: "v < vs ! i" if "?m - 1 < int i" "i < length vs" for i
      proof (cases "i = nat ?m")
        case False
        then have "nat ?m < i" using that m "1.prems"(3) by linarith
        with less that(2) lt show ?thesis by force
      qed (use lt in simp)
      have step: "intsetSearch_loop is v lo hi mid cur
          = intsetSearch_loop is v lo (?m - 1) ?m (vs ! nat ?m)"
        using True lt by (simp add: unf cur Let_def)
      show ?thesis unfolding step
        by (rule "1.IH"(2) [OF True refl cur less_not_sym [OF lt] lt "1.prems"(1,2)])
          (use "1.prems" m above lt [THEN less_imp_neq] in auto)
    next
      case eq
      then have "intsetSearch_loop is v lo hi mid cur = Some (lo, ?m, v)"
        unfolding unf using True cur eq [symmetric] by (simp add: Let_def)
      then show ?thesis using m ml eq "1.prems"(3) by (auto simp: search_post_def)
    qed
  next
    case False
    then show ?thesis using "1.prems" by (auto simp: unf search_post_def)
  qed
qed

lemma search_rep:
  assumes "intset_rep is vs" "is_length is = length vs" "sorted_wrt (<) vs"
  shows "\<exists>found pos. intsetSearch is v = Some (found, pos) \<and> search_post vs v found (int pos)"
proof (cases "vs = []")
  case True
  then show ?thesis using assms
    by (auto simp: intsetSearch_def search_post_def intro: exI [of _ False])
next
  case False
  let ?n = "length vs"
  have n: "?n > 0" "?n - 1 < ?n" "0 < ?n" using False by auto
  have less: "vs ! i \<le> vs ! j" if "i \<le> j" "j < length vs" for i j
    using sorted_wrt_nth_less [OF assms(3), of i j] that by (cases "i = j") auto
  have last: "intsetGetPos is (?n - 1) = Some (vs ! (?n - 1))"
    and first: "intsetGetPos is 0 = Some (vs ! 0)"
    using get_rep [OF assms(1)] n by auto
  consider "v > vs ! (?n - 1)" | "v \<le> vs ! (?n - 1)" "v < vs ! 0"
    | "v \<le> vs ! (?n - 1)" "vs ! 0 \<le> v" by linarith
  then show ?thesis
  proof cases
    case 1
    then have "vs ! i < v" if "i < ?n" for i
      using less [of i "?n - 1"] that by force
    with 1 show ?thesis using False assms(2) last by (simp add: intsetSearch_def search_post_def ex_bool_eq)
  next
    case 2
    then have "v < vs ! i" if "i < ?n" for i
      using less [of 0 i] that by force
    with 2 show ?thesis
      using False assms(2) last first by (simp add: intsetSearch_def search_post_def ex_bool_eq)
  next
    case 3
    have "\<exists>lo' mid' cur'. intsetSearch_loop is v 0 (int ?n - 1) (- 1) (- 1) = Some (lo', mid', cur')
       \<and> search_post vs v (v = cur') (if v = cur' then mid' else lo')"
      by (rule search_loop_correct [OF assms(1,3)]) (use n in auto)
    then obtain lo' mid' cur' where
      loop: "intsetSearch_loop is v 0 (int ?n - 1) (- 1) (- 1) = Some (lo', mid', cur')"
      and post: "search_post vs v (v = cur') (if v = cur' then mid' else lo')" by blast
    show ?thesis
      using 3 False assms(2) last first loop post
      by (cases "v = cur'") (auto simp: intsetSearch_def search_post_def)
  qed
qed

section \<open>Insertion and removal\<close>

lemma encoding_cases: "intsetValueEncoding v \<in> {2, 4, 8}"
  by (simp add: intsetValueEncoding_def)

lemma fits_encoding:
  assumes "int64_range v" "e \<in> {2, 4, 8}"
  shows "fits_signed e v \<longleftrightarrow> intsetValueEncoding v \<le> e"
  using assms by (auto simp: fits_signed_def intsetValueEncoding_def)

lemma insert_position:
  assumes "search_post vs v False (int pos)" "sorted_wrt (<) vs"
  shows "sorted_wrt (<) (take pos vs @ v # drop pos vs)" "v \<notin> set vs"
    "set (take pos vs @ v # drop pos vs) = insert v (set vs)"
proof -
  have post: "pos \<le> length vs" "\<forall>i < pos. vs ! i < v" "\<forall>i < length vs. pos \<le> i \<longrightarrow> v < vs ! i"
    using assms(1) by (auto simp: search_post_def)
  have lo: "\<forall>x \<in> set (take pos vs). x < v" and hi: "\<forall>x \<in> set (drop pos vs). v < x"
    using post by (auto simp: in_set_conv_nth)
  have "sorted_wrt (<) (take pos vs @ drop pos vs)" using assms(2) by simp
  then show "sorted_wrt (<) (take pos vs @ v # drop pos vs)"
    using lo hi unfolding sorted_wrt_append by fastforce
  have un: "set vs = set (take pos vs) \<union> set (drop pos vs)"
    by (metis append_take_drop_id set_append)
  with lo hi show "v \<notin> set vs" by blast
  from un show "set (take pos vs @ v # drop pos vs) = insert v (set vs)" by auto
qed

lemma upgrade_loop_rep:
  assumes "is_encoding is = new" "new \<in> {2, 4, 8}" "cur \<in> {2, 4, 8}" "cur \<le> new"
    and "\<forall>v\<in>set vs. fits_signed cur v" "k \<le> length vs"
    and "length (is_contents is) = (length vs + 1) * new" "p \<le> 1"
    and "take (k * cur) (is_contents is) = enc_list cur (take k vs)"
    and "take ((length vs - k) * new) (drop ((k + p) * new) (is_contents is)) = enc_list new (drop k vs)"
  shows "\<exists>is'. intsetUpgrade_loop cur p k is = Some is'
     \<and> is_encoding is' = new \<and> is_length is' = is_length is
     \<and> length (is_contents is') = (length vs + 1) * new
     \<and> take (length vs * new) (drop (p * new) (is_contents is')) = enc_list new vs"
  using assms
proof (induction k arbitrary: "is")
  case 0
  then show ?case by simp
next
  case (Suc k)
  let ?c = "is_contents is"
  have k: "k < length vs" using Suc.prems by simp
  have "Suc k * cur \<le> (length vs + 1) * new"
    using Suc.prems by (intro mult_le_mono) auto
  then have bnd: "k * cur + cur \<le> length ?c" using Suc.prems by simp
  have "take cur (drop (k * cur) ?c) = drop (k * cur) (take (Suc k * cur) ?c)"
    by (simp add: drop_take)
  also have "\<dots> = put_le cur (vs ! k)"
    unfolding Suc.prems(9) drop_enc_list using k by (simp add: take_Suc_conv_app_nth)
  finally have "take cur (drop (k * cur) ?c) = put_le cur (vs ! k)" .
  then have get: "intsetGetEncoded is k cur = Some (vs ! k)"
    using bnd Suc.prems(3,5) k
    by (auto simp: intsetGetEncoded_def mem_read_def get_sle_put_le)
  have "Suc (k + p) * new \<le> (length vs + 1) * new"
    using k Suc.prems by (intro mult_le_mono1) auto
  then have wb: "(k + p) * new + new \<le> length ?c" using Suc.prems by simp
  define c' where "c' = take ((k + p) * new) ?c @ put_le new (vs ! k) @ drop ((k + p) * new + new) ?c"
  have set: "intsetSet is (k + p) (vs ! k) = Some (is\<lparr>is_contents := c'\<rparr>)"
    using Suc.prems(1,2) wb by (simp add: set_eq_write mem_write_def c'_def)
  have "k * cur \<le> (k + p) * new" using Suc.prems(4) by (intro mult_le_mono) auto
  then have front: "take (k * cur) c' = enc_list cur (take k vs)"
  proof -
    have "take (k * cur) c' = take (k * cur) ?c"
      using \<open>k * cur \<le> (k + p) * new\<close> wb by (simp add: c'_def)
    also have "\<dots> = take (k * cur) (take (Suc k * cur) ?c)" by simp
    also have "\<dots> = enc_list cur (take k vs)"
      unfolding Suc.prems(9) take_enc_list by simp
    finally show ?thesis .
  qed
  have "drop ((k + p) * new) c' = put_le new (vs ! k) @ drop ((Suc k + p) * new) ?c"
    using wb by (simp add: c'_def algebra_simps)
  then have rear: "take ((length vs - k) * new) (drop ((k + p) * new) c') = enc_list new (drop k vs)"
    using Suc.prems(10) Suc_diff_Suc [OF k, symmetric] Cons_nth_drop_Suc [OF k, symmetric] by simp
  have "\<exists>is'. intsetUpgrade_loop cur p k (is\<lparr>is_contents := c'\<rparr>) = Some is'
     \<and> is_encoding is' = new \<and> is_length is' = is_length (is\<lparr>is_contents := c'\<rparr>)
     \<and> length (is_contents is') = (length vs + 1) * new
     \<and> take (length vs * new) (drop (p * new) (is_contents is')) = enc_list new vs"
    by (rule Suc.IH) (use Suc.prems wb front rear in \<open>auto simp: c'_def\<close>)
  then show ?case by (simp add: get set)
qed

lemma enc_list_take_one:
  assumes "length bs = length vs * e + e" "take (length vs * e) (drop (p * e) bs) = enc_list e vs" "p \<le> 1"
  shows "\<exists>w. bs = enc_list e (if p = 1 then w # vs else vs @ [w])"
proof (cases "p = 1")
  case True
  then have "drop e bs = enc_list e vs" using assms by simp
  moreover obtain ws where "length ws = 1" "take e bs = enc_list e ws"
    using enc_list_exists [of "take e bs" 1 e] assms(1) by auto
  ultimately have "bs = enc_list e (ws @ vs)" "length ws = 1"
    using append_take_drop_id [of e bs] by simp_all
  with True show ?thesis by (auto simp: length_Suc_conv)
next
  case False
  then have "take (length vs * e) bs = enc_list e vs" using assms by (cases p) auto
  moreover obtain ws where "length ws = 1" "drop (length vs * e) bs = enc_list e ws"
    using enc_list_exists [of "drop (length vs * e) bs" 1 e] assms(1) by auto
  ultimately have "bs = enc_list e (vs @ ws)" "length ws = 1"
    using append_take_drop_id [of "length vs * e" bs] by simp_all
  with False show ?thesis by (auto simp: length_Suc_conv)
qed

lemma upgrade_and_add_rep:
  assumes rep: "intset_rep is vs" "is_length is = length vs" "length vs + 1 < 2 ^ 29"
    and v: "int64_range v" "is_encoding is < intsetValueEncoding v"
  shows "\<exists>is'. intsetUpgradeAndAdd junk is v = Some is' \<and> is_length is' = length vs + 1
     \<and> is_encoding is' = intsetValueEncoding v
     \<and> intset_rep is' (if v < 0 then v # vs else vs @ [v])"
proof -
  let ?cur = "is_encoding is" and ?new = "intsetValueEncoding v" and ?p = "if v < 0 then 1 else 0 :: nat"
  let ?is1 = "intsetResize junk (is\<lparr>is_encoding := ?new\<rparr>) (length vs + 1)"
  note repD = intset_repD [OF rep(1)]
  have new: "?new \<in> {2, 4, 8}" by (rule encoding_cases)
  have sz: "(length vs + 1) * ?new < 2 ^ 32" using new rep(3) by auto
  have "length vs * ?cur \<le> (length vs + 1) * ?new" using v(2) by (intro mult_le_mono) auto
  then have c1: "is_contents ?is1 = enc_list ?cur vs @ map junk [length vs * ?cur..<(length vs + 1) * ?new]"
    using sz by (simp add: intsetResize_def repD(2) mem_realloc_grow)
  have "\<exists>is2. intsetUpgrade_loop ?cur ?p (length vs) ?is1 = Some is2
     \<and> is_encoding is2 = ?new \<and> is_length is2 = is_length ?is1
     \<and> length (is_contents is2) = (length vs + 1) * ?new
     \<and> take (length vs * ?new) (drop (?p * ?new) (is_contents is2)) = enc_list ?new vs"
    by (rule upgrade_loop_rep) (use new repD v(2) sz c1 in \<open>auto simp: intsetResize_def Let_def\<close>)
  then obtain is2 where is2: "intsetUpgrade_loop ?cur ?p (length vs) ?is1 = Some is2"
      "is_encoding is2 = ?new" "is_length is2 = length vs"
      "length (is_contents is2) = (length vs + 1) * ?new"
      "take (length vs * ?new) (drop (?p * ?new) (is_contents is2)) = enc_list ?new vs"
    using rep(2) by auto
  have "\<exists>w. is_contents is2 = enc_list ?new (if ?p = 1 then w # vs else vs @ [w])"
    by (rule enc_list_take_one) (use is2(4,5) in auto)
  then obtain w where w: "is_contents is2 = enc_list ?new (if ?p = 1 then w # vs else vs @ [w])" ..
  have fit: "fits_signed ?new v" "\<forall>x\<in>set vs. fits_signed ?new x"
    using v repD(3) new by (auto simp: fits_encoding intro: fits_signed_mono less_imp_le)
  have put: "intsetSet is2 (if ?p = 1 then 0 else length vs) v
       = Some (is2\<lparr>is_contents := enc_list ?new (if v < 0 then v # vs else vs @ [v])\<rparr>)"
    using new by (simp add: set_eq_write is2(2) w write_enc_list del: enc_list_simps(2,3))
  have "intsetUpgradeAndAdd junk is v
     = Some (is2\<lparr>is_contents := enc_list ?new (if v < 0 then v # vs else vs @ [v]),
                 is_length := length vs + 1\<rparr>)"
    using is2(1,3) rep(2,3) put
    by (auto simp: intsetUpgradeAndAdd_def Let_def)
  then show ?thesis
    using new fit by (auto simp: intset_rep_def is2(2))
qed

lemma out_of_range_extreme:
  assumes "int64_range v" "e \<in> {2, 4, 8}" "e < intsetValueEncoding v" "fits_signed e x"
  shows "if v < 0 then v < x else x < v"
proof -
  have "\<not> fits_signed e v" using assms fits_encoding by force
  with assms(4) show ?thesis by (auto simp: fits_signed_def)
qed

lemma sorted_vals_unique:
  "sorted_wrt (<) (xs :: int list) \<Longrightarrow> set xs = A \<Longrightarrow> xs = sorted_list_of_set A"
  using sorted_list_of_set.idem_if_sorted_distinct [of xs]
  by (simp add: strict_sorted_iff)

definition intset_result :: "intset \<Rightarrow> int set \<Rightarrow> nat \<Rightarrow> bool" where
  "intset_result is A e \<longleftrightarrow>
     intset_ok is \<and> intset_vals is = sorted_list_of_set A \<and> is_encoding is = e"

lemma intset_resultI:
  assumes "intset_rep is vs" "is_length is = length vs" "sorted_wrt (<) vs" "length vs < 2 ^ 29"
    "set vs = A" "is_encoding is = e"
  shows "intset_result is A e"
  using assms ok_of_rep vals_of_rep sorted_vals_unique unfolding intset_result_def by metis

lemma add_no_upgrade:
  assumes ok: "intset_ok is" "is_length is + 1 < 2 ^ 29" and v: "int64_range v"
    and enc: "intsetValueEncoding v \<le> is_encoding is"
  shows "\<exists>is'. intsetAdd junk is v = Some (is', v \<notin> set (intset_vals is))
     \<and> intset_result is' (insert v (set (intset_vals is))) (is_encoding is)"
proof -
  define vs where "vs = intset_vals is"
  note rep = rep_of_ok [OF ok(1), folded vs_def]
  obtain found pos where srch: "intsetSearch is v = Some (found, pos)"
    and post: "search_post vs v found (int pos)"
    using search_rep [OF rep(1,2,3)] by blast
  show ?thesis unfolding vs_def [symmetric]
  proof (cases found)
    case True
    then have "v \<in> set vs" using post by (auto simp: search_post_def)
    with True enc srch rep show "\<exists>is'. intsetAdd junk is v = Some (is', v \<notin> set vs)
        \<and> intset_result is' (insert v (set vs)) (is_encoding is)"
      by (auto simp: intsetAdd_def insert_absorb intro: intset_resultI)
  next
    case False
    then have post': "search_post vs v False (int pos)" using post by simp
    note pos = insert_position [OF post' rep(3)]
    have pl: "pos \<le> length vs" using post False by (simp add: search_post_def)
    obtain w where r1: "intset_rep (intsetResize junk is (length vs + 1)) (vs @ [w])"
      using resize_rep_grow [OF rep(1)] ok(2) rep(2) by auto
    let ?is1 = "intsetResize junk is (length vs + 1)"
    have "\<exists>is2 ws. (if pos < length vs then intsetMoveTail ?is1 pos (pos + 1) else Some ?is1) = Some is2
        \<and> intset_rep is2 ws \<and> length ws = length vs + 1 \<and> is_length is2 = length vs
        \<and> is_encoding is2 = is_encoding is \<and> ws[pos := v] = take pos vs @ v # drop pos vs"
    proof (cases "pos < length vs")
      case True
      have "\<exists>is2. intsetMoveTail ?is1 pos (pos + 1) = Some is2
        \<and> intset_rep is2 (take (pos + 1) (vs @ [w]) @ take (length vs - pos) (drop pos (vs @ [w]))
                          @ drop (pos + 1 + (length vs - pos)) (vs @ [w]))
        \<and> is_length is2 = length vs \<and> is_encoding is2 = is_encoding ?is1"
        by (rule move_tail_rep [OF r1]) (use rep(2,4) pl in auto)
      moreover have "(take (pos + 1) (vs @ [w]) @ take (length vs - pos) (drop pos (vs @ [w]))
                          @ drop (pos + 1 + (length vs - pos)) (vs @ [w]))[pos := v]
          = take pos vs @ v # drop pos vs"
        using True by (simp add: take_Suc_conv_app_nth list_update_append)
      ultimately show ?thesis using True by fastforce
    next
      case False
      then show ?thesis using pl r1 rep(2) by auto
    qed
    then obtain is2 ws where is2: "(if pos < length vs then intsetMoveTail ?is1 pos (pos + 1) else Some ?is1) = Some is2"
        "intset_rep is2 ws" "length ws = length vs + 1" "is_length is2 = length vs"
        "is_encoding is2 = is_encoding is" "ws[pos := v] = take pos vs @ v # drop pos vs" by blast
    have fit: "fits_signed (is_encoding is2) v"
      using enc v intset_repD(1) [OF rep(1)] is2(5) by (simp add: fits_encoding)
    obtain is3 where is3: "intsetSet is2 pos v = Some is3" "intset_rep is3 (ws[pos := v])"
        "is_length is3 = length vs" "is_encoding is3 = is_encoding is"
      using set_rep [OF is2(2) _ fit, of pos] is2(3,4,5) pl by auto
    have "intsetAdd junk is v = Some (is3\<lparr>is_length := length vs + 1\<rparr>, True)"
      using False enc srch is2(1,4) is3(1,3) ok(2) rep(2)
      by (cases "pos < length vs") (simp_all add: intsetAdd_def Let_def)
    moreover have "intset_result (is3\<lparr>is_length := length vs + 1\<rparr>) (insert v (set vs)) (is_encoding is)"
      by (rule intset_resultI [of _ "take pos vs @ v # drop pos vs"])
        (use is3 is2(6) pos ok(2) rep(2) pl in \<open>auto simp: intset_rep_def\<close>)
    ultimately show "\<exists>is'. intsetAdd junk is v = Some (is', v \<notin> set vs)
        \<and> intset_result is' (insert v (set vs)) (is_encoding is)"
      using pos(2) by auto
  qed
qed

lemma add_upgrade:
  assumes ok: "intset_ok is" "is_length is + 1 < 2 ^ 29" and v: "int64_range v"
    and enc: "is_encoding is < intsetValueEncoding v"
  shows "\<exists>is'. intsetAdd junk is v = Some (is', v \<notin> set (intset_vals is))
     \<and> intset_result is' (insert v (set (intset_vals is))) (intsetValueEncoding v)"
proof -
  define vs where "vs = intset_vals is"
  note rep = rep_of_ok [OF ok(1), folded vs_def]
  have ext: "if v < 0 then v < x else x < v" if "x \<in> set vs" for x
    using out_of_range_extreme [OF v _ enc] intset_repD(1,3) [OF rep(1)] that by blast
  then have new: "v \<notin> set vs" by fastforce
  obtain is' where is': "intsetUpgradeAndAdd junk is v = Some is'" "is_length is' = length vs + 1"
      and e': "is_encoding is' = intsetValueEncoding v"
      and r': "intset_rep is' (if v < 0 then v # vs else vs @ [v])"
    using upgrade_and_add_rep [OF rep(1,2) _ v enc] ok(2) rep(2) by auto
  have "intset_result is' (insert v (set vs)) (intsetValueEncoding v)"
    by (rule intset_resultI [OF r'])
      (use is' ext rep(3) ok(2) rep(2) e' in \<open>auto simp: sorted_wrt_append\<close>)
  with new is'(1) enc show ?thesis by (auto simp: intsetAdd_def simp flip: vs_def)
qed

lemma remove_position:
  fixes vs :: "int list"
  assumes "sorted_wrt (<) vs" "pos < length vs"
  shows "sorted_wrt (<) (take pos vs @ drop (pos + 1) vs)"
    "set (take pos vs @ drop (pos + 1) vs) = set vs - {vs ! pos}"
proof -
  have split: "vs = take pos vs @ vs ! pos # drop (pos + 1) vs"
    using assms(2) by (simp add: id_take_nth_drop)
  then have s: "sorted_wrt (<) (take pos vs @ vs ! pos # drop (pos + 1) vs)"
    using assms(1) by simp
  then show "sorted_wrt (<) (take pos vs @ drop (pos + 1) vs)" by (simp add: sorted_wrt_append)
  have "set vs = set (take pos vs @ vs ! pos # drop (pos + 1) vs)" using split by simp
  moreover have "vs ! pos \<notin> set (take pos vs) \<and> vs ! pos \<notin> set (drop (pos + 1) vs)"
    using s by (auto simp: sorted_wrt_append)
  ultimately show "set (take pos vs @ drop (pos + 1) vs) = set vs - {vs ! pos}" by auto
qed

lemma remove_ok:
  assumes ok: "intset_ok is" and v: "int64_range v"
  shows "\<exists>is'. intsetRemove junk is v = Some (is', v \<in> set (intset_vals is))
     \<and> intset_result is' (set (intset_vals is) - {v}) (is_encoding is)"
proof -
  define vs where "vs = intset_vals is"
  note rep = rep_of_ok [OF ok, folded vs_def]
  have same: "v \<notin> set vs \<Longrightarrow> intset_result is (set vs - {v}) (is_encoding is)"
    using rep by (intro intset_resultI) auto
  show ?thesis unfolding vs_def [symmetric]
  proof (cases "intsetValueEncoding v \<le> is_encoding is")
    case True
    obtain found pos where srch: "intsetSearch is v = Some (found, pos)"
      and post: "search_post vs v found (int pos)"
      using search_rep [OF rep(1,2,3)] by blast
    show "\<exists>is'. intsetRemove junk is v = Some (is', v \<in> set vs)
        \<and> intset_result is' (set vs - {v}) (is_encoding is)"
    proof (cases found)
      case False
      then have "v \<notin> set vs" using post insert_position(2) [OF _ rep(3)] by simp
      then show ?thesis using False True srch same by (simp add: intsetRemove_def)
    next
      case found: True
      then have p: "pos < length vs" "vs ! pos = v" using post by (auto simp: search_post_def)
      note pos = remove_position [OF rep(3) p(1)]
      have len: "sub32 (length vs) 1 = length vs - 1" using p rep(2,4) by (intro sub32_id) auto
      have "\<exists>is1 ws. (if pos < length vs - 1 then intsetMoveTail is (pos + 1) pos else Some is) = Some is1
        \<and> intset_rep is1 ws \<and> length ws = length vs \<and> is_encoding is1 = is_encoding is
        \<and> take (length vs - 1) ws = take pos vs @ drop (pos + 1) vs"
      proof (cases "pos < length vs - 1")
        case True
        let ?k = "length vs - (pos + 1)"
        have "\<exists>is1. intsetMoveTail is (pos + 1) pos = Some is1
           \<and> intset_rep is1 (take pos vs @ take ?k (drop (pos + 1) vs) @ drop (pos + ?k) vs)
           \<and> is_length is1 = length vs \<and> is_encoding is1 = is_encoding is"
          by (rule move_tail_rep [OF rep(1)]) (use rep p in auto)
        then show ?thesis using True by fastforce
      next
        case False
        then have "length vs - 1 = pos" "length vs \<le> pos + 1" using p by simp_all
        then have "take (length vs - 1) vs = take pos vs @ drop (pos + 1) vs" by simp
        with False show ?thesis using rep(1) by auto
      qed
      then obtain is1 ws where is1:
          "(if pos < length vs - 1 then intsetMoveTail is (pos + 1) pos else Some is) = Some is1"
          "intset_rep is1 ws" "length ws = length vs" "is_encoding is1 = is_encoding is"
          "take (length vs - 1) ws = take pos vs @ drop (pos + 1) vs" by blast
      let ?is' = "(intsetResize junk is1 (length vs - 1))\<lparr>is_length := length vs - 1\<rparr>"
      have "intset_rep (intsetResize junk is1 (length vs - 1)) (take (length vs - 1) ws)"
        by (rule resize_rep_shrink) (use is1 rep(2,4) in auto)
      then have "intset_result ?is' (set vs - {v}) (is_encoding is)"
        by (intro intset_resultI [of _ "take pos vs @ drop (pos + 1) vs"])
          (use is1 pos p rep(2,4) in \<open>auto simp: intset_rep_def\<close>)
      moreover have "intsetRemove junk is v = Some (?is', True)"
        using True found srch is1(1) rep(2) len by (simp add: intsetRemove_def Let_def)
      ultimately show ?thesis using p by auto
    qed
  next
    case False
    then have "v \<notin> set vs"
      using fits_encoding [OF v intset_repD(1) [OF rep(1)]] intset_repD(3) [OF rep(1)] by blast
    then show "\<exists>is'. intsetRemove junk is v = Some (is', v \<in> set vs)
        \<and> intset_result is' (set vs - {v}) (is_encoding is)"
      using False same by (simp add: intsetRemove_def)
  qed
qed

lemma find_ok:
  assumes ok: "intset_ok is" and v: "int64_range v"
  shows "intsetFind is v = Some (v \<in> set (intset_vals is))"
proof -
  note rep = rep_of_ok [OF ok]
  obtain found pos where srch: "intsetSearch is v = Some (found, pos)"
    and post: "search_post (intset_vals is) v found (int pos)"
    using search_rep [OF rep(1,2,3)] by blast
  have "found \<longleftrightarrow> v \<in> set (intset_vals is)"
    using post insert_position(2) [OF _ rep(3)] by (cases found) (auto simp: search_post_def)
  moreover have "\<not> intsetValueEncoding v \<le> is_encoding is \<Longrightarrow> v \<notin> set (intset_vals is)"
    using fits_encoding [OF v intset_repD(1) [OF rep(1)]] intset_repD(3) [OF rep(1)] by blast
  ultimately show ?thesis using srch by (auto simp: intsetFind_def Let_def)
qed

section \<open>The integer set is a set\<close>

lemma result_set: "intset_result is A e \<Longrightarrow> finite A \<Longrightarrow> intset_ok is \<and> set (intset_vals is) = A"
  by (simp add: intset_result_def)

lemma length_card: "intset_ok is \<Longrightarrow> card (set (intset_vals is)) = is_length is"
  using rep_of_ok(2,3) [of "is"] by (simp add: distinct_card strict_sorted_iff)

lemma intsetNew_ok: "intset_ok intsetNew" "intset_vals intsetNew = []"
  by (simp_all add: intset_ok_def intsetNew_def intset_vals_def)

lemma add_ok:
  assumes "intset_ok is" "is_length is + 1 < 2 ^ 29" "int64_range v"
  shows "\<exists>is'. intsetAdd junk is v = Some (is', v \<notin> set (intset_vals is))
     \<and> intset_result is' (insert v (set (intset_vals is))) (max (is_encoding is) (intsetValueEncoding v))"
  using add_upgrade [OF assms] add_no_upgrade [OF assms]
  by (cases "intsetValueEncoding v \<le> is_encoding is") (simp_all add: max_absorb1 max_absorb2)

interpretation intset: set_impl intsetNew "intsetAdd junk" "intsetRemove junk" intsetFind
  "\<lambda>is. set (intset_vals is)" intset_ok int64_range "2 ^ 29 - 1"
proof (unfold_locales, goal_cases)
  case (4 s x)
  then show ?case using add_ok [of s x junk] result_set by (fastforce simp: length_card)
next
  case (5 s x)
  then show ?case using remove_ok [of s x junk] result_set by fastforce
next
  case (6 s x)
  then show ?case by (rule find_ok)
qed (simp_all add: intsetNew_ok)

lemma get_in_range:
  assumes "intset_ok is"
  shows "intsetGet is pos = Some (if pos < length (intset_vals is) then Some (intset_vals is ! pos) else None)"
  using get_rep [OF rep_of_ok(1) [OF assms]] rep_of_ok(2) [OF assms] by (simp add: intsetGet_def)

section \<open>Properties\<close>

text \<open>C18: \<^verbatim>\<open>intsetAdd\<close>. Adding an integer to a well-formed set stays within the allocation, reports
  whether the integer was new, and yields a well-formed set that holds, in increasing order, the
  old elements and the new one, in the larger of the old encoding and the one the value needs (a set
  is never converted to a smaller encoding).\<close>

theorem intsetAdd_correct:
  assumes "intset_ok is" "is_length is + 1 < 2 ^ 29" "int64_range v"
  shows "\<exists>is'. intsetAdd junk is v = Some (is', v \<notin> set (intset_vals is))
     \<and> intset_ok is' \<and> intset_vals is' = sorted_list_of_set (insert v (set (intset_vals is)))
     \<and> is_encoding is' = max (is_encoding is) (intsetValueEncoding v)"
  using add_ok [OF assms] unfolding intset_result_def by blast

definition intset_example :: intset where
  "intset_example = \<lparr>is_encoding = 2, is_length = 2, is_contents = [5, 0, 44, 1]\<rparr>"

lemma intset_example_vals: "intset_vals intset_example = [5, 300]"
  by code_simp

lemma intset_example_ok: "intset_ok intset_example" "intset_vals intset_example = [5, 300]"
  by (simp_all add: intset_ok_def intset_example_vals) (simp_all add: intset_example_def)

theorem intsetAdd_correct_witness:
  "\<exists>is'. intsetAdd (\<lambda>_. 7) intset_example (- 70000) = Some (is', True)
     \<and> intset_ok is' \<and> intset_vals is' = [- 70000, 5, 300] \<and> is_encoding is' = 4"
  using intsetAdd_correct [of intset_example "- 70000" "\<lambda>_. 7"] intset_example_ok
  by (simp add: intset_example_def intsetValueEncoding_def)

text \<open>C19: \<^verbatim>\<open>intsetRemove\<close>. Removing an integer stays within the allocation, reports whether it was
  present, and yields a well-formed set of the remaining elements in increasing order, in the
  encoding it had.\<close>

theorem intsetRemove_correct:
  assumes "intset_ok is" "int64_range v"
  shows "\<exists>is'. intsetRemove junk is v = Some (is', v \<in> set (intset_vals is))
     \<and> intset_ok is' \<and> intset_vals is' = sorted_list_of_set (set (intset_vals is) - {v})
     \<and> is_encoding is' = is_encoding is"
  using remove_ok [OF assms] unfolding intset_result_def by blast

theorem intsetRemove_correct_witness:
  "\<exists>is'. intsetRemove (\<lambda>_. 7) intset_example 5 = Some (is', True)
     \<and> intset_ok is' \<and> intset_vals is' = [300] \<and> is_encoding is' = 2"
  using intsetRemove_correct [of intset_example 5 "\<lambda>_. 7"] intset_example_ok
  by (simp add: intset_example_def)

text \<open>\<^verbatim>\<open>intsetFind\<close> decides membership: the binary search over the encoded bytes ends, never
  reads outside the array, and answers yes exactly for the elements of the set.\<close>

theorem intsetFind_correct:
  assumes "intset_ok is" "int64_range v"
  shows "intsetFind is v = Some (v \<in> set (intset_vals is))"
  using assms by (rule find_ok)

theorem intsetFind_correct_witness:
  "intsetFind intset_example 300 = Some True \<and> intsetFind intset_example 6 = Some False"
  using intsetFind_correct [of intset_example 300] intsetFind_correct [of intset_example 6] intset_example_ok
  by simp

text \<open>C20: adding any list of integers to a well-formed set, one after the other, succeeds and
  yields the union, and the number of successful insertions is the number of elements that were
  new; this is the loop of a variadic \<^verbatim>\<open>SADD\<close> on an integer set.\<close>

theorem intsetAdd_all:
  assumes "intset_ok is" "\<forall>v \<in> set vs. int64_range v" "is_length is + length vs < 2 ^ 29"
  shows "\<exists>is'. insert_all (intsetAdd junk) is vs = Some (is', card (set vs - set (intset_vals is)))
     \<and> intset_ok is' \<and> set (intset_vals is') = set (intset_vals is) \<union> set vs"
  using intset.insert_all_spec [OF assms(1,2), of junk] assms(3) by (simp add: length_card assms(1))

theorem intsetAdd_all_witness:
  "\<exists>is'. insert_all (intsetAdd (\<lambda>_. 0)) intset_example [6, 5, 2 ^ 40] = Some (is', 2)
     \<and> intset_ok is' \<and> set (intset_vals is') = {5, 300} \<union> {6, 5, 2 ^ 40}"
proof -
  have "card (set [6, 5, 2 ^ 40] - set (intset_vals intset_example)) = 2"
    by (simp add: intset_example_vals insert_Diff_if)
  moreover have "is_length intset_example + length [6, 5, 2 ^ 40 :: int] < 2 ^ 29"
    by (simp add: intset_example_def)
  ultimately show ?thesis
    using intsetAdd_all [of intset_example "[6, 5, 2 ^ 40]" "\<lambda>_. 0"] intset_example_ok
    by (simp del: insert_all.simps add: numeral_2_eq_2)
qed

end
