(* ===== verification/Util.thy ===== *)
theory Util
  imports Redis_Prelude
begin

unbundle bit_operations_syntax

text \<open>
  The number conversions of \<^verbatim>\<open>util.c\<close>: \<^verbatim>\<open>digits10\<close>, \<^verbatim>\<open>ll2string\<close>, \<^verbatim>\<open>string2ll\<close>,
  \<^verbatim>\<open>string2l\<close> and \<^verbatim>\<open>memtoll\<close>. A \<^verbatim>\<open>long long\<close> is an \<open>int\<close> of the range
  \<open>int64_range\<close>, an \<^verbatim>\<open>unsigned long long\<close> a \<open>nat\<close> below \<open>2 ^ 64\<close> whose overflow checks are
  those of the source; a string is its bytes. \<^verbatim>\<open>ll2string\<close> writes into a buffer, and a write
  outside it is \<open>None\<close>.

  The reference is \<open>ll_repr\<close>, the canonical decimal notation. \<^verbatim>\<open>ll2string\<close> writes exactly
  it, and \<^verbatim>\<open>string2ll\<close> accepts exactly the canonical notations of the 64 bit integers, which
  is what lets the server turn strings into integers and back without changing them.
\<close>

section \<open>The conversions\<close>

fun digits10 :: "nat \<Rightarrow> nat" where
  "digits10 v =
     (if v < 10 then 1
      else if v < 100 then 2
      else if v < 1000 then 3
      else if v < 1000000000000 then
        (if v < 100000000 then
           (if v < 1000000 then
              (if v < 10000 then 4 else 5 + of_bool (v \<ge> 100000))
            else 7 + of_bool (v \<ge> 10000000))
         else if v < 10000000000 then 9 + of_bool (v \<ge> 1000000000)
         else 11 + of_bool (v \<ge> 100000000000))
      else 12 + digits10 (v div 1000000000000))"

declare digits10.simps [simp del]

definition digit_pairs :: "u8 list" where
  "digit_pairs = bytes
     (''0001020304050607080910111213141516171819'' @
      ''2021222324252627282930313233343536373839'' @
      ''4041424344454647484950515253545556575859'' @
      ''6061626364656667686970717273747576777879'' @
      ''8081828384858687888990919293949596979899'')"

definition put_byte :: "nat \<Rightarrow> u8 \<Rightarrow> mem \<Rightarrow> mem option" where
  "put_byte i b m = (if i < length m then Some (m[i := b]) else None)"

text \<open>The loop over pairs of digits; \<open>next\<close> is an unsigned 32 bit index.\<close>

fun ll2string_loop :: "nat \<Rightarrow> nat \<Rightarrow> mem \<Rightarrow> (nat \<times> nat \<times> mem) option" where
  "ll2string_loop value next dst =
     (if value \<ge> 100 then
        let i = (value mod 100) * 2 in
        do { dst1 \<leftarrow> put_byte next (digit_pairs ! (i + 1)) dst;
             dst2 \<leftarrow> put_byte (sub32 next 1) (digit_pairs ! i) dst1;
             ll2string_loop (value div 100) (sub32 next 2) dst2 }
      else Some (value, next, dst))"

declare ll2string_loop.simps [simp del]

text \<open>The last one or two digits.\<close>

definition ll2string_last :: "nat \<Rightarrow> nat \<Rightarrow> mem \<Rightarrow> mem option" where
  "ll2string_last v next dst =
     (if v < 10 then put_byte next (48 + of_nat v) dst
      else do { d \<leftarrow> put_byte next (digit_pairs ! (v * 2 + 1)) dst;
                put_byte (sub32 next 1) (digit_pairs ! (v * 2)) d })"

definition ll2string :: "mem \<Rightarrow> nat \<Rightarrow> int \<Rightarrow> (mem \<times> nat) option" where
  "ll2string dst dstlen svalue =
     (let (value, negative) =
            (if svalue < 0 then
               ((if svalue \<noteq> - (2 ^ 63) then nat (- svalue) else (2 ^ 63 - 1) + 1), 1)
             else (nat svalue, 0));
          len = digits10 value + negative
      in if len \<ge> dstlen then Some (dst, 0)
         else do {
           dst0 \<leftarrow> put_byte len 0 dst;
           (v, next, dst1) \<leftarrow> ll2string_loop value (sub32 len 1) dst0;
           dst2 \<leftarrow> ll2string_last v next dst1;
           dst3 \<leftarrow> (if negative = 1 then put_byte 0 (of_char CHR ''-'') dst2 else Some dst2);
           Some (dst3, len)
         })"

definition is_digit :: "u8 \<Rightarrow> bool" where
  "is_digit c \<longleftrightarrow> 48 \<le> unat c \<and> unat c \<le> 57"

definition digit_val :: "u8 \<Rightarrow> nat" where
  "digit_val c = unat c - 48"

abbreviation (input) ULLONG_MAX :: nat where "ULLONG_MAX \<equiv> 2 ^ 64 - 1"

text \<open>The digit loop of \<^verbatim>\<open>string2ll\<close>: the value and the bytes left, or \<open>None\<close> on overflow.\<close>

fun string2ll_loop :: "nat \<Rightarrow> u8 list \<Rightarrow> (nat \<times> u8 list) option" where
  "string2ll_loop v [] = Some (v, [])"
| "string2ll_loop v (c # p) =
     (if is_digit c then
        if v > ULLONG_MAX div 10 then None
        else let v1 = v * 10
             in if v1 > ULLONG_MAX - digit_val c then None
                else string2ll_loop (v1 + digit_val c) p
      else Some (v, c # p))"

definition string2ll :: "u8 list \<Rightarrow> int option" where
  "string2ll s =
     (if s = [] then None
      else if length s = 1 \<and> hd s = of_char CHR ''0'' then Some 0
      else
        let negative = (hd s = of_char CHR ''-''); p = (if negative then tl s else s)
        in case p of
             [] \<Rightarrow> None
           | c # p' \<Rightarrow>
               if is_digit c \<and> c \<noteq> of_char CHR ''0'' then
                 (case string2ll_loop (digit_val c) p' of
                    None \<Rightarrow> None
                  | Some (v, rest) \<Rightarrow>
                      if rest \<noteq> [] then None
                      else if negative then
                        (if v > nat (- (- (2 ^ 63) + 1)) + 1 then None
                         else Some (sign_extend 8 (- int v)))
                      else if v > 2 ^ 63 - 1 then None
                      else Some (int v))
               else if c = of_char CHR ''0'' \<and> length s = 1 then Some 0
               else None)"

text \<open>A \<^verbatim>\<open>long\<close> has 64 bits on the hosts considered, so the second range check never fails.\<close>

definition string2l :: "u8 list \<Rightarrow> int option" where
  "string2l s =
     (case string2ll s of
        None \<Rightarrow> None
      | Some llval \<Rightarrow> if llval < - (2 ^ 63) \<or> llval > 2 ^ 63 - 1 then None else Some llval)"

section \<open>The canonical decimal notation\<close>

fun dec :: "nat \<Rightarrow> u8 list" where
  "dec v = (if v < 10 then [48 + of_nat v] else dec (v div 10) @ [48 + of_nat (v mod 10)])"

declare dec.simps [simp del]

definition ll_repr :: "int \<Rightarrow> u8 list" where
  "ll_repr v = (if v < 0 then of_char CHR ''-'' # dec (nat (- v)) else dec (nat v))"

section \<open>Lemmas on decimal notation\<close>

lemma dec_small [simp]: "v < 10 \<Longrightarrow> dec v = [48 + of_nat v]"
  by (simp add: dec.simps)

lemma dec_step: "10 \<le> v \<Longrightarrow> dec v = dec (v div 10) @ [48 + of_nat (v mod 10)]"
  by (simp add: dec.simps [of v])

lemma dec_nonempty [simp]: "dec v \<noteq> []" "[] \<noteq> dec v"
  by (simp_all add: dec.simps [of v])

lemma length_dec_div10: "length (dec v) = (if v < 10 then 1 else Suc (length (dec (v div 10))))"
  by (simp add: dec.simps [of v])

lemma length_dec_le: "n < 10 ^ Suc k \<Longrightarrow> length (dec n) \<le> Suc k"
proof (induction k arbitrary: n)
  case (Suc k)
  show ?case
  proof (cases "n < 10")
    case False
    have "n div 10 < 10 ^ Suc k" using Suc.prems by (simp add: less_mult_imp_div_less)
    with Suc.IH [of "n div 10"] False show ?thesis by (simp add: length_dec_div10 [of n])
  qed simp
qed simp

lemma length_dec_pow: "0 < v \<Longrightarrow> length (dec (v * 10 ^ k + r)) = k + length (dec v)" if "r < 10 ^ k"
  using that
proof (induction k arbitrary: r)
  case (Suc k)
  have "v * 10 ^ Suc k + r \<ge> 10" using Suc.prems by (simp add: trans_le_add1)
  moreover have "(v * 10 ^ Suc k + r) div 10 = v * 10 ^ k + r div 10"
    by simp
  moreover have "r div 10 < 10 ^ k" using Suc.prems by (simp add: less_mult_imp_div_less mult.commute)
  ultimately show ?case using Suc by (subst length_dec_div10) simp
qed simp

lemma length_dec_ladder:
  "10 ^ k \<le> v \<Longrightarrow> v < 10 ^ Suc k \<Longrightarrow> length (dec v) = Suc k"
proof (induction k arbitrary: v)
  case (Suc k)
  then have "10 ^ k \<le> v div 10" "v div 10 < 10 ^ Suc k" by auto
  with Suc.IH have "length (dec (v div 10)) = Suc k" by blast
  moreover have "1 \<le> (10 :: nat) ^ k" by simp
  then have "10 \<le> v" using Suc.prems(1) unfolding power_Suc by linarith
  ultimately show ?case by (simp add: length_dec_div10 [of v])
qed simp

lemma length_dec_numerals:
  "10 \<le> v \<Longrightarrow> v < 100 \<Longrightarrow> length (dec v) = 2"
  "100 \<le> v \<Longrightarrow> v < 1000 \<Longrightarrow> length (dec v) = 3"
  "1000 \<le> v \<Longrightarrow> v < 10000 \<Longrightarrow> length (dec v) = 4"
  "10000 \<le> v \<Longrightarrow> v < 100000 \<Longrightarrow> length (dec v) = 5"
  "100000 \<le> v \<Longrightarrow> v < 1000000 \<Longrightarrow> length (dec v) = 6"
  "1000000 \<le> v \<Longrightarrow> v < 10000000 \<Longrightarrow> length (dec v) = 7"
  "10000000 \<le> v \<Longrightarrow> v < 100000000 \<Longrightarrow> length (dec v) = 8"
  "100000000 \<le> v \<Longrightarrow> v < 1000000000 \<Longrightarrow> length (dec v) = 9"
  "1000000000 \<le> v \<Longrightarrow> v < 10000000000 \<Longrightarrow> length (dec v) = 10"
  "10000000000 \<le> v \<Longrightarrow> v < 100000000000 \<Longrightarrow> length (dec v) = 11"
  "100000000000 \<le> v \<Longrightarrow> v < 1000000000000 \<Longrightarrow> length (dec v) = 12"
  using length_dec_ladder [of 1 v] length_dec_ladder [of 2 v] length_dec_ladder [of 3 v]
    length_dec_ladder [of 4 v] length_dec_ladder [of 5 v] length_dec_ladder [of 6 v]
    length_dec_ladder [of 7 v] length_dec_ladder [of 8 v] length_dec_ladder [of 9 v]
    length_dec_ladder [of 10 v] length_dec_ladder [of 11 v]
  by simp_all

lemma digits10_length: "digits10 v = length (dec v)"
proof (induction v rule: digits10.induct)
  case (1 v)
  show ?case
  proof (cases "v < 1000000000000")
    case True
    then show ?thesis by (simp add: digits10.simps [of v] length_dec_numerals not_less)
  next
    case False
    have "v = v div 1000000000000 * 10 ^ 12 + v mod 1000000000000" by simp
    moreover have "0 < v div 1000000000000" using False by (simp add: div_greater_zero_iff)
    ultimately have "length (dec v) = 12 + length (dec (v div 1000000000000))"
      using length_dec_pow [of "v mod 1000000000000" 12 "v div 1000000000000"] by simp
    with 1 False show ?thesis by (simp add: digits10.simps [of v])
  qed
qed

lemma length_dec_bound: "v < 10 ^ Suc k \<Longrightarrow> length (dec v) \<le> Suc k"
proof (induction k arbitrary: v)
  case (Suc k)
  then have "v div 10 < 10 ^ Suc k" by auto
  with Suc.IH have "length (dec (v div 10)) \<le> Suc k" by blast
  then show ?case by (simp add: length_dec_div10 [of v])
qed (simp add: length_dec_div10)

lemma dec_pair:
  assumes "100 \<le> v"
  shows "dec v = dec (v div 100) @ [48 + of_nat (v mod 100 div 10), 48 + of_nat (v mod 10)]"
proof -
  have "dec (v div 10) = dec (v div 10 div 10) @ [48 + of_nat (v div 10 mod 10)]"
    using assms by (intro dec_step) simp
  moreover have "v div 10 div 10 = v div 100" by (simp flip: div_mult2_eq)
  moreover have "v div 10 mod 10 = v mod 100 div 10"
    using mod_mult2_eq [of v 10 10] by simp
  ultimately show ?thesis using assms by (simp add: dec_step [of v])
qed

lemma dec_two: "10 \<le> v \<Longrightarrow> v < 100 \<Longrightarrow> dec v = [48 + of_nat (v div 10), 48 + of_nat (v mod 10)]"
  by (simp add: dec_step [of v])

lemma digit_pairs_eq:
  "digit_pairs = concat (map (\<lambda>k. [48 + of_nat (k div 10), 48 + of_nat (k mod 10)]) [0..<100])"
proof -
  have "[0..<100] = 0 # 1 # [2..<100 :: nat]"
    by (simp add: upt_conv_Cons [of 0] upt_conv_Cons [of "Suc 0"] flip: numeral_2_eq_2)
  then show ?thesis by (simp add: digit_pairs_def bytes_def)
qed

lemma nth_concat_pairs:
  "k < n \<Longrightarrow> concat (map (\<lambda>k. [f k, g k]) [0..<n]) ! (k * 2) = f k
            \<and> concat (map (\<lambda>k. [f k, g k]) [0..<n]) ! Suc (k * 2) = g k"
proof (induction n)
  case (Suc n)
  have "length (concat (map (\<lambda>k. [f k, g k]) [0..<n])) = n * 2"
    by (simp add: length_concat o_def sum_list_triv)
  with Suc show ?case by (cases "k = n") (simp_all add: nth_append)
qed simp

lemma digit_pairs_nth:
  "k < 100 \<Longrightarrow> digit_pairs ! (k * 2) = 48 + of_nat (k div 10)"
  "k < 100 \<Longrightarrow> digit_pairs ! Suc (k * 2) = 48 + of_nat (k mod 10)"
  unfolding digit_pairs_eq by (simp_all only: nth_concat_pairs)

section \<open>\<^verbatim>\<open>ll2string\<close> writes the canonical notation\<close>

lemma put_pair:
  assumes "1 \<le> n" "n < length dst" "n < 2 ^ 32"
  shows "Option.bind (put_byte n b dst) (put_byte (sub32 n 1) a)
         = Some (take (n - 1) dst @ [a, b] @ drop (n + 1) dst)"
proof -
  have "(dst[n := b])[n - 1 := a] = take (n - 1) dst @ [a, b] @ drop (n + 1) dst"
    using assms by (intro nth_equalityI) (auto simp: nth_append nth_list_update nth_Cons')
  then show ?thesis using assms by (simp add: put_byte_def)
qed

lemma ll2string_loop_correct:
  assumes "n + 1 = off + length (dec v)" "n < length dst" "n < 2 ^ 32"
  shows "\<exists>v' n' w. ll2string_loop v n dst
           = Some (v', n', take (n' + 1) dst @ w @ drop (n + 1) dst)
         \<and> v' < 100 \<and> n' + 1 = off + length (dec v') \<and> dec v = dec v' @ w
         \<and> n' \<le> n"
  using assms
proof (induction v n dst rule: ll2string_loop.induct)
  case (1 v n dst)
  note unf = ll2string_loop.simps [of v n dst]
  show ?case
  proof (cases "100 \<le> v")
    case False
    then show ?thesis using "1.prems" by (auto simp: unf)
  next
    case True
    let ?a = "48 + of_nat (v mod 100 div 10) :: u8" and ?b = "48 + of_nat (v mod 10) :: u8"
    have len: "length (dec v) = length (dec (v div 100)) + 2"
      using dec_pair [OF True] by simp
    moreover have "0 < length (dec (v div 100))" by simp
    ultimately have n: "2 \<le> n" using "1.prems" by linarith
    define dst2 where "dst2 = take (n - 1) dst @ [?a, ?b] @ drop (n + 1) dst"
    have put: "Option.bind (put_byte n (digit_pairs ! (v mod 100 * 2 + 1)) dst)
                 (put_byte (sub32 n 1) (digit_pairs ! (v mod 100 * 2))) = Some dst2"
      using put_pair [of n dst ?b ?a] n "1.prems"
      by (simp add: digit_pairs_nth dst2_def mod_mod_cancel)
    then obtain d where d: "put_byte n (digit_pairs ! (v mod 100 * 2 + 1)) dst = Some d"
        "put_byte (sub32 n 1) (digit_pairs ! (v mod 100 * 2)) d = Some dst2"
      by (auto split: bind_splits)
    have "\<exists>v' n' w. ll2string_loop (v div 100) (sub32 n 2) dst2
           = Some (v', n', take (n' + 1) dst2 @ w @ drop (sub32 n 2 + 1) dst2)
         \<and> v' < 100 \<and> n' + 1 = off + length (dec v') \<and> dec (v div 100) = dec v' @ w
         \<and> n' \<le> sub32 n 2"
      by (rule "1.IH" [OF True refl d]) (use "1.prems" n len in \<open>auto simp: dst2_def\<close>)
    then obtain v' n' w where IH: "ll2string_loop (v div 100) (n - 2) dst2
           = Some (v', n', take (n' + 1) dst2 @ w @ drop (n - 1) dst2)"
         "v' < 100" "n' + 1 = off + length (dec v')" "dec (v div 100) = dec v' @ w" "n' \<le> n - 2"
      using "1.prems" n by (auto simp: Suc_diff_Suc numeral_2_eq_2)
    have "take (n' + 1) dst2 = take (n' + 1) dst"
      using IH(5) n "1.prems" by (simp add: dst2_def)
    moreover have "drop (n - 1) dst2 = [?a, ?b] @ drop (n + 1) dst"
      using "1.prems" by (simp add: dst2_def)
    ultimately have "ll2string_loop v n dst = Some (v', n', take (n' + 1) dst @ (w @ [?a, ?b]) @ drop (n + 1) dst)"
      using True d IH(1) "1.prems" n by (simp add: unf Let_def)
    moreover have "dec v = dec v' @ (w @ [?a, ?b])" using dec_pair [OF True] IH(4) by simp
    ultimately show ?thesis
      using IH(2,3,5) by (intro exI [of _ v'] exI [of _ n'] exI [of _ "w @ [?a, ?b]"]) simp
  qed
qed

lemma ll2string_magnitude:
  assumes "int64_range v"
  shows "(if v < 0 then ((if v \<noteq> - (2 ^ 63) then nat (- v) else (2 ^ 63 - 1) + 1), 1) else (nat v, 0))
         = (nat \<bar>v\<bar>, of_bool (v < 0) :: nat)"
  using assms by auto

lemma ll_repr_dec: "ll_repr v = (if v < 0 then [of_char CHR ''-''] else []) @ dec (nat \<bar>v\<bar>)"
  by (simp add: ll_repr_def)

lemma length_ll_repr: "int64_range v \<Longrightarrow> length (ll_repr v) \<le> 20"
proof -
  assume "int64_range v"
  then have "\<bar>v\<bar> < 10 ^ Suc 18" by (simp add: abs_less_iff)
  then have "nat \<bar>v\<bar> < 10 ^ Suc 18" by (simp add: nat_less_iff)
  then have "length (dec (nat \<bar>v\<bar>)) \<le> Suc 18" by (rule length_dec_bound)
  then show ?thesis by (cases "v < 0") (simp_all add: ll_repr_def)
qed

lemma ll2string_repr:
  assumes v: "int64_range v" and fit: "length (ll_repr v) < dstlen" "dstlen \<le> length dst"
  shows "ll2string dst dstlen v
         = Some (ll_repr v @ 0 # drop (length (ll_repr v) + 1) dst, length (ll_repr v))"
proof -
  define m off where "m = nat \<bar>v\<bar>" and "off = (of_bool (v < 0) :: nat)"
  let ?len = "off + length (dec m)"
  let ?dst0 = "dst[?len := 0]" and ?minus = "of_char CHR ''-'' :: u8"
  have repr: "ll_repr v = (if v < 0 then [?minus] else []) @ dec m"
    by (simp add: ll_repr_dec m_def)
  then have len: "length (ll_repr v) = ?len" by (simp add: off_def)
  have "?len \<le> 20" using len length_ll_repr [OF v] by simp
  then have lt: "?len < length dst" "?len < 2 ^ 32" using fit len by simp_all
  have dpos: "0 < length (dec m)" by simp
  have put0: "put_byte ?len 0 dst = Some ?dst0" using lt by (simp add: put_byte_def)
  have sub: "sub32 ?len 1 = ?len - 1" using lt dpos by (intro sub32_id) linarith+
  have len1: "?len - 1 + 1 = ?len" using dpos by linarith
  have "\<exists>v' n' w. ll2string_loop m (?len - 1) ?dst0
       = Some (v', n', take (n' + 1) ?dst0 @ w @ drop (?len - 1 + 1) ?dst0)
       \<and> v' < 100 \<and> n' + 1 = off + length (dec v') \<and> dec m = dec v' @ w \<and> n' \<le> ?len - 1"
    by (rule ll2string_loop_correct [OF len1]) (use lt in simp_all)
  then obtain v' n' w where loop: "ll2string_loop m (?len - 1) ?dst0
       = Some (v', n', take (n' + 1) ?dst0 @ w @ drop ?len ?dst0)"
      "v' < 100" "n' + 1 = off + length (dec v')" "dec m = dec v' @ w" "n' \<le> ?len - 1"
    unfolding len1 by blast
  define dst1 where "dst1 = take (n' + 1) ?dst0 @ w @ drop ?len ?dst0"
  have "n' < ?len" using loop(5) len1 by linarith
  then have n': "n' + 1 \<le> length dst" "n' < length dst1" "n' < 2 ^ 32" "n' < ?len"
    using lt by (auto simp: dst1_def)
  have keep: "take off dst1 = take off ?dst0"
    using loop(3) n' by (simp add: dst1_def)
  define dst2 where "dst2 = take off ?dst0 @ dec m @ drop ?len ?dst0"
  have last: "ll2string_last v' n' dst1 = Some dst2"
  proof (cases "v' < 10")
    case True
    then have "n' = off" using loop(3) by simp
    moreover have "dst1[n' := 48 + of_nat v'] = take n' dst1 @ (48 + of_nat v') # drop (n' + 1) dst1"
      using n' by (simp add: upd_conv_take_nth_drop)
    moreover have "drop (n' + 1) dst1 = w @ drop ?len ?dst0" using n' by (simp add: dst1_def)
    ultimately show ?thesis using True n' keep loop(4) by (simp add: put_byte_def ll2string_last_def dst2_def)
  next
    case False
    then have two: "dec v' = [48 + of_nat (v' div 10), 48 + of_nat (v' mod 10)]"
      using loop(2) by (simp add: dec_two)
    then have "n' = off + 1" using loop(3) by simp
    moreover have "drop (n' + 1) dst1 = w @ drop ?len ?dst0" using n' by (simp add: dst1_def)
    ultimately show ?thesis
      using put_pair [of n' dst1 "48 + of_nat (v' mod 10)" "48 + of_nat (v' div 10)"] False n' keep loop(2,4) two
      by (simp add: digit_pairs_nth ll2string_last_def dst2_def)
  qed
  have tail: "drop ?len ?dst0 = 0 # drop (?len + 1) dst"
    using lt by (simp add: drop_update_swap upd_conv_take_nth_drop)
  have sign: "(if off = 1 then put_byte 0 ?minus dst2 else Some dst2)
      = Some (ll_repr v @ 0 # drop (?len + 1) dst)"
    unfolding dst2_def tail [symmetric] using lt by (cases dst) (auto simp: put_byte_def repr off_def)
  have "ll2string dst dstlen v
     = Option.bind (put_byte ?len 0 dst) (\<lambda>dst0.
       Option.bind (ll2string_loop m (sub32 ?len 1) dst0) (\<lambda>(v, next, dst1).
       Option.bind (ll2string_last v next dst1) (\<lambda>dst2.
       Option.bind (if off = 1 then put_byte 0 ?minus dst2 else Some dst2) (\<lambda>dst3.
       Some (dst3, ?len)))))"
    using fit(1) len
    by (simp add: ll2string_def ll2string_magnitude [OF v] Let_def digits10_length add.commute
        flip: m_def off_def)
  then show ?thesis
    unfolding put0 sub bind.bind_lunit loop(1) prod.case dst1_def [symmetric] last sign len .
qed

section \<open>\<^verbatim>\<open>string2ll\<close> accepts the canonical notations\<close>

definition horner :: "nat \<Rightarrow> u8 list \<Rightarrow> nat" where
  "horner v ds = foldl (\<lambda>v c. v * 10 + digit_val c) v ds"

lemma horner_simps [simp]: "horner v [] = v" "horner v (c # ds) = horner (v * 10 + digit_val c) ds"
  by (simp_all add: horner_def)

lemma horner_append [simp]: "horner v (ds @ es) = horner (horner v ds) es"
  by (simp add: horner_def)

lemma horner_ge: "v \<le> horner v ds"
proof (induction ds arbitrary: v)
  case (Cons c ds)
  show ?case using Cons.IH [of "v * 10 + digit_val c"] by simp
qed simp

lemma digit_val_bound: "is_digit c \<Longrightarrow> digit_val c \<le> 9"
  unfolding is_digit_def digit_val_def by linarith

lemma digit_of_val: "is_digit c \<Longrightarrow> 48 + of_nat (digit_val c) = c"
proof -
  assume d: "is_digit c"
  have "unat (48 + of_nat (digit_val c) :: u8) = unat c"
    using d by (simp add: is_digit_def digit_val_def unat_word_ariths unat_of_nat)
  then show ?thesis by (rule word_unat_eq_iff [THEN iffD2])
qed

lemma val_of_digit: "k < 10 \<Longrightarrow> is_digit (48 + of_nat k) \<and> digit_val (48 + of_nat k) = k"
  by (simp add: is_digit_def digit_val_def unat_word_ariths unat_of_nat)

lemma loop_eq_horner:
  "v \<le> ULLONG_MAX \<Longrightarrow> string2ll_loop v p =
     (let n = horner v (takeWhile is_digit p)
      in if n \<le> ULLONG_MAX then Some (n, dropWhile is_digit p) else None)"
proof (induction p arbitrary: v)
  case (Cons c p)
  let ?d = "digit_val c"
  have ge: "v * 10 + ?d \<le> horner (v * 10 + ?d) (takeWhile is_digit p)" by (rule horner_ge)
  show ?case
  proof (cases "is_digit c")
    case True
    show ?thesis
    proof (cases "v * 10 + ?d \<le> ULLONG_MAX")
      case fits: True
      then have "\<not> v > ULLONG_MAX div 10" "\<not> v * 10 > ULLONG_MAX - ?d"
        using digit_val_bound [OF True] by auto
      then show ?thesis using True Cons.IH [OF fits] by (simp add: Let_def)
    next
      case False
      then have "v > ULLONG_MAX div 10 \<or> v * 10 > ULLONG_MAX - ?d"
        using digit_val_bound [OF True] by (simp add: not_le) linarith
      moreover have "\<not> horner (v * 10 + ?d) (takeWhile is_digit p) \<le> ULLONG_MAX"
        using ge False by linarith
      ultimately show ?thesis using True by (auto simp: Let_def)
    qed
  qed (use Cons.prems in simp)
qed simp

lemma dec_horner: "0 < v \<Longrightarrow> \<forall>c\<in>set ds. is_digit c \<Longrightarrow> dec (horner v ds) = dec v @ ds"
proof (induction ds arbitrary: v)
  case (Cons c ds)
  have "dec (v * 10 + digit_val c) = dec v @ [c]"
    using Cons.prems digit_val_bound [of c]
    by (subst dec_step) (auto simp: digit_of_val)
  then show ?case using Cons by simp
qed simp

lemma dec_shape:
  "0 < v \<Longrightarrow> \<exists>c ds. dec v = c # ds \<and> is_digit c \<and> c \<noteq> 48 \<and> (\<forall>c\<in>set ds. is_digit c)
                 \<and> horner (digit_val c) ds = v"
proof (induction v rule: dec.induct)
  case (1 v)
  show ?case
  proof (cases "v < 10")
    case True
    have "(48 + of_nat v :: u8) \<noteq> 48"
      using True 1(2) val_of_digit [OF True] by (auto simp: digit_val_def)
    with True val_of_digit [OF True] show ?thesis by simp
  next
    case False
    then obtain c ds where "dec (v div 10) = c # ds" "is_digit c" "c \<noteq> 48"
        "\<forall>c\<in>set ds. is_digit c" "horner (digit_val c) ds = v div 10"
      using 1 by fastforce
    with False show ?thesis using val_of_digit [of "v mod 10"] by (auto simp: dec_step)
  qed
qed

lemma takeWhile_all: "dropWhile P p = [] \<longleftrightarrow> (\<forall>c\<in>set p. P c)"
  by (simp add: dropWhile_eq_Nil_conv)

text \<open>A magnitude is parsed from its canonical notation and from nothing else.\<close>

lemma loop_magnitude:
  assumes "is_digit c" "c \<noteq> 48"
  shows "string2ll_loop (digit_val c) p = Some (v, []) \<longleftrightarrow> v \<le> ULLONG_MAX \<and> dec v = c # p"
proof -
  have d: "digit_val c \<le> ULLONG_MAX" "0 < digit_val c"
    using assms digit_val_bound [OF assms(1)] digit_of_val [OF assms(1)] by (auto intro: gr0I)
  have cdec: "dec (digit_val c) = [c]"
    using digit_val_bound [OF assms(1)] digit_of_val [OF assms(1)] by simp
  show ?thesis
  proof
    assume "string2ll_loop (digit_val c) p = Some (v, [])"
    then have v: "v \<le> ULLONG_MAX" "v = horner (digit_val c) (takeWhile is_digit p)"
      and all: "\<forall>c\<in>set p. is_digit c"
      using loop_eq_horner [OF d(1), of p] by (auto simp: Let_def takeWhile_all split: if_splits)
    from all have tw: "takeWhile is_digit p = p" by (simp add: takeWhile_eq_all_conv)
    show "v \<le> ULLONG_MAX \<and> dec v = c # p"
      using dec_horner [OF d(2) all] cdec v by (simp add: tw)
  next
    assume a: "v \<le> ULLONG_MAX \<and> dec v = c # p"
    have "0 < v"
    proof (rule gr0I)
      assume "v = 0"
      with a assms(2) show False by simp
    qed
    then have all: "\<forall>c\<in>set p. is_digit c" "horner (digit_val c) p = v"
      using dec_shape [of v] a by auto
    then have tw: "takeWhile is_digit p = p" by (simp add: takeWhile_eq_all_conv)
    show "string2ll_loop (digit_val c) p = Some (v, [])"
      using loop_eq_horner [OF d(1), of p] a all by (simp add: tw Let_def takeWhile_all)
  qed
qed

lemma sign_extend_neg: "v \<le> 2 ^ 63 \<Longrightarrow> sign_extend 8 (- int v) = - int v"
  by (rule sign_extend_fit) (simp add: fits_signed_def)

lemma ex_nat_of_int:
  "(\<exists>n. n \<le> 2 ^ 63 - 1 \<and> f n = x \<and> v = int n) \<longleftrightarrow> 0 \<le> v \<and> v < 2 ^ 63 \<and> x = f (nat v)"
proof
  assume "0 \<le> v \<and> v < 2 ^ 63 \<and> x = f (nat v)"
  then show "\<exists>n. n \<le> 2 ^ 63 - 1 \<and> f n = x \<and> v = int n" by (intro exI [of _ "nat v"]) auto
qed auto

lemma ex_nat_of_neg:
  assumes "f 0 \<noteq> x"
  shows "(\<exists>n. n \<le> 2 ^ 63 \<and> f n = x \<and> v = - int n) \<longleftrightarrow> v < 0 \<and> - (2 ^ 63) \<le> v \<and> x = f (nat (- v))"
proof
  assume "\<exists>n. n \<le> 2 ^ 63 \<and> f n = x \<and> v = - int n"
  then show "v < 0 \<and> - (2 ^ 63) \<le> v \<and> x = f (nat (- v))"
    using assms by (auto intro: gr0I)
next
  assume "v < 0 \<and> - (2 ^ 63) \<le> v \<and> x = f (nat (- v))"
  then show "\<exists>n. n \<le> 2 ^ 63 \<and> f n = x \<and> v = - int n" by (intro exI [of _ "nat (- v)"]) auto
qed

lemma string2ll_unfold:
  "c \<noteq> of_char CHR ''-'' \<Longrightarrow> is_digit c \<and> c \<noteq> 48 \<Longrightarrow> string2ll (c # p) =
     (case string2ll_loop (digit_val c) p of None \<Rightarrow> None
      | Some (v, rest) \<Rightarrow> if rest \<noteq> [] then None else if v > 2 ^ 63 - 1 then None else Some (int v))"
  "is_digit c \<and> c \<noteq> 48 \<Longrightarrow> string2ll (of_char CHR ''-'' # c # p) =
     (case string2ll_loop (digit_val c) p of None \<Rightarrow> None
      | Some (v, rest) \<Rightarrow>
          if rest \<noteq> [] then None else if v > 2 ^ 63 then None else Some (sign_extend 8 (- int v)))"
  by (cases "string2ll_loop (digit_val c) p"; auto simp: string2ll_def)+

lemma case_loop_eq:
  "(case x of None \<Rightarrow> None
    | Some (n, rest) \<Rightarrow> if rest \<noteq> [] then None else if n > (k :: nat) then None else Some (f n)) = Some v
   \<longleftrightarrow> (\<exists>n. x = Some (n, []) \<and> n \<le> k \<and> v = f n)"
proof (cases x)
  case (Some y)
  then show ?thesis by (cases y) (auto simp: not_less)
qed simp

lemma string2ll_pos:
  assumes "c \<noteq> of_char CHR ''-''"
  shows "string2ll (c # p) = Some v \<longleftrightarrow> 0 \<le> v \<and> v < 2 ^ 63 \<and> c # p = dec (nat v)"
proof (cases "is_digit c \<and> c \<noteq> 48")
  case True
  then have "string2ll (c # p) = Some v \<longleftrightarrow>
      (\<exists>n. string2ll_loop (digit_val c) p = Some (n, []) \<and> n \<le> 2 ^ 63 - 1 \<and> v = int n)"
    using string2ll_unfold(1) [OF assms True] by (simp add: case_loop_eq)
  also have "\<dots> \<longleftrightarrow> (\<exists>n. n \<le> 2 ^ 63 - 1 \<and> dec n = c # p \<and> v = int n)"
    using loop_magnitude [of c p] True by auto
  also have "\<dots> \<longleftrightarrow> 0 \<le> v \<and> v < 2 ^ 63 \<and> c # p = dec (nat v)"
    by (rule ex_nat_of_int)
  finally show ?thesis .
next
  case False
  have dec: "c # p = dec (nat v) \<longleftrightarrow> nat v = 0 \<and> c = 48 \<and> p = []"
    using False dec_shape [of "nat v"] by (cases "nat v = 0") auto
  have val: "string2ll (c # p) = (if c = 48 \<and> p = [] then Some 0 else None)"
    using False assms by (auto simp: string2ll_def Let_def)
  show ?thesis unfolding dec val by auto
qed

lemma loop_negative:
  assumes "is_digit c" "c \<noteq> 48"
  shows "string2ll_loop (digit_val c) p = Some (n, []) \<and> n \<le> 2 ^ 63 \<and> v = sign_extend 8 (- int n)
         \<longleftrightarrow> n \<le> 2 ^ 63 \<and> dec n = c # p \<and> v = - int n"
proof (cases "n \<le> 2 ^ 63")
  case True
  then have "n \<le> ULLONG_MAX" by simp
  then show ?thesis unfolding loop_magnitude [OF assms] using sign_extend_neg [OF True] by auto
qed simp

lemma string2ll_neg:
  "string2ll (of_char CHR ''-'' # p) = Some v \<longleftrightarrow> v < 0 \<and> - (2 ^ 63) \<le> v \<and> p = dec (nat (- v))"
proof (cases p)
  case Nil
  then show ?thesis by (auto simp: string2ll_def)
next
  case (Cons c p')
  show ?thesis
  proof (cases "is_digit c \<and> c \<noteq> 48")
    case True
    then have "string2ll (of_char CHR ''-'' # p) = Some v \<longleftrightarrow>
        (\<exists>n. string2ll_loop (digit_val c) p' = Some (n, []) \<and> n \<le> 2 ^ 63 \<and> v = sign_extend 8 (- int n))"
      using Cons string2ll_unfold(2) [OF True] by (simp add: case_loop_eq)
    also have "\<dots> \<longleftrightarrow> (\<exists>n. n \<le> 2 ^ 63 \<and> dec n = c # p' \<and> v = - int n)"
      by (rule ex_cong1, rule loop_negative) (use True in simp_all)
    also have "\<dots> \<longleftrightarrow> v < 0 \<and> - (2 ^ 63) \<le> v \<and> c # p' = dec (nat (- v))"
    proof -
      have "dec 0 \<noteq> c # p'" using True by auto
      then show ?thesis by (rule ex_nat_of_neg)
    qed
    finally show ?thesis using Cons by simp
  next
    case False
    then have "v < 0 \<Longrightarrow> c # p' \<noteq> dec (nat (- v))" using dec_shape [of "nat (- v)"] by auto
    moreover have "string2ll (of_char CHR ''-'' # p) = None"
      using False Cons by (auto simp: string2ll_def Let_def)
    ultimately show ?thesis using Cons by auto
  qed
qed

lemma string2ll_iff: "string2ll s = Some v \<longleftrightarrow> int64_range v \<and> s = ll_repr v"
proof (cases s)
  case Nil
  then show ?thesis by (auto simp: string2ll_def ll_repr_def)
next
  case (Cons c p)
  have "of_char CHR ''-'' # p \<noteq> dec n" for n
    using dec_shape [of n] by (cases "n = 0") (auto simp: is_digit_def)
  then show ?thesis
    using Cons string2ll_pos [of c p v] string2ll_neg [of p v]
    by (cases "c = of_char CHR ''-''") (auto simp: ll_repr_def)
qed

section \<open>\<^verbatim>\<open>memtoll\<close>\<close>

text \<open>
  \<open>tolower_byte\<close> is the C library's \<^verbatim>\<open>tolower\<close> in the C locale, \<open>strcasecmp_eq\<close> the test
  \<^verbatim>\<open>!strcasecmp(a, b)\<close> and \<open>strtoll10\<close> its \<^verbatim>\<open>strtoll\<close> in base 10 on the buffers
  \<^verbatim>\<open>memtoll\<close> builds, an optional minus sign and digits: the value, saturated at the ends of the
  64 bit range, and the bytes from \<^verbatim>\<open>endptr\<close> on. With no digit there is no conversion and
  \<^verbatim>\<open>endptr\<close> is the start of the buffer; \<^verbatim>\<open>errno\<close> stays 0 then, as in the GNU library.
\<close>

definition tolower_byte :: "u8 \<Rightarrow> u8" where
  "tolower_byte c = (if 65 \<le> unat c \<and> unat c \<le> 90 then c + 32 else c)"

definition strcasecmp_eq :: "u8 list \<Rightarrow> u8 list \<Rightarrow> bool" where
  "strcasecmp_eq a b \<longleftrightarrow> map tolower_byte a = map tolower_byte b"

definition strtoll10 :: "u8 list \<Rightarrow> int \<times> u8 list" where
  "strtoll10 buf =
     (let neg = (case buf of c # _ \<Rightarrow> c = of_char CHR ''-'' | [] \<Rightarrow> False);
          p = (if neg then tl buf else buf);
          ds = takeWhile is_digit p
      in if ds = [] then (0, buf)
         else (max (- (2 ^ 63)) (min (2 ^ 63 - 1) (if neg then - int (horner 0 ds) else int (horner 0 ds))),
               dropWhile is_digit p))"

definition memtoll_mul :: "u8 list \<Rightarrow> int option" where
  "memtoll_mul u =
     (if u = [] \<or> strcasecmp_eq u (bytes ''b'') then Some 1
      else if strcasecmp_eq u (bytes ''k'') then Some 1000
      else if strcasecmp_eq u (bytes ''kb'') then Some 1024
      else if strcasecmp_eq u (bytes ''m'') then Some (1000 * 1000)
      else if strcasecmp_eq u (bytes ''mb'') then Some (1024 * 1024)
      else if strcasecmp_eq u (bytes ''g'') then Some (1000 * 1000 * 1000)
      else if strcasecmp_eq u (bytes ''gb'') then Some (1024 * 1024 * 1024)
      else None)"

text \<open>\<open>p\<close> are the bytes before the terminator. The result is the value and the flag \<^verbatim>\<open>err\<close>; the
  product of the value and the unit wraps around at 64 bits.\<close>

definition memtoll :: "u8 list \<Rightarrow> int \<times> bool" where
  "memtoll p =
     (let sign = (case p of c # _ \<Rightarrow> if c = of_char CHR ''-'' then 1 else 0 | [] \<Rightarrow> 0);
          n = sign + length (takeWhile is_digit (drop sign p));
          u = drop n p
      in case memtoll_mul u of
           None \<Rightarrow> (0, True)
         | Some mul \<Rightarrow>
             if n \<ge> 128 then (0, True)
             else let (val, endptr) = strtoll10 (take n p)
                  in if endptr \<noteq> [] then (0, True)
                     else (sign_extend 8 (val * mul), False))"

lemma dec_digits: "\<forall>c\<in>set (dec n). is_digit c" "horner 0 (dec n) = n"
proof -
  show "\<forall>c\<in>set (dec n). is_digit c"
    using dec_shape [of n] by (cases "n = 0") (auto simp: is_digit_def)
  show "horner 0 (dec n) = n"
    using dec_shape [of n] by (cases "n = 0") (auto simp: digit_val_def)
qed

lemma memtoll_mul_nodigit: "memtoll_mul u = Some m \<Longrightarrow> u = [] \<or> \<not> is_digit (hd u)"
proof -
  assume "memtoll_mul u = Some m"
  then have "u = [] \<or> (\<exists>s \<in> {''b'', ''k'', ''kb'', ''m'', ''mb'', ''g'', ''gb''}. strcasecmp_eq u (bytes s))"
    by (auto simp: memtoll_mul_def split: if_splits)
  then show ?thesis
    by (cases u) (auto simp: strcasecmp_eq_def bytes_def tolower_byte_def is_digit_def split: if_splits)
qed

section \<open>Properties\<close>

text \<open>C21: \<^verbatim>\<open>string2ll\<close> accepts exactly the canonical decimal notations of the 64 bit signed integers,
  and returns the integer: no leading zeros, no sign on zero, no surrounding bytes, and overflow
  in either direction is refused.\<close>

theorem string2ll_exact: "string2ll s = Some v \<longleftrightarrow> int64_range v \<and> s = ll_repr v"
  by (rule string2ll_iff)

text \<open>C22: \<^verbatim>\<open>ll2string\<close> followed by \<^verbatim>\<open>string2ll\<close>. When the buffer has room for the digits, the sign
  and the terminator, \<^verbatim>\<open>ll2string\<close> writes inside it, changes no byte after the terminator, returns
  the length of the notation, and \<^verbatim>\<open>string2ll\<close> reads the integer back from it.\<close>

theorem ll2string_roundtrip:
  assumes "int64_range v" "length (ll_repr v) < dstlen" "dstlen \<le> length dst"
  shows "\<exists>dst' n. ll2string dst dstlen v = Some (dst', n) \<and> n = length (ll_repr v)
     \<and> length dst' = length dst \<and> take n dst' = ll_repr v \<and> dst' ! n = 0
     \<and> drop (n + 1) dst' = drop (n + 1) dst \<and> string2ll (take n dst') = Some v"
  using ll2string_repr [OF assms] assms by (auto simp: string2ll_iff nth_append)

theorem ll2string_roundtrip_witness:
  "\<exists>dst'. ll2string (replicate 32 7) 21 (- 9223372036854775808) = Some (dst', 20)
     \<and> string2ll (take 20 dst') = Some (- 9223372036854775808)"
proof -
  have "length (ll_repr (- 9223372036854775808)) = 20"
    using length_dec_ladder [of 18 9223372036854775808] by (simp add: ll_repr_def)
  then show ?thesis
    using ll2string_roundtrip [of "- 9223372036854775808" 21 "replicate 32 7"] by auto
qed

text \<open>when the buffer is too small, \<^verbatim>\<open>ll2string\<close> returns 0 and leaves it as it was.\<close>

theorem ll2string_too_small:
  assumes "int64_range v" "dstlen \<le> length (ll_repr v)"
  shows "ll2string dst dstlen v = Some (dst, 0)"
  using assms ll2string_magnitude [OF assms(1)]
  by (simp add: ll2string_def digits10_length ll_repr_dec of_bool_def split: if_splits)

theorem ll2string_too_small_witness: "ll2string [1, 2, 3] 3 (- 42) = Some ([1, 2, 3], 0)"
  using ll2string_too_small [of "- 42" 3 "[1, 2, 3]"] by (simp add: ll_repr_def dec_step)

text \<open>\<^verbatim>\<open>memtoll\<close> reads a size with a unit: for a value in decimal notation followed by one of
  the accepted units, the result is the product, without error, provided it fits 64 bits.\<close>

theorem memtoll_unit:
  assumes "memtoll_mul u = Some m" "int n * m < 2 ^ 63" "n < 2 ^ 63"
  shows "memtoll (dec n @ u) = (int n * m, False)"
proof -
  have m: "1 \<le> m" using assms(1) by (auto simp: memtoll_mul_def split: if_splits)
  have tw: "takeWhile is_digit (dec n @ u) = dec n"
    using memtoll_mul_nodigit [OF assms(1)] dec_digits(1)
    by (cases u) (auto simp: takeWhile_append)
  have nosign: "(case dec n @ u of c # _ \<Rightarrow> if c = of_char CHR ''-'' then 1 else 0 | [] \<Rightarrow> 0) = (0 :: nat)"
    "(case dec n of c # _ \<Rightarrow> c = of_char CHR ''-'' | [] \<Rightarrow> False) = False"
    using dec_digits(1) [of n] by (cases "dec n"; auto simp: is_digit_def)+
  have all: "takeWhile is_digit (dec n) = dec n" "dropWhile is_digit (dec n) = []"
    using dec_digits(1) by auto
  have "n < 10 ^ Suc 18" using assms(3) by simp
  then have len: "length (dec n) < 128" using length_dec_bound [of n 18] by simp
  have st: "strtoll10 (dec n) = (int n, [])"
    using assms(3) by (simp add: strtoll10_def nosign(2) all dec_digits(2))
  have "sign_extend 8 (int n * m) = int n * m"
  proof (rule sign_extend_fit)
    have "0 \<le> int n * m" using m by simp
    with assms(2) show "fits_signed 8 (int n * m)" by (simp add: fits_signed_def mult.commute)
  qed
  then show ?thesis using len by (simp add: memtoll_def nosign(1) tw assms(1) st)
qed

theorem memtoll_unit_witness: "memtoll (dec 3 @ bytes ''Gb'') = (3221225472, False)"
  using memtoll_unit [of "bytes ''Gb''" "1024 * 1024 * 1024" 3]
  by (simp add: memtoll_mul_def strcasecmp_eq_def bytes_def tolower_byte_def)

end
