(* ===== verification/Adlist.thy ===== *)
theory Adlist
  imports Interfaces
begin

text \<open>
  \<^verbatim>\<open>adlist.c\<close>: the generic doubly linked list, over an explicit heap of nodes. A pointer is an
  \<open>addr option\<close> (\<open>None\<close> is \<^verbatim>\<open>NULL\<close>); dereferencing \<^verbatim>\<open>NULL\<close> or a freed node makes the
  operation \<open>None\<close>. The \<^verbatim>\<open>dup\<close>, \<^verbatim>\<open>match\<close> and \<^verbatim>\<open>free\<close> methods are fields of the list, as in
  the source; what the \<^verbatim>\<open>free\<close> method is called with is recorded in \<open>released\<close>.

  \<^verbatim>\<open>zmalloc\<close> is the parameter \<open>alloc\<close>: the address it returns for the current heap, or
  \<open>None\<close> for \<^verbatim>\<open>NULL\<close>. What is relied on is that a returned block is not in use
  (\<open>fresh_alloc\<close>).

  \<open>list_rep st l ps xs\<close> says that the nodes \<open>ps\<close>, linked in both directions, carry the
  values \<open>xs\<close>. Each operation implements the operation on \<open>xs\<close>, and leaves all other nodes
  of the heap alone.
\<close>

section \<open>The data and the operations\<close>

type_synonym addr = nat

record 'v listNode =
  n_prev :: "addr option"
  n_next :: "addr option"
  n_value :: 'v

type_synonym 'v heap = "addr \<rightharpoonup> 'v listNode"

record 'v store =
  nodes :: "'v heap"
  released :: "'v list"

record 'v dlist =
  l_head :: "addr option"
  l_tail :: "addr option"
  l_dup :: "('v \<Rightarrow> 'v option) option"
  l_free :: bool
  l_match :: "('v \<Rightarrow> 'v \<Rightarrow> bool) option"
  l_len :: nat

datatype direction = AL_START_HEAD | AL_START_TAIL

record listIter =
  i_next :: "addr option"
  i_direction :: direction

text \<open>\<open>p->f\<close> and \<open>p->f = \<dots>\<close>.\<close>

definition deref :: "'v heap \<Rightarrow> addr option \<Rightarrow> 'v listNode option" where
  "deref h p = Option.bind p h"

definition upd_node :: "addr option \<Rightarrow> ('v listNode \<Rightarrow> 'v listNode) \<Rightarrow> 'v heap \<Rightarrow> 'v heap option" where
  "upd_node p f h = do { a \<leftarrow> p; n \<leftarrow> h a; Some (h(a \<mapsto> f n)) }"

definition listCreate :: "'v dlist" where
  "listCreate = \<lparr>l_head = None, l_tail = None, l_dup = None, l_free = False, l_match = None, l_len = 0\<rparr>"

definition free_value :: "'v dlist \<Rightarrow> 'v \<Rightarrow> 'v store \<Rightarrow> 'v store" where
  "free_value l v st = (if l_free l then st\<lparr>released := released st @ [v]\<rparr> else st)"

definition zfree_node :: "addr \<Rightarrow> 'v store \<Rightarrow> 'v store" where
  "zfree_node a st = st\<lparr>nodes := (nodes st)(a := None)\<rparr>"

fun listRelease_loop :: "'v dlist \<Rightarrow> nat \<Rightarrow> addr option \<Rightarrow> 'v store \<Rightarrow> 'v store option" where
  "listRelease_loop l 0 current st = Some st"
| "listRelease_loop l (Suc len) current st =
     do { a \<leftarrow> current; n \<leftarrow> nodes st a;
          listRelease_loop l len (n_next n) (zfree_node a (free_value l (n_value n) st)) }"

definition listRelease :: "'v store \<Rightarrow> 'v dlist \<Rightarrow> 'v store option" where
  "listRelease st l = listRelease_loop l (l_len l) (l_head l) st"

text \<open>The inner \<open>None\<close> of a result is the return value \<^verbatim>\<open>NULL\<close>: out of memory.\<close>

definition listAddNodeHead ::
  "('v heap \<Rightarrow> addr option) \<Rightarrow> 'v store \<Rightarrow> 'v dlist \<Rightarrow> 'v \<Rightarrow> ('v store \<times> 'v dlist option) option" where
  "listAddNodeHead alloc st l value =
     (case alloc (nodes st) of
        None \<Rightarrow> Some (st, None)
      | Some a \<Rightarrow>
          if l_len l = 0 then
            Some (st\<lparr>nodes := (nodes st)(a \<mapsto> \<lparr>n_prev = None, n_next = None, n_value = value\<rparr>)\<rparr>,
                  Some (l\<lparr>l_head := Some a, l_tail := Some a, l_len := l_len l + 1\<rparr>))
          else do {
            let h = (nodes st)(a \<mapsto> \<lparr>n_prev = None, n_next = l_head l, n_value = value\<rparr>);
            h' \<leftarrow> upd_node (l_head l) (n_prev_update (\<lambda>_. Some a)) h;
            Some (st\<lparr>nodes := h'\<rparr>, Some (l\<lparr>l_head := Some a, l_len := l_len l + 1\<rparr>)) })"

definition listAddNodeTail ::
  "('v heap \<Rightarrow> addr option) \<Rightarrow> 'v store \<Rightarrow> 'v dlist \<Rightarrow> 'v \<Rightarrow> ('v store \<times> 'v dlist option) option" where
  "listAddNodeTail alloc st l value =
     (case alloc (nodes st) of
        None \<Rightarrow> Some (st, None)
      | Some a \<Rightarrow>
          if l_len l = 0 then
            Some (st\<lparr>nodes := (nodes st)(a \<mapsto> \<lparr>n_prev = None, n_next = None, n_value = value\<rparr>)\<rparr>,
                  Some (l\<lparr>l_head := Some a, l_tail := Some a, l_len := l_len l + 1\<rparr>))
          else do {
            let h = (nodes st)(a \<mapsto> \<lparr>n_prev = l_tail l, n_next = None, n_value = value\<rparr>);
            h' \<leftarrow> upd_node (l_tail l) (n_next_update (\<lambda>_. Some a)) h;
            Some (st\<lparr>nodes := h'\<rparr>, Some (l\<lparr>l_tail := Some a, l_len := l_len l + 1\<rparr>)) })"

definition upd_if_node :: "addr option \<Rightarrow> ('v listNode \<Rightarrow> 'v listNode) \<Rightarrow> 'v heap \<Rightarrow> 'v heap option" where
  "upd_if_node p f h = (if p \<noteq> None then upd_node p f h else Some h)"

definition listInsertNode ::
  "('v heap \<Rightarrow> addr option) \<Rightarrow> 'v store \<Rightarrow> 'v dlist \<Rightarrow> addr \<Rightarrow> 'v \<Rightarrow> bool
   \<Rightarrow> ('v store \<times> 'v dlist option) option" where
  "listInsertNode alloc st l old_node value after =
     (case alloc (nodes st) of
        None \<Rightarrow> Some (st, None)
      | Some a \<Rightarrow> do {
          old \<leftarrow> nodes st old_node;
          let (node, l') =
            (if after then
               (\<lparr>n_prev = Some old_node, n_next = n_next old, n_value = value\<rparr>,
                if l_tail l = Some old_node then l\<lparr>l_tail := Some a\<rparr> else l)
             else
               (\<lparr>n_prev = n_prev old, n_next = Some old_node, n_value = value\<rparr>,
                if l_head l = Some old_node then l\<lparr>l_head := Some a\<rparr> else l));
          h1 \<leftarrow> upd_if_node (n_prev node) (n_next_update (\<lambda>_. Some a)) ((nodes st)(a \<mapsto> node));
          h2 \<leftarrow> upd_if_node (n_next node) (n_prev_update (\<lambda>_. Some a)) h1;
          Some (st\<lparr>nodes := h2\<rparr>, Some (l'\<lparr>l_len := l_len l' + 1\<rparr>)) })"

definition listDelNode :: "'v store \<Rightarrow> 'v dlist \<Rightarrow> addr \<Rightarrow> ('v store \<times> 'v dlist) option" where
  "listDelNode st l node = do {
     n \<leftarrow> nodes st node;
     (h1, l1) \<leftarrow> (if n_prev n \<noteq> None
                  then do { h \<leftarrow> upd_node (n_prev n) (n_next_update (\<lambda>_. n_next n)) (nodes st); Some (h, l) }
                  else Some (nodes st, l\<lparr>l_head := n_next n\<rparr>));
     (h2, l2) \<leftarrow> (if n_next n \<noteq> None
                  then do { h \<leftarrow> upd_node (n_next n) (n_prev_update (\<lambda>_. n_prev n)) h1; Some (h, l1) }
                  else Some (h1, l1\<lparr>l_tail := n_prev n\<rparr>));
     Some (zfree_node node (free_value l2 (n_value n) (st\<lparr>nodes := h2\<rparr>)), l2\<lparr>l_len := l_len l2 - 1\<rparr>) }"

definition listGetIterator :: "'v dlist \<Rightarrow> direction \<Rightarrow> listIter" where
  "listGetIterator l direction =
     \<lparr>i_next = (if direction = AL_START_HEAD then l_head l else l_tail l), i_direction = direction\<rparr>"

definition listRewind :: "'v dlist \<Rightarrow> listIter" where
  "listRewind l = \<lparr>i_next = l_head l, i_direction = AL_START_HEAD\<rparr>"

definition listRewindTail :: "'v dlist \<Rightarrow> listIter" where
  "listRewindTail l = \<lparr>i_next = l_tail l, i_direction = AL_START_TAIL\<rparr>"

definition listNext :: "'v heap \<Rightarrow> listIter \<Rightarrow> (addr option \<times> listIter) option" where
  "listNext h iter =
     (case i_next iter of
        None \<Rightarrow> Some (None, iter)
      | Some c \<Rightarrow> do {
          n \<leftarrow> h c;
          Some (Some c, iter\<lparr>i_next := (if i_direction iter = AL_START_HEAD then n_next n else n_prev n)\<rparr>) })"

text \<open>The loops over an iterator do not end on a cyclic list; a loop that does not return is
  \<open>None\<close>.\<close>

text \<open>The value a copied node gets; \<open>None\<close> is a \<^verbatim>\<open>dup\<close> method that returns \<^verbatim>\<open>NULL\<close>.\<close>

definition dup_value :: "'v dlist \<Rightarrow> 'v \<Rightarrow> 'v option" where
  "dup_value l v = (case l_dup l of Some dup \<Rightarrow> dup v | None \<Rightarrow> Some v)"

partial_function (option) listDup_loop ::
  "('v heap \<Rightarrow> addr option) \<Rightarrow> 'v store \<Rightarrow> 'v dlist \<Rightarrow> listIter \<Rightarrow> ('v store \<times> 'v dlist option) option" where
  "listDup_loop alloc st copy iter =
     Option.bind (listNext (nodes st) iter) (\<lambda>(node, iter').
       case node of
         None \<Rightarrow> Some (st, Some copy)
       | Some c \<Rightarrow>
           Option.bind (nodes st c) (\<lambda>n.
             case dup_value copy (n_value n) of
               None \<Rightarrow> Option.bind (listRelease st copy) (\<lambda>st'. Some (st', None))
             | Some value \<Rightarrow>
                 Option.bind (listAddNodeTail alloc st copy value) (\<lambda>(st', r).
                   case r of
                     None \<Rightarrow> Option.bind (listRelease st' copy) (\<lambda>st''. Some (st'', None))
                   | Some copy' \<Rightarrow> listDup_loop alloc st' copy' iter')))"

definition listDup ::
  "('v heap \<Rightarrow> addr option) \<Rightarrow> 'v store \<Rightarrow> 'v dlist \<Rightarrow> ('v store \<times> 'v dlist option) option" where
  "listDup alloc st orig =
     listDup_loop alloc st
       (listCreate\<lparr>l_dup := l_dup orig, l_free := l_free orig, l_match := l_match orig\<rparr>)
       (listGetIterator orig AL_START_HEAD)"

partial_function (option) listSearchKey_loop ::
  "'v heap \<Rightarrow> 'v dlist \<Rightarrow> 'v \<Rightarrow> listIter \<Rightarrow> addr option option" where
  "listSearchKey_loop h l key iter =
     Option.bind (listNext h iter) (\<lambda>(node, iter').
       case node of
         None \<Rightarrow> Some None
       | Some c \<Rightarrow>
           Option.bind (h c) (\<lambda>n.
             if (case l_match l of Some match \<Rightarrow> match (n_value n) key | None \<Rightarrow> key = n_value n)
             then Some (Some c)
             else listSearchKey_loop h l key iter'))"

definition listSearchKey :: "'v store \<Rightarrow> 'v dlist \<Rightarrow> 'v \<Rightarrow> addr option option" where
  "listSearchKey st l key = listSearchKey_loop (nodes st) l key (listGetIterator l AL_START_HEAD)"

fun listIndex_loop :: "'v heap \<Rightarrow> ('v listNode \<Rightarrow> addr option) \<Rightarrow> nat \<Rightarrow> addr option \<Rightarrow> addr option option" where
  "listIndex_loop h step 0 n = Some n"
| "listIndex_loop h step (Suc index) n =
     (case n of None \<Rightarrow> Some None
      | Some a \<Rightarrow> do { node \<leftarrow> h a; listIndex_loop h step index (step node) })"

definition listIndex :: "'v store \<Rightarrow> 'v dlist \<Rightarrow> int \<Rightarrow> addr option option" where
  "listIndex st l index =
     (if index < 0 then listIndex_loop (nodes st) n_prev (nat (- index - 1)) (l_tail l)
      else listIndex_loop (nodes st) n_next (nat index) (l_head l))"

definition listRotate :: "'v store \<Rightarrow> 'v dlist \<Rightarrow> ('v store \<times> 'v dlist) option" where
  "listRotate st l =
     (if l_len l \<le> 1 then Some (st, l)
      else do {
        t \<leftarrow> l_tail l;
        tn \<leftarrow> nodes st t;
        let l1 = l\<lparr>l_tail := n_prev tn\<rparr>;
        h1 \<leftarrow> upd_node (l_tail l1) (n_next_update (\<lambda>_. None)) (nodes st);
        h2 \<leftarrow> upd_node (l_head l1) (n_prev_update (\<lambda>_. Some t)) h1;
        h3 \<leftarrow> upd_node (Some t) (n_prev_update (\<lambda>_. None)) h2;
        h4 \<leftarrow> upd_node (Some t) (n_next_update (\<lambda>_. l_head l1)) h3;
        Some (st\<lparr>nodes := h4\<rparr>, l1\<lparr>l_head := Some t\<rparr>) })"

section \<open>Chains of nodes\<close>

definition first_or :: "'a list \<Rightarrow> 'a option \<Rightarrow> 'a option" where
  "first_or as q = (case as of [] \<Rightarrow> q | a # _ \<Rightarrow> Some a)"

definition last_or :: "'a option \<Rightarrow> 'a list \<Rightarrow> 'a option" where
  "last_or p as = (if as = [] then p else Some (last as))"

text \<open>\<open>chain h p as xs q\<close>: the nodes \<open>as\<close> with values \<open>xs\<close> are linked, the first one's
  \<^verbatim>\<open>prev\<close> is \<open>p\<close> and the last one's \<^verbatim>\<open>next\<close> is \<open>q\<close>.\<close>

fun chain :: "'v heap \<Rightarrow> addr option \<Rightarrow> addr list \<Rightarrow> 'v list \<Rightarrow> addr option \<Rightarrow> bool" where
  "chain h p [] [] q \<longleftrightarrow> True"
| "chain h p (a # as) (x # xs) q \<longleftrightarrow>
     h a = Some \<lparr>n_prev = p, n_next = first_or as q, n_value = x\<rparr> \<and> chain h (Some a) as xs q"
| "chain h p _ _ q \<longleftrightarrow> False"

definition list_rep :: "'v store \<Rightarrow> 'v dlist \<Rightarrow> addr list \<Rightarrow> 'v list \<Rightarrow> bool" where
  "list_rep st l ps xs \<longleftrightarrow>
     distinct ps \<and> chain (nodes st) None ps xs None
     \<and> l_head l = first_or ps None \<and> l_tail l = last_or None ps \<and> l_len l = length ps"

definition fresh_alloc :: "('v heap \<Rightarrow> addr option) \<Rightarrow> bool" where
  "fresh_alloc alloc \<longleftrightarrow> (\<forall>h a. alloc h = Some a \<longrightarrow> h a = None)"

lemma ends_simps [simp]:
  "first_or [] q = q" "first_or (a # as) q = Some a" "last_or p [] = p"
  "last_or p (as @ [a]) = Some a" "last_or p (a # as) = last_or (Some a) as"
  by (auto simp: first_or_def last_or_def)

lemma first_or_append [simp]: "first_or (as @ bs) q = first_or as (first_or bs q)"
  by (cases as) auto

lemma last_or_append [simp]: "last_or p (as @ bs) = last_or (last_or p as) bs"
  by (auto simp: last_or_def)

lemma last_or_None: "last_or None as = None \<longleftrightarrow> as = []"
  by (simp add: last_or_def)

lemma chain_length: "chain h p as xs q \<Longrightarrow> length xs = length as"
  by (induction h p as xs q rule: chain.induct) auto

lemma chain_append:
  "length xs = length as \<Longrightarrow>
   chain h p (as @ bs) (xs @ ys) q \<longleftrightarrow> chain h p as xs (first_or bs q) \<and> chain h (last_or p as) bs ys q"
proof (induction as arbitrary: p xs)
  case (Cons a as)
  then show ?case by (cases xs) auto
qed simp

lemma chain_frame: "a \<notin> set as \<Longrightarrow> chain (h(a := v)) p as xs q = chain h p as xs q"
  by (induction h p as xs q rule: chain.induct) auto

lemma chain_in_heap: "chain h p as xs q \<Longrightarrow> a \<in> set as \<Longrightarrow> h a \<noteq> None"
  by (induction h p as xs q rule: chain.induct) auto

lemma fresh_notin: "chain h p as xs q \<Longrightarrow> h a = None \<Longrightarrow> a \<notin> set as"
  by (metis chain_in_heap)

text \<open>Relinking one end of a chain.\<close>

lemma chain_set_prev:
  assumes "chain h p (a # as) xs q" "a \<notin> set as"
  shows "\<exists>h'. upd_node (Some a) (n_prev_update (\<lambda>_. p')) h = Some h' \<and> chain h' p' (a # as) xs q
     \<and> (\<forall>b. b \<noteq> a \<longrightarrow> h' b = h b)"
  using assms by (cases xs) (auto simp: upd_node_def chain_frame)

lemma chain_set_next:
  assumes "chain h p (as @ [a]) xs q" "a \<notin> set as"
  shows "\<exists>h'. upd_node (Some a) (n_next_update (\<lambda>_. q')) h = Some h' \<and> chain h' p (as @ [a]) xs q'
     \<and> (\<forall>b. b \<noteq> a \<longrightarrow> h' b = h b)"
proof -
  obtain ys x where xs: "xs = ys @ [x]" "length ys = length as"
    using chain_length [OF assms(1)] by (cases xs rule: rev_cases) auto
  with assms show ?thesis by (auto simp: chain_append upd_node_def chain_frame)
qed

section \<open>The operations implement operations on sequences\<close>

text \<open>\<open>list_step st l st' l' ps\<close>: the methods of the list are kept, nothing is released and only
  the nodes \<open>ps\<close> change.\<close>

definition list_step :: "'v store \<Rightarrow> 'v dlist \<Rightarrow> 'v store \<Rightarrow> 'v dlist \<Rightarrow> addr list \<Rightarrow> bool" where
  "list_step st l st' l' ps \<longleftrightarrow>
     l_dup l' = l_dup l \<and> l_free l' = l_free l \<and> l_match l' = l_match l
     \<and> released st' = released st \<and> (\<forall>b. b \<notin> set ps \<longrightarrow> nodes st' b = nodes st b)"

lemma list_repD:
  assumes "list_rep st l ps xs"
  shows "distinct ps" "chain (nodes st) None ps xs None" "l_head l = first_or ps None"
    "l_tail l = last_or None ps" "l_len l = length ps" "length xs = length ps"
  using assms chain_length by (auto simp: list_rep_def)

lemma add_head_rep:
  assumes rep: "list_rep st l ps xs" and new: "alloc (nodes st) = Some a" "nodes st a = None"
  shows "\<exists>st' l'. listAddNodeHead alloc st l v = Some (st', Some l')
     \<and> list_rep st' l' (a # ps) (v # xs) \<and> list_step st l st' l' (a # ps)"
proof (cases ps)
  case Nil
  then show ?thesis using rep new
    by (cases xs) (auto simp: listAddNodeHead_def list_rep_def list_step_def)
next
  case (Cons b bs)
  note D = list_repD [OF rep]
  have a: "a \<notin> set ps" using D(2) new(2) by (rule fresh_notin)
  let ?h = "(nodes st)(a \<mapsto> \<lparr>n_prev = None, n_next = Some b, n_value = v\<rparr>)"
  have "chain ?h None (b # bs) xs None" using D(2) a Cons by (simp add: chain_frame)
  then obtain h' where h': "upd_node (Some b) (n_prev_update (\<lambda>_. Some a)) ?h = Some h'"
      "chain h' (Some a) (b # bs) xs None" "\<forall>c. c \<noteq> b \<longrightarrow> h' c = ?h c"
    using chain_set_prev [of ?h None b bs xs None "Some a"] D(1) Cons by auto
  have "h' a = Some \<lparr>n_prev = None, n_next = Some b, n_value = v\<rparr>" using h'(3) a Cons by auto
  then have "list_rep (st\<lparr>nodes := h'\<rparr>) (l\<lparr>l_head := Some a, l_len := l_len l + 1\<rparr>) (a # ps) (v # xs)"
    using h'(2) D a Cons by (simp add: list_rep_def)
  moreover have "list_step st l (st\<lparr>nodes := h'\<rparr>) (l\<lparr>l_head := Some a, l_len := l_len l + 1\<rparr>) (a # ps)"
    using h'(3) Cons by (auto simp: list_step_def)
  ultimately show ?thesis using new(1) D(3,5) h'(1) Cons by (simp add: listAddNodeHead_def)
qed

lemma add_tail_rep:
  assumes rep: "list_rep st l ps xs" and new: "alloc (nodes st) = Some a" "nodes st a = None"
  shows "\<exists>st' l'. listAddNodeTail alloc st l v = Some (st', Some l')
     \<and> list_rep st' l' (ps @ [a]) (xs @ [v]) \<and> list_step st l st' l' (a # ps)"
proof (cases ps rule: rev_cases)
  case Nil
  then show ?thesis using rep new
    by (cases xs) (auto simp: listAddNodeTail_def list_rep_def list_step_def)
next
  case (snoc bs b)
  note D = list_repD [OF rep]
  have a: "a \<notin> set ps" using D(2) new(2) by (rule fresh_notin)
  let ?h = "(nodes st)(a \<mapsto> \<lparr>n_prev = Some b, n_next = None, n_value = v\<rparr>)"
  have "chain ?h None (bs @ [b]) xs None" using D(2) a snoc by (simp add: chain_frame)
  then obtain h' where h': "upd_node (Some b) (n_next_update (\<lambda>_. Some a)) ?h = Some h'"
      "chain h' None (bs @ [b]) xs (Some a)" "\<forall>c. c \<noteq> b \<longrightarrow> h' c = ?h c"
    using chain_set_next [of ?h None bs b xs None "Some a"] D(1) snoc by auto
  have "h' a = Some \<lparr>n_prev = Some b, n_next = None, n_value = v\<rparr>" using h'(3) a snoc by auto
  then have "chain h' None (ps @ [a]) (xs @ [v]) None"
    using h'(2) D(6) snoc by (simp add: chain_append del: append_assoc)
  then have "list_rep (st\<lparr>nodes := h'\<rparr>) (l\<lparr>l_tail := Some a, l_len := l_len l + 1\<rparr>) (ps @ [a]) (xs @ [v])"
    using D a snoc by (auto simp: list_rep_def)
  moreover have "list_step st l (st\<lparr>nodes := h'\<rparr>) (l\<lparr>l_tail := Some a, l_len := l_len l + 1\<rparr>) (a # ps)"
    using h'(3) snoc by (auto simp: list_step_def)
  ultimately show ?thesis using new(1) D(4,5) h'(1) snoc by (simp add: listAddNodeTail_def)
qed

text \<open>Relinking the two neighbours of a position: what insertion and removal share.\<close>

lemma upd_if_prev:
  assumes "chain h p bs ys q" "distinct bs"
  shows "\<exists>h'. upd_if_node (first_or bs None) (n_prev_update (\<lambda>_. p')) h = Some h' \<and> chain h' p' bs ys q
     \<and> (\<forall>b. b \<notin> set bs \<longrightarrow> h' b = h b)"
proof (cases bs)
  case Nil
  then show ?thesis using assms by (cases ys) (auto simp: upd_if_node_def)
next
  case (Cons b bs')
  then show ?thesis
    using chain_set_prev [of h p b bs' ys q p'] assms by (auto simp: upd_if_node_def)
qed

lemma upd_if_next:
  assumes "chain h p as xs q" "distinct as"
  shows "\<exists>h'. upd_if_node (last_or None as) (n_next_update (\<lambda>_. q')) h = Some h' \<and> chain h' p as xs q'
     \<and> (\<forall>b. b \<notin> set as \<longrightarrow> h' b = h b)"
proof (cases as rule: rev_cases)
  case Nil
  then show ?thesis using assms by (cases xs) (auto simp: upd_if_node_def)
next
  case (snoc as' a)
  then show ?thesis
    using chain_set_next [of h p as' a xs q q'] assms by (auto simp: upd_if_node_def)
qed

lemma chain_cong: "(\<And>a. a \<in> set as \<Longrightarrow> h' a = h a) \<Longrightarrow> chain h' p as xs q = chain h p as xs q"
  by (induction h p as xs q rule: chain.induct) auto

text \<open>Two separate chains are joined by relinking their facing ends.\<close>

lemma join_chains:
  assumes as: "chain h None as xs r" "distinct as" and bs: "chain h s bs ys None" "distinct bs"
    and disj: "set as \<inter> set bs = {}"
  shows "\<exists>h1 h2. upd_if_node (last_or None as) (n_next_update (\<lambda>_. q')) h = Some h1
     \<and> upd_if_node (first_or bs None) (n_prev_update (\<lambda>_. p')) h1 = Some h2
     \<and> chain h2 None as xs q' \<and> chain h2 p' bs ys None
     \<and> (\<forall>c. c \<notin> set as \<union> set bs \<longrightarrow> h2 c = h c)"
proof -
  obtain h1 where h1: "upd_if_node (last_or None as) (n_next_update (\<lambda>_. q')) h = Some h1"
      "chain h1 None as xs q'" "\<forall>c. c \<notin> set as \<longrightarrow> h1 c = h c"
    using upd_if_next [OF as] by blast
  have "chain h1 s bs ys None" using bs(1) h1(3) disj by (subst chain_cong [of bs _ h]) auto
  then obtain h2 where h2: "upd_if_node (first_or bs None) (n_prev_update (\<lambda>_. p')) h1 = Some h2"
      "chain h2 p' bs ys None" "\<forall>c. c \<notin> set bs \<longrightarrow> h2 c = h1 c"
    using upd_if_prev [OF _ bs(2)] by blast
  have "chain h2 None as xs q'" using h1(2) h2(3) disj by (subst chain_cong [of as _ h1]) auto
  then show ?thesis using h1 h2 by (intro exI [of _ h1] exI [of _ h2]) simp
qed

lemma insert_between:
  assumes ch: "chain h None (as @ bs) (ys @ zs) None" "length ys = length as" "distinct (as @ bs)"
    and new: "a \<notin> set (as @ bs)"
  shows "\<exists>h1 h2. upd_if_node (last_or None as) (n_next_update (\<lambda>_. Some a))
           (h(a \<mapsto> \<lparr>n_prev = last_or None as, n_next = first_or bs None, n_value = v\<rparr>)) = Some h1
     \<and> upd_if_node (first_or bs None) (n_prev_update (\<lambda>_. Some a)) h1 = Some h2
     \<and> chain h2 None (as @ a # bs) (ys @ v # zs) None
     \<and> (\<forall>c. c \<notin> set (as @ a # bs) \<longrightarrow> h2 c = h c)"
proof -
  let ?h = "h(a \<mapsto> \<lparr>n_prev = last_or None as, n_next = first_or bs None, n_value = v\<rparr>)"
  have parts: "chain ?h None as ys (first_or bs None)" "chain ?h (last_or None as) bs zs None"
    using ch new by (simp_all add: chain_append chain_frame)
  obtain h1 h2 where j: "upd_if_node (last_or None as) (n_next_update (\<lambda>_. Some a)) ?h = Some h1"
      "upd_if_node (first_or bs None) (n_prev_update (\<lambda>_. Some a)) h1 = Some h2"
      "chain h2 None as ys (Some a)" "chain h2 (Some a) bs zs None"
      "\<forall>c. c \<notin> set as \<union> set bs \<longrightarrow> h2 c = ?h c"
    using join_chains [OF parts(1) _ parts(2), of "Some a" "Some a"] ch(3) by auto
  have "h2 a = ?h a" using j(5) new by simp
  then have "chain h2 None (as @ a # bs) (ys @ v # zs) None"
    using j(3,4) ch(2) by (simp add: chain_append)
  then show ?thesis using j(1,2,5) by (intro exI [of _ h1] exI [of _ h2]) auto
qed

lemma chain_node:
  "chain h p (as @ d # bs) (ys @ x # zs) q \<Longrightarrow> length ys = length as \<Longrightarrow>
   h d = Some \<lparr>n_prev = last_or p as, n_next = first_or bs q, n_value = x\<rparr>"
  by (simp add: chain_append)

text \<open>The position at which \<^verbatim>\<open>listInsertNode\<close> puts a value, next to the one at \<open>i\<close>.\<close>

definition insert_at :: "nat \<Rightarrow> 'a \<Rightarrow> 'a list \<Rightarrow> 'a list" where
  "insert_at i x xs = take i xs @ x # drop i xs"

lemma insert_node_rep:
  assumes rep: "list_rep st l ps xs" and i: "i < length ps"
    and new: "alloc (nodes st) = Some a" "nodes st a = None"
  shows "\<exists>st' l'. listInsertNode alloc st l (ps ! i) v after = Some (st', Some l')
     \<and> list_rep st' l' (insert_at (if after then i + 1 else i) a ps) (insert_at (if after then i + 1 else i) v xs)
     \<and> list_step st l st' l' (a # ps)"
proof -
  note D = list_repD [OF rep]
  define k where "k = (if after then i + 1 else i)"
  define as bs ys zs where "as = take k ps" and "bs = drop k ps" and "ys = take k xs" and "zs = drop k xs"
  have k: "k \<le> length ps" using i by (simp add: k_def)
  have split: "ps = as @ bs" "xs = ys @ zs" "length ys = length as"
    using k D(6) by (simp_all add: as_def bs_def ys_def zs_def)
  have a: "a \<notin> set (as @ bs)" using fresh_notin [OF D(2) new(2)] split by simp
  have "chain (nodes st) None (as @ bs) (ys @ zs) None" "distinct (as @ bs)" using D(1,2) split by simp_all
  from insert_between [OF this(1) split(3) this(2) a] obtain h1 h2 where ins:
      "upd_if_node (last_or None as) (n_next_update (\<lambda>_. Some a))
         ((nodes st)(a \<mapsto> \<lparr>n_prev = last_or None as, n_next = first_or bs None, n_value = v\<rparr>)) = Some h1"
      "upd_if_node (first_or bs None) (n_prev_update (\<lambda>_. Some a)) h1 = Some h2"
      "chain h2 None (as @ a # bs) (ys @ v # zs) None"
      "\<forall>c. c \<notin> set (as @ a # bs) \<longrightarrow> h2 c = nodes st c" by blast
  have node: "nodes st (ps ! i) = Some \<lparr>n_prev = last_or None (take i ps),
        n_next = first_or (drop (Suc i) ps) None, n_value = xs ! i\<rparr>"
  proof (rule chain_node)
    show "chain (nodes st) None (take i ps @ ps ! i # drop (Suc i) ps) (take i xs @ xs ! i # drop (Suc i) xs) None"
      using D(2,6) i by (simp flip: id_take_nth_drop)
  qed (use D(6) in simp)
  define l' where "l' = l\<lparr>l_head := first_or (as @ a # bs) None, l_tail := last_or None (as @ a # bs),
                          l_len := l_len l + 1\<rparr>"
  have rep': "list_rep (st\<lparr>nodes := h2\<rparr>) l' (as @ a # bs) (ys @ v # zs)"
    using ins(3) a D(1,5) split by (auto simp: list_rep_def l'_def)
  have step: "list_step st l (st\<lparr>nodes := h2\<rparr>) l' (a # ps)"
    using ins(4) split by (auto simp: list_step_def l'_def)
  define d where "d = ps ! i"
  have D': "distinct (as @ bs)" "l_head l = first_or (as @ bs) None" "l_tail l = last_or None (as @ bs)"
    using D(1,3,4) unfolding split(1) by simp_all
  have "listInsertNode alloc st l d v after = Some (st\<lparr>nodes := h2\<rparr>, Some l')"
  proof (cases after)
    case True
    obtain as0 where as: "as = as0 @ [d]"
      using True i by (simp add: as_def k_def d_def take_Suc_conv_app_nth)
    obtain q where node': "nodes st d = Some \<lparr>n_prev = q, n_next = first_or bs None, n_value = xs ! i\<rparr>"
      using node True by (simp add: bs_def k_def d_def)
    have tail: "l_tail l = Some d \<longleftrightarrow> bs = []"
      using D' as by (cases bs rule: rev_cases) auto
    have ends: "first_or (as @ a # bs) None = l_head l"
        "last_or None (as @ a # bs) = (if bs = [] then Some a else l_tail l)"
      using D' as by (cases as0, simp_all) (cases bs rule: rev_cases, simp_all)
    have prev: "last_or None as = Some d" using as by simp
    have upd: "l' = (let m = (if l_tail l = Some d then l\<lparr>l_tail := Some a\<rparr> else l) in m\<lparr>l_len := l_len m + 1\<rparr>)"
      unfolding l'_def ends tail by simp
    show ?thesis unfolding upd using ins(1,2)
      by (simp add: listInsertNode_def Let_def True new(1) node' prev)
  next
    case False
    obtain bs0 where bs: "bs = d # bs0"
      using False i by (simp add: bs_def k_def d_def flip: Cons_nth_drop_Suc)
    obtain q where node': "nodes st d = Some \<lparr>n_prev = last_or None as, n_next = q, n_value = xs ! i\<rparr>"
      using node False by (simp add: as_def k_def d_def)
    have head: "l_head l = Some d \<longleftrightarrow> as = []"
      using D' bs by (cases as) auto
    have ends: "last_or None (as @ a # bs) = l_tail l"
        "first_or (as @ a # bs) None = (if as = [] then Some a else l_head l)"
      using D' bs by (simp, cases as, simp_all)
    have nxt: "first_or bs None = Some d" using bs by simp
    have upd: "l' = (let m = (if l_head l = Some d then l\<lparr>l_head := Some a\<rparr> else l) in m\<lparr>l_len := l_len m + 1\<rparr>)"
      unfolding l'_def ends head by simp
    show ?thesis unfolding upd using ins(1,2)
      by (simp add: listInsertNode_def Let_def False new(1) node' nxt)
  qed
  then show ?thesis
    using rep' step by (simp add: insert_at_def as_def bs_def ys_def zs_def k_def d_def)
qed

definition delete_at :: "nat \<Rightarrow> 'a list \<Rightarrow> 'a list" where
  "delete_at i xs = take i xs @ drop (Suc i) xs"

lemma del_node_rep:
  assumes rep: "list_rep st l ps xs" and i: "i < length ps"
  shows "\<exists>st' l'. listDelNode st l (ps ! i) = Some (st', l')
     \<and> list_rep st' l' (delete_at i ps) (delete_at i xs)
     \<and> l_dup l' = l_dup l \<and> l_free l' = l_free l \<and> l_match l' = l_match l
     \<and> nodes st' (ps ! i) = None \<and> (\<forall>b. b \<notin> set ps \<longrightarrow> nodes st' b = nodes st b)
     \<and> released st' = released st @ (if l_free l then [xs ! i] else [])"
proof -
  note D = list_repD [OF rep]
  define as bs ys zs d where "as = take i ps" and "bs = drop (Suc i) ps" and "ys = take i xs"
    and "zs = drop (Suc i) xs" and "d = ps ! i"
  have split: "ps = as @ d # bs" "xs = ys @ xs ! i # zs" "length ys = length as"
    using i D(6) by (simp_all add: as_def bs_def ys_def zs_def d_def flip: id_take_nth_drop)
  have D': "distinct (as @ d # bs)" "chain (nodes st) None (as @ d # bs) (ys @ xs ! i # zs) None"
      "l_head l = first_or (as @ d # bs) None" "l_tail l = last_or None (as @ d # bs)"
    using D(1-4) split by metis+
  have parts: "chain (nodes st) None as ys (Some d)" "chain (nodes st) (Some d) bs zs None"
      "nodes st d = Some \<lparr>n_prev = last_or None as, n_next = first_or bs None, n_value = xs ! i\<rparr>"
    using D'(2) split(3) by (simp_all add: chain_append)
  obtain h1 h2 where j: "upd_if_node (last_or None as) (n_next_update (\<lambda>_. first_or bs None)) (nodes st) = Some h1"
      "upd_if_node (first_or bs None) (n_prev_update (\<lambda>_. last_or None as)) h1 = Some h2"
      "chain h2 None as ys (first_or bs None)" "chain h2 (last_or None as) bs zs None"
      "\<forall>c. c \<notin> set as \<union> set bs \<longrightarrow> h2 c = nodes st c"
    using join_chains [OF parts(1) _ parts(2), of "first_or bs None" "last_or None as"] D'(1) by auto
  define l' where "l' = l\<lparr>l_head := first_or (as @ bs) None, l_tail := last_or None (as @ bs), l_len := l_len l - 1\<rparr>"
  define st' where "st' = zfree_node d (free_value l (xs ! i) (st\<lparr>nodes := h2\<rparr>))"
  have fields: "nodes st' = h2(d := None)" "released st' = released st @ (if l_free l then [xs ! i] else [])"
    by (simp_all add: st'_def zfree_node_def free_value_def)
  have "chain (h2(d := None)) None (as @ bs) (ys @ zs) None"
    using j(3,4) split(3) D'(1) by (simp add: chain_append chain_frame)
  then have rep': "list_rep st' l' (as @ bs) (ys @ zs)"
    using D'(1) D(5) by (simp add: list_rep_def fields l'_def split(1))
  have hd: "first_or (as @ bs) None = (if last_or None as \<noteq> None then l_head l else first_or bs None)"
    using D'(3) by (cases as) (simp_all add: last_or_None last_or_def)
  have tl: "last_or None (as @ bs) = (if first_or bs None \<noteq> None then l_tail l else last_or None as)"
    using D'(4) by (cases bs) simp_all
  have "listDelNode st l d = Some (st', l')"
    using parts(3) j(1,2) unfolding l'_def hd tl st'_def upd_if_node_def
    by (cases "last_or None as"; cases "first_or bs None")
      (simp_all add: listDelNode_def free_value_def)
  moreover have "\<forall>b. b \<notin> set ps \<longrightarrow> nodes st' b = nodes st b"
    unfolding split(1) using fields(1) j(5) by auto
  moreover have "l_dup l' = l_dup l" "l_free l' = l_free l" "l_match l' = l_match l"
    by (simp_all add: l'_def)
  ultimately show ?thesis
    using rep' fields by (simp add: delete_at_def as_def bs_def ys_def zs_def d_def)
qed

lemma chain_last:
  "chain h p (as @ [a]) xs q \<Longrightarrow>
   \<exists>ys x. xs = ys @ [x] \<and> chain h p as ys (Some a)
        \<and> h a = Some \<lparr>n_prev = last_or p as, n_next = q, n_value = x\<rparr>"
  using chain_length [of h p "as @ [a]" xs q]
  by (cases xs rule: rev_cases) (auto simp: chain_append)

lemma index_forward:
  "chain h p bs ys None \<Longrightarrow>
   listIndex_loop h n_next k (first_or bs None) = Some (if k < length bs then Some (bs ! k) else None)"
proof (induction k arbitrary: p bs ys)
  case 0
  then show ?case by (cases bs) simp_all
next
  case (Suc k)
  show ?case
  proof (cases bs)
    case (Cons b bs')
    with Suc.prems show ?thesis using Suc.IH [of "Some b" bs'] by (cases ys) auto
  qed simp
qed

lemma index_backward:
  "chain h None as xs q \<Longrightarrow>
   listIndex_loop h n_prev k (last_or None as) = Some (if k < length as then Some (rev as ! k) else None)"
proof (induction k arbitrary: as xs q)
  case 0
  then show ?case by (cases as rule: rev_cases) simp_all
next
  case (Suc k)
  show ?case
  proof (cases as rule: rev_cases)
    case (snoc as' a)
    then obtain ys where "chain h None as' ys (Some a)" "\<exists>n. h a = Some n \<and> n_prev n = last_or None as'"
      using chain_last [of h None as' a xs q] Suc.prems by auto
    with snoc Suc.IH show ?thesis by fastforce
  qed simp
qed

lemma index_rep:
  assumes "list_rep st l ps xs"
  shows "listIndex st l i =
    Some (let k = (if i < 0 then int (length ps) + i else i)
          in if 0 \<le> k \<and> k < int (length ps) then Some (ps ! nat k) else None)"
proof (cases "i < 0")
  case True
  have "nat (- i - 1) < length ps \<Longrightarrow> length ps - Suc (nat (- i - 1)) = nat (int (length ps) + i)"
    using True by linarith
  then show ?thesis
    using True list_repD [OF assms] index_backward [of "nodes st" ps xs None "nat (- i - 1)"]
    by (auto simp: listIndex_def rev_nth Let_def nat_less_iff)
next
  case False
  then show ?thesis
    using list_repD [OF assms] index_forward [of "nodes st" None ps xs "nat i"]
    by (auto simp: listIndex_def Let_def nat_less_iff)
qed

lemma search_loop_rep:
  "chain h p bs ys None \<Longrightarrow>
   listSearchKey_loop h l key \<lparr>i_next = first_or bs None, i_direction = AL_START_HEAD\<rparr> =
     Some (map_option fst
       (List.find (\<lambda>(a, x). case l_match l of Some match \<Rightarrow> match x key | None \<Rightarrow> key = x) (zip bs ys)))"
proof (induction bs arbitrary: p ys)
  case Nil
  then show ?case by (cases ys) (simp_all add: listSearchKey_loop.simps listNext_def)
next
  case (Cons b bs)
  then obtain y ys' where ys: "ys = y # ys'" by (cases ys) auto
  with Cons.prems have node: "h b = Some \<lparr>n_prev = p, n_next = first_or bs None, n_value = y\<rparr>"
    and rest: "chain h (Some b) bs ys' None" by simp_all
  show ?case using Cons.IH [OF rest]
    by (subst listSearchKey_loop.simps; cases "l_match l") (simp_all add: listNext_def node ys)
qed

lemma release_loop_rep:
  "chain (nodes st) p bs ys q \<Longrightarrow> distinct bs \<Longrightarrow>
   \<exists>st'. listRelease_loop l (length bs) (first_or bs None) st = Some st'
     \<and> nodes st' = (\<lambda>a. if a \<in> set bs then None else nodes st a)
     \<and> released st' = released st @ (if l_free l then ys else [])"
proof (induction bs arbitrary: p ys st)
  case Nil
  then show ?case by (cases ys) simp_all
next
  case (Cons b bs)
  then obtain y ys' where ys: "ys = y # ys'" by (cases ys) auto
  let ?st = "zfree_node b (free_value l y st)"
  have n: "nodes ?st = (nodes st)(b := None)" "released ?st = released st @ (if l_free l then [y] else [])"
    by (simp_all add: zfree_node_def free_value_def)
  have node: "nodes st b = Some \<lparr>n_prev = p, n_next = first_or bs q, n_value = y\<rparr>"
    and "chain (nodes ?st) (Some b) bs ys' q"
    using Cons.prems ys by (simp_all add: n chain_frame)
  then obtain st' where "listRelease_loop l (length bs) (first_or bs None) ?st = Some st'"
     "nodes st' = (\<lambda>a. if a \<in> set bs then None else nodes ?st a)"
     "released st' = released ?st @ (if l_free l then ys' else [])"
    using Cons.IH Cons.prems(2) by auto blast
  moreover have "listRelease_loop l (length bs) (first_or bs q) ?st = listRelease_loop l (length bs) (first_or bs None) ?st"
    by (cases bs) simp_all
  ultimately show ?case using node n ys by (auto simp: fun_eq_iff)
qed

lemma rotate_rep:
  assumes rep: "list_rep st l (b # ps @ [t]) xs"
  shows "\<exists>st' l'. listRotate st l = Some (st', l')
     \<and> list_rep st' l' (t # b # ps) (last xs # butlast xs) \<and> list_step st l st' l' (b # ps @ [t])"
proof -
  note D = list_repD [OF rep]
  have "chain (nodes st) None ((b # ps) @ [t]) xs None" using D(2) by simp
  from chain_last [OF this] obtain ys x where xs: "xs = ys @ [x]"
    and ch: "chain (nodes st) None (b # ps) ys (Some t)"
    and t: "nodes st t = Some \<lparr>n_prev = last_or None (b # ps), n_next = None, n_value = x\<rparr>" by auto
  obtain p' where p': "last_or None (b # ps) = Some p'" "p' \<in> set (b # ps)"
    by (auto simp: last_or_def)
  have tnot: "t \<notin> set (b # ps)" "p' \<noteq> t" "b \<noteq> t" using D(1) p' by auto
  obtain h1 where h1: "upd_node (Some p') (n_next_update (\<lambda>_. None)) (nodes st) = Some h1"
      "chain h1 None (b # ps) ys None" "\<forall>c. c \<notin> set (b # ps) \<longrightarrow> h1 c = nodes st c"
    using upd_if_next [OF ch, of None] D(1) p' by (auto simp: upd_if_node_def)
  obtain h2 where h2: "upd_node (Some b) (n_prev_update (\<lambda>_. Some t)) h1 = Some h2"
      "chain h2 (Some t) (b # ps) ys None" "\<forall>c. c \<noteq> b \<longrightarrow> h2 c = h1 c"
    using chain_set_prev [OF h1(2), of "Some t"] D(1) by auto
  have t2: "h2 t = Some \<lparr>n_prev = Some p', n_next = None, n_value = x\<rparr>"
    using h1(3) h2(3) tnot t p'(1) by simp
  define h4 where "h4 = h2(t \<mapsto> \<lparr>n_prev = None, n_next = Some b, n_value = x\<rparr>)"
  have t4: "Option.bind (upd_node (Some t) (n_prev_update (\<lambda>_. None)) h2)
      (upd_node (Some t) (n_next_update (\<lambda>_. Some b))) = Some h4"
    by (simp add: upd_node_def t2 h4_def)
  have "chain h4 None (t # b # ps) (x # ys) None"
    using h2(2) tnot chain_frame [of t "b # ps" h2] by (simp add: h4_def)
  then have "list_rep (st\<lparr>nodes := h4\<rparr>) (l\<lparr>l_tail := Some p', l_head := Some t\<rparr>) (t # b # ps) (x # ys)"
    using D(1,5) p'(1) by (auto simp: list_rep_def)
  moreover have "list_step st l (st\<lparr>nodes := h4\<rparr>) (l\<lparr>l_tail := Some p', l_head := Some t\<rparr>) (b # ps @ [t])"
    using h1(3) h2(3) by (auto simp: list_step_def h4_def)
  moreover have "listRotate st l = Some (st\<lparr>nodes := h4\<rparr>, l\<lparr>l_tail := Some p', l_head := Some t\<rparr>)"
    using D(3,4,5) t t4 h1(1) h2(1) p'(1) by (auto simp: listRotate_def split: bind_splits)
  ultimately show ?thesis using xs by simp
qed

section \<open>Duplication\<close>

text \<open>A list that was duplicated so far: a list of its own in nodes that were free before.\<close>

definition dup_state :: "'v store \<Rightarrow> 'v store \<Rightarrow> 'v dlist \<Rightarrow> addr list \<Rightarrow> 'v list \<Rightarrow> bool" where
  "dup_state st0 st copy cps cs \<longleftrightarrow>
     list_rep st copy cps cs \<and> (\<forall>a \<in> set cps. nodes st0 a = None)
     \<and> (\<forall>a. a \<notin> set cps \<longrightarrow> nodes st a = nodes st0 a)"

lemma dup_release:
  assumes "dup_state st0 st copy cps cs"
  shows "\<exists>st'. listRelease st copy = Some st' \<and> nodes st' = nodes st0"
proof -
  have D: "list_rep st copy cps cs" "\<forall>a \<in> set cps. nodes st0 a = None"
    "\<forall>a. a \<notin> set cps \<longrightarrow> nodes st a = nodes st0 a" using assms by (auto simp: dup_state_def)
  note R = list_repD [OF D(1)]
  obtain st' where "listRelease_loop copy (length cps) (first_or cps None) st = Some st'"
     "nodes st' = (\<lambda>a. if a \<in> set cps then None else nodes st a)"
    using release_loop_rep [OF R(2,1), of copy] by blast
  then show ?thesis using R(3,5) D(2,3) by (auto simp: listRelease_def fun_eq_iff)
qed

lemma dup_loop_rep:
  assumes fresh: "fresh_alloc alloc"
  shows "chain (nodes st0) p bs ys None \<Longrightarrow> dup_state st0 st copy cps cs \<Longrightarrow>
   \<exists>st' r. listDup_loop alloc st copy \<lparr>i_next = first_or bs None, i_direction = AL_START_HEAD\<rparr> = Some (st', r)
     \<and> (case r of None \<Rightarrow> nodes st' = nodes st0
        | Some c \<Rightarrow> \<exists>cps' cs'. dup_state st0 st' c cps' cs'
             \<and> those (map (dup_value copy) ys) = Some (drop (length cs) cs') \<and> take (length cs) cs' = cs)"
proof (induction bs arbitrary: p ys st copy cps cs)
  case Nil
  then show ?case
    by (cases ys) (auto simp: listDup_loop.simps listNext_def intro!: exI [of _ cps] exI [of _ cs])
next
  case (Cons b bs)
  then obtain y ys' where ys: "ys = y # ys'" by (cases ys) auto
  with Cons.prems(1) have node0: "nodes st0 b = Some \<lparr>n_prev = p, n_next = first_or bs None, n_value = y\<rparr>"
    and rest: "chain (nodes st0) (Some b) bs ys' None" by simp_all
  have st: "list_rep st copy cps cs" "\<forall>a \<in> set cps. nodes st0 a = None"
    "\<forall>a. a \<notin> set cps \<longrightarrow> nodes st a = nodes st0 a" using Cons.prems(2) by (auto simp: dup_state_def)
  have node: "nodes st b = Some \<lparr>n_prev = p, n_next = first_or bs None, n_value = y\<rparr>"
  proof -
    have "b \<notin> set cps" using st(2) node0 by auto
    then show ?thesis using st(3) node0 by simp
  qed
  note unf = listDup_loop.simps [of alloc st copy "\<lparr>i_next = first_or (b # bs) None, i_direction = AL_START_HEAD\<rparr>"]
  obtain stR where R: "listRelease st copy = Some stR" "nodes stR = nodes st0"
    using dup_release [OF Cons.prems(2)] by blast
  show ?case
  proof (cases "dup_value copy y")
    case None
    then show ?thesis using R unfolding unf by (simp add: listNext_def node)
  next
    case (Some v)
    show ?thesis
    proof (cases "alloc (nodes st)")
      case None
      then have "listAddNodeTail alloc st copy v = Some (st, None)" by (simp add: listAddNodeTail_def)
      then show ?thesis using R Some unfolding unf by (simp add: listNext_def node)
    next
      case new: (Some a)
      then have a: "nodes st a = None" using fresh by (simp add: fresh_alloc_def)
      obtain st1 c1 where add: "listAddNodeTail alloc st copy v = Some (st1, Some c1)"
          "list_rep st1 c1 (cps @ [a]) (cs @ [v])" "list_step st copy st1 c1 (a # cps)"
        using add_tail_rep [where alloc = alloc, OF st(1) new a] by blast
      have dup1: "dup_state st0 st1 c1 (cps @ [a]) (cs @ [v])"
        using add(2,3) st a by (auto simp: dup_state_def list_step_def)
      have dvc: "dup_value c1 = dup_value copy" using add(3) by (simp add: dup_value_def list_step_def fun_eq_iff)
      obtain st' r where IH:
          "listDup_loop alloc st1 c1 \<lparr>i_next = first_or bs None, i_direction = AL_START_HEAD\<rparr> = Some (st', r)"
          "case r of None \<Rightarrow> nodes st' = nodes st0
           | Some c \<Rightarrow> \<exists>cps' cs'. dup_state st0 st' c cps' cs'
             \<and> those (map (dup_value copy) ys') = Some (drop (length (cs @ [v])) cs')
             \<and> take (length (cs @ [v])) cs' = cs @ [v]"
        using Cons.IH [OF rest dup1, unfolded dvc] by blast
      have "listDup_loop alloc st copy \<lparr>i_next = first_or (b # bs) None, i_direction = AL_START_HEAD\<rparr> = Some (st', r)"
        unfolding unf using Some add(1) IH(1) by (simp add: listNext_def node)
      moreover have "drop (length cs) cs' = v # drop (Suc (length cs)) cs' \<and> take (length cs) cs' = cs"
        if "take (length (cs @ [v])) cs' = cs @ [v]" for cs'
      proof -
        have "cs' = (cs @ [v]) @ drop (length (cs @ [v])) cs'" using that by (metis append_take_drop_id)
        then show ?thesis by (metis append_Cons append_Nil append_assoc append_eq_conv_conj length_append_singleton)
      qed
      ultimately show ?thesis using IH(2) Some ys by (fastforce split: option.splits)
    qed
  qed
qed

section \<open>The list as a double-ended sequence\<close>

text \<open>The state the interface talks about: the heap and the list struct.\<close>

definition seq_rep :: "('v heap \<Rightarrow> addr option) \<Rightarrow> 'v store \<times> 'v dlist \<Rightarrow> 'v list \<Rightarrow> bool" where
  "seq_rep alloc s xs \<longleftrightarrow> fresh_alloc alloc \<and> (\<exists>ps. list_rep (fst s) (snd s) ps xs)"

definition add_result :: "('v store \<times> 'v dlist option) option \<Rightarrow> ('v store \<times> 'v dlist) option" where
  "add_result r = Option.bind r (\<lambda>(st, l). map_option (Pair st) l)"

interpretation adlist: seq_impl
  "\<lambda>s v. add_result (listAddNodeHead alloc (fst s) (snd s) v)"
  "\<lambda>s v. add_result (listAddNodeTail alloc (fst s) (snd s) v)"
  "\<lambda>s. l_len (snd s)" "seq_rep alloc" "\<lambda>s. alloc (nodes (fst s)) \<noteq> None"
proof (unfold_locales, goal_cases)
  case (1 s xs v)
  then show ?case
    using add_head_rep [of "fst s" "snd s" _ xs alloc _ v]
    by (fastforce simp: seq_rep_def add_result_def fresh_alloc_def)
next
  case (2 s xs v)
  then show ?case
    using add_tail_rep [of "fst s" "snd s" _ xs alloc _ v]
    by (fastforce simp: seq_rep_def add_result_def fresh_alloc_def)
next
  case (3 s v)
  then show ?case by (simp add: add_result_def listAddNodeHead_def listAddNodeTail_def)
next
  case (4 s xs)
  then show ?case by (auto simp: seq_rep_def list_rep_def dest: chain_length)
qed

section \<open>Properties\<close>

text \<open>C24: \<^verbatim>\<open>listDelNode\<close> removes exactly the node it is given, wherever it stands: the remaining
  nodes are correctly linked in both directions and carry the other values in order, head, tail and
  length are right, the node is freed, its value is passed to the \<^verbatim>\<open>free\<close> method when there is one,
  and no node outside the list is touched.\<close>

theorem listDelNode_correct:
  assumes "list_rep st l ps xs" "i < length ps"
  shows "\<exists>st' l'. listDelNode st l (ps ! i) = Some (st', l')
     \<and> list_rep st' l' (delete_at i ps) (delete_at i xs)
     \<and> nodes st' (ps ! i) = None \<and> (\<forall>b. b \<notin> set ps \<longrightarrow> nodes st' b = nodes st b)
     \<and> released st' = released st @ (if l_free l then [xs ! i] else [])"
  using del_node_rep [OF assms] by blast

definition node_example :: "nat store" where
  "node_example = \<lparr>nodes = [4 \<mapsto> \<lparr>n_prev = None, n_next = Some 9, n_value = 40\<rparr>,
                            9 \<mapsto> \<lparr>n_prev = Some 4, n_next = Some 2, n_value = 90\<rparr>,
                            2 \<mapsto> \<lparr>n_prev = Some 9, n_next = None, n_value = 20\<rparr>], released = []\<rparr>"

definition list_example :: "nat dlist" where
  "list_example = \<lparr>l_head = Some 4, l_tail = Some 2, l_dup = None, l_free = True, l_match = None, l_len = 3\<rparr>"

lemma list_example_rep: "list_rep node_example list_example [4, 9, 2] [40, 90, 20]"
  by (simp add: list_rep_def node_example_def list_example_def last_or_def)

theorem listDelNode_correct_witness:
  "\<exists>st' l'. listDelNode node_example list_example 9 = Some (st', l')
     \<and> list_rep st' l' [4, 2] [40, 20] \<and> released st' = [90]"
  using listDelNode_correct [OF list_example_rep, of 1]
  by (auto simp: delete_at_def node_example_def list_example_def)

text \<open>\<^verbatim>\<open>listInsertNode\<close> puts the new value right after or right before the node it is given,
  keeps the order of the others and the links in both directions, and touches no node outside the
  list and the new one.\<close>

theorem listInsertNode_correct:
  assumes "list_rep st l ps xs" "i < length ps" "fresh_alloc alloc" "alloc (nodes st) = Some a"
  shows "\<exists>st' l'. listInsertNode alloc st l (ps ! i) v after = Some (st', Some l')
     \<and> list_rep st' l' (insert_at (if after then i + 1 else i) a ps) (insert_at (if after then i + 1 else i) v xs)
     \<and> (\<forall>b. b \<notin> set (a # ps) \<longrightarrow> nodes st' b = nodes st b)"
proof -
  have "nodes st a = None" using assms(3,4) by (simp add: fresh_alloc_def)
  from insert_node_rep [where alloc = alloc and v = v and after = after, OF assms(1,2,4) this] show ?thesis
    unfolding list_step_def by blast
qed

definition alloc_example :: "nat heap \<Rightarrow> addr option" where
  "alloc_example h = (if h 7 = None then Some 7 else if h 8 = None then Some 8 else None)"

lemma alloc_example_fresh: "fresh_alloc alloc_example"
  by (auto simp: fresh_alloc_def alloc_example_def split: if_splits)

theorem listInsertNode_correct_witness:
  "\<exists>st' l'. listInsertNode alloc_example node_example list_example 2 25 True = Some (st', Some l')
     \<and> list_rep st' l' [4, 9, 2, 7] [40, 90, 20, 25]"
proof -
  have "alloc_example (nodes node_example) = Some 7" by (simp add: alloc_example_def node_example_def)
  from listInsertNode_correct [OF list_example_rep _ alloc_example_fresh this, of 2 25 True]
  show ?thesis by (auto simp: insert_at_def)
qed

text \<open>\<^verbatim>\<open>listIndex\<close> returns the node at an index counted from the head, or from the tail when it
  is negative, and \<^verbatim>\<open>NULL\<close> when it is out of range in either direction.\<close>

theorem listIndex_correct:
  assumes "list_rep st l ps xs"
  shows "listIndex st l i =
    Some (let k = (if i < 0 then int (length ps) + i else i)
          in if 0 \<le> k \<and> k < int (length ps) then Some (ps ! nat k) else None)"
  using assms by (rule index_rep)

theorem listIndex_correct_witness:
  "listIndex node_example list_example (- 2) = Some (Some 9)
   \<and> listIndex node_example list_example 3 = Some None"
  using listIndex_correct [OF list_example_rep, of "- 2"] listIndex_correct [OF list_example_rep, of 3]
  by simp

text \<open>\<^verbatim>\<open>listDup\<close> never modifies the original list. It ends; on success the copy is a list of its
  own, in nodes that were free before, whose values are those of the original passed through the
  \<^verbatim>\<open>dup\<close> method; when \<^verbatim>\<open>dup\<close> or the allocator fails it returns \<^verbatim>\<open>NULL\<close> and has given back every node
  it had allocated.\<close>

theorem listDup_correct:
  assumes "fresh_alloc alloc" "list_rep st l ps xs"
  shows "\<exists>st' r. listDup alloc st l = Some (st', r) \<and> list_rep st' l ps xs
     \<and> (case r of
          None \<Rightarrow> nodes st' = nodes st
        | Some c \<Rightarrow> \<exists>cps cs. list_rep st' c cps cs \<and> those (map (dup_value l) xs) = Some cs
            \<and> (\<forall>a \<in> set cps. nodes st a = None) \<and> (\<forall>a. a \<notin> set cps \<longrightarrow> nodes st' a = nodes st a))"
proof -
  note D = list_repD [OF assms(2)]
  let ?c = "listCreate\<lparr>l_dup := l_dup l, l_free := l_free l, l_match := l_match l\<rparr>"
  have "dup_state st st ?c [] []" by (simp add: dup_state_def list_rep_def listCreate_def)
  from dup_loop_rep [OF assms(1) D(2) this] D(3) obtain st' r where
    run: "listDup alloc st l = Some (st', r)" and
    res: "case r of None \<Rightarrow> nodes st' = nodes st
        | Some c \<Rightarrow> \<exists>cps cs. dup_state st st' c cps cs \<and> those (map (dup_value ?c) xs) = Some cs"
    by (fastforce simp: listDup_def listGetIterator_def split: option.splits)
  have dv: "dup_value ?c = dup_value l" by (simp add: dup_value_def fun_eq_iff)
  have "list_rep st' l ps xs"
  proof (cases r)
    case None
    then show ?thesis using res assms(2) by (simp add: list_rep_def)
  next
    case (Some c)
    then obtain cps cs where c: "dup_state st st' c cps cs" using res by auto
    have "chain (nodes st') None ps xs None"
    proof (subst chain_cong [of ps "nodes st'" "nodes st"])
      fix a
      assume "a \<in> set ps"
      then have "nodes st a \<noteq> None" using chain_in_heap [OF D(2)] by blast
      then have "a \<notin> set cps" using c by (auto simp: dup_state_def)
      then show "nodes st' a = nodes st a" using c by (simp add: dup_state_def)
    qed (rule D(2))
    then show ?thesis using assms(2) by (simp add: list_rep_def)
  qed
  moreover have "case r of None \<Rightarrow> nodes st' = nodes st
        | Some c \<Rightarrow> \<exists>cps cs. list_rep st' c cps cs \<and> those (map (dup_value l) xs) = Some cs
            \<and> (\<forall>a \<in> set cps. nodes st a = None) \<and> (\<forall>a. a \<notin> set cps \<longrightarrow> nodes st' a = nodes st a)"
    using res unfolding dv dup_state_def by (cases r) auto
  ultimately show ?thesis using run by blast
qed

theorem listDup_correct_witness:
  "\<exists>st' r. listDup alloc_example node_example list_example = Some (st', r)
     \<and> list_rep st' list_example [4, 9, 2] [40, 90, 20]"
  using listDup_correct [OF alloc_example_fresh list_example_rep] by blast

lemma listSearchKey_first:
  assumes "list_rep st l ps xs"
  shows "listSearchKey st l key =
     Some (map_option fst
       (List.find (\<lambda>(a, x). case l_match l of Some match \<Rightarrow> match x key | None \<Rightarrow> key = x) (zip ps xs)))"
  using search_loop_rep [OF list_repD(2) [OF assms], of l key] list_repD(3) [OF assms]
  by (simp add: listSearchKey_def listGetIterator_def)

end
