(* ===== verification/Glob.thy ===== *)
theory Glob
  imports Redis_Prelude
begin

text \<open>
  \<^verbatim>\<open>stringmatchlen\<close> of \<^verbatim>\<open>util.c\<close>, the glob-style matcher behind \<^verbatim>\<open>KEYS\<close>, \<^verbatim>\<open>SCAN\<close> and pattern
  subscriptions. The two pointers are indices \<open>pi\<close>, \<open>si\<close> into the buffers \<open>P\<close>, \<open>S\<close> and the
  remaining lengths \<open>plen\<close>, \<open>slen\<close> are C ints, which the code lets drift apart from the
  pointers; a read outside a buffer is \<open>None\<close>. Callers pass the bytes of an sds string, so the
  buffers end with a zero byte.

  The reference is a parser of patterns into tokens (\<open>parse\<close>) and the meaning of a token list
  (\<open>glob\<close>). The code agrees with it on every pattern that parses and every non-empty string.
  On the empty string it does not, and on a pattern with a class that ends in a backslash it reads
  past the terminator; both are shown.
\<close>

section \<open>The matcher\<close>

definition tolower_int :: "int \<Rightarrow> int" where
  "tolower_int c = (if 65 \<le> c \<and> c \<le> 90 then c + 32 else c)"

definition byte_eq :: "bool \<Rightarrow> u8 \<Rightarrow> u8 \<Rightarrow> bool" where
  "byte_eq nocase a b =
     (if \<not> nocase then a = b else tolower_int (sint a) = tolower_int (sint b))"

definition in_range :: "bool \<Rightarrow> u8 \<Rightarrow> u8 \<Rightarrow> u8 \<Rightarrow> bool" where
  "in_range nocase a b s =
     (let (start, end) = (if sint a > sint b then (sint b, sint a) else (sint a, sint b));
          lower = (if nocase then tolower_int else id)
      in lower (sint s) \<ge> lower start \<and> lower (sint s) \<le> lower end)"

text \<open>\<^verbatim>\<open>while (pattern[1] == '*') { pattern++; patternLen--; }\<close>\<close>

function star_run :: "u8 list \<Rightarrow> nat \<Rightarrow> int \<Rightarrow> (nat \<times> int) option" where
  "star_run P pi plen =
     (case rd P (pi + 1) of
        None \<Rightarrow> None
      | Some c \<Rightarrow> if c = ch CHR ''*'' then star_run P (pi + 1) (plen - 1) else Some (pi, plen))"
  by pat_completeness auto
termination
  by (relation "measure (\<lambda>(P, pi, plen). length P - pi)") (auto simp: rd_def split: if_splits)

text \<open>\<^verbatim>\<open>while (*pattern == '*') { pattern++; patternLen--; }\<close>, the length only.\<close>

function skip_stars :: "u8 list \<Rightarrow> nat \<Rightarrow> int \<Rightarrow> int option" where
  "skip_stars P pi plen =
     (case rd P pi of
        None \<Rightarrow> None
      | Some c \<Rightarrow> if c = ch CHR ''*'' then skip_stars P (pi + 1) (plen - 1) else Some plen)"
  by pat_completeness auto
termination
  by (relation "measure (\<lambda>(P, pi, plen). length P - pi)") (auto simp: rd_def split: if_splits)

text \<open>The loop over the members of a character class, from behind the opening bracket.\<close>

function class_loop ::
  "u8 list \<Rightarrow> nat \<Rightarrow> int \<Rightarrow> u8 list \<Rightarrow> nat \<Rightarrow> bool \<Rightarrow> bool \<Rightarrow> (nat \<times> int \<times> bool) option" where
  "class_loop P pi plen S si nocase match =
     (case rd P pi of
        None \<Rightarrow> None
      | Some c \<Rightarrow>
          if c = ch (CHR 0x5C) then do {
            c' \<leftarrow> rd P (pi + 1);
            s \<leftarrow> rd S si;
            class_loop P (pi + 2) (plen - 2) S si nocase (match \<or> c' = s) }
          else if c = ch CHR '']'' then Some (pi, plen, match)
          else if plen = 0 then Some (pi - 1, plen + 1, match)
          else do {
            c1 \<leftarrow> rd P (pi + 1);
            if c1 = ch CHR ''-'' \<and> plen \<ge> 3 then do {
              e \<leftarrow> rd P (pi + 2);
              s \<leftarrow> rd S si;
              class_loop P (pi + 3) (plen - 3) S si nocase (match \<or> in_range nocase c e s) }
            else do {
              s \<leftarrow> rd S si;
              class_loop P (pi + 1) (plen - 1) S si nocase (match \<or> byte_eq nocase c s) } })"
  by pat_completeness auto
termination
  by (relation "measure (\<lambda>(P, pi, plen, S, si, nocase, match). length P - pi)")
    (auto simp: rd_def split: if_splits)

declare star_run.simps [simp del] skip_stars.simps [simp del] class_loop.simps [simp del]

text \<open>
  One round of the outer loop for a pattern that does not start with a star: the inner \<open>None\<close> is
  \<^verbatim>\<open>return 0\<close>, otherwise the state after the \<^verbatim>\<open>switch\<close>.
\<close>

definition glob_step ::
  "u8 list \<Rightarrow> nat \<Rightarrow> int \<Rightarrow> u8 list \<Rightarrow> nat \<Rightarrow> int \<Rightarrow> bool \<Rightarrow> (nat \<times> int \<times> nat \<times> int) option option" where
  "glob_step P pi plen S si slen nocase = do {
     c \<leftarrow> rd P pi;
     if c = ch CHR ''?'' then
       (if slen = 0 then Some None else Some (Some (pi, plen, si + 1, slen - 1)))
     else if c = ch CHR ''['' then do {
       c1 \<leftarrow> rd P (pi + 1);
       let neg = (c1 = ch CHR ''^'');
       (pi', plen', match) \<leftarrow>
         (if neg then class_loop P (pi + 2) (plen - 2) S si nocase False
          else class_loop P (pi + 1) (plen - 1) S si nocase False);
       if (if neg then \<not> match else match)
       then Some (Some (pi', plen', si + 1, slen - 1)) else Some None }
     else do {
       let (pi', plen') = (if c = ch (CHR 0x5C) \<and> plen \<ge> 2 then (pi + 1, plen - 1) else (pi, plen));
       c' \<leftarrow> rd P pi';
       s \<leftarrow> rd S si;
       if byte_eq nocase c' s then Some (Some (pi', plen', si + 1, slen - 1)) else Some None } }"

lemma star_run_mono: "star_run P pi plen = Some (pi', plen') \<Longrightarrow> pi \<le> pi'"
proof (induction P pi plen rule: star_run.induct)
  case (1 P pi plen)
  then show ?case
    by (subst (asm) (2) star_run.simps) (auto split: option.splits if_splits dest: Suc_leD)
qed

lemma class_loop_mono:
  "class_loop P pi plen S si nocase match = Some (pi', plen', match') \<Longrightarrow> pi \<le> pi' + 1"
proof (induction P pi plen S si nocase match rule: class_loop.induct)
  case (1 P pi plen S si nocase match)
  note unf = class_loop.simps [of P pi plen S si nocase match]
  obtain c where c: "rd P pi = Some c" using "1.prems" by (auto simp: unf split: option.splits)
  consider (esc) "c = ch (CHR 0x5C)" | (close) "c \<noteq> ch (CHR 0x5C)" "c = ch CHR '']'' \<or> plen = 0"
    | (item) "c \<noteq> ch (CHR 0x5C)" "c \<noteq> ch CHR '']''" "plen \<noteq> 0" by blast
  then show ?case
  proof cases
    case esc
    obtain c' s where r: "rd P (pi + 1) = Some c'" "rd S si = Some s"
      using "1.prems" c esc by (auto simp: unf split: bind_splits)
    have "class_loop P (pi + 2) (plen - 2) S si nocase (match \<or> c' = s) = Some (pi', plen', match')"
      using "1.prems" c esc r by (simp add: unf)
    from "1.IH"(1) [OF c esc r this] show ?thesis by simp
  next
    case close
    then show ?thesis using "1.prems" c by (auto simp: unf split: if_splits)
  next
    case item
    obtain c1 where c1: "rd P (pi + 1) = Some c1"
      using "1.prems" c item by (auto simp: unf split: bind_splits)
    show ?thesis
    proof (cases "c1 = ch CHR ''-'' \<and> plen \<ge> 3")
      case True
      obtain e s where r: "rd P (pi + 2) = Some e" "rd S si = Some s"
        using "1.prems" c c1 item True by (auto simp: unf split: bind_splits)
      have "class_loop P (pi + 3) (plen - 3) S si nocase (match \<or> in_range nocase c e s) = Some (pi', plen', match')"
        using "1.prems" c c1 item True r by (simp add: unf)
      from "1.IH"(2) [OF c item c1 True r this] show ?thesis by simp
    next
      case False
      obtain s where r: "rd S si = Some s"
        using "1.prems" c c1 item False by (auto simp: unf split: bind_splits if_splits)
      have "class_loop P (pi + 1) (plen - 1) S si nocase (match \<or> byte_eq nocase c s) = Some (pi', plen', match')"
        using "1.prems" c c1 item False r by (auto simp: unf split: if_splits)
      from "1.IH"(3) [OF c item c1 False r this] show ?thesis by simp
    qed
  qed
qed

lemma glob_step_mono:
  "glob_step P pi plen S si slen nocase = Some (Some (pi', plen', si', slen')) \<Longrightarrow> pi \<le> pi'"
  by (auto simp: glob_step_def Let_def split: bind_splits if_splits prod.splits dest: class_loop_mono)

text \<open>
  \<open>star_loop\<close> is the \<^verbatim>\<open>while (stringLen)\<close> loop behind a star, where \<open>q\<close> is the position after
  the star.
\<close>

function (sequential)
    stringmatchlen :: "u8 list \<Rightarrow> nat \<Rightarrow> int \<Rightarrow> u8 list \<Rightarrow> nat \<Rightarrow> int \<Rightarrow> bool \<Rightarrow> bool option"
and star_loop :: "u8 list \<Rightarrow> nat \<Rightarrow> int \<Rightarrow> u8 list \<Rightarrow> nat \<Rightarrow> int \<Rightarrow> bool \<Rightarrow> bool option" where
  "stringmatchlen P pi plen S si slen nocase =
     (if plen = 0 then Some (plen = 0 \<and> slen = 0)
      else case rd P pi of
        None \<Rightarrow> None
      | Some c \<Rightarrow>
          if c = ch CHR ''*'' then
            (case star_run P pi plen of
               None \<Rightarrow> None
             | Some (pi', plen') \<Rightarrow>
                 if plen' = 1 then Some True else star_loop P (pi' + 1) (plen' - 1) S si slen nocase)
          else
            (case glob_step P pi plen S si slen nocase of
               None \<Rightarrow> None
             | Some None \<Rightarrow> Some False
             | Some (Some (pi', plen', si', slen')) \<Rightarrow>
                 if slen' = 0 then
                   (case skip_stars P (pi' + 1) (plen' - 1) of
                      None \<Rightarrow> None
                    | Some n \<Rightarrow> Some (n = 0 \<and> slen' = 0))
                 else stringmatchlen P (pi' + 1) (plen' - 1) S si' slen' nocase))"
| "star_loop P q qlen S si slen nocase =
     (if slen = 0 then Some False
      else case stringmatchlen P q qlen S si slen nocase of
        None \<Rightarrow> None
      | Some True \<Rightarrow> Some True
      | Some False \<Rightarrow>
          if si < length S then star_loop P q qlen S (si + 1) (slen - 1) nocase else None)"
  by pat_completeness auto
termination
proof (relation "measures
   [\<lambda>x. case x of Inl (P, pi, _) \<Rightarrow> length P + 1 - pi | Inr (P, q, _) \<Rightarrow> length P + 1 - q,
    \<lambda>x. case x of Inl _ \<Rightarrow> 0 | Inr _ \<Rightarrow> 1,
    \<lambda>x. case x of Inl _ \<Rightarrow> 0 | Inr (_, _, _, S, si, _) \<Rightarrow> length S - si]", goal_cases)
  case (2 P pi plen S si slen nocase c y pi' plen')
  then show ?case using star_run_mono [of P pi plen pi' plen']
    by (auto simp: rd_def split: if_splits)
next
  case (3 P pi plen S si slen nocase c y z pi' w plen' v si' slen')
  then show ?case using glob_step_mono [of P pi plen S si slen nocase pi' plen' si' slen']
    by (auto simp: rd_def split: if_splits)
qed auto

declare stringmatchlen.simps [simp del] star_loop.simps [simp del]

text \<open>The call with an sds pattern and an sds string.\<close>

definition sdsmatch :: "u8 list \<Rightarrow> u8 list \<Rightarrow> bool \<Rightarrow> bool option" where
  "sdsmatch p s nocase =
     stringmatchlen (p @ [0]) 0 (int (length p)) (s @ [0]) 0 (int (length s)) nocase"

section \<open>The meaning of patterns\<close>

datatype citem = CEsc u8 | COne u8 | CRange u8 u8

datatype tok = TStar | TAny | TLit u8 | TClass bool "citem list"

fun parse_class :: "u8 list \<Rightarrow> (citem list \<times> u8 list) option" where
  "parse_class [] = Some ([], [])"
| "parse_class [c] =
     (if c = ch (CHR 0x5C) then None
      else if c = ch CHR '']'' then Some ([], [])
      else Some ([COne c], []))"
| "parse_class [c, d] =
     (if c = ch (CHR 0x5C) then Some ([CEsc d], [])
      else if c = ch CHR '']'' then Some ([], [d])
      else map_option (apfst ((#) (COne c))) (parse_class [d]))"
| "parse_class (c # d # e # r) =
     (if c = ch (CHR 0x5C) then map_option (apfst ((#) (CEsc d))) (parse_class (e # r))
      else if c = ch CHR '']'' then Some ([], d # e # r)
      else if d = ch CHR ''-'' then map_option (apfst ((#) (CRange c e))) (parse_class r)
      else map_option (apfst ((#) (COne c))) (parse_class (d # e # r)))"

lemma parse_class_length: "parse_class p = Some z \<Longrightarrow> length (snd z) \<le> length p"
  by (induction p arbitrary: z rule: parse_class.induct) (force split: if_splits)+

function parse :: "u8 list \<Rightarrow> tok list option" where
  "parse [] = Some []"
| "parse (c # r) =
     (if c = ch CHR ''*'' then map_option ((#) TStar) (parse r)
      else if c = ch CHR ''?'' then map_option ((#) TAny) (parse r)
      else if c = ch CHR ''['' then
        let neg = (r \<noteq> [] \<and> hd r = ch CHR ''^'')
        in (case parse_class (if neg then tl r else r) of
              None \<Rightarrow> None
            | Some (is, r') \<Rightarrow> map_option ((#) (TClass neg is)) (parse r'))
      else if c = ch (CHR 0x5C) \<and> r \<noteq> [] then map_option ((#) (TLit (hd r))) (parse (tl r))
      else map_option ((#) (TLit c)) (parse r))"
  by pat_completeness auto
termination
  by (relation "measure length") (auto dest!: parse_class_length split: if_splits)

definition item_match :: "bool \<Rightarrow> u8 \<Rightarrow> citem \<Rightarrow> bool" where
  "item_match nocase s it =
     (case it of CEsc e \<Rightarrow> e = s | COne c \<Rightarrow> byte_eq nocase c s | CRange a b \<Rightarrow> in_range nocase a b s)"

fun tok_match :: "bool \<Rightarrow> tok \<Rightarrow> u8 \<Rightarrow> bool" where
  "tok_match nocase TStar s = False"
| "tok_match nocase TAny s = True"
| "tok_match nocase (TLit c) s = byte_eq nocase c s"
| "tok_match nocase (TClass neg is) s = (neg \<noteq> list_ex (item_match nocase s) is)"

fun glob :: "bool \<Rightarrow> tok list \<Rightarrow> u8 list \<Rightarrow> bool" where
  "glob nocase [] s = (s = [])"
| "glob nocase (t # ts) s =
     (if t = TStar then \<exists>i \<le> length s. glob nocase ts (drop i s)
      else s \<noteq> [] \<and> tok_match nocase t (hd s) \<and> glob nocase ts (tl s))"

section \<open>Positions in a buffer\<close>

definition at :: "u8 list \<Rightarrow> nat \<Rightarrow> u8 list \<Rightarrow> bool" where
  "at p i q \<longleftrightarrow> drop i p = q \<and> i + length q = length p"

lemma at_start: "at p 0 p"
  by (simp add: at_def)

lemma at_Cons: "at p i (c # q) \<Longrightarrow> rd (p @ [0]) i = Some c \<and> at p (i + 1) q"
proof -
  assume a: "at p i (c # q)"
  then have i: "i < length p" "drop i p = c # q" by (auto simp: at_def)
  then have "p ! i = c" "drop (i + 1) p = q"
    using Cons_nth_drop_Suc [OF i(1)] by simp_all
  then show ?thesis using a i by (simp add: at_def rd_def nth_append)
qed

lemma at_Nil: "at p i [] \<Longrightarrow> rd (p @ [0]) i = Some 0"
  by (simp add: at_def rd_def)

lemma at_rd: "at p i q \<Longrightarrow> rd (p @ [0]) i = Some (hd (q @ [0]))"
  by (cases q) (auto simp: at_Nil dest: at_Cons)

lemma at_Suc: "at p i (c # q) \<Longrightarrow> at p (Suc i) q"
  using at_Cons by simp

lemma at_less: "at p i (c # q) \<Longrightarrow> i < length (p @ [0])"
  by (simp add: at_def)

section \<open>Correctness of the parts\<close>

abbreviation (input) is_star :: "u8 \<Rightarrow> bool" where "is_star c \<equiv> c = ch CHR ''*''"

lemma star_run_at:
  "at p i (c # q) \<Longrightarrow>
   \<exists>i'. star_run (p @ [0]) i (int (length q) + 1) = Some (i', int (length (dropWhile is_star q)) + 1)
       \<and> at p (i' + 1) (dropWhile is_star q)"
proof (induction q arbitrary: i c)
  case Nil
  then show ?case using at_rd [of p "i + 1" "[]"] at_Cons [of p i c "[]"]
    by (subst star_run.simps) auto
next
  case (Cons d q)
  have nxt: "at p (i + 1) (d # q)" "rd (p @ [0]) (i + 1) = Some d"
    using at_Cons [OF Cons.prems] at_rd [of p "i + 1" "d # q"] by auto
  show ?case
  proof (cases "is_star d")
    case True
    then show ?thesis using Cons.IH [OF nxt(1)] nxt(2) by (subst star_run.simps) (simp add: add.commute)
  next
    case False
    then show ?thesis using nxt by (subst star_run.simps) auto
  qed
qed

lemma skip_stars_at:
  "at p i q \<Longrightarrow> skip_stars (p @ [0]) i (int (length q)) = Some (int (length (dropWhile is_star q)))"
proof (induction q arbitrary: i)
  case Nil
  then show ?case using at_rd [OF Nil] by (subst skip_stars.simps) simp
next
  case (Cons d q)
  show ?case using Cons.IH [OF at_Suc [OF Cons.prems]] at_rd [OF Cons.prems]
    by (subst skip_stars.simps) simp
qed

text \<open>Where a class ends: \<open>i'\<close> is the position of the closing bracket (or of the last byte of an
  unterminated class), \<open>r\<close> what follows.\<close>

definition class_end :: "u8 list \<Rightarrow> (nat \<times> int \<times> bool) option \<Rightarrow> bool \<Rightarrow> u8 list \<Rightarrow> bool" where
  "class_end p res match r \<longleftrightarrow>
     (\<exists>i'. res = Some (i', int (length r) + 1, match) \<and> at p (i' + 1) r)"

lemma class_loop_at:
  "parse_class q = Some z \<Longrightarrow> at p i q \<Longrightarrow> 1 \<le> i \<Longrightarrow> rd S si = Some x \<Longrightarrow>
   class_end p (class_loop (p @ [0]) i (int (length q)) S si nocase m)
     (m \<or> list_ex (item_match nocase x) (fst z)) (snd z)"
proof (induction q arbitrary: i m z rule: parse_class.induct)
  case 1
  then show ?case using at_rd [OF "1.prems"(2)]
    by (subst class_loop.simps) (auto simp: class_end_def)
next
  case (2 c)
  have nxt: "at p (i + 1) []" "rd (p @ [0]) (i + 1) = Some 0"
    using at_Cons [OF "2.prems"(2)] at_Nil by auto
  have last: "class_end p (class_loop (p @ [0]) (i + 1) 0 S si nocase m') m' []" for m'
    using nxt by (subst class_loop.simps) (auto simp: class_end_def)
  show ?case using "2.prems" at_rd [OF "2.prems"(2)] nxt last
    by (subst class_loop.simps) (auto simp: class_end_def item_match_def split: if_splits)
next
  case (3 c d)
  have nxt: "at p (i + 1) [d]" "rd (p @ [0]) (i + 1) = Some d" "at p (i + 2) []" "rd (p @ [0]) (i + 2) = Some 0"
    using at_Cons [OF "3.prems"(2)] at_Cons [of p "i + 1" d "[]"] at_Nil [of p "i + 2"] by auto
  have last: "class_end p (class_loop (p @ [0]) (i + 2) 0 S si nocase m') m' []" for m'
    using nxt(3,4) by (subst class_loop.simps) (auto simp: class_end_def)
  show ?case
  proof (cases "c = ch (CHR 0x5C) \<or> c = ch CHR '']''")
    case True
    then show ?thesis using "3.prems" at_rd [OF "3.prems"(2)] nxt last
      by (subst class_loop.simps) (auto simp: class_end_def item_match_def)
  next
    case False
    then obtain z' where z': "parse_class [d] = Some z'" "z = apfst ((#) (COne c)) z'"
      using "3.prems"(1) by auto
    have "class_end p (class_loop (p @ [0]) (i + 1) (int (length [d])) S si nocase (m \<or> byte_eq nocase c x))
       ((m \<or> byte_eq nocase c x) \<or> list_ex (item_match nocase x) (fst z')) (snd z')"
      by (rule "3.IH") (use False nxt(1) z'(1) "3.prems" in auto)
    then show ?thesis using False at_rd [OF "3.prems"(2)] nxt "3.prems"(4) z'(2)
      by (subst class_loop.simps) (simp add: item_match_def disj_assoc)
  qed
next
  case (4 c d e r)
  have nxt: "rd (p @ [0]) i = Some c" "at p (i + 1) (d # e # r)" "rd (p @ [0]) (i + 1) = Some d"
      "at p (i + 2) (e # r)" "rd (p @ [0]) (i + 2) = Some e" "at p (i + 3) r"
    using at_Cons [OF "4.prems"(2)] at_Cons [of p "i + 1" d "e # r"] at_Cons [of p "i + 2" e r]
    by (simp_all add: numeral_3_eq_3)
  consider (esc) "c = ch (CHR 0x5C)" | (close) "c = ch CHR '']''"
    | (range) "c \<noteq> ch (CHR 0x5C)" "c \<noteq> ch CHR '']''" "d = ch CHR ''-''"
    | (one) "c \<noteq> ch (CHR 0x5C)" "c \<noteq> ch CHR '']''" "d \<noteq> ch CHR ''-''" by blast
  then show ?case
  proof cases
    case esc
    then obtain z' where z': "parse_class (e # r) = Some z'" "z = apfst ((#) (CEsc d)) z'"
      using "4.prems"(1) by auto
    have "class_end p (class_loop (p @ [0]) (i + 2) (int (length (e # r))) S si nocase (m \<or> d = x))
       ((m \<or> d = x) \<or> list_ex (item_match nocase x) (fst z')) (snd z')"
      by (rule "4.IH"(1)) (use esc nxt z'(1) "4.prems" in auto)
    then show ?thesis using esc nxt "4.prems"(4) z'(2)
      by (subst class_loop.simps) (simp add: item_match_def disj_assoc)
  next
    case close
    then show ?thesis using nxt "4.prems"
      by (subst class_loop.simps) (auto simp: class_end_def)
  next
    case range
    then obtain z' where z': "parse_class r = Some z'" "z = apfst ((#) (CRange c e)) z'"
      using "4.prems"(1) by auto
    have "class_end p (class_loop (p @ [0]) (i + 3) (int (length r)) S si nocase (m \<or> in_range nocase c e x))
       ((m \<or> in_range nocase c e x) \<or> list_ex (item_match nocase x) (fst z')) (snd z')"
      by (rule "4.IH"(2)) (use range nxt z'(1) "4.prems" in auto)
    then show ?thesis using range nxt "4.prems"(4) z'(2)
      by (subst class_loop.simps) (simp add: item_match_def disj_assoc)
  next
    case one
    then obtain z' where z': "parse_class (d # e # r) = Some z'" "z = apfst ((#) (COne c)) z'"
      using "4.prems"(1) by auto
    have "class_end p (class_loop (p @ [0]) (i + 1) (int (length (d # e # r))) S si nocase (m \<or> byte_eq nocase c x))
       ((m \<or> byte_eq nocase c x) \<or> list_ex (item_match nocase x) (fst z')) (snd z')"
      by (rule "4.IH"(3)) (use one nxt z'(1) "4.prems" in auto)
    then show ?thesis using one nxt "4.prems"(4) z'(2)
      by (subst class_loop.simps) (simp add: item_match_def disj_assoc)
  qed
qed

text \<open>What one round does when the pattern starts with the token \<open>t\<close> and the string with \<open>x\<close>.\<close>

definition step_end ::
  "u8 list \<Rightarrow> (nat \<times> int \<times> nat \<times> int) option option \<Rightarrow> bool \<Rightarrow> u8 list \<Rightarrow> nat \<Rightarrow> int \<Rightarrow> bool" where
  "step_end p res matches r si slen \<longleftrightarrow>
     (if matches then \<exists>i'. res = Some (Some (i', int (length r) + 1, si, slen)) \<and> at p (i' + 1) r
      else res = Some None)"

lemma step_any:
  assumes "at p i (c # q)" "slen \<noteq> 0" "c = ch CHR ''?''"
  shows "step_end p (glob_step (p @ [0]) i (int (length (c # q))) S si slen nocase) True q (si + 1) (slen - 1)"
  using assms at_rd [OF assms(1)] at_Suc [OF assms(1)] by (simp add: glob_step_def step_end_def add.commute)

lemma step_class:
  assumes "at p i (c # q)" "rd S si = Some x" "c = ch CHR ''[''"
    and neg: "neg = (q \<noteq> [] \<and> hd q = ch CHR ''^'')" "parse_class (if neg then tl q else q) = Some z"
  shows "step_end p (glob_step (p @ [0]) i (int (length (c # q))) S si slen nocase)
           (neg \<noteq> list_ex (item_match nocase x) (fst z)) (snd z) (si + 1) (slen - 1)"
proof -
  have nxt: "rd (p @ [0]) i = Some c" "at p (i + 1) q" "rd (p @ [0]) (i + 1) = Some (hd (q @ [0]))"
    using at_Cons [OF assms(1)] at_rd [of p "i + 1" q] by simp_all
  have neg': "(hd (q @ [0]) = ch CHR ''^'') = neg" using neg(1) by (cases q) auto
  then have neg94: "(hd (q @ [0]) = 94) = neg" by simp
  have "class_end p (if neg then class_loop (p @ [0]) (i + 2) (int (length (c # q)) - 2) S si nocase False
                     else class_loop (p @ [0]) (i + 1) (int (length (c # q)) - 1) S si nocase False)
          (list_ex (item_match nocase x) (fst z)) (snd z)"
  proof (cases neg)
    case True
    then obtain d q' where q: "q = d # q'" using neg(1) by (cases q) auto
    then have "at p (i + 2) q'" using at_Suc [of p "i + 1" d q'] nxt(2) by simp
    from class_loop_at [OF _ this _ assms(2), of z nocase False] show ?thesis
      using True q neg(2) by simp
  next
    case False
    from class_loop_at [OF _ nxt(2) _ assms(2), of z nocase False] show ?thesis
      using False neg(2) by simp
  qed
  then show ?thesis
    using nxt assms(3) unfolding class_end_def
    by (auto simp: glob_step_def step_end_def neg94 Let_def)
qed

lemma step_lit:
  assumes "at p i (c # q)" "rd S si = Some x" "c \<noteq> ch CHR ''?''" "c \<noteq> ch CHR ''[''"
    and e: "(e, r) = (if c = ch (CHR 0x5C) \<and> q \<noteq> [] then (hd q, tl q) else (c, q))"
  shows "step_end p (glob_step (p @ [0]) i (int (length (c # q))) S si slen nocase)
           (byte_eq nocase e x) r (si + 1) (slen - 1)"
proof (cases "c = ch (CHR 0x5C) \<and> q \<noteq> []")
  case True
  then obtain d q' where q: "q = d # q'" by (cases q) auto
  have nxt: "rd (p @ [0]) i = Some c" "at p (i + 1) q" "rd (p @ [0]) (i + 1) = Some d" "at p (i + 2) q'"
    using at_Cons [OF assms(1)] at_Cons [of p "i + 1" d q'] q by simp_all
  then show ?thesis using True assms(2,3,4) e q by (simp add: glob_step_def step_end_def add.commute)
next
  case False
  then have "\<not> (c = ch (CHR 0x5C) \<and> (2 :: int) \<le> int (length (c # q)))" by (cases q) auto
  then show ?thesis using False assms at_rd [OF assms(1)] at_Suc [OF assms(1)]
    by (auto simp: glob_step_def step_end_def Let_def add.commute)
qed

lemma step_at:
  assumes "at p i (c # q)" "c \<noteq> ch CHR ''*''" "parse (c # q) = Some ts"
    and "rd S si = Some x" "slen \<noteq> 0"
  shows "\<exists>t ts' r. ts = t # ts' \<and> t \<noteq> TStar \<and> parse r = Some ts' \<and> length r < length (c # q)
     \<and> step_end p (glob_step (p @ [0]) i (int (length (c # q))) S si slen nocase)
           (tok_match nocase t x) r (si + 1) (slen - 1)"
proof -
  consider (any) "c = ch CHR ''?''" | (cls) "c = ch CHR ''[''"
    | (lit) "c \<noteq> ch CHR ''?''" "c \<noteq> ch CHR ''[''" by blast
  then show ?thesis
  proof cases
    case any
    then obtain ts' where "parse q = Some ts'" "ts = TAny # ts'" using assms(3) by auto
    then show ?thesis
      using step_any [OF assms(1,5) any, of S si nocase] by (intro exI [of _ TAny] exI [of _ ts'] exI [of _ q]) simp
  next
    case cls
    define neg where "neg = (q \<noteq> [] \<and> hd q = ch CHR ''^'')"
    obtain z ts' where z: "parse_class (if neg then tl q else q) = Some z" "parse (snd z) = Some ts'"
        "ts = TClass neg (fst z) # ts'"
      using assms(3) cls by (auto simp: neg_def Let_def split: option.splits prod.splits)
    have "length (snd z) \<le> length q" using parse_class_length [OF z(1)] by (auto split: if_splits)
    then show ?thesis
      using step_class [OF assms(1,4) cls neg_def z(1), of slen nocase] z by auto
  next
    case lit
    obtain e r where er: "(e, r) = (if c = ch (CHR 0x5C) \<and> q \<noteq> [] then (hd q, tl q) else (c, q))"
      by (metis surj_pair)
    then obtain ts' where "parse r = Some ts'" "ts = TLit e # ts'"
      using assms(2,3) lit by (auto split: if_splits)
    moreover have "length r < length (c # q)" using er by (auto split: if_splits)
    ultimately show ?thesis using step_lit [OF assms(1,4) lit er, of slen nocase] by auto
  qed
qed

section \<open>Stars\<close>

lemma glob_star_star: "glob nocase (TStar # TStar # ts) u = glob nocase (TStar # ts) u"
proof
  assume "glob nocase (TStar # TStar # ts) u"
  then obtain i j where "i \<le> length u" "j \<le> length (drop i u)" "glob nocase ts (drop j (drop i u))"
    by auto
  then show "glob nocase (TStar # ts) u"
    by (auto intro!: exI [of _ "i + j"] simp: add.commute)
next
  assume "glob nocase (TStar # ts) u"
  then have "glob nocase (TStar # ts) (drop 0 u)" by simp
  then show "glob nocase (TStar # TStar # ts) u" unfolding glob.simps(2) [of _ _ "TStar # ts"] by (metis le0)
qed

lemma parse_stars:
  "parse q = Some ts \<Longrightarrow>
   \<exists>ts'. parse (dropWhile is_star q) = Some ts' \<and> (\<forall>u. glob nocase (TStar # ts) u = glob nocase (TStar # ts') u)
     \<and> (glob nocase ts [] \<longleftrightarrow> dropWhile is_star q = [])"
proof (induction q arbitrary: ts)
  case Nil
  then show ?case by simp
next
  case (Cons c q)
  show ?case
  proof (cases "is_star c")
    case True
    then obtain ts1 where ts1: "parse q = Some ts1" "ts = TStar # ts1" using Cons.prems by auto
    from Cons.IH [OF ts1(1)] obtain ts' where "parse (dropWhile is_star q) = Some ts'"
      "\<forall>u. glob nocase (TStar # ts1) u = glob nocase (TStar # ts') u"
      "glob nocase ts1 [] \<longleftrightarrow> dropWhile is_star q = []" by blast
    moreover have "glob nocase ts [] = glob nocase ts1 []" using ts1(2) by simp
    moreover have "dropWhile is_star (c # q) = dropWhile is_star q" using True by simp
    ultimately show ?thesis unfolding ts1(2) glob_star_star by (metis (no_types))
  next
    case False
    have "ts \<noteq> [] \<and> hd ts \<noteq> TStar"
      using False Cons.prems by (auto simp: Let_def split: if_splits option.splits)
    then have "\<not> glob nocase ts []" by (cases ts) auto
    then show ?thesis using False Cons.prems by auto
  qed
qed

lemma glob_star_Cons:
  "glob nocase (TStar # ts) (x # u) \<longleftrightarrow> glob nocase ts (x # u) \<or> glob nocase (TStar # ts) u"
proof -
  have "(\<exists>i \<le> Suc n. P i) \<longleftrightarrow> P 0 \<or> (\<exists>i \<le> n. P (Suc i))" for n and P :: "nat \<Rightarrow> bool"
    by (metis Suc_le_mono not0_implies_Suc zero_le)
  from this [of "length u" "\<lambda>i. glob nocase ts (drop i (x # u))"] show ?thesis by simp
qed

lemma star_loop_at:
  assumes sm: "\<And>si u. at s si u \<Longrightarrow> u \<noteq> [] \<Longrightarrow>
      stringmatchlen P i plen (s @ [0]) si (int (length u)) nocase = Some (glob nocase ts u)"
    and ne: "\<not> glob nocase ts []"
  shows "at s si u \<Longrightarrow> star_loop P i plen (s @ [0]) si (int (length u)) nocase = Some (glob nocase (TStar # ts) u)"
proof (induction u arbitrary: si)
  case Nil
  then show ?case using ne by (subst star_loop.simps) simp
next
  case (Cons x u)
  have "glob nocase (TStar # ts) (x # u) \<longleftrightarrow> glob nocase ts (x # u) \<or> glob nocase (TStar # ts) u"
    using glob_star_Cons .
  then show ?case
    using sm [OF Cons.prems] Cons.IH [OF at_Suc [OF Cons.prems]] at_less [OF Cons.prems]
    by (subst star_loop.simps) (simp del: glob.simps split: bool.splits)
qed

lemma stringmatchlen_at:
  "at p i q \<Longrightarrow> parse q = Some ts \<Longrightarrow> at s si u \<Longrightarrow> u \<noteq> [] \<Longrightarrow>
   stringmatchlen (p @ [0]) i (int (length q)) (s @ [0]) si (int (length u)) nocase = Some (glob nocase ts u)"
proof (induction q arbitrary: i ts si u rule: length_induct)
  case (1 q)
  show ?case
  proof (cases q)
    case Nil
    then show ?thesis using "1.prems" by (subst stringmatchlen.simps) simp
  next
    case (Cons c r)
    note q = "1.prems"(1) [unfolded Cons]
    obtain x u' where u: "u = x # u'" using "1.prems"(4) by (cases u) auto
    have rdx: "rd (s @ [0]) si = Some x" using at_Cons "1.prems"(3) u by simp
    have unf: "stringmatchlen (p @ [0]) i (int (length q)) (s @ [0]) si (int (length u)) nocase =
        (if is_star c then
            (case star_run (p @ [0]) i (int (length r) + 1) of None \<Rightarrow> None
             | Some (pi', plen') \<Rightarrow>
                 if plen' = 1 then Some True
                 else star_loop (p @ [0]) (pi' + 1) (plen' - 1) (s @ [0]) si (int (length u)) nocase)
          else
            (case glob_step (p @ [0]) i (int (length (c # r))) (s @ [0]) si (int (length u)) nocase of
               None \<Rightarrow> None
             | Some None \<Rightarrow> Some False
             | Some (Some (pi', plen', si', slen')) \<Rightarrow>
                 if slen' = 0 then
                   (case skip_stars (p @ [0]) (pi' + 1) (plen' - 1) of None \<Rightarrow> None
                    | Some n \<Rightarrow> Some (n = 0 \<and> slen' = 0))
                 else stringmatchlen (p @ [0]) (pi' + 1) (plen' - 1) (s @ [0]) si' slen' nocase))"
      by (subst stringmatchlen.simps) (simp add: Cons at_rd [OF q] add.commute)
    show ?thesis
    proof (cases "is_star c")
      case True
      let ?r = "dropWhile is_star r"
      obtain ts1 where ts1: "parse r = Some ts1" "ts = TStar # ts1"
        using "1.prems"(2) True Cons by auto
      obtain ts' where ts': "parse ?r = Some ts'" "\<And>u. glob nocase (TStar # ts1) u = glob nocase (TStar # ts') u"
        using parse_stars [OF ts1(1), of nocase] by blast
      obtain i' where i': "star_run (p @ [0]) i (int (length r) + 1) = Some (i', int (length ?r) + 1)"
          "at p (i' + 1) ?r" using star_run_at [OF q] by blast
      show ?thesis
      proof (cases "?r = []")
        case r: True
        have "ts' = []" using ts'(1) unfolding r by simp
        then have "glob nocase (TStar # ts') u" by auto
        then show ?thesis unfolding unf ts1(2) ts'(2) using True i'(1) r by (simp del: glob.simps dropWhile_eq_Nil_conv)
      next
        case r: False
        then have "\<not> glob nocase ts' []"
          using parse_stars [OF ts'(1), of nocase] hd_dropWhile [of is_star r]
          by (cases ?r) auto
        moreover have "length ?r < length q" using Cons length_dropWhile_le [of is_star r] by simp
        ultimately have "star_loop (p @ [0]) (i' + 1) (int (length ?r)) (s @ [0]) si (int (length u)) nocase
            = Some (glob nocase (TStar # ts') u)"
          using "1.IH" i'(2) ts'(1) by (intro star_loop_at "1.prems"(3)) blast+
        then show ?thesis unfolding unf ts1(2) ts'(2)
          using True i'(1) r by (simp del: glob.simps dropWhile_eq_Nil_conv)
      qed
    next
      case False
      obtain t ts' r' where t: "ts = t # ts'" "t \<noteq> TStar" "parse r' = Some ts'" "length r' < length (c # r)"
        and step: "step_end p (glob_step (p @ [0]) i (int (length (c # r))) (s @ [0]) si (int (length u)) nocase)
           (tok_match nocase t x) r' (si + 1) (int (length u) - 1)"
        using step_at [OF q False, of ts "s @ [0]" si x "int (length u)" nocase] rdx "1.prems"(2) Cons u by auto
      show ?thesis
      proof (cases "tok_match nocase t x")
        case nomatch: False
        then show ?thesis unfolding unf using False step t u by (simp add: step_end_def)
      next
        case match: True
        then obtain i' where i': "glob_step (p @ [0]) i (int (length (c # r))) (s @ [0]) si (int (length u)) nocase
            = Some (Some (i', int (length r') + 1, si + 1, int (length u')))" "at p (i' + 1) r'"
          using step u by (auto simp: step_end_def)
        have su: "at s (si + 1) u'" using at_Cons "1.prems"(3) u by simp
        show ?thesis
        proof (cases "u' = []")
          case True
          have "glob nocase ts' [] \<longleftrightarrow> dropWhile is_star r' = []"
            using parse_stars [OF t(3), of nocase] by blast
          then show ?thesis unfolding unf
            using False i' t match u True skip_stars_at [OF i'(2)] by (simp del: dropWhile_eq_Nil_conv)
        next
          case more: False
          have "stringmatchlen (p @ [0]) (i' + 1) (int (length r')) (s @ [0]) (si + 1) (int (length u')) nocase
              = Some (glob nocase ts' u')"
            using "1.IH" t(3,4) i'(2) su more Cons by blast
          then show ?thesis unfolding unf using False i' t match u more by simp
        qed
      qed
    qed
  qed
qed

section \<open>Properties\<close>

lemma sdsmatch_at:
  assumes "parse p = Some ts" "s \<noteq> []"
  shows "sdsmatch p s nocase = Some (glob nocase ts s)"
  unfolding sdsmatch_def using stringmatchlen_at [OF at_start assms(1) at_start assms(2)] by simp

text \<open>C23: On every pattern in which no character class ends in a backslash or in an incomplete
  range, and every non-empty string, \<^verbatim>\<open>stringmatchlen\<close> reads only inside the two buffers, terminates, and
  returns exactly whether the string is in the language of the pattern.\<close>

theorem stringmatchlen_correct:
  assumes "parse p = Some ts" "s \<noteq> []"
  shows "sdsmatch p s nocase = Some (glob nocase ts s)"
  using assms by (rule sdsmatch_at)

text \<open>The pattern \<open>h[^x-z]*o\<close> on the string \<open>hello\<close>.\<close>

theorem stringmatchlen_correct_witness:
  "sdsmatch (bytes ''h[^x-z]*o'') (bytes ''hello'') False = Some True"
proof -
  have "parse (bytes ''h[^x-z]*o'') =
      Some [TLit 104, TClass True [CRange 120 122], TStar, TLit 111]"
    by code_simp
  from stringmatchlen_correct [OF this, of "bytes ''hello''" False] show ?thesis
    by (simp add: bytes_def item_match_def in_range_def byte_eq_def) (rule exI [of _ 2], simp)
qed

text \<open>A class is applied to the empty string as if its terminator were a character: the
  pattern \<open>[^a]*\<close>, which requires at least one character, matches the empty string.\<close>

theorem empty_string_matches_class:
  "sdsmatch (bytes ''[^a]*'') [] False = Some True
   \<and> map_option (\<lambda>ts. glob False ts []) (parse (bytes ''[^a]*'')) = Some False"
  by code_simp

text \<open>In a class that ends in a backslash the code steps over the terminator of the pattern and
  reads the byte behind it.\<close>

theorem class_backslash_reads_past_end:
  "sdsmatch [ch CHR ''['', ch (CHR 0x5C)] s nocase = None"
proof -
  have "rd (s @ [0]) 0 = Some (hd (s @ [0]))" by (simp add: rd_def hd_conv_nth)
  moreover have "class_loop [91, 92, 0] 3 (- 1) (s @ [0]) 0 nocase m = None" for m
    by (subst class_loop.simps) (simp add: rd_def)
  ultimately have "class_loop [91, 92, 0] 1 1 (s @ [0]) 0 nocase False = None"
    by (subst class_loop.simps) (simp add: rd_def numeral_3_eq_3)
  then show ?thesis
    by (subst sdsmatch_def, subst stringmatchlen.simps) (simp add: rd_def glob_step_def Let_def)
qed

end
