(* ===== verification/Sds.thy ===== *)
theory Sds
  imports Interfaces Util
begin

text \<open>
  The dynamic strings of \<^verbatim>\<open>sds.c\<close>. A string is its header: the two unsigned 32 bit fields
  \<^verbatim>\<open>len\<close> and \<^verbatim>\<open>free\<close>, whose updates wrap, and the bytes of the allocation behind
  them. Every access to the bytes is checked (\<open>None\<close> is an access out of bounds). The allocator
  aborts the server when memory runs out, so a call of it never fails; the bytes it hands
  out are the parameter \<open>junk\<close>. A pointer with a length is the list of the bytes it points to, a C string a
  buffer with a zero byte.

  \<open>sds_ok\<close> is the invariant and \<open>sds_val\<close> the contents. The lemmas show that every operation
  keeps the invariant and what it does to the contents; the strings interpret \<open>buf_impl\<close>, from
  which the results on the functions that build strings piece by piece follow.
\<close>

section \<open>The header and the allocation\<close>

record sdshdr =
  sds_len :: nat
  sds_free :: nat
  sds_buf :: mem

definition SDS_MAX_PREALLOC :: nat where
  "SDS_MAX_PREALLOC = 1024 * 1024"

definition sdslen :: "sdshdr \<Rightarrow> nat" where
  "sdslen s = sds_len s"

definition sdsavail :: "sdshdr \<Rightarrow> nat" where
  "sdsavail s = sds_free s"

definition sdsnewlen :: "(nat \<Rightarrow> u8) \<Rightarrow> u8 list option \<Rightarrow> nat \<Rightarrow> sdshdr option" where
  "sdsnewlen junk init initlen =
     (let m = (case init of Some t \<Rightarrow> map junk [0..<initlen + 1] | None \<Rightarrow> replicate (initlen + 1) 0)
      in do {
        m1 \<leftarrow> (case init of
                 Some t \<Rightarrow> if initlen \<noteq> 0 then do { bs \<leftarrow> mem_read 0 initlen t; mem_write 0 bs m } else Some m
               | None \<Rightarrow> Some m);
        m2 \<leftarrow> mem_write initlen [0] m1;
        Some \<lparr>sds_len = wrap32 initlen, sds_free = 0, sds_buf = m2\<rparr> })"

definition sdsempty :: "(nat \<Rightarrow> u8) \<Rightarrow> sdshdr option" where
  "sdsempty junk = sdsnewlen junk (Some [0]) 0"

definition sdsnew :: "(nat \<Rightarrow> u8) \<Rightarrow> u8 list option \<Rightarrow> sdshdr option" where
  "sdsnew junk init =
     do { initlen \<leftarrow> (case init of None \<Rightarrow> Some 0 | Some t \<Rightarrow> strlen t);
          sdsnewlen junk init initlen }"

definition sdsdup :: "(nat \<Rightarrow> u8) \<Rightarrow> sdshdr \<Rightarrow> sdshdr option" where
  "sdsdup junk s = sdsnewlen junk (Some (sds_buf s)) (sdslen s)"

definition sdsupdatelen :: "sdshdr \<Rightarrow> sdshdr option" where
  "sdsupdatelen s =
     do { reallen \<leftarrow> strlen (sds_buf s);
          Some (s\<lparr>sds_free := wrap32 (sds_free s + sub32 (sds_len s) reallen), sds_len := wrap32 reallen\<rparr>) }"

definition sdsclear :: "sdshdr \<Rightarrow> sdshdr option" where
  "sdsclear s =
     do { b \<leftarrow> mem_write 0 [0] (sds_buf s);
          Some (s\<lparr>sds_free := wrap32 (sds_free s + sds_len s), sds_len := 0, sds_buf := b\<rparr>) }"

definition sdsMakeRoomFor :: "(nat \<Rightarrow> u8) \<Rightarrow> sdshdr \<Rightarrow> nat \<Rightarrow> sdshdr" where
  "sdsMakeRoomFor junk s addlen =
     (if sdsavail s \<ge> addlen then s
      else
        let len = sdslen s; newlen = len + addlen;
            newlen = (if newlen < SDS_MAX_PREALLOC then newlen * 2 else newlen + SDS_MAX_PREALLOC)
        in s\<lparr>sds_buf := mem_realloc junk (newlen + 1) (sds_buf s), sds_free := wrap32 (newlen - len)\<rparr>)"

definition sdsRemoveFreeSpace :: "(nat \<Rightarrow> u8) \<Rightarrow> sdshdr \<Rightarrow> sdshdr" where
  "sdsRemoveFreeSpace junk s =
     s\<lparr>sds_buf := mem_realloc junk (sds_len s + 1) (sds_buf s), sds_free := 0\<rparr>"

definition sdsAllocSize :: "sdshdr \<Rightarrow> nat" where
  "sdsAllocSize s = 8 + sds_len s + sds_free s + 1"

text \<open>A failed assertion is \<open>None\<close>.\<close>

definition sdsIncrLen :: "sdshdr \<Rightarrow> int \<Rightarrow> sdshdr option" where
  "sdsIncrLen s incr =
     (if (if incr \<ge> 0 then int (sds_free s) \<ge> incr else int (sds_len s) \<ge> - incr) then
        let len = nat ((int (sds_len s) + incr) mod 2 ^ 32); free = nat ((int (sds_free s) - incr) mod 2 ^ 32)
        in do { b \<leftarrow> mem_write len [0] (sds_buf s);
                Some (s\<lparr>sds_len := len, sds_free := free, sds_buf := b\<rparr>) }
      else None)"

definition sdsgrowzero :: "(nat \<Rightarrow> u8) \<Rightarrow> sdshdr \<Rightarrow> nat \<Rightarrow> sdshdr option" where
  "sdsgrowzero junk s len =
     (let curlen = sds_len s
      in if len \<le> curlen then Some s
         else
           let s1 = sdsMakeRoomFor junk s (len - curlen)
           in do {
             b \<leftarrow> mem_write curlen (replicate (len - curlen + 1) 0) (sds_buf s1);
             let totlen = wrap32 (sds_len s1 + sds_free s1)
             in Some (s1\<lparr>sds_buf := b, sds_len := wrap32 len, sds_free := sub32 totlen (wrap32 len)\<rparr>) })"

definition sdscatlen :: "(nat \<Rightarrow> u8) \<Rightarrow> sdshdr \<Rightarrow> u8 list \<Rightarrow> sdshdr option" where
  "sdscatlen junk s t =
     (let len = length t; curlen = sdslen s; s1 = sdsMakeRoomFor junk s len
      in do {
        b1 \<leftarrow> mem_write curlen t (sds_buf s1);
        b2 \<leftarrow> mem_write (curlen + len) [0] b1;
        Some (s1\<lparr>sds_len := wrap32 (curlen + len), sds_free := sub32 (sds_free s1) len, sds_buf := b2\<rparr>) })"

definition sdscat :: "(nat \<Rightarrow> u8) \<Rightarrow> sdshdr \<Rightarrow> u8 list \<Rightarrow> sdshdr option" where
  "sdscat junk s t = do { n \<leftarrow> strlen t; sdscatlen junk s (take n t) }"

definition sdscatsds :: "(nat \<Rightarrow> u8) \<Rightarrow> sdshdr \<Rightarrow> sdshdr \<Rightarrow> sdshdr option" where
  "sdscatsds junk s t = do { bs \<leftarrow> mem_read 0 (sdslen t) (sds_buf t); sdscatlen junk s bs }"

definition sdscpylen :: "(nat \<Rightarrow> u8) \<Rightarrow> sdshdr \<Rightarrow> u8 list \<Rightarrow> sdshdr option" where
  "sdscpylen junk s t =
     (let len = length t; totlen = wrap32 (sds_free s + sds_len s);
          s1 = (if totlen < len then sdsMakeRoomFor junk s (len - sds_len s) else s);
          totlen1 = (if totlen < len then wrap32 (sds_free s1 + sds_len s1) else totlen)
      in do {
        b1 \<leftarrow> mem_write 0 t (sds_buf s1);
        b2 \<leftarrow> mem_write len [0] b1;
        Some (s1\<lparr>sds_buf := b2, sds_len := wrap32 len, sds_free := sub32 totlen1 len\<rparr>) })"

definition sdscpy :: "(nat \<Rightarrow> u8) \<Rightarrow> sdshdr \<Rightarrow> u8 list \<Rightarrow> sdshdr option" where
  "sdscpy junk s t = do { n \<leftarrow> strlen t; sdscpylen junk s (take n t) }"

section \<open>Trimming, ranges and comparison\<close>

text \<open>\<^verbatim>\<open>strchr (cset, c)\<close> also finds the terminator of \<open>cset\<close>.\<close>

definition strchr :: "u8 list \<Rightarrow> u8 \<Rightarrow> bool" where
  "strchr cset c \<longleftrightarrow> c = 0 \<or> c \<in> set (takeWhile (\<lambda>x. x \<noteq> 0) cset)"

function sdstrim_left :: "mem \<Rightarrow> u8 list \<Rightarrow> int \<Rightarrow> nat \<Rightarrow> nat option" where
  "sdstrim_left buf cset e sp =
     (if int sp \<le> e then
        do { c \<leftarrow> rd buf sp; if strchr cset c then sdstrim_left buf cset e (sp + 1) else Some sp }
      else Some sp)"
  by pat_completeness auto
termination by (relation "measure (\<lambda>(_, _, e, sp). nat (e + 1 - int sp))") auto

fun sdstrim_right :: "mem \<Rightarrow> u8 list \<Rightarrow> nat \<Rightarrow> nat option" where
  "sdstrim_right buf cset ep =
     (if ep > 0 then
        do { c \<leftarrow> rd buf ep; if strchr cset c then sdstrim_right buf cset (ep - 1) else Some ep }
      else Some ep)"

declare sdstrim_left.simps [simp del] sdstrim_right.simps [simp del]

text \<open>For the empty string \<^verbatim>\<open>ep\<close> points before the buffer and neither loop runs.\<close>

definition sdstrim :: "sdshdr \<Rightarrow> u8 list \<Rightarrow> sdshdr option" where
  "sdstrim s cset =
     (let e = int (sdslen s) - 1
      in do {
        sp \<leftarrow> sdstrim_left (sds_buf s) cset e 0;
        ep \<leftarrow> (if e > 0 then map_option int (sdstrim_right (sds_buf s) cset (nat e)) else Some e);
        let len = (if int sp > ep then 0 else nat (ep - int sp + 1)) in do {
        b1 \<leftarrow> (if sp \<noteq> 0 then mem_move 0 sp len (sds_buf s) else Some (sds_buf s));
        b2 \<leftarrow> mem_write len [0] b1;
        Some (s\<lparr>sds_buf := b2, sds_free := wrap32 (sds_free s + sub32 (sds_len s) len), sds_len := wrap32 len\<rparr>) } })"

definition sdsrange :: "sdshdr \<Rightarrow> int \<Rightarrow> int \<Rightarrow> sdshdr option" where
  "sdsrange s start0 end0 =
     (let len = int (sdslen s)
      in if len = 0 then Some s
         else
           let start = (if start0 < 0 then (if len + start0 < 0 then 0 else len + start0) else start0);
               e = (if end0 < 0 then (if len + end0 < 0 then 0 else len + end0) else end0);
               newlen = (if start > e then 0 else e - start + 1);
               (newlen, start) =
                 (if newlen \<noteq> 0 then
                    (if start \<ge> len then (0, start)
                     else if e \<ge> len then (if start > len - 1 then 0 else len - 1 - start + 1, start)
                     else (newlen, start))
                  else (newlen, 0))
           in do {
             b1 \<leftarrow> (if start \<noteq> 0 \<and> newlen \<noteq> 0 then mem_move 0 (nat start) (nat newlen) (sds_buf s)
                    else Some (sds_buf s));
             b2 \<leftarrow> mem_write (nat newlen) [0] b1;
             Some (s\<lparr>sds_buf := b2, sds_free := wrap32 (sds_free s + sub32 (sds_len s) (nat newlen)),
                     sds_len := wrap32 (nat newlen)\<rparr>) })"

definition toupper_byte :: "u8 \<Rightarrow> u8" where
  "toupper_byte c = (if 97 \<le> unat c \<and> unat c \<le> 122 then c - 32 else c)"

fun map_bytes :: "(u8 \<Rightarrow> u8) \<Rightarrow> nat \<Rightarrow> nat \<Rightarrow> mem \<Rightarrow> mem option" where
  "map_bytes f j 0 m = Some m"
| "map_bytes f j (Suc n) m = do { c \<leftarrow> rd m j; m1 \<leftarrow> put_byte j (f c) m; map_bytes f (j + 1) n m1 }"

definition sdstolower :: "sdshdr \<Rightarrow> sdshdr option" where
  "sdstolower s = do { b \<leftarrow> map_bytes tolower_byte 0 (sdslen s) (sds_buf s); Some (s\<lparr>sds_buf := b\<rparr>) }"

definition sdstoupper :: "sdshdr \<Rightarrow> sdshdr option" where
  "sdstoupper s = do { b \<leftarrow> map_bytes toupper_byte 0 (sdslen s) (sds_buf s); Some (s\<lparr>sds_buf := b\<rparr>) }"

text \<open>The byte that \<^verbatim>\<open>sdsmapchars\<close> writes for \<open>c\<close>: the first match in \<open>from\<close> decides.\<close>

fun mapchars_byte :: "u8 list \<Rightarrow> u8 list \<Rightarrow> u8 \<Rightarrow> u8" where
  "mapchars_byte (f # from) (t # to) c = (if c = f then t else mapchars_byte from to c)"
| "mapchars_byte _ _ c = c"

definition sdsmapchars :: "sdshdr \<Rightarrow> u8 list \<Rightarrow> u8 list \<Rightarrow> sdshdr option" where
  "sdsmapchars s from to =
     do { b \<leftarrow> map_bytes (mapchars_byte from to) 0 (sdslen s) (sds_buf s); Some (s\<lparr>sds_buf := b\<rparr>) }"

text \<open>\<^verbatim>\<open>memcmp\<close> on blocks of one length, as the difference of the first bytes that differ.\<close>

fun memcmp :: "u8 list \<Rightarrow> u8 list \<Rightarrow> int" where
  "memcmp (a # as) (b # bs) = (if a = b then memcmp as bs else int (unat a) - int (unat b))"
| "memcmp _ _ = 0"

definition sdscmp :: "sdshdr \<Rightarrow> sdshdr \<Rightarrow> int option" where
  "sdscmp s1 s2 =
     (let l1 = sdslen s1; l2 = sdslen s2; minlen = (if l1 < l2 then l1 else l2)
      in do {
        b1 \<leftarrow> mem_read 0 minlen (sds_buf s1);
        b2 \<leftarrow> mem_read 0 minlen (sds_buf s2);
        let cmp = memcmp b1 b2 in
        Some (if cmp = 0 then sign_extend 4 (int l1 - int l2) else cmp) })"

section \<open>Formatting\<close>

text \<open>The digits of a number, least significant first, from position \<open>p\<close> on.\<close>

fun ll2str_gen :: "nat \<Rightarrow> nat \<Rightarrow> mem \<Rightarrow> (nat \<times> mem) option" where
  "ll2str_gen p v m =
     do { m1 \<leftarrow> put_byte p (48 + of_nat (v mod 10)) m;
          if v div 10 \<noteq> 0 then ll2str_gen (p + 1) (v div 10) m1 else Some (p + 1, m1) }"

text \<open>The reversal in place of the bytes from \<open>s\<close> to \<open>p\<close>.\<close>

function str_reverse :: "nat \<Rightarrow> nat \<Rightarrow> mem \<Rightarrow> mem option" where
  "str_reverse s p m =
     (if s < p then
        do { aux \<leftarrow> rd m s; c \<leftarrow> rd m p;
             m1 \<leftarrow> put_byte s c m; m2 \<leftarrow> put_byte p aux m1;
             str_reverse (s + 1) (p - 1) m2 }
      else Some m)"
  by pat_completeness auto
termination by (relation "measure (\<lambda>(s, p, _). p - s)") auto

declare ll2str_gen.simps [simp del] str_reverse.simps [simp del]

text \<open>The negation of the smallest \<^verbatim>\<open>long long\<close> overflows, which C leaves undefined: \<open>None\<close>.\<close>

definition sdsll2str :: "mem \<Rightarrow> int \<Rightarrow> (mem \<times> nat) option" where
  "sdsll2str s value =
     (if value = - (2 ^ 63) then None
      else do {
        (p, m) \<leftarrow> ll2str_gen 0 (nat (if value < 0 then - value else value)) s;
        (p1, m1) \<leftarrow> (if value < 0 then do { m1 \<leftarrow> put_byte p (ch CHR ''-'') m; Some (p + 1, m1) } else Some (p, m));
        m2 \<leftarrow> put_byte p1 0 m1;
        m3 \<leftarrow> str_reverse 0 (p1 - 1) m2;
        Some (m3, p1) })"

definition sdsull2str :: "mem \<Rightarrow> nat \<Rightarrow> (mem \<times> nat) option" where
  "sdsull2str s v =
     do {
        (p, m) \<leftarrow> ll2str_gen 0 v s;
        m2 \<leftarrow> put_byte p 0 m;
        m3 \<leftarrow> str_reverse 0 (p - 1) m2;
        Some (m3, p) }"

definition SDS_LLSTR_SIZE :: nat where
  "SDS_LLSTR_SIZE = 21"

definition sdsfromlonglong :: "(nat \<Rightarrow> u8) \<Rightarrow> int \<Rightarrow> sdshdr option" where
  "sdsfromlonglong junk value =
     do { (buf, len) \<leftarrow> sdsll2str (map junk [0..<SDS_LLSTR_SIZE]) value;
          sdsnewlen junk (Some buf) len }"

text \<open>
  The retry loop of \<^verbatim>\<open>sdscatvprintf\<close>: \<open>out\<close> is what \<^verbatim>\<open>vsnprintf\<close> would print in full; it stores
  at most \<open>buflen - 1\<close> bytes of it and a terminator.
\<close>

definition vsnprintf :: "mem \<Rightarrow> nat \<Rightarrow> u8 list \<Rightarrow> mem option" where
  "vsnprintf buf buflen out = mem_write 0 (take (buflen - 1) out @ [0]) buf"

partial_function (option) sdscatvprintf_loop :: "(nat \<Rightarrow> u8) \<Rightarrow> nat \<Rightarrow> u8 list \<Rightarrow> mem option" where
  "sdscatvprintf_loop junk buflen out =
     do { b1 \<leftarrow> put_byte (buflen - 2) 0 (map junk [0..<buflen]);
          buf \<leftarrow> vsnprintf b1 buflen out;
          c \<leftarrow> rd buf (buflen - 2);
          if c \<noteq> 0 then sdscatvprintf_loop junk (buflen * 2) out else Some buf }"

definition sdscatvprintf :: "(nat \<Rightarrow> u8) \<Rightarrow> sdshdr \<Rightarrow> nat \<Rightarrow> u8 list \<Rightarrow> sdshdr option" where
  "sdscatvprintf junk s fmtlen out =
     (let buflen = fmtlen * 2; buflen = (if buflen > 1024 then buflen else 1024)
      in do { buf \<leftarrow> sdscatvprintf_loop junk buflen out; sdscat junk s buf })"

definition sdscatprintf :: "(nat \<Rightarrow> u8) \<Rightarrow> sdshdr \<Rightarrow> nat \<Rightarrow> u8 list \<Rightarrow> sdshdr option" where
  "sdscatprintf junk s fmtlen out = sdscatvprintf junk s fmtlen out"

text \<open>
  \<^verbatim>\<open>sdscatfmt\<close>: the format is a suffix of the C string, terminator included, the variadic
  arguments a list. \<open>catfmt_put\<close> is the block that the conversions share.
\<close>

datatype fmtarg = FStr mem | FSds sdshdr | FInt int | FUInt nat

definition catfmt_put :: "(nat \<Rightarrow> u8) \<Rightarrow> u8 list \<Rightarrow> sdshdr \<times> nat \<Rightarrow> (sdshdr \<times> nat) option" where
  "catfmt_put junk bs = (\<lambda>(s, i).
     let l = length bs; s1 = (if sds_free s < l then sdsMakeRoomFor junk s l else s)
     in do { b \<leftarrow> mem_write i bs (sds_buf s1);
             Some (s1\<lparr>sds_buf := b, sds_len := wrap32 (sds_len s1 + l), sds_free := sub32 (sds_free s1) l\<rparr>, i + l) })"

definition catfmt_char :: "u8 \<Rightarrow> sdshdr \<times> nat \<Rightarrow> (sdshdr \<times> nat) option" where
  "catfmt_char c = (\<lambda>(s, i).
     do { b \<leftarrow> put_byte i c (sds_buf s);
          Some (s\<lparr>sds_buf := b, sds_len := wrap32 (sds_len s + 1), sds_free := sub32 (sds_free s) 1\<rparr>, i + 1) })"

text \<open>The bytes of one conversion; \<open>None\<close> for an argument of the wrong type.\<close>

definition catfmt_conv :: "(nat \<Rightarrow> u8) \<Rightarrow> u8 \<Rightarrow> fmtarg \<Rightarrow> u8 list option" where
  "catfmt_conv junk next arg =
     (case arg of
        FStr t \<Rightarrow> if next = ch CHR ''s'' then do { l \<leftarrow> strlen t; mem_read 0 l t } else None
      | FSds t \<Rightarrow> if next = ch CHR ''S'' then mem_read 0 (sdslen t) (sds_buf t) else None
      | FInt v \<Rightarrow> if next = ch CHR ''i'' \<or> next = ch CHR ''I''
                  then do { (buf, l) \<leftarrow> sdsll2str (map junk [0..<SDS_LLSTR_SIZE]) v; mem_read 0 l buf } else None
      | FUInt v \<Rightarrow> if next = ch CHR ''u'' \<or> next = ch CHR ''U''
                  then do { (buf, l) \<leftarrow> sdsull2str (map junk [0..<SDS_LLSTR_SIZE]) v; mem_read 0 l buf } else None)"

definition is_conv :: "u8 \<Rightarrow> bool" where
  "is_conv c \<longleftrightarrow> c \<in> {ch CHR ''s'', ch CHR ''S'', ch CHR ''i'', ch CHR ''I'', ch CHR ''u'', ch CHR ''U''}"

fun sdscatfmt_loop :: "(nat \<Rightarrow> u8) \<Rightarrow> u8 list \<Rightarrow> fmtarg list \<Rightarrow> sdshdr \<times> nat \<Rightarrow> (sdshdr \<times> nat) option" where
  "sdscatfmt_loop junk [] args st = None"
| "sdscatfmt_loop junk [c] args st =
     (if c = 0 then Some st else None)"
| "sdscatfmt_loop junk (c # next # f) args st =
     (if c = 0 then Some st
      else
        let s = fst st; s0 = (if sds_free s = 0 then sdsMakeRoomFor junk s 1 else s); st0 = (s0, snd st)
        in if c = ch CHR ''%'' then
             if is_conv next then
               (case args of
                  [] \<Rightarrow> None
                | arg # args' \<Rightarrow>
                    do { bs \<leftarrow> catfmt_conv junk next arg;
                         st1 \<leftarrow> catfmt_put junk bs st0;
                         sdscatfmt_loop junk f args' st1 })
             else do { st1 \<leftarrow> catfmt_char next st0; sdscatfmt_loop junk f args st1 }
           else do { st1 \<leftarrow> catfmt_char c st0; sdscatfmt_loop junk (next # f) args st1 })"

definition sdscatfmt :: "(nat \<Rightarrow> u8) \<Rightarrow> sdshdr \<Rightarrow> u8 list \<Rightarrow> fmtarg list \<Rightarrow> sdshdr option" where
  "sdscatfmt junk s fmt args =
     do { (s1, i) \<leftarrow> sdscatfmt_loop junk fmt args (s, sdslen s);
          b \<leftarrow> put_byte i 0 (sds_buf s1);
          Some (s1\<lparr>sds_buf := b\<rparr>) }"

section \<open>Splitting, joining and quoting\<close>

text \<open>
  The scan of \<^verbatim>\<open>sdssplitlen\<close>. The token array has \<open>slots\<close> entries; a store behind them is
  \<open>None\<close>.
\<close>

definition put_token :: "nat \<Rightarrow> sdshdr \<Rightarrow> sdshdr list \<Rightarrow> sdshdr list option" where
  "put_token slots t tokens = (if length tokens < slots then Some (tokens @ [t]) else None)"

function sdssplit_loop ::
  "(nat \<Rightarrow> u8) \<Rightarrow> u8 list \<Rightarrow> u8 list \<Rightarrow> nat \<Rightarrow> nat \<Rightarrow> nat \<Rightarrow> sdshdr list \<Rightarrow> (nat \<times> nat \<times> sdshdr list) option" where
  "sdssplit_loop junk s sep j start slots tokens =
     (if sep \<noteq> [] \<and> int j < int (length s) - (int (length sep) - 1) then
        let slots = (if slots < length tokens + 2 then slots * 2 else slots)
        in do {
          c \<leftarrow> rd s j; d \<leftarrow> rd sep 0; blk \<leftarrow> mem_read j (length sep) s;
          if (length sep = 1 \<and> c = d) \<or> memcmp blk sep = 0 then
            do { tok \<leftarrow> sdsnewlen junk (Some (drop start s)) (j - start);
                 tokens' \<leftarrow> put_token slots tok tokens;
                 sdssplit_loop junk s sep (j + length sep) (j + length sep) slots tokens' }
          else sdssplit_loop junk s sep (j + 1) start slots tokens }
      else Some (start, slots, tokens))"
  by pat_completeness auto
termination by (relation "measure (\<lambda>(_, s, _, j, _). length s - j)") (auto simp: rd_def neq_Nil_conv split: if_splits)

declare sdssplit_loop.simps [simp del]

text \<open>\<open>Some None\<close> is a NULL result. The lengths of the string and of the separator are those of the lists, at most what
  an \<^verbatim>\<open>int\<close> can hold in a call; the result for a negative length does not arise.\<close>

definition sdssplitlen :: "(nat \<Rightarrow> u8) \<Rightarrow> u8 list \<Rightarrow> u8 list \<Rightarrow> sdshdr list option option" where
  "sdssplitlen junk s sep =
     (if sep = [] then Some None
      else if s = [] then Some (Some [])
      else do {
        (start, slots, tokens) \<leftarrow> sdssplit_loop junk s sep 0 0 5 [];
        tok \<leftarrow> sdsnewlen junk (Some (drop start s)) (length s - start);
        tokens' \<leftarrow> put_token slots tok tokens;
        Some (Some tokens') })"

fun sdsjoin_loop :: "(nat \<Rightarrow> u8) \<Rightarrow> sdshdr \<Rightarrow> mem list \<Rightarrow> mem \<Rightarrow> sdshdr option" where
  "sdsjoin_loop junk join [] sep = Some join"
| "sdsjoin_loop junk join (a # argv) sep =
     do { j1 \<leftarrow> sdscat junk join a;
          j2 \<leftarrow> (if argv \<noteq> [] then sdscat junk j1 sep else Some j1);
          sdsjoin_loop junk j2 argv sep }"

definition sdsjoin :: "(nat \<Rightarrow> u8) \<Rightarrow> mem list \<Rightarrow> mem \<Rightarrow> sdshdr option" where
  "sdsjoin junk argv sep = do { join \<leftarrow> sdsempty junk; sdsjoin_loop junk join argv sep }"

text \<open>\<^verbatim>\<open>isprint\<close> and \<^verbatim>\<open>isspace\<close> in the C locale.\<close>

definition isprint :: "u8 \<Rightarrow> bool" where
  "isprint c \<longleftrightarrow> 32 \<le> unat c \<and> unat c \<le> 126"

definition isspace :: "u8 \<Rightarrow> bool" where
  "isspace c \<longleftrightarrow> c = 32 \<or> (9 \<le> unat c \<and> unat c \<le> 13)"

definition hex_char :: "nat \<Rightarrow> u8" where
  "hex_char n = (if n < 10 then 48 + of_nat n else 87 + of_nat n)"

definition catrepr_char :: "(nat \<Rightarrow> u8) \<Rightarrow> sdshdr \<Rightarrow> u8 \<Rightarrow> sdshdr option" where
  "catrepr_char junk s c =
     (if c = ch (CHR 0x5C) \<or> c = ch (CHR 0x22) then sdscatprintf junk s 3 [ch (CHR 0x5C), c]
      else if c = 10 then sdscatlen junk s [ch (CHR 0x5C), ch CHR ''n'']
      else if c = 13 then sdscatlen junk s [ch (CHR 0x5C), ch CHR ''r'']
      else if c = 9 then sdscatlen junk s [ch (CHR 0x5C), ch CHR ''t'']
      else if c = 7 then sdscatlen junk s [ch (CHR 0x5C), ch CHR ''a'']
      else if c = 8 then sdscatlen junk s [ch (CHR 0x5C), ch CHR ''b'']
      else if isprint c then sdscatprintf junk s 2 [c]
      else sdscatprintf junk s 6
             [ch (CHR 0x5C), ch CHR ''x'', hex_char (unat c div 16), hex_char (unat c mod 16)])"

fun sdscatrepr_loop :: "(nat \<Rightarrow> u8) \<Rightarrow> sdshdr \<Rightarrow> u8 list \<Rightarrow> sdshdr option" where
  "sdscatrepr_loop junk s [] = Some s"
| "sdscatrepr_loop junk s (c # p) = do { s1 \<leftarrow> catrepr_char junk s c; sdscatrepr_loop junk s1 p }"

definition sdscatrepr :: "(nat \<Rightarrow> u8) \<Rightarrow> sdshdr \<Rightarrow> u8 list \<Rightarrow> sdshdr option" where
  "sdscatrepr junk s p =
     do { s1 \<leftarrow> sdscatlen junk s [ch (CHR 0x22)];
          s2 \<leftarrow> sdscatrepr_loop junk s1 p;
          sdscatlen junk s2 [ch (CHR 0x22)] }"

definition is_hex_digit :: "u8 \<Rightarrow> bool" where
  "is_hex_digit c \<longleftrightarrow> (48 \<le> unat c \<and> unat c \<le> 57) \<or> (97 \<le> unat c \<and> unat c \<le> 102) \<or> (65 \<le> unat c \<and> unat c \<le> 70)"

definition hex_digit_to_int :: "u8 \<Rightarrow> nat" where
  "hex_digit_to_int c =
     (if 48 \<le> unat c \<and> unat c \<le> 57 then unat c - 48
      else if 97 \<le> unat c \<and> unat c \<le> 102 then unat c - 87
      else if 65 \<le> unat c \<and> unat c \<le> 70 then unat c - 55
      else 0)"

text \<open>
  The token loop of \<^verbatim>\<open>sdssplitargs\<close>. The pointer \<open>p\<close> is the rest of the line with its
  terminator; the mode says whether it is inside quotes. The result is the token and the rest,
  \<open>Some None\<close> the error exit.
\<close>

datatype quote_mode = Plain | InQ | InSq

definition unescape :: "u8 \<Rightarrow> u8" where
  "unescape c =
     (if c = ch CHR ''n'' then 10 else if c = ch CHR ''r'' then 13 else if c = ch CHR ''t'' then 9
      else if c = ch CHR ''b'' then 8 else if c = ch CHR ''a'' then 7 else c)"

definition closing_ok :: "u8 list \<Rightarrow> bool option" where
  "closing_ok p = do { d \<leftarrow> rd p 1; Some (\<not> (d \<noteq> 0 \<and> \<not> isspace d)) }"

definition is_hex_escape :: "u8 list \<Rightarrow> bool option" where
  "is_hex_escape p =
     do { c0 \<leftarrow> rd p 0;
          if c0 \<noteq> ch (CHR 0x5C) then Some False
          else do { c1 \<leftarrow> rd p 1;
            if c1 \<noteq> ch CHR ''x'' then Some False
            else do { c2 \<leftarrow> rd p 2;
              if \<not> is_hex_digit c2 then Some False
              else do { c3 \<leftarrow> rd p 3; Some (is_hex_digit c3) } } } }"

text \<open>One round of the loop in each mode: by how much \<open>p\<close> advances before the common
  \<^verbatim>\<open>if (*p) p++\<close>, the mode, whether the token is complete, and the token; \<open>Some None\<close> is the
  error exit.\<close>

type_synonym round = "(nat \<times> quote_mode \<times> bool \<times> sdshdr) option option"

definition splitargs_inq :: "(nat \<Rightarrow> u8) \<Rightarrow> sdshdr \<Rightarrow> u8 list \<Rightarrow> round" where
  "splitargs_inq junk current p =
     do { c \<leftarrow> rd p 0;
          hex \<leftarrow> is_hex_escape p;
          esc \<leftarrow> (if c = ch (CHR 0x5C) then map_option (\<lambda>d. d \<noteq> 0) (rd p 1) else Some False);
          if hex then
            do { s \<leftarrow> sdscatlen junk current [of_nat (hex_digit_to_int (p ! 2) * 16 + hex_digit_to_int (p ! 3))];
                 Some (Some (3, InQ, False, s)) }
          else if esc then
            do { s \<leftarrow> sdscatlen junk current [unescape (p ! 1)]; Some (Some (1, InQ, False, s)) }
          else if c = ch (CHR 0x22) then
            do { ok \<leftarrow> closing_ok p; Some (if ok then Some (0, InQ, True, current) else None) }
          else if c = 0 then Some None
          else do { s \<leftarrow> sdscatlen junk current [c]; Some (Some (0, InQ, False, s)) } }"

definition splitargs_insq :: "(nat \<Rightarrow> u8) \<Rightarrow> sdshdr \<Rightarrow> u8 list \<Rightarrow> round" where
  "splitargs_insq junk current p =
     do { c \<leftarrow> rd p 0;
          esc \<leftarrow> (if c = ch (CHR 0x5C) then map_option (\<lambda>d. d = ch (CHR 0x27)) (rd p 1) else Some False);
          if esc then
            do { s \<leftarrow> sdscatlen junk current [ch (CHR 0x27)]; Some (Some (1, InSq, False, s)) }
          else if c = ch (CHR 0x27) then
            do { ok \<leftarrow> closing_ok p; Some (if ok then Some (0, InSq, True, current) else None) }
          else if c = 0 then Some None
          else do { s \<leftarrow> sdscatlen junk current [c]; Some (Some (0, InSq, False, s)) } }"

definition splitargs_plain :: "(nat \<Rightarrow> u8) \<Rightarrow> sdshdr \<Rightarrow> u8 list \<Rightarrow> round" where
  "splitargs_plain junk current p =
     do { c \<leftarrow> rd p 0;
          if c = 32 \<or> c = 10 \<or> c = 13 \<or> c = 9 \<or> c = 0 then Some (Some (0, Plain, True, current))
          else if c = ch (CHR 0x22) then Some (Some (0, InQ, False, current))
          else if c = ch (CHR 0x27) then Some (Some (0, InSq, False, current))
          else do { s \<leftarrow> sdscatlen junk current [c]; Some (Some (0, Plain, False, s)) } }"

definition splitargs_step ::
  "(nat \<Rightarrow> u8) \<Rightarrow> quote_mode \<Rightarrow> sdshdr \<Rightarrow> u8 list \<Rightarrow> (u8 list \<times> quote_mode \<times> bool \<times> sdshdr) option option" where
  "splitargs_step junk mode current p =
     do { r \<leftarrow> (case mode of InQ \<Rightarrow> splitargs_inq junk current p
                            | InSq \<Rightarrow> splitargs_insq junk current p
                            | Plain \<Rightarrow> splitargs_plain junk current p);
          case r of
            None \<Rightarrow> Some None
          | Some (k, mode', fin, s) \<Rightarrow>
              do { d \<leftarrow> rd p k; Some (Some (if d \<noteq> 0 then drop (k + 1) p else drop k p, mode', fin, s)) } }"

lemma is_hex_escape_byte: "is_hex_escape p = Some True \<Longrightarrow> rd p 3 \<noteq> Some 0"
proof -
  assume "is_hex_escape p = Some True"
  then have "\<exists>c. rd p 3 = Some c \<and> is_hex_digit c"
    by (auto simp: is_hex_escape_def split: bind_splits if_splits)
  then show ?thesis by (auto simp: is_hex_digit_def)
qed

lemma splitargs_inq_byte:
  assumes "splitargs_inq junk current p = Some (Some (k, m, False, s))"
  shows "rd p k \<noteq> Some 0"
proof -
  have "(k = 3 \<and> is_hex_escape p = Some True) \<or> (k = 1 \<and> rd p 1 \<noteq> Some 0) \<or> (k = 0 \<and> rd p 0 \<noteq> Some 0)"
    using assms by (auto simp: splitargs_inq_def split: bind_splits if_splits)
  then show ?thesis using is_hex_escape_byte by auto
qed

lemma splitargs_insq_byte:
  "splitargs_insq junk current p = Some (Some (k, m, False, s)) \<Longrightarrow> rd p k \<noteq> Some 0"
  by (auto simp: splitargs_insq_def rd_def split: bind_splits if_splits)

lemma splitargs_plain_byte:
  "splitargs_plain junk current p = Some (Some (k, m, False, s)) \<Longrightarrow> rd p k \<noteq> Some 0"
  by (auto simp: splitargs_plain_def split: bind_splits if_splits)

lemma splitargs_step_decreases:
  "splitargs_step junk mode current p = Some (Some (p', mode', False, s)) \<Longrightarrow> length p' < length p"
  unfolding splitargs_step_def
  by (auto simp: rd_def split: bind_splits option.splits quote_mode.splits if_splits
      dest!: splitargs_inq_byte splitargs_insq_byte splitargs_plain_byte)

lemma splitargs_step_le:
  "splitargs_step junk mode current p = Some (Some (p', mode', fin, s)) \<Longrightarrow> length p' \<le> length p"
  unfolding splitargs_step_def by (auto split: bind_splits option.splits)

function splitargs_token ::
  "(nat \<Rightarrow> u8) \<Rightarrow> quote_mode \<Rightarrow> sdshdr \<Rightarrow> u8 list \<Rightarrow> (u8 list \<times> sdshdr) option option" where
  "splitargs_token junk mode current p =
     (case splitargs_step junk mode current p of
        None \<Rightarrow> None
      | Some None \<Rightarrow> Some None
      | Some (Some (p', mode', fin, s)) \<Rightarrow>
          if fin then Some (Some (p', s)) else splitargs_token junk mode' s p')"
  by pat_completeness auto
termination
  by (relation "measure (\<lambda>(_, _, _, p). length p)") (auto dest: splitargs_step_decreases)

declare splitargs_token.simps [simp del]

lemma splitargs_token_le:
  "splitargs_token junk mode current p = Some (Some (p', s)) \<Longrightarrow> length p' \<le> length p"
proof (induction junk mode current p rule: splitargs_token.induct)
  case (1 junk mode current p)
  then obtain p1 m1 fin s1 where st: "splitargs_step junk mode current p = Some (Some (p1, m1, fin, s1))"
    by (subst (asm) splitargs_token.simps) (auto split: option.splits)
  note len = splitargs_step_le [OF st]
  show ?case
  proof (cases fin)
    case True
    with 1(2) st len show ?thesis by (subst (asm) splitargs_token.simps) auto
  next
    case False
    then have "length p' \<le> length p1"
      using 1 st by (subst (asm) (2) splitargs_token.simps) auto
    with len show ?thesis by simp
  qed
qed

lemma splitargs_token_decreases:
  assumes tok: "splitargs_token junk Plain current p = Some (Some (p', s))"
    and p: "p \<noteq> []" "\<not> isspace (hd p)" "hd p \<noteq> 0"
  shows "length p' < length p"
proof -
  obtain p1 m1 fin s1 where st: "splitargs_step junk Plain current p = Some (Some (p1, m1, fin, s1))"
    using tok by (subst (asm) splitargs_token.simps) (auto split: option.splits)
  then have "\<not> fin"
    using p by (auto simp: splitargs_step_def splitargs_plain_def rd_def isspace_def hd_conv_nth
        split: bind_splits if_splits)
  then have "splitargs_token junk m1 s1 p1 = Some (Some (p', s))" "length p1 < length p"
    using tok st splitargs_step_decreases [of junk Plain current p p1 m1 s1]
    by (subst (asm) splitargs_token.simps, auto)
  then show ?thesis using splitargs_token_le by fastforce
qed

text \<open>\<^verbatim>\<open>while (*p && isspace (*p)) p++\<close>\<close>

fun skip_blanks :: "u8 list \<Rightarrow> u8 list option" where
  "skip_blanks [] = None"
| "skip_blanks (c # p) = (if c \<noteq> 0 \<and> isspace c then skip_blanks p else Some (c # p))"

lemma skip_blanks_props:
  "skip_blanks p = Some q \<Longrightarrow> q \<noteq> [] \<and> length q \<le> length p \<and> (hd q = 0 \<or> \<not> isspace (hd q))"
  by (induction p) (auto split: if_splits)

function sdssplitargs :: "(nat \<Rightarrow> u8) \<Rightarrow> u8 list \<Rightarrow> sdshdr list \<Rightarrow> sdshdr list option option" where
  "sdssplitargs junk p vector =
     do { q \<leftarrow> skip_blanks p;
          if hd q \<noteq> 0 then
            do { current \<leftarrow> sdsempty junk;
                 r \<leftarrow> splitargs_token junk Plain current q;
                 case r of
                   None \<Rightarrow> Some None
                 | Some (p', tok) \<Rightarrow> sdssplitargs junk p' (vector @ [tok]) }
          else Some (Some vector) }"
  by pat_completeness auto
termination
proof (relation "measure (\<lambda>(_, p, _). length p)", goal_cases)
  case (2 junk p vector q current r a p' tok)
  then show ?case
    using skip_blanks_props [of p q] splitargs_token_decreases [of junk current q p' tok] by auto
qed auto

declare sdssplitargs.simps [simp del]

section \<open>Invariant and contents\<close>

definition sds_ok :: "sdshdr \<Rightarrow> bool" where
  "sds_ok s \<longleftrightarrow> length (sds_buf s) = sds_len s + sds_free s + 1 \<and> sds_len s + sds_free s < 2 ^ 32
     \<and> sds_buf s ! sds_len s = 0"

definition sds_val :: "sdshdr \<Rightarrow> u8 list" where
  "sds_val s = take (sds_len s) (sds_buf s)"

text \<open>Strings up to this length cannot overflow the header fields when room is added.\<close>

definition sds_limit :: nat where
  "sds_limit = 2 ^ 31"

lemma sds_okI:
  assumes "length (sds_buf s) = sds_len s + sds_free s + 1" "sds_len s + sds_free s < 2 ^ 32"
    "sds_buf s ! sds_len s = 0"
  shows "sds_ok s"
  using assms by (simp add: sds_ok_def)

lemma sds_ok_simps:
  assumes "sds_ok s"
  shows "length (sds_buf s) = sds_len s + sds_free s + 1" "sds_len s + sds_free s < 2 ^ 32"
    "sds_len s < 2 ^ 32" "sds_free s < 2 ^ 32" "sds_buf s ! sds_len s = 0"
  using assms by (simp_all add: sds_ok_def)

lemma length_sds_val [simp]: "sds_ok s \<Longrightarrow> length (sds_val s) = sds_len s"
  by (simp add: sds_ok_def sds_val_def)

lemma makeRoom_len [simp]: "sds_len (sdsMakeRoomFor junk s n) = sds_len s"
  by (simp add: sdsMakeRoomFor_def Let_def sdslen_def)

lemma makeRoom_spec:
  assumes "sds_ok s" "sds_len s + n \<le> sds_limit"
  shows "sds_ok (sdsMakeRoomFor junk s n)" "sds_val (sdsMakeRoomFor junk s n) = sds_val s"
    "n \<le> sds_free (sdsMakeRoomFor junk s n)"
proof -
  note ok = sds_ok_simps [OF assms(1)]
  show "sds_ok (sdsMakeRoomFor junk s n)" "sds_val (sdsMakeRoomFor junk s n) = sds_val s"
    "n \<le> sds_free (sdsMakeRoomFor junk s n)"
    using ok assms(2)
    by (auto simp: sdsMakeRoomFor_def sds_ok_def sds_val_def sds_limit_def sdslen_def sdsavail_def SDS_MAX_PREALLOC_def
        Let_def mem_realloc_def nth_append)
qed

section \<open>Operations on the whole string\<close>

lemma sdsnewlen_spec:
  assumes "length t \<ge> n" "n < 2 ^ 32"
  shows "\<exists>s. sdsnewlen junk (Some t) n = Some s \<and> sds_ok s \<and> sds_val s = take n t \<and> sds_free s = 0"
  using assms
  by (cases "n = 0") (auto simp: sdsnewlen_def Let_def mem_simps sds_ok_def sds_val_def nth_append)

lemma sdsnewlen_zero:
  assumes "n < 2 ^ 32"
  shows "\<exists>s. sdsnewlen junk None n = Some s \<and> sds_ok s \<and> sds_val s = replicate n 0"
  using assms
  by (auto simp: sdsnewlen_def mem_simps sds_ok_def sds_val_def nth_append simp del: replicate.simps)

lemma sdsempty_spec: "\<exists>s. sdsempty junk = Some s \<and> sds_ok s \<and> sds_val s = []"
  unfolding sdsempty_def using sdsnewlen_spec [of 0 "[0]" junk] by auto

lemma sdsdup_spec:
  assumes "sds_ok s"
  shows "\<exists>s'. sdsdup junk s = Some s' \<and> sds_ok s' \<and> sds_val s' = sds_val s"
  using sdsnewlen_spec [of "sds_len s" "sds_buf s" junk] sds_ok_simps [OF assms]
  by (auto simp: sdsdup_def sdslen_def sds_val_def)

lemma sdscatlen_spec:
  assumes "sds_ok s" "sds_len s + length t \<le> sds_limit"
  shows "\<exists>s'. sdscatlen junk s t = Some s' \<and> sds_ok s' \<and> sds_val s' = sds_val s @ t"
proof -
  let ?r = "sdsMakeRoomFor junk s (length t)"
  note r = makeRoom_spec [OF assms, of junk]
  note ok = sds_ok_simps [OF r(1)] r(3)
  have "take (sds_len s) (sds_buf ?r) = sds_val s" using r(2) by (simp add: sds_val_def)
  moreover have "length (sds_val s) = sds_len s" using assms(1) by simp
  ultimately show ?thesis using ok
    by (auto simp: sdscatlen_def Let_def sdslen_def mem_simps sds_ok_def sds_val_def nth_append)
qed

interpretation sds: buf_impl "sdscatlen junk" sds_val sds_ok sds_limit
  by unfold_locales (use sdscatlen_spec in force)

lemma sdscat_spec:
  assumes "sds_ok s" "0 \<notin> set t" "sds_len s + length t \<le> sds_limit"
  shows "\<exists>s'. sdscat junk s (t @ 0 # r) = Some s' \<and> sds_ok s' \<and> sds_val s' = sds_val s @ t"
  using sdscatlen_spec [OF assms(1,3)] assms(2) by (simp add: sdscat_def strlen_terminated)

lemma sdscpylen_spec:
  assumes "sds_ok s" "length t \<le> sds_limit"
  shows "\<exists>s'. sdscpylen junk s t = Some s' \<and> sds_ok s' \<and> sds_val s' = t"
proof -
  define s1 where "s1 = (if wrap32 (sds_free s + sds_len s) < length t
      then sdsMakeRoomFor junk s (length t - sds_len s) else s)"
  note ok = sds_ok_simps [OF assms(1)]
  have 1: "sds_ok s1" "length t \<le> sds_free s1 + sds_len s1"
    using makeRoom_spec [OF assms(1), of "length t - sds_len s" junk] assms ok
    by (auto simp: s1_def add.commute split: if_splits)
  note ok1 = sds_ok_simps [OF 1(1)]
  have tot: "(if wrap32 (sds_free s + sds_len s) < length t then wrap32 (sds_free s1 + sds_len s1)
      else wrap32 (sds_free s + sds_len s)) = sds_free s1 + sds_len s1"
    using ok1 by (auto simp: s1_def)
  show ?thesis using ok1 1(2) unfolding sdscpylen_def Let_def s1_def [symmetric] tot
    by (auto simp: mem_simps sds_ok_def sds_val_def nth_append)
qed

lemma sdsgrowzero_spec:
  assumes "sds_ok s" "n \<le> sds_limit"
  shows "\<exists>s'. sdsgrowzero junk s n = Some s' \<and> sds_ok s' \<and> sds_val s' = sds_val s @ replicate (n - sds_len s) 0"
proof (cases "n \<le> sds_len s")
  case True
  then show ?thesis using assms by (simp add: sdsgrowzero_def)
next
  case False
  let ?r = "sdsMakeRoomFor junk s (n - sds_len s)"
  have "sds_len s + (n - sds_len s) \<le> sds_limit" using False assms(2) by simp
  note r = makeRoom_spec [OF assms(1) this, of junk]
  note ok = sds_ok_simps [OF r(1)] r(3)
  have "take (sds_len s) (sds_buf ?r) = sds_val s" using r(2) by (simp add: sds_val_def)
  moreover have "length (sds_val s) = sds_len s" using assms(1) by simp
  ultimately show ?thesis using ok False
    by (auto simp: sdsgrowzero_def Let_def mem_simps sds_ok_def sds_val_def nth_append simp del: replicate.simps)
qed

lemma sdsclear_spec:
  assumes "sds_ok s"
  shows "\<exists>s'. sdsclear s = Some s' \<and> sds_ok s' \<and> sds_val s' = [] \<and> sdsAllocSize s' = sdsAllocSize s"
  using sds_ok_simps [OF assms]
  by (auto simp: sdsclear_def mem_simps sds_ok_def sds_val_def sdsAllocSize_def add.commute)

lemma sdsRemoveFreeSpace_spec:
  assumes "sds_ok s"
  shows "sds_ok (sdsRemoveFreeSpace junk s)" "sds_val (sdsRemoveFreeSpace junk s) = sds_val s"
  using sds_ok_simps [OF assms]
  by (auto simp: sdsRemoveFreeSpace_def sds_ok_def sds_val_def mem_realloc_def nth_append)

lemma sdsIncrLen_spec:
  assumes "sds_ok s" "- int (sds_len s) \<le> incr" "incr \<le> int (sds_free s)"
  shows "\<exists>s'. sdsIncrLen s incr = Some s' \<and> sds_ok s' \<and> sds_val s' = take (nat (int (sds_len s) + incr)) (sds_buf s)"
proof -
  note ok = sds_ok_simps [OF assms(1)]
  have m: "(int (sds_len s) + incr) mod 2 ^ 32 = int (sds_len s) + incr"
    "(int (sds_free s) - incr) mod 2 ^ 32 = int (sds_free s) - incr"
    using ok assms by (intro mod_pos_pos_trivial; simp)+
  then show ?thesis using ok assms unfolding sdsIncrLen_def Let_def m
    by (auto simp: mem_simps sds_ok_def sds_val_def nth_append nat_add_distrib)
qed

section \<open>Trimming and ranges\<close>

definition strip :: "('a \<Rightarrow> bool) \<Rightarrow> 'a list \<Rightarrow> 'a list" where
  "strip P v = rev (dropWhile P (rev (dropWhile P v)))"

lemma strip_split:
  assumes "\<forall>x\<in>set a. P x" "\<forall>x\<in>set b. P x" "m \<noteq> []" "\<not> P (hd m)" "\<not> P (last m)"
  shows "strip P (a @ m @ b) = m"
proof -
  have "dropWhile P (m @ b) = m @ b" using assms(3,4) by (cases m) auto
  then have "dropWhile P (a @ m @ b) = m @ b" using assms(1) by simp
  moreover have "dropWhile P (rev b @ rev m) = rev m"
  proof -
    have "dropWhile P (rev m) = rev m" using assms(3,5) by (cases "rev m") auto
    moreover have "dropWhile P (rev b @ rev m) = dropWhile P (rev m)" using assms(2) by (intro dropWhile_append2) simp
    ultimately show ?thesis by simp
  qed
  ultimately show ?thesis by (simp add: strip_def)
qed

lemma strip_all: "\<forall>x\<in>set v. P x \<Longrightarrow> strip P v = []"
  by (simp add: strip_def dropWhile_eq_Nil_conv [THEN iffD2])

lemma sdstrim_left_spec:
  assumes "n < length buf" "sp \<le> n"
  shows "\<exists>l. sdstrim_left buf cset (int n - 1) sp = Some l \<and> sp \<le> l \<and> l \<le> n
     \<and> (\<forall>i. sp \<le> i \<and> i < l \<longrightarrow> strchr cset (buf ! i)) \<and> (l = n \<or> \<not> strchr cset (buf ! l))"
  using assms(2)
proof (induction "n - sp" arbitrary: sp)
  case 0
  then show ?case by (subst sdstrim_left.simps) auto
next
  case (Suc k)
  then have sp: "sp < n" "sp < length buf" using assms(1) by auto
  show ?case
  proof (cases "strchr cset (buf ! sp)")
    case True
    from Suc obtain l where "sdstrim_left buf cset (int n - 1) (sp + 1) = Some l" "sp + 1 \<le> l" "l \<le> n"
      "\<forall>i. sp + 1 \<le> i \<and> i < l \<longrightarrow> strchr cset (buf ! i)" "l = n \<or> \<not> strchr cset (buf ! l)"
      using Suc.hyps(1) [of "sp + 1"] sp Suc.hyps(2) by fastforce
    then show ?thesis using True sp
      by (subst sdstrim_left.simps) (auto simp: rd_def, (metis Suc_leI le_neq_implies_less)+)
  qed (use sp in \<open>subst sdstrim_left.simps, auto simp: rd_def\<close>)
qed

lemma sdstrim_right_spec:
  assumes "ep < length buf"
  shows "\<exists>r. sdstrim_right buf cset ep = Some r \<and> r \<le> ep
     \<and> (\<forall>i. r < i \<and> i \<le> ep \<longrightarrow> strchr cset (buf ! i)) \<and> (r = 0 \<or> \<not> strchr cset (buf ! r))"
  using assms
proof (induction ep)
  case 0
  then show ?case by (subst sdstrim_right.simps) auto
next
  case (Suc ep)
  then obtain r where r: "sdstrim_right buf cset ep = Some r" "r \<le> ep"
    "\<forall>i. r < i \<and> i \<le> ep \<longrightarrow> strchr cset (buf ! i)" "r = 0 \<or> \<not> strchr cset (buf ! r)" by auto
  show ?case
  proof (cases "strchr cset (buf ! Suc ep)")
    case True
    then show ?thesis using Suc.prems r by (subst sdstrim_right.simps) (auto simp: rd_def le_Suc_eq)
  qed (use Suc.prems in \<open>subst sdstrim_right.simps, auto simp: rd_def\<close>)
qed

lemma strip_bounds:
  assumes l: "l \<le> n" "\<forall>i<l. P (v ! i)" "l = n \<or> \<not> P (v ! l)"
    and r: "r < n" "\<forall>i. r < i \<and> i < n \<longrightarrow> P (v ! i)" "r = 0 \<or> \<not> P (v ! r)" and n: "n = length v"
  shows "strip P v = (if l > r then [] else take (r - l + 1) (drop l v))"
proof (cases "l = n")
  case True
  then have "\<forall>x\<in>set v. P x" using l(2) n by (auto simp: in_set_conv_nth)
  then show ?thesis using True r(1) by (simp add: strip_all)
next
  case False
  then have nl: "\<not> P (v ! l)" "l < n" using l by auto
  have lr: "l \<le> r" using r(2) nl by (metis not_le_imp_less)
  then have nr: "\<not> P (v ! r)" using r(3) nl by auto
  let ?m = "take (r - l + 1) (drop l v)"
  have v: "v = take l v @ ?m @ drop (r + 1) v"
  proof -
    have "drop (r + 1) v = drop (r - l + 1) (drop l v)" using lr by (simp add: add.commute)
    then show ?thesis by (simp only: append_take_drop_id)
  qed
  have m: "?m \<noteq> []" "hd ?m = v ! l" using nl n by (simp_all add: hd_drop_conv_nth)
  have "length ?m = r - l + 1" using lr r(1) n by simp
  then have "last ?m = ?m ! (r - l)" using m(1) by (simp add: last_conv_nth del: length_take length_drop)
  then have "last ?m = v ! r" using lr r(1) n by simp
  moreover have "\<forall>x\<in>set (take l v). P x" using l(2) by (auto simp: in_set_conv_nth)
  moreover have "\<forall>x\<in>set (drop (r + 1) v). P x" using r(2) n by (auto simp: in_set_conv_nth)
  ultimately have "strip P (take l v @ ?m @ drop (r + 1) v) = ?m"
    using strip_split [of "take l v" P "drop (r + 1) v" ?m] m nl nr by simp
  with v lr show ?thesis by simp
qed

lemma sds_cut:
  assumes "sds_ok s" "a + n \<le> sds_len s"
    "b = take n (drop a (sds_buf s)) @ drop n (sds_buf s)"
  shows "\<exists>b'. mem_write n [0] b = Some b' \<and>
     (let s' = s\<lparr>sds_buf := b', sds_free := wrap32 (sds_free s + sub32 (sds_len s) n), sds_len := wrap32 n\<rparr>
      in sds_ok s' \<and> sds_val s' = take n (drop a (sds_val s)))"
  using assms sds_ok_simps [OF assms(1)]
  by (auto simp: mem_simps Let_def sds_ok_def sds_val_def nth_append drop_take min_def)

lemma sdstrim_spec:
  assumes "sds_ok s"
  shows "\<exists>s'. sdstrim s cset = Some s' \<and> sds_ok s' \<and> sds_val s' = strip (strchr cset) (sds_val s)"
proof -
  note ok = sds_ok_simps [OF assms]
  let ?n = "sds_len s" and ?P = "strchr cset" and ?v = "sds_val s"
  obtain l where l: "sdstrim_left (sds_buf s) cset (int ?n - 1) 0 = Some l" "l \<le> ?n"
    "\<forall>i<l. ?P (sds_buf s ! i)" "l = ?n \<or> \<not> ?P (sds_buf s ! l)"
    using sdstrim_left_spec [of ?n "sds_buf s" 0 cset] ok by auto
  obtain e where e: "(if int ?n - 1 > 0 then map_option int (sdstrim_right (sds_buf s) cset (nat (int ?n - 1)))
      else Some (int ?n - 1)) = Some e" "e < int ?n"
    "?n = 0 \<or> strip ?P ?v = (if int l > e then [] else take (nat (e - int l + 1)) (drop l ?v))"
    "?n = 0 \<longrightarrow> e = - 1"
  proof (cases "?n = 0")
    case False
    obtain r where r: "sdstrim_right (sds_buf s) cset (?n - 1) = Some r" "r < ?n"
      "\<forall>i. r < i \<and> i < ?n \<longrightarrow> ?P (sds_buf s ! i)" "r = 0 \<or> \<not> ?P (sds_buf s ! r)"
    proof -
      have iff: "i \<le> ?n - 1 \<longleftrightarrow> i < ?n" for i using False by auto
      have "?n - 1 < length (sds_buf s)" using ok by simp
      from sdstrim_right_spec [OF this, of cset, unfolded iff] show ?thesis using that by blast
    qed
    have "?v ! i = sds_buf s ! i" if "i < ?n" for i using that by (simp add: sds_val_def)
    then have st: "strip ?P ?v = (if l > r then [] else take (r - l + 1) (drop l ?v))"
      using l r assms by (intro strip_bounds [of l ?n]) auto
    show ?thesis
    proof (rule that [of "int r"])
      show "(if int ?n - 1 > 0 then map_option int (sdstrim_right (sds_buf s) cset (nat (int ?n - 1)))
          else Some (int ?n - 1)) = Some (int r)"
        using r(1,2) False by (auto simp: nat_diff_distrib')
      show "?n = 0 \<or> strip ?P ?v = (if int l > int r then [] else take (nat (int r - int l + 1)) (drop l ?v))"
        unfolding st by (auto simp: nat_diff_distrib' nat_add_distrib Suc_nat_eq_nat_zadd1)
    qed (use r False in auto)
  qed (use that in auto)
  define len where "len = (if int l > e then 0 else nat (e - int l + 1))"
  have bound: "l + len \<le> ?n" using e(2) l(2) by (auto simp: len_def)
  then have mv: "(if l \<noteq> 0 then mem_move 0 l len (sds_buf s) else Some (sds_buf s))
      = Some (take len (drop l (sds_buf s)) @ drop len (sds_buf s))"
    using ok by (auto simp: mem_simps)
  have "take len (drop l ?v) = strip ?P ?v"
    using e(3,4) bound assms by (cases "?n = 0") (auto simp: len_def strip_def sds_val_def)
  moreover have "sdstrim s cset = do { b2 \<leftarrow> mem_write len [0] (take len (drop l (sds_buf s)) @ drop len (sds_buf s));
      Some (s\<lparr>sds_buf := b2, sds_free := wrap32 (sds_free s + sub32 ?n len), sds_len := wrap32 len\<rparr>) }"
    by (simp only: sdstrim_def sdslen_def Let_def l(1) e(1) Option.bind.simps len_def [symmetric] mv)
  ultimately show ?thesis using sds_cut [OF assms bound refl] by (auto simp: Let_def)
qed

text \<open>A range is the bytes whose index lies between the two ends, once negative ends are counted
  from the end of the string; an end before the first byte is taken as the first byte.\<close>

definition range_end :: "nat \<Rightarrow> int \<Rightarrow> int" where
  "range_end n i = (if i < 0 then max 0 (int n + i) else i)"

lemma drop_take_nths: "drop l (take u v) = nths v {i. l \<le> i \<and> i < u}"
proof (induction v arbitrary: l u)
  case (Cons x v)
  have "{j. l \<le> Suc j \<and> Suc j < u} = {i. l - 1 \<le> i \<and> i < u - 1}" by auto
  then show ?case using Cons [of "l - 1" "u - 1"] by (cases l; cases u) (auto simp: nths_Cons)
qed simp

lemma range_nths:
  assumes "0 \<le> lo" "n = length v"
  shows "nths v {i. lo \<le> int i \<and> int i \<le> hi} =
    (if lo > hi \<or> lo \<ge> int n then []
     else take (nat ((if hi \<ge> int n then int n - 1 else hi) - lo + 1)) (drop (nat lo) v))"
proof -
  have "{i. lo \<le> int i \<and> int i \<le> hi} = {i. nat lo \<le> i \<and> i < nat (hi + 1)}" using assms(1) by auto
  then have "nths v {i. lo \<le> int i \<and> int i \<le> hi} = drop (nat lo) (take (nat (hi + 1)) v)"
    by (simp add: drop_take_nths)
  then show ?thesis using assms by (auto simp: drop_take nat_diff_distrib' algebra_simps)
qed

lemma sdsrange_spec:
  assumes "sds_ok s"
  shows "\<exists>s'. sdsrange s start e = Some s' \<and> sds_ok s'
    \<and> sds_val s' = nths (sds_val s) {i. range_end (sds_len s) start \<le> int i \<and> int i \<le> range_end (sds_len s) e}"
proof (cases "sds_len s = 0")
  case True
  then show ?thesis using assms by (simp add: sdsrange_def sdslen_def sds_val_def)
next
  case False
  let ?n = "sds_len s"
  define lo where "lo = range_end ?n start"
  define hi where "hi = range_end ?n e"
  have pos: "0 \<le> lo" "0 \<le> hi" by (auto simp: lo_def hi_def range_end_def)
  have starts: "(if start < 0 then (if int ?n + start < 0 then 0 else int ?n + start) else start) = lo"
    "(if e < 0 then (if int ?n + e < 0 then 0 else int ?n + e) else e) = hi"
    by (auto simp: lo_def hi_def range_end_def)
  define none where "none \<longleftrightarrow> lo > hi \<or> lo \<ge> int ?n"
  define nl where "nl = (if none then 0 else nat ((if hi \<ge> int ?n then int ?n - 1 else hi) - lo + 1))"
  define st where "st = (if none then 0 else nat lo)"
  note ok = sds_ok_simps [OF assms]
  have bound: "st + nl \<le> ?n" using pos by (auto simp: st_def nl_def none_def)
  have "take nl (drop st (sds_val s)) = nths (sds_val s) {i. lo \<le> int i \<and> int i \<le> hi}"
    using range_nths [OF pos(1), of ?n "sds_val s" hi] assms by (simp add: st_def nl_def none_def)
  moreover have "sdsrange s start e = do {
      b1 \<leftarrow> (if st \<noteq> 0 \<and> nl \<noteq> 0 then mem_move 0 st nl (sds_buf s) else Some (sds_buf s));
      b2 \<leftarrow> mem_write nl [0] b1;
      Some (s\<lparr>sds_buf := b2, sds_free := wrap32 (sds_free s + sub32 ?n nl), sds_len := wrap32 nl\<rparr>) }"
    using False pos unfolding sdsrange_def Let_def sdslen_def starts
    by (auto simp: st_def nl_def none_def)
  moreover have "(if st \<noteq> 0 \<and> nl \<noteq> 0 then mem_move 0 st nl (sds_buf s) else Some (sds_buf s))
      = Some (take nl (drop st (sds_buf s)) @ drop nl (sds_buf s))"
    using bound ok by (auto simp: mem_simps)
  ultimately show ?thesis using sds_cut [OF assms bound refl] unfolding lo_def hi_def by (auto simp: Let_def)
qed

lemma map_bytes_spec:
  "j + n \<le> length m \<Longrightarrow> map_bytes f j n m = Some (take j m @ map f (take n (drop j m)) @ drop (j + n) m)"
proof (induction n arbitrary: j m)
  case (Suc n)
  then have "j < length m" by simp
  then have "drop j m = m ! j # drop (Suc j) m" by (simp add: Cons_nth_drop_Suc)
  then show ?case using Suc by (auto simp: rd_def put_byte_def take_Suc_conv_app_nth upd_conv_take_nth_drop add.commute)
qed simp

lemma map_bytes_ok:
  assumes "sds_ok s"
  shows "\<exists>b. map_bytes f 0 (sds_len s) (sds_buf s) = Some b \<and> sds_ok (s\<lparr>sds_buf := b\<rparr>)
     \<and> sds_val (s\<lparr>sds_buf := b\<rparr>) = map f (sds_val s)"
  using sds_ok_simps [OF assms] by (auto simp: map_bytes_spec sds_ok_def sds_val_def nth_append)

lemma memcmp_lexord:
  "length a = length b \<Longrightarrow> (memcmp a b < 0 \<longleftrightarrow> ord_class.lexordp a b) \<and> (memcmp a b = 0 \<longleftrightarrow> a = b)"
proof (induction a b rule: list_induct2)
  case (Cons x a y b)
  have "int (unat x) - int (unat y) < 0 \<longleftrightarrow> x < y" "int (unat x) - int (unat y) = 0 \<longleftrightarrow> x = y"
    by (simp_all add: word_less_def word_uint_eq_iff)
  then show ?case using Cons by (cases x y rule: linorder_cases) (auto simp del: of_nat_unat)
qed simp

lemma lexordp_take:
  fixes a b :: "'a :: linorder list"
  shows "length a < length b \<Longrightarrow> take (length a) b = a \<Longrightarrow> ord_class.lexordp a b"
proof (induction a arbitrary: b)
  case Nil
  then show ?case by (cases b) auto
next
  case (Cons x a)
  then show ?case by (cases b) auto
qed

lemma lexordp_prefix_decides:
  fixes a b :: "'a :: linorder list"
  assumes "n \<le> length a" "n \<le> length b" "take n a \<noteq> take n b"
  shows "ord_class.lexordp a b \<longleftrightarrow> ord_class.lexordp (take n a) (take n b)"
  using assms
proof (induction n arbitrary: a b)
  case (Suc n)
  obtain x a' y b' where ab: "a = x # a'" "b = y # b'"
    using Suc.prems(1,2) by (cases a; cases b) auto
  show ?case
  proof (cases "x = y")
    case True
    then show ?thesis using Suc.IH [of a' b'] Suc.prems ab by simp
  next
    case False
    then show ?thesis using ab by (cases "x < y") simp_all
  qed
qed simp

text \<open>The comparison of two byte strings by their common length first and then by their lengths.\<close>

lemma memcmp_blocks:
  fixes a b :: "u8 list"
  defines "k \<equiv> (if length a < length b then length a else length b)"
  defines "c \<equiv> (if memcmp (take k a) (take k b) = 0 then int (length a) - int (length b) else memcmp (take k a) (take k b))"
  shows "(c < 0 \<longleftrightarrow> ord_class.lexordp a b) \<and> (c = 0 \<longleftrightarrow> a = b)"
proof -
  have k: "k \<le> length a" "k \<le> length b" by (auto simp: k_def)
  note lex = memcmp_lexord [of "take k a" "take k b"]
  show ?thesis
  proof (cases "take k a = take k b")
    case False
    then have "ord_class.lexordp a b \<longleftrightarrow> ord_class.lexordp (take k a) (take k b)"
      using k by (intro lexordp_prefix_decides) auto
    then show ?thesis using lex False k by (auto simp: c_def)
  next
    case True
    consider "length a < length b" | "length b < length a" | "length a = length b" by linarith
    then show ?thesis
    proof cases
      case 1
      then have "ord_class.lexordp a b" using True by (intro lexordp_take) (auto simp: k_def)
      then show ?thesis using lex True k 1 by (auto simp: c_def)
    next
      case 2
      then have "ord_class.lexordp b a" using True by (intro lexordp_take) (auto simp: k_def)
      then show ?thesis using lex True k 2 lexordp_antisym by (auto simp: c_def)
    next
      case 3
      then have "a = b" using True by (simp add: k_def)
      then show ?thesis using lex 3 by (auto simp: c_def lexordp_irreflexive')
    qed
  qed
qed

lemma sdscmp_spec:
  assumes "sds_ok s" "sds_ok t" "sds_len s < 2 ^ 31" "sds_len t < 2 ^ 31"
  shows "\<exists>c. sdscmp s t = Some c \<and> (c < 0 \<longleftrightarrow> ord_class.lexordp (sds_val s) (sds_val t)) \<and> (c = 0 \<longleftrightarrow> sds_val s = sds_val t)"
proof -
  let ?n = "sds_len s" and ?m = "sds_len t" and ?a = "sds_val s" and ?b = "sds_val t"
  define k where "k = (if ?n < ?m then ?n else ?m)"
  have k: "k \<le> ?n" "k \<le> ?m" by (auto simp: k_def)
  have len: "length ?a = ?n" "length ?b = ?m" using assms by auto
  have rds: "mem_read 0 k (sds_buf s) = Some (take k ?a)" "mem_read 0 k (sds_buf t) = Some (take k ?b)"
    using sds_ok_simps(1) [OF assms(1)] sds_ok_simps(1) [OF assms(2)] k by (simp_all add: mem_simps sds_val_def min_def)
  have cmp: "sdscmp s t = Some (if memcmp (take k ?a) (take k ?b) = 0 then int ?n - int ?m else memcmp (take k ?a) (take k ?b))"
    using rds assms(3,4) by (simp add: sdscmp_def Let_def sdslen_def k_def [symmetric] sign_extend_fit fits_signed_def)
  show ?thesis using memcmp_blocks [of ?a ?b] unfolding cmp len k_def by blast
qed

section \<open>Numbers and formats\<close>

lemma ll2str_gen_spec:
  "p + length (dec v) \<le> length m \<Longrightarrow>
   ll2str_gen p v m = Some (p + length (dec v), take p m @ rev (dec v) @ drop (p + length (dec v)) m)"
proof (induction p v m rule: ll2str_gen.induct)
  case (1 p v m)
  define m1 where "m1 = m[p := 48 + of_nat (v mod 10)]"
  have p: "p < length m" using "1.prems" dec_nonempty(1) [of v] by (cases "dec v") auto
  then have put: "put_byte p (48 + of_nat (v mod 10)) m = Some m1" by (simp add: put_byte_def m1_def)
  show ?case
  proof (cases "v div 10 \<noteq> 0")
    case True
    then have "dec v = dec (v div 10) @ [48 + of_nat (v mod 10)]" by (intro dec_step) auto
    moreover have "take (p + 1) m1 = take p m @ [48 + of_nat (v mod 10)]"
      using p by (simp add: m1_def take_Suc_conv_app_nth)
    ultimately show ?thesis
      using "1.IH" [OF put True] "1.prems" True p
      by (subst ll2str_gen.simps) (simp add: put m1_def)
  next
    case False
    then show ?thesis using p
      by (subst ll2str_gen.simps) (auto simp: put_byte_def m1_def upd_conv_take_nth_drop)
  qed
qed

lemma str_reverse_spec:
  "s \<le> p + 1 \<Longrightarrow> p < length m \<Longrightarrow>
   str_reverse s p m = Some (take s m @ rev (take (p + 1 - s) (drop s m)) @ drop (p + 1) m)"
proof (induction s p m rule: str_reverse.induct)
  case (1 s p m)
  show ?case
  proof (cases "s < p")
    case False
    then have "p + 1 - s = 0 \<or> p + 1 - s = 1" by auto
    then have "rev (take (p + 1 - s) (drop s m)) = take (p + 1 - s) (drop s m)"
      by (cases "drop s m") (elim disjE; simp)+
    moreover have "take s m @ take (p + 1 - s) (drop s m) @ drop (p + 1) m = m"
      using "1.prems" by (metis append_take_drop_id drop_drop le_add_diff_inverse2)
    ultimately show ?thesis using False by (subst str_reverse.simps) simp
  next
    case True
    define a where "a = take s m"
    define b where "b = take (p - s - 1) (drop (s + 1) m)"
    define d where "d = drop (p + 1) m"
    have len: "length a = s" "length b = p - s - 1" using True "1.prems" by (auto simp: a_def b_def)
    have "drop (s + 1) m = b @ drop p m"
      using True by (metis b_def append_take_drop_id drop_drop add.commute Suc_eq_plus1 diff_diff_left
          le_add_diff_inverse2 Suc_leI)
    then have m: "m = a @ m ! s # b @ m ! p # d"
      using True "1.prems" by (simp add: a_def d_def Cons_nth_drop_Suc) (metis append_take_drop_id Cons_nth_drop_Suc less_trans)
    let ?m2 = "a @ m ! p # b @ m ! s # d"
    have swap: "m[s := m ! p, p := m ! s] = ?m2"
      using True len by (subst (1) m) (auto simp: list_update_append split: nat.splits)
    have sub: "take (s + 1) ?m2 = a @ [m ! p]" "take (p - 1 + 1 - (s + 1)) (drop (s + 1) ?m2) = b"
      "drop (p - 1 + 1) ?m2 = m ! s # d"
    proof -
      have p: "p - 1 + 1 = length a + Suc (length b)" using True len by simp
      show "drop (p - 1 + 1) ?m2 = m ! s # d" unfolding p by simp
    qed (use True len in auto)
    have "length ?m2 = length m" using swap by (metis length_list_update)
    then have "str_reverse (s + 1) (p - 1) ?m2 = Some (take (s + 1) ?m2 @
        rev (take (p - 1 + 1 - (s + 1)) (drop (s + 1) ?m2)) @ drop (p - 1 + 1) ?m2)"
      using True "1.prems" swap by (intro "1.IH" [of "m ! s" "m ! p" "m[s := m ! p]"]) (auto simp: rd_def put_byte_def)
    then have "str_reverse (s + 1) (p - 1) ?m2 = Some (a @ m ! p # rev b @ m ! s # d)"
      unfolding sub by simp
    then have "str_reverse s p m = Some (a @ m ! p # rev b @ m ! s # d)"
      using True "1.prems" swap by (subst str_reverse.simps) (simp add: rd_def put_byte_def)
    moreover have "take s m = a" "drop (p + 1) m = d" by (simp_all add: a_def d_def)
    moreover have "take (p + 1 - s) (drop s m) = m ! s # b @ [m ! p]"
    proof -
      have k: "p + 1 - s = Suc (Suc (length b))" using True len by simp
      show ?thesis unfolding k using len by (subst m) simp
    qed
    ultimately show ?thesis by simp
  qed
qed

lemma ll2str_finish:
  assumes "w \<noteq> []" "rest \<noteq> []"
  shows "do { m2 \<leftarrow> put_byte (length w) 0 (w @ rest); m3 \<leftarrow> str_reverse 0 (length w - 1) m2; Some (m3, length w) }
    = Some (rev w @ 0 # tl rest, length w)"
proof -
  have "put_byte (length w) 0 (w @ rest) = Some (w @ 0 # tl rest)"
    using assms(2) by (cases rest) (auto simp: put_byte_def)
  moreover have "length w - 1 + 1 = length w" using assms(1) by (cases w) auto
  moreover have "length w - 1 < length (w @ 0 # tl rest)" by simp
  ultimately show ?thesis using str_reverse_spec [of 0 "length w - 1" "w @ 0 # tl rest"] by simp
qed

lemma sdsull2str_spec:
  assumes "v < 2 ^ 64" "length m = SDS_LLSTR_SIZE"
  shows "\<exists>r. sdsull2str m v = Some (dec v @ 0 # r, length (dec v))"
proof -
  have l: "length (dec v) \<le> 20" using length_dec_bound [of v 19] assms(1) by simp
  let ?rest = "drop (length (dec v)) m"
  have "?rest \<noteq> []" using l assms(2) by (simp add: SDS_LLSTR_SIZE_def)
  from ll2str_finish [of "rev (dec v)", OF _ this] show ?thesis
    using ll2str_gen_spec [of 0 v m] l assms(2) by (simp add: sdsull2str_def SDS_LLSTR_SIZE_def)
qed

lemma sdsll2str_spec:
  assumes "int64_range v" "v \<noteq> - (2 ^ 63)" "length m = SDS_LLSTR_SIZE"
  shows "\<exists>r. sdsll2str m v = Some (ll_repr v @ 0 # r, length (ll_repr v))"
proof -
  let ?d = "dec (nat \<bar>v\<bar>)" and ?w = "rev (ll_repr v)"
  have l: "length (ll_repr v) \<le> 20" using length_ll_repr [OF assms(1)] .
  have ld: "length ?d \<le> length (ll_repr v)" "v < 0 \<Longrightarrow> length ?d < length (ll_repr v)" by (simp_all add: ll_repr_dec)
  have abs: "nat (if v < 0 then - v else v) = nat \<bar>v\<bar>" by simp
  have gen: "ll2str_gen 0 (nat \<bar>v\<bar>) m = Some (length ?d, rev ?d @ drop (length ?d) m)"
    using ll2str_gen_spec [of 0 "nat \<bar>v\<bar>" m] l ld assms(3) by (simp add: SDS_LLSTR_SIZE_def)
  define rest where "rest = drop (length (ll_repr v)) m"
  have "rest \<noteq> []" using l assms(3) by (simp add: rest_def SDS_LLSTR_SIZE_def)
  note fin = ll2str_finish [of ?w, OF _ this]
  have sign: "(if v < 0 then do { m1 \<leftarrow> put_byte (length ?d) (ch CHR ''-'') (rev ?d @ drop (length ?d) m); Some (length ?d + 1, m1) }
      else Some (length ?d, rev ?d @ drop (length ?d) m)) = Some (length ?w, ?w @ rest)"
  proof (cases "v < 0")
    case True
    then have "length ?d < length m" using ld(2) l assms(3) by (simp add: SDS_LLSTR_SIZE_def)
    then have "drop (length ?d) m \<noteq> []" "drop (Suc (length ?d)) m = tl (drop (length ?d) m)"
      by (simp_all add: drop_Suc tl_drop)
    then show ?thesis using True
      by (cases "drop (length ?d) m") (auto simp: put_byte_def ll_repr_dec rest_def list_update_append)
  qed (simp add: ll_repr_dec rest_def)
  have ne: "?w \<noteq> []" by (simp add: ll_repr_dec)
  show ?thesis using fin [OF ne] assms(2) unfolding sdsll2str_def abs
    by (simp add: gen sign del: length_rev) simp
qed

lemma sdsfromlonglong_spec:
  assumes "int64_range v" "v \<noteq> - (2 ^ 63)"
  shows "\<exists>s. sdsfromlonglong junk v = Some s \<and> sds_ok s \<and> sds_val s = ll_repr v"
proof -
  obtain r where r: "sdsll2str (map junk [0..<SDS_LLSTR_SIZE]) v = Some (ll_repr v @ 0 # r, length (ll_repr v))"
    using sdsll2str_spec [OF assms] by fastforce
  then show ?thesis
    using sdsnewlen_spec [of "length (ll_repr v)" "ll_repr v @ 0 # r" junk] length_ll_repr [OF assms(1)]
    by (auto simp: sdsfromlonglong_def)
qed

text \<open>The retries end: once the buffer has two bytes more than the output, its last byte but
  one is the one stored beforehand.\<close>

lemma sdscatvprintf_loop_spec:
  assumes "0 \<notin> set out" "2 \<le> buflen"
  shows "\<exists>r. sdscatvprintf_loop junk buflen out = Some (out @ 0 # r)"
  using assms(2)
proof (induction "length out + 2 - buflen" arbitrary: buflen rule: less_induct)
  case less
  let ?b = "(map junk [0..<buflen])[buflen - 2 := 0]"
  have put: "put_byte (buflen - 2) 0 (map junk [0..<buflen]) = Some ?b" using less.prems by (simp add: put_byte_def)
  let ?w = "take (buflen - 1) out @ [0]"
  have vs: "vsnprintf ?b buflen out = Some (?w @ drop (length ?w) ?b)"
    using less.prems by (simp add: vsnprintf_def mem_write_def)
  show ?case
  proof (cases "length out + 2 \<le> buflen")
    case True
    then have "?w = out @ [0]" by simp
    moreover have "(out @ 0 # drop (Suc (length out)) ?b) ! (buflen - 2) = 0"
    proof -
      obtain k where k: "buflen = length out + 2 + k" using True le_Suc_ex by blast
      then show ?thesis by (cases k) (auto simp: nth_append)
    qed
    ultimately show ?thesis using True less.prems put vs
      by (subst sdscatvprintf_loop.simps) (auto simp: rd_def)
  next
    case False
    then have "(?w @ drop (length ?w) ?b) ! (buflen - 2) = out ! (buflen - 2)" "buflen - 2 < length out"
      using less.prems by (auto simp: nth_append)
    moreover have "out ! (buflen - 2) \<noteq> 0" using assms(1) calculation(2) by (metis nth_mem)
    moreover obtain r where "sdscatvprintf_loop junk (buflen * 2) out = Some (out @ 0 # r)"
    proof -
      have "length out + 2 - buflen * 2 < length out + 2 - buflen"
        using less.prems False by (intro diff_less_mono2) auto
      then show ?thesis using less.hyps [of "buflen * 2"] less.prems that by auto
    qed
    ultimately show ?thesis using less.prems put vs
      by (subst sdscatvprintf_loop.simps) (auto simp: rd_def)
  qed
qed

lemma sdscatprintf_spec:
  assumes "sds_ok s" "0 \<notin> set out" "sds_len s + length out \<le> sds_limit"
  shows "\<exists>s'. sdscatprintf junk s n out = Some s' \<and> sds_ok s' \<and> sds_val s' = sds_val s @ out"
proof -
  define k where "k = (if n * 2 > 1024 then n * 2 else 1024)"
  have "2 \<le> k" by (simp add: k_def)
  then obtain r where "sdscatvprintf_loop junk k out = Some (out @ 0 # r)"
    using sdscatvprintf_loop_spec [OF assms(2)] by blast
  then show ?thesis using sdscat_spec [OF assms, of junk r]
    unfolding sdscatprintf_def sdscatvprintf_def Let_def k_def [symmetric] by simp
qed

section \<open>The format of \<^verbatim>\<open>sdscatfmt\<close>\<close>

text \<open>Inside the loop the terminator is missing: \<open>fmt_ok s\<close> is the invariant without it.\<close>

definition fmt_ok :: "sdshdr \<Rightarrow> bool" where
  "fmt_ok s \<longleftrightarrow> length (sds_buf s) = sds_len s + sds_free s + 1 \<and> sds_len s + sds_free s < 2 ^ 32"

lemma fmt_makeRoom:
  assumes "fmt_ok s" "sds_len s + n \<le> sds_limit"
  shows "fmt_ok (sdsMakeRoomFor junk s n)" "sds_val (sdsMakeRoomFor junk s n) = sds_val s"
    "n \<le> sds_free (sdsMakeRoomFor junk s n)"
  using assms
  by (auto simp: sdsMakeRoomFor_def fmt_ok_def sds_val_def sds_limit_def sdslen_def sdsavail_def SDS_MAX_PREALLOC_def
      Let_def mem_realloc_def)

lemma catfmt_put_spec:
  assumes "fmt_ok s" "sds_len s + length bs \<le> sds_limit"
  shows "\<exists>s'. catfmt_put junk bs (s, sds_len s) = Some (s', sds_len s') \<and> fmt_ok s' \<and> sds_val s' = sds_val s @ bs
    \<and> sds_len s' = sds_len s + length bs"
proof -
  define r where "r = (if sds_free s < length bs then sdsMakeRoomFor junk s (length bs) else s)"
  have r: "fmt_ok r" "sds_val r = sds_val s" "length bs \<le> sds_free r" "sds_len r = sds_len s"
    using fmt_makeRoom [OF assms, of junk] assms by (auto simp: r_def)
  then show ?thesis
    using assms(1) unfolding catfmt_put_def Let_def prod.case r_def [symmetric]
    by (auto simp: mem_simps fmt_ok_def sds_val_def)
qed

lemma catfmt_char_spec:
  assumes "fmt_ok s" "1 \<le> sds_free s"
  shows "\<exists>s'. catfmt_char c (s, sds_len s) = Some (s', sds_len s') \<and> fmt_ok s' \<and> sds_val s' = sds_val s @ [c]
    \<and> sds_len s' = sds_len s + 1"
  using assms by (auto simp: catfmt_char_def put_byte_def fmt_ok_def sds_val_def take_Suc_conv_app_nth)

text \<open>The meaning of a format: literal bytes and conversions.\<close>

fun arg_repr :: "u8 \<Rightarrow> fmtarg \<Rightarrow> u8 list option" where
  "arg_repr c (FStr t) = (if c = ch CHR ''s'' \<and> 0 \<in> set t then Some (takeWhile (\<lambda>x. x \<noteq> 0) t) else None)"
| "arg_repr c (FSds t) = (if c = ch CHR ''S'' \<and> sds_ok t then Some (sds_val t) else None)"
| "arg_repr c (FInt v) =
     (if (c = ch CHR ''i'' \<or> c = ch CHR ''I'') \<and> int64_range v \<and> v \<noteq> - (2 ^ 63) then Some (ll_repr v) else None)"
| "arg_repr c (FUInt v) = (if (c = ch CHR ''u'' \<or> c = ch CHR ''U'') \<and> v < 2 ^ 64 then Some (dec v) else None)"

fun fmt_repr :: "u8 list \<Rightarrow> fmtarg list \<Rightarrow> u8 list option" where
  "fmt_repr [] args = Some []"
| "fmt_repr [c] args = (if c = ch CHR ''%'' then None else Some [c])"
| "fmt_repr (c # d # f) args =
     (if c = ch CHR ''%'' then
        if is_conv d then
          (case args of
             [] \<Rightarrow> None
           | a # args' \<Rightarrow> do { x \<leftarrow> arg_repr d a; y \<leftarrow> fmt_repr f args'; Some (x @ y) })
        else map_option ((#) d) (fmt_repr f args)
      else map_option ((#) c) (fmt_repr (d # f) args))"

lemma catfmt_conv_str: "0 \<in> set t \<Longrightarrow> do { l \<leftarrow> strlen t; mem_read 0 l t } = Some (takeWhile (\<lambda>x. x \<noteq> 0) t)"
  using length_takeWhile_le [of "\<lambda>x. x \<noteq> 0" t] by (simp add: strlen_def mem_read_def flip: takeWhile_eq_take)

lemma catfmt_conv_spec: "arg_repr c a = Some x \<Longrightarrow> catfmt_conv junk c a = Some x"
proof (induction c a rule: arg_repr.induct)
  case (1 c t)
  then show ?case using catfmt_conv_str [of t] by (simp add: catfmt_conv_def split: if_splits)
next
  case (2 c t)
  then show ?case using sds_ok_simps(1) [of t]
    by (auto simp: catfmt_conv_def mem_read_def sdslen_def sds_val_def split: if_splits)
next
  case (3 c v)
  then have v: "int64_range v" "v \<noteq> - (2 ^ 63)" "x = ll_repr v" "c = ch CHR ''i'' \<or> c = ch CHR ''I''"
    by (auto split: if_splits)
  obtain r where "sdsll2str (map junk [0..<SDS_LLSTR_SIZE]) v = Some (ll_repr v @ 0 # r, length (ll_repr v))"
    using sdsll2str_spec [OF v(1,2), of "map junk [0..<SDS_LLSTR_SIZE]"] by auto
  then show ?case using v(3,4) by (simp add: catfmt_conv_def mem_read_def)
next
  case (4 c v)
  then have v: "v < 2 ^ 64" "x = dec v" "c = ch CHR ''u'' \<or> c = ch CHR ''U''" by (auto split: if_splits)
  obtain r where "sdsull2str (map junk [0..<SDS_LLSTR_SIZE]) v = Some (dec v @ 0 # r, length (dec v))"
    using sdsull2str_spec [OF v(1), of "map junk [0..<SDS_LLSTR_SIZE]"] by auto
  then show ?case using v(2,3) by (simp add: catfmt_conv_def mem_read_def)
qed

lemma fmt_room1:
  assumes "fmt_ok s" "sds_len s < sds_limit" "s0 = (if sds_free s = 0 then sdsMakeRoomFor junk s 1 else s)"
  shows "fmt_ok s0" "sds_val s0 = sds_val s" "sds_len s0 = sds_len s" "1 \<le> sds_free s0"
  using fmt_makeRoom [OF assms(1), of 1 junk] assms by (auto simp: Suc_le_eq)

lemma sdscatfmt_loop_spec:
  "fmt_ok s \<Longrightarrow> 0 \<notin> set f \<Longrightarrow> fmt_repr f args = Some x \<Longrightarrow> sds_len s + length x < sds_limit \<Longrightarrow>
   \<exists>s'. sdscatfmt_loop junk (f @ [0]) args (s, sds_len s) = Some (s', sds_len s') \<and> fmt_ok s' \<and> sds_val s' = sds_val s @ x"
proof (induction f args arbitrary: s x rule: fmt_repr.induct)
  case (1 args)
  then show ?case by simp
next
  case (2 c args)
  define s0 where "s0 = (if sds_free s = 0 then sdsMakeRoomFor junk s 1 else s)"
  note s0 = fmt_room1 [OF "2.prems"(1) _ s0_def]
  have x: "x = [c]" "c \<noteq> ch CHR ''%''" using "2.prems"(3) by (auto split: if_splits)
  then obtain s' where "catfmt_char c (s0, sds_len s) = Some (s', sds_len s')" "fmt_ok s'" "sds_val s' = sds_val s @ [c]"
    using catfmt_char_spec [of s0 c] s0 "2.prems"(4) by auto
  then show ?case using x "2.prems"(2) by (simp add: s0_def [symmetric])
next
  case (3 c d f args)
  define s0 where "s0 = (if sds_free s = 0 then sdsMakeRoomFor junk s 1 else s)"
  have lt: "sds_len s < sds_limit" using "3.prems"(4) by simp
  note s0 = fmt_room1 [OF "3.prems"(1) lt s0_def]
  have unf: "sdscatfmt_loop junk ((c # d # f) @ [0]) args (s, sds_len s) =
      (if c = ch CHR ''%'' then
         if is_conv d then
           (case args of [] \<Rightarrow> None
            | arg # args' \<Rightarrow> do { bs \<leftarrow> catfmt_conv junk d arg; st1 \<leftarrow> catfmt_put junk bs (s0, sds_len s);
                                sdscatfmt_loop junk (f @ [0]) args' st1 })
         else do { st1 \<leftarrow> catfmt_char d (s0, sds_len s); sdscatfmt_loop junk (f @ [0]) args st1 }
       else do { st1 \<leftarrow> catfmt_char c (s0, sds_len s); sdscatfmt_loop junk ((d # f) @ [0]) args st1 })"
    using "3.prems"(2) by (simp add: s0_def [symmetric])
  consider (conv) "c = ch CHR ''%''" "is_conv d" | (lit) "c = ch CHR ''%''" "\<not> is_conv d" | (plain) "c \<noteq> ch CHR ''%''"
    by blast
  then show ?case
  proof cases
    case conv
    then obtain a args' b y where a: "args = a # args'" "arg_repr d a = Some b" "fmt_repr f args' = Some y" "x = b @ y"
      using "3.prems"(3) by (auto split: list.splits bind_splits)
    obtain s1 where s1: "catfmt_put junk b (s0, sds_len s) = Some (s1, sds_len s1)" "fmt_ok s1"
        "sds_val s1 = sds_val s @ b" "sds_len s1 = sds_len s + length b"
      using catfmt_put_spec [of s0 b junk] s0 a(4) "3.prems"(4) by auto
    then show ?thesis
      using "3.IH"(1) [OF conv a(1,2) s1(2) _ a(3)] "3.prems"(2,4) a catfmt_conv_spec [OF a(2), of junk] conv
      unfolding unf by auto
  next
    case lit
    then obtain y where y: "fmt_repr f args = Some y" "x = d # y" using "3.prems"(3) by auto
    obtain s1 where s1: "catfmt_char d (s0, sds_len s) = Some (s1, sds_len s1)" "fmt_ok s1"
        "sds_val s1 = sds_val s @ [d]" "sds_len s1 = sds_len s + 1"
      using catfmt_char_spec [of s0 d] s0 by auto
    then show ?thesis
      using "3.IH"(2) [OF lit s1(2) _ y(1)] "3.prems"(2,4) y lit unfolding unf by auto
  next
    case plain
    then obtain y where y: "fmt_repr (d # f) args = Some y" "x = c # y" using "3.prems"(3) by auto
    obtain s1 where s1: "catfmt_char c (s0, sds_len s) = Some (s1, sds_len s1)" "fmt_ok s1"
        "sds_val s1 = sds_val s @ [c]" "sds_len s1 = sds_len s + 1"
      using catfmt_char_spec [of s0 c] s0 by auto
    then show ?thesis
      using "3.IH"(3) [OF plain s1(2) _ y(1)] "3.prems"(2,4) y plain unfolding unf by auto
  qed
qed

lemma sdscatfmt_spec:
  assumes "sds_ok s" "0 \<notin> set f" "fmt_repr f args = Some x" "sds_len s + length x < sds_limit"
  shows "\<exists>s'. sdscatfmt junk s (f @ [0]) args = Some s' \<and> sds_ok s' \<and> sds_val s' = sds_val s @ x"
proof -
  have "fmt_ok s" using assms(1) by (simp add: sds_ok_def fmt_ok_def)
  then obtain s1 where s1: "sdscatfmt_loop junk (f @ [0]) args (s, sds_len s) = Some (s1, sds_len s1)"
      "fmt_ok s1" "sds_val s1 = sds_val s @ x"
    using sdscatfmt_loop_spec [OF _ assms(2-4)] by blast
  then show ?thesis
    by (auto simp: sdscatfmt_def sdslen_def put_byte_def fmt_ok_def sds_ok_def sds_val_def)
qed

section \<open>Splitting and joining\<close>

fun intersperse :: "'a list \<Rightarrow> 'a list list \<Rightarrow> 'a list" where
  "intersperse sep [] = []"
| "intersperse sep [t] = t"
| "intersperse sep (t # u # ts) = t @ sep @ intersperse sep (u # ts)"

lemma intersperse_snoc: "ts \<noteq> [] \<Longrightarrow> intersperse sep (ts @ [t]) = intersperse sep ts @ sep @ t"
  by (induction sep ts rule: intersperse.induct) auto

lemma memcmp_eq: "length a = length b \<Longrightarrow> memcmp a b = 0 \<longleftrightarrow> a = b"
  using memcmp_lexord by blast

text \<open>The invariant of the scan: the tokens so far, each followed by the separator, make up the
  part before \<open>start\<close>, no separator begins between \<open>start\<close> and \<open>j\<close>, and there is room for
  one more token.\<close>

definition no_sep :: "u8 list \<Rightarrow> u8 list \<Rightarrow> bool" where
  "no_sep sep t \<longleftrightarrow> (\<forall>k. take (length sep) (drop k t) \<noteq> sep)"

definition split_inv :: "u8 list \<Rightarrow> u8 list \<Rightarrow> nat \<Rightarrow> nat \<Rightarrow> nat \<Rightarrow> sdshdr list \<Rightarrow> bool" where
  "split_inv s sep j start slots tokens \<longleftrightarrow>
     start \<le> j \<and> start \<le> length s \<and> j \<le> length s \<and> length tokens < slots \<and> 5 \<le> slots
     \<and> (\<forall>t\<in>set tokens. sds_ok t \<and> no_sep sep (sds_val t))
     \<and> (\<forall>k. start \<le> k \<and> k < j \<longrightarrow> take (length sep) (drop k s) \<noteq> sep)
     \<and> concat (map (\<lambda>t. sds_val t @ sep) tokens) = take start s"

lemma no_sep_token:
  assumes "\<forall>k. start \<le> k \<and> k < j \<longrightarrow> take (length sep) (drop k s) \<noteq> sep" "sep \<noteq> []" "j \<le> length s"
  shows "no_sep sep (take (j - start) (drop start s))"
  unfolding no_sep_def
proof (intro allI notI)
  fix k
  assume eq: "take (length sep) (drop k (take (j - start) (drop start s))) = sep"
  then have "length (take (length sep) (drop k (take (j - start) (drop start s)))) = length sep" by simp
  moreover have "0 < length sep" using assms(2) by simp
  ultimately have len: "start + k + length sep \<le> j" using assms(3) unfolding length_take length_drop by arith
  then have "take (length sep) (drop (start + k) s) = sep"
    using eq by (simp add: drop_take take_take add.commute min_absorb1)
  then show False using assms(1,2) len by (cases sep) auto
qed

lemma sdssplit_loop_spec:
  assumes "split_inv s sep j start slots tokens" "sep \<noteq> []" "length s < 2 ^ 32"
  shows "\<exists>start' slots' tokens'. sdssplit_loop junk s sep j start slots tokens = Some (start', slots', tokens')
     \<and> split_inv s sep (length s) start' slots' tokens'"
  using assms(1)
proof (induction "length s - j" arbitrary: j start slots tokens rule: less_induct)
  case less
  show ?case
  proof (cases "int j < int (length s) - (int (length sep) - 1)")
    case False
    have "take (length sep) (drop k s) \<noteq> sep" if "j \<le> k" for k
    proof
      assume "take (length sep) (drop k s) = sep"
      then have "length (take (length sep) (drop k s)) = length sep" by simp
      moreover have "0 < length sep" using assms(2) by simp
      ultimately show False using False that unfolding length_take length_drop by arith
    qed
    then have "split_inv s sep (length s) start slots tokens"
      using less.prems unfolding split_inv_def by (metis not_le_imp_less order_refl)
    then show ?thesis using False by (subst sdssplit_loop.simps) simp
  next
    case True
    then have jl: "j + length sep \<le> length s" "j < length s" using assms(2) by (auto simp: neq_Nil_conv)
    define slots1 where "slots1 = (if slots < length tokens + 2 then slots * 2 else slots)"
    have slots1: "length tokens + 2 \<le> slots1" "5 \<le> slots1"
      using less.prems by (auto simp: slots1_def split_inv_def)
    define hit where "hit \<longleftrightarrow> take (length sep) (drop j s) = sep"
    have test: "(length sep = 1 \<and> s ! j = sep ! 0) \<or> memcmp (take (length sep) (drop j s)) sep = 0 \<longleftrightarrow> hit"
      using jl assms(2) by (auto simp: hit_def memcmp_eq Cons_nth_drop_Suc [symmetric] length_Suc_conv)
    have unf: "sdssplit_loop junk s sep j start slots tokens =
        (if hit then
           do { tok \<leftarrow> sdsnewlen junk (Some (drop start s)) (j - start);
                tokens' \<leftarrow> put_token slots1 tok tokens;
                sdssplit_loop junk s sep (j + length sep) (j + length sep) slots1 tokens' }
         else sdssplit_loop junk s sep (j + 1) start slots1 tokens)"
      using True jl assms(2) test
      by (subst sdssplit_loop.simps) (simp add: rd_def mem_read_def slots1_def Let_def)
    show ?thesis
    proof (cases hit)
      case False
      then have "split_inv s sep (j + 1) start slots1 tokens"
        using less.prems slots1 jl by (auto simp: split_inv_def hit_def less_Suc_eq)
      then show ?thesis using less.hyps [of "j + 1" start slots1 tokens] jl False by (simp add: unf)
    next
      case hit: True
      obtain tok where tok: "sdsnewlen junk (Some (drop start s)) (j - start) = Some tok" "sds_ok tok"
          "sds_val tok = take (j - start) (drop start s)"
      proof -
        have "j - start \<le> length (drop start s)" "j - start < 2 ^ 32" using jl assms(3) by auto
        from sdsnewlen_spec [OF this, of junk] show ?thesis using that by blast
      qed
      have "take (j + length sep) s = take start s @ sds_val tok @ sep"
        using hit less.prems tok(3) by (simp add: take_add hit_def split_inv_def) (metis append_assoc le_add_diff_inverse take_add)
      moreover have "no_sep sep (sds_val tok)"
        using no_sep_token [of start j sep s] less.prems jl tok(3) assms(2) by (simp add: split_inv_def)
      ultimately have "split_inv s sep (j + length sep) (j + length sep) slots1 (tokens @ [tok])"
        using less.prems slots1 jl tok by (simp add: split_inv_def) linarith
      moreover have "length s - (j + length sep) < length s - j" using jl assms(2) by (cases sep) auto
      ultimately show ?thesis
        using less.hyps [of "j + length sep" "j + length sep" slots1 "tokens @ [tok]"] slots1 tok hit
        by (simp add: unf put_token_def)
    qed
  qed
qed

lemma intersperse_concat:
  "intersperse sep (ts @ [t]) = concat (map (\<lambda>u. u @ sep) ts) @ t"
proof (induction ts)
  case (Cons u ts)
  then show ?case by (cases ts) auto
qed simp

lemma sdssplitlen_spec:
  assumes "s \<noteq> []" "sep \<noteq> []" "length s < 2 ^ 32"
  shows "\<exists>tokens. sdssplitlen junk s sep = Some (Some tokens) \<and> tokens \<noteq> []
     \<and> (\<forall>t\<in>set tokens. sds_ok t \<and> no_sep sep (sds_val t)) \<and> intersperse sep (map sds_val tokens) = s"
proof -
  have "split_inv s sep 0 0 5 []" by (simp add: split_inv_def)
  then obtain start slots tokens where l: "sdssplit_loop junk s sep 0 0 5 [] = Some (start, slots, tokens)"
      and i: "split_inv s sep (length s) start slots tokens"
    using sdssplit_loop_spec [OF _ assms(2,3)] by blast
  obtain tok where tok: "sdsnewlen junk (Some (drop start s)) (length s - start) = Some tok" "sds_ok tok"
      "sds_val tok = drop start s"
    using sdsnewlen_spec [of "length s - start" "drop start s" junk] less_imp_diff_less [OF assms(3)] by auto
  have "no_sep sep (drop start s)"
    using no_sep_token [of start "length s" sep s] i assms(2) by (simp add: split_inv_def)
  moreover have "intersperse sep (map sds_val (tokens @ [tok])) = s"
    using i tok(3) intersperse_concat [of sep "map sds_val tokens" "sds_val tok"] by (simp add: split_inv_def o_def)
  ultimately show ?thesis using i tok assms(1,2) l
    by (auto simp: sdssplitlen_def put_token_def split_inv_def)
qed

lemma sdsjoin_loop_spec:
  assumes "0 \<notin> set sep"
  shows "sds_ok j \<Longrightarrow> \<forall>a\<in>set argv. \<exists>r. a = f a @ 0 # r \<and> 0 \<notin> set (f a) \<Longrightarrow>
    sds_len j + length (intersperse sep (map f argv)) \<le> sds_limit \<Longrightarrow>
    \<exists>j'. sdsjoin_loop junk j argv (sep @ 0 # r) = Some j' \<and> sds_ok j' \<and> sds_val j' = sds_val j @ intersperse sep (map f argv)"
proof (induction argv arbitrary: j)
  case (Cons a argv)
  obtain q where a: "a = f a @ 0 # q" "0 \<notin> set (f a)" using Cons.prems(2) by auto
  have len: "sds_len j + length (f a) \<le> sds_limit" using Cons.prems(3) by (cases argv) auto
  obtain j1 where j1: "sdscat junk j a = Some j1" "sds_ok j1" "sds_val j1 = sds_val j @ f a"
    using sdscat_spec [OF Cons.prems(1) a(2) len, of junk q] a(1) by auto
  have l1: "sds_len j1 = sds_len j + length (f a)"
    using j1(2,3) Cons.prems(1) length_sds_val by (metis length_append)
  show ?case
  proof (cases "argv = []")
    case True
    then show ?thesis using j1 by simp
  next
    case False
    then have itr: "intersperse sep (map f (a # argv)) = f a @ sep @ intersperse sep (map f argv)"
      by (cases argv) auto
    obtain j2 where j2: "sdscat junk j1 (sep @ 0 # r) = Some j2" "sds_ok j2" "sds_val j2 = sds_val j1 @ sep"
      using sdscat_spec [OF j1(2) assms, of junk r] l1 itr Cons.prems(3) by auto
    have "sds_len j2 = sds_len j1 + length sep"
      using j1(2) j2(2,3) length_sds_val by (metis length_append)
    then show ?thesis using Cons.IH [OF j2(2)] Cons.prems(2,3) itr l1 False j1 j2 by auto
  qed
qed simp

lemma sdsjoin_spec:
  assumes "0 \<notin> set sep" "\<forall>a\<in>set argv. \<exists>r. a = f a @ 0 # r \<and> 0 \<notin> set (f a)"
    "length (intersperse sep (map f argv)) \<le> sds_limit"
  shows "\<exists>s. sdsjoin junk argv (sep @ 0 # r) = Some s \<and> sds_ok s \<and> sds_val s = intersperse sep (map f argv)"
proof -
  obtain e where e: "sdsempty junk = Some e" "sds_ok e" "sds_val e = []" using sdsempty_spec by blast
  then have "sds_len e = 0" using length_sds_val by fastforce
  then show ?thesis using sdsjoin_loop_spec [OF assms(1) e(2) assms(2), of junk r] e assms(3) by (auto simp: sdsjoin_def)
qed

lemma sds_buf_terminated: "sds_ok s \<Longrightarrow> \<exists>r. sds_buf s = sds_val s @ 0 # r"
proof -
  assume "sds_ok s"
  then have "sds_len s < length (sds_buf s)" "sds_buf s ! sds_len s = 0" by (simp_all add: sds_ok_def)
  then have "sds_buf s = take (sds_len s) (sds_buf s) @ 0 # drop (Suc (sds_len s)) (sds_buf s)"
    by (metis id_take_nth_drop)
  then show ?thesis unfolding sds_val_def by blast
qed

section \<open>Quoting\<close>

text \<open>The bytes that \<^verbatim>\<open>sdscatrepr\<close> prints for one byte.\<close>

definition repr_byte :: "u8 \<Rightarrow> u8 list" where
  "repr_byte c =
     (if c = 92 \<or> c = 34 then [92, c]
      else if c = 10 then [92, 110] else if c = 13 then [92, 114] else if c = 9 then [92, 116]
      else if c = 7 then [92, 97] else if c = 8 then [92, 98]
      else if isprint c then [c]
      else [92, 120, hex_char (unat c div 16), hex_char (unat c mod 16)])"

lemma hex_char_props:
  assumes "n < 16"
  shows "is_hex_digit (hex_char n)" "hex_digit_to_int (hex_char n) = n" "hex_char n \<noteq> 0"
proof -
  have "n \<in> {0,1,2,3,4,5,6,7,8,9,10,11,12,13,14,15}" using assms unfolding insert_iff empty_iff by presburger
  then show "is_hex_digit (hex_char n)" "hex_digit_to_int (hex_char n) = n" "hex_char n \<noteq> 0"
    by (elim insertE emptyE; simp add: hex_char_def is_hex_digit_def hex_digit_to_int_def)+
qed

lemma nibbles: "unat (c :: u8) div 16 < 16" "unat c mod 16 < 16"
  using u8_less [of c] by auto

lemma repr_byte_nonzero: "0 \<notin> set (repr_byte c)"
  using hex_char_props(3) [OF nibbles(1) [of c]] hex_char_props(3) [OF nibbles(2) [of c]]
  by (auto simp: repr_byte_def isprint_def)

lemma repr_byte_length: "length (repr_byte c) \<le> 4"
  by (simp add: repr_byte_def)

lemma catrepr_char_spec:
  assumes "sds_ok s" "sds_len s + 4 \<le> sds_limit"
  shows "\<exists>s'. catrepr_char junk s c = Some s' \<and> sds_ok s' \<and> sds_val s' = sds_val s @ repr_byte c"
proof -
  have cl: "\<exists>s'. sdscatlen junk s t = Some s' \<and> sds_ok s' \<and> sds_val s' = sds_val s @ t" if "length t \<le> 4" for t
    using sdscatlen_spec [OF assms(1), of t junk] assms(2) that by simp
  have pf: "\<exists>s'. sdscatprintf junk s n t = Some s' \<and> sds_ok s' \<and> sds_val s' = sds_val s @ t"
    if "length t \<le> 4" "0 \<notin> set t" for t n
    using sdscatprintf_spec [OF assms(1) that(2), of junk n] assms(2) that(1) by simp
  have nz: "0 \<notin> set (repr_byte c)" by (rule repr_byte_nonzero)
  show ?thesis using nz unfolding catrepr_char_def repr_byte_def
    by (simp split: if_splits) (auto intro!: cl pf)
qed

definition quoted :: "u8 list \<Rightarrow> u8 list" where
  "quoted p = 34 # concat (map repr_byte p) @ [34]"

lemma quoted_length: "length (quoted p) \<le> 4 * length p + 2"
proof -
  have "length (concat (map repr_byte p)) \<le> 4 * length p"
  proof (induction p)
    case (Cons c p)
    then show ?case using repr_byte_length [of c] by simp
  qed simp
  then show ?thesis by (simp add: quoted_def)
qed

lemma quoted_nonzero: "0 \<notin> set (quoted p)"
  using repr_byte_nonzero by (auto simp: quoted_def)

lemma sdscatrepr_loop_spec:
  "sds_ok s \<Longrightarrow> sds_len s + 4 * length p \<le> sds_limit \<Longrightarrow>
   \<exists>s'. sdscatrepr_loop junk s p = Some s' \<and> sds_ok s' \<and> sds_val s' = sds_val s @ concat (map repr_byte p)"
proof (induction p arbitrary: s)
  case (Cons c p)
  obtain s1 where s1: "catrepr_char junk s c = Some s1" "sds_ok s1" "sds_val s1 = sds_val s @ repr_byte c"
    using catrepr_char_spec [OF Cons.prems(1), of junk c] Cons.prems(2) by auto
  have "sds_len s1 = sds_len s + length (repr_byte c)"
    using s1(2,3) Cons.prems(1) length_sds_val by (metis length_append)
  then show ?case using Cons.IH [OF s1(2)] s1 Cons.prems(2) repr_byte_length [of c] by auto
qed simp

lemma sdscatrepr_spec:
  assumes "sds_ok s" "sds_len s + 4 * length p + 2 \<le> sds_limit"
  shows "\<exists>s'. sdscatrepr junk s p = Some s' \<and> sds_ok s' \<and> sds_val s' = sds_val s @ quoted p"
proof -
  have ln: "sds_len t = length (sds_val t)" if "sds_ok t" for t using that by simp
  obtain s1 where s1: "sdscatlen junk s [34] = Some s1" "sds_ok s1" "sds_val s1 = sds_val s @ [34]"
    using sdscatlen_spec [OF assms(1), of "[34]" junk] assms(2) by auto
  obtain s2 where s2: "sdscatrepr_loop junk s1 p = Some s2" "sds_ok s2" "sds_val s2 = sds_val s @ 34 # concat (map repr_byte p)"
    using sdscatrepr_loop_spec [OF s1(2), of p junk] ln [OF s1(2)] ln [OF assms(1)] s1(3) assms(2) by auto
  have "sds_len s2 + 1 \<le> sds_limit"
    using ln [OF s2(2)] ln [OF assms(1)] s2(3) quoted_length [of p] assms(2) by (simp add: quoted_def)
  then obtain s3 where "sdscatlen junk s2 [34] = Some s3" "sds_ok s3" "sds_val s3 = sds_val s2 @ [34]"
    using sdscatlen_spec [OF s2(2), of "[34]" junk] by auto
  then show ?thesis using s1(1) s2(1,3) by (simp add: sdscatrepr_def quoted_def)
qed

lemma repr_byte_cases:
  "(\<exists>d. repr_byte c = [92, d] \<and> d \<noteq> 0 \<and> d \<noteq> 120 \<and> unescape d = c)
   \<or> (repr_byte c = [c] \<and> c \<noteq> 92 \<and> c \<noteq> 34 \<and> c \<noteq> 0)
   \<or> repr_byte c = [92, 120, hex_char (unat c div 16), hex_char (unat c mod 16)]"
proof (cases "c \<in> {92, 34, 10, 13, 9, 7, 8}")
  case True
  then show ?thesis by (elim insertE emptyE) (simp_all add: repr_byte_def unescape_def)
next
  case False
  then show ?thesis by (cases "isprint c") (auto simp: repr_byte_def isprint_def)
qed

text \<open>One round of the reader consumes the notation of one byte.\<close>

lemma splitargs_step_byte:
  assumes "sds_ok cur" "sds_len cur < sds_limit"
  shows "\<exists>s. splitargs_step junk InQ cur (repr_byte c @ r) = Some (Some (r, InQ, False, s)) \<and> sds_ok s
     \<and> sds_val s = sds_val cur @ [c]"
proof -
  have cat: "\<exists>s. sdscatlen junk cur [x] = Some s \<and> sds_ok s \<and> sds_val s = sds_val cur @ [x]" for x
    using sdscatlen_spec [OF assms(1), of "[x]" junk] assms(2) by simp
  consider (esc) d where "repr_byte c = [92, d]" "d \<noteq> 0" "d \<noteq> 120" "unescape d = c"
    | (print) "repr_byte c = [c]" "c \<noteq> 92" "c \<noteq> 34" "c \<noteq> 0"
    | (hex) "repr_byte c = [92, 120, hex_char (unat c div 16), hex_char (unat c mod 16)]"
    using repr_byte_cases [of c] by blast
  then show ?thesis
  proof cases
    case esc
    then show ?thesis using cat [of c]
      by (auto simp: splitargs_step_def splitargs_inq_def is_hex_escape_def rd_def)
  next
    case print
    then show ?thesis using cat [of c]
      by (auto simp: splitargs_step_def splitargs_inq_def is_hex_escape_def rd_def)
  next
    case hex
    note h1 = hex_char_props [OF nibbles(1) [of c]] and h2 = hex_char_props [OF nibbles(2) [of c]]
    have "(of_nat (unat c div 16 * 16 + unat c mod 16) :: u8) = c" by (simp only: div_mult_mod_eq) simp
    then show ?thesis using cat [of c] h1 h2 hex
      by (auto simp: splitargs_step_def splitargs_inq_def is_hex_escape_def rd_def)
  qed
qed

lemma splitargs_token_quoted:
  assumes "r \<noteq> []" "hd r = 0 \<or> isspace (hd r)"
  shows "sds_ok cur \<Longrightarrow> sds_len cur + length p \<le> sds_limit \<Longrightarrow>
    \<exists>s. splitargs_token junk InQ cur (concat (map repr_byte p) @ 34 # r) = Some (Some (r, s)) \<and> sds_ok s
      \<and> sds_val s = sds_val cur @ p"
proof (induction p arbitrary: cur)
  case Nil
  have "splitargs_step junk InQ cur (34 # r) = Some (Some (r, InQ, True, cur))"
    using assms by (cases r) (auto simp: splitargs_step_def splitargs_inq_def is_hex_escape_def closing_ok_def rd_def)
  then show ?case using Nil by (subst splitargs_token.simps) simp
next
  case (Cons c p)
  obtain s1 where s1: "splitargs_step junk InQ cur (repr_byte c @ concat (map repr_byte p) @ 34 # r) =
      Some (Some (concat (map repr_byte p) @ 34 # r, InQ, False, s1))" "sds_ok s1" "sds_val s1 = sds_val cur @ [c]"
    using splitargs_step_byte [OF Cons.prems(1)] Cons.prems(2) by fastforce
  have "sds_len s1 = sds_len cur + 1"
    using s1(2,3) Cons.prems(1) length_sds_val by (metis length_append_singleton Suc_eq_plus1)
  then show ?case using Cons.IH [OF s1(2)] s1 Cons.prems(2)
    by (subst splitargs_token.simps) auto
qed

lemma sdssplitargs_quoted:
  "\<forall>p\<in>set ps. length p \<le> sds_limit \<Longrightarrow>
   \<exists>toks. sdssplitargs junk (intersperse [32] (map quoted ps) @ 0 # tail) vec = Some (Some (vec @ toks))
     \<and> map sds_val toks = ps \<and> (\<forall>t\<in>set toks. sds_ok t)"
proof (induction ps arbitrary: vec)
  case Nil
  then show ?case by (subst sdssplitargs.simps) simp
next
  case (Cons p ps)
  obtain e where e: "sdsempty junk = Some e" "sds_ok e" "sds_val e = []" using sdsempty_spec by blast
  then have e0: "sds_len e = 0" using length_sds_val by fastforce
  define r where "r = (if ps = [] then 0 # tail else 32 # intersperse [32] (map quoted ps) @ 0 # tail)"
  have line: "intersperse [32] (map quoted (p # ps)) @ 0 # tail = 34 # concat (map repr_byte p) @ 34 # r"
    by (cases ps) (auto simp: r_def quoted_def)
  have r: "r \<noteq> []" "hd r = 0 \<or> isspace (hd r)" by (auto simp: r_def isspace_def)
  obtain t where t: "splitargs_token junk InQ e (concat (map repr_byte p) @ 34 # r) = Some (Some (r, t))" "sds_ok t" "sds_val t = p"
    using splitargs_token_quoted [OF r e(2), of p junk] e(3) e0 Cons.prems by auto
  have "splitargs_step junk Plain e (34 # concat (map repr_byte p) @ 34 # r)
      = Some (Some (concat (map repr_byte p) @ 34 # r, InQ, False, e))"
    by (auto simp: splitargs_step_def splitargs_plain_def rd_def)
  then have tok: "splitargs_token junk Plain e (34 # concat (map repr_byte p) @ 34 # r) = Some (Some (r, t))"
    using t(1) by (subst splitargs_token.simps) simp
  have "sdssplitargs junk (34 # concat (map repr_byte p) @ 34 # r) vec = sdssplitargs junk r (vec @ [t])"
    using e(1) tok by (subst sdssplitargs.simps) (simp add: isspace_def)
  also have "\<dots> = sdssplitargs junk (intersperse [32] (map quoted ps) @ 0 # tail) (vec @ [t])"
    by (auto simp: r_def) (subst (1 2) sdssplitargs.simps, simp add: isspace_def)
  finally show ?case using Cons.IH [of "vec @ [t]"] Cons.prems t unfolding line by auto
qed

section \<open>Properties\<close>

text \<open>C25: \<^verbatim>\<open>sdscatlen\<close> on a well-formed string writes inside the allocation (growing it when
  needed), keeps the string well-formed and appends exactly the given bytes, zero bytes included.\<close>

theorem sdscatlen_correct:
  assumes "sds_ok s" "sds_len s + length t \<le> sds_limit"
  shows "\<exists>s'. sdscatlen junk s t = Some s' \<and> sds_ok s' \<and> sds_val s' = sds_val s @ t"
  using assms by (rule sdscatlen_spec)

definition sds_example :: sdshdr where
  "sds_example = \<lparr>sds_len = 3, sds_free = 1, sds_buf = [97, 98, 99, 0, 7]\<rparr>"

lemma sds_example_ok: "sds_ok sds_example" "sds_val sds_example = [97, 98, 99]" "sds_len sds_example = 3"
  by (simp_all add: sds_example_def sds_ok_def sds_val_def)

theorem sdscatlen_correct_witness:
  "\<exists>s'. sdscatlen (\<lambda>i. 7) sds_example [0, 100] = Some s' \<and> sds_ok s' \<and> sds_val s' = [97, 98, 99, 0, 100]"
  using sdscatlen_correct [OF sds_example_ok(1), of "[0, 100]" "\<lambda>i. 7"] sds_example_ok by (simp add: sds_limit_def)

text \<open>\<^verbatim>\<open>sdsrange\<close> keeps exactly the bytes whose position lies between the two ends, in bounds
  and in place; ends are counted from the end of the string when negative, and an end before
  the first byte is the first byte.\<close>

theorem sdsrange_correct:
  assumes "sds_ok s"
  shows "\<exists>s'. sdsrange s start e = Some s' \<and> sds_ok s'
    \<and> sds_val s' = nths (sds_val s) {i. range_end (sds_len s) start \<le> int i \<and> int i \<le> range_end (sds_len s) e}"
  using assms by (rule sdsrange_spec)

theorem sdsrange_correct_witness:
  "\<exists>s'. sdsrange sds_example (- 2) 5 = Some s' \<and> sds_ok s' \<and> sds_val s' = [98, 99]"
proof -
  have "{i. range_end 3 (- 2) \<le> int i \<and> int i \<le> range_end 3 5} = {1, 2, 3, 4, 5}"
    by (auto simp: range_end_def)
  then show ?thesis
    using sdsrange_correct [OF sds_example_ok(1), of "- 2" 5] sds_example_ok by (simp add: nths_Cons)
qed

text \<open>\<^verbatim>\<open>sdstrim\<close> removes the longest prefix and the longest suffix of bytes of the set (a zero byte
  always counts as one of them) and nothing in between.\<close>

theorem sdstrim_correct:
  assumes "sds_ok s"
  shows "\<exists>s'. sdstrim s cset = Some s' \<and> sds_ok s' \<and> sds_val s' = strip (strchr cset) (sds_val s)"
  using assms by (rule sdstrim_spec)

theorem sdstrim_correct_witness:
  "\<exists>s'. sdstrim sds_example [99, 97, 0] = Some s' \<and> sds_ok s' \<and> sds_val s' = [98]"
  using sdstrim_correct [OF sds_example_ok(1), of "[99, 97, 0]"] sds_example_ok
  by (simp add: strip_def strchr_def)

text \<open>C26: \<^verbatim>\<open>sdscatfmt\<close> appends the literal bytes of the format and the notation of every argument,
  within the allocation and without losing the terminator, for every format whose conversions
  have arguments of their type and that does not end in a percent sign.\<close>

theorem sdscatfmt_correct:
  assumes "sds_ok s" "0 \<notin> set f" "fmt_repr f args = Some x" "sds_len s + length x < sds_limit"
  shows "\<exists>s'. sdscatfmt junk s (f @ [0]) args = Some s' \<and> sds_ok s' \<and> sds_val s' = sds_val s @ x"
  using assms by (rule sdscatfmt_spec)

theorem sdscatfmt_correct_witness:
  "\<exists>s'. sdscatfmt (\<lambda>i. 7) sds_example (bytes ''=%i%%'' @ [0]) [FInt (- 42)] = Some s' \<and> sds_ok s'
    \<and> sds_val s' = bytes ''abc=-42%''"
proof -
  have "fmt_repr (bytes ''=%i%%'') [FInt (- 42)] = Some (bytes ''=-42%'')"
    by (simp add: bytes_def is_conv_def ll_repr_def dec_two)
  from sdscatfmt_correct [OF sds_example_ok(1) _ this, of "\<lambda>i. 7"] show ?thesis
    using sds_example_ok by (simp add: bytes_def sds_limit_def)
qed

text \<open>On a format that ends in a percent sign \<^verbatim>\<open>sdscatfmt\<close> steps over the terminator of the
  format and reads behind it.\<close>

theorem sdscatfmt_percent_end:
  "sdscatfmt junk s [ch CHR ''%'', 0] args = None"
  by (auto simp: sdscatfmt_def is_conv_def Let_def split: bind_splits)

text \<open>C27: Splitting a non-empty string without zero bytes at a separator and joining the tokens with
  it again gives the string back; no token contains the separator, and the token array is never
  written outside.\<close>

theorem sdssplit_join:
  assumes "s \<noteq> []" "sep \<noteq> []" "0 \<notin> set s" "0 \<notin> set sep" "length s \<le> sds_limit"
  shows "\<exists>tokens r. sdssplitlen junk s sep = Some (Some tokens) \<and> (\<forall>t\<in>set tokens. no_sep sep (sds_val t))
     \<and> sdsjoin junk (map sds_buf tokens) (sep @ [0]) = Some r \<and> sds_ok r \<and> sds_val r = s"
proof -
  have "length s < 2 ^ 32" using assms(5) by (simp add: sds_limit_def)
  then obtain tokens where t: "sdssplitlen junk s sep = Some (Some tokens)"
      "\<forall>t\<in>set tokens. sds_ok t \<and> no_sep sep (sds_val t)" "intersperse sep (map sds_val tokens) = s"
    using sdssplitlen_spec [OF assms(1,2)] by blast
  have sub: "set (sds_val t) \<subseteq> set s" if "t \<in> set tokens" for t
  proof -
    have "x \<in> set ts \<Longrightarrow> set x \<subseteq> set (intersperse sep ts)" for x ts
      by (induction sep ts rule: intersperse.induct) auto
    then show ?thesis using that t(3) by (metis image_eqI list.set_map)
  qed
  define f where "f a = takeWhile (\<lambda>x. x \<noteq> 0) a" for a :: "u8 list"
  have f: "\<exists>r. sds_buf t = f (sds_buf t) @ 0 # r \<and> 0 \<notin> set (f (sds_buf t))" "f (sds_buf t) = sds_val t"
    if "t \<in> set tokens" for t
  proof -
    obtain r where r: "sds_buf t = sds_val t @ 0 # r" using sds_buf_terminated t(2) \<open>t \<in> set tokens\<close> by blast
    moreover have "0 \<notin> set (sds_val t)" using sub that assms(3) by blast
    ultimately show "f (sds_buf t) = sds_val t"
      unfolding f_def r by (subst takeWhile_append2) auto
    then show "\<exists>r. sds_buf t = f (sds_buf t) @ 0 # r \<and> 0 \<notin> set (f (sds_buf t))"
      using r \<open>0 \<notin> set (sds_val t)\<close> by auto
  qed
  have m: "map f (map sds_buf tokens) = map sds_val tokens" using f(2) by simp
  have "\<forall>a\<in>set (map sds_buf tokens). \<exists>r. a = f a @ 0 # r \<and> 0 \<notin> set (f a)" using f(1) by auto
  moreover have "length (intersperse sep (map f (map sds_buf tokens))) \<le> sds_limit"
    unfolding m using t(3) assms(5) by simp
  ultimately obtain r where "sdsjoin junk (map sds_buf tokens) (sep @ [0]) = Some r" "sds_ok r" "sds_val r = s"
    using sdsjoin_spec [OF assms(4), of "map sds_buf tokens" f junk "[]"] unfolding m t(3) by blast
  then show ?thesis using t by blast
qed

theorem sdssplit_join_witness:
  "\<exists>tokens r. sdssplitlen (\<lambda>i. 7) (bytes ''a--b'') (bytes ''--'') = Some (Some tokens)
     \<and> sdsjoin (\<lambda>i. 7) (map sds_buf tokens) (bytes ''--'' @ [0]) = Some r \<and> sds_val r = bytes ''a--b''"
  using sdssplit_join [of "bytes ''a--b''" "bytes ''--''" "\<lambda>i. 7"] by (auto simp: bytes_def sds_limit_def)

text \<open>C28: \<^verbatim>\<open>sdssplitargs\<close> reads back what \<^verbatim>\<open>sdscatrepr\<close> prints: the quoted notation of any byte string,
  with zero bytes, quotes and control characters, is one argument equal to it.\<close>

theorem sdssplitargs_catrepr:
  assumes "sds_ok s" "sds_val s = []" "4 * length p + 2 \<le> sds_limit"
  shows "\<exists>r tok. sdscatrepr junk s p = Some r \<and> sdssplitargs junk (sds_buf r) [] = Some (Some [tok])
     \<and> sds_ok tok \<and> sds_val tok = p"
proof -
  have "sds_len s = 0" using assms(1,2) length_sds_val by fastforce
  then obtain r where r: "sdscatrepr junk s p = Some r" "sds_ok r" "sds_val r = quoted p"
    using sdscatrepr_spec [OF assms(1), of p junk] assms(2,3) by auto
  obtain q where q: "sds_buf r = quoted p @ 0 # q" using sds_buf_terminated [OF r(2)] r(3) by auto
  have "\<forall>x\<in>set [p]. length x \<le> sds_limit" using assms(3) by simp
  from sdssplitargs_quoted [OF this, of junk q "[]"]
  obtain toks where "sdssplitargs junk (quoted p @ 0 # q) [] = Some (Some toks)"
      "map sds_val toks = [p]" "\<forall>t\<in>set toks. sds_ok t" by auto
  then show ?thesis using r(1) q by auto
qed

theorem sdssplitargs_catrepr_witness:
  "\<exists>r tok. sdscatrepr (\<lambda>i. 7) \<lparr>sds_len = 0, sds_free = 0, sds_buf = [0]\<rparr> [0, 34, 10, 255] = Some r
     \<and> sdssplitargs (\<lambda>i. 7) (sds_buf r) [] = Some (Some [tok]) \<and> sds_val tok = [0, 34, 10, 255]"
  using sdssplitargs_catrepr [of "\<lparr>sds_len = 0, sds_free = 0, sds_buf = [0]\<rparr>" "[0, 34, 10, 255]" "\<lambda>i. 7"]
  by (auto simp: sds_ok_def sds_val_def sds_limit_def)

end
