(* ===== verification/Dict.thy ===== *)
theory Dict
  imports Interfaces "HOL-Library.Multiset"
begin

unbundle bit_operations_syntax

text \<open>
  The hash tables of \<^verbatim>\<open>dict.c\<close> with incremental rehashing. A chain of entries is the list of its keys
  and values in the order of the \<^verbatim>\<open>next\<close> pointers, a table the list of its chains (the empty list
  stands for a NULL table); an access outside a table is \<open>None\<close>, as is a failed assertion.
  The hash function is the parameter \<open>hash\<close>; keys are equal when the comparison function of the
  dictionary type says so. Duplication and release of keys and values are left out: they do not
  touch the tables. \<open>can_resize\<close> is the global flag that forks of the server clear.

  \<open>dict_ok\<close> is the invariant of both tables and of the rehashing index and \<open>dict_map\<close> the map
  that the dictionary stands for. Every operation keeps the invariant and acts on the map as its
  name says, whatever the state of the rehashing.
\<close>

section \<open>Tables\<close>

type_synonym ('k, 'v) chain = "('k \<times> 'v) list"

record ('k, 'v) dictht =
  ht_table :: "('k, 'v) chain list"
  ht_size :: nat
  ht_sizemask :: nat
  ht_used :: nat

record ('k, 'v) dict =
  ht0 :: "('k, 'v) dictht"
  ht1 :: "('k, 'v) dictht"
  rehashidx :: int
  iterators :: nat

definition DICT_HT_INITIAL_SIZE :: nat where
  "DICT_HT_INITIAL_SIZE = 4"

definition dict_force_resize_ratio :: nat where
  "dict_force_resize_ratio = 5"

definition LONG_MAX :: nat where
  "LONG_MAX = 2 ^ 63 - 1"

definition dictIsRehashing :: "('k, 'v) dict \<Rightarrow> bool" where
  "dictIsRehashing d \<longleftrightarrow> rehashidx d \<noteq> - 1"

definition dictSize :: "('k, 'v) dict \<Rightarrow> nat" where
  "dictSize d = ht_used (ht0 d) + ht_used (ht1 d)"

definition dictReset :: "('k, 'v) dictht" where
  "dictReset = \<lparr>ht_table = [], ht_size = 0, ht_sizemask = 0, ht_used = 0\<rparr>"

definition dictCreate :: "('k, 'v) dict" where
  "dictCreate = \<lparr>ht0 = dictReset, ht1 = dictReset, rehashidx = - 1, iterators = 0\<rparr>"

text \<open>The slot of a hash value: an \<^verbatim>\<open>unsigned int\<close> and an \<^verbatim>\<open>unsigned long\<close> mask.\<close>

definition slot :: "nat \<Rightarrow> u32 \<Rightarrow> nat" where
  "slot m h = unat ((ucast h :: u64) AND of_nat m)"

definition chain_at :: "('k, 'v) dictht \<Rightarrow> nat \<Rightarrow> ('k, 'v) chain option" where
  "chain_at ht i = (if i < length (ht_table ht) then Some (ht_table ht ! i) else None)"

definition set_chain :: "nat \<Rightarrow> ('k, 'v) chain \<Rightarrow> ('k, 'v) dictht \<Rightarrow> ('k, 'v) dictht option" where
  "set_chain i c ht = (if i < length (ht_table ht) then Some (ht\<lparr>ht_table := (ht_table ht)[i := c]\<rparr>) else None)"

section \<open>Resizing\<close>

text \<open>The loop starts at 4 and doubles; at zero, which it never is, it would not end.\<close>

function dictNextPower_loop :: "nat \<Rightarrow> nat \<Rightarrow> nat" where
  "dictNextPower_loop i sz = (if i \<ge> sz \<or> i = 0 then i else dictNextPower_loop (i * 2) sz)"
  by pat_completeness auto
termination by (relation "measure (\<lambda>(i, sz). sz - i)") auto

declare dictNextPower_loop.simps [simp del]

definition dictNextPower :: "nat \<Rightarrow> nat" where
  "dictNextPower sz = (if sz \<ge> LONG_MAX then LONG_MAX else dictNextPower_loop DICT_HT_INITIAL_SIZE sz)"

text \<open>The flag of the results is \<^verbatim>\<open>DICT_OK\<close>.\<close>

definition dictExpand :: "('k, 'v) dict \<Rightarrow> nat \<Rightarrow> ('k, 'v) dict \<times> bool" where
  "dictExpand d sz =
     (let realsize = dictNextPower sz
      in if dictIsRehashing d \<or> ht_used (ht0 d) > sz then (d, False)
         else if realsize = ht_size (ht0 d) then (d, False)
         else
           let n = \<lparr>ht_table = replicate realsize [], ht_size = realsize, ht_sizemask = realsize - 1, ht_used = 0\<rparr>
           in if ht_table (ht0 d) = [] then (d\<lparr>ht0 := n\<rparr>, True)
              else (d\<lparr>ht1 := n, rehashidx := 0\<rparr>, True))"

text \<open>The new size is computed in an \<^verbatim>\<open>int\<close>.\<close>

definition dictResize :: "bool \<Rightarrow> ('k, 'v) dict \<Rightarrow> ('k, 'v) dict \<times> bool" where
  "dictResize can_resize d =
     (if \<not> can_resize \<or> dictIsRehashing d then (d, False)
      else
        let minimal = sign_extend 4 (int (ht_used (ht0 d)));
            minimal = (if minimal < int DICT_HT_INITIAL_SIZE then int DICT_HT_INITIAL_SIZE else minimal)
        in dictExpand d (nat minimal))"

definition dictExpandIfNeeded :: "bool \<Rightarrow> ('k, 'v) dict \<Rightarrow> ('k, 'v) dict \<times> bool" where
  "dictExpandIfNeeded can_resize d =
     (if dictIsRehashing d then (d, True)
      else if ht_size (ht0 d) = 0 then dictExpand d DICT_HT_INITIAL_SIZE
      else if ht_used (ht0 d) \<ge> ht_size (ht0 d)
              \<and> (can_resize \<or> ht_used (ht0 d) div ht_size (ht0 d) > dict_force_resize_ratio)
      then dictExpand d (ht_used (ht0 d) * 2)
      else (d, True))"

section \<open>Incremental rehashing\<close>

text \<open>Moving the entries of a chain to the front of their new chains.\<close>

fun rehash_chain :: "('k \<Rightarrow> u32) \<Rightarrow> ('k, 'v) chain \<Rightarrow> ('k, 'v) dict \<Rightarrow> ('k, 'v) dict option" where
  "rehash_chain hash [] d = Some d"
| "rehash_chain hash ((k, v) # c) d =
     (let h = slot (ht_sizemask (ht1 d)) (hash k)
      in do {
        old \<leftarrow> chain_at (ht1 d) h;
        t1 \<leftarrow> set_chain h ((k, v) # old) (ht1 d);
        rehash_chain hash c
          (d\<lparr>ht0 := (ht0 d)\<lparr>ht_used := ht_used (ht0 d) - 1\<rparr>, ht1 := t1\<lparr>ht_used := ht_used t1 + 1\<rparr>\<rparr>) })"

text \<open>
  Skipping empty chains: \<open>Inl\<close> when the budget of empty visits ran out, \<open>Inr\<close> at the first
  chain with entries. The budget is an \<^verbatim>\<open>int\<close> that counts in 32 bits.
\<close>

function skip_empty ::
  "('k, 'v) dict \<Rightarrow> u32 \<Rightarrow> (('k, 'v) dict + (('k, 'v) dict \<times> u32 \<times> ('k, 'v) chain)) option" where
  "skip_empty d ev =
     (case chain_at (ht0 d) (nat (rehashidx d)) of
        None \<Rightarrow> None
      | Some [] \<Rightarrow>
          let d' = d\<lparr>rehashidx := rehashidx d + 1\<rparr>
          in if rehashidx d < 0 then None else if ev - 1 = 0 then Some (Inl d') else skip_empty d' (ev - 1)
      | Some (e # c) \<Rightarrow> Some (Inr (d, ev, e # c)))"
  by pat_completeness auto
termination
  by (relation "measure (\<lambda>(d, _). length (ht_table (ht0 d)) - nat (rehashidx d))")
    (auto simp: chain_at_def nat_add_distrib split: if_splits)

declare skip_empty.simps [simp del]

definition rehash_finish :: "('k, 'v) dict \<Rightarrow> ('k, 'v) dict \<times> bool" where
  "rehash_finish d =
     (if ht_used (ht0 d) = 0 then (d\<lparr>ht0 := ht1 d, ht1 := dictReset, rehashidx := - 1\<rparr>, False)
      else (d, True))"

fun dictRehash_loop :: "('k \<Rightarrow> u32) \<Rightarrow> nat \<Rightarrow> u32 \<Rightarrow> ('k, 'v) dict \<Rightarrow> (('k, 'v) dict \<times> bool) option" where
  "dictRehash_loop hash 0 ev d = Some (rehash_finish d)"
| "dictRehash_loop hash (Suc n) ev d =
     (if ht_used (ht0 d) = 0 then Some (rehash_finish d)
      else if \<not> (int (ht_size (ht0 d)) > rehashidx d) then None
      else do {
        r \<leftarrow> skip_empty d ev;
        (case r of
           Inl d1 \<Rightarrow> Some (d1, True)
         | Inr (d1, ev1, c) \<Rightarrow>
             do { d2 \<leftarrow> rehash_chain hash c d1;
                  t0 \<leftarrow> set_chain (nat (rehashidx d2)) [] (ht0 d2);
                  dictRehash_loop hash n ev1 (d2\<lparr>ht0 := t0, rehashidx := rehashidx d2 + 1\<rparr>) }) })"

text \<open>The flag of the result tells whether there are more keys to move. The argument is a positive \<^verbatim>\<open>int\<close> (the callers pass
  1 and 100) whose product with ten is the budget of empty buckets, kept as a 32 bit number that is compared with zero only.\<close>

definition dictRehash :: "('k \<Rightarrow> u32) \<Rightarrow> ('k, 'v) dict \<Rightarrow> nat \<Rightarrow> (('k, 'v) dict \<times> bool) option" where
  "dictRehash hash d n =
     (if \<not> dictIsRehashing d then Some (d, False) else dictRehash_loop hash n (of_nat n * 10) d)"

definition dictRehashStep :: "('k \<Rightarrow> u32) \<Rightarrow> ('k, 'v) dict \<Rightarrow> ('k, 'v) dict option" where
  "dictRehashStep hash d =
     (if iterators d = 0 then map_option fst (dictRehash hash d 1) else Some d)"

definition rehash_if_needed :: "('k \<Rightarrow> u32) \<Rightarrow> ('k, 'v) dict \<Rightarrow> ('k, 'v) dict option" where
  "rehash_if_needed hash d = (if dictIsRehashing d then dictRehashStep hash d else Some d)"

section \<open>Lookup, insertion and deletion\<close>

text \<open>\<open>find_in_table\<close> is the walk along the chain of a key in one table.\<close>

definition find_in_table :: "('k \<Rightarrow> u32) \<Rightarrow> ('k, 'v) dictht \<Rightarrow> 'k \<Rightarrow> 'v option option" where
  "find_in_table hash ht k = map_option (\<lambda>c. map_of c k) (chain_at ht (slot (ht_sizemask ht) (hash k)))"

definition find_in_tables :: "('k \<Rightarrow> u32) \<Rightarrow> ('k, 'v) dict \<Rightarrow> 'k \<Rightarrow> 'v option option" where
  "find_in_tables hash d k =
     do { r \<leftarrow> find_in_table hash (ht0 d) k;
          (case r of
             Some v \<Rightarrow> Some (Some v)
           | None \<Rightarrow> if \<not> dictIsRehashing d then Some None else find_in_table hash (ht1 d) k) }"

definition dictFind :: "('k \<Rightarrow> u32) \<Rightarrow> ('k, 'v) dict \<Rightarrow> 'k \<Rightarrow> (('k, 'v) dict \<times> 'v option) option" where
  "dictFind hash d k =
     (if ht_size (ht0 d) = 0 then Some (d, None)
      else do { d1 \<leftarrow> rehash_if_needed hash d;
                r \<leftarrow> find_in_tables hash d1 k;
                Some (d1, r) })"

definition dictFetchValue :: "('k \<Rightarrow> u32) \<Rightarrow> ('k, 'v) dict \<Rightarrow> 'k \<Rightarrow> (('k, 'v) dict \<times> 'v option) option" where
  "dictFetchValue hash d k = dictFind hash d k"

text \<open>The index for a new key, an \<^verbatim>\<open>unsigned int\<close> that is returned as an \<^verbatim>\<open>int\<close>; - 1 when the key exists or the
  table cannot grow. In a table of more than \<open>2\<^sup>3\<^sup>1\<close> slots the index of a new key may be negative, and - 1 too.\<close>

definition dictKeyIndex ::
  "bool \<Rightarrow> ('k \<Rightarrow> u32) \<Rightarrow> ('k, 'v) dict \<Rightarrow> 'k \<Rightarrow> (('k, 'v) dict \<times> int) option" where
  "dictKeyIndex can_resize hash d k =
     (let (d1, ok) = dictExpandIfNeeded can_resize d
      in if \<not> ok then Some (d1, - 1)
         else do {
           r \<leftarrow> find_in_tables hash d1 k;
           (case r of
              Some _ \<Rightarrow> Some (d1, - 1)
            | None \<Rightarrow> Some (d1, sign_extend 4 (int (slot (ht_sizemask (if dictIsRehashing d1 then ht1 d1 else ht0 d1)) (hash k))))) })"

text \<open>\<^verbatim>\<open>dictAddRaw\<close> followed by the store of the value, as in \<^verbatim>\<open>dictAdd\<close>. A negative index is an access in front of
  the table.\<close>

definition dictAddRaw ::
  "bool \<Rightarrow> ('k \<Rightarrow> u32) \<Rightarrow> ('k, 'v) dict \<Rightarrow> 'k \<Rightarrow> 'v \<Rightarrow> (('k, 'v) dict \<times> bool) option" where
  "dictAddRaw can_resize hash d k v =
     do { d1 \<leftarrow> rehash_if_needed hash d;
          (d2, index) \<leftarrow> dictKeyIndex can_resize hash d1 k;
          if index = - 1 then Some (d2, False)
          else if index < 0 then None
          else
            let ht = (if dictIsRehashing d2 then ht1 d2 else ht0 d2); i = nat index
            in do { c \<leftarrow> chain_at ht i;
                    t \<leftarrow> set_chain i ((k, v) # c) ht;
                    let t1 = t\<lparr>ht_used := ht_used t + 1\<rparr> in
                    Some (if dictIsRehashing d2 then d2\<lparr>ht1 := t1\<rparr> else d2\<lparr>ht0 := t1\<rparr>, True) } }"

definition dictAdd ::
  "bool \<Rightarrow> ('k \<Rightarrow> u32) \<Rightarrow> ('k, 'v) dict \<Rightarrow> 'k \<Rightarrow> 'v \<Rightarrow> (('k, 'v) dict \<times> bool) option" where
  "dictAdd can_resize hash d k v = dictAddRaw can_resize hash d k v"

fun update_chain :: "'k \<Rightarrow> 'v \<Rightarrow> ('k, 'v) chain \<Rightarrow> ('k, 'v) chain" where
  "update_chain k v [] = []"
| "update_chain k v ((k', v') # c) = (if k = k' then (k, v) # c else (k', v') # update_chain k v c)"

text \<open>The store through the entry that \<^verbatim>\<open>dictFind\<close> returned.\<close>

definition set_in_tables :: "('k \<Rightarrow> u32) \<Rightarrow> ('k, 'v) dict \<Rightarrow> 'k \<Rightarrow> 'v \<Rightarrow> ('k, 'v) dict option" where
  "set_in_tables hash d k v =
     do { r \<leftarrow> find_in_table hash (ht0 d) k;
          let ht = (if r \<noteq> None then ht0 d else ht1 d); i = slot (ht_sizemask ht) (hash k)
          in do { c \<leftarrow> chain_at ht i;
                  t \<leftarrow> set_chain i (update_chain k v c) ht;
                  Some (if r \<noteq> None then d\<lparr>ht0 := t\<rparr> else d\<lparr>ht1 := t\<rparr>) } }"

definition dictReplace ::
  "bool \<Rightarrow> ('k \<Rightarrow> u32) \<Rightarrow> ('k, 'v) dict \<Rightarrow> 'k \<Rightarrow> 'v \<Rightarrow> (('k, 'v) dict \<times> bool) option" where
  "dictReplace can_resize hash d k v =
     do { (d1, added) \<leftarrow> dictAdd can_resize hash d k v;
          if added then Some (d1, True)
          else do {
            (d2, r) \<leftarrow> dictFind hash d1 k;
            (case r of
               None \<Rightarrow> None
             | Some _ \<Rightarrow> do { d3 \<leftarrow> set_in_tables hash d2 k v; Some (d3, False) }) } }"

fun remove_key :: "'k \<Rightarrow> ('k, 'v) chain \<Rightarrow> ('k, 'v) chain" where
  "remove_key k [] = []"
| "remove_key k ((k', v') # c) = (if k = k' then c else (k', v') # remove_key k c)"

definition delete_in_table ::
  "('k \<Rightarrow> u32) \<Rightarrow> ('k, 'v) dictht \<Rightarrow> 'k \<Rightarrow> (('k, 'v) dictht \<times> bool) option" where
  "delete_in_table hash ht k =
     (let i = slot (ht_sizemask ht) (hash k)
      in do { c \<leftarrow> chain_at ht i;
              if map_of c k = None then Some (ht, False)
              else do { t \<leftarrow> set_chain i (remove_key k c) ht;
                        Some (t\<lparr>ht_used := ht_used t - 1\<rparr>, True) } })"

definition dictGenericDelete :: "('k \<Rightarrow> u32) \<Rightarrow> ('k, 'v) dict \<Rightarrow> 'k \<Rightarrow> (('k, 'v) dict \<times> bool) option" where
  "dictGenericDelete hash d k =
     (if ht_size (ht0 d) = 0 then Some (d, False)
      else do {
        d1 \<leftarrow> rehash_if_needed hash d;
        (t0, found) \<leftarrow> delete_in_table hash (ht0 d1) k;
        if found then Some (d1\<lparr>ht0 := t0\<rparr>, True)
        else if \<not> dictIsRehashing d1 then Some (d1, False)
        else do { (t1, found1) \<leftarrow> delete_in_table hash (ht1 d1) k;
                  Some (d1\<lparr>ht1 := t1\<rparr>, found1) } })"

definition dictDelete :: "('k \<Rightarrow> u32) \<Rightarrow> ('k, 'v) dict \<Rightarrow> 'k \<Rightarrow> (('k, 'v) dict \<times> bool) option" where
  "dictDelete hash d k = dictGenericDelete hash d k"

text \<open>
  \<^verbatim>\<open>_dictClear\<close> releases chain after chain while the table has entries; \<open>dictClear_loop\<close> is the
  number of entries left after it.
\<close>

fun dictClear_loop :: "nat \<Rightarrow> ('k, 'v) chain list \<Rightarrow> nat" where
  "dictClear_loop used [] = used"
| "dictClear_loop used (c # cs) = (if used > 0 then dictClear_loop (used - length c) cs else used)"

definition dictEmpty :: "('k, 'v) dict \<Rightarrow> ('k, 'v) dict" where
  "dictEmpty d = d\<lparr>ht0 := dictReset, ht1 := dictReset, rehashidx := - 1, iterators := 0\<rparr>"

section \<open>Invariant and abstraction\<close>

definition pow2_size :: "nat \<Rightarrow> bool" where
  "pow2_size n \<longleftrightarrow> (\<exists>k<64. n = 2 ^ k)"

definition ht_ok :: "('k \<Rightarrow> u32) \<Rightarrow> ('k, 'v) dictht \<Rightarrow> bool" where
  "ht_ok hash ht \<longleftrightarrow>
     ht_size ht = length (ht_table ht)
     \<and> (ht_size ht = 0 \<and> ht_sizemask ht = 0 \<or> pow2_size (ht_size ht) \<and> ht_sizemask ht = ht_size ht - 1)
     \<and> ht_used ht = length (concat (ht_table ht))
     \<and> (\<forall>i<length (ht_table ht). \<forall>e\<in>set (ht_table ht ! i). slot (ht_sizemask ht) (hash (fst e)) = i)"

definition dict_entries :: "('k, 'v) dict \<Rightarrow> ('k \<times> 'v) list" where
  "dict_entries d = concat (ht_table (ht0 d)) @ concat (ht_table (ht1 d))"

definition dict_map :: "('k, 'v) dict \<Rightarrow> 'k \<rightharpoonup> 'v" where
  "dict_map d = map_of (dict_entries d)"

definition rehash_ok :: "('k, 'v) dict \<Rightarrow> bool" where
  "rehash_ok d \<longleftrightarrow>
     (if dictIsRehashing d then
        0 \<le> rehashidx d \<and> rehashidx d \<le> int (ht_size (ht0 d)) \<and> ht_size (ht0 d) \<noteq> 0 \<and> ht_size (ht1 d) \<noteq> 0
        \<and> (\<forall>i < nat (rehashidx d). ht_table (ht0 d) ! i = [])
      else ht1 d = dictReset)"

definition dict_ok :: "('k \<Rightarrow> u32) \<Rightarrow> ('k, 'v) dict \<Rightarrow> bool" where
  "dict_ok hash d \<longleftrightarrow> ht_ok hash (ht0 d) \<and> ht_ok hash (ht1 d) \<and> distinct (map fst (dict_entries d)) \<and> rehash_ok d"

text \<open>The slots of both tables are non-negative values of an \<^verbatim>\<open>int\<close>, as the index of a new key must be.\<close>

definition indexable :: "('k, 'v) dict \<Rightarrow> bool" where
  "indexable d \<longleftrightarrow> ht_size (ht0 d) \<le> 2 ^ 31 \<and> ht_size (ht1 d) \<le> 2 ^ 31"

text \<open>With fewer entries than this a table that is doubled for them stays indexable, whatever its size was and whether or not
  resizing was switched off before.\<close>

definition dict_limit :: nat where
  "dict_limit = 2 ^ 30"

lemma slot_mod: "k < 64 \<Longrightarrow> slot (2 ^ k - 1) h = unat h mod 2 ^ k"
proof -
  assume k: "k < 64"
  have "(of_nat (2 ^ k - 1) :: u64) = mask k"
    by (simp add: mask_eq_exp_minus_1 of_nat_diff)
  then have "slot (2 ^ k - 1) h = unat (take_bit k (ucast h :: u64))"
    by (simp add: slot_def take_bit_eq_mask)
  also have "\<dots> = take_bit k (unat (ucast h :: u64))"
    by (simp add: unsigned_take_bit_eq)
  also have "unat (ucast h :: u64) = unat h"
    by (simp add: unsigned_ucast_eq take_bit_eq_mod unsigned_less order_less_le_trans [OF unsigned_less])
  finally show ?thesis by (simp add: take_bit_eq_mod)
qed

lemma slot_less: "ht_ok hash ht \<Longrightarrow> ht_size ht \<noteq> 0 \<Longrightarrow> slot (ht_sizemask ht) h < length (ht_table ht)"
proof -
  assume ok: "ht_ok hash ht" "ht_size ht \<noteq> 0"
  then obtain k where k: "k < 64" "ht_size ht = 2 ^ k" "ht_sizemask ht = 2 ^ k - 1" "length (ht_table ht) = 2 ^ k"
    by (auto simp: ht_ok_def pow2_size_def)
  show ?thesis unfolding k(3,4) slot_mod [OF k(1)] by simp
qed

lemma table_split:
  assumes "i < length t"
  obtains A B where "concat t = A @ t ! i @ B" "\<And>c. concat (t[i := c]) = A @ c @ B"
proof
  show "concat t = concat (take i t) @ t ! i @ concat (drop (Suc i) t)"
    using assms by (metis concat.simps(2) concat_append id_take_nth_drop)
  show "concat (t[i := c]) = concat (take i t) @ c @ concat (drop (Suc i) t)" for c
    using assms by (simp add: upd_conv_take_nth_drop)
qed

lemma map_of_perm:
  assumes "distinct (map fst xs)" "mset xs = mset ys"
  shows "map_of xs = map_of ys"
proof -
  have "distinct (map fst ys)" using assms by (metis mset_map mset_eq_imp_distinct_iff)
  moreover have "set xs = set ys" using assms(2) by (metis mset_eq_setD)
  ultimately show ?thesis using assms(1) by (simp add: map_of_inject_set)
qed

lemma distinct_perm: "distinct (map fst xs) \<Longrightarrow> mset xs = mset ys \<Longrightarrow> distinct (map fst ys)"
  by (metis mset_map mset_eq_imp_distinct_iff)

text \<open>A key can only be in the chain of its slot.\<close>

lemma key_in_slot:
  assumes "ht_ok hash ht" "ht_size ht \<noteq> 0"
  shows "map_of (concat (ht_table ht)) k = map_of (ht_table ht ! slot (ht_sizemask ht) (hash k)) k"
proof -
  let ?i = "slot (ht_sizemask ht) (hash k)" and ?t = "ht_table ht"
  have i: "?i < length ?t" using slot_less [OF assms] .
  have other: "k \<notin> fst ` set (?t ! j)" if "j < length ?t" "j \<noteq> ?i" for j
    using assms(1) that by (auto simp: ht_ok_def)
  have "\<forall>c\<in>set (take ?i ?t). k \<notin> fst ` set c" "\<forall>c\<in>set (drop (Suc ?i) ?t). k \<notin> fst ` set c"
  proof -
    show "\<forall>c\<in>set (take ?i ?t). k \<notin> fst ` set c"
    proof
      fix c
      assume "c \<in> set (take ?i ?t)"
      then obtain j where "c = ?t ! j" "j < ?i" by (auto simp: in_set_conv_nth)
      then show "k \<notin> fst ` set c" using other [of j] i by simp
    qed
    show "\<forall>c\<in>set (drop (Suc ?i) ?t). k \<notin> fst ` set c"
    proof
      fix c
      assume "c \<in> set (drop (Suc ?i) ?t)"
      then obtain j where "c = ?t ! (Suc ?i + j)" "Suc ?i + j < length ?t"
        by (auto simp: in_set_conv_nth)
      then show "k \<notin> fst ` set c" using other [of "Suc ?i + j"] by simp
    qed
  qed
  then have "map_of (concat (take ?i ?t)) k = None" "map_of (concat (drop (Suc ?i) ?t)) k = None"
    by (force simp: map_of_eq_None_iff)+
  moreover have "concat ?t = concat (take ?i ?t) @ ?t ! ?i @ concat (drop (Suc ?i) ?t)"
    using i by (metis concat.simps(2) concat_append id_take_nth_drop)
  ultimately show ?thesis by (simp add: map_add_def split: option.splits)
qed

lemma find_in_table_spec:
  assumes "ht_ok hash ht" "ht_size ht \<noteq> 0"
  shows "find_in_table hash ht k = Some (map_of (concat (ht_table ht)) k)"
  using key_in_slot [OF assms] slot_less [OF assms] by (simp add: find_in_table_def chain_at_def)

lemma find_in_tables_spec:
  assumes "dict_ok hash d" "ht_size (ht0 d) \<noteq> 0"
  shows "find_in_tables hash d k = Some (dict_map d k)"
proof -
  have ok: "ht_ok hash (ht0 d)" "ht_ok hash (ht1 d)" using assms by (auto simp: dict_ok_def)
  have dj: "map_of (concat (ht_table (ht0 d))) k = Some v \<Longrightarrow> map_of (concat (ht_table (ht1 d))) k = None" for v
    using assms(1) by (force simp: dict_ok_def dict_entries_def map_of_eq_None_iff dest: map_of_SomeD)
  show ?thesis
  proof (cases "dictIsRehashing d")
    case True
    then have "ht_size (ht1 d) \<noteq> 0" using assms(1) by (simp add: dict_ok_def rehash_ok_def)
    then show ?thesis using True find_in_table_spec [OF ok(1) assms(2)] find_in_table_spec [OF ok(2)] dj
      by (auto simp: find_in_tables_def dict_map_def dict_entries_def map_add_def split: option.splits)
  next
    case False
    then have "ht1 d = dictReset" using assms(1) by (simp add: dict_ok_def rehash_ok_def)
    then show ?thesis using False find_in_table_spec [OF ok(1) assms(2)]
      by (auto simp: find_in_tables_def dict_map_def dict_entries_def dictReset_def split: option.splits)
  qed
qed

section \<open>Updates of one table\<close>

lemma set_chain_ok:
  assumes "ht_ok hash ht" "i < length (ht_table ht)"
    and "\<forall>e\<in>set c. slot (ht_sizemask ht) (hash (fst e)) = i"
    and "u = ht_used ht + length c - length (ht_table ht ! i)"
  shows "\<exists>t. set_chain i c ht = Some t \<and> ht_ok hash (t\<lparr>ht_used := u\<rparr>)
    \<and> ht_table t = (ht_table ht)[i := c] \<and> ht_used t = ht_used ht \<and> ht_size t = ht_size ht \<and> ht_sizemask t = ht_sizemask ht"
proof -
  obtain A B where ab: "concat (ht_table ht) = A @ ht_table ht ! i @ B" "\<And>c. concat ((ht_table ht)[i := c]) = A @ c @ B"
    using table_split [OF assms(2)] by blast
  show ?thesis using assms ab
    by (auto simp: set_chain_def ht_ok_def nth_list_update)
qed

lemma push_chain:
  assumes "ht_ok hash ht" "ht_size ht \<noteq> 0" "i = slot (ht_sizemask ht) (hash k)"
  shows "\<exists>c t. chain_at ht i = Some c \<and> set_chain i ((k, v) # c) ht = Some t
    \<and> ht_ok hash (t\<lparr>ht_used := ht_used t + 1\<rparr>) \<and> mset (concat (ht_table t)) = add_mset (k, v) (mset (concat (ht_table ht)))
    \<and> ht_used t = ht_used ht \<and> ht_size t = ht_size ht \<and> ht_sizemask t = ht_sizemask ht"
proof -
  have i: "i < length (ht_table ht)" using slot_less [OF assms(1,2)] assms(3) by simp
  let ?c = "ht_table ht ! i"
  have "\<forall>e\<in>set ((k, v) # ?c). slot (ht_sizemask ht) (hash (fst e)) = i"
    using assms(1,3) i by (auto simp: ht_ok_def)
  then obtain t where t: "set_chain i ((k, v) # ?c) ht = Some t" "ht_ok hash (t\<lparr>ht_used := ht_used ht + 1\<rparr>)"
      "ht_table t = (ht_table ht)[i := (k, v) # ?c]" "ht_used t = ht_used ht" "ht_size t = ht_size ht" "ht_sizemask t = ht_sizemask ht"
    using set_chain_ok [OF assms(1) i, of "(k, v) # ?c" "ht_used ht + 1"] by auto
  obtain A B where "concat (ht_table ht) = A @ ?c @ B" "\<And>c. concat ((ht_table ht)[i := c]) = A @ c @ B"
    using table_split [OF i] by blast
  then show ?thesis using t i by (auto simp: chain_at_def)
qed

section \<open>Rehashing keeps the map\<close>

lemma rehash_chain_spec:
  "ht_ok hash (ht1 d) \<Longrightarrow> ht_size (ht1 d) \<noteq> 0 \<Longrightarrow>
   \<exists>t1. rehash_chain hash c d = Some (d\<lparr>ht0 := (ht0 d)\<lparr>ht_used := ht_used (ht0 d) - length c\<rparr>, ht1 := t1\<rparr>)
     \<and> ht_ok hash t1 \<and> ht_size t1 = ht_size (ht1 d) \<and> mset (concat (ht_table t1)) = mset c + mset (concat (ht_table (ht1 d)))"
proof (induction c arbitrary: d)
  case Nil
  then show ?case by (intro exI [of _ "ht1 d"]) simp
next
  case (Cons e c)
  obtain k v where e: "e = (k, v)" by (cases e)
  obtain old t where t: "chain_at (ht1 d) (slot (ht_sizemask (ht1 d)) (hash k)) = Some old"
      "set_chain (slot (ht_sizemask (ht1 d)) (hash k)) ((k, v) # old) (ht1 d) = Some t"
      "ht_ok hash (t\<lparr>ht_used := ht_used t + 1\<rparr>)"
      "mset (concat (ht_table t)) = add_mset (k, v) (mset (concat (ht_table (ht1 d))))" "ht_size t = ht_size (ht1 d)"
    using push_chain [OF Cons.prems refl, of k v] by blast
  define d1 where "d1 = d\<lparr>ht0 := (ht0 d)\<lparr>ht_used := ht_used (ht0 d) - 1\<rparr>, ht1 := t\<lparr>ht_used := ht_used t + 1\<rparr>\<rparr>"
  obtain t1 where "rehash_chain hash c d1 = Some (d1\<lparr>ht0 := (ht0 d1)\<lparr>ht_used := ht_used (ht0 d1) - length c\<rparr>, ht1 := t1\<rparr>)"
      "ht_ok hash t1" "ht_size t1 = ht_size (ht1 d1)" "mset (concat (ht_table t1)) = mset c + mset (concat (ht_table (ht1 d1)))"
    using Cons.IH [of d1] t Cons.prems by (auto simp: d1_def)
  then show ?case using t by (auto simp: e d1_def)
qed

lemma dict_ok_simps:
  assumes "dict_ok hash d" "dictIsRehashing d"
  shows "ht_ok hash (ht0 d)" "ht_ok hash (ht1 d)" "0 \<le> rehashidx d" "rehashidx d \<le> int (length (ht_table (ht0 d)))"
    "ht_size (ht0 d) = length (ht_table (ht0 d))" "ht_size (ht0 d) \<noteq> 0" "ht_size (ht1 d) \<noteq> 0" "\<forall>i < nat (rehashidx d). ht_table (ht0 d) ! i = []"
    "ht_used (ht0 d) = length (concat (ht_table (ht0 d)))"
  using assms by (auto simp: dict_ok_def rehash_ok_def ht_ok_def)

text \<open>A state in which the rehashing can go on, and what a step keeps.\<close>

definition rehashing :: "('k \<Rightarrow> u32) \<Rightarrow> ('k, 'v) dict \<Rightarrow> bool" where
  "rehashing hash d \<longleftrightarrow> dict_ok hash d \<and> dictIsRehashing d"

lemma rehashingD:
  assumes "rehashing hash d"
  shows "dict_ok hash d" "dictIsRehashing d"
  using assms by (auto simp: rehashing_def)

lemma skip_index:
  assumes "rehashing hash d" "chain_at (ht0 d) (nat (rehashidx d)) = Some []"
  shows "rehashing hash (d\<lparr>rehashidx := rehashidx d + 1\<rparr>)" "dict_map (d\<lparr>rehashidx := rehashidx d + 1\<rparr>) = dict_map d"
proof -
  note ok = dict_ok_simps [OF rehashingD [OF assms(1)]]
  have idx: "nat (rehashidx d) < length (ht_table (ht0 d))" "ht_table (ht0 d) ! nat (rehashidx d) = []"
    using assms(2) by (auto simp: chain_at_def split: if_splits)
  have "i = nat (rehashidx d) \<or> i < nat (rehashidx d)" if "i < nat (rehashidx d + 1)" for i using that by linarith
  then have empty: "\<forall>i < nat (rehashidx d + 1). ht_table (ht0 d) ! i = []" using ok(8) idx(2) by blast
  have le: "rehashidx d + 1 \<le> int (ht_size (ht0 d))" using idx(1) ok(3,5) by linarith
  have ne: "rehashidx d + 1 \<noteq> - 1" using ok(3) by linarith
  have "distinct (map fst (dict_entries d))" using rehashingD [OF assms(1)] by (simp add: dict_ok_def)
  then show "rehashing hash (d\<lparr>rehashidx := rehashidx d + 1\<rparr>)"
    using ok(1-3,6,7) empty le ne by (simp add: rehashing_def dict_ok_def rehash_ok_def dictIsRehashing_def dict_entries_def)
  show "dict_map (d\<lparr>rehashidx := rehashidx d + 1\<rparr>) = dict_map d" by (simp add: dict_map_def dict_entries_def)
qed

lemma skip_empty_spec:
  assumes "rehashing hash d" "ht_used (ht0 d) \<noteq> 0"
  shows "(\<exists>d1. skip_empty d ev = Some (Inl d1) \<and> rehashing hash d1 \<and> dict_map d1 = dict_map d \<and> rehashidx d < rehashidx d1
            \<and> ht0 d1 = ht0 d \<and> iterators d1 = iterators d)
    \<or> (\<exists>d1 ev1 c. skip_empty d ev = Some (Inr (d1, ev1, c)) \<and> rehashing hash d1 \<and> dict_map d1 = dict_map d
            \<and> rehashidx d \<le> rehashidx d1 \<and> ht0 d1 = ht0 d \<and> iterators d1 = iterators d
            \<and> chain_at (ht0 d1) (nat (rehashidx d1)) = Some c \<and> c \<noteq> [])"
  using assms
proof (induction d ev rule: skip_empty.induct)
  case (1 d ev)
  note ok = dict_ok_simps [of hash d] and reh = "1.prems"(1) [unfolded rehashing_def]
  have "nat (rehashidx d) < length (ht_table (ht0 d))"
  proof (rule ccontr)
    assume "\<not> ?thesis"
    then have "\<forall>c\<in>set (ht_table (ht0 d)). c = []" using ok(8) reh by (fastforce simp: in_set_conv_nth)
    then have "concat (ht_table (ht0 d)) = []" by simp
    then show False using "1.prems"(2) ok(9) reh by simp
  qed
  then obtain c where c: "chain_at (ht0 d) (nat (rehashidx d)) = Some c" by (simp add: chain_at_def)
  show ?case
  proof (cases c)
    case (Cons e c')
    then show ?thesis using c "1.prems"(1) by (subst skip_empty.simps) auto
  next
    case Nil
    let ?d = "d\<lparr>rehashidx := rehashidx d + 1\<rparr>"
    have nn: "\<not> rehashidx d < 0" using ok(3) reh by simp
    note sk = skip_index [OF "1.prems"(1) c [unfolded Nil]]
    show ?thesis
    proof (cases "ev - 1 = 0")
      case True
      then show ?thesis using c Nil nn sk by (subst (1 2) skip_empty.simps) auto
    next
      case False
      then have "skip_empty d ev = skip_empty ?d (ev - 1)"
        using c Nil nn by (subst skip_empty.simps) simp
      then show ?thesis using "1.IH" [OF c Nil refl nn False sk(1)] "1.prems"(2) sk(2) by auto
    qed
  qed
qed

lemma move_chain:
  assumes "rehashing hash d" "chain_at (ht0 d) (nat (rehashidx d)) = Some c"
  shows "\<exists>d2 t0. rehash_chain hash c d = Some d2 \<and> set_chain (nat (rehashidx d2)) [] (ht0 d2) = Some t0
    \<and> rehashing hash (d2\<lparr>ht0 := t0, rehashidx := rehashidx d2 + 1\<rparr>)
    \<and> dict_map (d2\<lparr>ht0 := t0, rehashidx := rehashidx d2 + 1\<rparr>) = dict_map d
    \<and> rehashidx d2 = rehashidx d \<and> iterators d2 = iterators d \<and> ht_size t0 = ht_size (ht0 d)"
proof -
  note ok = dict_ok_simps [OF rehashingD [OF assms(1)]]
  let ?i = "nat (rehashidx d)" and ?t = "ht_table (ht0 d)"
  have idx: "?i < length ?t" "?t ! ?i = c" using assms(2) by (auto simp: chain_at_def split: if_splits)
  obtain A B where ab: "concat ?t = A @ c @ B" "concat (?t[?i := []]) = A @ B"
    using table_split [OF idx(1)] idx(2) by (metis append_Nil)
  define h0 where "h0 = (ht0 d)\<lparr>ht_used := ht_used (ht0 d) - length c, ht_table := ?t[?i := []]\<rparr>"
  obtain t1 where t1: "rehash_chain hash c d = Some (d\<lparr>ht0 := (ht0 d)\<lparr>ht_used := ht_used (ht0 d) - length c\<rparr>, ht1 := t1\<rparr>)"
      "ht_ok hash t1" "ht_size t1 = ht_size (ht1 d)" "mset (concat (ht_table t1)) = mset c + mset (concat (ht_table (ht1 d)))"
    using rehash_chain_spec [OF ok(2,7)] by blast
  define d3 where "d3 = d\<lparr>ht1 := t1, ht0 := h0, rehashidx := rehashidx d + 1\<rparr>"
  have h0: "ht_ok hash h0" using ok(1) idx(1) ab unfolding ht_ok_def h0_def by (auto simp: nth_list_update)
  have ms: "mset (dict_entries d) = mset (dict_entries d3)"
    using ab t1(4) by (simp add: dict_entries_def d3_def h0_def)
  have dis: "distinct (map fst (dict_entries d))" using rehashingD(1) [OF assms(1)] by (simp add: dict_ok_def)
  have "i = ?i \<or> i < ?i" if "i < nat (rehashidx d + 1)" for i using that by linarith
  then have empty: "\<forall>i < nat (rehashidx d + 1). ht_table h0 ! i = []"
    using ok(8) idx(1) by (auto simp: h0_def nth_list_update)
  have "rehashidx d + 1 \<le> int (ht_size h0)" "rehashidx d + 1 \<noteq> - 1" using idx(1) ok(3,5) by (auto simp: h0_def)
  then have "rehashing hash d3"
    using h0 t1(2,3) ok(3,6,7) empty distinct_perm [OF dis ms]
    by (simp add: rehashing_def dict_ok_def rehash_ok_def dictIsRehashing_def d3_def h0_def)
  moreover have "dict_map d3 = dict_map d" using map_of_perm [OF dis ms] by (simp add: dict_map_def)
  moreover have "set_chain ?i [] ((ht0 d)\<lparr>ht_used := ht_used (ht0 d) - length c\<rparr>) = Some h0"
    using idx(1) by (simp add: set_chain_def h0_def)
  ultimately show ?thesis using t1(1) by (simp add: d3_def h0_def)
qed

lemma rehash_finish_spec:
  assumes "rehashing hash d"
  shows "dict_ok hash (fst (rehash_finish d))" "dict_map (fst (rehash_finish d)) = dict_map d"
    "snd (rehash_finish d) = dictIsRehashing (fst (rehash_finish d))" "ht_size (ht0 (fst (rehash_finish d))) \<noteq> 0"
    "iterators (fst (rehash_finish d)) = iterators d" "snd (rehash_finish d) \<Longrightarrow> fst (rehash_finish d) = d"
proof -
  note ok = dict_ok_simps [OF rehashingD [OF assms]]
  let ?d = "d\<lparr>ht0 := ht1 d, ht1 := dictReset, rehashidx := - 1\<rparr>"
  have en: "dict_entries ?d = dict_entries d" if "ht_used (ht0 d) = 0"
  proof -
    have e: "concat (ht_table (ht0 d)) = []" using that ok(9) by (metis length_0_conv)
    show ?thesis unfolding dict_entries_def e by (simp add: dictReset_def)
  qed
  have "ht_ok hash dictReset" by (simp add: ht_ok_def dictReset_def)
  then show "dict_ok hash (fst (rehash_finish d))" "dict_map (fst (rehash_finish d)) = dict_map d"
    "snd (rehash_finish d) = dictIsRehashing (fst (rehash_finish d))" "ht_size (ht0 (fst (rehash_finish d))) \<noteq> 0"
    "iterators (fst (rehash_finish d)) = iterators d" "snd (rehash_finish d) \<Longrightarrow> fst (rehash_finish d) = d"
    using rehashingD [OF assms] ok(2,6,7) en
    by (auto simp: rehash_finish_def dict_ok_def rehash_ok_def dictIsRehashing_def dict_map_def)
qed

lemma dictRehash_loop_spec:
  "rehashing hash d \<Longrightarrow>
   \<exists>d' more. dictRehash_loop hash n ev d = Some (d', more) \<and> dict_ok hash d' \<and> dict_map d' = dict_map d
     \<and> more = dictIsRehashing d' \<and> ht_size (ht0 d') \<noteq> 0 \<and> iterators d' = iterators d
     \<and> (more \<longrightarrow> ht_size (ht0 d') = ht_size (ht0 d) \<and> (if n = 0 then rehashidx d \<le> rehashidx d' else rehashidx d < rehashidx d'))"
proof (induction n arbitrary: ev d)
  case 0
  then show ?case using rehash_finish_spec [OF 0] by (cases "rehash_finish d") auto
next
  case (Suc n)
  note ok = dict_ok_simps [OF rehashingD [OF Suc.prems]]
  show ?case
  proof (cases "ht_used (ht0 d) = 0")
    case True
    then show ?thesis using rehash_finish_spec [OF Suc.prems] by (auto simp: rehash_finish_def)
  next
    case used: False
    have idx: "rehashidx d < int (ht_size (ht0 d))"
    proof (rule ccontr)
      assume "\<not> ?thesis"
      then have "\<forall>c\<in>set (ht_table (ht0 d)). c = []" using ok(5,8) by (fastforce simp: in_set_conv_nth)
      then have "concat (ht_table (ht0 d)) = []" by simp
      then show False using used ok(9) by simp
    qed
    from skip_empty_spec [OF Suc.prems used, of ev] show ?thesis
    proof (elim disjE exE conjE)
      fix d1
      assume "skip_empty d ev = Some (Inl d1)" "rehashing hash d1" "dict_map d1 = dict_map d" "rehashidx d < rehashidx d1"
        "ht0 d1 = ht0 d" "iterators d1 = iterators d"
      then show ?thesis using used idx ok(6) by (auto simp: rehashing_def)
    next
      fix d1 ev1 c
      assume a: "skip_empty d ev = Some (Inr (d1, ev1, c))" "rehashing hash d1" "dict_map d1 = dict_map d" "rehashidx d \<le> rehashidx d1"
        "ht0 d1 = ht0 d" "iterators d1 = iterators d" "chain_at (ht0 d1) (nat (rehashidx d1)) = Some c"
      obtain d2 t0 where m: "rehash_chain hash c d1 = Some d2" "set_chain (nat (rehashidx d2)) [] (ht0 d2) = Some t0"
        "rehashing hash (d2\<lparr>ht0 := t0, rehashidx := rehashidx d2 + 1\<rparr>)"
        "dict_map (d2\<lparr>ht0 := t0, rehashidx := rehashidx d2 + 1\<rparr>) = dict_map d1"
        "rehashidx d2 = rehashidx d1" "iterators d2 = iterators d1" "ht_size t0 = ht_size (ht0 d1)"
        using move_chain [OF a(2,7)] by blast
      let ?d3 = "d2\<lparr>ht0 := t0, rehashidx := rehashidx d2 + 1\<rparr>"
      have unf: "dictRehash_loop hash (Suc n) ev d = dictRehash_loop hash n ev1 ?d3"
        using used idx a(1) m(1,2) by simp
      from Suc.IH [OF m(3), of ev1] show ?thesis unfolding unf using a m by (auto split: if_splits)
    qed
  qed
qed

lemma rehash_if_needed_spec:
  assumes "dict_ok hash d" "ht_size (ht0 d) \<noteq> 0"
  shows "\<exists>d'. rehash_if_needed hash d = Some d' \<and> dict_ok hash d' \<and> dict_map d' = dict_map d \<and> ht_size (ht0 d') \<noteq> 0
    \<and> iterators d' = iterators d"
proof (cases "dictIsRehashing d")
  case True
  then have "rehashing hash d" using assms by (simp add: rehashing_def)
  from dictRehash_loop_spec [OF this, of 1 10] show ?thesis using True assms
    by (auto simp: rehash_if_needed_def dictRehashStep_def dictRehash_def)
qed (use assms in \<open>simp add: rehash_if_needed_def\<close>)

lemma rehash_if_needed_empty:
  assumes "dict_ok hash d" "ht_size (ht0 d) = 0"
  shows "rehash_if_needed hash d = Some d" "\<not> dictIsRehashing d"
  using assms by (auto simp: dict_ok_def rehash_ok_def rehash_if_needed_def split: if_splits)

section \<open>Sizes of the tables\<close>

lemma chain_sizes: "set_chain i c ht = Some t \<Longrightarrow> ht_size t = ht_size ht"
  by (auto simp: set_chain_def split: if_splits)

lemma rehash_chain_sizes:
  "rehash_chain hash c d = Some d' \<Longrightarrow> ht_size (ht0 d') = ht_size (ht0 d) \<and> ht_size (ht1 d') = ht_size (ht1 d)"
  by (induction hash c d rule: rehash_chain.induct) (auto simp: Let_def dest: chain_sizes split: Option.bind_splits)

lemma skip_empty_sizes:
  "skip_empty d ev = Some r \<Longrightarrow> (case r of Inl d1 \<Rightarrow> ht0 d1 = ht0 d \<and> ht1 d1 = ht1 d | Inr (d1, _) \<Rightarrow> ht0 d1 = ht0 d \<and> ht1 d1 = ht1 d)"
proof (induction d ev rule: skip_empty.induct)
  case (1 d ev)
  obtain c where c: "chain_at (ht0 d) (nat (rehashidx d)) = Some c"
    using "1.prems" by (subst (asm) skip_empty.simps) (auto split: option.splits)
  show ?case
  proof (cases c)
    case (Cons e c')
    then have "skip_empty d ev = Some (Inr (d, ev, e # c'))" using c by (subst skip_empty.simps) simp
    then show ?thesis using "1.prems" by auto
  next
    case Nil
    let ?d = "d\<lparr>rehashidx := rehashidx d + 1\<rparr>"
    have unf: "skip_empty d ev = (if rehashidx d < 0 then None else if ev - 1 = 0 then Some (Inl ?d) else skip_empty ?d (ev - 1))"
      using c Nil by (subst skip_empty.simps) simp
    show ?thesis
    proof (cases "rehashidx d < 0 \<or> ev - 1 = 0")
      case True
      then show ?thesis using "1.prems" unf by (auto split: if_splits)
    next
      case False
      then show ?thesis using "1.IH" [OF c Nil refl] "1.prems" unf by (auto split: sum.splits)
    qed
  qed
qed

lemma rehash_finish_indexable: "indexable d \<Longrightarrow> indexable (fst (rehash_finish d))"
  by (simp add: rehash_finish_def indexable_def dictReset_def)

lemma dictRehash_loop_indexable: "dictRehash_loop hash n ev d = Some (d', b) \<Longrightarrow> indexable d \<Longrightarrow> indexable d'"
proof (induction hash n ev d rule: dictRehash_loop.induct)
  case (1 hash ev d)
  then show ?case using rehash_finish_indexable [of d] by (cases "rehash_finish d") simp
next
  case (2 hash n ev d)
  show ?case
  proof (cases "ht_used (ht0 d) = 0")
    case True
    then show ?thesis using 2(2,3) rehash_finish_indexable [of d] by (cases "rehash_finish d") simp
  next
    case False
    then show ?thesis using 2
      by (fastforce simp: indexable_def split: Option.bind_splits if_splits sum.splits dest!: skip_empty_sizes rehash_chain_sizes chain_sizes)
  qed
qed

lemma rehash_if_needed_indexable: "rehash_if_needed hash d = Some d' \<Longrightarrow> indexable d \<Longrightarrow> indexable d'"
  by (auto simp: rehash_if_needed_def dictRehashStep_def dictRehash_def simp del: dictRehash_loop.simps dest: dictRehash_loop_indexable split: if_splits)

lemma dictFind_indexable: "dictFind hash d k = Some (d', r) \<Longrightarrow> indexable d \<Longrightarrow> indexable d'"
  by (auto simp: dictFind_def dest: rehash_if_needed_indexable split: Option.bind_splits if_splits)

lemma set_in_tables_indexable: "set_in_tables hash d k v = Some d' \<Longrightarrow> indexable d \<Longrightarrow> indexable d'"
  by (auto simp: set_in_tables_def indexable_def Let_def dest!: chain_sizes split: Option.bind_splits if_splits)

lemma dictDelete_indexable: "dictDelete hash d k = Some (d', r) \<Longrightarrow> indexable d \<Longrightarrow> indexable d'"
proof -
  assume a: "dictDelete hash d k = Some (d', r)" "indexable d"
  have t: "ht_size t \<le> 2 ^ 31" if "delete_in_table hash ht k = Some (t, b)" "ht_size ht \<le> 2 ^ 31" for ht t b
    using that by (auto simp: delete_in_table_def Let_def dest!: chain_sizes split: Option.bind_splits if_splits)
  show ?thesis
  proof (cases "ht_size (ht0 d) = 0")
    case False
    then obtain d1 where d1: "rehash_if_needed hash d = Some d1" using a(1) by (auto simp: dictDelete_def dictGenericDelete_def split: Option.bind_splits)
    then show ?thesis using a(1) False rehash_if_needed_indexable [OF d1 a(2)]
      by (auto simp: dictDelete_def dictGenericDelete_def indexable_def dest!: t split: Option.bind_splits if_splits)
  qed (use a in \<open>simp add: dictDelete_def dictGenericDelete_def\<close>)
qed

lemma dictNextPower_loop_le: "i = 2 ^ k \<Longrightarrow> k \<le> 31 \<Longrightarrow> n \<le> 2 ^ 31 \<Longrightarrow> dictNextPower_loop i n \<le> 2 ^ 31"
proof (induction i n arbitrary: k rule: dictNextPower_loop.induct)
  case (1 i n)
  show ?case
  proof (cases "i \<ge> n")
    case True
    then have "dictNextPower_loop i n = i" by (subst dictNextPower_loop.simps) simp
    then show ?thesis using "1.prems"(1,2) power_increasing [of k 31 "2 :: nat"] by simp
  next
    case False
    then have "(2 :: nat) ^ k < 2 ^ 31" using "1.prems" by linarith
    then have "k < 31" by (rule power_less_imp_less_exp [rotated]) simp
    moreover have "i \<noteq> 0" "\<not> (n \<le> i \<or> i = 0)" using False "1.prems" by auto
    moreover from this have "dictNextPower_loop i n = dictNextPower_loop (i * 2) n"
      by (subst dictNextPower_loop.simps) simp
    ultimately show ?thesis using "1.IH" [of "k + 1"] "1.prems" by simp
  qed
qed

lemma dictExpand_indexable:
  assumes "indexable d" "n \<le> 2 ^ 31"
  shows "indexable (fst (dictExpand d n))"
proof -
  have "dictNextPower n = dictNextPower_loop 4 n"
    using assms by (simp add: dictNextPower_def LONG_MAX_def DICT_HT_INITIAL_SIZE_def)
  then have "dictNextPower n \<le> 2 ^ 31" using dictNextPower_loop_le [of 4 2 n] assms(2) by simp
  then show ?thesis using assms(1) by (simp add: dictExpand_def Let_def indexable_def)
qed

lemma dictExpandIfNeeded_indexable: "indexable d \<Longrightarrow> dictSize d < dict_limit \<Longrightarrow> indexable (fst (dictExpandIfNeeded can_resize d))"
  using dictExpand_indexable [of d "ht_used (ht0 d) * 2"] dictExpand_indexable [of d DICT_HT_INITIAL_SIZE]
  by (simp add: dictExpandIfNeeded_def dictSize_def dict_limit_def DICT_HT_INITIAL_SIZE_def)

text \<open>The conversion of an index to \<^verbatim>\<open>int\<close> keeps it.\<close>

lemma index_kept:
  assumes "dict_ok hash d" "indexable d" "ht_size (ht0 d) \<noteq> 0" "ht = (if dictIsRehashing d then ht1 d else ht0 d)"
  shows "sign_extend 4 (int (slot (ht_sizemask ht) (hash k))) = int (slot (ht_sizemask ht) (hash k))"
proof -
  have h: "ht_ok hash ht" "ht_size ht \<noteq> 0" "ht_size ht \<le> 2 ^ 31"
    using assms by (auto simp: dict_ok_def rehash_ok_def indexable_def)
  then have "slot (ht_sizemask ht) (hash k) < 2 ^ 31" using slot_less [OF h(1,2), of "hash k"] by (simp add: ht_ok_def)
  then show ?thesis by (intro sign_extend_fit) (simp add: fits_signed_def)
qed

section \<open>Operations on the map\<close>

lemma dictNextPower_loop_pow2:
  "i = 2 ^ k \<Longrightarrow> k \<le> 62 \<Longrightarrow> n \<le> 2 ^ 62 \<Longrightarrow>
   pow2_size (dictNextPower_loop i n) \<and> n \<le> dictNextPower_loop i n"
proof (induction i n arbitrary: k rule: dictNextPower_loop.induct)
  case (1 i n)
  show ?case
  proof (cases "i \<ge> n")
    case True
    then have "dictNextPower_loop i n = i" by (subst dictNextPower_loop.simps) simp
    then show ?thesis using True "1.prems" by (auto simp: pow2_size_def intro!: exI [of _ k])
  next
    case False
    then have "(2 :: nat) ^ k < 2 ^ 62" using "1.prems" by linarith
    then have "k < 62" by (rule power_less_imp_less_exp [rotated]) simp
    moreover have "i \<noteq> 0" "\<not> (n \<le> i \<or> i = 0)" using False "1.prems" by auto
    moreover from this have "dictNextPower_loop i n = dictNextPower_loop (i * 2) n"
      by (subst dictNextPower_loop.simps) simp
    ultimately show ?thesis using "1.IH" [of "k + 1"] "1.prems" by simp
  qed
qed

lemma dictNextPower_pow2:
  assumes "n \<le> 2 ^ 62"
  shows "pow2_size (dictNextPower n)" "n \<le> dictNextPower n" "0 < dictNextPower n"
proof -
  have "dictNextPower n = dictNextPower_loop 4 n"
    using assms by (simp add: dictNextPower_def LONG_MAX_def DICT_HT_INITIAL_SIZE_def)
  then show "pow2_size (dictNextPower n)" "n \<le> dictNextPower n"
    using dictNextPower_loop_pow2 [of 4 2 n] assms by auto
  then show "0 < dictNextPower n" by (auto simp: pow2_size_def)
qed

lemma ht_ok_fresh: "pow2_size n \<Longrightarrow>
   ht_ok hash \<lparr>ht_table = replicate n [], ht_size = n, ht_sizemask = n - 1, ht_used = 0\<rparr>"
  by (auto simp: ht_ok_def)

lemma dictExpand_spec:
  assumes "dict_ok hash d" "\<not> dictIsRehashing d" "n \<le> 2 ^ 62" "ht_used (ht0 d) \<le> n"
  shows "dict_ok hash (fst (dictExpand d n))" "dict_map (fst (dictExpand d n)) = dict_map d"
    "snd (dictExpand d n) \<longleftrightarrow> dictNextPower n \<noteq> ht_size (ht0 d)"
    "ht_size (ht0 d) \<noteq> 0 \<or> snd (dictExpand d n) \<Longrightarrow> ht_size (ht0 (fst (dictExpand d n))) \<noteq> 0"
    "iterators (fst (dictExpand d n)) = iterators d"
proof -
  let ?n = "\<lparr>ht_table = replicate (dictNextPower n) [], ht_size = dictNextPower n, ht_sizemask = dictNextPower n - 1, ht_used = 0\<rparr>"
  note np = dictNextPower_pow2 [OF assms(3)]
  have fresh: "ht_ok hash ?n" by (rule ht_ok_fresh [OF np(1)])
  have h1: "ht1 d = dictReset" using assms(1,2) by (simp add: dict_ok_def rehash_ok_def)
  have h0: "ht_ok hash (ht0 d)" using assms(1) by (simp add: dict_ok_def)
  have e0: "ht_table (ht0 d) = [] \<longleftrightarrow> ht_size (ht0 d) = 0" using h0 by (auto simp: ht_ok_def)
  have unf: "dictExpand d n = (if dictNextPower n = ht_size (ht0 d) then (d, False)
      else if ht_size (ht0 d) = 0 then (d\<lparr>ht0 := ?n\<rparr>, True) else (d\<lparr>ht1 := ?n, rehashidx := 0\<rparr>, True))"
    using assms(2,4) by (simp add: dictExpand_def Let_def e0)
  have en: "dict_entries (d\<lparr>ht0 := ?n\<rparr>) = []" "dict_entries (d\<lparr>ht1 := ?n, rehashidx := 0\<rparr>) = dict_entries d"
    using h1 by (simp_all add: dict_entries_def dictReset_def)
  have e1: "ht_size (ht0 d) = 0 \<Longrightarrow> dict_entries d = []" using e0 h1 by (simp add: dict_entries_def dictReset_def)
  show "dict_ok hash (fst (dictExpand d n))"
    using assms(1,2) fresh en np(3) h1 h0
    by (auto simp: unf dict_ok_def rehash_ok_def dictIsRehashing_def)
  show "dict_map (fst (dictExpand d n)) = dict_map d" using en e1 by (simp add: unf dict_map_def)
  show "snd (dictExpand d n) \<longleftrightarrow> dictNextPower n \<noteq> ht_size (ht0 d)" by (simp add: unf)
  show "ht_size (ht0 d) \<noteq> 0 \<or> snd (dictExpand d n) \<Longrightarrow> ht_size (ht0 (fst (dictExpand d n))) \<noteq> 0"
    using np(3) by (auto simp: unf)
  show "iterators (fst (dictExpand d n)) = iterators d" by (simp add: unf)
qed

lemma dict_limit_used: "dict_ok hash d \<Longrightarrow> dictSize d = card (dom (dict_map d))"
proof -
  assume ok: "dict_ok hash d"
  then have "dictSize d = length (dict_entries d)"
    by (simp add: dictSize_def dict_entries_def dict_ok_def ht_ok_def)
  also have "\<dots> = card (fst ` set (dict_entries d))"
    using ok by (metis distinct_card dict_ok_def length_map list.set_map)
  finally show ?thesis by (simp add: dict_map_def dom_map_of_conv_image_fst)
qed

lemma dictExpandIfNeeded_spec:
  assumes "dict_ok hash d" "dictSize d < dict_limit"
  shows "\<exists>d'. dictExpandIfNeeded can_resize d = (d', True) \<and> dict_ok hash d' \<and> dict_map d' = dict_map d \<and> ht_size (ht0 d') \<noteq> 0
    \<and> iterators d' = iterators d"
proof -
  have used: "ht_used (ht0 d) < 2 ^ 30" using assms(2) by (simp add: dictSize_def dict_limit_def)
  consider (re) "dictIsRehashing d" | (init) "\<not> dictIsRehashing d" "ht_size (ht0 d) = 0"
    | (grow) "\<not> dictIsRehashing d" "0 < ht_size (ht0 d)" "ht_used (ht0 d) \<ge> ht_size (ht0 d)"
      "can_resize \<or> ht_used (ht0 d) div ht_size (ht0 d) > dict_force_resize_ratio"
    | (keep) "\<not> dictIsRehashing d" "0 < ht_size (ht0 d)" "\<not> (ht_used (ht0 d) \<ge> ht_size (ht0 d)
        \<and> (can_resize \<or> ht_used (ht0 d) div ht_size (ht0 d) > dict_force_resize_ratio))"
    by blast
  then show ?thesis
  proof cases
    case re
    then show ?thesis using assms(1) dict_ok_simps [OF assms(1) re] by (simp add: dictExpandIfNeeded_def)
  next
    case init
    have "ht_used (ht0 d) = 0" using assms(1) init by (auto simp: dict_ok_def ht_ok_def)
    then have "dictNextPower 4 \<noteq> 0" "ht_used (ht0 d) \<le> 4" using dictNextPower_pow2(3) [of 4] by auto
    then show ?thesis using dictExpand_spec [OF assms(1) init(1), of 4] init
      by (cases "dictExpand d 4") (auto simp: dictExpandIfNeeded_def DICT_HT_INITIAL_SIZE_def)
  next
    case grow
    let ?n = "ht_used (ht0 d) * 2"
    have "dictNextPower ?n \<noteq> ht_size (ht0 d)" using dictNextPower_pow2(2) [of ?n] grow used by auto
    then show ?thesis using dictExpand_spec [OF assms(1) grow(1), of ?n] grow used
      by (cases "dictExpand d ?n") (auto simp: dictExpandIfNeeded_def)
  next
    case keep
    then show ?thesis using assms(1) by (auto simp: dictExpandIfNeeded_def)
  qed
qed

lemma dictFind_spec:
  assumes "dict_ok hash d"
  shows "\<exists>d'. dictFind hash d k = Some (d', dict_map d k) \<and> dict_ok hash d' \<and> dict_map d' = dict_map d
    \<and> (ht_size (ht0 d) \<noteq> 0 \<longrightarrow> ht_size (ht0 d') \<noteq> 0)"
proof (cases "ht_size (ht0 d) = 0")
  case True
  then have "\<not> dictIsRehashing d" "ht_table (ht0 d) = []" using rehash_if_needed_empty [OF assms] assms by (auto simp: dict_ok_def ht_ok_def)
  then have "dict_map d = Map.empty" using assms by (simp add: dict_map_def dict_entries_def dict_ok_def rehash_ok_def dictReset_def)
  then show ?thesis using True assms by (simp add: dictFind_def)
next
  case False
  then obtain d' where "rehash_if_needed hash d = Some d'" "dict_ok hash d'" "dict_map d' = dict_map d" "ht_size (ht0 d') \<noteq> 0"
    using rehash_if_needed_spec [OF assms] by blast
  then show ?thesis using False find_in_tables_spec [of hash d' k] by (simp add: dictFind_def)
qed

text \<open>Adding an entry to the table that takes new keys.\<close>

lemma add_entry:
  assumes "dict_ok hash d" "ht_size (ht0 d) \<noteq> 0" "dict_map d k = None" "ht = (if dictIsRehashing d then ht1 d else ht0 d)"
    "i = slot (ht_sizemask ht) (hash k)"
  shows "\<exists>c t d'. chain_at ht i = Some c \<and> set_chain i ((k, v) # c) ht = Some t
    \<and> d' = (if dictIsRehashing d then d\<lparr>ht1 := t\<lparr>ht_used := ht_used t + 1\<rparr>\<rparr> else d\<lparr>ht0 := t\<lparr>ht_used := ht_used t + 1\<rparr>\<rparr>)
    \<and> dict_ok hash d' \<and> dict_map d' = (dict_map d)(k \<mapsto> v)"
proof -
  have h: "ht_ok hash ht" "ht_size ht \<noteq> 0"
    using assms(1,2,4) by (auto simp: dict_ok_def rehash_ok_def)
  obtain c t where t: "chain_at ht i = Some c" "set_chain i ((k, v) # c) ht = Some t" "ht_ok hash (t\<lparr>ht_used := ht_used t + 1\<rparr>)"
      "mset (concat (ht_table t)) = add_mset (k, v) (mset (concat (ht_table ht)))" "ht_size t = ht_size ht"
    using push_chain [OF h assms(5), of v] by blast
  define d' where "d' = (if dictIsRehashing d then d\<lparr>ht1 := t\<lparr>ht_used := ht_used t + 1\<rparr>\<rparr> else d\<lparr>ht0 := t\<lparr>ht_used := ht_used t + 1\<rparr>\<rparr>)"
  have "mset (dict_entries d') = mset ((k, v) # dict_entries d)"
    using t(4) assms(4) by (auto simp: d'_def dict_entries_def)
  note ms = this [symmetric]
  have "distinct (map fst ((k, v) # dict_entries d))"
    using assms(1,3) by (simp add: dict_ok_def dict_map_def map_of_eq_None_iff)
  note dis = this distinct_perm [OF this ms] map_of_perm [OF this ms]
  have "rehash_ok d'" using assms(1,4) t(5) by (auto simp: dict_ok_def rehash_ok_def d'_def dictIsRehashing_def)
  then have "dict_ok hash d'" using assms(1) dis(2) t(3) by (auto simp: dict_ok_def d'_def)
  then show ?thesis using t(1,2) dis(3) by (auto simp: d'_def dict_map_def)
qed

lemma dictAdd_spec:
  assumes "dict_ok hash d" "indexable d" "dictSize d < dict_limit"
  shows "\<exists>d'. dictAdd can_resize hash d k v = Some (d', dict_map d k = None) \<and> dict_ok hash d' \<and> indexable d'
    \<and> dict_map d' = (if dict_map d k = None then (dict_map d)(k \<mapsto> v) else dict_map d)"
proof -
  obtain d1 where d1: "rehash_if_needed hash d = Some d1" "dict_ok hash d1" "dict_map d1 = dict_map d"
    using rehash_if_needed_spec [OF assms(1)] rehash_if_needed_empty [OF assms(1)] assms(1) by (cases "ht_size (ht0 d) = 0") auto
  have size: "dictSize d1 < dict_limit" using assms d1 dict_limit_used by metis
  then obtain d2 where d2: "dictExpandIfNeeded can_resize d1 = (d2, True)" "dict_ok hash d2" "dict_map d2 = dict_map d" "ht_size (ht0 d2) \<noteq> 0"
    using dictExpandIfNeeded_spec [OF d1(2)] d1(3) by metis
  have ix: "indexable d2" using dictExpandIfNeeded_indexable [OF rehash_if_needed_indexable [OF d1(1) assms(2)] size, of can_resize] d2(1) by simp
  have find: "find_in_tables hash d2 k = Some (dict_map d k)" using find_in_tables_spec [OF d2(2,4)] d2(3) by simp
  show ?thesis
  proof (cases "dict_map d k")
    case None
    let ?ht = "if dictIsRehashing d2 then ht1 d2 else ht0 d2"
    obtain c t d' where e: "chain_at ?ht (slot (ht_sizemask ?ht) (hash k)) = Some c"
        "set_chain (slot (ht_sizemask ?ht) (hash k)) ((k, v) # c) ?ht = Some t"
        "d' = (if dictIsRehashing d2 then d2\<lparr>ht1 := t\<lparr>ht_used := ht_used t + 1\<rparr>\<rparr> else d2\<lparr>ht0 := t\<lparr>ht_used := ht_used t + 1\<rparr>\<rparr>)"
        "dict_ok hash d'" "dict_map d' = (dict_map d2)(k \<mapsto> v)"
      using add_entry [OF d2(2,4) _ refl refl, of k v] None d2(3) by auto
    have "dictKeyIndex can_resize hash d1 k = Some (d2, int (slot (ht_sizemask ?ht) (hash k)))"
      using d2(1) find None index_kept [OF d2(2) ix d2(4) refl, of k] by (simp add: dictKeyIndex_def)
    then have "dictAdd can_resize hash d k v = Some (d', True)"
      using d1(1) e(1,2) by (simp add: dictAdd_def dictAddRaw_def Let_def e(3))
    moreover have "indexable d'" using ix chain_sizes [OF e(2)] by (auto simp: e(3) indexable_def split: if_splits)
    ultimately show ?thesis using None e(4,5) d2(3) by simp
  next
    case (Some x)
    then have "dictAdd can_resize hash d k v = Some (d2, False)"
      using d1(1) d2(1) find by (simp add: dictAdd_def dictAddRaw_def dictKeyIndex_def)
    then show ?thesis using Some d2 ix by simp
  qed
qed

text \<open>Changing one chain in place.\<close>

lemma update_chain_props: "map fst (update_chain k v c) = map fst c" "length (update_chain k v c) = length c"
  by (induction k v c rule: update_chain.induct) auto

lemma map_of_update_chain: "k \<in> fst ` set c \<Longrightarrow> map_of (update_chain k v c) = (map_of c)(k \<mapsto> v)"
proof (induction k v c rule: update_chain.induct)
  case (2 k v k' v' c)
  show ?case
  proof (cases "k = k'")
    case False
    then have "map_of (update_chain k v c) = (map_of c)(k \<mapsto> v)" using 2 by auto
    then show ?thesis using False by (auto simp: fun_eq_iff)
  qed (auto simp: fun_eq_iff)
qed simp

lemma remove_key_subset: "set (remove_key k c) \<subseteq> set c"
  by (induction k c rule: remove_key.induct) auto

lemma remove_key_length: "k \<in> fst ` set c \<Longrightarrow> Suc (length (remove_key k c)) = length c"
  by (induction k c rule: remove_key.induct) auto

lemma remove_key_distinct: "distinct (map fst c) \<Longrightarrow> distinct (map fst (remove_key k c))"
  using remove_key_subset by (induction k c rule: remove_key.induct) (auto simp: image_iff, fastforce)

lemma map_of_remove_key: "distinct (map fst c) \<Longrightarrow> map_of (remove_key k c) = (map_of c)(k := None)"
proof (induction k c rule: remove_key.induct)
  case (2 k k' v' c)
  show ?case
  proof (cases "k = k'")
    case True
    then have "map_of c k = None" using 2(2) by (simp add: map_of_eq_None_iff)
    then show ?thesis using True by (auto simp: fun_eq_iff)
  next
    case False
    then show ?thesis using 2 by (auto simp: fun_eq_iff)
  qed
qed auto

lemma map_of_middle:
  assumes "k \<notin> fst ` set A" "k \<notin> fst ` set B" "map_of c' = (map_of c)(k := x)"
  shows "map_of (A @ c' @ B) = (map_of (A @ c @ B))(k := x)"
proof
  fix y
  have "map_of A k = None" "map_of B k = None" using assms(1,2) by (auto simp: map_of_eq_None_iff)
  then show "map_of (A @ c' @ B) y = ((map_of (A @ c @ B))(k := x)) y"
    using assms(3) by (auto simp: map_add_def split: option.splits)
qed

definition sel_table :: "bool \<Rightarrow> ('k, 'v) dict \<Rightarrow> ('k, 'v) dictht" where
  "sel_table first d = (if first then ht0 d else ht1 d)"

definition put_table :: "bool \<Rightarrow> ('k, 'v) dictht \<Rightarrow> ('k, 'v) dict \<Rightarrow> ('k, 'v) dict" where
  "put_table first t d = (if first then d\<lparr>ht0 := t\<rparr> else d\<lparr>ht1 := t\<rparr>)"

lemma table_simps:
  "sel_table True d = ht0 d" "sel_table False d = ht1 d"
  "put_table True t d = d\<lparr>ht0 := t\<rparr>" "put_table False t d = d\<lparr>ht1 := t\<rparr>"
  by (simp_all add: sel_table_def put_table_def)

lemma change_chain:
  assumes ok: "dict_ok hash d" and ne: "ht_size (sel_table first d) \<noteq> 0"
    and i: "i = slot (ht_sizemask (sel_table first d)) (hash k)"
    and c: "c = ht_table (sel_table first d) ! i" "k \<in> fst ` set c"
    and c': "set (map fst c') \<subseteq> set (map fst c)" "distinct (map fst c')" "map_of c' = (map_of c)(k := x)"
    and u: "u + length c = ht_used (sel_table first d) + length c'"
  shows "\<exists>t. chain_at (sel_table first d) i = Some c \<and> set_chain i c' (sel_table first d) = Some t
    \<and> ht_used t = ht_used (sel_table first d)
    \<and> dict_ok hash (put_table first (t\<lparr>ht_used := u\<rparr>) d)
    \<and> dict_map (put_table first (t\<lparr>ht_used := u\<rparr>) d) = (dict_map d)(k := x)"
proof -
  let ?ht = "sel_table first d"
  have h: "ht_ok hash ?ht" using ok by (auto simp: dict_ok_def sel_table_def)
  have il: "i < length (ht_table ?ht)" using slot_less [OF h ne] i by simp
  have slots: "\<forall>e\<in>set c'. slot (ht_sizemask ?ht) (hash (fst e)) = i"
  proof
    fix e assume "e \<in> set c'"
    then obtain e' where "e' \<in> set c" "fst e' = fst e" using c'(1) by (metis imageE imageI list.set_map subsetD)
    then show "slot (ht_sizemask ?ht) (hash (fst e)) = i" using h il c(1) by (metis ht_ok_def)
  qed
  obtain t where t: "set_chain i c' ?ht = Some t" "ht_ok hash (t\<lparr>ht_used := u\<rparr>)"
      "ht_table t = (ht_table ?ht)[i := c']" "ht_used t = ht_used ?ht" "ht_size t = ht_size ?ht"
    using set_chain_ok [OF h il slots, of u] c(1) u by (metis diff_add_inverse2)
  let ?d = "put_table first (t\<lparr>ht_used := u\<rparr>) d"
  obtain A B where ab: "dict_entries d = A @ c @ B" "dict_entries ?d = A @ c' @ B"
  proof -
    obtain A B where "concat (ht_table ?ht) = A @ c @ B" "concat ((ht_table ?ht)[i := c']) = A @ c' @ B"
      using table_split [OF il] c(1) by metis
    then show ?thesis
      using that [of A "B @ concat (ht_table (ht1 d))"] that [of "concat (ht_table (ht0 d)) @ A" B] t(3)
      by (cases first) (auto simp: dict_entries_def put_table_def sel_table_def)
  qed
  have dis: "distinct (map fst (A @ c @ B))" using ok ab(1) by (simp add: dict_ok_def)
  have "k \<notin> fst ` set A" "k \<notin> fst ` set B" using dis c(2) by auto
  note m = map_of_middle [OF this c'(3)]
  have "distinct (map fst (A @ c' @ B))"
  proof -
    have dj: "fst ` set A \<inter> fst ` set c = {}" "fst ` set c \<inter> fst ` set B = {}" "fst ` set A \<inter> fst ` set B = {}"
      "distinct (map fst A)" "distinct (map fst B)" using dis by auto
    have sub: "fst ` set c' \<subseteq> fst ` set c" using c'(1) by simp
    have mono: "X \<inter> Y = {} \<Longrightarrow> Z \<subseteq> Y \<Longrightarrow> X \<inter> Z = {}" for X Y Z :: "'a set" by blast
    have "fst ` set A \<inter> fst ` set c' = {}" "fst ` set c' \<inter> fst ` set B = {}"
      using mono [OF dj(1) sub] mono [OF _ sub, of "fst ` set B"] dj(2) by (simp_all add: Int_commute)
    then show ?thesis using dj c'(2) by (simp add: Int_Un_distrib)
  qed
  moreover have "rehash_ok ?d"
  proof (cases "first \<and> dictIsRehashing d")
    case True
    have "c \<noteq> []" using c(2) by auto
    then have "\<not> i < nat (rehashidx d)" using ok True c(1) by (auto simp: dict_ok_def rehash_ok_def sel_table_def)
    then show ?thesis using ok True t by (auto simp: dict_ok_def rehash_ok_def put_table_def sel_table_def dictIsRehashing_def)
  next
    case False
    then show ?thesis using ok t(5) ne
      by (auto simp: dict_ok_def rehash_ok_def put_table_def sel_table_def dictIsRehashing_def dictReset_def)
  qed
  ultimately have "dict_ok hash ?d" using ok t(2) ab(2) by (auto simp: dict_ok_def put_table_def)
  moreover have "dict_map ?d = (dict_map d)(k := x)" using m ab by (simp add: dict_map_def)
  ultimately show ?thesis using t(1,4) il c(1) by (auto simp: chain_at_def)
qed

lemma key_in_chain:
  assumes "ht_ok hash ht" "ht_size ht \<noteq> 0" "map_of (concat (ht_table ht)) k \<noteq> None"
  shows "k \<in> fst ` set (ht_table ht ! slot (ht_sizemask ht) (hash k))"
  using assms(3) unfolding key_in_slot [OF assms(1,2)] by (metis map_of_eq_None_iff)

lemma chain_distinct:
  assumes "dict_ok hash d" "i < length (ht_table (sel_table first d))"
  shows "distinct (map fst (ht_table (sel_table first d) ! i))"
proof -
  obtain A B where "concat (ht_table (sel_table first d)) = A @ ht_table (sel_table first d) ! i @ B"
    using table_split [OF assms(2)] by blast
  moreover have "distinct (map fst (concat (ht_table (sel_table first d))))"
    using assms(1) by (simp add: dict_ok_def dict_entries_def sel_table_def)
  ultimately show ?thesis by simp
qed

text \<open>Which table holds a key.\<close>

lemma holding_table:
  assumes "dict_ok hash d" "ht_size (ht0 d) \<noteq> 0" "dict_map d k \<noteq> None"
    "first = (map_of (concat (ht_table (ht0 d))) k \<noteq> None)"
  shows "ht_ok hash (sel_table first d)" "ht_size (sel_table first d) \<noteq> 0"
    "k \<in> fst ` set (ht_table (sel_table first d) ! slot (ht_sizemask (sel_table first d)) (hash k))" "\<not> first \<Longrightarrow> dictIsRehashing d"
proof -
  have m: "\<not> first \<Longrightarrow> map_of (concat (ht_table (ht1 d))) k \<noteq> None"
    using assms(3,4) by (auto simp: dict_map_def dict_entries_def map_add_def split: option.splits)
  then have "\<not> first \<Longrightarrow> ht1 d \<noteq> dictReset" by (auto simp: dictReset_def)
  then show re: "\<not> first \<Longrightarrow> dictIsRehashing d" using assms(1) by (auto simp: dict_ok_def rehash_ok_def split: if_splits)
  show h: "ht_ok hash (sel_table first d)" "ht_size (sel_table first d) \<noteq> 0"
    using assms(1,2) re by (auto simp: sel_table_def dict_ok_def rehash_ok_def)
  show "k \<in> fst ` set (ht_table (sel_table first d) ! slot (ht_sizemask (sel_table first d)) (hash k))"
    by (rule key_in_chain [OF h]) (use m assms(4) in \<open>auto simp: sel_table_def\<close>)
qed

lemma set_in_tables_spec:
  assumes "dict_ok hash d" "ht_size (ht0 d) \<noteq> 0" "dict_map d k \<noteq> None"
  shows "\<exists>d'. set_in_tables hash d k v = Some d' \<and> dict_ok hash d' \<and> dict_map d' = (dict_map d)(k \<mapsto> v)"
proof -
  define first where "first = (map_of (concat (ht_table (ht0 d))) k \<noteq> None)"
  let ?ht = "sel_table first d"
  note ht = holding_table [OF assms first_def]
  define i where "i = slot (ht_sizemask ?ht) (hash k)"
  define c where "c = ht_table ?ht ! i"
  have kc: "k \<in> fst ` set c" using ht(3) by (simp add: c_def i_def)
  have dc: "distinct (map fst c)" using chain_distinct [OF assms(1)] slot_less [OF ht(1,2)] by (simp add: c_def i_def)
  obtain t where t: "chain_at ?ht i = Some c" "set_chain i (update_chain k v c) ?ht = Some t" "ht_used t = ht_used ?ht"
      "dict_ok hash (put_table first (t\<lparr>ht_used := ht_used ?ht\<rparr>) d)"
      "dict_map (put_table first (t\<lparr>ht_used := ht_used ?ht\<rparr>) d) = (dict_map d)(k \<mapsto> v)"
    using change_chain [OF assms(1) ht(2) i_def c_def kc, of "update_chain k v c" "Some v" "ht_used ?ht"]
      dc map_of_update_chain [OF kc] update_chain_props [of k v c] by (metis set_eq_subset)
  have "t\<lparr>ht_used := ht_used ?ht\<rparr> = t" using t(3) by (metis dictht.surjective dictht.update_convs(4))
  moreover have "find_in_table hash (ht0 d) k = Some (map_of (concat (ht_table (ht0 d))) k)"
    using find_in_table_spec [OF _ assms(2)] assms(1) by (simp add: dict_ok_def)
  ultimately have "set_in_tables hash d k v = Some (put_table first (t\<lparr>ht_used := ht_used ?ht\<rparr>) d)"
    using t(1,2) unfolding set_in_tables_def Let_def i_def put_table_def sel_table_def
    by (cases first) (auto simp: first_def)
  then show ?thesis using t(4,5) by simp
qed

lemma dictReplace_spec:
  assumes "dict_ok hash d" "indexable d" "dictSize d < dict_limit"
  shows "\<exists>d'. dictReplace can_resize hash d k v = Some (d', dict_map d k = None) \<and> dict_ok hash d' \<and> indexable d'
    \<and> dict_map d' = (dict_map d)(k \<mapsto> v)"
proof -
  obtain d1 where d1: "dictAdd can_resize hash d k v = Some (d1, dict_map d k = None)" "dict_ok hash d1" "indexable d1"
      "dict_map d1 = (if dict_map d k = None then (dict_map d)(k \<mapsto> v) else dict_map d)"
    using dictAdd_spec [OF assms] by blast
  show ?thesis
  proof (cases "dict_map d k")
    case None
    then show ?thesis using d1 by (simp add: dictReplace_def)
  next
    case (Some x)
    have ne: "ht_size (ht0 d1) \<noteq> 0"
    proof
      assume 0: "ht_size (ht0 d1) = 0"
      then have "\<not> dictIsRehashing d1" using rehash_if_needed_empty [OF d1(2)] by simp
      then have "dict_map d1 = Map.empty" using 0 d1(2)
        by (simp add: dict_map_def dict_entries_def dict_ok_def rehash_ok_def dictReset_def ht_ok_def)
      then show False using d1(4) Some by simp
    qed
    obtain d2 where d2: "dictFind hash d1 k = Some (d2, Some x)" "dict_ok hash d2" "dict_map d2 = dict_map d" "ht_size (ht0 d2) \<noteq> 0"
      using dictFind_spec [OF d1(2), of k] d1(4) Some ne by auto
    obtain d3 where "set_in_tables hash d2 k v = Some d3" "dict_ok hash d3" "dict_map d3 = (dict_map d)(k \<mapsto> v)"
      using set_in_tables_spec [OF d2(2,4), of k v] d2(3) Some by auto
    then show ?thesis using Some d1(1) d2(1) set_in_tables_indexable dictFind_indexable [OF d2(1) d1(3)] by (auto simp: dictReplace_def)
  qed
qed

lemma delete_in_table_spec:
  assumes "dict_ok hash d" "ht_size (sel_table first d) \<noteq> 0"
  shows "\<exists>t. delete_in_table hash (sel_table first d) k = Some (t, map_of (concat (ht_table (sel_table first d))) k \<noteq> None)
    \<and> (if map_of (concat (ht_table (sel_table first d))) k \<noteq> None
       then dict_ok hash (put_table first t d) \<and> dict_map (put_table first t d) = (dict_map d)(k := None)
       else t = sel_table first d)"
proof -
  let ?ht = "sel_table first d"
  have h: "ht_ok hash ?ht" using assms(1) by (simp add: dict_ok_def sel_table_def)
  define i where "i = slot (ht_sizemask ?ht) (hash k)"
  define c where "c = ht_table ?ht ! i"
  have il: "i < length (ht_table ?ht)" using slot_less [OF h assms(2)] by (simp add: i_def)
  have mc: "map_of (concat (ht_table ?ht)) k = map_of c k" using key_in_slot [OF h assms(2)] by (simp add: c_def i_def)
  show ?thesis
  proof (cases "map_of c k = None")
    case True
    then show ?thesis using il mc by (simp add: delete_in_table_def Let_def i_def [symmetric] chain_at_def c_def [symmetric])
  next
    case False
    then have kc: "k \<in> fst ` set c" by (metis map_of_eq_None_iff)
    have dc: "distinct (map fst c)" using chain_distinct [OF assms(1) il] by (simp add: c_def)
    have used: "0 < ht_used ?ht"
    proof -
      obtain A B where "concat (ht_table ?ht) = A @ c @ B" using table_split [OF il] c_def by metis
      then show ?thesis using h kc by (cases c) (auto simp: ht_ok_def)
    qed
    have "(ht_used ?ht - 1) + length c = ht_used ?ht + length (remove_key k c)"
      using remove_key_length [OF kc] used by simp
    moreover have "set (map fst (remove_key k c)) \<subseteq> set (map fst c)" using remove_key_subset [of k c] by auto
    ultimately obtain t where t: "chain_at ?ht i = Some c" "set_chain i (remove_key k c) ?ht = Some t" "ht_used t = ht_used ?ht"
        "dict_ok hash (put_table first (t\<lparr>ht_used := ht_used ?ht - 1\<rparr>) d)"
        "dict_map (put_table first (t\<lparr>ht_used := ht_used ?ht - 1\<rparr>) d) = (dict_map d)(k := None)"
      using change_chain [OF assms i_def c_def kc _ remove_key_distinct [OF dc] map_of_remove_key [OF dc]] by blast
    then show ?thesis using False mc by (simp add: delete_in_table_def Let_def i_def [symmetric])
  qed
qed

lemma dictDelete_spec:
  assumes "dict_ok hash d"
  shows "\<exists>d'. dictDelete hash d k = Some (d', dict_map d k \<noteq> None) \<and> dict_ok hash d' \<and> dict_map d' = (dict_map d)(k := None)"
proof (cases "ht_size (ht0 d) = 0")
  case True
  then have "\<not> dictIsRehashing d" using rehash_if_needed_empty [OF assms] by simp
  then have "dict_map d = Map.empty" using True assms
    by (simp add: dict_map_def dict_entries_def dict_ok_def rehash_ok_def dictReset_def ht_ok_def)
  then show ?thesis using True assms by (simp add: dictDelete_def dictGenericDelete_def)
next
  case False
  then obtain d1 where d1: "rehash_if_needed hash d = Some d1" "dict_ok hash d1" "dict_map d1 = dict_map d" "ht_size (ht0 d1) \<noteq> 0"
    using rehash_if_needed_spec [OF assms] by blast
  let ?m0 = "map_of (concat (ht_table (ht0 d1))) k" and ?m1 = "map_of (concat (ht_table (ht1 d1))) k"
  have m: "dict_map d k = (case ?m0 of None \<Rightarrow> ?m1 | Some v \<Rightarrow> Some v)"
    unfolding d1(3) [symmetric] by (auto simp: dict_map_def dict_entries_def map_add_def split: option.splits)
  obtain t0 where t0: "delete_in_table hash (ht0 d1) k = Some (t0, ?m0 \<noteq> None)"
      "if ?m0 \<noteq> None then dict_ok hash (d1\<lparr>ht0 := t0\<rparr>) \<and> dict_map (d1\<lparr>ht0 := t0\<rparr>) = (dict_map d1)(k := None) else t0 = ht0 d1"
    using delete_in_table_spec [OF d1(2), of True k, unfolded table_simps, OF d1(4)] by blast
  consider (first) "?m0 \<noteq> None" | (single) "?m0 = None" "\<not> dictIsRehashing d1" | (second) "?m0 = None" "dictIsRehashing d1" by blast
  then show ?thesis
  proof cases
    case first
    then show ?thesis using False d1 t0 m by (auto simp: dictDelete_def dictGenericDelete_def)
  next
    case single
    then have "?m1 = None" using d1(2) by (simp add: dict_ok_def rehash_ok_def dictReset_def)
    then show ?thesis using single False d1 t0 m by (auto simp: dictDelete_def dictGenericDelete_def fun_upd_idem)
  next
    case second
    then have "ht_size (ht1 d1) \<noteq> 0" using d1(2) by (simp add: dict_ok_def rehash_ok_def)
    from delete_in_table_spec [OF d1(2), of False k, unfolded table_simps, OF this]
    obtain t1 where t1: "delete_in_table hash (ht1 d1) k = Some (t1, ?m1 \<noteq> None)"
      "if ?m1 \<noteq> None then dict_ok hash (d1\<lparr>ht1 := t1\<rparr>) \<and> dict_map (d1\<lparr>ht1 := t1\<rparr>) = (dict_map d1)(k := None) else t1 = ht1 d1"
      by blast
    have same: "d1\<lparr>ht1 := ht1 d1\<rparr> = d1" by simp
    have "dictDelete hash d k = Some (d1\<lparr>ht1 := t1\<rparr>, ?m1 \<noteq> None)"
      using second False d1(1) t0(1) t1(1) by (simp add: dictDelete_def dictGenericDelete_def)
    moreover have "dict_map d k = ?m1" using m second(1) by simp
    moreover have "dict_ok hash (d1\<lparr>ht1 := t1\<rparr>) \<and> dict_map (d1\<lparr>ht1 := t1\<rparr>) = (dict_map d)(k := None)"
    proof (cases "?m1 = None")
      case True
      then have "d1\<lparr>ht1 := t1\<rparr> = d1" "(dict_map d)(k := None) = dict_map d"
        using t1(2) same \<open>dict_map d k = ?m1\<close> by (simp_all add: fun_upd_idem)
      then show ?thesis using d1(2,3) by simp
    next
      case False
      then show ?thesis using t1(2) d1(3) by simp
    qed
    ultimately show ?thesis by (intro exI [of _ "d1\<lparr>ht1 := t1\<rparr>"]) simp
  qed
qed

lemma dictCreate_ok: "dict_ok hash dictCreate" "dict_map dictCreate = Map.empty"
  by (auto simp: dict_ok_def dictCreate_def dictReset_def ht_ok_def dict_entries_def rehash_ok_def dictIsRehashing_def dict_map_def)

lemma dictCreate_indexable: "indexable dictCreate"
  by (simp add: indexable_def dictCreate_def dictReset_def)

interpretation dict: map_impl dictCreate "dictFind hash" "dictAdd can_resize hash" "dictReplace can_resize hash" "dictDelete hash"
  dict_map "\<lambda>d. dict_ok hash d \<and> indexable d" dict_limit
proof (unfold_locales, goal_cases)
  case 1
  show ?case by (simp add: dictCreate_ok dictCreate_indexable)
next
  case (3 s)
  then show ?case by (simp add: dict_map_def finite_dom_map_of)
next
  case (4 s k)
  with dictFind_spec [of hash s k] show ?case by (auto dest: dictFind_indexable)
next
  case (5 s k v)
  then have "dictSize s < dict_limit" using dict_limit_used [of hash s] by simp
  with 5 dictAdd_spec [of hash s can_resize k v] show ?case
    by (cases "dict_map s k") (simp_all add: domIff)
next
  case (6 s k v)
  then have "dictSize s < dict_limit" using dict_limit_used [of hash s] by simp
  with 6 dictReplace_spec [of hash s can_resize k v] show ?case by (simp add: domIff)
next
  case (7 s k)
  with dictDelete_spec [of hash s k] show ?case by (auto simp: domIff dest: dictDelete_indexable)
qed (auto simp: dictCreate_ok)

section \<open>Rehashing comes to an end\<close>

text \<open>\<open>rehash_steps\<close> is the loop of a caller that goes on while \<^verbatim>\<open>dictRehash (d, n)\<close> reports more keys.\<close>

fun rehash_steps :: "('k \<Rightarrow> u32) \<Rightarrow> nat \<Rightarrow> nat \<Rightarrow> ('k, 'v) dict \<Rightarrow> ('k, 'v) dict option" where
  "rehash_steps hash n 0 d = Some d"
| "rehash_steps hash n (Suc calls) d =
     do { (d', more) \<leftarrow> dictRehash hash d n;
          if more then rehash_steps hash n calls d' else Some d' }"

lemma rehash_steps_done:
  assumes "0 < n"
  shows "dict_ok hash d \<Longrightarrow> nat (int (ht_size (ht0 d)) - rehashidx d) < calls \<Longrightarrow>
    \<exists>d'. rehash_steps hash n calls d = Some d' \<and> \<not> dictIsRehashing d' \<and> dict_ok hash d' \<and> dict_map d' = dict_map d"
proof (induction calls arbitrary: d)
  case (Suc calls)
  show ?case
  proof (cases "dictIsRehashing d")
    case False
    then show ?thesis using Suc.prems by (simp add: dictRehash_def)
  next
    case True
    then have "rehashing hash d" using Suc.prems by (simp add: rehashing_def)
    from dictRehash_loop_spec [OF this, of n "of_nat n * 10"] obtain d1 more where
      d1: "dictRehash hash d n = Some (d1, more)" "dict_ok hash d1" "dict_map d1 = dict_map d" "more = dictIsRehashing d1"
        "more \<Longrightarrow> ht_size (ht0 d1) = ht_size (ht0 d) \<and> rehashidx d < rehashidx d1"
      using True assms by (auto simp: dictRehash_def)
    show ?thesis
    proof (cases more)
      case more: True
      have "rehashidx d1 \<le> int (ht_size (ht0 d1))" using d1(2,4) more by (simp add: dict_ok_def rehash_ok_def)
      then have "nat (int (ht_size (ht0 d1)) - rehashidx d1) < calls" using d1(5) [OF more] Suc.prems(2) by linarith
      from Suc.IH [OF d1(2) this] show ?thesis using d1 more by auto
    qed (use d1 in auto)
  qed
qed simp

section \<open>Properties\<close>

definition nat_hash :: "nat \<Rightarrow> u32" where
  "nat_hash n = of_nat n"

definition rehash_example :: "(nat, nat) dict" where
  "rehash_example =
     \<lparr>ht0 = \<lparr>ht_table = [[(4, 40), (0, 10)], []], ht_size = 2, ht_sizemask = 1, ht_used = 2\<rparr>,
      ht1 = \<lparr>ht_table = [[], [(1, 11)], [], []], ht_size = 4, ht_sizemask = 3, ht_used = 1\<rparr>,
      rehashidx = 0, iterators = 0\<rparr>"

lemma rehash_example_ok: "dict_ok nat_hash rehash_example"
proof -
  have s: "slot 1 0 = 0" "slot 1 4 = 0" "slot 3 1 = 1" by (simp_all add: slot_def)
  have "pow2_size 2" "pow2_size 4" by (auto simp: pow2_size_def intro: exI [of _ 1] exI [of _ 2])
  then show ?thesis using s
    by (simp add: dict_ok_def rehash_example_def ht_ok_def dict_entries_def rehash_ok_def dictIsRehashing_def nat_hash_def
        All_less_Suc)
qed

text \<open>C29: \<^verbatim>\<open>dictReplace\<close> on a well-formed dictionary, in the middle of a rehashing or not, accesses the
  tables in bounds, reports whether the key was new, and afterwards \<^verbatim>\<open>dictFind\<close> yields the new value
  for the key and the old result for every other key.\<close>

theorem dictReplace_correct:
  assumes "dict_ok hash d" "indexable d" "card (dom (dict_map d)) < dict_limit"
  shows "\<exists>d1 d2. dictReplace can_resize hash d k v = Some (d1, k \<notin> dom (dict_map d)) \<and> dict_ok hash d1 \<and> indexable d1
    \<and> dictFind hash d1 k' = Some (d2, if k' = k then Some v else dict_map d k') \<and> dict_ok hash d2 \<and> indexable d2"
  using dict.replace_spec [of hash d can_resize k v] dict.replace_lookup [of hash d can_resize k v k'] assms
  by auto

theorem dictReplace_correct_witness:
  "\<exists>d1 d2. dictReplace True nat_hash dictCreate 3 (7 :: nat) = Some (d1, True) \<and> dictFind nat_hash d1 3 = Some (d2, Some 7)"
  using dictReplace_correct [where hash = nat_hash and can_resize = True and k = 3 and v = "7 :: nat" and k' = 3, OF dictCreate_ok(1) dictCreate_indexable]
  by (auto simp: dictCreate_ok dict_limit_def)

text \<open>C30: \<^verbatim>\<open>dictAdd\<close> adds a new key and refuses one that exists, leaving its value alone; the expansion
  that it may start and the rehashing step change nothing else.\<close>

theorem dictAdd_correct:
  assumes "dict_ok hash d" "indexable d" "card (dom (dict_map d)) < dict_limit"
  shows "\<exists>d'. dictAdd can_resize hash d k v = Some (d', k \<notin> dom (dict_map d)) \<and> dict_ok hash d' \<and> indexable d'
    \<and> dict_map d' = (if k \<in> dom (dict_map d) then dict_map d else (dict_map d)(k \<mapsto> v))"
  using dict.add_spec [of hash d can_resize k v] assms by simp

theorem dictAdd_correct_witness:
  "\<exists>d'. dictAdd True nat_hash dictCreate 3 (7 :: nat) = Some (d', True) \<and> dict_map d' = [3 \<mapsto> 7]"
  using dictAdd_correct [where hash = nat_hash and can_resize = True and k = 3 and v = "7 :: nat", OF dictCreate_ok(1) dictCreate_indexable]
  by (auto simp: dictCreate_ok dict_limit_def)

text \<open>C31: \<^verbatim>\<open>dictDelete\<close> removes exactly the entry of the key from whichever table holds it and reports
  whether there was one.\<close>

theorem dictDelete_correct:
  assumes "dict_ok hash d"
  shows "\<exists>d'. dictDelete hash d k = Some (d', k \<in> dom (dict_map d)) \<and> dict_ok hash d' \<and> dict_map d' = (dict_map d)(k := None)"
  using dictDelete_spec [OF assms, of k] by (simp add: domIff)

theorem dictDelete_correct_witness:
  "\<exists>d'. dictDelete nat_hash rehash_example 4 = Some (d', True) \<and> dict_map d' = [0 \<mapsto> 10, 1 \<mapsto> 11]"
proof -
  have "dict_map rehash_example = [4 \<mapsto> 40, 0 \<mapsto> 10, 1 \<mapsto> 11]"
    by (simp add: dict_map_def dict_entries_def rehash_example_def fun_eq_iff)
  then have "4 \<in> dom (dict_map rehash_example)" "(dict_map rehash_example)(4 := None) = [0 \<mapsto> 10, 1 \<mapsto> 11]" by (simp_all add: fun_upd_twist)
  then show ?thesis using dictDelete_correct [OF rehash_example_ok, of 4] by auto
qed

text \<open>C32: Incremental rehashing keeps the map and comes to an end: calling \<^verbatim>\<open>dictRehash\<close> with a positive
  number of steps while it reports more keys terminates after at most as many calls as the old
  table has slots, with all keys in one table.\<close>

theorem dictRehash_completes:
  assumes "dict_ok hash d" "0 < n"
  shows "\<exists>d'. rehash_steps hash n (ht_size (ht0 d) + 2) d = Some d' \<and> \<not> dictIsRehashing d' \<and> dict_ok hash d' \<and> dict_map d' = dict_map d"
proof (rule rehash_steps_done [OF assms(2,1)])
  have "- 1 \<le> rehashidx d" using assms(1) by (auto simp: dict_ok_def rehash_ok_def dictIsRehashing_def split: if_splits)
  then show "nat (int (ht_size (ht0 d)) - rehashidx d) < ht_size (ht0 d) + 2" by linarith
qed

theorem dictRehash_completes_witness:
  "\<exists>d'. rehash_steps nat_hash 1 4 rehash_example = Some d' \<and> \<not> dictIsRehashing d' \<and> dict_map d' = dict_map rehash_example"
  using dictRehash_completes [OF rehash_example_ok, of 1] by (auto simp: rehash_example_def)

end
