(* ===== verification/Dict_Scan.thy ===== *)
theory Dict_Scan
  imports Dict
begin

unbundle bit_operations_syntax

text \<open>
  Iteration over the hash tables of \<^verbatim>\<open>dict.c\<close>: the cursor-based \<^verbatim>\<open>dictScan\<close>, the iterators, and the
  hash functions. A cursor is a 64 bit word. \<open>dictScan\<close> returns the entries it hands to the callback, in
  order, and the next cursor.

  The cursor counts with its bits reversed. \<open>dict_rev_reverse\<close> shows that the bit trick of the source
  reverses a word; read that way the cursor only grows, and a call visits all hash values up to the
  next cursor. From this follows the documented guarantee: an entry that stays in the table from the
  first call to the last is returned, while the table grows between the calls. When the
  table shrinks to a quarter or less, a call in the middle of the rehashing leaves out slots of the larger table
  and the guarantee fails (\<open>dictScan_misses_on_shrink\<close>).
\<close>

section \<open>Reversing the bits of a word\<close>

function rev_loop :: "nat \<Rightarrow> u64 \<Rightarrow> u64 \<Rightarrow> u64" where
  "rev_loop s m v =
     (let s' = s div 2
      in if s' > 0 then
           let m' = m XOR push_bit s' m
           in rev_loop s' m' ((drop_bit s' v AND m') OR (push_bit s' v AND NOT m'))
         else v)"
  by pat_completeness auto
termination by (relation "measure (\<lambda>(s, _). s)") auto

declare rev_loop.simps [simp del]

definition dict_rev :: "u64 \<Rightarrow> u64" where
  "dict_rev v = rev_loop 64 (NOT 0) v"

definition swap_blocks :: "nat \<Rightarrow> u64 \<Rightarrow> u64 \<Rightarrow> u64" where
  "swap_blocks s m v = (drop_bit s v AND m) OR (push_bit s v AND NOT m)"

definition swap_pos :: "nat \<Rightarrow> nat \<Rightarrow> nat" where
  "swap_pos s i = (if even (i div s) then i + s else i - s)"

lemma bit_swap_blocks:
  assumes "\<forall>i<64. bit m i = even (i div s)" "i < 64" "swap_pos s i < 64" "0 < s"
  shows "bit (swap_blocks s m v) i = bit v (swap_pos s i)"
proof (cases "even (i div s)")
  case True
  then show ?thesis using assms by (simp add: swap_blocks_def swap_pos_def bit_simps add.commute)
next
  case False
  then have "s \<le> i" using assms(4) by (metis div_less even_zero not_le_imp_less)
  then show ?thesis using assms False by (simp add: swap_blocks_def swap_pos_def bit_simps)
qed

lemma rev_masks:
  "list_all (\<lambda>i. bit (0x00000000FFFFFFFF :: u64) i = even (i div 32)) [0..<64]"
  "list_all (\<lambda>i. bit (0x0000FFFF0000FFFF :: u64) i = even (i div 16)) [0..<64]"
  "list_all (\<lambda>i. bit (0x00FF00FF00FF00FF :: u64) i = even (i div 8)) [0..<64]"
  "list_all (\<lambda>i. bit (0x0F0F0F0F0F0F0F0F :: u64) i = even (i div 4)) [0..<64]"
  "list_all (\<lambda>i. bit (0x3333333333333333 :: u64) i = even (i div 2)) [0..<64]"
  "list_all (\<lambda>i. bit (0x5555555555555555 :: u64) i = even (i div 1)) [0..<64]"
  by code_simp+

lemma dict_rev_swaps:
  "dict_rev v =
     swap_blocks 1 0x5555555555555555 (swap_blocks 2 0x3333333333333333 (swap_blocks 4 0x0F0F0F0F0F0F0F0F
       (swap_blocks 8 0x00FF00FF00FF00FF (swap_blocks 16 0x0000FFFF0000FFFF (swap_blocks 32 0x00000000FFFFFFFF v)))))"
proof -
  have m: "NOT 0 XOR push_bit 32 (NOT 0) = (0x00000000FFFFFFFF :: u64)"
    "0x00000000FFFFFFFF XOR push_bit 16 0x00000000FFFFFFFF = (0x0000FFFF0000FFFF :: u64)"
    "0x0000FFFF0000FFFF XOR push_bit 8 0x0000FFFF0000FFFF = (0x00FF00FF00FF00FF :: u64)"
    "0x00FF00FF00FF00FF XOR push_bit 4 0x00FF00FF00FF00FF = (0x0F0F0F0F0F0F0F0F :: u64)"
    "0x0F0F0F0F0F0F0F0F XOR push_bit 2 0x0F0F0F0F0F0F0F0F = (0x3333333333333333 :: u64)"
    "0x3333333333333333 XOR push_bit 1 0x3333333333333333 = (0x5555555555555555 :: u64)"
    by code_simp+
  have step: "rev_loop s m w = rev_loop s' m' (swap_blocks s' m' w)" if "m XOR push_bit s' m = m'" "s div 2 = s'" "0 < s'"
    for s s' m m' w using that by (subst rev_loop.simps) (simp add: Let_def swap_blocks_def)
  have fin: "rev_loop 1 m w = w" for m w by (subst rev_loop.simps) simp
  show ?thesis
    using step [OF m(1), of 64] step [OF m(2), of 32] step [OF m(3), of 16] step [OF m(4), of 8]
      step [OF m(5), of 4] step [OF m(6), of 2] fin
    by (simp add: dict_rev_def)
qed

lemma swap_pos_all:
  "list_all (\<lambda>i. swap_pos 1 i < 64 \<and> swap_pos 2 (swap_pos 1 i) < 64 \<and> swap_pos 4 (swap_pos 2 (swap_pos 1 i)) < 64
     \<and> swap_pos 8 (swap_pos 4 (swap_pos 2 (swap_pos 1 i))) < 64 \<and> swap_pos 16 (swap_pos 8 (swap_pos 4 (swap_pos 2 (swap_pos 1 i)))) < 64
     \<and> swap_pos 32 (swap_pos 16 (swap_pos 8 (swap_pos 4 (swap_pos 2 (swap_pos 1 i))))) = 63 - i) [0..<64]"
  by code_simp

lemma dict_rev_reverse: "dict_rev v = word_reverse v"
proof (rule bit_word_eqI)
  fix i
  assume "i < LENGTH(64)"
  then have i: "i < 64" by simp
  have p: "swap_pos 1 i < 64" "swap_pos 2 (swap_pos 1 i) < 64" "swap_pos 4 (swap_pos 2 (swap_pos 1 i)) < 64"
    "swap_pos 8 (swap_pos 4 (swap_pos 2 (swap_pos 1 i))) < 64" "swap_pos 16 (swap_pos 8 (swap_pos 4 (swap_pos 2 (swap_pos 1 i)))) < 64"
    "swap_pos 32 (swap_pos 16 (swap_pos 8 (swap_pos 4 (swap_pos 2 (swap_pos 1 i))))) = 63 - i"
    using swap_pos_all i by (simp_all only: list_all_iff set_upt atLeastLessThan_iff) auto
  have m: "\<forall>i<64. bit (0x00000000FFFFFFFF :: u64) i = even (i div 32)" "\<forall>i<64. bit (0x0000FFFF0000FFFF :: u64) i = even (i div 16)"
    "\<forall>i<64. bit (0x00FF00FF00FF00FF :: u64) i = even (i div 8)" "\<forall>i<64. bit (0x0F0F0F0F0F0F0F0F :: u64) i = even (i div 4)"
    "\<forall>i<64. bit (0x3333333333333333 :: u64) i = even (i div 2)" "\<forall>i<64. bit (0x5555555555555555 :: u64) i = even (i div 1)"
    using rev_masks by (simp_all only: list_all_iff set_upt atLeastLessThan_iff) auto
  have "bit (dict_rev v) i = bit v (63 - i)"
    unfolding dict_rev_swaps
    using bit_swap_blocks [OF m(6) i p(1)] bit_swap_blocks [OF m(5) p(1,2)] bit_swap_blocks [OF m(4) p(2,3)]
      bit_swap_blocks [OF m(3) p(3,4)] bit_swap_blocks [OF m(2) p(4,5)] bit_swap_blocks [OF m(1) p(5)] p(6)
    by simp
  then show "bit (dict_rev v) i = bit (word_reverse v) i" using i by (simp add: bit_word_reverse_iff)
qed

section \<open>The scan\<close>

text \<open>The loop over the expansions of the cursor in the larger table.\<close>

partial_function (option) scan_expand ::
  "('k, 'v) dictht \<Rightarrow> u64 \<Rightarrow> u64 \<Rightarrow> u64 \<Rightarrow> ('k \<times> 'v) list \<Rightarrow> (('k \<times> 'v) list \<times> u64) option" where
  "scan_expand t1 m0 m1 v acc =
     do { c \<leftarrow> chain_at t1 (unat (v AND m1));
          let v' = (((v OR m0) + 1) AND NOT m0) OR (v AND m0) in
          if v' AND (m0 XOR m1) \<noteq> 0 then scan_expand t1 m0 m1 v' (acc @ c) else Some (acc @ c, v') }"

definition scan_next :: "u64 \<Rightarrow> u64 \<Rightarrow> u64" where
  "scan_next m0 v = dict_rev (dict_rev (v OR NOT m0) + 1)"

definition dictScan :: "('k, 'v) dict \<Rightarrow> u64 \<Rightarrow> (('k \<times> 'v) list \<times> u64) option" where
  "dictScan d v =
     (if dictSize d = 0 then Some ([], 0)
      else if \<not> dictIsRehashing d then
        let t0 = ht0 d; m0 = of_nat (ht_sizemask t0)
        in do { c \<leftarrow> chain_at t0 (unat (v AND m0)); Some (c, scan_next m0 v) }
      else
        let (t0, t1) = (if ht_size (ht0 d) > ht_size (ht1 d) then (ht1 d, ht0 d) else (ht0 d, ht1 d));
            m0 = of_nat (ht_sizemask t0); m1 = of_nat (ht_sizemask t1)
        in do { c \<leftarrow> chain_at t0 (unat (v AND m0));
                (es, v') \<leftarrow> scan_expand t1 m0 m1 v c;
                Some (es, scan_next m0 v') })"

text \<open>A whole iteration: one call for every state of the dictionary, from a given cursor on.\<close>

fun scan_run :: "('k, 'v) dict list \<Rightarrow> u64 \<Rightarrow> (('k \<times> 'v) list \<times> u64) option" where
  "scan_run [] v = Some ([], v)"
| "scan_run (d # ds) v =
     do { (es, v1) \<leftarrow> dictScan d v; (es', v2) \<leftarrow> scan_run ds v1; Some (es @ es', v2) }"

section \<open>The cursor as a growing number\<close>

lemma mask_u64: "k < 64 \<Longrightarrow> (of_nat (2 ^ k - 1) :: u64) = mask k"
  by (simp add: mask_eq_exp_minus_1 of_nat_diff)

lemma unat_and_mask: "unat (v AND mask k :: u64) = unat v mod 2 ^ k"
proof -
  have "unat (v AND mask k) = unat (take_bit k v)" by (simp only: take_bit_eq_mask)
  also have "\<dots> = take_bit k (unat v)" by (simp only: unsigned_take_bit_eq)
  finally show ?thesis by (simp only: take_bit_eq_mod)
qed

lemma mod_pow_mod: "j \<le> k \<Longrightarrow> (x :: nat) mod 2 ^ k mod 2 ^ j = x mod 2 ^ j"
  by (simp add: mod_mod_cancel le_imp_power_dvd)

lemma unat_add_pow: "k < 64 \<Longrightarrow> j \<le> 64 \<Longrightarrow> unat ((v :: u64) + 2 ^ k) mod 2 ^ j = (unat v mod 2 ^ j + 2 ^ k) mod 2 ^ j"
proof -
  assume kj: "k < 64" "j \<le> 64"
  have "(2 ^ k :: u64) = of_nat (2 ^ k)" by simp
  then have "unat (2 ^ k :: u64) = 2 ^ k mod 2 ^ LENGTH(64)" by (simp only: unat_of_nat)
  also have "\<dots> = 2 ^ k"
  proof -
    have "(2 :: nat) ^ k < 2 ^ 64" using kj(1) by (intro power_strict_increasing) auto
    then show ?thesis by simp
  qed
  finally have "unat (2 ^ k :: u64) = 2 ^ k" .
  then have "unat (v + 2 ^ k) = (unat v + 2 ^ k) mod 2 ^ 64" by (simp add: unat_word_ariths)
  then show ?thesis using mod_pow_mod [OF kj(2)] by (simp add: mod_simps)
qed

lemma add_pow_split:
  assumes "k < 64"
  shows "(((v OR mask k) + 1) AND NOT (mask k)) OR (v AND mask k) = (v :: u64) + 2 ^ k"
proof -
  let ?hi = "v AND NOT (mask k)" and ?lo = "v AND mask k"
  have hilo: "?hi + ?lo = v"
    by (subst disjunctive_add) (auto simp: bit_simps intro!: bit_word_eqI)
  have "v OR mask k = ?hi + mask k"
    by (subst disjunctive_add) (auto simp: bit_simps intro!: bit_word_eqI)
  then have up: "(v OR mask k) + 1 = ?hi + 2 ^ k" by (simp add: mask_eq_exp_minus_1)
  have tb: "take_bit k (?hi + 2 ^ k) = 0"
  proof -
    have hi: "take_bit k ?hi = 0" by (rule bit_word_eqI) (auto simp: bit_simps)
    then have "unat (?hi AND mask k) = 0" by (simp only: take_bit_eq_mask unsigned_0)
    then have "unat ((?hi + 2 ^ k) AND mask k) = 0"
      using unat_add_pow [OF assms, of k ?hi] assms by (simp add: unat_and_mask)
    then show ?thesis by (simp only: take_bit_eq_mask unat_eq_zero)
  qed
  have nl: "(?hi + 2 ^ k) AND NOT (mask k) = ?hi + 2 ^ k"
  proof (rule bit_word_eqI)
    fix n assume "n < LENGTH(64)"
    have "bit (take_bit k (?hi + 2 ^ k)) n = (n < k \<and> bit (?hi + 2 ^ k) n)" by (simp add: bit_take_bit_iff)
    then show "bit ((?hi + 2 ^ k) AND NOT (mask k)) n = bit (?hi + 2 ^ k) n"
      using tb \<open>n < LENGTH(64)\<close> by (auto simp: bit_simps)
  qed
  have "(?hi + 2 ^ k) + ?lo = (?hi + 2 ^ k) OR ?lo"
  proof (rule disjunctive_add)
    fix n
    have "\<not> bit (?hi + 2 ^ k) n" if "n < k"
      using tb that by (metis bit_0_eq bit_take_bit_iff bot_apply bot_bool_def)
    then show "\<not> bit (?hi + 2 ^ k) n \<or> \<not> bit ?lo n" by (auto simp: bit_simps)
  qed
  moreover have "(?hi + 2 ^ k) + ?lo = (?hi + ?lo) + 2 ^ k" by (simp only: ac_simps)
  ultimately show ?thesis unfolding up nl hilo by simp
qed

lemma expansion_bits:
  "(w :: u64) AND (mask k0 XOR mask k1) = 0 \<longleftrightarrow> unat w mod 2 ^ k1 = unat w mod 2 ^ k0"
proof -
  have "w AND (mask k0 XOR mask k1) = (w AND mask k0) XOR (w AND mask k1)"
    by (rule bit_word_eqI) (auto simp: bit_simps)
  moreover have "a XOR b = 0 \<longleftrightarrow> a = b" for a b :: u64 by (auto simp: bit_eq_iff bit_simps)
  ultimately have "w AND (mask k0 XOR mask k1) = 0 \<longleftrightarrow> w AND mask k0 = w AND mask k1" by simp
  also have "\<dots> \<longleftrightarrow> unat (w AND mask k0) = unat (w AND mask k1)" by (metis word_unat_eq_iff)
  finally show ?thesis by (auto simp: unat_and_mask)
qed

lemma scan_expand_spec:
  assumes k: "k0 \<le> k1" "k1 < 64" and t: "length (ht_table t1) = 2 ^ k1" and a: "a < 2 ^ k0"
  shows "unat v mod 2 ^ k1 = a + i * 2 ^ k0 \<Longrightarrow> i < 2 ^ (k1 - k0) \<Longrightarrow>
    \<exists>v'. scan_expand t1 (mask k0) (mask k1) v acc =
           Some (acc @ concat (map (\<lambda>j. ht_table t1 ! (a + j * 2 ^ k0)) [i..<2 ^ (k1 - k0)]), v')
       \<and> unat v' mod 2 ^ k0 = a"
proof (induction "2 ^ (k1 - k0) - i" arbitrary: v i acc)
  case 0
  then show ?case by simp
next
  case (Suc n)
  let ?N = "2 ^ (k1 - k0) :: nat" and ?c = "ht_table t1 ! (a + i * 2 ^ k0)"
  have N: "?N * 2 ^ k0 = 2 ^ k1" using k(1) by (simp flip: power_add)
  have lt: "a + j * 2 ^ k0 < 2 ^ k1" if "j < ?N" for j
  proof -
    have "Suc j * 2 ^ k0 \<le> ?N * 2 ^ k0" using that by (intro mult_right_mono) auto
    then show ?thesis using a N by simp
  qed
  have at: "chain_at t1 (unat (v AND mask k1)) = Some ?c"
    using Suc.prems lt t by (simp add: unat_and_mask chain_at_def)
  let ?v = "v + 2 ^ k0"
  have unf: "scan_expand t1 (mask k0) (mask k1) v acc =
      (if ?v AND (mask k0 XOR mask k1) \<noteq> 0 then scan_expand t1 (mask k0) (mask k1) ?v (acc @ ?c) else Some (acc @ ?c, ?v))"
    using k by (subst scan_expand.simps) (simp add: at Let_def add_pow_split)
  have nxt: "unat ?v mod 2 ^ k1 = (a + Suc i * 2 ^ k0) mod 2 ^ k1"
    using unat_add_pow [of k0 k1 v] k Suc.prems(1) by (simp add: algebra_simps)
  have lo: "unat ?v mod 2 ^ k0 = a"
  proof -
    have "unat ?v mod 2 ^ k0 = (a + Suc i * 2 ^ k0) mod 2 ^ k0"
      using nxt mod_pow_mod [OF k(1), of "unat ?v"] mod_pow_mod [OF k(1), of "a + Suc i * 2 ^ k0"] by simp
    also have "\<dots> = a mod 2 ^ k0" by (simp only: mod_mult_self1)
    finally show ?thesis using a by simp
  qed
  have up: "[i..<?N] = i # [Suc i..<?N]" using Suc.prems(2) by (simp add: upt_conv_Cons)
  show ?case
  proof (cases "Suc i < ?N")
    case True
    then have eq: "unat ?v mod 2 ^ k1 = a + Suc i * 2 ^ k0" using nxt lt [OF True] by (metis mod_less)
    have "unat ?v mod 2 ^ k0 < unat ?v mod 2 ^ k1" unfolding eq lo by simp
    then have "?v AND (mask k0 XOR mask k1) \<noteq> 0" by (simp add: expansion_bits)
    moreover obtain v' where "scan_expand t1 (mask k0) (mask k1) ?v (acc @ ?c) =
        Some ((acc @ ?c) @ concat (map (\<lambda>j. ht_table t1 ! (a + j * 2 ^ k0)) [Suc i..<?N]), v')" "unat v' mod 2 ^ k0 = a"
    proof -
      have "n = ?N - Suc i" using Suc.hyps(2) by linarith
      from Suc.hyps(1) [OF this eq True, of "acc @ ?c"] show ?thesis using that by blast
    qed
    ultimately show ?thesis unfolding unf up by simp
  next
    case False
    then have "Suc i = ?N" using Suc.prems(2) by simp
    then have "unat ?v mod 2 ^ k1 = a mod 2 ^ k1" using nxt N by (metis mod_add_self2)
    moreover have "a < 2 ^ k1" using lt [of 0] by simp
    ultimately have "unat ?v mod 2 ^ k1 = unat ?v mod 2 ^ k0" using lo by simp
    then have "?v AND (mask k0 XOR mask k1) = 0" by (simp only: expansion_bits)
    moreover have "[Suc i..<?N] = []" using False by simp
    ultimately show ?thesis unfolding unf up using lo by simp
  qed
qed

lemma unat_drop: "unat (drop_bit j (w :: u64)) = unat w div 2 ^ j"
proof -
  have "unat w < 2 ^ 64" by (rule order_less_le_trans [OF unsigned_less]) simp
  then have "take_bit 64 (unat w) = unat w" by (simp only: take_bit_eq_mod mod_less)
  moreover have "unat (drop_bit j w) = drop_bit j (take_bit LENGTH(64) (unat w))" by (simp only: unsigned_drop_bit_eq)
  ultimately show ?thesis by (simp only: drop_bit_eq_div len_num1 len_bit0) simp
qed

lemma unat_or_mask: "j \<le> 64 \<Longrightarrow> unat ((w :: u64) OR mask j) = unat w div 2 ^ j * 2 ^ j + (2 ^ j - 1)"
proof -
  assume j: "j \<le> 64"
  let ?x = "w OR mask j"
  have "?x AND mask j = mask j" by (rule bit_word_eqI) (auto simp: bit_simps)
  then have "unat ?x mod 2 ^ j = unat (mask j :: u64)" by (metis unat_and_mask)
  also have "unat (mask j :: u64) = unat (NOT 0 :: u64) mod 2 ^ j"
    by (metis (no_types) unat_and_mask bit.compl_zero and.left_neutral)
  also have "unat (NOT 0 :: u64) = 2 ^ 64 - 1" by (simp add: unsigned_minus_1_eq_mask mask_eq_exp_minus_1)
  also have "(2 ^ 64 - 1) mod 2 ^ j = 2 ^ j - (1 :: nat)"
  proof -
    have "(2 :: nat) ^ 64 = 2 ^ j * 2 ^ (64 - j)" using j by (simp flip: power_add)
    moreover have "a * b - 1 = a * (b - 1) + (a - 1)" if "0 < a" "0 < b" for a b :: nat
      using that by (cases b) auto
    ultimately have "(2 :: nat) ^ 64 - 1 = 2 ^ j * (2 ^ (64 - j) - 1) + (2 ^ j - 1)" by (metis zero_less_numeral zero_less_power)
    then show ?thesis by (metis mod_mult_self4 mod_less diff_less zero_less_numeral zero_less_power less_numeral_extra(1))
  qed
  finally have "unat ?x mod 2 ^ j = 2 ^ j - 1" .
  moreover have "drop_bit j ?x = drop_bit j w" by (rule bit_word_eqI) (auto simp: bit_simps)
  then have "unat ?x div 2 ^ j = unat w div 2 ^ j" by (metis unat_drop)
  ultimately show ?thesis by (metis div_mult_mod_eq)
qed

definition rcur :: "u64 \<Rightarrow> nat" where
  "rcur v = unat (word_reverse v)"

lemma rcur_less: "rcur v < 2 ^ 64"
  unfolding rcur_def by (rule order_less_le_trans [OF unsigned_less]) simp

lemma rcur_zero: "rcur v = 0 \<longleftrightarrow> v = 0"
proof -
  have "word_reverse (0 :: u64) = 0" by (rule bit_word_eqI) (simp add: bit_simps)
  then show ?thesis by (metis rcur_def unat_eq_zero word_rev_rev)
qed

text \<open>Words that agree on the low \<open>k\<close> bits are those whose reversals lie in one block.\<close>

lemma same_block:
  assumes "k < 64"
  shows "unat (h :: u64) mod 2 ^ k = unat v mod 2 ^ k \<longleftrightarrow> rcur h div 2 ^ (64 - k) = rcur v div 2 ^ (64 - k)"
proof -
  have "drop_bit (64 - k) (word_reverse h) = drop_bit (64 - k) (word_reverse v) \<longleftrightarrow> take_bit k h = take_bit k v"
  proof
    assume eq: "drop_bit (64 - k) (word_reverse h) = drop_bit (64 - k) (word_reverse v)"
    show "take_bit k h = take_bit k v"
    proof (rule bit_word_eqI)
      fix n assume "n < LENGTH(64)"
      show "bit (take_bit k h) n = bit (take_bit k v) n"
      proof (cases "n < k")
        case True
        have "bit (drop_bit (64 - k) (word_reverse w)) (k - Suc n) = bit w n" for w :: u64
          using True assms by (auto simp: bit_simps)
        then have "bit h n = bit v n" using eq by metis
        then show ?thesis using True by (simp add: bit_take_bit_iff)
      qed (simp add: bit_simps)
    qed
  next
    assume eq: "take_bit k h = take_bit k v"
    show "drop_bit (64 - k) (word_reverse h) = drop_bit (64 - k) (word_reverse v)"
    proof (rule bit_word_eqI)
      fix n assume "n < LENGTH(64)"
      show "bit (drop_bit (64 - k) (word_reverse h)) n = bit (drop_bit (64 - k) (word_reverse v)) n"
      proof (cases "n < k")
        case True
        have "bit (drop_bit (64 - k) (word_reverse w)) n = bit (take_bit k w) (k - Suc n)" for w :: u64
          using True assms by (auto simp: bit_simps)
        then show ?thesis using eq by simp
      next
        case False
        then have "\<not> 64 - k + n < 64" using assms by simp
        then show ?thesis by (simp add: bit_simps)
      qed
    qed
  qed
  moreover have "take_bit k h = take_bit k v \<longleftrightarrow> unat h mod 2 ^ k = unat v mod 2 ^ k"
    by (metis take_bit_eq_mask unat_and_mask word_unat_eq_iff)
  moreover have "drop_bit (64 - k) (word_reverse h) = drop_bit (64 - k) (word_reverse v)
      \<longleftrightarrow> rcur h div 2 ^ (64 - k) = rcur v div 2 ^ (64 - k)"
    by (metis rcur_def unat_drop word_unat_eq_iff)
  ultimately show ?thesis by blast
qed

lemma rcur_scan_next:
  assumes "k < 64"
  shows "rcur (scan_next (mask k) v) = (rcur v div 2 ^ (64 - k) + 1) * 2 ^ (64 - k) mod 2 ^ 64"
proof -
  let ?j = "64 - k"
  have r: "word_reverse (v OR NOT (mask k)) = word_reverse v OR mask ?j"
    using assms by (intro bit_word_eqI) (auto simp: bit_simps)
  have "rcur (scan_next (mask k) v) = unat ((word_reverse v OR mask ?j) + 1)"
    by (simp add: rcur_def scan_next_def dict_rev_reverse r)
  also have "\<dots> = (unat (word_reverse v OR mask ?j) + 1) mod 2 ^ 64" by (simp add: unat_word_ariths)
  also have "unat (word_reverse v OR mask ?j) + 1 = (rcur v div 2 ^ ?j + 1) * 2 ^ ?j"
    by (simp add: unat_or_mask rcur_def algebra_simps)
  finally show ?thesis .
qed

lemma scan_next_low:
  assumes "unat v' mod 2 ^ k = unat v mod 2 ^ k"
  shows "scan_next (mask k) v' = scan_next (mask k) v"
proof -
  have "v' AND mask k = v AND mask k" using assms by (metis unat_and_mask word_unat_eq_iff)
  moreover have "w OR NOT (mask k) = (w AND mask k) OR NOT (mask k)" for w :: u64
    by (rule bit_word_eqI) (auto simp: bit_simps)
  ultimately show ?thesis by (metis scan_next_def)
qed

section \<open>What a call returns\<close>

definition small_size :: "('k, 'v) dict \<Rightarrow> nat" where
  "small_size d = (if dictIsRehashing d then min (ht_size (ht0 d)) (ht_size (ht1 d)) else ht_size (ht0 d))"

lemma ht_pow2:
  assumes "ht_ok hash ht" "ht_size ht \<noteq> 0"
  obtains k where "k < 64" "ht_size ht = 2 ^ k" "length (ht_table ht) = 2 ^ k" "(of_nat (ht_sizemask ht) :: u64) = mask k"
    "\<And>e. e \<in> set (concat (ht_table ht)) \<Longrightarrow> e \<in> set (ht_table ht ! (unat (hash (fst e)) mod 2 ^ k))"
proof -
  obtain k where k: "k < 64" "ht_size ht = 2 ^ k" "ht_sizemask ht = 2 ^ k - 1" "length (ht_table ht) = 2 ^ k"
    using assms by (auto simp: ht_ok_def pow2_size_def)
  have e: "e \<in> set (ht_table ht ! (unat (hash (fst e)) mod 2 ^ k))" if en: "e \<in> set (concat (ht_table ht))" for e
  proof -
    obtain i where i: "i < length (ht_table ht)" "e \<in> set (ht_table ht ! i)"
      using en by (metis UN_E in_set_conv_nth set_concat)
    then have "slot (2 ^ k - 1) (hash (fst e)) = i" using assms(1) k(3) by (metis ht_ok_def)
    then show ?thesis using i(2) slot_mod [OF k(1)] by simp
  qed
  show ?thesis by (rule that [OF k(1,2,4) _ e]) (use k mask_u64 in simp_all)
qed

lemma dictScan_emits:
  assumes "dict_ok hash d" "dictSize d \<noteq> 0" "\<not> dictIsRehashing d \<or> unat v < small_size d"
  shows "\<exists>k es. k < 64 \<and> small_size d = 2 ^ k \<and> dictScan d v = Some (es, scan_next (mask k) v)
    \<and> (\<forall>e\<in>set (dict_entries d). unat (hash (fst e)) mod 2 ^ k = unat v mod 2 ^ k \<longrightarrow> e \<in> set es)"
proof (cases "dictIsRehashing d")
  case False
  have h1: "ht1 d = dictReset" using assms(1) False by (simp add: dict_ok_def rehash_ok_def)
  have h0: "ht_ok hash (ht0 d)" using assms(1) by (simp add: dict_ok_def)
  have "ht_size (ht0 d) \<noteq> 0" using assms(2) h0 h1 by (auto simp: dictSize_def dictReset_def ht_ok_def)
  from ht_pow2 [OF h0 this] obtain k where k: "k < 64" "ht_size (ht0 d) = 2 ^ k" "length (ht_table (ht0 d)) = 2 ^ k"
    "(of_nat (ht_sizemask (ht0 d)) :: u64) = mask k"
    "\<And>e. e \<in> set (concat (ht_table (ht0 d))) \<Longrightarrow> e \<in> set (ht_table (ht0 d) ! (unat (hash (fst e)) mod 2 ^ k))" by blast
  have "dictScan d v = Some (ht_table (ht0 d) ! (unat v mod 2 ^ k), scan_next (mask k) v)"
    using False assms(2) k(3,4) by (simp add: dictScan_def Let_def chain_at_def unat_and_mask)
  moreover have "e \<in> set (concat (ht_table (ht0 d)))" if "e \<in> set (dict_entries d)" for e
    using that h1 by (simp add: dict_entries_def dictReset_def)
  ultimately show ?thesis using k(1,2,5) False by (auto simp: small_size_def intro!: exI [of _ k]) metis
next
  case True
  define t0 where "t0 = (if ht_size (ht0 d) > ht_size (ht1 d) then ht1 d else ht0 d)"
  define t1 where "t1 = (if ht_size (ht0 d) > ht_size (ht1 d) then ht0 d else ht1 d)"
  note ok = dict_ok_simps [OF assms(1) True]
  have t: "ht_ok hash t0" "ht_size t0 \<noteq> 0" "ht_ok hash t1" "ht_size t1 \<noteq> 0" "ht_size t0 \<le> ht_size t1" "small_size d = ht_size t0"
    using ok True by (auto simp: t0_def t1_def small_size_def)
  from ht_pow2 [OF t(1,2)] obtain k where k: "k < 64" "ht_size t0 = 2 ^ k" "length (ht_table t0) = 2 ^ k"
    "(of_nat (ht_sizemask t0) :: u64) = mask k"
    "\<And>e. e \<in> set (concat (ht_table t0)) \<Longrightarrow> e \<in> set (ht_table t0 ! (unat (hash (fst e)) mod 2 ^ k))" by blast
  from ht_pow2 [OF t(3,4)] obtain k1 where k1: "k1 < 64" "ht_size t1 = 2 ^ k1" "length (ht_table t1) = 2 ^ k1"
    "(of_nat (ht_sizemask t1) :: u64) = mask k1"
    "\<And>e. e \<in> set (concat (ht_table t1)) \<Longrightarrow> e \<in> set (ht_table t1 ! (unat (hash (fst e)) mod 2 ^ k1))" by blast
  have kk: "k \<le> k1" using t(5) k(2) k1(2) by (simp add: power_increasing_iff)
  define a where "a = unat v mod 2 ^ k"
  have vk: "unat v < 2 ^ k" using assms(3) True t(6) k(2) by simp
  then have "unat v < 2 ^ k1" using kk by (meson one_le_numeral order_less_le_trans power_increasing)
  then have v0: "unat v mod 2 ^ k1 = a + 0 * 2 ^ k" using vk by (simp add: a_def)
  have a: "a < 2 ^ k" by (simp add: a_def)
  let ?c = "ht_table t0 ! a" and ?es = "concat (map (\<lambda>j. ht_table t1 ! (a + j * 2 ^ k)) [0..<2 ^ (k1 - k)])"
  obtain v' where v': "scan_expand t1 (mask k) (mask k1) v ?c = Some (?c @ ?es, v')" "unat v' mod 2 ^ k = a"
    using scan_expand_spec [OF kk k1(1,3) a v0, of ?c] by auto
  have pair: "(if ht_size (ht0 d) > ht_size (ht1 d) then (ht1 d, ht0 d) else (ht0 d, ht1 d)) = (t0, t1)"
    by (simp add: t0_def t1_def)
  have "chain_at t0 (unat (v AND mask k)) = Some ?c" using k(3) a by (simp add: chain_at_def unat_and_mask a_def)
  then have scan: "dictScan d v = Some (?c @ ?es, scan_next (mask k) v)"
    using True assms(2) v'(1) scan_next_low [of v' k v] v'(2) a_def
    unfolding dictScan_def pair by (simp add: Let_def k(4) k1(4))
  have "e \<in> set (?c @ ?es)" if e: "e \<in> set (dict_entries d)" and h: "unat (hash (fst e)) mod 2 ^ k = unat v mod 2 ^ k" for e
  proof -
    have "e \<in> set (concat (ht_table t0)) \<or> e \<in> set (concat (ht_table t1))"
      using e by (auto simp: dict_entries_def t0_def t1_def)
    then show ?thesis
    proof
      assume "e \<in> set (concat (ht_table t0))"
      then show ?thesis using k(5) [of e] h by (simp add: a_def)
    next
      assume "e \<in> set (concat (ht_table t1))"
      let ?i = "unat (hash (fst e)) mod 2 ^ k1"
      have "?i mod 2 ^ k = a" using mod_pow_mod [OF kk] h by (simp add: a_def)
      then have i: "?i = a + ?i div 2 ^ k * 2 ^ k" by (metis add.commute div_mult_mod_eq)
      have "?i < 2 ^ (k1 - k) * 2 ^ k" using kk by (simp flip: power_add)
      then have "?i div 2 ^ k < 2 ^ (k1 - k)" by (simp add: less_mult_imp_div_less)
      moreover have "e \<in> set (ht_table t1 ! (a + ?i div 2 ^ k * 2 ^ k))"
        using k1(5) [OF \<open>e \<in> set (concat (ht_table t1))\<close>] i by simp
      ultimately have "e \<in> set ?es" by auto
      then show ?thesis by simp
    qed
  qed
  then show ?thesis using k(1,2) t(6) scan by (intro exI [of _ k] exI [of _ "?c @ ?es"]) auto
qed

section \<open>What a whole iteration returns\<close>

text \<open>A cursor that a call on a table of \<open>2 ^ k\<close> slots returned is below \<open>2 ^ k\<close>.\<close>

lemma scan_next_bound:
  assumes "k < 64"
  shows "unat (scan_next (mask k) v) < 2 ^ k"
proof -
  let ?w = "scan_next (mask k) v" and ?j = "64 - k"
  have dv: "(2 :: nat) ^ ?j dvd 2 ^ 64" using assms by (intro le_imp_power_dvd) auto
  have "rcur ?w mod 2 ^ ?j = 0"
    using rcur_scan_next [OF assms, of v] dv by (simp add: mod_mod_cancel)
  then have "word_reverse ?w AND mask ?j = 0"
    by (metis rcur_def unat_and_mask unat_eq_zero)
  then have z: "\<not> bit ?w i" if "k \<le> i" "i < 64" for i
  proof -
    have "bit (word_reverse ?w AND mask ?j) (63 - i) = bit ?w i" using that by (auto simp: bit_simps)
    then show ?thesis using \<open>word_reverse ?w AND mask ?j = 0\<close> by simp
  qed
  have "?w = take_bit k ?w"
    by (rule bit_word_eqI) (use z in \<open>auto simp: bit_simps not_less [symmetric]\<close>)
  then have "unat ?w = unat ?w mod 2 ^ k" by (metis take_bit_eq_mask unat_and_mask)
  then show ?thesis by (metis mod_less_divisor zero_less_numeral zero_less_power)
qed

lemma scan_run_covers:
  assumes "\<forall>d\<in>set ds. dict_ok hash d" "\<forall>d\<in>set ds. dict_map d key \<noteq> None" "sorted (map small_size ds)" "ds \<noteq> []"
    and "scan_run ds v = Some (es, 0)" "unat v < small_size (hd ds)" "rcur v \<le> rcur (ucast (hash key))"
  shows "key \<in> fst ` set es"
  using assms
proof (induction ds arbitrary: v es)
  case (Cons d ds)
  let ?h = "ucast (hash key) :: u64"
  have ok: "dict_ok hash d" using Cons.prems(1) by simp
  obtain x where x: "(key, x) \<in> set (dict_entries d)" using Cons.prems(2) by (auto simp: dict_map_def dest: map_of_SomeD)
  have "dictSize d = length (dict_entries d)" using ok by (simp add: dictSize_def dict_entries_def dict_ok_def ht_ok_def)
  then have "dictSize d \<noteq> 0" using x by (cases "dict_entries d") auto
  then obtain k es1 where k: "k < 64" "small_size d = 2 ^ k" and scan: "dictScan d v = Some (es1, scan_next (mask k) v)"
    and em: "\<forall>e\<in>set (dict_entries d). unat (hash (fst e)) mod 2 ^ k = unat v mod 2 ^ k \<longrightarrow> e \<in> set es1"
    using dictScan_emits [OF ok, of v] Cons.prems(6) by auto
  let ?v = "scan_next (mask k) v"
  obtain es2 where run: "scan_run ds ?v = Some (es2, 0)" "es = es1 @ es2"
    using Cons.prems(5) scan by (auto split: bind_splits)
  have uh: "unat ?h = unat (hash key)"
    by (simp add: unsigned_ucast_eq take_bit_eq_mod order_less_le_trans [OF unsigned_less])
  show ?case
  proof (cases "unat (hash key) mod 2 ^ k = unat v mod 2 ^ k")
    case True
    then have "(key, x) \<in> set es1" using em x by auto
    then show ?thesis using run(2) by force
  next
    case False
    let ?j = "64 - k"
    have ne: "rcur ?h div 2 ^ ?j \<noteq> rcur v div 2 ^ ?j" using False same_block [OF k(1), of ?h v] uh by simp
    moreover have "rcur v div 2 ^ ?j \<le> rcur ?h div 2 ^ ?j" using Cons.prems(7) by (rule div_le_mono)
    ultimately have "rcur v div 2 ^ ?j + 1 \<le> rcur ?h div 2 ^ ?j" by simp
    then have "(rcur v div 2 ^ ?j + 1) * 2 ^ ?j \<le> rcur ?h div 2 ^ ?j * 2 ^ ?j" by (rule mult_right_mono) simp
    also have "\<dots> \<le> rcur ?h" by simp
    finally have le: "(rcur v div 2 ^ ?j + 1) * 2 ^ ?j \<le> rcur ?h" .
    then have nxt: "rcur ?v = (rcur v div 2 ^ ?j + 1) * 2 ^ ?j"
      using rcur_scan_next [OF k(1), of v] rcur_less [of ?h] by simp
    have "ds \<noteq> []"
    proof
      assume "ds = []"
      then have "?v = 0" using run(1) by simp
      then show False using nxt rcur_zero [of ?v] by simp
    qed
    moreover from this have "small_size d \<le> small_size (hd ds)" using Cons.prems(3) by (cases ds) auto
    then have "unat ?v < small_size (hd ds)" using scan_next_bound [OF k(1), of v] k(2) by simp
    ultimately have "key \<in> fst ` set es2"
      using Cons.IH [OF _ _ _ _ run(1)] Cons.prems(1-3) nxt le by auto
    then show ?thesis using run(2) by auto
  qed
qed simp

section \<open>Properties\<close>

text \<open>The bit trick of \<^verbatim>\<open>rev\<close> reverses the bits of a word: bit \<open>i\<close> of the result is bit
  \<open>63 - i\<close> of the argument.\<close>

theorem dict_rev_correct: "dict_rev v = word_reverse v"
  by (rule dict_rev_reverse)

text \<open>C33: The guarantee of \<^verbatim>\<open>dictScan\<close>: in an iteration that starts at cursor 0 and comes back to it, with
  any changes to the dictionary between the calls as long as it does not shrink, every key that is
  present in all calls is returned by at least one of them.\<close>

theorem dictScan_complete:
  assumes "\<forall>d\<in>set ds. dict_ok hash d" "\<forall>d\<in>set ds. dict_map d key \<noteq> None" "sorted (map small_size ds)" "ds \<noteq> []"
    and "scan_run ds 0 = Some (es, 0)"
  shows "key \<in> fst ` set es"
proof (rule scan_run_covers [OF assms])
  obtain d where d: "d = hd ds" "d \<in> set ds" using assms(4) by simp
  then have "ht_size (ht0 d) \<noteq> 0"
  proof -
    have ok: "dict_ok hash d" "dict_map d key \<noteq> None" using d assms(1,2) by auto
    then show ?thesis
      using rehash_if_needed_empty [OF ok(1)]
      by (auto simp: dict_map_def dict_entries_def dict_ok_def rehash_ok_def dictReset_def ht_ok_def)
  qed
  then show "unat (0 :: u64) < small_size (hd ds)"
    using assms(1) d by (auto simp: small_size_def dict_ok_def rehash_ok_def)
  show "rcur 0 \<le> rcur (ucast (hash key))" using rcur_zero [of 0] by simp
qed

definition scan_example :: "(nat, nat) dict" where
  "scan_example =
     \<lparr>ht0 = \<lparr>ht_table = [[(2, 20), (0, 10)], [(1, 11)]], ht_size = 2, ht_sizemask = 1, ht_used = 3\<rparr>,
      ht1 = dictReset, rehashidx = - 1, iterators = 0\<rparr>"

lemma scan_example_ok: "dict_ok nat_hash scan_example"
proof -
  have s: "slot 1 0 = 0" "slot 1 2 = 0" "slot 1 1 = 1" by (simp_all add: slot_def)
  have "pow2_size 2" by (auto simp: pow2_size_def intro: exI [of _ 1])
  then show ?thesis using s
    by (simp add: dict_ok_def scan_example_def ht_ok_def dict_entries_def rehash_ok_def dictIsRehashing_def nat_hash_def
        dictReset_def All_less_Suc)
qed

theorem dictScan_complete_witness:
  "scan_run [scan_example, scan_example] 0 = Some ([(2, 20), (0, 10), (1, 11)], 0) \<and> 2 \<in> fst ` set [(2, 20), (0, 10), (1, 11 :: nat)]"
proof -
  have run: "scan_run [scan_example, scan_example] 0 = Some ([(2, 20), (0, 10), (1, 11)], 0)" by code_simp
  have "dict_map scan_example 2 = Some 20" by code_simp
  then show ?thesis
    using dictScan_complete [of "[scan_example, scan_example]" nat_hash 2, OF _ _ _ _ run] run scan_example_ok by simp
qed

definition shrink_example :: "(nat, nat) dict" where
  "shrink_example =
     \<lparr>ht0 = \<lparr>ht_table = (replicate 16 []) [4 := [(4, 40)]], ht_size = 16, ht_sizemask = 15, ht_used = 1\<rparr>,
      ht1 = dictReset, rehashidx = - 1, iterators = 0\<rparr>"

definition shrunk_example :: "(nat, nat) dict" where
  "shrunk_example = shrink_example\<lparr>ht1 := \<lparr>ht_table = replicate 4 [], ht_size = 4, ht_sizemask = 3, ht_used = 0\<rparr>, rehashidx := 0\<rparr>"

lemma shrunk_example_resize: "dictResize True shrink_example = (shrunk_example, True)"
proof -
  have "dictNextPower 4 = 4"
    by (simp add: dictNextPower_def LONG_MAX_def DICT_HT_INITIAL_SIZE_def dictNextPower_loop.simps)
  then show ?thesis
    by (simp add: dictResize_def shrink_example_def shrunk_example_def dictExpand_def dictIsRehashing_def DICT_HT_INITIAL_SIZE_def Let_def sign_extend_def)
qed

lemma shrunk_example_expand:
  "scan_expand (ht0 shrunk_example) 3 15 8 [] = Some ([], 16)" "scan_expand (ht0 shrunk_example) 3 15 2 [] = Some ([], 18)"
  "scan_expand (ht0 shrunk_example) 3 15 1 [] = Some ([], 17)" "scan_expand (ht0 shrunk_example) 3 15 3 [] = Some ([], 19)"
proof -
  have c: "i \<noteq> 4 \<Longrightarrow> i < 16 \<Longrightarrow> chain_at (ht0 shrunk_example) i = Some []" for i
    by (simp add: chain_at_def shrunk_example_def shrink_example_def)
  have step: "scan_expand (ht0 shrunk_example) 3 15 v [] =
      (if w AND (3 XOR 15) \<noteq> 0 then scan_expand (ht0 shrunk_example) 3 15 w [] else Some ([], w))"
    if "w = (((v OR 3) + 1) AND NOT 3) OR (v AND 3)" "unat (v AND 15) \<noteq> 4" for v w
  proof -
    have "unat (v AND mask 4) < 16" by (simp add: unat_and_mask)
    then show ?thesis using that c [of "unat (v AND 15)"] by (subst scan_expand.simps) (simp add: mask_eq_exp_minus_1 Let_def)
  qed
  show "scan_expand (ht0 shrunk_example) 3 15 8 [] = Some ([], 16)" "scan_expand (ht0 shrunk_example) 3 15 2 [] = Some ([], 18)"
    "scan_expand (ht0 shrunk_example) 3 15 1 [] = Some ([], 17)" "scan_expand (ht0 shrunk_example) 3 15 3 [] = Some ([], 19)"
    using step [of 12 8] step [of 16 12] step [of 6 2] step [of 10 6] step [of 14 10] step [of 18 14]
      step [of 5 1] step [of 9 5] step [of 13 9] step [of 17 13] step [of 7 3] step [of 11 7] step [of 15 11] step [of 19 15]
    by simp_all
qed

lemma shrunk_example_scan:
  "dictScan shrink_example 0 = Some ([], 8)" "dictScan shrunk_example 8 = Some ([], 2)" "dictScan shrunk_example 2 = Some ([], 1)"
  "dictScan shrunk_example 1 = Some ([], 3)" "dictScan shrunk_example 3 = Some ([], 0)"
proof -
  have n: "scan_next 15 0 = 8" "scan_next 3 16 = 2" "scan_next 3 18 = 1" "scan_next 3 17 = 3" "scan_next 3 19 = 0" by code_simp+
  have c: "chain_at (ht1 shrunk_example) (unat (v AND 3)) = Some []" for v :: u64
    using unat_and_mask [of v 2] by (simp add: chain_at_def shrunk_example_def mask_eq_exp_minus_1)
  have d: "dictScan shrunk_example v = do { (es, v') \<leftarrow> scan_expand (ht0 shrunk_example) 3 15 v []; Some (es, scan_next 3 v') }" for v
    using c [of v] by (simp add: dictScan_def shrunk_example_def shrink_example_def dictSize_def dictIsRehashing_def)
  show "dictScan shrink_example 0 = Some ([], 8)" using n(1)
    by (simp add: dictScan_def shrink_example_def dictSize_def dictIsRehashing_def dictReset_def chain_at_def)
  show "dictScan shrunk_example 8 = Some ([], 2)" "dictScan shrunk_example 2 = Some ([], 1)"
    "dictScan shrunk_example 1 = Some ([], 3)" "dictScan shrunk_example 3 = Some ([], 0)"
    using n shrunk_example_expand by (simp_all add: d)
qed

lemma shrunk_example_run:
  "dict_map shrink_example 4 = Some 40" "dict_map shrunk_example 4 = Some 40"
  "scan_run [shrink_example, shrunk_example, shrunk_example, shrunk_example, shrunk_example] 0 = Some ([], 0)"
  by (code_simp, code_simp, simp add: shrunk_example_scan)

text \<open>When the table shrinks from 16 to 4 slots in the middle of an iteration, an entry that is present
  in every call is returned by none: the loop over the expansions starts at the bits of the
  cursor and counts upwards, so that slot 4 of the larger table is neither visited now nor was before.\<close>

theorem dictScan_misses_on_shrink:
  "(let d = shrink_example; d' = fst (dictResize True d)
    in dict_map d 4 = Some 40 \<and> dict_map d' 4 = Some 40 \<and> scan_run [d, d', d', d', d'] 0 = Some ([], 0))"
  using shrunk_example_run by (simp only: shrunk_example_resize Let_def fst_conv simp_thms)

end
