(* ===== verification/Dict_Iter.thy ===== *)
theory Dict_Iter
  imports Dict Util
begin

unbundle bit_operations_syntax

text \<open>
  The remaining functions of \<^verbatim>\<open>dict.c\<close>: hash functions, iterators with their fingerprint, random keys and
  \<^verbatim>\<open>dictEmpty\<close>. An iterator keeps the current entry and the rest of its chain (the \<^verbatim>\<open>nextEntry\<close>
  pointer). Addresses of the tables, which enter the fingerprint, and the results of \<^verbatim>\<open>random\<close>
  are parameters.
\<close>

section \<open>Hash functions\<close>

definition dictIntHashFunction :: "u32 \<Rightarrow> u32" where
  "dictIntHashFunction key =
     (let key = key + NOT (push_bit 15 key);
          key = key XOR drop_bit 10 key;
          key = key + push_bit 3 key;
          key = key XOR drop_bit 6 key;
          key = key + NOT (push_bit 11 key);
          key = key XOR drop_bit 16 key
      in key)"

text \<open>MurmurHash2 on a little endian machine.\<close>

definition murmur_m :: u32 where
  "murmur_m = 0x5bd1e995"

fun murmur_loop :: "u32 \<Rightarrow> u8 list \<Rightarrow> u32 \<times> u8 list" where
  "murmur_loop h (a # b # c # d # data) =
     (let k = word_of_int (get_le [a, b, c, d]);
          k = k * murmur_m;
          k = k XOR drop_bit 24 k;
          k = k * murmur_m;
          h = h * murmur_m;
          h = h XOR k
      in murmur_loop h data)"
| "murmur_loop h data = (h, data)"

definition dictGenHashFunction :: "u32 \<Rightarrow> u8 list \<Rightarrow> u32" where
  "dictGenHashFunction seed data =
     (let h = seed XOR of_nat (length data);
          (h, tl) = murmur_loop h data;
          h = (if length tl = 3 then h XOR push_bit 16 (ucast (tl ! 2)) else h);
          h = (if length tl \<ge> 2 then h XOR push_bit 8 (ucast (tl ! 1)) else h);
          h = (if length tl \<ge> 1 then (h XOR ucast (tl ! 0)) * murmur_m else h);
          h = h XOR drop_bit 13 h;
          h = h * murmur_m;
          h = h XOR drop_bit 15 h
      in h)"

fun dictGenCaseHashFunction :: "u32 \<Rightarrow> u8 list \<Rightarrow> u32" where
  "dictGenCaseHashFunction hash [] = hash"
| "dictGenCaseHashFunction hash (c # buf) =
     dictGenCaseHashFunction ((push_bit 5 hash + hash) + ucast (tolower_byte c)) buf"

section \<open>Iterators\<close>

fun fingerprint_loop :: "u64 \<Rightarrow> u64 list \<Rightarrow> u64" where
  "fingerprint_loop hash [] = hash"
| "fingerprint_loop hash (i # is) =
     (let hash = hash + i;
          hash = NOT hash + push_bit 21 hash;
          hash = hash XOR signed_drop_bit 24 hash;
          hash = (hash + push_bit 3 hash) + push_bit 8 hash;
          hash = hash XOR signed_drop_bit 14 hash;
          hash = (hash + push_bit 2 hash) + push_bit 4 hash;
          hash = hash XOR signed_drop_bit 28 hash;
          hash = hash + push_bit 31 hash
      in fingerprint_loop hash is)"

definition dictFingerprint :: "u64 \<Rightarrow> u64 \<Rightarrow> ('k, 'v) dict \<Rightarrow> u64" where
  "dictFingerprint addr0 addr1 d =
     fingerprint_loop 0
       [addr0, of_nat (ht_size (ht0 d)), of_nat (ht_used (ht0 d)), addr1, of_nat (ht_size (ht1 d)), of_nat (ht_used (ht1 d))]"

record ('k, 'v) dictIterator =
  it_index :: int
  it_table :: nat
  it_safe :: bool
  it_entry :: "('k \<times> 'v) option"
  it_next :: "('k, 'v) chain"
  it_fingerprint :: u64

definition dictGetIterator :: "('k, 'v) dictIterator" where
  "dictGetIterator = \<lparr>it_index = - 1, it_table = 0, it_safe = False, it_entry = None, it_next = [], it_fingerprint = 0\<rparr>"

definition dictGetSafeIterator :: "('k, 'v) dictIterator" where
  "dictGetSafeIterator = dictGetIterator\<lparr>it_safe := True\<rparr>"

text \<open>The start of an iteration: a safe iterator stops the rehashing, an unsafe one remembers the
  fingerprint.\<close>

definition iter_start :: "u64 \<Rightarrow> u64 \<Rightarrow> ('k, 'v) dict \<Rightarrow> ('k, 'v) dictIterator \<Rightarrow> ('k, 'v) dict \<times> ('k, 'v) dictIterator" where
  "iter_start addr0 addr1 d it =
     (if it_index it = - 1 \<and> it_table it = 0 then
        if it_safe it then (d\<lparr>iterators := iterators d + 1\<rparr>, it)
        else (d, it\<lparr>it_fingerprint := dictFingerprint addr0 addr1 d\<rparr>)
      else (d, it))"

text \<open>The pointer to an entry is NULL or the head of a chain.\<close>

definition set_entry :: "('k, 'v) chain \<Rightarrow> ('k, 'v) dictIterator \<Rightarrow> ('k, 'v) dictIterator" where
  "set_entry c it = (case c of [] \<Rightarrow> it\<lparr>it_entry := None\<rparr> | e # r \<Rightarrow> it\<lparr>it_entry := Some e, it_next := r\<rparr>)"

partial_function (option) dictNext ::
  "u64 \<Rightarrow> u64 \<Rightarrow> ('k, 'v) dict \<Rightarrow> ('k, 'v) dictIterator \<Rightarrow> (('k, 'v) dict \<times> ('k, 'v) dictIterator \<times> ('k \<times> 'v) option) option" where
  "dictNext addr0 addr1 d it =
     (if it_entry it = None then
        let (d, it) = iter_start addr0 addr1 d it;
            ht = (if it_table it = 0 then ht0 d else ht1 d);
            it = it\<lparr>it_index := it_index it + 1\<rparr>
        in if it_index it \<ge> int (ht_size ht) then
             if dictIsRehashing d \<and> it_table it = 0 then
               let it = it\<lparr>it_table := 1, it_index := 0\<rparr>
               in do { c \<leftarrow> chain_at (ht1 d) 0;
                       let it = set_entry c it in
                       if it_entry it \<noteq> None then Some (d, it, it_entry it) else dictNext addr0 addr1 d it }
             else Some (d, it, None)
           else
             do { c \<leftarrow> chain_at ht (nat (it_index it));
                  let it = set_entry c it in
                  if it_entry it \<noteq> None then Some (d, it, it_entry it) else dictNext addr0 addr1 d it }
      else
        let it = set_entry (it_next it) it
        in if it_entry it \<noteq> None then Some (d, it, it_entry it) else dictNext addr0 addr1 d it)"

text \<open>A failed assertion on the fingerprint is \<open>None\<close>.\<close>

definition dictReleaseIterator :: "u64 \<Rightarrow> u64 \<Rightarrow> ('k, 'v) dict \<Rightarrow> ('k, 'v) dictIterator \<Rightarrow> ('k, 'v) dict option" where
  "dictReleaseIterator addr0 addr1 d it =
     (if \<not> (it_index it = - 1 \<and> it_table it = 0) then
        if it_safe it then Some (d\<lparr>iterators := iterators d - 1\<rparr>)
        else if it_fingerprint it = dictFingerprint addr0 addr1 d then Some d else None
      else Some d)"

text \<open>The loop \<^verbatim>\<open>while ((de = dictNext (di)) != NULL)\<close> of the callers.\<close>

partial_function (option) iterate ::
  "u64 \<Rightarrow> u64 \<Rightarrow> ('k, 'v) dict \<Rightarrow> ('k, 'v) dictIterator \<Rightarrow> ('k \<times> 'v) list \<Rightarrow> (('k \<times> 'v) list \<times> ('k, 'v) dict \<times> ('k, 'v) dictIterator) option" where
  "iterate addr0 addr1 d it acc =
     do { (d, it, e) \<leftarrow> dictNext addr0 addr1 d it;
          (case e of None \<Rightarrow> Some (acc, d, it) | Some x \<Rightarrow> iterate addr0 addr1 d it (acc @ [x])) }"

section \<open>Random keys\<close>

text \<open>The results of \<^verbatim>\<open>random\<close> are taken from a list; when it is used up the loop has not ended.\<close>

fun random_bucket :: "('k, 'v) dict \<Rightarrow> nat list \<Rightarrow> (('k, 'v) chain \<times> nat list) option" where
  "random_bucket d [] = None"
| "random_bucket d (r # rs) =
     (if dictIsRehashing d then
        let h = nat (rehashidx d) + r mod (ht_size (ht0 d) + ht_size (ht1 d) - nat (rehashidx d))
        in do { he \<leftarrow> (if h \<ge> ht_size (ht0 d) then chain_at (ht1 d) (h - ht_size (ht0 d)) else chain_at (ht0 d) h);
                if he = [] then random_bucket d rs else Some (he, rs) }
      else
        do { he \<leftarrow> chain_at (ht0 d) (unat ((of_nat r :: u64) AND of_nat (ht_sizemask (ht0 d))));
             if he = [] then random_bucket d rs else Some (he, rs) })"

definition dictGetRandomKey ::
  "('k \<Rightarrow> u32) \<Rightarrow> nat list \<Rightarrow> ('k, 'v) dict \<Rightarrow> (('k, 'v) dict \<times> ('k \<times> 'v) option) option" where
  "dictGetRandomKey hash rs d =
     (if dictSize d = 0 then Some (d, None)
      else do {
        d1 \<leftarrow> rehash_if_needed hash d;
        (he, rs') \<leftarrow> random_bucket d1 rs;
        (case rs' of
           [] \<Rightarrow> None
         | r # _ \<Rightarrow> let listlen = length he; listele = r mod listlen in Some (d1, Some (he ! listele))) })"

section \<open>Iterating over all entries\<close>

text \<open>What an iterator has still to return.\<close>

definition remaining :: "('k, 'v) dict \<Rightarrow> ('k, 'v) dictIterator \<Rightarrow> ('k \<times> 'v) list" where
  "remaining d it =
     (if it_entry it = None then [] else it_next it)
     @ concat (drop (nat (it_index it + 1)) (ht_table (if it_table it = 0 then ht0 d else ht1 d)))
     @ (if it_table it = 0 then concat (ht_table (ht1 d)) else [])"

definition buckets_left :: "('k, 'v) dict \<Rightarrow> ('k, 'v) dictIterator \<Rightarrow> nat" where
  "buckets_left d it =
     (if it_table it = 0 then length (ht_table (ht0 d)) - nat (it_index it + 1) + length (ht_table (ht1 d)) + 1
      else length (ht_table (ht1 d)) - nat (it_index it + 1))"

definition same_tables :: "('k, 'v) dict \<Rightarrow> ('k, 'v) dict \<Rightarrow> bool" where
  "same_tables d d' \<longleftrightarrow> ht0 d' = ht0 d \<and> ht1 d' = ht1 d \<and> rehashidx d' = rehashidx d"

definition iter_ok :: "('k, 'v) dict \<Rightarrow> ('k, 'v) dictIterator \<Rightarrow> bool" where
  "iter_ok d it \<longleftrightarrow> - 1 \<le> it_index it \<and> it_table it \<le> 1 \<and> (it_table it = 1 \<longrightarrow> dictIsRehashing d)"

lemma iter_start_props:
  assumes "iter_start addr0 addr1 d it = (d1, it1)"
  shows "same_tables d d1" "it_index it1 = it_index it" "it_table it1 = it_table it" "it_entry it1 = it_entry it" "it_next it1 = it_next it"
  using assms by (auto simp: iter_start_def same_tables_def split: if_splits)

lemma same_tables_simps:
  assumes "same_tables d d'"
  shows "ht0 d' = ht0 d" "ht1 d' = ht1 d" "dictIsRehashing d' = dictIsRehashing d" "remaining d' it = remaining d it"
    "buckets_left d' it = buckets_left d it" "iter_ok d' it = iter_ok d it"
  using assms by (auto simp: same_tables_def dictIsRehashing_def remaining_def buckets_left_def iter_ok_def)

lemma same_tables_trans: "same_tables d d1 \<Longrightarrow> same_tables d1 d2 \<Longrightarrow> same_tables d d2"
  by (simp add: same_tables_def)

definition tables_ok :: "('k, 'v) dict \<Rightarrow> bool" where
  "tables_ok d \<longleftrightarrow> ht_size (ht0 d) = length (ht_table (ht0 d)) \<and> ht_size (ht1 d) = length (ht_table (ht1 d))
     \<and> (if dictIsRehashing d then ht_size (ht1 d) \<noteq> 0 else ht_table (ht1 d) = [])"

lemma tables_ok_dict: "dict_ok hash d \<Longrightarrow> tables_ok d"
  by (auto simp: tables_ok_def dict_ok_def ht_ok_def rehash_ok_def dictReset_def)

lemma tables_ok_same: "tables_ok d \<Longrightarrow> same_tables d d' \<Longrightarrow> tables_ok d'"
  by (auto simp: tables_ok_def same_tables_def dictIsRehashing_def split: if_splits)

lemma set_entry_nonempty: "(it_entry (set_entry c it) \<noteq> None) = (c \<noteq> [])"
  by (simp add: set_entry_def split: list.splits)

lemma set_entry_Nil: "it_entry it = None \<Longrightarrow> set_entry [] it = it"
  by (simp add: set_entry_def)

text \<open>What \<^verbatim>\<open>dictNext\<close> does with the chain it looks at next.\<close>

definition enter_chain ::
  "u64 \<Rightarrow> u64 \<Rightarrow> ('k, 'v) dict \<Rightarrow> ('k, 'v) dictIterator \<Rightarrow> ('k, 'v) chain \<Rightarrow> (('k, 'v) dict \<times> ('k, 'v) dictIterator \<times> ('k \<times> 'v) option) option" where
  "enter_chain addr0 addr1 d it c =
     (if c \<noteq> [] then Some (d, set_entry c it, it_entry (set_entry c it)) else dictNext addr0 addr1 d it)"

lemma enter_chain_eq:
  assumes "it_entry it = None"
  shows "(if it_entry (set_entry c it) \<noteq> None then Some (d, set_entry c it, it_entry (set_entry c it)) else dictNext addr0 addr1 d (set_entry c it))
    = enter_chain addr0 addr1 d it c"
  using assms by (simp only: set_entry_nonempty enter_chain_def) (simp add: set_entry_Nil)

lemma dictNext_start:
  assumes "it_entry it = None" "iter_start addr0 addr1 d it = (d1, it1)" "(if it_table it1 = 0 then ht0 d1 else ht1 d1) = ht"
  shows "dictNext addr0 addr1 d it =
    (if it_index it1 + 1 \<ge> int (ht_size ht) then
       if dictIsRehashing d1 \<and> it_table it1 = 0
       then chain_at (ht1 d1) 0 \<bind> enter_chain addr0 addr1 d1 (it1\<lparr>it_table := 1, it_index := 0\<rparr>)
       else Some (d1, it1\<lparr>it_index := it_index it1 + 1\<rparr>, None)
     else chain_at ht (nat (it_index it1 + 1)) \<bind> enter_chain addr0 addr1 d1 (it1\<lparr>it_index := it_index it1 + 1\<rparr>))"
proof -
  have e: "it_entry it1 = None" using iter_start_props [OF assms(2)] assms(1) by simp
  have e1: "it_entry (it1\<lparr>it_index := i\<rparr>) = None" "it_entry (it1\<lparr>it_table := t, it_index := i\<rparr>) = None" for i t
    using e by simp_all
  have r: "it1\<lparr>it_index := i, it_table := t, it_index := j\<rparr> = it1\<lparr>it_table := t, it_index := j\<rparr>" for i j t by simp
  show ?thesis
    by (subst dictNext.simps)
      (simp only: assms Let_def prod.case if_True r enter_chain_eq [OF e1(1)] enter_chain_eq [OF e1(2)], simp)
qed

lemma dictNext_chain:
  assumes "it_entry it = Some e"
  shows "dictNext addr0 addr1 d it = (if it_next it \<noteq> [] then Some (d, set_entry (it_next it) it, it_entry (set_entry (it_next it) it))
    else dictNext addr0 addr1 d (it\<lparr>it_entry := None\<rparr>))"
proof -
  have r: "set_entry [] it = it\<lparr>it_entry := None\<rparr>" by (simp add: set_entry_def)
  have "dictNext addr0 addr1 d it = (if it_next it \<noteq> [] then Some (d, set_entry (it_next it) it, it_entry (set_entry (it_next it) it))
    else dictNext addr0 addr1 d (set_entry (it_next it) it))"
    by (subst dictNext.simps) (simp only: assms Let_def option.distinct(2) option.distinct(1) if_False set_entry_nonempty)
  then show ?thesis by (simp add: r)
qed

text \<open>The step to a new chain: where the iterator stands before the chain is looked at.\<close>

lemma dictNext_bucket:
  assumes "tables_ok d" "iter_ok d it" "it_entry it = None" "iter_start addr0 addr1 d it = (d1, it1)"
  shows "(remaining d it = [] \<and> (\<exists>it'. dictNext addr0 addr1 d it = Some (d1, it', None)))
    \<or> (\<exists>c it2. it_entry it2 = None \<and> iter_ok d it2 \<and> buckets_left d it2 < buckets_left d it \<and> remaining d it = c @ remaining d it2
         \<and> dictNext addr0 addr1 d it = enter_chain addr0 addr1 d1 it2 c)"
proof -
  note st = iter_start_props [OF assms(4)] and same = same_tables_simps [OF iter_start_props(1) [OF assms(4)]]
  define ht where "ht = (if it_table it = 0 then ht0 d else ht1 d)"
  have idx: "0 \<le> it_index it + 1" using assms(2) by (simp add: iter_ok_def)
  have len: "ht_size ht = length (ht_table ht)" using assms(1) by (simp add: tables_ok_def ht_def)
  have h: "(if it_table it1 = 0 then ht0 d1 else ht1 d1) = ht" by (simp add: ht_def st same)
  note step = dictNext_start [OF assms(3,4) h, unfolded st same]
  consider (last) "it_index it + 1 \<ge> int (ht_size ht)" "\<not> (dictIsRehashing d \<and> it_table it = 0)"
    | (switch) "it_index it + 1 \<ge> int (ht_size ht)" "dictIsRehashing d" "it_table it = 0"
    | (bucket) "it_index it + 1 < int (ht_size ht)" by linarith
  then show ?thesis
  proof cases
    case last
    have "dictNext addr0 addr1 d it = Some (d1, it1\<lparr>it_index := it_index it + 1\<rparr>, None)"
      using last by (simp only: step if_True if_False)
    moreover have "remaining d it = []"
      using last assms(1-3) len by (auto simp: remaining_def ht_def tables_ok_def iter_ok_def)
    ultimately show ?thesis by blast
  next
    case switch
    define it2 where "it2 = it1\<lparr>it_table := 1, it_index := 0\<rparr>"
    have ne: "ht_table (ht1 d) \<noteq> []" using assms(1) switch(2) by (auto simp: tables_ok_def)
    then obtain c cs where t: "ht_table (ht1 d) = c # cs" by (cases "ht_table (ht1 d)") auto
    have "dictNext addr0 addr1 d it = enter_chain addr0 addr1 d1 it2 c"
      using switch(1) by (simp only: step if_True switch(2,3) simp_thms it2_def [symmetric]) (simp add: chain_at_def t)
    moreover have "remaining d it = c @ remaining d it2"
      using switch len t assms(3) st by (simp add: remaining_def ht_def it2_def)
    moreover have "buckets_left d it2 < buckets_left d it" using switch t by (simp add: buckets_left_def it2_def)
    moreover have "it_entry it2 = None" "iter_ok d it2" using st assms(3) switch by (simp_all add: it2_def iter_ok_def)
    ultimately show ?thesis by blast
  next
    case bucket
    define it2 where "it2 = it1\<lparr>it_index := it_index it + 1\<rparr>"
    let ?i = "nat (it_index it + 1)"
    have i: "?i < length (ht_table ht)" using bucket idx len by linarith
    define c where "c = ht_table ht ! ?i"
    have "dictNext addr0 addr1 d it = enter_chain addr0 addr1 d1 it2 c"
      using bucket i by (simp add: step it2_def [symmetric] chain_at_def c_def)
    moreover have "drop ?i (ht_table ht) = c # drop (nat (it_index it2 + 1)) (ht_table ht)"
    proof -
      have "nat (it_index it2 + 1) = Suc ?i" using idx by (simp add: it2_def)
      then show ?thesis using i by (simp add: c_def Cons_nth_drop_Suc)
    qed
    then have "remaining d it = c @ remaining d it2"
      using assms(3) st by (simp add: remaining_def ht_def it2_def)
    moreover have "buckets_left d it2 < buckets_left d it"
    proof -
      have "nat (it_index it2 + 1) = Suc ?i" using idx by (simp add: it2_def)
      then show ?thesis using i st by (auto simp: buckets_left_def it2_def ht_def split: if_splits)
    qed
    moreover have "it_entry it2 = None" "iter_ok d it2" using st assms(2,3) by (simp_all add: it2_def iter_ok_def)
    ultimately show ?thesis by blast
  qed
qed

text \<open>One call of \<^verbatim>\<open>dictNext\<close> returns the first entry that is left and leaves the others.\<close>

definition next_ok :: "('k, 'v) dict \<Rightarrow> ('k, 'v) dictIterator \<Rightarrow> (('k, 'v) dict \<times> ('k, 'v) dictIterator \<times> ('k \<times> 'v) option) option \<Rightarrow> bool" where
  "next_ok d it r \<longleftrightarrow>
     (\<exists>d' it'. r = Some (d', it', None) \<and> same_tables d d' \<and> remaining d it = [])
     \<or> (\<exists>d' it' x. r = Some (d', it', Some x) \<and> same_tables d d' \<and> iter_ok d it' \<and> remaining d it = x # remaining d it')"

lemma set_entry_Cons: "set_entry (e # r) it = it\<lparr>it_entry := Some e, it_next := r\<rparr>"
  by (simp add: set_entry_def)

lemma dictNext_fresh:
  assumes "tables_ok d" "iter_ok d it" "it_entry it = None"
  shows "next_ok d it (dictNext addr0 addr1 d it)"
  using assms
proof (induction "buckets_left d it" arbitrary: d it rule: less_induct)
  case less
  obtain d1 it1 where st: "iter_start addr0 addr1 d it = (d1, it1)" by (cases "iter_start addr0 addr1 d it")
  note same = iter_start_props(1) [OF st]
  from dictNext_bucket [OF less.prems st] show ?case
  proof (elim disjE exE conjE)
    fix it' assume "remaining d it = []" "dictNext addr0 addr1 d it = Some (d1, it', None)"
    then show ?thesis using same by (simp add: next_ok_def)
  next
    fix c it2
    assume a: "it_entry it2 = None" "iter_ok d it2" "buckets_left d it2 < buckets_left d it" "remaining d it = c @ remaining d it2"
      "dictNext addr0 addr1 d it = enter_chain addr0 addr1 d1 it2 c"
    show ?thesis
    proof (cases c)
      case Nil
      have "next_ok d1 it2 (dictNext addr0 addr1 d1 it2)"
        using a less.hyps [of d1 it2] tables_ok_same [OF less.prems(1) same] same_tables_simps [OF same] by simp
      then show ?thesis
        using a(4,5) Nil same_tables_trans [OF same] same_tables_simps(4,6) [OF same]
        unfolding next_ok_def enter_chain_def by auto
    next
      case (Cons e r)
      have "remaining d (it2\<lparr>it_entry := Some e, it_next := r\<rparr>) = r @ remaining d it2" using a(1) by (simp add: remaining_def)
      then show ?thesis
        using a Cons same by (auto simp: next_ok_def enter_chain_def set_entry_Cons iter_ok_def)
    qed
  qed
qed

lemma dictNext_ok:
  assumes "tables_ok d" "iter_ok d it"
  shows "next_ok d it (dictNext addr0 addr1 d it)"
proof (cases "it_entry it")
  case None
  then show ?thesis using dictNext_fresh assms by blast
next
  case (Some e)
  show ?thesis
  proof (cases "it_next it")
    case Nil
    have "iter_ok d (it\<lparr>it_entry := None\<rparr>)" using assms(2) by (simp add: iter_ok_def)
    then have "next_ok d (it\<lparr>it_entry := None\<rparr>) (dictNext addr0 addr1 d it)"
      using dictNext_fresh [OF assms(1), of "it\<lparr>it_entry := None\<rparr>"] by (simp add: dictNext_chain [OF Some] Nil)
    moreover have "remaining d (it\<lparr>it_entry := None\<rparr>) = remaining d it" using Some Nil by (simp add: remaining_def)
    ultimately show ?thesis by (simp only: next_ok_def)
  next
    case (Cons x r)
    have "remaining d it = x # remaining d (it\<lparr>it_entry := Some x, it_next := r\<rparr>)" using Some Cons by (simp add: remaining_def)
    then show ?thesis
      using assms(2) Cons by (simp add: next_ok_def dictNext_chain [OF Some] set_entry_Cons iter_ok_def same_tables_def)
  qed
qed

text \<open>An iterator that is not safe leaves the dictionary alone and remembers its fingerprint, so that the assertion at its
  release holds.\<close>

definition fp_ok :: "u64 \<Rightarrow> u64 \<Rightarrow> ('k, 'v) dict \<Rightarrow> ('k, 'v) dictIterator \<Rightarrow> bool" where
  "fp_ok addr0 addr1 d it \<longleftrightarrow> \<not> it_safe it \<and> - 1 \<le> it_index it
     \<and> (it_index it = - 1 \<and> it_table it = 0 \<or> it_fingerprint it = dictFingerprint addr0 addr1 d)"

lemma set_entry_fields:
  "it_safe (set_entry c it) = it_safe it" "it_index (set_entry c it) = it_index it" "it_table (set_entry c it) = it_table it"
  "it_fingerprint (set_entry c it) = it_fingerprint it"
  by (simp_all add: set_entry_def split: list.split)

lemma dictNext_unsafe:
  "dictNext addr0 addr1 d it = Some r \<Longrightarrow> fp_ok addr0 addr1 d it \<Longrightarrow> (case r of (d', it', e) \<Rightarrow> d' = d \<and> fp_ok addr0 addr1 d it')"
proof (induction addr0 addr1 d it r rule: dictNext.raw_induct [rotated, consumes 1, case_names step])
  case (step f addr0 addr1 d it r)
  let ?Q = "case r of (d', it', e) \<Rightarrow> d' = d \<and> fp_ok addr0 addr1 d it'"
  define g where "g i = (if it_entry i \<noteq> None then Some (d, i, it_entry i) else f addr0 addr1 d i)" for i
  have enter: ?Q if "g i = Some r" "fp_ok addr0 addr1 d i" for i
    using that step(1) [of addr0 addr1 d i r] by (auto simp: g_def split: if_splits)
  show ?case
  proof (cases "it_entry it")
    case None
    obtain it1 where st: "iter_start addr0 addr1 d it = (d, it1)" "\<not> it_safe it1" "- 1 \<le> it_index it1" "it_fingerprint it1 = dictFingerprint addr0 addr1 d"
      using step(3) by (cases "it_index it = - 1 \<and> it_table it = 0") (auto simp: iter_start_def fp_ok_def)
    let ?i = "it1\<lparr>it_index := it_index it1 + 1\<rparr>"
    have fp: "fp_ok addr0 addr1 d ?i" "fp_ok addr0 addr1 d (set_entry c ?i)" "fp_ok addr0 addr1 d (set_entry c (?i\<lparr>it_table := 1, it_index := 0\<rparr>))" for c
      using st(2-4) by (simp_all add: fp_ok_def set_entry_fields)
    have "(\<exists>c. g (set_entry c ?i) = Some r) \<or> (\<exists>c. g (set_entry c (?i\<lparr>it_table := 1, it_index := 0\<rparr>)) = Some r) \<or> r = (d, ?i, None)"
      using step(2) unfolding Let_def st(1) prod.case if_P [OF None] g_def [symmetric]
      by (cases "int (ht_size (if it_table it1 = 0 then ht0 d else ht1 d)) \<le> it_index ?i"; cases "dictIsRehashing d \<and> it_table it1 = 0")
        (auto simp: bind_eq_Some_conv)
    then show ?thesis using enter fp by (elim disjE exE) auto
  next
    case (Some e)
    have "fp_ok addr0 addr1 d (set_entry c it)" for c using step(3) by (simp add: fp_ok_def set_entry_fields)
    then show ?thesis using step(2) Some by (intro enter) (simp_all add: Let_def g_def)
  qed
qed

lemma dictRelease_unsafe: "fp_ok addr0 addr1 d it \<Longrightarrow> dictReleaseIterator addr0 addr1 d it = Some d"
  by (auto simp: fp_ok_def dictReleaseIterator_def)

lemma iterate_remaining:
  assumes "tables_ok d" "iter_ok d it"
  shows "\<exists>d' it'. iterate addr0 addr1 d it acc = Some (acc @ remaining d it, d', it') \<and> same_tables d d'"
  using assms
proof (induction "length (remaining d it)" arbitrary: d it acc)
  case 0
  then obtain d' it' where "dictNext addr0 addr1 d it = Some (d', it', None)" "same_tables d d'"
    using dictNext_ok [OF 0(2,3), of addr0 addr1] unfolding next_ok_def by auto
  then show ?case using 0(1) by (subst iterate.simps) simp
next
  case (Suc n)
  obtain d' it' x where n: "dictNext addr0 addr1 d it = Some (d', it', Some x)" "same_tables d d'"
      "iter_ok d it'" "remaining d it = x # remaining d it'"
    using dictNext_ok [OF Suc(3,4), of addr0 addr1] Suc(2) unfolding next_ok_def by auto
  have "\<exists>d2 it2. iterate addr0 addr1 d' it' (acc @ [x]) = Some ((acc @ [x]) @ remaining d' it', d2, it2) \<and> same_tables d' d2"
    using Suc.hyps(1) [of d' it' "acc @ [x]"] Suc.hyps(2) n tables_ok_same [OF Suc.prems(1) n(2)] same_tables_simps [OF n(2)] by simp
  then show ?case
    using n same_tables_trans [OF n(2)] same_tables_simps(4) [OF n(2)] by (subst iterate.simps) auto
qed

lemma remaining_start: "remaining d (dictGetIterator\<lparr>it_safe := s\<rparr>) = dict_entries d"
  by (simp add: remaining_def dictGetIterator_def dict_entries_def)

text \<open>C35: Calling \<^verbatim>\<open>dictNext\<close> until it returns NULL ends, and returns every entry of both tables exactly once,
  during a rehashing too, and leaves the tables as they are, with a safe and with an unsafe iterator.\<close>

theorem iterate_all:
  assumes "dict_ok hash d"
  shows "\<exists>d' it'. iterate addr0 addr1 d (dictGetIterator\<lparr>it_safe := s\<rparr>) [] = Some (dict_entries d, d', it')
    \<and> ht0 d' = ht0 d \<and> ht1 d' = ht1 d \<and> rehashidx d' = rehashidx d"
proof -
  have "iter_ok d (dictGetIterator\<lparr>it_safe := s\<rparr>)" by (simp add: iter_ok_def dictGetIterator_def)
  from iterate_remaining [OF tables_ok_dict [OF assms] this, of addr0 addr1 "[]"] show ?thesis
    by (simp add: remaining_start same_tables_def)
qed

theorem iterate_all_witness:
  "\<exists>d' it'. iterate 0 0 rehash_example (dictGetIterator\<lparr>it_safe := True\<rparr>) [] = Some ([(4, 40), (0, 10), (1, 11)], d', it')"
  using iterate_all [OF rehash_example_ok, of 0 0 True] by (auto simp: rehash_example_def dict_entries_def)

end
