(* ===== verification/Sha1.thy ===== *)
theory Sha1
  imports Redis_Prelude
begin

unbundle bit_operations_syntax

text \<open>
  \<^verbatim>\<open>sha1.c\<close> on a little endian machine. The working variables \<^verbatim>\<open>a\<close> to \<^verbatim>\<open>e\<close> are a list of five words,
  the arguments of the round macros positions in it; \<^verbatim>\<open>block->l\<close> is a list of sixteen words that is
  overwritten as the rounds go on. Copies into the buffer of the context are bounds checked.
  The reference is the definition of the standard: a message schedule of eighty words, a padded
  message, and one compression after the other.
\<close>

section \<open>The rounds\<close>

definition rol :: "u32 \<Rightarrow> nat \<Rightarrow> u32" where
  "rol value bits = push_bit bits value OR drop_bit (32 - bits) value"

definition blk0 :: "nat \<Rightarrow> u32 list \<Rightarrow> u32 \<times> u32 list" where
  "blk0 i l = (let x = (rol (l ! i) 24 AND 0xFF00FF00) OR (rol (l ! i) 8 AND 0x00FF00FF) in (x, l[i := x]))"

text \<open>The conjunction of an index with 15 is its remainder modulo 16.\<close>

definition blk :: "nat \<Rightarrow> u32 list \<Rightarrow> u32 \<times> u32 list" where
  "blk i l =
     (let x = rol (l ! ((i + 13) mod 16) XOR l ! ((i + 8) mod 16) XOR l ! ((i + 2) mod 16) XOR l ! (i mod 16)) 1
      in (x, l[i mod 16 := x]))"

type_synonym round_state = "u32 list \<times> u32 list"

definition R0 :: "nat \<Rightarrow> nat \<Rightarrow> nat \<Rightarrow> nat \<Rightarrow> nat \<Rightarrow> nat \<Rightarrow> round_state \<Rightarrow> round_state" where
  "R0 v w x y z i s =
     (let (r, l) = s;
          (b, l) = blk0 i l;
          r = r[z := r ! z + (((r ! w AND (r ! x XOR r ! y)) XOR r ! y) + b + 0x5A827999 + rol (r ! v) 5)];
          r = r[w := rol (r ! w) 30]
      in (r, l))"

definition R1 :: "nat \<Rightarrow> nat \<Rightarrow> nat \<Rightarrow> nat \<Rightarrow> nat \<Rightarrow> nat \<Rightarrow> round_state \<Rightarrow> round_state" where
  "R1 v w x y z i s =
     (let (r, l) = s;
          (b, l) = blk i l;
          r = r[z := r ! z + (((r ! w AND (r ! x XOR r ! y)) XOR r ! y) + b + 0x5A827999 + rol (r ! v) 5)];
          r = r[w := rol (r ! w) 30]
      in (r, l))"

definition R2 :: "nat \<Rightarrow> nat \<Rightarrow> nat \<Rightarrow> nat \<Rightarrow> nat \<Rightarrow> nat \<Rightarrow> round_state \<Rightarrow> round_state" where
  "R2 v w x y z i s =
     (let (r, l) = s;
          (b, l) = blk i l;
          r = r[z := r ! z + ((r ! w XOR r ! x XOR r ! y) + b + 0x6ED9EBA1 + rol (r ! v) 5)];
          r = r[w := rol (r ! w) 30]
      in (r, l))"

definition R3 :: "nat \<Rightarrow> nat \<Rightarrow> nat \<Rightarrow> nat \<Rightarrow> nat \<Rightarrow> nat \<Rightarrow> round_state \<Rightarrow> round_state" where
  "R3 v w x y z i s =
     (let (r, l) = s;
          (b, l) = blk i l;
          r = r[z := r ! z + ((((r ! w OR r ! x) AND r ! y) OR (r ! w AND r ! x)) + b + 0x8F1BBCDC + rol (r ! v) 5)];
          r = r[w := rol (r ! w) 30]
      in (r, l))"

definition R4 :: "nat \<Rightarrow> nat \<Rightarrow> nat \<Rightarrow> nat \<Rightarrow> nat \<Rightarrow> nat \<Rightarrow> round_state \<Rightarrow> round_state" where
  "R4 v w x y z i s =
     (let (r, l) = s;
          (b, l) = blk i l;
          r = r[z := r ! z + ((r ! w XOR r ! x XOR r ! y) + b + 0xCA62C1D6 + rol (r ! v) 5)];
          r = r[w := rol (r ! w) 30]
      in (r, l))"

text \<open>
  The unrolled calls: each has the variables of the call before, rotated by one place to the right,
  sixteen times \<^verbatim>\<open>R0\<close>, four times \<^verbatim>\<open>R1\<close> and twenty times each of the others.
\<close>

definition sha_call :: "nat \<Rightarrow> round_state \<Rightarrow> round_state" where
  "sha_call i =
     (let v = (80 - i) mod 5; w = (v + 1) mod 5; x = (v + 2) mod 5; y = (v + 3) mod 5; z = (v + 4) mod 5
      in (if i < 16 then R0 else if i < 20 then R1 else if i < 40 then R2 else if i < 60 then R3 else R4) v w x y z i)"

definition load_le :: "u8 list \<Rightarrow> u32" where
  "load_le bs = ucast (bs ! 0) OR push_bit 8 (ucast (bs ! 1)) OR push_bit 16 (ucast (bs ! 2)) OR push_bit 24 (ucast (bs ! 3))"

definition SHA1Transform :: "u32 list \<Rightarrow> u8 list \<Rightarrow> u32 list" where
  "SHA1Transform state buffer =
     (let block = map (\<lambda>i. load_le (drop (4 * i) buffer)) [0..<16];
          (r, _) = fold sha_call [0..<80] (state, block)
      in map2 (+) state r)"

section \<open>The context\<close>

record SHA1_CTX =
  sha_state :: "u32 list"
  count0 :: u32
  count1 :: u32
  sha_buffer :: "u8 list"

definition SHA1Init :: "u8 list \<Rightarrow> SHA1_CTX" where
  "SHA1Init junk =
     \<lparr>sha_state = [0x67452301, 0xEFCDAB89, 0x98BADCFE, 0x10325476, 0xC3D2E1F0], count0 = 0, count1 = 0, sha_buffer = junk\<rparr>"

function transform_loop :: "u32 list \<Rightarrow> u8 list \<Rightarrow> nat \<Rightarrow> u32 list \<times> nat" where
  "transform_loop state data i =
     (if i + 63 < length data then transform_loop (SHA1Transform state (take 64 (drop i data))) data (i + 64)
      else (state, i))"
  by pat_completeness auto
termination by (relation "measure (\<lambda>(_, data, i). length data - i)") auto

declare transform_loop.simps [simp del]

text \<open>\<^verbatim>\<open>len\<close> has 32 bits, and so has its sum with \<^verbatim>\<open>j\<close>.\<close>

definition SHA1Update :: "SHA1_CTX \<Rightarrow> u8 list \<Rightarrow> SHA1_CTX option" where
  "SHA1Update ctx data =
     (let len = (of_nat (length data) :: u32);
          j = count0 ctx;
          c0 = count0 ctx + push_bit 3 len;
          c1 = (if c0 < j then count1 ctx + 1 else count1 ctx);
          c1 = c1 + drop_bit 29 len;
          j = drop_bit 3 j AND 63
      in if j + len > 63 then
           let i = unat (64 - j)
           in do {
             buf \<leftarrow> mem_write (unat j) (take i data) (sha_buffer ctx);
             let (state, i) = transform_loop (SHA1Transform (sha_state ctx) buf) data i in
             do { buf' \<leftarrow> mem_write 0 (drop i data) buf;
                  Some \<lparr>sha_state = state, count0 = c0, count1 = c1, sha_buffer = buf'\<rparr> } }
         else
           do { buf \<leftarrow> mem_write (unat j) data (sha_buffer ctx);
                Some \<lparr>sha_state = sha_state ctx, count0 = c0, count1 = c1, sha_buffer = buf\<rparr> })"

text \<open>The padding loop; 64 rounds are more than it ever needs, running out of them is \<open>None\<close>.\<close>

fun pad_loop :: "nat \<Rightarrow> SHA1_CTX \<Rightarrow> SHA1_CTX option" where
  "pad_loop 0 ctx = None"
| "pad_loop (Suc n) ctx =
     (if count0 ctx AND 504 \<noteq> 448 then SHA1Update ctx [0] \<bind> pad_loop n else Some ctx)"

definition SHA1Final :: "SHA1_CTX \<Rightarrow> u8 list option" where
  "SHA1Final ctx =
     (let finalcount = map (\<lambda>i. ucast (drop_bit ((3 - i mod 4) * 8) (if i \<ge> 4 then count0 ctx else count1 ctx) AND 255)) [0..<8]
      in do {
        ctx \<leftarrow> SHA1Update ctx [128];
        ctx \<leftarrow> pad_loop 64 ctx;
        ctx \<leftarrow> SHA1Update ctx finalcount;
        Some (map (\<lambda>i. ucast (drop_bit ((3 - i mod 4) * 8) (sha_state ctx ! (i div 4)) AND 255)) [0..<20]) })"

section \<open>The standard\<close>

definition word_be :: "u8 list \<Rightarrow> u32" where
  "word_be bs = push_bit 24 (ucast (bs ! 0)) OR push_bit 16 (ucast (bs ! 1)) OR push_bit 8 (ucast (bs ! 2)) OR ucast (bs ! 3)"

function schedule :: "u8 list \<Rightarrow> nat \<Rightarrow> u32" where
  "schedule b t =
     (if t < 16 then word_be (drop (4 * t) b)
      else word_rotl 1 (schedule b (t - 3) XOR schedule b (t - 8) XOR schedule b (t - 14) XOR schedule b (t - 16)))"
  by pat_completeness auto
termination by (relation "measure snd") auto

declare schedule.simps [simp del]

definition sha_f :: "nat \<Rightarrow> u32 \<Rightarrow> u32 \<Rightarrow> u32 \<Rightarrow> u32" where
  "sha_f t x y z =
     (if t < 20 then (x AND y) XOR (NOT x AND z)
      else if 40 \<le> t \<and> t < 60 then (x AND y) XOR (x AND z) XOR (y AND z)
      else x XOR y XOR z)"

definition sha_k :: "nat \<Rightarrow> u32" where
  "sha_k t = (if t < 20 then 0x5A827999 else if t < 40 then 0x6ED9EBA1 else if t < 60 then 0x8F1BBCDC else 0xCA62C1D6)"

fun sha_step :: "u8 list \<Rightarrow> nat \<Rightarrow> u32 \<times> u32 \<times> u32 \<times> u32 \<times> u32 \<Rightarrow> u32 \<times> u32 \<times> u32 \<times> u32 \<times> u32" where
  "sha_step m t (a, b, c, d, e) = (word_rotl 5 a + sha_f t b c d + e + sha_k t + schedule m t, a, word_rotl 30 b, c, d)"

fun sha_compress :: "u8 list \<Rightarrow> u32 \<times> u32 \<times> u32 \<times> u32 \<times> u32 \<Rightarrow> u32 \<times> u32 \<times> u32 \<times> u32 \<times> u32" where
  "sha_compress m (h0, h1, h2, h3, h4) =
     (case fold (sha_step m) [0..<80] (h0, h1, h2, h3, h4) of (a, b, c, d, e) \<Rightarrow> (h0 + a, h1 + b, h2 + c, h3 + d, h4 + e))"

function sha_blocks :: "u32 \<times> u32 \<times> u32 \<times> u32 \<times> u32 \<Rightarrow> u8 list \<Rightarrow> u32 \<times> u32 \<times> u32 \<times> u32 \<times> u32" where
  "sha_blocks h m = (if length m < 64 then h else sha_blocks (sha_compress (take 64 m) h) (drop 64 m))"
  by pat_completeness auto
termination by (relation "measure (\<lambda>(_, m). length m)") auto

declare sha_blocks.simps [simp del]

definition be64 :: "nat \<Rightarrow> u8 list" where
  "be64 n = map (\<lambda>i. of_nat (n div 256 ^ (7 - i))) [0..<8]"

definition sha_pad :: "u8 list \<Rightarrow> u8 list" where
  "sha_pad m = m @ [128] @ replicate ((119 - length m mod 64) mod 64) 0 @ be64 (8 * length m)"

definition digest_bytes :: "u32 \<times> u32 \<times> u32 \<times> u32 \<times> u32 \<Rightarrow> u8 list" where
  "digest_bytes h = (case h of (a, b, c, d, e) \<Rightarrow> concat (map (\<lambda>x. [ucast (drop_bit 24 x), ucast (drop_bit 16 x), ucast (drop_bit 8 x), ucast x]) [a, b, c, d, e]))"

definition sha1_ref :: "u8 list \<Rightarrow> u8 list" where
  "sha1_ref m = digest_bytes (sha_blocks (0x67452301, 0xEFCDAB89, 0x98BADCFE, 0x10325476, 0xC3D2E1F0) (sha_pad m))"

section \<open>Words\<close>

lemma rol_rotl: "0 < n \<Longrightarrow> n < 32 \<Longrightarrow> rol x n = word_rotl n x"
proof (rule bit_word_eqI)
  fix i assume n: "0 < n" "n < 32" and i: "i < LENGTH(32)"
  show "bit (rol x n) i = bit (word_rotl n x) i"
  proof (cases "n \<le> i")
    case True
    then have "i + (32 - n) = 32 + (i - n)" using n by simp
    then have "(i + (32 - n)) mod 32 = (32 + (i - n)) mod 32" by (simp only:)
    also have "\<dots> = i - n" using i by (simp only: mod_add_self1) simp
    finally have "(i + (32 - n)) mod 32 = i - n" .
    then show ?thesis using True i n by (auto simp: rol_def bit_simps dest: bit_imp_le_length)
  next
    case False
    then have "(i + (32 - n)) mod 32 = 32 - n + i" using n by simp
    then show ?thesis using False i n unfolding rol_def bit_or_iff bit_push_bit_iff bit_drop_bit_eq bit_word_rotl_iff by simp
  qed
qed

lemma choose: "((w AND (x XOR y)) XOR y) = ((w AND x) XOR (NOT w AND y) :: u32)"
  by (rule bit_word_eqI) (auto simp: bit_simps)

lemma majority: "(((w OR x) AND y) OR (w AND x)) = ((w AND x) XOR (w AND y) XOR (x AND y) :: u32)"
  by (rule bit_word_eqI) (auto simp: bit_simps)

lemma swap_masks:
  "list_all (\<lambda>i. bit (0xFF00FF00 :: u32) i = odd (i div 8)) [0..<32]"
  "list_all (\<lambda>i. bit (0x00FF00FF :: u32) i = even (i div 8)) [0..<32]"
  by code_simp+

lemma swap_bytes: "(rol (load_le bs) 24 AND 0xFF00FF00) OR (rol (load_le bs) 8 AND 0x00FF00FF) = word_be bs"
proof (rule bit_word_eqI)
  fix i assume i: "i < LENGTH(32)"
  have m: "bit (0xFF00FF00 :: u32) i = odd (i div 8)" "bit (0x00FF00FF :: u32) i = even (i div 8)"
    using i swap_masks by (simp_all add: list_all_iff)
  obtain q k where q: "i = 8 * q + k" "k < 8" "i div 8 = q" "q < 4"
    using i by (intro that [of "i div 8" "i mod 8"]) simp_all
  then consider "q = 0" | "q = 1" | "q = 2" | "q = 3" by linarith
  then show "bit ((rol (load_le bs) 24 AND 0xFF00FF00) OR (rol (load_le bs) 8 AND 0x00FF00FF)) i = bit (word_be bs) i"
    unfolding bit_and_iff bit_or_iff m rol_def load_le_def word_be_def bit_push_bit_iff bit_drop_bit_eq bit_unsigned_iff
    by cases (use q in \<open>auto dest: bit_imp_le_length\<close>)
qed

section \<open>The compression\<close>

definition view :: "nat \<Rightarrow> u32 list \<Rightarrow> u32 \<times> u32 \<times> u32 \<times> u32 \<times> u32" where
  "view v r = (r ! v, r ! ((v + 1) mod 5), r ! ((v + 2) mod 5), r ! ((v + 3) mod 5), r ! ((v + 4) mod 5))"

lemma view_step:
  assumes "length r = 5" "v < 5"
  shows "view ((v + 4) mod 5) (r[(v + 4) mod 5 := A, (v + 1) mod 5 := B]) = (A, r ! v, B, r ! ((v + 2) mod 5), r ! ((v + 3) mod 5))"
proof -
  obtain a b c d e where r: "r = [a, b, c, d, e]" using assms(1) by (auto simp: numeral_eq_Suc length_Suc_conv)
  consider "v = 0" | "v = 1" | "v = 2" | "v = 3" | "v = 4" using assms(2) by linarith
  then show ?thesis by cases (simp_all add: r view_def)
qed

text \<open>The sixteen words in the course of the rounds.\<close>

definition block_ok :: "u8 list \<Rightarrow> nat \<Rightarrow> u32 list \<Rightarrow> bool" where
  "block_ok m i l \<longleftrightarrow> length l = 16
     \<and> (\<forall>j<i. i \<le> j + 16 \<longrightarrow> l ! (j mod 16) = schedule m j)
     \<and> (\<forall>j<16. i \<le> j \<longrightarrow> l ! j = load_le (drop (4 * j) m))"

lemma schedule_block: "t < 16 \<Longrightarrow> schedule m t = word_be (drop (4 * t) m)"
  by (subst schedule.simps) simp

lemma mod_16_neq: "i < j + 16 \<Longrightarrow> j < i \<Longrightarrow> j mod 16 \<noteq> i mod (16 :: nat)"
proof
  assume "i < j + 16" "j < i" "j mod 16 = i mod 16"
  then have "16 dvd i - j" using mod_eq_dvd_iff_nat [of j i 16] by simp
  then show False using \<open>i < j + 16\<close> \<open>j < i\<close> dvd_imp_le [of 16 "i - j"] by simp
qed

lemma blk0_ok:
  assumes "block_ok m i l" "i < 16"
  shows "fst (blk0 i l) = schedule m i \<and> block_ok m (Suc i) (snd (blk0 i l))"
proof -
  have x: "(rol (l ! i) 24 AND 0xFF00FF00) OR (rol (l ! i) 8 AND 0x00FF00FF) = schedule m i"
    using assms by (simp add: block_ok_def swap_bytes schedule_block)
  have "block_ok m (Suc i) (l[i := schedule m i])"
    using assms by (auto simp: block_ok_def nth_list_update less_Suc_eq)
  then show ?thesis by (simp add: blk0_def Let_def x)
qed

lemma blk_ok:
  assumes "block_ok m i l" "16 \<le> i"
  shows "fst (blk i l) = schedule m i \<and> block_ok m (Suc i) (snd (blk i l))"
proof -
  have at: "l ! ((i + (16 - d)) mod 16) = schedule m (i - d)" if "0 < d" "d \<le> 16" for d
  proof -
    have "i + (16 - d) = (i - d) + 16" using that assms(2) by simp
    then have "(i + (16 - d)) mod 16 = (i - d) mod 16" by (simp only: mod_add_self2)
    then show ?thesis using that assms by (simp add: block_ok_def)
  qed
  have x: "rol (l ! ((i + 13) mod 16) XOR l ! ((i + 8) mod 16) XOR l ! ((i + 2) mod 16) XOR l ! (i mod 16)) 1 = schedule m i"
    using at [of 3] at [of 8] at [of 14] at [of 16] assms(2) by (subst schedule.simps) (simp add: rol_rotl)
  have "l[i mod 16 := schedule m i] ! (j mod 16) = schedule m j" if "j < Suc i" "Suc i \<le> j + 16" for j
    using that assms mod_16_neq [of i j] by (cases "j = i") (auto simp: block_ok_def nth_list_update)
  then have "block_ok m (Suc i) (l[i mod 16 := schedule m i])"
    using assms by (simp add: block_ok_def)
  then show ?thesis by (simp only: blk_def Let_def x fst_conv snd_conv simp_thms)
qed

lemma R_eq:
  assumes "w \<noteq> z"
  shows
    "i < 16 \<Longrightarrow> R0 v w x y z i (r, l) = (case blk0 i l of (b, l) \<Rightarrow>
       (r[z := r ! z + (sha_f i (r ! w) (r ! x) (r ! y) + b + sha_k i + word_rotl 5 (r ! v)), w := word_rotl 30 (r ! w)], l))"
    "i < 20 \<Longrightarrow> R1 v w x y z i (r, l) = (case blk i l of (b, l) \<Rightarrow>
       (r[z := r ! z + (sha_f i (r ! w) (r ! x) (r ! y) + b + sha_k i + word_rotl 5 (r ! v)), w := word_rotl 30 (r ! w)], l))"
    "20 \<le> i \<Longrightarrow> i < 40 \<Longrightarrow> R2 v w x y z i (r, l) = (case blk i l of (b, l) \<Rightarrow>
       (r[z := r ! z + (sha_f i (r ! w) (r ! x) (r ! y) + b + sha_k i + word_rotl 5 (r ! v)), w := word_rotl 30 (r ! w)], l))"
    "40 \<le> i \<Longrightarrow> i < 60 \<Longrightarrow> R3 v w x y z i (r, l) = (case blk i l of (b, l) \<Rightarrow>
       (r[z := r ! z + (sha_f i (r ! w) (r ! x) (r ! y) + b + sha_k i + word_rotl 5 (r ! v)), w := word_rotl 30 (r ! w)], l))"
    "60 \<le> i \<Longrightarrow> R4 v w x y z i (r, l) = (case blk i l of (b, l) \<Rightarrow>
       (r[z := r ! z + (sha_f i (r ! w) (r ! x) (r ! y) + b + sha_k i + word_rotl 5 (r ! v)), w := word_rotl 30 (r ! w)], l))"
  using assms
  by (simp_all add: R0_def R1_def R2_def R3_def R4_def sha_f_def sha_k_def choose majority rol_rotl split: prod.split)

lemma R_choice:
  assumes "w \<noteq> z"
  shows "(if i < 16 then R0 else if i < 20 then R1 else if i < 40 then R2 else if i < 60 then R3 else R4) v w x y z i (r, l)
    = (case (if i < 16 then blk0 i l else blk i l) of (b, l) \<Rightarrow>
       (r[z := r ! z + (sha_f i (r ! w) (r ! x) (r ! y) + b + sha_k i + word_rotl 5 (r ! v)), w := word_rotl 30 (r ! w)], l))"
proof -
  consider "i < 16" | "16 \<le> i" "i < 20" | "20 \<le> i" "i < 40" | "40 \<le> i" "i < 60" | "60 \<le> i" by linarith
  then show ?thesis by cases (simp_all add: R_eq [OF assms])
qed

lemma sha_call_ok:
  assumes "block_ok m i l" "length r = 5" "i < 80" "sha_call i (r, l) = (r', l')"
  shows "block_ok m (Suc i) l' \<and> length r' = 5 \<and> view ((80 - Suc i) mod 5) r' = sha_step m i (view ((80 - i) mod 5) r)"
proof -
  define v where "v = (80 - i) mod 5"
  have v: "v < 5" by (simp add: v_def)
  have v2: "(80 - Suc i) mod 5 = (v + 4) mod 5"
  proof -
    have "80 - i = Suc (80 - Suc i)" using assms(3) by simp
    moreover have "(Suc a mod 5 + 4) mod 5 = a mod 5" for a :: nat by (simp add: mod_add_left_eq)
    ultimately show "(80 - Suc i) mod 5 = (v + 4) mod 5" unfolding v_def by (simp only:)
  qed
  have call: "sha_call i (r, l) = (let (b, l) = (if i < 16 then blk0 i l else blk i l) in
     (r[(v + 4) mod 5 := r ! ((v + 4) mod 5) + (sha_f i (r ! ((v + 1) mod 5)) (r ! ((v + 2) mod 5)) (r ! ((v + 3) mod 5)) + b + sha_k i + word_rotl 5 (r ! v)),
        (v + 1) mod 5 := word_rotl 30 (r ! ((v + 1) mod 5))], l))"
  proof -
    consider "v = 0" | "v = 1" | "v = 2" | "v = 3" | "v = 4" using v by linarith
    then have ne: "(v + 1) mod 5 \<noteq> (v + 4) mod 5" by cases simp_all
    then show ?thesis unfolding sha_call_def Let_def v_def [symmetric] by (rule R_choice)
  qed
  have b: "(if i < 16 then blk0 i l else blk i l) = (schedule m i, l')" "block_ok m (Suc i) l'"
    using assms(4) blk0_ok [OF assms(1)] blk_ok [OF assms(1)] by (auto simp: call Let_def split: if_splits prod.splits)
  have r': "r' = r[(v + 4) mod 5 := r ! ((v + 4) mod 5) + (sha_f i (r ! ((v + 1) mod 5)) (r ! ((v + 2) mod 5)) (r ! ((v + 3) mod 5)) + schedule m i + sha_k i + word_rotl 5 (r ! v)),
        (v + 1) mod 5 := word_rotl 30 (r ! ((v + 1) mod 5))]"
    using assms(4) unfolding call b(1) by simp
  have "view ((80 - Suc i) mod 5) r' = sha_step m i (view v r)"
    unfolding v2 r' view_step [OF assms(2) v] view_def [of v] sha_step.simps by (simp add: ac_simps)
  then show ?thesis using b(2) assms(2) r' by (simp add: v_def)
qed

lemma sha_calls_ok:
  assumes "block_ok m 0 l" "length r = 5" "n \<le> 80" "fold sha_call [0..<n] (r, l) = (r', l')"
  shows "block_ok m n l' \<and> length r' = 5 \<and> view ((80 - n) mod 5) r' = fold (sha_step m) [0..<n] (view 0 r)"
  using assms(3,4)
proof (induction n arbitrary: r' l')
  case 0
  then show ?case using assms(1,2) by simp
next
  case (Suc n)
  obtain r1 l1 where 1: "fold sha_call [0..<n] (r, l) = (r1, l1)" by fastforce
  have "sha_call n (r1, l1) = (r', l')" using Suc.prems(2) 1 by simp
  with sha_call_ok [of m n l1 r1 r' l'] Suc.IH [OF _ 1] Suc.prems(1) show ?case by simp
qed

definition to_list :: "u32 \<times> u32 \<times> u32 \<times> u32 \<times> u32 \<Rightarrow> u32 list" where
  "to_list h = (case h of (a, b, c, d, e) \<Rightarrow> [a, b, c, d, e])"

lemma SHA1Transform_correct:
  assumes "length m = 64"
  shows "SHA1Transform (to_list h) m = to_list (sha_compress m h)"
proof -
  obtain a b c d e where h: "h = (a, b, c, d, e)" by (cases h) auto
  let ?l = "map (\<lambda>i. load_le (drop (4 * i) m)) [0..<16]"
  obtain r l where f: "fold sha_call [0..<80] (to_list h, ?l) = (r, l)" by fastforce
  have "block_ok m 0 ?l" by (simp add: block_ok_def)
  from sha_calls_ok [OF this _ _ f] have r: "length r = 5" "view 0 r = fold (sha_step m) [0..<80] h"
    by (simp_all add: to_list_def h view_def)
  obtain a' b' c' d' e' where r': "r = [a', b', c', d', e']" using r(1) by (auto simp: numeral_eq_Suc length_Suc_conv)
  have "fold (sha_step m) [0..<80] (a, b, c, d, e) = (a', b', c', d', e')" using r(2) by (simp add: r' view_def h)
  then have "sha_compress m h = (a + a', b + b', c + c', d + d', e + e')" by (simp only: sha_compress.simps h prod.case)
  then show ?thesis using f by (simp only: SHA1Transform_def Let_def prod.case) (simp add: r' to_list_def h)
qed

section \<open>Blocks of a message\<close>

definition msg_tail :: "u8 list \<Rightarrow> u8 list" where
  "msg_tail m = drop (64 * (length m div 64)) m"

lemma length_msg_tail: "length (msg_tail m) = length m mod 64"
  by (simp add: msg_tail_def minus_mult_div_eq_mod)

lemma msg_tail_long: "64 \<le> length m \<Longrightarrow> msg_tail m = msg_tail (drop 64 m)"
proof -
  assume "64 \<le> length m"
  then have "length m div 64 = Suc ((length m - 64) div 64)" by (simp add: le_div_geq)
  then show ?thesis by (simp add: msg_tail_def add.commute)
qed

lemma msg_tail_short: "length m < 64 \<Longrightarrow> msg_tail m = m"
  by (simp add: msg_tail_def)

lemma sha_blocks_append:
  "sha_blocks h (m @ d) = sha_blocks (sha_blocks h m) (msg_tail m @ d) \<and> msg_tail (m @ d) = msg_tail (msg_tail m @ d)"
proof (induction h m rule: sha_blocks.induct)
  case (1 h m)
  show ?case
  proof (cases "length m < 64")
    case True
    then show ?thesis by (simp add: msg_tail_short sha_blocks.simps [of h m])
  next
    case False
    then have "sha_blocks h (m @ d) = sha_blocks (sha_compress (take 64 m) h) (drop 64 m @ d)"
      "sha_blocks h m = sha_blocks (sha_compress (take 64 m) h) (drop 64 m)"
      "msg_tail (m @ d) = msg_tail (drop 64 m @ d)"
      using msg_tail_long [of "m @ d"] by (simp_all add: sha_blocks.simps [of h "m @ d"] sha_blocks.simps [of h m])
    then show ?thesis using 1 [OF False] False by (simp add: msg_tail_long)
  qed
qed

lemma transform_loop_blocks:
  "i \<le> length data \<Longrightarrow> \<exists>i'. transform_loop (to_list h) data i = (to_list (sha_blocks h (drop i data)), i') \<and> drop i' data = msg_tail (drop i data)"
proof (induction "length data - i" arbitrary: i h rule: less_induct)
  case less
  show ?case
  proof (cases "i + 63 < length data")
    case True
    then have t: "SHA1Transform (to_list h) (take 64 (drop i data)) = to_list (sha_compress (take 64 (drop i data)) h)"
      by (intro SHA1Transform_correct) simp
    have b: "sha_blocks h (drop i data) = sha_blocks (sha_compress (take 64 (drop i data)) h) (drop (i + 64) data)"
    proof -
      have "\<not> length (drop i data) < 64" using True by simp
      then show ?thesis by (simp only: sha_blocks.simps [of h "drop i data"] if_False drop_drop add.commute)
    qed
    have "msg_tail (drop i data) = msg_tail (drop (i + 64) data)"
      using True msg_tail_long [of "drop i data"] by (simp add: add.commute)
    then show ?thesis
      using less.hyps [of "i + 64" "sha_compress (take 64 (drop i data)) h"] True
      by (simp add: transform_loop.simps [of "to_list h"] t b)
  next
    case False
    then have "length (drop i data) < 64" by simp
    then show ?thesis using False by (simp add: transform_loop.simps sha_blocks.simps [of h "drop i data"] msg_tail_short)
  qed
qed

section \<open>The counter\<close>

lemma unat_count: "unat (of_nat x :: u32) = x mod 2 ^ 32"
  by (simp add: unat_of_nat)

lemma unat_high_part: "unat (drop_bit n w :: u32) = unat w div 2 ^ n"
  by (simp only: unat_drop_bit_eq) (simp add: drop_bit_eq_div)

lemma count_low: "unat (drop_bit 3 (of_nat (8 * n) :: u32) AND 63) = n mod 64"
proof -
  have m: "(63 :: u32) = mask 6" by (simp add: mask_eq_exp_minus_1)
  have "unat (of_nat (8 * n) :: u32) = 8 * (n mod 2 ^ 29)"
    using mult_mod_right [of 8 n "2 ^ 29"] by (simp only: unat_count) simp
  then have "unat (drop_bit 3 (of_nat (8 * n) :: u32)) = n mod 2 ^ 29"
    by (simp only: unat_high_part) simp
  then have "unat (drop_bit 3 (of_nat (8 * n) :: u32) AND mask 6) = n mod 2 ^ 29 mod 2 ^ 6"
    by (simp only: take_bit_eq_mask [symmetric] unsigned_take_bit_eq) (simp only: take_bit_eq_mod)
  then show ?thesis by (simp only: m) (simp add: mod_mod_cancel)
qed

lemma count_pad: "(of_nat (8 * n) :: u32) AND 504 = of_nat (8 * (n mod 64))"
proof -
  have m: "(504 :: u32) = push_bit 3 (mask 6)" by (simp add: mask_eq_exp_minus_1 push_bit_eq_mult)
  have "(of_nat (8 * n) :: u32) = push_bit 3 (of_nat n)" by (simp add: push_bit_eq_mult)
  then have "(of_nat (8 * n) :: u32) AND 504 = push_bit 3 (take_bit 6 (of_nat n))"
    by (simp only: m push_bit_and [symmetric] take_bit_eq_mask [symmetric])
  also have "take_bit 6 (of_nat n :: u32) = of_nat (n mod 64)"
    using take_bit_of_nat [of 6 n, where 'a = u32] by (simp add: take_bit_eq_mod)
  finally show ?thesis by (simp add: push_bit_eq_mult)
qed

lemma count_carry:
  assumes "k < 2 ^ 32"
  shows "(let c0 = of_nat (8 * n) + push_bit 3 (of_nat k) :: u32;
              c1 = (if c0 < of_nat (8 * n) then of_nat (8 * n div 2 ^ 32) + 1 else of_nat (8 * n div 2 ^ 32)) :: u32
          in c0 = of_nat (8 * (n + k)) \<and> c1 + drop_bit 29 (of_nat k) = of_nat (8 * (n + k) div 2 ^ 32))"
proof -
  define M :: nat where "M = 2 ^ 32"
  define a where "a = 8 * n mod M"
  define b where "b = 8 * k mod M"
  have M: "0 < M" "a < M" "b < M" by (simp_all add: M_def a_def b_def)
  have c0: "of_nat (8 * n) + push_bit 3 (of_nat k) = (of_nat (8 * (n + k)) :: u32)" by (simp add: push_bit_eq_mult)
  have "unat (of_nat (8 * (n + k)) :: u32) = (a + b) mod M"
    by (simp only: unat_count a_def b_def M_def mod_add_eq distrib_left)
  moreover have "unat (of_nat (8 * n) :: u32) = a" by (simp only: unat_count a_def M_def)
  ultimately have lt: "(of_nat (8 * (n + k)) :: u32) < of_nat (8 * n) \<longleftrightarrow> (a + b) mod M < a" by (simp only: word_less_nat_alt)
  have carry: "(a + b) div M = (if (a + b) mod M < a then 1 else 0)"
  proof (cases "a + b < M")
    case False
    then have "(a + b) div M = 1" "(a + b) mod M = a + b - M" using M by (simp_all add: div_nat_eqI mod_if)
    then show ?thesis using M False by simp
  qed simp
  have k: "8 * k div M = k div 2 ^ 29"
  proof -
    have "8 * k div M = (8 * k) div (8 * 2 ^ 29)" by (simp add: M_def)
    then show ?thesis by simp
  qed
  have "8 * (n + k) div M = 8 * n div M + 8 * k div M + (a + b) div M"
    unfolding a_def b_def distrib_left by (rule div_add1_eq)
  then have d: "8 * (n + k) div M = 8 * n div M + k div 2 ^ 29 + (if (a + b) mod M < a then 1 else 0)"
    by (simp only: carry k)
  have "drop_bit 29 (of_nat k :: u32) = of_nat (k div 2 ^ 29)"
    using assms by (intro word_unat_eq_iff [THEN iffD2]) (simp only: unat_high_part unat_count, simp add: unat_of_nat)
  then show ?thesis
    unfolding Let_def c0 lt d M_def [symmetric] by simp
qed

section \<open>Absorbing a message\<close>

abbreviation (input) sha_start :: "u32 \<times> u32 \<times> u32 \<times> u32 \<times> u32" where
  "sha_start \<equiv> (0x67452301, 0xEFCDAB89, 0x98BADCFE, 0x10325476, 0xC3D2E1F0)"

definition sha_inv :: "u8 list \<Rightarrow> SHA1_CTX \<Rightarrow> bool" where
  "sha_inv m ctx \<longleftrightarrow> sha_state ctx = to_list (sha_blocks sha_start m) \<and> length (sha_buffer ctx) = 64
     \<and> take (length m mod 64) (sha_buffer ctx) = msg_tail m
     \<and> count0 ctx = of_nat (8 * length m) \<and> count1 ctx = of_nat (8 * length m div 2 ^ 32)"

lemma SHA1Init_inv: "length junk = 64 \<Longrightarrow> sha_inv [] (SHA1Init junk)"
  by (simp add: sha_inv_def SHA1Init_def to_list_def msg_tail_def sha_blocks.simps)

lemma SHA1Update_inv:
  assumes "sha_inv m ctx" "length d < 2 ^ 32 - 64"
  shows "\<exists>ctx'. SHA1Update ctx d = Some ctx' \<and> sha_inv (m @ d) ctx'"
proof -
  note inv = assms(1) [unfolded sha_inv_def]
  define j where "j = length m mod 64"
  define t where "t = msg_tail m"
  have j: "j < 64" "length t = j" by (simp_all add: j_def t_def length_msg_tail)
  let ?h = "sha_blocks sha_start m"
  let ?j = "drop_bit 3 (of_nat (8 * length m) :: u32) AND 63"
  let ?len = "of_nat (length d) :: u32"
  have uj: "unat ?j = j" by (simp only: count_low j_def)
  have cmp: "(?j + ?len > 63) = (63 < j + length d)"
  proof -
    have "unat ?len = length d" using assms(2) by (simp add: unat_of_nat)
    then have "unat (?j + ?len) = j + length d" using assms(2) j by (simp only: unat_word_ariths uj) simp
    then show ?thesis by (simp add: word_less_nat_alt)
  qed
  have i: "unat (64 - ?j) = 64 - j"
  proof -
    have "?j \<le> 64" using j by (simp only: word_le_nat_alt uj) simp
    then show ?thesis by (simp only: unat_sub uj) simp
  qed
  have cnt: "length d < 2 ^ 32" using assms(2) by simp
  note carry0 = count_carry [OF cnt, of "length m", unfolded Let_def]
  note carry = carry0 [THEN conjunct1] carry0 [THEN conjunct2, unfolded carry0 [THEN conjunct1]]
  note app = sha_blocks_append [of sha_start m d, folded t_def]
  have upd: "SHA1Update ctx d =
     (if 63 < j + length d then
        do { buf \<leftarrow> mem_write j (take (64 - j) d) (sha_buffer ctx);
             let (state, i) = transform_loop (SHA1Transform (to_list ?h) buf) d (64 - j) in
             do { buf' \<leftarrow> mem_write 0 (drop i d) buf;
                  Some \<lparr>sha_state = state, count0 = of_nat (8 * (length m + length d)),
                    count1 = of_nat (8 * (length m + length d) div 2 ^ 32), sha_buffer = buf'\<rparr> } }
      else
        do { buf \<leftarrow> mem_write j d (sha_buffer ctx);
             Some \<lparr>sha_state = to_list ?h, count0 = of_nat (8 * (length m + length d)),
               count1 = of_nat (8 * (length m + length d) div 2 ^ 32), sha_buffer = buf\<rparr> })"
    unfolding SHA1Update_def Let_def
    by (simp only: inv carry cmp i uj)
  have pre: "take j (sha_buffer ctx) = t" using inv by (simp only: j_def t_def)
  have blen: "length (sha_buffer ctx) = 64" using inv by simp
  show ?thesis
  proof (cases "63 < j + length d")
    case True
    let ?b = "t @ take (64 - j) d"
    have w: "mem_write j (take (64 - j) d) (sha_buffer ctx) = Some ?b"
      using True j blen pre by (simp add: mem_write_def)
    have lb: "length ?b = 64" using True j by simp
    have tb: "take 64 (t @ d) = ?b" "drop 64 (t @ d) = drop (64 - j) d" using j by simp_all
    have tr: "SHA1Transform (to_list ?h) ?b = to_list (sha_compress ?b ?h)" by (rule SHA1Transform_correct [OF lb])
    obtain i' where i': "transform_loop (to_list (sha_compress ?b ?h)) d (64 - j) = (to_list (sha_blocks (sha_compress ?b ?h) (drop (64 - j) d)), i')"
        "drop i' d = msg_tail (drop (64 - j) d)"
    proof -
      have "64 - j \<le> length d" using True by simp
      from transform_loop_blocks [OF this, of "sha_compress ?b ?h"] show ?thesis using that by blast
    qed
    have blocks: "sha_blocks ?h (t @ d) = sha_blocks (sha_compress ?b ?h) (drop (64 - j) d)"
      using True j by (simp only: sha_blocks.simps [of ?h "t @ d"] tb) simp
    have tail: "msg_tail (t @ d) = msg_tail (drop (64 - j) d)"
      using True j msg_tail_long [of "t @ d"] by (simp only: tb) simp
    have lt: "length (drop i' d) \<le> 64" by (simp add: i'(2) length_msg_tail less_imp_le)
    have w2: "mem_write 0 (drop i' d) ?b = Some (drop i' d @ drop (length (drop i' d)) ?b)"
      using lt lb unfolding mem_write_def by simp
    have up: "SHA1Update ctx d = Some \<lparr>sha_state = to_list (sha_blocks ?h (t @ d)), count0 = of_nat (8 * (length m + length d)),
        count1 = of_nat (8 * (length m + length d) div 2 ^ 32), sha_buffer = drop i' d @ drop (length (drop i' d)) ?b\<rparr>"
      using True by (simp only: upd if_True w tr i'(1) bind.bind_lunit Let_def prod.case w2 blocks)
    have len: "length (m @ d) mod 64 = length (drop i' d)"
      using length_msg_tail [of "m @ d"] app tail i'(2) by simp
    have "length (x @ drop (length x) y) = 64" if "length x \<le> 64" "length y = 64" for x y :: "u8 list"
      using that by simp
    from this [OF lt lb] have "length (drop i' d @ drop (length (drop i' d)) ?b) = 64" .
    moreover have "msg_tail (m @ d) = drop i' d" using app tail i'(2) by simp
    ultimately show ?thesis unfolding up sha_inv_def using len app by (simp del: of_nat_mult of_nat_add drop_append)
  next
    case False
    have w: "mem_write j d (sha_buffer ctx) = Some (t @ d @ drop (j + length d) (sha_buffer ctx))"
      using False blen pre by (simp add: mem_write_def)
    have up: "SHA1Update ctx d = Some \<lparr>sha_state = to_list ?h, count0 = of_nat (8 * (length m + length d)),
        count1 = of_nat (8 * (length m + length d) div 2 ^ 32), sha_buffer = t @ d @ drop (j + length d) (sha_buffer ctx)\<rparr>"
      using False by (simp only: upd if_False w bind.bind_lunit)
    have b: "sha_blocks ?h (t @ d) = ?h" "msg_tail (t @ d) = t @ d"
      using False j by (simp_all add: sha_blocks.simps [of ?h "t @ d"] msg_tail_short)
    have len: "length (m @ d) mod 64 = j + length d"
      using length_msg_tail [of "m @ d"] app b j by simp
    show ?thesis unfolding up sha_inv_def using len app b False blen j by (simp del: of_nat_mult of_nat_add)
  qed
qed

lemma length_upd_small: "length [b] < 2 ^ 32 - 64" "length bs = 8 \<Longrightarrow> length bs < 2 ^ 32 - 64"
  by simp_all

lemma pad_loop_inv:
  assumes "sha_inv m ctx" "(120 - length m mod 64) mod 64 < f"
  shows "\<exists>ctx'. pad_loop f ctx = Some ctx' \<and> sha_inv (m @ replicate ((120 - length m mod 64) mod 64) 0) ctx'"
  using assms
proof (induction f arbitrary: m ctx)
  case 0
  then show ?case by simp
next
  case (Suc f)
  define j where "j = length m mod 64"
  have j: "j < 64" by (simp add: j_def)
  have c: "(count0 ctx AND 504 \<noteq> 448) = (j \<noteq> 56)"
  proof -
    have "count0 ctx AND 504 = of_nat (8 * j)" using Suc.prems(1) by (simp only: sha_inv_def count_pad j_def)
    moreover have "(of_nat (8 * j) = (448 :: u32)) \<longleftrightarrow> 8 * j = 448"
    proof -
      have "unat (of_nat (8 * j) :: u32) = 8 * j" using j by (simp only: unat_count) simp
      then show ?thesis by (simp only: word_unat_eq_iff) simp
    qed
    ultimately show ?thesis by simp
  qed
  show ?case
  proof (cases "j = 56")
    case True
    then show ?thesis using Suc.prems(1) c by (simp add: j_def [symmetric])
  next
    case False
    obtain ctx1 where u: "SHA1Update ctx [0] = Some ctx1" "sha_inv (m @ [0]) ctx1"
      using SHA1Update_inv [OF Suc.prems(1) length_upd_small(1)] by blast
    have "length (m @ [0]) mod 64 = (j + 1) mod 64" by (simp add: j_def mod_Suc_eq)
    then have k: "(120 - j) mod 64 = Suc ((120 - length (m @ [0]) mod 64) mod 64)"
      using j False by (cases "j = 63") (auto simp: mod_if)
    then have "(120 - length (m @ [0]) mod 64) mod 64 < f" using Suc.prems(2) by (simp only: j_def [symmetric])
    from Suc.IH [OF u(2) this] show ?thesis
      using c False u(1) unfolding j_def [symmetric] k by (simp add: replicate_app_Cons_same)
  qed
qed

lemma byte_of_nat: "s \<le> 24 \<Longrightarrow> ucast (drop_bit s (of_nat x :: u32) AND 255) = (of_nat (x div 2 ^ s) :: u8)"
proof (rule bit_word_eqI)
  fix i assume s: "s \<le> 24" and i: "i < LENGTH(8)"
  have m: "(255 :: u32) = mask 8" by (simp add: mask_eq_exp_minus_1)
  have "bit (of_nat (x div 2 ^ s) :: u8) i = bit x (s + i)"
    using i by (simp add: bit_simps flip: drop_bit_eq_div)
  moreover have "bit (ucast (drop_bit s (of_nat x :: u32) AND 255) :: u8) i = bit x (s + i)"
    using i s by (simp only: m) (simp add: bit_simps)
  ultimately show "bit (ucast (drop_bit s (of_nat x :: u32) AND 255) :: u8) i = bit (of_nat (x div 2 ^ s) :: u8) i" by simp
qed

lemma byte_of_word: "(ucast (x AND 255 :: u32) :: u8) = ucast x"
proof (rule bit_word_eqI)
  fix i assume i: "i < LENGTH(8)"
  have m: "(255 :: u32) = mask 8" by (simp add: mask_eq_exp_minus_1)
  show "bit (ucast (x AND 255) :: u8) i = bit (ucast x :: u8) i" using i by (simp only: m) (simp add: bit_simps)
qed

lemma finalcount_be64:
  "map (\<lambda>i. ucast (drop_bit ((3 - i mod 4) * 8) (if i \<ge> 4 then of_nat n else of_nat (n div 2 ^ 32) :: u32) AND 255)) [0..<8] = be64 n"
proof -
  have "ucast (drop_bit ((3 - i mod 4) * 8) (if i \<ge> 4 then of_nat n else of_nat (n div 2 ^ 32) :: u32) AND 255) = (of_nat (n div 256 ^ (7 - i)) :: u8)"
    if "i < 8" for i
  proof -
    have "n div 2 ^ 32 div 2 ^ ((3 - i) * 8) = n div 256 ^ (7 - i)" if "i < 4"
    proof -
      have "32 + (3 - i) * 8 = 8 * (7 - i)" using that by simp
      then have "(2 :: nat) ^ 32 * 2 ^ ((3 - i) * 8) = 256 ^ (7 - i)" using power_mult [of "2 :: nat" 8 "7 - i"] by (simp only: power_add [symmetric]) simp
      then show ?thesis by (simp only: div_mult2_eq [symmetric])
    qed
    moreover have "(2 :: nat) ^ ((3 - i mod 4) * 8) = 256 ^ (7 - i)" if "4 \<le> i" "i < 8"
    proof -
      have "(3 - i mod 4) * 8 = 8 * (7 - i)" using that by (simp add: mod_if)
      then show ?thesis using power_mult [of "2 :: nat" 8 "7 - i"] by (simp only:) simp
    qed
    ultimately show ?thesis
      using that byte_of_nat [of "(3 - i mod 4) * 8" n] byte_of_nat [of "(3 - i mod 4) * 8" "n div 2 ^ 32"] by (cases "4 \<le> i") (simp_all del: of_nat_div)
  qed
  then show ?thesis by (simp add: be64_def)
qed

section \<open>Properties\<close>

fun SHA1_pieces :: "SHA1_CTX \<Rightarrow> u8 list list \<Rightarrow> SHA1_CTX option" where
  "SHA1_pieces ctx [] = Some ctx"
| "SHA1_pieces ctx (d # ds) = SHA1Update ctx d \<bind> (\<lambda>ctx. SHA1_pieces ctx ds)"

lemma SHA1_pieces_inv:
  assumes "sha_inv m ctx" "\<forall>d\<in>set ds. length d < 2 ^ 32 - 64"
  shows "\<exists>ctx'. SHA1_pieces ctx ds = Some ctx' \<and> sha_inv (m @ concat ds) ctx'"
  using assms
proof (induction ds arbitrary: m ctx)
  case (Cons d ds)
  obtain ctx1 where u: "SHA1Update ctx d = Some ctx1" "sha_inv (m @ d) ctx1"
    using SHA1Update_inv [OF Cons.prems(1)] Cons.prems(2) by auto
  with Cons.IH [OF u(2)] Cons.prems(2) show ?case by simp
qed simp

lemma pad_length: "(120 - length (m @ [128]) mod 64) mod 64 = (119 - length m mod 64) mod 64"
proof -
  have "length (m @ [128]) mod 64 = (if length m mod 64 = 63 then 0 else Suc (length m mod 64))" by (simp add: mod_Suc)
  then show ?thesis by (simp add: Suc_diff_Suc)
qed

lemma SHA1Final_ref:
  assumes "sha_inv m ctx"
  shows "SHA1Final ctx = Some (sha1_ref m)"
proof -
  have fc: "map (\<lambda>i. ucast (drop_bit ((3 - i mod 4) * 8) (if i \<ge> 4 then count0 ctx else count1 ctx) AND 255)) [0..<8] = be64 (8 * length m)"
    using assms by (simp only: sha_inv_def finalcount_be64)
  obtain c1 where c1: "SHA1Update ctx [128] = Some c1" "sha_inv (m @ [128]) c1"
    using SHA1Update_inv [OF assms length_upd_small(1)] by blast
  obtain c2 where c2: "pad_loop 64 c1 = Some c2" "sha_inv ((m @ [128]) @ replicate ((119 - length m mod 64) mod 64) 0) c2"
    using pad_loop_inv [OF c1(2), of 64] unfolding pad_length by auto
  have "length (be64 (8 * length m)) = 8" by (simp add: be64_def)
  then obtain c3 where c3: "SHA1Update c2 (be64 (8 * length m)) = Some c3" "sha_inv (sha_pad m) c3"
    using SHA1Update_inv [OF c2(2) length_upd_small(2)] by (auto simp: sha_pad_def)
  obtain a b c d e where h: "sha_blocks sha_start (sha_pad m) = (a, b, c, d, e)" by (cases "sha_blocks sha_start (sha_pad m)") auto
  have "sha_state c3 = [a, b, c, d, e]" using c3(2) by (simp add: sha_inv_def h to_list_def)
  then have "map (\<lambda>i. ucast (drop_bit ((3 - i mod 4) * 8) (sha_state c3 ! (i div 4)) AND 255)) [0..<20] = sha1_ref m"
    by (simp add: sha1_ref_def h digest_bytes_def upt_rec byte_of_word)
  then show ?thesis by (simp only: SHA1Final_def fc Let_def c1 c2 c3 bind.bind_lunit)
qed

text \<open>C36: However a message is cut into pieces, feeding them to \<^verbatim>\<open>SHA1Update\<close> one after the other and calling
  \<^verbatim>\<open>SHA1Final\<close> stays within the buffer, terminates and gives the digest of the standard, as long
  as no piece comes within 64 bytes of the range of its 32 bit length.\<close>

theorem sha1_correct:
  assumes "length junk = 64" "\<forall>d\<in>set ds. length d < 2 ^ 32 - 64"
  shows "SHA1_pieces (SHA1Init junk) ds \<bind> SHA1Final = Some (sha1_ref (concat ds))"
proof -
  obtain c where "SHA1_pieces (SHA1Init junk) ds = Some c" "sha_inv (concat ds) c"
    using SHA1_pieces_inv [OF SHA1Init_inv [OF assms(1)] assms(2)] by auto
  then show ?thesis using SHA1Final_ref by simp
qed

theorem sha1_correct_witness:
  "SHA1_pieces (SHA1Init (replicate 64 7)) [[97], [98, 99]] \<bind> SHA1Final = Some (sha1_ref [97, 98, 99])"
  using sha1_correct [of "replicate 64 7" "[[97], [98, 99]]"] by simp

end
