(* ===== verification/Rio.thy ===== *)
theory Rio
  imports Crc Util
begin

text \<open>
  The streams of \<^verbatim>\<open>rio.c\<close> and \<^verbatim>\<open>rio.h\<close> over a file or a buffer: its bytes, the position of the next read, the number of
  bytes that the device of a file still takes before a write fails (\<open>None\<close> for a buffer in memory), the running
  checksum and the counters. \<open>r_update\<close> says whether a
  checksum function is installed. \<open>None\<close> is the return of zero: a read behind the end or a write that does not fit;
  the callers give up then and never look at the stream again. The synchronisation of the file is left out.

  The lemmas remove the chunks in which the stream is processed: a write appends its bytes, and a read takes the bytes
  ahead.
\<close>

section \<open>Operations\<close>

record rio =
  r_data :: "u8 list"
  r_pos :: nat
  r_room :: "nat option"
  r_update :: bool
  r_cksum :: u64
  r_chunk :: nat
  r_processed :: nat

definition rioBufferWrite :: "rio \<Rightarrow> u8 list \<Rightarrow> rio option" where
  "rioBufferWrite r buf = Some (r\<lparr>r_data := r_data r @ buf, r_pos := r_pos r + length buf\<rparr>)"

definition rioBufferRead :: "rio \<Rightarrow> nat \<Rightarrow> (u8 list \<times> rio) option" where
  "rioBufferRead r len =
     (if length (r_data r) - r_pos r < len then None else Some (take len (drop (r_pos r) (r_data r)), r\<lparr>r_pos := r_pos r + len\<rparr>))"

definition rioInitWithBuffer :: "u8 list \<Rightarrow> rio" where
  "rioInitWithBuffer s =
     \<lparr>r_data = s, r_pos = 0, r_room = None, r_update = False, r_cksum = 0, r_chunk = 0, r_processed = 0\<rparr>"

definition rioFileWrite :: "nat \<Rightarrow> rio \<Rightarrow> u8 list \<Rightarrow> rio option" where
  "rioFileWrite room r buf =
     (if length buf \<le> room
      then Some (r\<lparr>r_data := r_data r @ buf, r_pos := r_pos r + length buf, r_room := Some (room - length buf)\<rparr>) else None)"

definition rioFileRead :: "rio \<Rightarrow> nat \<Rightarrow> (u8 list \<times> rio) option" where
  "rioFileRead r len =
     (if r_pos r + len \<le> length (r_data r) then Some (take len (drop (r_pos r) (r_data r)), r\<lparr>r_pos := r_pos r + len\<rparr>) else None)"

definition rioInitWithFile :: "u8 list \<Rightarrow> nat \<Rightarrow> rio" where
  "rioInitWithFile content room =
     \<lparr>r_data = content, r_pos = 0, r_room = Some room, r_update = False, r_cksum = 0, r_chunk = 0, r_processed = 0\<rparr>"

text \<open>The backend of a stream.\<close>

definition rio_write :: "rio \<Rightarrow> u8 list \<Rightarrow> rio option" where
  "rio_write r buf = (case r_room r of None \<Rightarrow> rioBufferWrite r buf | Some room \<Rightarrow> rioFileWrite room r buf)"

definition rio_read :: "rio \<Rightarrow> nat \<Rightarrow> (u8 list \<times> rio) option" where
  "rio_read r len = (if r_room r = None then rioBufferRead r len else rioFileRead r len)"

definition rioGenericUpdateChecksum :: "rio \<Rightarrow> u8 list \<Rightarrow> rio" where
  "rioGenericUpdateChecksum r buf = r\<lparr>r_cksum := crc64 (r_cksum r) buf\<rparr>"

definition chunk_len :: "rio \<Rightarrow> nat \<Rightarrow> nat" where
  "chunk_len r len = (if r_chunk r \<noteq> 0 \<and> r_chunk r < len then r_chunk r else len)"

function rioWrite :: "rio \<Rightarrow> u8 list \<Rightarrow> rio option" where
  "rioWrite r buf =
     (if buf = [] then Some r
      else
        let n = chunk_len r (length buf); c = take n buf;
            r1 = (if r_update r then rioGenericUpdateChecksum r c else r)
        in do { r2 \<leftarrow> rio_write r1 c; rioWrite (r2\<lparr>r_processed := r_processed r2 + n\<rparr>) (drop n buf) })"
  by pat_completeness auto
termination
  by (relation "measure (\<lambda>(r, buf). length buf)") (auto simp: chunk_len_def)

function rioRead :: "rio \<Rightarrow> nat \<Rightarrow> (u8 list \<times> rio) option" where
  "rioRead r len =
     (if len = 0 then Some ([], r)
      else
        let n = chunk_len r len
        in do { (c, r1) \<leftarrow> rio_read r n;
                let r2 = (if r_update r1 then rioGenericUpdateChecksum r1 c else r1);
                (cs, r3) \<leftarrow> rioRead (r2\<lparr>r_processed := r_processed r2 + n\<rparr>) (len - n);
                Some (c @ cs, r3) })"
  by pat_completeness auto
termination
  by (relation "measure (\<lambda>(r, len). len)") (auto simp: chunk_len_def)

declare rioWrite.simps [simp del] rioRead.simps [simp del]

text \<open>The parts of a request in the protocol: a count, a string, a number. The result has the number of bytes.\<close>

definition rioWriteBulkCount :: "rio \<Rightarrow> u8 \<Rightarrow> int \<Rightarrow> (rio \<times> nat) option" where
  "rioWriteBulkCount r prefix count =
     (let cbuf = prefix # ll_repr count @ [13, 10] in do { r1 \<leftarrow> rioWrite r cbuf; Some (r1, length cbuf) })"

definition rioWriteBulkString :: "rio \<Rightarrow> u8 list \<Rightarrow> (rio \<times> nat) option" where
  "rioWriteBulkString r buf =
     do { (r1, nwritten) \<leftarrow> rioWriteBulkCount r (of_char CHR ''$'') (sign_extend 4 (int (length buf)));
          r2 \<leftarrow> (if length buf > 0 then rioWrite r1 buf else Some r1);
          r3 \<leftarrow> rioWrite r2 [13, 10];
          Some (r3, nwritten + length buf + 2) }"

definition rioWriteBulkLongLong :: "rio \<Rightarrow> int \<Rightarrow> (rio \<times> nat) option" where
  "rioWriteBulkLongLong r l = rioWriteBulkString r (ll_repr l)"

section \<open>Without chunks\<close>

lemma crc64_append: "crc64 c (as @ bs) = crc64 (crc64 c as) bs"
  by (simp add: crc64_loop_ref crc64_ref_append)

lemma crc64_Nil: "crc64 c [] = c"
  by (simp add: crc64_loop_ref)

definition advance :: "rio \<Rightarrow> u8 list \<Rightarrow> rio" where
  "advance r bs =
     r\<lparr>r_pos := r_pos r + length bs, r_cksum := (if r_update r then crc64 (r_cksum r) bs else r_cksum r),
       r_processed := r_processed r + length bs\<rparr>"

definition wrote :: "rio \<Rightarrow> u8 list \<Rightarrow> rio" where
  "wrote r bs = (advance r bs)\<lparr>r_data := r_data r @ bs, r_room := map_option (\<lambda>m. m - length bs) (r_room r)\<rparr>"

definition fits :: "rio \<Rightarrow> nat \<Rightarrow> bool" where
  "fits r n \<longleftrightarrow> (case r_room r of None \<Rightarrow> True | Some m \<Rightarrow> n \<le> m)"

definition ahead :: "rio \<Rightarrow> u8 list" where
  "ahead r = drop (r_pos r) (r_data r)"

lemma advance_Nil [simp]: "advance r [] = r"
  by (cases r) (simp add: advance_def crc64_Nil)

lemma advance_advance [simp]: "advance (advance r as) bs = advance r (as @ bs)"
  by (simp add: advance_def crc64_append)

lemma wrote_Nil [simp]: "wrote r [] = r"
  by (cases r) (simp add: wrote_def option.map_ident)

lemma wrote_wrote [simp]: "wrote (wrote r as) bs = wrote r (as @ bs)"
  by (simp add: wrote_def advance_def crc64_append option.map_comp comp_def)

lemma room_wrote [simp]: "r_room (wrote r bs) = map_option (\<lambda>m. m - length bs) (r_room r)"
  by (simp add: wrote_def)

lemma fits_wrote: "fits r (length as) \<Longrightarrow> fits (wrote r as) n \<longleftrightarrow> fits r (length as + n)"
  by (auto simp: fits_def wrote_def split: option.split)

lemma fits_mono: "fits r n \<Longrightarrow> m \<le> n \<Longrightarrow> fits r m"
  by (auto simp: fits_def split: option.splits)

lemma fits_0 [simp]: "fits r 0"
  by (simp add: fits_def split: option.split)

lemma advance_fields [simp]:
  "r_update (advance r bs) = r_update r" "r_chunk (advance r bs) = r_chunk r" "r_data (advance r bs) = r_data r"
  "r_pos (advance r bs) = r_pos r + length bs" "r_cksum (advance r bs) = (if r_update r then crc64 (r_cksum r) bs else r_cksum r)"
  by (simp_all add: advance_def)

lemma ahead_advance: "ahead r = bs @ rest \<Longrightarrow> ahead (advance r bs) = rest"
  by (simp add: ahead_def add.commute flip: drop_drop)

lemma rioWrite_eq: "rioWrite r buf = (if fits r (length buf) then Some (wrote r buf) else None)"
proof (induction r buf rule: rioWrite.induct)
  case (1 r buf)
  show ?case
  proof (cases "buf = []")
    case True
    then show ?thesis by (simp add: rioWrite.simps)
  next
    case False
    let ?n = "chunk_len r (length buf)"
    let ?c = "take ?n buf"
    let ?r1 = "if r_update r then rioGenericUpdateChecksum r ?c else r"
    have n: "?n \<le> length buf" by (simp add: chunk_len_def)
    have first: "map_option (\<lambda>r2. r2\<lparr>r_processed := r_processed r2 + ?n\<rparr>) (rio_write ?r1 ?c)
        = (if fits r ?n then Some (wrote r ?c) else None)"
      using n by (auto simp: rio_write_def rioBufferWrite_def rioFileWrite_def rioGenericUpdateChecksum_def wrote_def advance_def fits_def split: option.split)
    show ?thesis
    proof (cases "rio_write ?r1 ?c")
      case None
      then have "\<not> fits r ?n" using first by (auto split: if_splits)
      then have "\<not> fits r (length buf)" using fits_mono n by blast
      then show ?thesis using None False by (subst rioWrite.simps) (simp add: Let_def)
    next
      case (Some r2)
      have eq: "r2\<lparr>r_processed := r_processed r2 + ?n\<rparr> = wrote r ?c" "fits r ?n" using first Some by (auto split: if_splits)
      have "rioWrite (wrote r ?c) (drop ?n buf) = (if fits (wrote r ?c) (length (drop ?n buf)) then Some (wrote (wrote r ?c) (drop ?n buf)) else None)"
        using 1 [OF False refl refl refl Some] unfolding eq(1) .
      moreover have "rioWrite r buf = rioWrite (wrote r ?c) (drop ?n buf)"
        using Some False eq(1) by (subst rioWrite.simps) (simp add: Let_def)
      moreover have "fits (wrote r ?c) (length (drop ?n buf)) \<longleftrightarrow> fits r (length buf)" using fits_wrote [of r ?c] n eq(2) by simp
      ultimately show ?thesis by simp
    qed
  qed
qed

lemma rioRead_eq:
  "r_pos r \<le> length (r_data r) \<Longrightarrow>
   rioRead r len = (if len \<le> length (ahead r) then Some (take len (ahead r), advance r (take len (ahead r))) else None)"
proof (induction r len rule: rioRead.induct)
  case (1 r len)
  show ?case
  proof (cases "len = 0")
    case True
    then show ?thesis by (simp add: rioRead.simps)
  next
    case False
    let ?n = "chunk_len r len"
    let ?c = "take ?n (ahead r)"
    have n: "0 < ?n" "?n \<le> len" using False by (simp_all add: chunk_len_def)
    show ?thesis
    proof (cases "?n \<le> length (ahead r)")
      case short: False
      then have "rio_read r ?n = None" by (auto simp: rio_read_def rioBufferRead_def rioFileRead_def ahead_def)
      then show ?thesis using False short n by (subst rioRead.simps) (simp add: Let_def)
    next
      case True
      let ?r1 = "r\<lparr>r_pos := r_pos r + ?n\<rparr>"
      let ?r2 = "if r_update ?r1 then rioGenericUpdateChecksum ?r1 ?c else ?r1"
      have read: "rio_read r ?n = Some (?c, ?r1)"
        using True "1.prems" by (auto simp: rio_read_def rioBufferRead_def rioFileRead_def ahead_def le_diff_conv2 add.commute)
      have adv: "?r2\<lparr>r_processed := r_processed ?r2 + ?n\<rparr> = advance r ?c"
        using True by (simp add: advance_def rioGenericUpdateChecksum_def)
      have ah: "ahead (advance r ?c) = drop ?n (ahead r)" using True by (simp add: ahead_def add.commute)
      have pos: "r_pos (advance r ?c) \<le> length (r_data (advance r ?c))" using True "1.prems" by (simp add: ahead_def)
      have "rioRead (advance r ?c) (len - ?n) = (if len - ?n \<le> length (ahead (advance r ?c))
          then Some (take (len - ?n) (ahead (advance r ?c)), advance (advance r ?c) (take (len - ?n) (ahead (advance r ?c)))) else None)"
        using "1.IH" [OF False refl read refl refl] pos adv by metis
      moreover have "rioRead r len = do { (cs, r3) \<leftarrow> rioRead (advance r ?c) (len - ?n); Some (?c @ cs, r3) }"
        using False read adv by (subst rioRead.simps) (simp only: Let_def if_False bind.bind_lunit prod.case)
      moreover have "?c @ take (len - ?n) (drop ?n (ahead r)) = take len (ahead r)" using n by (simp flip: take_add)
      ultimately show ?thesis using ah True n(2) by auto
    qed
  qed
qed

lemma rioRead_ahead: "ahead r = bs @ rest \<Longrightarrow> rioRead r (length bs) = Some (bs, advance r bs)"
  using rioRead_eq [of r "length bs"] by (cases "r_pos r \<le> length (r_data r)") (auto simp: ahead_def rioRead.simps)

lemma rioRead_Cons: "ahead r = b # rest \<Longrightarrow> rioRead r 1 = Some ([b], advance r [b])"
  using rioRead_ahead [of r "[b]" rest] by simp

text \<open>A bulk string in the protocol, from which the parser of requests reads the string back.\<close>

lemma rioWriteBulkString_eq:
  assumes "length buf < 2 ^ 31"
  shows "rioWriteBulkString r buf =
    (let out = of_char CHR ''$'' # ll_repr (int (length buf)) @ [13, 10] @ buf @ [13, 10]
     in if fits r (length out) then Some (wrote r out, length out) else None)"
proof -
  have "sign_extend 4 (int (length buf)) = int (length buf)"
    using assms by (intro sign_extend_fit) (simp add: fits_signed_def)
  then show ?thesis
    by (auto simp: rioWriteBulkString_def rioWriteBulkCount_def rioWrite_eq Let_def fits_def split: bind_splits option.splits)
qed

end
