(* ===== verification/Lzf.thy ===== *)
theory Lzf
  imports Redis_Prelude
begin

text \<open>
  The compression of strings in RDB files, \<^verbatim>\<open>lzf_c.c\<close> and \<^verbatim>\<open>lzf_d.c\<close>, in the configuration of \<^verbatim>\<open>lzfP.h\<close>: \<^verbatim>\<open>HLOG\<close> is 16,
  \<^verbatim>\<open>VERY_FAST\<close> and \<^verbatim>\<open>CHECK_INPUT\<close> are set, \<^verbatim>\<open>INIT_HTAB\<close> is not. Pointers into the input are offsets; the hash table
  is not initialised, so that its slots are arbitrary integers at first. The output is the list of the bytes before
  the output pointer, where the byte that starts a run is arbitrary until the run ends; \<open>cap\<close> is the number of bytes that are
  allocated for it. Reads of the input and writes of the output are checked: \<open>None\<close> is an access out of bounds.
\<close>

unbundle bit_operations_syntax

definition MAX_LIT :: nat where
  "MAX_LIT = 32"

definition MAX_OFF :: int where
  "MAX_OFF = 8192"

definition MAX_REF :: nat where
  "MAX_REF = 264"

section \<open>Compression\<close>

record lzf_state =
  l_ip :: nat
  l_out :: "u8 list"
  l_lit :: nat
  l_hval :: u32
  l_htab :: "nat \<Rightarrow> int"

definition lzf_NEXT :: "u32 \<Rightarrow> u8 \<Rightarrow> u32" where
  "lzf_NEXT v b = push_bit 8 v OR ucast b"

definition lzf_IDX :: "u32 \<Rightarrow> nat" where
  "lzf_IDX h = unat ((drop_bit 8 h - h * 5) AND 65535)"

text \<open>\<^verbatim>\<open>op [- lit - 1] = lit - 1\<close>\<close>

definition stop_run :: "nat \<Rightarrow> lzf_state \<Rightarrow> lzf_state option" where
  "stop_run cap st =
     (let pos = length (l_out st) - l_lit st - 1
      in if l_lit st < length (l_out st) \<and> pos < cap then Some (st\<lparr>l_out := (l_out st)[pos := of_nat (l_lit st) - 1]\<rparr>) else None)"

text \<open>\<^verbatim>\<open>op -= !lit\<close>\<close>

definition undo_run :: "lzf_state \<Rightarrow> lzf_state" where
  "undo_run st = (if l_lit st = 0 then st\<lparr>l_out := butlast (l_out st)\<rparr> else st)"

definition start_run :: "(nat \<Rightarrow> u8) \<Rightarrow> lzf_state \<Rightarrow> lzf_state" where
  "start_run junk st = st\<lparr>l_lit := 0, l_out := l_out st @ [junk (length (l_out st))]\<rparr>"

definition lzf_emit :: "nat \<Rightarrow> u8 list \<Rightarrow> lzf_state \<Rightarrow> lzf_state option" where
  "lzf_emit cap bs st = (if length (l_out st) + length bs \<le> cap then Some (st\<lparr>l_out := l_out st @ bs\<rparr>) else None)"

definition lzf_literal :: "(nat \<Rightarrow> u8) \<Rightarrow> nat \<Rightarrow> u8 list \<Rightarrow> lzf_state \<Rightarrow> lzf_state option" where
  "lzf_literal junk cap d st =
     do { b \<leftarrow> rd d (l_ip st);
          st1 \<leftarrow> lzf_emit cap [b] st;
          let st2 = st1\<lparr>l_lit := l_lit st1 + 1, l_ip := l_ip st1 + 1\<rparr> in
          if l_lit st2 = MAX_LIT then do { st3 \<leftarrow> stop_run cap st2; Some (start_run junk st3) } else Some st2 }"

text \<open>The length of a match: sixteen comparisons without a test for the end, then a loop with one.\<close>

fun lzf_unrolled :: "u8 list \<Rightarrow> nat \<Rightarrow> nat \<Rightarrow> nat \<Rightarrow> nat \<Rightarrow> (nat \<times> bool) option" where
  "lzf_unrolled d ref ip 0 len = Some (len, False)"
| "lzf_unrolled d ref ip (Suc k) len =
     do { a \<leftarrow> rd d (ref + (len + 1)); b \<leftarrow> rd d (ip + (len + 1));
          if a \<noteq> b then Some (len + 1, True) else lzf_unrolled d ref ip k (len + 1) }"

function lzf_extend :: "u8 list \<Rightarrow> nat \<Rightarrow> nat \<Rightarrow> nat \<Rightarrow> nat \<Rightarrow> nat option" where
  "lzf_extend d ref ip maxlen len =
     (if len + 1 < maxlen
      then do { a \<leftarrow> rd d (ref + (len + 1)); b \<leftarrow> rd d (ip + (len + 1));
                if a = b then lzf_extend d ref ip maxlen (len + 1) else Some (len + 1) }
      else Some (len + 1))"
  by pat_completeness auto
termination
  by (relation "measure (\<lambda>(d, ref, ip, maxlen, len). maxlen - len)") auto

declare lzf_extend.simps [simp del]

definition lzf_match_len :: "u8 list \<Rightarrow> nat \<Rightarrow> nat \<Rightarrow> nat option" where
  "lzf_match_len d ref ip =
     (let maxlen = min (length d - ip - 2) MAX_REF
      in do {
        (len, stopped) \<leftarrow> (if maxlen > 16 then lzf_unrolled d ref ip 16 2 else Some (2, False));
        if stopped then Some len else lzf_extend d ref ip maxlen len })"

definition lzf_match3 :: "u8 list \<Rightarrow> nat \<Rightarrow> nat \<Rightarrow> bool option" where
  "lzf_match3 d ref ip =
     do { a0 \<leftarrow> rd d ref; b0 \<leftarrow> rd d ip; a1 \<leftarrow> rd d (ref + 1); b1 \<leftarrow> rd d (ip + 1);
          if a0 = b0 \<and> a1 = b1 then do { a2 \<leftarrow> rd d (ref + 2); b2 \<leftarrow> rd d (ip + 2); Some (a2 = b2) } else Some False }"

text \<open>The bytes of a back reference, for a distance \<open>off + 1\<close> and a length \<open>len + 2\<close>.\<close>

definition lzf_backref :: "nat \<Rightarrow> nat \<Rightarrow> u8 list" where
  "lzf_backref off len =
     (if len < 7 then [of_nat (off div 256) + of_nat (len * 32)] else [of_nat (off div 256) + of_nat (7 * 32), of_nat (len - 7)]) @ [of_nat off]"

text \<open>A round of the loop returns zero, leaves the loop, or goes on.\<close>

datatype lzf_round = LzfZero | LzfBreak lzf_state | LzfNext lzf_state

definition lzf_match :: "(nat \<Rightarrow> u8) \<Rightarrow> nat \<Rightarrow> nat \<Rightarrow> u8 list \<Rightarrow> nat \<Rightarrow> nat \<Rightarrow> lzf_state \<Rightarrow> lzf_round option" where
  "lzf_match junk cap out_len d ref off st =
     do { st1 \<leftarrow> stop_run cap st;
          let st2 = undo_run st1 in
          if length (l_out st2) + 3 + 1 \<ge> out_len then Some LzfZero
          else do {
            octets \<leftarrow> lzf_match_len d ref (l_ip st2);
            st3 \<leftarrow> lzf_emit cap (lzf_backref off (octets - 2)) st2;
            let ip = l_ip st3 + octets; st4 = start_run junk st3 in
            if ip + 2 \<ge> length d then Some (LzfBreak (st4\<lparr>l_ip := ip\<rparr>))
            else do {
              a \<leftarrow> rd d (ip - 2); b \<leftarrow> rd d (ip - 1); x \<leftarrow> rd d ip; y \<leftarrow> rd d (ip + 1);
              let h1 = lzf_NEXT (push_bit 8 (ucast a) OR ucast b) x; h2 = lzf_NEXT h1 y;
                  htab = (l_htab st4)(lzf_IDX h1 := int (ip - 2), lzf_IDX h2 := int (ip - 1))
              in Some (LzfNext (st4\<lparr>l_ip := ip, l_hval := h2, l_htab := htab\<rparr>)) } } }"

definition lzf_round :: "(nat \<Rightarrow> u8) \<Rightarrow> nat \<Rightarrow> nat \<Rightarrow> u8 list \<Rightarrow> lzf_state \<Rightarrow> lzf_round option" where
  "lzf_round junk cap out_len d st =
     do { p2 \<leftarrow> rd d (l_ip st + 2);
          let hval = lzf_NEXT (l_hval st) p2; ref = l_htab st (lzf_IDX hval);
              st1 = st\<lparr>l_hval := hval, l_htab := (l_htab st)(lzf_IDX hval := int (l_ip st))\<rparr>;
              off = (int (l_ip st) - ref - 1) mod 2 ^ 64
          in do {
            found \<leftarrow> (if off < MAX_OFF \<and> l_ip st + 4 < length d \<and> ref > 0 then lzf_match3 d (nat ref) (l_ip st) else Some False);
            if found then lzf_match junk cap out_len d (nat ref) (nat off) st1
            else if length (l_out st1) \<ge> out_len then Some LzfZero
            else do { st2 \<leftarrow> lzf_literal junk cap d st1; Some (LzfNext st2) } } }"

lemma lzf_unrolled_le: "lzf_unrolled d ref ip k len = Some (len', stopped) \<Longrightarrow> len \<le> len' \<and> (stopped \<longrightarrow> len < len')"
  by (induction k arbitrary: len) (fastforce split: bind_splits if_splits)+

lemma lzf_extend_less: "lzf_extend d ref ip maxlen len = Some len' \<Longrightarrow> len < len'"
proof (induction d ref ip maxlen len rule: lzf_extend.induct)
  case (1 d ref ip maxlen len)
  then show ?case by (subst (asm) lzf_extend.simps) (fastforce split: bind_splits if_splits)
qed

lemma lzf_match_len_ge: "lzf_match_len d ref ip = Some octets \<Longrightarrow> 3 \<le> octets"
  by (fastforce simp: lzf_match_len_def Let_def split: bind_splits if_splits dest: lzf_unrolled_le lzf_extend_less)

lemma lzf_round_advances:
  assumes "lzf_round junk cap out_len d st = Some (LzfNext st')" "l_ip st + 2 < length d"
  shows "l_ip st < l_ip st'"
proof -
  have lit: "l_ip t < l_ip t'" if "lzf_literal junk cap d t = Some t'" for t t'
    using that by (auto simp: lzf_literal_def lzf_emit_def Let_def stop_run_def start_run_def split: bind_splits if_splits)
  have match: "l_ip t < l_ip t'" if "lzf_match junk cap out_len d ref off t = Some (LzfNext t')" for t t' ref off
    using that by (fastforce simp: lzf_match_def stop_run_def undo_run_def lzf_emit_def start_run_def Let_def
        split: bind_splits if_splits dest: lzf_match_len_ge)
  show ?thesis
    using assms(1) by (auto simp: lzf_round_def Let_def split: bind_splits if_splits dest!: lit match)
qed

function lzf_loop :: "(nat \<Rightarrow> u8) \<Rightarrow> nat \<Rightarrow> nat \<Rightarrow> u8 list \<Rightarrow> lzf_state \<Rightarrow> lzf_state option option" where
  "lzf_loop junk cap out_len d st =
     (if l_ip st + 2 < length d
      then (case lzf_round junk cap out_len d st of
              None \<Rightarrow> None
            | Some LzfZero \<Rightarrow> Some None
            | Some (LzfBreak st') \<Rightarrow> Some (Some st')
            | Some (LzfNext st') \<Rightarrow> lzf_loop junk cap out_len d st')
      else Some (Some st))"
  by pat_completeness auto
termination
  by (relation "measure (\<lambda>(junk, cap, out_len, d, st). length d - l_ip st)") (auto dest: lzf_round_advances intro: diff_less_mono2)

declare lzf_loop.simps [simp del]

fun lzf_tail :: "(nat \<Rightarrow> u8) \<Rightarrow> nat \<Rightarrow> u8 list \<Rightarrow> nat \<Rightarrow> lzf_state \<Rightarrow> lzf_state option" where
  "lzf_tail junk cap d 0 st = Some st"
| "lzf_tail junk cap d (Suc k) st = do { st1 \<leftarrow> lzf_literal junk cap d st; lzf_tail junk cap d k st1 }"

text \<open>The result is the bytes whose number \<^verbatim>\<open>lzf_compress\<close> returns; no bytes stand for the return of zero.\<close>

definition lzf_compress :: "(nat \<Rightarrow> u8) \<Rightarrow> (nat \<Rightarrow> int) \<Rightarrow> nat \<Rightarrow> nat \<Rightarrow> u8 list \<Rightarrow> u8 list option" where
  "lzf_compress junk htab cap out_len d =
     (if d = [] \<or> out_len = 0 then Some []
      else do {
        a \<leftarrow> rd d 0; b \<leftarrow> rd d 1;
        r \<leftarrow> lzf_loop junk cap out_len d
               (start_run junk \<lparr>l_ip = 0, l_out = [], l_lit = 0, l_hval = push_bit 8 (ucast a) OR ucast b, l_htab = htab\<rparr>);
        (case r of
           None \<Rightarrow> Some []
         | Some st \<Rightarrow>
             if length (l_out st) + 3 > out_len then Some []
             else do { st1 \<leftarrow> lzf_tail junk cap d (length d - l_ip st) st; st2 \<leftarrow> stop_run cap st1; Some (l_out (undo_run st2)) }) })"

section \<open>Decompression\<close>

text \<open>The bytes are copied one by one, since the copy may overlap with what it has written.\<close>

fun lzf_copy :: "nat \<Rightarrow> nat \<Rightarrow> u8 list \<Rightarrow> u8 list" where
  "lzf_copy ref 0 out = out"
| "lzf_copy ref (Suc n) out = lzf_copy (ref + 1) n (out @ [out ! ref])"

datatype lzf_errno = E2BIG | EINVAL

definition lzf_decode_ref :: "nat \<Rightarrow> nat \<Rightarrow> u8 list \<Rightarrow> u8 list \<Rightarrow> lzf_errno + (u8 list \<times> u8 list)" where
  "lzf_decode_ref out_len ctrl ip out =
     (case ip of
        [] \<Rightarrow> Inl EINVAL
      | c # ip1 \<Rightarrow>
          let len = ctrl div 32; long1 = (len = 7); len = (if long1 then len + unat c else len);
              ip2 = (if long1 then ip1 else ip)
          in (case ip2 of
                [] \<Rightarrow> Inl EINVAL
              | b # ip3 \<Rightarrow>
                  let ref = int (length out) - int (ctrl mod 32 * 256) - 1 - int (unat b)
                  in if length out + len + 2 > out_len then Inl E2BIG
                     else if ref < 0 then Inl EINVAL
                     else Inr (ip3, lzf_copy (nat ref) (len + 2) out)))"

function lzf_decode :: "nat \<Rightarrow> u8 list \<Rightarrow> u8 list \<Rightarrow> (lzf_errno + u8 list) option" where
  "lzf_decode out_len [] out = None"
| "lzf_decode out_len (c # ip) out =
     (let ctrl = unat c
      in case (if ctrl < 32 then
                 if length out + (ctrl + 1) > out_len then Inl E2BIG
                 else if ctrl + 1 > length ip then Inl EINVAL
                 else Inr (drop (ctrl + 1) ip, out @ take (ctrl + 1) ip)
               else lzf_decode_ref out_len ctrl ip out) of
           Inl e \<Rightarrow> Some (Inl e)
         | Inr (ip', out') \<Rightarrow> if ip' = [] then Some (Inr out') else lzf_decode out_len ip' out')"
  by pat_completeness auto
termination
proof (relation "measure (\<lambda>(out_len, ip, out). length ip)", goal_cases)
  case (2 out_len c ip out ctrl y ip' out')
  then show ?case
    by (auto simp: lzf_decode_ref_def Let_def split: if_splits list.splits)
qed auto

declare lzf_decode.simps(2) [simp del]

text \<open>An empty input is read from all the same: \<open>None\<close>.\<close>

definition lzf_decompress :: "nat \<Rightarrow> u8 list \<Rightarrow> (lzf_errno + u8 list) option" where
  "lzf_decompress out_len inp = lzf_decode out_len inp []"

section \<open>Decoding runs and references\<close>

definition dec_from :: "nat \<Rightarrow> u8 list \<Rightarrow> u8 list \<Rightarrow> (lzf_errno + u8 list) option" where
  "dec_from dlen ip out = (if ip = [] then Some (Inr out) else lzf_decode dlen ip out)"

lemma unat_small: "n < 256 \<Longrightarrow> unat (of_nat n :: u8) = n"
  by (simp add: unat_of_nat)

lemma run_header: "0 < n \<Longrightarrow> n \<le> 32 \<Longrightarrow> unat (of_nat n - 1 :: u8) = n - 1"
  using unat_small [of "n - 1"] by (simp add: of_nat_diff)

lemma decode_literals:
  assumes "lits \<noteq> []" "length lits \<le> 32" "length out + length lits \<le> dlen"
  shows "lzf_decode dlen ((of_nat (length lits) - 1) # lits @ rest) out = dec_from dlen rest (out @ lits)"
proof -
  have "unat (of_nat (length lits) - 1 :: u8) = length lits - 1" "length lits - 1 < 32" "length lits - 1 + 1 = length lits"
    using assms(1,2) run_header [of "length lits"] by (simp, cases lits, auto)
  then show ?thesis using assms(3) by (simp add: lzf_decode.simps(2) dec_from_def Let_def)
qed

lemma control_byte:
  assumes "off < 8192" "n \<le> 7"
  shows "unat (of_nat (off div 256) + of_nat (n * 32) :: u8) = off div 256 + n * 32"
proof -
  have "off div 256 < 32" using assms(1) by (simp add: less_mult_imp_div_less)
  then show ?thesis using assms(2) unat_small [of "off div 256 + n * 32"] by simp
qed

text \<open>A reference by its bytes: a short one, and one with a byte for the length.\<close>

lemma decode_ref_bytes:
  assumes "hi < 32" "int (length out) - int (hi * 256) - 1 - int (unat b) = int ref" "length out + len + 2 \<le> dlen"
  shows "1 \<le> len \<Longrightarrow> len < 7 \<Longrightarrow> unat c = hi + len * 32 \<Longrightarrow>
      lzf_decode dlen (c # b # rest) out = dec_from dlen rest (lzf_copy ref (len + 2) out)"
    and "unat c = hi + 7 * 32 \<Longrightarrow> len = 7 + unat e \<Longrightarrow>
      lzf_decode dlen (c # e # b # rest) out = dec_from dlen rest (lzf_copy ref (len + 2) out)"
proof -
  have ref: "nat (int (length out) - int (hi * 256) - 1 - int (unat b)) = ref" "\<not> int (length out) - int (hi * 256) - 1 - int (unat b) < 0"
    using assms(2) by simp_all
  show "lzf_decode dlen (c # b # rest) out = dec_from dlen rest (lzf_copy ref (len + 2) out)" if "1 \<le> len" "len < 7" "unat c = hi + len * 32"
  proof -
    have "(hi + len * 32) div 32 = len" "(hi + len * 32) mod 32 = hi" "\<not> hi + len * 32 < 32" using assms(1) that by simp_all
    then have "lzf_decode_ref dlen (unat c) (b # rest) out = Inr (rest, lzf_copy ref (len + 2) out)"
      unfolding lzf_decode_ref_def Let_def list.case that(3) using ref assms(3) that(2) by (simp del: lzf_copy.simps)
    then show ?thesis using that assms(1) by (simp add: lzf_decode.simps(2) dec_from_def Let_def del: lzf_copy.simps)
  qed
  show "lzf_decode dlen (c # e # b # rest) out = dec_from dlen rest (lzf_copy ref (len + 2) out)" if "unat c = hi + 7 * 32" "len = 7 + unat e"
  proof -
    have "(hi + n * 32) div 32 = n" "(hi + n * 32) mod 32 = hi" for n using assms(1) by simp_all
    from this [of 7] have "(hi + 7 * 32) div 32 = 7" "(hi + 7 * 32) mod 32 = hi" "\<not> hi + 7 * 32 < 32" by linarith+
    then have "lzf_decode_ref dlen (unat c) (e # b # rest) out = Inr (rest, lzf_copy ref (len + 2) out)"
      unfolding lzf_decode_ref_def Let_def list.case that(1) using ref assms(3) that(2) by (simp del: lzf_copy.simps)
    then show ?thesis using that assms(1) by (simp add: lzf_decode.simps(2) dec_from_def Let_def del: lzf_copy.simps)
  qed
qed

lemma decode_backref:
  assumes "off < 8192" "1 \<le> len" "len \<le> 262" "off < length out" "length out + len + 2 \<le> dlen"
  shows "lzf_decode dlen (lzf_backref off len @ rest) out = dec_from dlen rest (lzf_copy (length out - off - 1) (len + 2) out)"
proof -
  have hi: "off div 256 < 32" using assms(1) by (simp add: less_mult_imp_div_less)
  have lo: "unat (of_nat off :: u8) = off mod 256" by (simp add: unat_of_nat)
  have ref: "int (length out) - int (off div 256 * 256) - 1 - int (unat (of_nat off :: u8)) = int (length out - off - 1)"
    unfolding lo using assms(4) div_mult_mod_eq [of off 256] by linarith
  note ref_bytes = decode_ref_bytes [OF hi ref assms(5)]
  show ?thesis
  proof (cases "len < 7")
    case True
    then show ?thesis
      using ref_bytes(1) [OF assms(2) True control_byte [OF assms(1)]] by (simp add: lzf_backref_def del: lzf_copy.simps)
  next
    case False
    have "len = 7 + unat (of_nat (len - 7) :: u8)" using assms(3) False unat_small [of "len - 7"] by simp
    then show ?thesis
      using ref_bytes(2) [OF control_byte [OF assms(1)], of "of_nat (len - 7)"] False unfolding lzf_backref_def by (simp del: lzf_copy.simps of_nat_diff)
  qed
qed

section \<open>The length of a match\<close>

definition agree :: "u8 list \<Rightarrow> nat \<Rightarrow> nat \<Rightarrow> nat \<Rightarrow> bool" where
  "agree d ref ip n \<longleftrightarrow> (\<forall>i<n. d ! (ref + i) = d ! (ip + i))"

lemma agree_0 [simp]: "agree d ref ip 0"
  unfolding agree_def by blast

lemma agree_Suc: "agree d ref ip (Suc n) \<longleftrightarrow> agree d ref ip n \<and> d ! (ref + n) = d ! (ip + n)"
  unfolding agree_def less_Suc_eq by blast

lemma agree_shift: "agree d ref ip (Suc n) \<Longrightarrow> d ! ref = d ! ip \<and> agree d (Suc ref) (Suc ip) n"
  by (induction n) (auto simp: agree_Suc)

lemma lzf_copy_take:
  "ref < k \<Longrightarrow> k + n \<le> length d \<Longrightarrow> agree d ref k n \<Longrightarrow> lzf_copy ref n (take k d) = take (k + n) d"
proof (induction n arbitrary: ref k)
  case (Suc n)
  have "take k d @ [take k d ! ref] = take (Suc k) d"
    using Suc.prems(1,2) agree_shift [OF Suc.prems(3)] by (simp add: take_Suc_conv_app_nth)
  then show ?case using Suc.IH [of "Suc ref" "Suc k"] Suc.prems(1,2) agree_shift [OF Suc.prems(3)] by simp
qed simp

lemma lzf_unrolled_spec:
  "agree d ref ip (Suc len) \<Longrightarrow> ip + len + k < length d \<Longrightarrow> ref < ip \<Longrightarrow>
   \<exists>len' stopped. lzf_unrolled d ref ip k len = Some (len', stopped) \<and> len' \<le> len + k \<and>
     (if stopped then agree d ref ip len' else len' = len + k \<and> agree d ref ip (Suc len'))"
proof (induction k arbitrary: len)
  case (Suc k)
  show ?case
  proof (cases "d ! (ref + Suc len) = d ! (ip + Suc len)")
    case True
    then have "agree d ref ip (Suc (Suc len))" using Suc.prems(1) by (simp add: agree_Suc)
    then have IH: "\<exists>len' stopped. lzf_unrolled d ref ip k (Suc len) = Some (len', stopped) \<and> len' \<le> Suc len + k \<and>
        (if stopped then agree d ref ip len' else len' = Suc len + k \<and> agree d ref ip (Suc len'))"
      using Suc.prems by (intro Suc.IH) simp_all
    have step: "lzf_unrolled d ref ip (Suc k) len = lzf_unrolled d ref ip k (Suc len)" using True Suc.prems(2,3) by (simp add: rd_def)
    show ?thesis using IH unfolding step add_Suc_shift .
  next
    case False
    then have "lzf_unrolled d ref ip (Suc k) len = Some (len + 1, True)" using Suc.prems(2,3) by (simp add: rd_def)
    then show ?thesis using Suc.prems(1) by (intro exI [of _ "len + 1"] exI [of _ True]) simp
  qed
qed auto

lemma lzf_extend_spec:
  "agree d ref ip (Suc len) \<Longrightarrow> ip + maxlen \<le> length d \<Longrightarrow> ref < ip \<Longrightarrow>
   \<exists>len'. lzf_extend d ref ip maxlen len = Some len' \<and> len' \<le> max (Suc len) maxlen \<and> agree d ref ip len'"
proof (induction d ref ip maxlen len rule: lzf_extend.induct)
  case (1 d ref ip maxlen len)
  show ?case
  proof (cases "len + 1 < maxlen \<and> d ! (ref + Suc len) = d ! (ip + Suc len)")
    case True
    then have "agree d ref ip (Suc (Suc len))" using 1(2) by (simp add: agree_Suc)
    then have "\<exists>len'. lzf_extend d ref ip maxlen (len + 1) = Some len' \<and> len' \<le> max (Suc (len + 1)) maxlen \<and> agree d ref ip len'"
      using 1 True by (auto simp: rd_def)
    then show ?thesis using True 1(3,4) by (subst lzf_extend.simps) (auto simp: rd_def)
  next
    case False
    then show ?thesis using 1(2-4) by (subst lzf_extend.simps) (auto simp: rd_def)
  qed
qed

lemma lzf_match_len_spec:
  assumes "agree d ref ip 3" "ip + 4 < length d" "ref < ip"
  shows "\<exists>octets. lzf_match_len d ref ip = Some octets \<and> 3 \<le> octets \<and> octets \<le> 264 \<and> ip + octets \<le> length d \<and> agree d ref ip octets"
proof -
  define maxlen where "maxlen = min (length d - ip - 2) MAX_REF"
  have max: "ip + maxlen + 2 \<le> length d" "maxlen \<le> 264" "3 \<le> maxlen" using assms(2) by (auto simp: maxlen_def MAX_REF_def)
  have three: "agree d ref ip (Suc 2)" using assms(1) by (simp add: numeral_3_eq_3 numeral_2_eq_2)
  have ex: "\<exists>octets. lzf_extend d ref ip maxlen len = Some octets \<and> octets \<le> 264 \<and> ip + octets \<le> length d \<and> agree d ref ip octets"
    if "agree d ref ip (Suc len)" "len = 2 \<or> len = 18 \<and> 16 < maxlen" for len
    using lzf_extend_spec [OF that(1), of maxlen] that(2) max assms(3) by (fastforce simp: max_def split: if_splits)
  have len: "lzf_match_len d ref ip = do { (len, stopped) \<leftarrow> (if maxlen > 16 then lzf_unrolled d ref ip 16 2 else Some (2, False));
      if stopped then Some len else lzf_extend d ref ip maxlen len }"
    by (simp only: lzf_match_len_def Let_def maxlen_def)
  have "\<exists>octets. lzf_match_len d ref ip = Some octets \<and> octets \<le> 264 \<and> ip + octets \<le> length d \<and> agree d ref ip octets"
  proof (cases "16 < maxlen")
    case True
    then have "ip + 2 + 16 < length d" using max by linarith
    then obtain len' stopped where u: "lzf_unrolled d ref ip 16 2 = Some (len', stopped)" "len' \<le> 2 + 16"
        "if stopped then agree d ref ip len' else len' = 2 + 16 \<and> agree d ref ip (Suc len')"
      using lzf_unrolled_spec [OF three _ assms(3), of 16] by blast
    then show ?thesis unfolding len using ex [of len'] True max by (cases stopped) auto
  next
    case False
    then show ?thesis unfolding len using ex [OF three] by simp
  qed
  then show ?thesis using lzf_match_len_ge by blast
qed

lemma lzf_match3_spec:
  "ref < ip \<Longrightarrow> ip + 2 < length d \<Longrightarrow> lzf_match3 d ref ip = Some (agree d ref ip 3)"
  by (auto simp: lzf_match3_def rd_def numeral_3_eq_3 numeral_2_eq_2 agree_Suc)

section \<open>The invariant of the compressor\<close>

text \<open>The bytes \<open>closed\<close> decode to the first \<open>k\<close> bytes of the input.\<close>

definition decodes :: "nat \<Rightarrow> u8 list \<Rightarrow> u8 list \<Rightarrow> nat \<Rightarrow> bool" where
  "decodes dlen d closed k \<longleftrightarrow> (\<forall>rest. dec_from dlen (closed @ rest) [] = dec_from dlen rest (take k d))"

definition lzf_inv :: "nat \<Rightarrow> nat \<Rightarrow> u8 list \<Rightarrow> lzf_state \<Rightarrow> bool" where
  "lzf_inv dlen out_len d st \<longleftrightarrow>
     (\<exists>closed h lits. l_out st = closed @ h # lits \<and> length lits = l_lit st \<and> l_lit st < 32 \<and> l_lit st \<le> l_ip st \<and> l_ip st \<le> length d
        \<and> lits = drop (l_ip st - l_lit st) (take (l_ip st) d) \<and> decodes dlen d closed (l_ip st - l_lit st))
     \<and> length (l_out st) \<le> out_len + 1 \<and> length (l_out st) \<le> 2 * l_ip st + 1 \<and> (\<forall>i. \<bar>l_htab st i\<bar> < 2 ^ 62)"

lemma decodes_literals:
  assumes "decodes dlen d closed k" "k + length lits \<le> length d" "lits = drop k (take (k + length lits) d)" "lits \<noteq> []" "length lits \<le> 32" "length d \<le> dlen"
  shows "decodes dlen d (closed @ (of_nat (length lits) - 1) # lits) (k + length lits)"
proof -
  have out: "take k d @ lits = take (k + length lits) d"
    using assms(2,3) by (metis append_take_drop_id le_add1 min.absorb1 take_take)
  have "dec_from dlen ((of_nat (length lits) - 1) # lits @ rest) (take k d) = dec_from dlen rest (take (k + length lits) d)" for rest
    using decode_literals [OF assms(4,5), of "take k d" dlen rest] assms(2,6) out by (simp add: dec_from_def)
  then show ?thesis using assms(1) by (simp add: decodes_def)
qed

text \<open>Ending a run.\<close>

lemma close_run:
  assumes "lzf_inv dlen out_len d st" "out_len < cap" "length d \<le> dlen"
  shows "\<exists>st1. stop_run cap st = Some st1 \<and> decodes dlen d (l_out (undo_run st1)) (l_ip st) \<and> undo_run st1 = st\<lparr>l_out := l_out (undo_run st1)\<rparr>
    \<and> length (l_out (undo_run st1)) \<le> length (l_out st)"
proof -
  obtain closed h lits where inv: "l_out st = closed @ h # lits" "length lits = l_lit st" "l_lit st < 32" "l_lit st \<le> l_ip st" "l_ip st \<le> length d"
      "lits = drop (l_ip st - l_lit st) (take (l_ip st) d)" "decodes dlen d closed (l_ip st - l_lit st)" "length (l_out st) \<le> out_len + 1"
    using assms(1) unfolding lzf_inv_def by blast
  let ?b = "of_nat (l_lit st) - 1 :: u8" and ?st = "st\<lparr>l_out := closed @ (of_nat (l_lit st) - 1) # lits\<rparr>"
  have stop: "stop_run cap st = Some ?st"
    using inv(1,2,8) assms(2) by (simp add: stop_run_def Let_def list_update_append)
  show ?thesis
  proof (cases "lits = []")
    case True
    then have zero: "l_lit st = 0" using inv(2) by simp
    then have "undo_run ?st = st\<lparr>l_out := closed\<rparr>" using True by (simp add: undo_run_def)
    then show ?thesis using stop inv zero by simp
  next
    case False
    then have "undo_run ?st = ?st" using inv(2) by (auto simp: undo_run_def)
    moreover have "decodes dlen d (closed @ ?b # lits) (l_ip st)"
      using decodes_literals [OF inv(7), of lits] inv(2-6) False assms(3) by simp
    ultimately show ?thesis using stop inv(1) by simp
  qed
qed

lemma lzf_inv_start:
  assumes "decodes dlen d (l_out st) (l_ip st)" "l_ip st \<le> length d" "length (l_out st) \<le> out_len" "length (l_out st) \<le> 2 * l_ip st" "\<forall>i. \<bar>l_htab st i\<bar> < 2 ^ 62"
  shows "lzf_inv dlen out_len d (start_run junk st)"
  using assms by (auto simp: lzf_inv_def start_run_def)

lemma lzf_inv_fields:
  assumes "lzf_inv dlen out_len d st" "l_ip st' = l_ip st" "l_out st' = l_out st" "l_lit st' = l_lit st" "\<forall>i. \<bar>l_htab st' i\<bar> < 2 ^ 62"
  shows "lzf_inv dlen out_len d st'"
  using assms by (simp add: lzf_inv_def)

text \<open>A literal byte.\<close>

lemma lzf_literal_spec:
  assumes "lzf_inv dlen out_len d st" "out_len < cap" "length d \<le> dlen" "l_ip st < length d" "length (l_out st) < out_len"
  shows "\<exists>st'. lzf_literal junk cap d st = Some st' \<and> lzf_inv dlen out_len d st' \<and> l_ip st' = l_ip st + 1
    \<and> length (l_out st') = length (l_out st) + (if l_lit st + 1 = 32 then 2 else 1) \<and> l_lit st' = (if l_lit st + 1 = 32 then 0 else l_lit st + 1)"
proof -
  obtain closed h lits where inv: "l_out st = closed @ h # lits" "length lits = l_lit st" "l_lit st < 32" "l_lit st \<le> l_ip st" "l_ip st \<le> length d"
      "lits = drop (l_ip st - l_lit st) (take (l_ip st) d)" "decodes dlen d closed (l_ip st - l_lit st)" "\<forall>i. \<bar>l_htab st i\<bar> < 2 ^ 62" "length (l_out st) \<le> 2 * l_ip st + 1"
    using assms(1) unfolding lzf_inv_def by blast
  let ?lits = "lits @ [d ! l_ip st]"
  let ?st = "st\<lparr>l_out := closed @ h # ?lits, l_lit := l_lit st + 1, l_ip := l_ip st + 1\<rparr>"
  have lits: "?lits = drop (l_ip st - l_lit st) (take (l_ip st + 1) d)"
    using inv(4,6) assms(4) by (simp add: take_Suc_conv_app_nth)
  have lit: "lzf_literal junk cap d st = (if l_lit st + 1 = 32 then do { st3 \<leftarrow> stop_run cap ?st; Some (start_run junk st3) } else Some ?st)"
    using assms(2,4,5) inv(1) by (simp add: lzf_literal_def lzf_emit_def rd_def Let_def MAX_LIT_def)
  show ?thesis
  proof (cases "l_lit st + 1 = 32")
    case False
    have "lzf_inv dlen out_len d ?st"
      unfolding lzf_inv_def using inv lits False assms(4,5)
      by (auto intro!: exI [of _ closed] exI [of _ h] exI [of _ ?lits])
    then show ?thesis using lit False inv(1) by simp
  next
    case True
    let ?st3 = "?st\<lparr>l_out := closed @ (of_nat (length ?lits) - 1) # ?lits\<rparr>"
    have stop: "stop_run cap ?st = Some ?st3"
      using inv(1,2) assms(2,5) True by (simp add: stop_run_def Let_def list_update_append)
    have "decodes dlen d (l_out ?st3) (l_ip ?st3)"
      using decodes_literals [OF inv(7), of ?lits] lits inv(2,4) True assms(3,4) by simp
    then have "lzf_inv dlen out_len d (start_run junk ?st3)"
      using inv assms(4,5) by (intro lzf_inv_start) auto
    then show ?thesis using lit True stop inv(1) by (simp add: start_run_def)
  qed
qed

text \<open>A match: the run ends, the reference is written, and a new run starts.\<close>

definition round_ok :: "nat \<Rightarrow> nat \<Rightarrow> u8 list \<Rightarrow> lzf_round \<Rightarrow> bool" where
  "round_ok dlen out_len d r \<longleftrightarrow>
     (case r of LzfZero \<Rightarrow> out_len < 2 * length d + 8
      | LzfBreak st \<Rightarrow> lzf_inv dlen out_len d st \<and> length d \<le> l_ip st + 2
      | LzfNext st \<Rightarrow> lzf_inv dlen out_len d st)"

lemma length_backref: "length (lzf_backref off len) \<le> 3"
  by (simp add: lzf_backref_def)

lemma decodes_backref:
  assumes "decodes dlen d closed ip" "off < 8192" "off < ip" "agree d (ip - off - 1) ip octets" "3 \<le> octets" "octets \<le> 264" "ip + octets \<le> length d" "length d \<le> dlen"
  shows "decodes dlen d (closed @ lzf_backref off (octets - 2)) (ip + octets)"
proof -
  have copy: "lzf_copy (ip - off - 1) octets (take ip d) = take (ip + octets) d"
    using assms(3,4,7) by (intro lzf_copy_take) auto
  have "dec_from dlen (lzf_backref off (octets - 2) @ rest) (take ip d) = dec_from dlen rest (take (ip + octets) d)" for rest
  proof -
    have "lzf_decode dlen (lzf_backref off (octets - 2) @ rest) (take ip d)
        = dec_from dlen rest (lzf_copy (length (take ip d) - off - 1) (octets - 2 + 2) (take ip d))"
      using assms by (intro decode_backref) auto
    moreover have "octets - 2 + 2 = octets" "length (take ip d) = ip" using assms(5,7) by auto
    ultimately have "lzf_decode dlen (lzf_backref off (octets - 2) @ rest) (take ip d) = dec_from dlen rest (take (ip + octets) d)"
      by (simp only: copy)
    moreover have "lzf_backref off (octets - 2) @ rest \<noteq> []" by (simp add: lzf_backref_def)
    ultimately show ?thesis by (simp only: dec_from_def if_False)
  qed
  then show ?thesis using assms(1) by (simp add: decodes_def)
qed

lemma lzf_match_spec:
  assumes "lzf_inv dlen out_len d st" "out_len < cap" "length d \<le> dlen" "length d < 2 ^ 32"
    "off < 8192" "off < l_ip st" "ref = l_ip st - off - 1" "agree d ref (l_ip st) 3" "l_ip st + 4 < length d"
  shows "\<exists>r. lzf_match junk cap out_len d ref off st = Some r \<and> round_ok dlen out_len d r"
proof -
  obtain st1 where st1: "stop_run cap st = Some st1" "decodes dlen d (l_out (undo_run st1)) (l_ip st)" "undo_run st1 = st\<lparr>l_out := l_out (undo_run st1)\<rparr>"
      "length (l_out (undo_run st1)) \<le> length (l_out st)"
    using close_run [OF assms(1-3)] by blast
  define out where "out = l_out (undo_run st1)"
  have undo: "undo_run st1 = st\<lparr>l_out := out\<rparr>" using st1(3) by (simp add: out_def)
  obtain octets where oct: "lzf_match_len d ref (l_ip st) = Some octets" "3 \<le> octets" "octets \<le> 264" "l_ip st + octets \<le> length d" "agree d ref (l_ip st) octets"
    using lzf_match_len_spec [OF assms(8,9)] assms(6,7) by auto
  show ?thesis
  proof (cases "length out + 3 + 1 \<ge> out_len")
    case True
    moreover have "length out \<le> 2 * l_ip st + 1" using st1(4) assms(1) by (simp add: out_def lzf_inv_def)
    then have "\<not> 2 * length d + 8 \<le> length out + 4" using assms(9) by linarith
    ultimately show ?thesis using st1(1) undo by (auto simp: lzf_match_def round_ok_def Let_def)
  next
    case False
    let ?st3 = "st\<lparr>l_out := out @ lzf_backref off (octets - 2), l_ip := l_ip st + octets\<rparr>"
    have emit: "lzf_emit cap (lzf_backref off (octets - 2)) (st\<lparr>l_out := out\<rparr>) = Some (st\<lparr>l_out := out @ lzf_backref off (octets - 2)\<rparr>)"
      using False assms(2) length_backref [of off "octets - 2"] by (simp add: lzf_emit_def)
    have "decodes dlen d (l_out ?st3) (l_ip ?st3)"
      using decodes_backref [of dlen d out "l_ip st" off octets] st1(2) assms(3,5-7) oct by (simp add: out_def)
    moreover have tab: "\<forall>i. \<bar>l_htab st i\<bar> < 2 ^ 62" using assms(1) by (simp add: lzf_inv_def)
    moreover have "length (l_out ?st3) \<le> out_len" using False length_backref [of off "octets - 2"] by simp
    moreover have "length out \<le> 2 * l_ip st + 1" using st1(4) assms(1) by (simp add: out_def lzf_inv_def)
    then have "length (l_out ?st3) \<le> 2 * l_ip ?st3" using length_backref [of off "octets - 2"] oct(2) by simp
    ultimately have inv: "lzf_inv dlen out_len d (start_run junk ?st3)"
      using oct(4) by (intro lzf_inv_start) auto
    have small: "\<forall>i. \<bar>((l_htab st)(a := int (l_ip st + octets - 2), b := int (l_ip st + octets - 1))) i\<bar> < 2 ^ 62" for a b
      using tab oct(4) assms(4) by auto
    show ?thesis
    proof (cases "length d \<le> l_ip st + octets + 2")
      case True
      then show ?thesis
        using st1(1) undo False oct(1) emit tab
        by (auto simp: lzf_match_def round_ok_def Let_def start_run_def intro!: lzf_inv_fields [OF inv])
    next
      case inside: False
      then show ?thesis
        using st1(1) undo False oct(1) emit small
        by (auto simp: lzf_match_def round_ok_def Let_def start_run_def rd_def intro!: lzf_inv_fields [OF inv])
    qed
  qed
qed

text \<open>Whatever is in the hash table, a reference that passes the tests points to the input before the current position.\<close>

lemma offset_in_range:
  assumes "(int ip - ref - 1) mod 2 ^ 64 < MAX_OFF" "ref > 0" "\<bar>ref\<bar> < 2 ^ 62" "ip < 2 ^ 32"
  shows "\<exists>off. (int ip - ref - 1) mod 2 ^ 64 = int off \<and> off < 8192 \<and> off < ip \<and> nat ref = ip - off - 1"
proof (cases "ref < int ip")
  case True
  then have "(int ip - ref - 1) mod 2 ^ 64 = int ip - ref - 1" using assms(2,4) by (intro mod_pos_pos_trivial) auto
  then show ?thesis using assms(1,2) True by (intro exI [of _ "nat (int ip - ref - 1)"]) (auto simp: MAX_OFF_def)
next
  case False
  have "(int ip - ref - 1) mod 2 ^ 64 = int ip - ref - 1 + 2 ^ 64"
    using False assms(3) by (subst mod_add_self2 [symmetric], intro mod_pos_pos_trivial) auto
  then show ?thesis using assms(1,3) by (simp add: MAX_OFF_def)
qed

lemma lzf_round_spec:
  assumes "lzf_inv dlen out_len d st" "out_len < cap" "length d \<le> dlen" "length d < 2 ^ 32" "l_ip st + 2 < length d"
  shows "\<exists>r. lzf_round junk cap out_len d st = Some r \<and> round_ok dlen out_len d r"
proof -
  let ?hval = "lzf_NEXT (l_hval st) (d ! (l_ip st + 2))"
  define ref where "ref = l_htab st (lzf_IDX ?hval)"
  let ?off = "(int (l_ip st) - ref - 1) mod 2 ^ 64"
  let ?cond = "?off < MAX_OFF \<and> l_ip st + 4 < length d \<and> ref > 0"
  let ?st1 = "st\<lparr>l_hval := ?hval, l_htab := (l_htab st)(lzf_IDX ?hval := int (l_ip st))\<rparr>"
  have tab: "\<forall>i. \<bar>l_htab st i\<bar> < 2 ^ 62" using assms(1) by (simp add: lzf_inv_def)
  have inv: "lzf_inv dlen out_len d ?st1" using tab assms(4,5) by (intro lzf_inv_fields [OF assms(1)]) auto
  have ref62: "\<bar>ref\<bar> < 2 ^ 62" and ip32: "l_ip st < 2 ^ 32" using tab assms(4,5) by (simp_all add: ref_def)
  have p2: "rd d (l_ip st + 2) = Some (d ! (l_ip st + 2))" using assms(5) by (simp add: rd_def)
  have round: "lzf_round junk cap out_len d st = do {
      found \<leftarrow> (if ?cond then lzf_match3 d (nat ref) (l_ip st) else Some False);
      if found then lzf_match junk cap out_len d (nat ref) (nat ?off) ?st1
      else if length (l_out ?st1) \<ge> out_len then Some LzfZero else do { st2 \<leftarrow> lzf_literal junk cap d ?st1; Some (LzfNext st2) } }"
    by (simp only: lzf_round_def p2 bind.bind_lunit Let_def ref_def)
  have literal: "\<exists>r. (if length (l_out ?st1) \<ge> out_len then Some LzfZero else do { st2 \<leftarrow> lzf_literal junk cap d ?st1; Some (LzfNext st2) }) = Some r
      \<and> round_ok dlen out_len d r"
    using lzf_literal_spec [OF inv assms(2,3), of junk] assms(1,5) by (auto simp: round_ok_def lzf_inv_def)
  show ?thesis
  proof (cases ?cond)
    case True
    then obtain off where off: "?off = int off" "off < 8192" "off < l_ip st" "nat ref = l_ip st - off - 1"
      using offset_in_range [OF _ _ ref62, of "l_ip st"] ip32 by blast
    have found: "lzf_match3 d (nat ref) (l_ip st) = Some (agree d (nat ref) (l_ip st) 3)" using off(3,4) assms(5) by (intro lzf_match3_spec) auto
    show ?thesis
    proof (cases "agree d (nat ref) (l_ip st) 3")
      case True
      then have "\<exists>r. lzf_match junk cap out_len d (nat ref) off ?st1 = Some r \<and> round_ok dlen out_len d r"
        using off \<open>?cond\<close> by (intro lzf_match_spec [OF inv assms(2-4)]) auto
      then show ?thesis unfolding round using \<open>?cond\<close> found True off(1) by simp
    next
      case False
      then show ?thesis unfolding round using \<open>?cond\<close> found literal by simp
    qed
  next
    case False
    then show ?thesis unfolding round if_not_P [OF False] using literal by simp
  qed
qed

lemma lzf_loop_spec:
  assumes "lzf_inv dlen out_len d st" "out_len < cap" "length d \<le> dlen" "length d < 2 ^ 32"
  shows "\<exists>r. lzf_loop junk cap out_len d st = Some r \<and> (\<forall>st'. r = Some st' \<longrightarrow> lzf_inv dlen out_len d st' \<and> length d \<le> l_ip st' + 2)
    \<and> (r = None \<longrightarrow> out_len < 2 * length d + 8)"
  using assms
proof (induction junk cap out_len d st rule: lzf_loop.induct)
  case (1 junk cap out_len d st)
  show ?case
  proof (cases "l_ip st + 2 < length d")
    case True
    then obtain r where r: "lzf_round junk cap out_len d st = Some r" "round_ok dlen out_len d r" using lzf_round_spec [OF 1(2-5)] by blast
    show ?thesis
      using 1(1) [OF True r(1)] 1(3-5) True r by (subst lzf_loop.simps) (cases r, auto simp: round_ok_def)
  next
    case False
    then show ?thesis using 1(2) by (subst lzf_loop.simps) auto
  qed
qed

text \<open>The last two bytes at most.\<close>

lemma lzf_tail_spec:
  assumes "lzf_inv dlen out_len d st" "out_len < cap" "length d \<le> dlen" "length d - l_ip st \<le> 2" "length (l_out st) + 3 \<le> out_len"
  shows "\<exists>st'. lzf_tail junk cap d (length d - l_ip st) st = Some st' \<and> lzf_inv dlen out_len d st' \<and> l_ip st' = length d \<and> length (l_out st') \<le> out_len"
proof -
  have le: "l_ip st \<le> length d" using assms(1) unfolding lzf_inv_def by blast
  have one: "\<exists>st'. lzf_literal junk cap d t = Some st' \<and> lzf_inv dlen out_len d st' \<and> l_ip st' = l_ip t + 1
      \<and> length (l_out st') \<le> length (l_out t) + 2 \<and> (length (l_out st') = length (l_out t) + 1 \<or> l_lit st' = 0)"
    if "lzf_inv dlen out_len d t" "l_ip t < length d" "length (l_out t) < out_len" for t
    using lzf_literal_spec [OF that(1) assms(2,3) that(2,3), of junk] by (auto split: if_splits)
  have short: "length (l_out t') = length (l_out t) + 1" if "lzf_literal junk cap d t = Some t'" "l_lit t = 0" "lzf_inv dlen out_len d t" "l_ip t < length d" "length (l_out t) < out_len" for t t'
    using lzf_literal_spec [OF that(3) assms(2,3) that(4,5), of junk] that(1,2) by auto
  consider "length d - l_ip st = 0" | "length d - l_ip st = 1" | "length d - l_ip st = 2" using assms(4) by linarith
  then show ?thesis
  proof cases
    case 1
    then show ?thesis using assms(1,5) le by auto
  next
    case 2
    then show ?thesis using one [OF assms(1)] assms(5) by fastforce
  next
    case 3
    have pos: "l_ip st < length d" "length (l_out st) < out_len" "l_ip st + 1 < length d" using 3 assms(5) by linarith+
    obtain t where t: "lzf_literal junk cap d st = Some t" "lzf_inv dlen out_len d t" "l_ip t = l_ip st + 1" "length (l_out t) \<le> length (l_out st) + 2"
        "length (l_out t) = length (l_out st) + 1 \<or> l_lit t = 0"
      using one [OF assms(1) pos(1,2)] by blast
    obtain u where u: "lzf_literal junk cap d t = Some u" "lzf_inv dlen out_len d u" "l_ip u = l_ip t + 1" "length (l_out u) \<le> length (l_out t) + 2"
      using one [OF t(2)] t(3,4) pos(3) assms(5) by auto
    have "length (l_out u) \<le> out_len"
      using t(4,5) u(4) short [OF u(1) _ t(2)] t(3) pos(3) assms(5) by auto
    moreover have "l_ip u = length d" using t(3) u(3) 3 le by simp
    ultimately show ?thesis using 3 t(1) u by (simp add: numeral_2_eq_2)
  qed
qed

section \<open>Round trip\<close>

lemma lzf_compress_spec:
  assumes "2 \<le> length d" "length d < 2 ^ 32" "out_len < cap" "length d \<le> dlen" "\<forall>i. \<bar>htab i\<bar> < 2 ^ 62"
  shows "\<exists>r. lzf_compress junk htab cap out_len d = Some r \<and> length r \<le> out_len \<and> (r \<noteq> [] \<longrightarrow> lzf_decompress dlen r = Some (Inr d))
    \<and> (2 * length d + 8 \<le> out_len \<longrightarrow> r \<noteq> [])"
proof (cases "out_len = 0")
  case True
  then show ?thesis by (simp add: lzf_compress_def)
next
  case False
  let ?st = "\<lparr>l_ip = 0, l_out = [], l_lit = 0, l_hval = push_bit 8 (ucast (d ! 0)) OR ucast (d ! 1), l_htab = htab\<rparr>"
  have "d \<noteq> []" using assms(1) by auto
  then have first: "rd d 0 = Some (d ! 0)" "rd d 1 = Some (d ! 1)" using assms(1) by (simp_all add: rd_def)
  have "lzf_inv dlen out_len d (start_run junk ?st)" using assms(5) by (intro lzf_inv_start) (simp_all add: decodes_def)
  then obtain r where loop: "lzf_loop junk cap out_len d (start_run junk ?st) = Some r"
      "\<forall>st'. r = Some st' \<longrightarrow> lzf_inv dlen out_len d st' \<and> length d \<le> l_ip st' + 2" "r = None \<longrightarrow> out_len < 2 * length d + 8"
    using lzf_loop_spec [OF _ assms(3,4,2)] by blast
  have compress: "lzf_compress junk htab cap out_len d = (case r of None \<Rightarrow> Some [] | Some st \<Rightarrow>
      if length (l_out st) + 3 > out_len then Some []
      else do { st1 \<leftarrow> lzf_tail junk cap d (length d - l_ip st) st; st2 \<leftarrow> stop_run cap st1; Some (l_out (undo_run st2)) })"
    unfolding lzf_compress_def using \<open>d \<noteq> []\<close> False first loop(1) by simp
  show ?thesis
  proof (cases "\<exists>st. r = Some st \<and> length (l_out st) + 3 \<le> out_len")
    case False
    have "out_len < 2 * length d + 8"
    proof (cases r)
      case (Some st)
      then have "length (l_out st) \<le> 2 * l_ip st + 1" "l_ip st \<le> length d" "out_len < length (l_out st) + 3" using loop(2) False by (auto simp: lzf_inv_def)
      then show ?thesis by linarith
    qed (use loop(3) in blast)
    then show ?thesis using compress False by (auto split: option.splits)
  next
    case True
    then obtain st where st: "r = Some st" "length (l_out st) + 3 \<le> out_len" by blast
    then have inv: "lzf_inv dlen out_len d st" "length d - l_ip st \<le> 2" using loop(2) by auto
    obtain st1 where st1: "lzf_tail junk cap d (length d - l_ip st) st = Some st1" "lzf_inv dlen out_len d st1" "l_ip st1 = length d"
        "length (l_out st1) \<le> out_len"
      using lzf_tail_spec [OF inv(1) assms(3,4) inv(2) st(2)] by blast
    obtain st2 where st2: "stop_run cap st1 = Some st2" "decodes dlen d (l_out (undo_run st2)) (length d)" "length (l_out (undo_run st2)) \<le> length (l_out st1)"
      using close_run [OF st1(2) assms(3,4)] st1(3) by auto
    have "l_out (undo_run st2) \<noteq> [] \<and> lzf_decompress dlen (l_out (undo_run st2)) = Some (Inr d)"
      using \<open>d \<noteq> []\<close> st2(2) [unfolded decodes_def, rule_format, of "[]"] by (auto simp: lzf_decompress_def dec_from_def split: if_splits)
    then show ?thesis using compress st st1(1,4) st2(1,3) by auto
  qed
qed

text \<open>C4: Compression needs one byte more than the length of the output that it is given, whatever the uninitialised
  hash table holds; within it every access is in bounds, the call returns, and what it has written, if it has
  not given up, is no longer than allowed and is decompressed to the input by every call with room for it. With room
  for twice the input it does not give up.\<close>

theorem lzf_roundtrip:
  assumes "2 \<le> length d" "length d < 2 ^ 32" "out_len < cap" "length d \<le> dlen" "\<forall>i. \<bar>htab i\<bar> < 2 ^ 62"
  shows "\<exists>r. lzf_compress junk htab cap out_len d = Some r \<and> length r \<le> out_len \<and> (r \<noteq> [] \<longrightarrow> lzf_decompress dlen r = Some (Inr d))
    \<and> (2 * length d + 8 \<le> out_len \<longrightarrow> r \<noteq> [])"
  using assms by (rule lzf_compress_spec)

theorem lzf_roundtrip_witness:
  "\<exists>r. lzf_compress (\<lambda>_. 7) (\<lambda>_. - 1) 61 60 (replicate 24 9) = Some r \<and> r \<noteq> [] \<and> lzf_decompress 24 r = Some (Inr (replicate 24 9))"
  using lzf_roundtrip [of "replicate 24 9" 60 61 24 "\<lambda>_. - 1" "\<lambda>_. 7"] by auto

text \<open>Decompression of arbitrary bytes returns and never produces more than it has room for.\<close>

lemma length_lzf_copy: "length (lzf_copy ref n out) = length out + n"
  by (induction n arbitrary: ref out) auto

lemma lzf_decode_ref_bounds: "lzf_decode_ref out_len ctrl ip out = Inr (ip', out') \<Longrightarrow> length out' \<le> out_len"
  by (auto simp: lzf_decode_ref_def Let_def length_lzf_copy simp del: lzf_copy.simps split: list.splits if_splits)

lemma lzf_decode_bounds:
  "inp \<noteq> [] \<Longrightarrow> length out \<le> out_len \<Longrightarrow> \<exists>r. lzf_decode out_len inp out = Some r \<and> (\<forall>out'. r = Inr out' \<longrightarrow> length out' \<le> out_len)"
proof (induction out_len inp out rule: lzf_decode.induct)
  case (2 out_len c ip out)
  let ?step = "if unat c < 32 then if length out + (unat c + 1) > out_len then Inl E2BIG
      else if unat c + 1 > length ip then Inl EINVAL else Inr (drop (unat c + 1) ip, out @ take (unat c + 1) ip)
    else lzf_decode_ref out_len (unat c) ip out"
  show ?case
  proof (cases ?step)
    case (Inl e)
    then show ?thesis by (simp add: lzf_decode.simps(2) Let_def del: not_less)
  next
    case (Inr p)
    obtain ip' out' where p: "p = (ip', out')" by (cases p)
    have "length out' \<le> out_len" using Inr p lzf_decode_ref_bounds by (auto split: if_splits)
    moreover have "lzf_decode out_len (c # ip) out = (if ip' = [] then Some (Inr out') else lzf_decode out_len ip' out')"
      unfolding lzf_decode.simps(2) Let_def Inr p by simp
    ultimately show ?thesis using 2(1) [OF refl Inr [unfolded p] refl] by auto
  qed
qed simp

text \<open>
  The additional byte is needed: when a run of 32 literals ends with the last byte of the output, the output pointer stands
  behind the end, and a match that follows at once writes the byte before it ahead of the test for the space.
\<close>

lemma match_writes_behind_end:
  assumes "lzf_literal junk out_len d st = Some st'" "l_lit st = 31" "length (l_out st) + 1 = out_len"
  shows "lzf_match junk out_len out_len d ref off st' = None"
proof -
  have "l_lit st' = 0" "length (l_out st') = out_len + 1"
    using assms by (auto simp: lzf_literal_def lzf_emit_def stop_run_def start_run_def MAX_LIT_def Let_def split: bind_splits if_splits)
  then show ?thesis by (simp add: lzf_match_def stop_run_def)
qed

end
