(* ===== verification/Object.thy ===== *)
theory Object
  imports Util Sds
begin

text \<open>
  String objects of \<^verbatim>\<open>object.c\<close>. An object is its encoding with its content: the bytes of an sds
  string that is allocated separately (\<open>Raw\<close>) or with the object (\<open>Emb\<close>), or an integer that
  stands for its decimal notation (\<open>IntEnc\<close>). The operations on sds strings are used through the
  bytes that they are proved to produce, \<^verbatim>\<open>ll2string\<close> through \<open>ll_repr\<close>. Reference counts and the
  LRU clock do not change what an object stands for and are left out, and with them the sharing of
  small integers.
\<close>

datatype sobj = Raw "u8 list" | Emb "u8 list" | IntEnc int

section \<open>Creation and encoding\<close>

definition createRawStringObject :: "u8 list \<Rightarrow> sobj" where
  "createRawStringObject s = Raw s"

definition createEmbeddedStringObject :: "u8 list \<Rightarrow> sobj" where
  "createEmbeddedStringObject s = Emb s"

definition REDIS_ENCODING_EMBSTR_SIZE_LIMIT :: nat where
  "REDIS_ENCODING_EMBSTR_SIZE_LIMIT = 39"

definition createStringObject :: "u8 list \<Rightarrow> sobj" where
  "createStringObject s =
     (if length s \<le> REDIS_ENCODING_EMBSTR_SIZE_LIMIT then createEmbeddedStringObject s else createRawStringObject s)"

text \<open>With 64 bit \<^verbatim>\<open>long\<close> every \<^verbatim>\<open>long long\<close> is encoded as an integer.\<close>

definition createStringObjectFromLongLong :: "int \<Rightarrow> sobj" where
  "createStringObjectFromLongLong v =
     (if - (2 ^ 63) \<le> v \<and> v \<le> 2 ^ 63 - 1 then IntEnc v else Raw (ll_repr v))"

fun dupStringObject :: "sobj \<Rightarrow> sobj" where
  "dupStringObject (Raw s) = createRawStringObject s"
| "dupStringObject (Emb s) = createEmbeddedStringObject s"
| "dupStringObject (IntEnc v) = IntEnc v"

fun sdsEncodedObject :: "sobj \<Rightarrow> bool" where
  "sdsEncodedObject (IntEnc v) = False"
| "sdsEncodedObject o1 = True"

text \<open>The bytes that an object stands for.\<close>

fun str_bytes :: "sobj \<Rightarrow> u8 list" where
  "str_bytes (Raw s) = s"
| "str_bytes (Emb s) = s"
| "str_bytes (IntEnc v) = ll_repr v"

fun isObjectRepresentableAsLongLong :: "sobj \<Rightarrow> int option" where
  "isObjectRepresentableAsLongLong (IntEnc v) = Some v"
| "isObjectRepresentableAsLongLong (Raw s) = string2ll s"
| "isObjectRepresentableAsLongLong (Emb s) = string2ll s"

definition encode_bytes :: "sobj \<Rightarrow> u8 list \<Rightarrow> sobj" where
  "encode_bytes o1 s =
     (case (if length s \<le> 21 then string2l s else None) of
        Some v \<Rightarrow> IntEnc v
      | None \<Rightarrow> if length s \<le> REDIS_ENCODING_EMBSTR_SIZE_LIMIT then createEmbeddedStringObject s else o1)"

text \<open>Giving back the free space of a long string changes nothing of its content.\<close>

fun tryObjectEncoding :: "sobj \<Rightarrow> sobj" where
  "tryObjectEncoding (IntEnc v) = IntEnc v"
| "tryObjectEncoding (Raw s) = encode_bytes (Raw s) s"
| "tryObjectEncoding (Emb s) = encode_bytes (Emb s) s"

fun getDecodedObject :: "sobj \<Rightarrow> sobj" where
  "getDecodedObject (IntEnc v) = createStringObject (ll_repr v)"
| "getDecodedObject o1 = o1"

section \<open>Comparison\<close>

definition compareStringObjects :: "sobj \<Rightarrow> sobj \<Rightarrow> int" where
  "compareStringObjects a b =
     (let astr = str_bytes a; bstr = str_bytes b;
          minlen = (if length astr < length bstr then length astr else length bstr);
          cmp = memcmp (take minlen astr) (take minlen bstr)
      in if cmp = 0 then sign_extend 4 (int (length astr) - int (length bstr)) else cmp)"

fun equalStringObjects :: "sobj \<Rightarrow> sobj \<Rightarrow> bool" where
  "equalStringObjects (IntEnc v) (IntEnc w) = (v = w)"
| "equalStringObjects a b = (compareStringObjects a b = 0)"

definition stringObjectLen :: "sobj \<Rightarrow> nat" where
  "stringObjectLen o1 = length (str_bytes o1)"

section \<open>Numbers in strings\<close>

definition isspace :: "u8 \<Rightarrow> bool" where
  "isspace c \<longleftrightarrow> c = 32 \<or> 9 \<le> unat c \<and> unat c \<le> 13"

text \<open>
  \<^verbatim>\<open>strtoll\<close> in base 10 on the bytes up to the first zero: an optional sign and digits; \<open>None\<close> is
  one of the conditions for which the callers report an error: leading space, bytes left behind the
  digits, a value out of range. Nothing at all counts as zero.
\<close>

definition strtoll_all :: "u8 list \<Rightarrow> int option" where
  "strtoll_all s =
     (let str = takeWhile (\<lambda>c. c \<noteq> 0) s
      in case str of
           [] \<Rightarrow> Some 0
         | c # r \<Rightarrow>
             if isspace c then None
             else
               let ds = (if c = of_char CHR ''-'' \<or> c = of_char CHR ''+'' then r else str);
                   v = (if c = of_char CHR ''-'' then - int (horner 0 ds) else int (horner 0 ds))
               in if ds = [] \<or> \<not> list_all is_digit ds then None
                  else if - (2 ^ 63) \<le> v \<and> v \<le> 2 ^ 63 - 1 then Some v else None)"

fun getLongLongFromObject :: "sobj option \<Rightarrow> int option" where
  "getLongLongFromObject None = Some 0"
| "getLongLongFromObject (Some (IntEnc v)) = Some v"
| "getLongLongFromObject (Some (Raw s)) = strtoll_all s"
| "getLongLongFromObject (Some (Emb s)) = strtoll_all s"

section \<open>Lemmas\<close>

definition sobj_ok :: "sobj \<Rightarrow> bool" where
  "sobj_ok o1 \<longleftrightarrow> (case o1 of IntEnc v \<Rightarrow> int64_range v | _ \<Rightarrow> True)"

text \<open>What \<^verbatim>\<open>ll2string\<close> leaves in the buffers of 32 bytes is \<open>ll_repr\<close>.\<close>

lemma ll2string_buffer:
  assumes "int64_range v" "length buf = 32"
  shows "\<exists>buf'. ll2string buf 32 v = Some (buf', length (ll_repr v)) \<and> take (length (ll_repr v)) buf' = ll_repr v"
  using ll2string_repr [of v 32 buf] length_ll_repr [OF assms(1)] assms by simp

lemma string2ll_repr: "int64_range v \<Longrightarrow> string2ll (ll_repr v) = Some v"
  by (simp add: string2ll_iff)

lemma ll_repr_inj: "int64_range v \<Longrightarrow> int64_range w \<Longrightarrow> ll_repr v = ll_repr w \<longleftrightarrow> v = w"
  using string2ll_repr [of v] string2ll_repr [of w] by (metis option.inject)

lemma string2l_ll: "string2l s = string2ll s"
proof (cases "string2ll s")
  case (Some v)
  then have "int64_range v" by (simp add: string2ll_iff)
  then show ?thesis by (simp add: string2l_def Some)
qed (simp add: string2l_def)

lemma str_bytes_create [simp]:
  "str_bytes (createRawStringObject s) = s" "str_bytes (createEmbeddedStringObject s) = s" "str_bytes (createStringObject s) = s"
  "str_bytes (createStringObjectFromLongLong v) = ll_repr v"
  by (simp_all add: createRawStringObject_def createEmbeddedStringObject_def createStringObject_def createStringObjectFromLongLong_def)

lemma sobj_ok_create [simp]:
  "sobj_ok (createRawStringObject s)" "sobj_ok (createEmbeddedStringObject s)" "sobj_ok (createStringObject s)"
  "sobj_ok (createStringObjectFromLongLong v)"
  by (simp_all add: sobj_ok_def createRawStringObject_def createEmbeddedStringObject_def createStringObject_def createStringObjectFromLongLong_def)

lemma encode_bytes_content: "str_bytes o1 = s \<Longrightarrow> str_bytes (encode_bytes o1 s) = s"
  by (auto simp: encode_bytes_def string2l_ll string2ll_iff split: option.splits if_splits)

lemma encode_bytes_ok: "sobj_ok o1 \<Longrightarrow> sobj_ok (encode_bytes o1 s)"
  by (auto simp: encode_bytes_def string2l_ll string2ll_iff split: option.splits if_splits) (auto simp: sobj_ok_def)

lemma tryObjectEncoding_bytes [simp]: "str_bytes (tryObjectEncoding o1) = str_bytes o1"
  by (cases o1) (simp_all add: encode_bytes_content)

lemma tryObjectEncoding_ok [simp]: "sobj_ok o1 \<Longrightarrow> sobj_ok (tryObjectEncoding o1)"
  by (cases o1) (simp_all add: encode_bytes_ok)

lemma getDecodedObject_bytes [simp]: "str_bytes (getDecodedObject o1) = str_bytes o1"
  by (cases o1) simp_all

lemma getDecodedObject_sds: "sdsEncodedObject (getDecodedObject o1)"
  by (cases o1) (simp_all add: createStringObject_def createEmbeddedStringObject_def createRawStringObject_def)

lemma isObjectRepresentable_iff:
  "sobj_ok o1 \<Longrightarrow> isObjectRepresentableAsLongLong o1 = Some v \<longleftrightarrow> int64_range v \<and> str_bytes o1 = ll_repr v"
  by (cases o1) (auto simp: string2ll_iff sobj_ok_def ll_repr_inj)

lemma compareStringObjects_lex:
  assumes "length (str_bytes a) < 2 ^ 31" "length (str_bytes b) < 2 ^ 31"
  shows "(compareStringObjects a b < 0 \<longleftrightarrow> ord_class.lexordp (str_bytes a) (str_bytes b)) \<and> (compareStringObjects a b = 0 \<longleftrightarrow> str_bytes a = str_bytes b)"
proof -
  have "sign_extend 4 (int (length (str_bytes a)) - int (length (str_bytes b))) = int (length (str_bytes a)) - int (length (str_bytes b))"
    using assms by (intro sign_extend_fit) (simp add: fits_signed_def)
  then show ?thesis using memcmp_blocks [of "str_bytes a" "str_bytes b"] by (simp only: compareStringObjects_def Let_def)
qed

lemma equalStringObjects_iff:
  assumes "sobj_ok a" "sobj_ok b" "length (str_bytes a) < 2 ^ 31" "length (str_bytes b) < 2 ^ 31"
  shows "equalStringObjects a b \<longleftrightarrow> str_bytes a = str_bytes b"
proof (cases "\<exists>v w. a = IntEnc v \<and> b = IntEnc w")
  case True
  then show ?thesis using assms by (auto simp: sobj_ok_def ll_repr_inj)
next
  case False
  then have "equalStringObjects a b \<longleftrightarrow> compareStringObjects a b = 0" by (cases a; cases b) auto
  then show ?thesis using compareStringObjects_lex assms(3,4) by simp
qed

end
