(* ===== verification/Rdb_String.thy ===== *)
theory Rdb_String
  imports Rio Lzf Object Endian
begin

text \<open>
  Strings in snapshots, \<^verbatim>\<open>rdb.c\<close>: lengths, integers, compressed and verbatim strings. The savers write to a stream or,
  with a null pointer (\<open>None\<close>), only count the bytes; their result is the stream with the count, or \<open>None\<close> for the return
  of -1, for a count that does not fit an \<^verbatim>\<open>int\<close> and for an access out of bounds, which the lemmas exclude. The result
  \<open>None\<close> of a loader is a short read or a panic: the server stops in both cases.

  The lemmas say which bytes are written, and that the loaders read the string back from them.
\<close>

section \<open>Primitive types\<close>

type_synonym writer = "rio option"

definition rdbWriteRaw :: "writer \<Rightarrow> u8 list \<Rightarrow> (writer \<times> nat) option" where
  "rdbWriteRaw w p =
     do { w1 \<leftarrow> (case w of None \<Rightarrow> Some None | Some r \<Rightarrow> map_option Some (rioWrite r p));
          if length p < 2 ^ 31 then Some (w1, length p) else None }"

text \<open>\<^verbatim>\<open>nwritten += n\<close>\<close>

definition add_count :: "writer \<Rightarrow> nat \<Rightarrow> nat \<Rightarrow> (writer \<times> nat) option" where
  "add_count w nwritten n = (if nwritten + n < 2 ^ 31 then Some (w, nwritten + n) else None)"

definition rdbSaveType :: "writer \<Rightarrow> u8 \<Rightarrow> (writer \<times> nat) option" where
  "rdbSaveType w type = rdbWriteRaw w [type]"

definition rdbLoadType :: "rio \<Rightarrow> (u8 \<times> rio) option" where
  "rdbLoadType r = do { (bs, r1) \<leftarrow> rioRead r 1; Some (hd bs, r1) }"

text \<open>Times are written as the host stores them; \<open>be\<close> says whether it is big endian.\<close>

definition rdbLoadTime :: "bool \<Rightarrow> rio \<Rightarrow> (int \<times> rio) option" where
  "rdbLoadTime be r = do { (bs, r1) \<leftarrow> rioRead r 4; Some (sign_extend 4 (load_native be bs), r1) }"

definition rdbSaveMillisecondTime :: "bool \<Rightarrow> writer \<Rightarrow> int \<Rightarrow> (writer \<times> nat) option" where
  "rdbSaveMillisecondTime be w t = rdbWriteRaw w (store_native be 8 t)"

definition rdbLoadMillisecondTime :: "bool \<Rightarrow> rio \<Rightarrow> (int \<times> rio) option" where
  "rdbLoadMillisecondTime be r = do { (bs, r1) \<leftarrow> rioRead r 8; Some (sign_extend 8 (load_native be bs), r1) }"

section \<open>Lengths\<close>

definition REDIS_RDB_LENERR :: nat where
  "REDIS_RDB_LENERR = 2 ^ 32 - 1"

definition rdbSaveLen :: "writer \<Rightarrow> nat \<Rightarrow> (writer \<times> nat) option" where
  "rdbSaveLen w len =
     (if len < 2 ^ 6 then do { (w1, _) \<leftarrow> rdbWriteRaw w [of_nat (len mod 256)]; Some (w1, 1) }
      else if len < 2 ^ 14 then
        do { (w1, _) \<leftarrow> rdbWriteRaw w [of_nat (len div 256 mod 256 + 1 * 64), of_nat (len mod 256)]; Some (w1, 2) }
      else
        do { (w1, _) \<leftarrow> rdbWriteRaw w [of_nat (2 * 64)];
             (w2, _) \<leftarrow> rdbWriteRaw w1 (rev (put_le 4 (int len)));
             Some (w2, 1 + 4) })"

text \<open>The length and the flag \<^verbatim>\<open>isencoded\<close>; the callers treat \<^verbatim>\<open>REDIS_RDB_LENERR\<close> as an error, whether it was read or
  stands for a short read.\<close>

definition rdbLoadLen :: "rio \<Rightarrow> nat \<times> bool \<times> rio" where
  "rdbLoadLen r =
     (case rioRead r 1 of
        None \<Rightarrow> (REDIS_RDB_LENERR, False, r)
      | Some (buf, r1) \<Rightarrow>
          let b = unat (hd buf); type = b div 64
          in if type = 3 then (b mod 64, True, r1)
             else if type = 0 then (b mod 64, False, r1)
             else if type = 1 then
               (case rioRead r1 1 of
                  None \<Rightarrow> (REDIS_RDB_LENERR, False, r1)
                | Some (buf1, r2) \<Rightarrow> (b mod 64 * 256 + unat (hd buf1), False, r2))
             else
               (case rioRead r1 4 of
                  None \<Rightarrow> (REDIS_RDB_LENERR, False, r1)
                | Some (len, r2) \<Rightarrow> (nat (get_le (rev len)), False, r2)))"

section \<open>Integers\<close>

text \<open>No bytes stand for the return of zero.\<close>

definition rdbEncodeInteger :: "int \<Rightarrow> u8 list" where
  "rdbEncodeInteger v =
     (if - (2 ^ 7) \<le> v \<and> v \<le> 2 ^ 7 - 1 then [of_nat (3 * 64 + 0), word_of_int v]
      else if - (2 ^ 15) \<le> v \<and> v \<le> 2 ^ 15 - 1 then [of_nat (3 * 64 + 1), word_of_int v, word_of_int (v div 2 ^ 8)]
      else if - (2 ^ 31) \<le> v \<and> v \<le> 2 ^ 31 - 1 then
        [of_nat (3 * 64 + 2), word_of_int v, word_of_int (v div 2 ^ 8), word_of_int (v div 2 ^ 16), word_of_int (v div 2 ^ 24)]
      else [])"

definition rdbLoadIntegerObject :: "nat \<Rightarrow> bool \<Rightarrow> rio \<Rightarrow> (sobj \<times> rio) option" where
  "rdbLoadIntegerObject enctype encode r =
     do { (val, r1) \<leftarrow> (if enctype = 0 then do { (enc, r1) \<leftarrow> rioRead r 1; Some (get_sle enc, r1) }
                        else if enctype = 1 then do { (enc, r1) \<leftarrow> rioRead r 2; Some (get_sle enc, r1) }
                        else if enctype = 2 then do { (enc, r1) \<leftarrow> rioRead r 4; Some (get_sle enc, r1) }
                        else None);
          Some (if encode then createStringObjectFromLongLong val else Raw (ll_repr val), r1) }"

text \<open>
  \<^verbatim>\<open>strtoll\<close> in base 10 on the bytes up to the first zero: the value, cut off at the ends of the range, and the bytes from
  \<^verbatim>\<open>endptr\<close> on.
\<close>

definition strtoll_end :: "u8 list \<Rightarrow> int \<times> u8 list" where
  "strtoll_end s =
     (let str = takeWhile (\<lambda>c. c \<noteq> 0) s; p = dropWhile isspace str;
          neg = (p \<noteq> [] \<and> hd p = of_char CHR ''-'');
          q = (if p \<noteq> [] \<and> (hd p = of_char CHR ''-'' \<or> hd p = of_char CHR ''+'') then tl p else p);
          ds = takeWhile is_digit q
      in if ds = [] then (0, str)
         else (max (- (2 ^ 63)) (min (2 ^ 63 - 1) (if neg then - int (horner 0 ds) else int (horner 0 ds))), dropWhile is_digit q))"

definition rdbTryIntegerEncoding :: "u8 list \<Rightarrow> u8 list" where
  "rdbTryIntegerEncoding s =
     (let (value1, endptr) = strtoll_end s
      in if endptr \<noteq> [] then [] else if ll_repr value1 \<noteq> s then [] else rdbEncodeInteger value1)"

section \<open>Strings\<close>

text \<open>The configuration of the server, the byte order of the host, the addresses of the tables of a dictionary, the number of
  bytes after which loading serves clients, and what the memory of a compression holds at first.\<close>

record rdb_env =
  rdb_compression :: bool
  rdb_checksum :: bool
  rdb_be :: bool
  rdb_addr0 :: u64
  rdb_addr1 :: u64
  rdb_chunk :: nat
  rdb_junk :: "u8 list \<Rightarrow> nat \<Rightarrow> u8"
  rdb_htab :: "u8 list \<Rightarrow> nat \<Rightarrow> int"

definition rdbSaveLzfStringObject :: "rdb_env \<Rightarrow> writer \<Rightarrow> u8 list \<Rightarrow> (writer \<times> nat) option" where
  "rdbSaveLzfStringObject env w s =
     (if length s \<le> 4 then Some (w, 0)
      else
        let outlen = length s - 4
        in do {
          out \<leftarrow> lzf_compress (rdb_junk env s) (rdb_htab env s) (outlen + 1) (wrap32 outlen) (take (wrap32 (length s)) s);
          if out = [] then Some (w, 0)
          else do {
            (w1, n1) \<leftarrow> rdbWriteRaw w [of_nat (3 * 64 + 3)];
            (w2, n2) \<leftarrow> rdbSaveLen w1 (wrap32 (length out));
            (w2, n) \<leftarrow> add_count w2 n1 n2;
            (w3, n3) \<leftarrow> rdbSaveLen w2 (wrap32 (length s));
            (w3, n) \<leftarrow> add_count w3 n n3;
            (w4, n4) \<leftarrow> rdbWriteRaw w3 out;
            add_count w4 n n4 } })"

definition rdbLoadLzfStringObject :: "rio \<Rightarrow> (sobj \<times> rio) option" where
  "rdbLoadLzfStringObject r =
     (let (clen, _, r1) = rdbLoadLen r
      in if clen = REDIS_RDB_LENERR then None
         else
           let (len, _, r2) = rdbLoadLen r1
           in if len = REDIS_RDB_LENERR then None
              else do {
                (c, r3) \<leftarrow> rioRead r2 clen;
                d \<leftarrow> lzf_decompress len c;
                (case d of
                   Inl _ \<Rightarrow> None
                 | Inr out \<Rightarrow> if out = [] then None else Some (Raw (out @ replicate (len - length out) 0), r3)) })"

definition rdbSaveRawString :: "rdb_env \<Rightarrow> writer \<Rightarrow> u8 list \<Rightarrow> (writer \<times> nat) option" where
  "rdbSaveRawString env w s =
     (if length s \<le> 11 \<and> rdbTryIntegerEncoding s \<noteq> [] then rdbWriteRaw w (rdbTryIntegerEncoding s)
      else do {
        (w1, n) \<leftarrow> (if rdb_compression env \<and> length s > 20 then rdbSaveLzfStringObject env w s else Some (w, 0));
        if n > 0 then Some (w1, n)
        else do {
          (w2, n) \<leftarrow> rdbSaveLen w1 (wrap32 (length s));
          if length s > 0 then do { (w3, _) \<leftarrow> rdbWriteRaw w2 s; add_count w3 n (length s) } else Some (w2, n) } })"

definition rdbSaveLongLongAsStringObject :: "writer \<Rightarrow> int \<Rightarrow> (writer \<times> nat) option" where
  "rdbSaveLongLongAsStringObject w v =
     (let enc = rdbEncodeInteger v
      in if enc \<noteq> [] then rdbWriteRaw w enc
         else
           let buf = ll_repr v
           in if length buf < 32
              then do { (w1, n1) \<leftarrow> rdbSaveLen w (length buf); (w2, n2) \<leftarrow> rdbWriteRaw w1 buf; add_count w2 n1 n2 }
              else None)"

fun rdbSaveStringObject :: "rdb_env \<Rightarrow> writer \<Rightarrow> sobj \<Rightarrow> (writer \<times> nat) option" where
  "rdbSaveStringObject env w (IntEnc v) = rdbSaveLongLongAsStringObject w v"
| "rdbSaveStringObject env w (Raw s) = rdbSaveRawString env w s"
| "rdbSaveStringObject env w (Emb s) = rdbSaveRawString env w s"

definition rdbGenericLoadStringObject :: "bool \<Rightarrow> rio \<Rightarrow> (sobj \<times> rio) option" where
  "rdbGenericLoadStringObject encode r =
     (let (len, isencoded, r1) = rdbLoadLen r
      in if isencoded then
           if len = 0 \<or> len = 1 \<or> len = 2 then rdbLoadIntegerObject len encode r1
           else if len = 3 then rdbLoadLzfStringObject r1
           else None
         else if len = REDIS_RDB_LENERR then None
         else do {
           (s, r2) \<leftarrow> (if len \<noteq> 0 then rioRead r1 len else Some ([], r1));
           Some (if encode then createStringObject s else createRawStringObject s, r2) })"

definition rdbLoadStringObject :: "rio \<Rightarrow> (sobj \<times> rio) option" where
  "rdbLoadStringObject r = rdbGenericLoadStringObject False r"

definition rdbLoadEncodedStringObject :: "rio \<Rightarrow> (sobj \<times> rio) option" where
  "rdbLoadEncodedStringObject r = rdbGenericLoadStringObject True r"

section \<open>What is written\<close>

text \<open>\<open>emit w bs\<close>: exactly the bytes \<open>bs\<close> are written and counted, if they fit.\<close>

definition emit :: "writer \<Rightarrow> u8 list \<Rightarrow> (writer \<times> nat) option" where
  "emit w bs =
     (if length bs < 2 ^ 31 \<and> (\<forall>r. w = Some r \<longrightarrow> fits r (length bs)) then Some (map_option (\<lambda>r. wrote r bs) w, length bs) else None)"

lemma rdbWriteRaw_emit: "rdbWriteRaw w bs = emit w bs"
  by (cases w) (auto simp: rdbWriteRaw_def emit_def rioWrite_eq)

lemma emit_Nil [simp]: "emit w [] = Some (w, 0)"
  by (cases w) (simp_all add: emit_def)

lemma emit_emit:
  "do { (w1, n) \<leftarrow> emit w as; (w2, m) \<leftarrow> emit w1 bs; add_count w2 n m } = emit w (as @ bs)"
  by (cases w) (auto simp: emit_def add_count_def fits_def split: option.splits)

lemma emit_emit_const:
  "k = length as + length bs \<Longrightarrow> k < 2 ^ 31 \<Longrightarrow> do { (w1, n) \<leftarrow> emit w as; (w2, m) \<leftarrow> emit w1 bs; Some (w2, k) } = emit w (as @ bs)"
  by (cases w) (auto simp: emit_def fits_def split: option.splits)

lemma emit_const: "k = length bs \<Longrightarrow> do { (w1, n) \<leftarrow> emit w bs; Some (w1, k) } = emit w bs"
  by (cases w) (auto simp: emit_def)

definition len_bytes :: "nat \<Rightarrow> u8 list" where
  "len_bytes len =
     (if len < 2 ^ 6 then [of_nat len] else if len < 2 ^ 14 then [of_nat (len div 256 + 64), of_nat (len mod 256)]
      else 128 # rev (put_le 4 (int len)))"

lemma rdbSaveLen_emit: "rdbSaveLen w len = emit w (len_bytes len)"
proof -
  consider "len < 2 ^ 6" | "2 ^ 6 \<le> len" "len < 2 ^ 14" | "2 ^ 14 \<le> len" by linarith
  then show ?thesis
  proof cases
    case 1
    then show ?thesis by (simp add: rdbSaveLen_def rdbWriteRaw_emit emit_const len_bytes_def)
  next
    case 2
    then have "len div 256 mod 256 = len div 256" by simp
    then show ?thesis using 2 by (simp add: rdbSaveLen_def rdbWriteRaw_emit emit_const len_bytes_def)
  next
    case 3
    then show ?thesis
      using emit_emit_const [of 5 "[128]" "rev (put_le 4 (int len))" w] by (simp add: rdbSaveLen_def rdbWriteRaw_emit len_bytes_def)
  qed
qed

definition env_ok :: "rdb_env \<Rightarrow> bool" where
  "env_ok env \<longleftrightarrow> (\<forall>s i. \<bar>rdb_htab env s i\<bar> < 2 ^ 62)"

definition lzf_out :: "rdb_env \<Rightarrow> u8 list \<Rightarrow> u8 list" where
  "lzf_out env s = the (lzf_compress (rdb_junk env s) (rdb_htab env s) (length s - 4 + 1) (length s - 4) s)"

definition raw_bytes :: "rdb_env \<Rightarrow> u8 list \<Rightarrow> u8 list" where
  "raw_bytes env s =
     (if length s \<le> 11 \<and> rdbTryIntegerEncoding s \<noteq> [] then rdbTryIntegerEncoding s
      else if rdb_compression env \<and> length s > 20 \<and> lzf_out env s \<noteq> []
      then 195 # len_bytes (length (lzf_out env s)) @ len_bytes (length s) @ lzf_out env s
      else len_bytes (length s) @ s)"

lemma lzf_out_spec:
  assumes "env_ok env" "4 < length s" "length s < 2 ^ 32"
  shows "lzf_compress (rdb_junk env s) (rdb_htab env s) (length s - 4 + 1) (length s - 4) s = Some (lzf_out env s)"
    "length (lzf_out env s) \<le> length s - 4" "lzf_out env s \<noteq> [] \<Longrightarrow> lzf_decompress (length s) (lzf_out env s) = Some (Inr s)"
proof -
  have "2 \<le> length s" "length s - 4 < length s - 4 + 1" "length s \<le> length s" "\<forall>i. \<bar>rdb_htab env s i\<bar> < 2 ^ 62"
    using assms by (auto simp: env_ok_def)
  from lzf_compress_spec [OF this(1) assms(3) this(2-4), of "rdb_junk env s"]
  obtain r where r: "lzf_compress (rdb_junk env s) (rdb_htab env s) (length s - 4 + 1) (length s - 4) s = Some r"
      "length r \<le> length s - 4" "r \<noteq> [] \<longrightarrow> lzf_decompress (length s) r = Some (Inr s)"
    by blast
  then have "lzf_out env s = r" by (simp add: lzf_out_def)
  then show "lzf_compress (rdb_junk env s) (rdb_htab env s) (length s - 4 + 1) (length s - 4) s = Some (lzf_out env s)"
    "length (lzf_out env s) \<le> length s - 4" "lzf_out env s \<noteq> [] \<Longrightarrow> lzf_decompress (length s) (lzf_out env s) = Some (Inr s)"
    using r by auto
qed

lemma emit_pos: "emit w bs = Some (w1, n) \<Longrightarrow> n = length bs"
  by (auto simp: emit_def split: if_splits)

lemma emit_bind: "emit w bs \<bind> (\<lambda>(w1, n). f w1 n) = emit w bs \<bind> (\<lambda>(w1, n). f w1 (length bs))"
  by (cases "emit w bs") (auto dest: emit_pos)

lemma len_bytes_pos: "len_bytes len \<noteq> []"
  by (simp add: len_bytes_def)

lemma rdbSaveLzf_emit:
  assumes "env_ok env" "20 < length s" "length s < 2 ^ 32"
  shows "rdbSaveLzfStringObject env w s =
    (if lzf_out env s = [] then Some (w, 0) else emit w (195 # len_bytes (length (lzf_out env s)) @ len_bytes (length s) @ lzf_out env s))"
proof -
  let ?o = "lzf_out env s"
  have s: "4 < length s" using assms(2) by simp
  note o = lzf_out_spec(1,2) [OF assms(1) s assms(3)]
  have wrap: "wrap32 (length s) = length s" "wrap32 (length s - 4) = length s - 4" "wrap32 (length ?o) = length ?o"
    using assms(3) o(2) by simp_all
  have "do { (w1, n1) \<leftarrow> emit w [195]; (w2, n2) \<leftarrow> emit w1 (len_bytes (length ?o)); (w2, n) \<leftarrow> add_count w2 n1 n2;
      (w3, n3) \<leftarrow> emit w2 (len_bytes (length s)); (w3, n) \<leftarrow> add_count w3 n n3; (w4, n4) \<leftarrow> emit w3 ?o; add_count w4 n n4 }
    = emit w (195 # len_bytes (length ?o) @ len_bytes (length s) @ ?o)"
    by (cases w) (auto simp: emit_def add_count_def fits_def split: option.splits)
  then show ?thesis using s o(1) by (simp add: rdbSaveLzfStringObject_def Let_def wrap rdbWriteRaw_emit rdbSaveLen_emit)
qed

lemma rdbSaveRawString_emit:
  assumes "env_ok env" "length s < 2 ^ 32"
  shows "rdbSaveRawString env w s = emit w (raw_bytes env s)"
proof -
  have verbatim: "do { (w2, n) \<leftarrow> rdbSaveLen w (wrap32 (length s));
      if length s > 0 then do { (w3, _) \<leftarrow> rdbWriteRaw w2 s; add_count w3 n (length s) } else Some (w2, n) } = emit w (len_bytes (length s) @ s)"
  proof (cases "s = []")
    case True
    then show ?thesis by (simp add: rdbSaveLen_emit)
  next
    case False
    have "do { (w3, _) \<leftarrow> emit w2 s; add_count w3 n (length s) } = do { (w3, m) \<leftarrow> emit w2 s; add_count w3 n m }" for w2 n
      by (cases "emit w2 s") (auto dest: emit_pos)
    then show ?thesis using False assms(2) emit_emit [of w "len_bytes (length s)" s] by (simp add: rdbSaveLen_emit rdbWriteRaw_emit)
  qed
  have pos: "do { (w1, n) \<leftarrow> emit w (195 # b); if n > 0 then Some (w1, n) else g w1 } = emit w (195 # b)" for b g
    by (cases "emit w (195 # b)") (auto dest: emit_pos)
  show ?thesis
  proof (cases "length s \<le> 11 \<and> rdbTryIntegerEncoding s \<noteq> []")
    case True
    then show ?thesis by (simp add: rdbSaveRawString_def raw_bytes_def rdbWriteRaw_emit)
  next
    case False
    show ?thesis
    proof (cases "rdb_compression env \<and> length s > 20")
      case True
      then show ?thesis using False verbatim rdbSaveLzf_emit [OF assms(1) _ assms(2), of w] pos
        by (auto simp: rdbSaveRawString_def raw_bytes_def)
    next
      case no: False
      then have "rdbSaveRawString env w s = do { (w2, n) \<leftarrow> rdbSaveLen w (wrap32 (length s));
          if length s > 0 then do { (w3, _) \<leftarrow> rdbWriteRaw w2 s; add_count w3 n (length s) } else Some (w2, n) }"
        unfolding rdbSaveRawString_def if_not_P [OF False] if_not_P [OF no] by simp
      then show ?thesis using False no verbatim by (auto simp: raw_bytes_def)
    qed
  qed
qed

text \<open>An integer is written like its decimal notation, so that the file does not depend on the encoding of an object.\<close>

lemma isspace_digit: "is_digit c \<Longrightarrow> \<not> isspace c" "is_digit c \<Longrightarrow> c \<noteq> 0" "\<not> isspace (of_char CHR ''-'')" "\<not> is_digit (of_char CHR ''-'')"
  by (auto simp: is_digit_def isspace_def)

lemma strtoll_repr: "int64_range v \<Longrightarrow> strtoll_end (ll_repr v) = (v, [])"
proof -
  assume v: "int64_range v"
  obtain c ds where d: "dec (nat \<bar>v\<bar>) = c # ds" by (cases "dec (nat \<bar>v\<bar>)") simp_all
  have all: "is_digit c" "\<forall>x\<in>set ds. is_digit x" "horner 0 (c # ds) = nat \<bar>v\<bar>" using dec_digits [of "nat \<bar>v\<bar>"] d by auto
  have nz: "takeWhile (\<lambda>c. c \<noteq> 0) (c # ds) = c # ds" using all isspace_digit(2) by (auto simp: takeWhile_eq_all_conv)
  have sign: "c \<noteq> of_char CHR ''-''" "c \<noteq> of_char CHR ''+''" using all(1) by (auto simp: is_digit_def)
  have tw: "takeWhile is_digit (c # ds) = c # ds" "dropWhile is_digit (c # ds) = []" using all by (auto simp: takeWhile_eq_all_conv)
  have val: "int (horner 0 (c # ds)) = \<bar>v\<bar>" unfolding all(3) by simp
  show ?thesis
  proof (cases "v < 0")
    case True
    have "ll_repr v = of_char CHR ''-'' # c # ds" using d True by (simp add: ll_repr_dec)
    then show ?thesis using True v nz tw val isspace_digit(3) by (simp add: strtoll_end_def Let_def del: horner_simps)
  next
    case False
    have "ll_repr v = c # ds" using d False by (simp add: ll_repr_dec)
    then show ?thesis using False v nz tw val sign isspace_digit(1) [OF all(1)] by (simp add: strtoll_end_def Let_def del: horner_simps)
  qed
qed

lemma rdbTryIntegerEncoding_repr: "int64_range v \<Longrightarrow> rdbTryIntegerEncoding (ll_repr v) = rdbEncodeInteger v"
  by (simp add: rdbTryIntegerEncoding_def strtoll_repr)

lemma rdbTryIntegerEncoding_SomeD: "rdbTryIntegerEncoding s \<noteq> [] \<Longrightarrow> \<exists>v. s = ll_repr v \<and> rdbTryIntegerEncoding s = rdbEncodeInteger v"
  by (auto simp: rdbTryIntegerEncoding_def split: prod.splits if_splits)

lemma rdbEncodeInteger_range: "rdbEncodeInteger v \<noteq> [] \<longleftrightarrow> - (2 ^ 31) \<le> v \<and> v < 2 ^ 31"
  by (auto simp: rdbEncodeInteger_def)

lemma length_int32_repr: "- (2 ^ 31) \<le> v \<Longrightarrow> v < 2 ^ 31 \<Longrightarrow> length (ll_repr v) \<le> 11"
proof -
  assume "- (2 ^ 31) \<le> v" "v < 2 ^ 31"
  then have "nat \<bar>v\<bar> < 10 ^ Suc 9" by auto
  then show ?thesis using length_dec_le [of "nat \<bar>v\<bar>" 9] by (cases "v < 0") (simp_all add: ll_repr_dec)
qed

lemma rdbSaveLongLong_emit:
  assumes "int64_range v"
  shows "rdbSaveLongLongAsStringObject w v = emit w (raw_bytes env (ll_repr v))"
proof (cases "rdbEncodeInteger v = []")
  case True
  have "length (ll_repr v) \<le> 20" by (rule length_ll_repr [OF assms])
  then show ?thesis using True assms emit_emit [of w "len_bytes (length (ll_repr v))" "ll_repr v"]
    by (simp add: rdbSaveLongLongAsStringObject_def Let_def raw_bytes_def rdbTryIntegerEncoding_repr rdbSaveLen_emit rdbWriteRaw_emit)
next
  case False
  then have "length (ll_repr v) \<le> 11" using length_int32_repr rdbEncodeInteger_range by blast
  then show ?thesis using False assms by (simp add: rdbSaveLongLongAsStringObject_def Let_def raw_bytes_def rdbTryIntegerEncoding_repr rdbWriteRaw_emit)
qed

lemma rdbSaveStringObject_emit:
  assumes "env_ok env" "sobj_ok o1" "length (str_bytes o1) < 2 ^ 32"
  shows "rdbSaveStringObject env w o1 = emit w (raw_bytes env (str_bytes o1))"
  using assms by (cases o1) (simp_all add: rdbSaveRawString_emit rdbSaveLongLong_emit sobj_ok_def)

section \<open>What is read\<close>

lemma get_le_rev_put: "len < 2 ^ 32 \<Longrightarrow> nat (get_le (put_le 4 (int len))) = len"
  by (simp add: get_le_put_le)

lemma rdbLoadLen_bytes:
  assumes "ahead r = len_bytes len @ rest" "len < 2 ^ 32"
  shows "rdbLoadLen r = (len, False, advance r (len_bytes len))"
proof -
  consider "len < 2 ^ 6" | "2 ^ 6 \<le> len" "len < 2 ^ 14" | "2 ^ 14 \<le> len" by linarith
  then show ?thesis
  proof cases
    case 1
    then have "len_bytes len = [of_nat len]" "unat (of_nat len :: u8) = len" by (simp_all add: len_bytes_def unat_small)
    then show ?thesis using rioRead_Cons [of r "of_nat len" rest] assms(1) 1 by (simp add: rdbLoadLen_def)
  next
    case 2
    let ?a = "of_nat (len div 256 + 64) :: u8" and ?b = "of_nat (len mod 256) :: u8"
    have b: "len_bytes len = [?a, ?b]" using 2 by (simp add: len_bytes_def)
    have q: "len div 256 < 64" using 2 by simp
    then have u: "unat ?a = len div 256 + 64" "unat ?b = len mod 256" using unat_small [of "len div 256 + 64"] unat_small [of "len mod 256"] by auto
    have r1: "rioRead r 1 = Some ([?a], advance r [?a])" using rioRead_Cons [of r ?a "?b # rest"] assms(1) b by simp
    have r2: "rioRead (advance r [?a]) 1 = Some ([?b], advance r [?a, ?b])"
      using rioRead_Cons [of "advance r [?a]" ?b rest] ahead_advance [of r "[?a]"] assms(1) b by simp
    have "(len div 256 + 64) div 64 = 1" "(len div 256 + 64) mod 64 = len div 256" using q by (simp_all add: div_eq_dividend_iff)
    then show ?thesis unfolding rdbLoadLen_def b r1 option.case prod.case Let_def list.sel u(1) using r2 u(2) by simp
  next
    case 3
    let ?a = "128 :: u8" and ?b = "rev (put_le 4 (int len))"
    have b: "len_bytes len = ?a # ?b" using 3 by (simp add: len_bytes_def)
    have r1: "rioRead r 1 = Some ([?a], advance r [?a])" using rioRead_Cons [of r ?a "?b @ rest"] assms(1) b by simp
    have r2: "rioRead (advance r [?a]) 4 = Some (?b, advance r (?a # ?b))"
      using rioRead_ahead [of "advance r [?a]" ?b rest] ahead_advance [of r "[?a]"] assms(1) b by simp
    show ?thesis unfolding rdbLoadLen_def b r1 using r2 get_le_rev_put [OF assms(2)] by simp
  qed
qed

lemma rdbLoadLen_encoded:
  assumes "ahead r = of_nat (192 + k) # rest" "k < 64"
  shows "rdbLoadLen r = (k, True, advance r [of_nat (192 + k)])"
proof -
  have "unat (of_nat (192 + k) :: u8) = 192 + k" using assms(2) by (intro unat_small) simp
  moreover have "(192 + k) div 64 = 3" "(192 + k) mod 64 = k"
    using assms(2) div_mult_self3 [of 64 3 k] mod_mult_self3 [of 3 64 k] by simp_all
  ultimately show ?thesis using rioRead_Cons [OF assms(1)] unfolding rdbLoadLen_def by simp
qed

lemma rdbLoadIntegerObject_bytes:
  assumes "ahead r = put_le n v @ rest" "fits_signed n v" "(k, n) \<in> {(0, 1), (1, 2), (2, 4)}"
  shows "rdbLoadIntegerObject k encode r = Some (if encode then createStringObjectFromLongLong v else Raw (ll_repr v), advance r (put_le n v))"
proof -
  have "rioRead r n = Some (put_le n v, advance r (put_le n v))" using rioRead_ahead [OF assms(1)] by simp
  then show ?thesis using assms(3) get_sle_put_le [OF assms(2)] by (auto simp: rdbLoadIntegerObject_def simp del: put_le.simps One_nat_def)
qed

lemma rdbEncodeInteger_put:
  assumes "rdbEncodeInteger v \<noteq> []"
  shows "\<exists>k n. rdbEncodeInteger v = of_nat (192 + k) # put_le n v \<and> fits_signed n v \<and> (k, n) \<in> {(0, 1), (1, 2), (2, 4)}"
proof -
  consider "- (2 ^ 7) \<le> v \<and> v \<le> 2 ^ 7 - 1" | "\<not> (- (2 ^ 7) \<le> v \<and> v \<le> 2 ^ 7 - 1)" "- (2 ^ 15) \<le> v \<and> v \<le> 2 ^ 15 - 1"
    | "\<not> (- (2 ^ 7) \<le> v \<and> v \<le> 2 ^ 7 - 1)" "\<not> (- (2 ^ 15) \<le> v \<and> v \<le> 2 ^ 15 - 1)" "- (2 ^ 31) \<le> v \<and> v \<le> 2 ^ 31 - 1"
    using assms unfolding rdbEncodeInteger_range by linarith
  then show ?thesis
  proof cases
    case 1
    then show ?thesis by (intro exI [of _ 0] exI [of _ 1]) (simp add: rdbEncodeInteger_def fits_signed_def)
  next
    case 2
    then have "rdbEncodeInteger v = [193, word_of_int v, word_of_int (v div 2 ^ 8)]" unfolding rdbEncodeInteger_def by simp
    then show ?thesis using 2 by (intro exI [of _ 1] exI [of _ 2]) (simp add: numeral_2_eq_2 fits_signed_def)
  next
    case 3
    then have "rdbEncodeInteger v = [194, word_of_int v, word_of_int (v div 2 ^ 8), word_of_int (v div 2 ^ 16), word_of_int (v div 2 ^ 24)]"
      unfolding rdbEncodeInteger_def by simp
    moreover have "put_le 4 v = [word_of_int v, word_of_int (v div 2 ^ 8), word_of_int (v div 2 ^ 16), word_of_int (v div 2 ^ 24)]"
      by (simp add: numeral_eq_Suc) (simp flip: div_mult2_eq zdiv_zmult2_eq)
    ultimately show ?thesis using 3 by (intro exI [of _ 2] exI [of _ 4]) (simp add: fits_signed_def)
  qed
qed

lemma rdbLoadLzf_bytes:
  assumes "ahead r = len_bytes (length out) @ len_bytes (length s) @ out @ rest" "length s < 2 ^ 32 - 1" "length out \<le> length s"
    "s \<noteq> []" "lzf_decompress (length s) out = Some (Inr s)"
  shows "rdbLoadLzfStringObject r = Some (Raw s, advance r (len_bytes (length out) @ len_bytes (length s) @ out))"
proof -
  let ?a = "len_bytes (length out)" and ?b = "len_bytes (length s)"
  have l1: "rdbLoadLen r = (length out, False, advance r ?a)" using rdbLoadLen_bytes [OF assms(1)] assms(2,3) by simp
  have a1: "ahead (advance r ?a) = ?b @ out @ rest" by (rule ahead_advance [OF assms(1)])
  have l2: "rdbLoadLen (advance r ?a) = (length s, False, advance r (?a @ ?b))" using rdbLoadLen_bytes [OF a1] assms(2) by simp
  have a2: "ahead (advance r (?a @ ?b)) = out @ rest" using ahead_advance [OF a1] by simp
  have "rioRead (advance r (?a @ ?b)) (length out) = Some (out, advance r (?a @ ?b @ out))" using rioRead_ahead [OF a2] by simp
  then show ?thesis
    using l1 l2 assms(2-5) by (simp add: rdbLoadLzfStringObject_def REDIS_RDB_LENERR_def)
qed

text \<open>Every string is read back, whatever form was chosen for it.\<close>

lemma rdbGenericLoad_bytes:
  assumes "env_ok env" "ahead r = raw_bytes env s @ rest" "length s < 2 ^ 32 - 1"
  shows "\<exists>o1. rdbGenericLoadStringObject encode r = Some (o1, advance r (raw_bytes env s)) \<and> str_bytes o1 = s \<and> sobj_ok o1
    \<and> (\<not> encode \<longrightarrow> o1 = Raw s)"
proof -
  consider (int) "length s \<le> 11 \<and> rdbTryIntegerEncoding s \<noteq> []"
    | (lzf) "\<not> (length s \<le> 11 \<and> rdbTryIntegerEncoding s \<noteq> [])" "rdb_compression env \<and> length s > 20 \<and> lzf_out env s \<noteq> []"
    | (verbatim) "raw_bytes env s = len_bytes (length s) @ s"
    unfolding raw_bytes_def by argo
  then show ?thesis
  proof cases
    case int
    obtain v where v: "s = ll_repr v" "rdbTryIntegerEncoding s = rdbEncodeInteger v" using rdbTryIntegerEncoding_SomeD int by blast
    obtain k n where k: "rdbEncodeInteger v = of_nat (192 + k) # put_le n v" "fits_signed n v" "(k, n) \<in> {(0, 1), (1, 2), (2, 4)}"
      using rdbEncodeInteger_put [of v] int v(2) by auto
    have b: "raw_bytes env s = of_nat (192 + k) # put_le n v" using int v(2) k(1) by (simp add: raw_bytes_def)
    have a: "ahead r = of_nat (192 + k) # (put_le n v @ rest)" using assms(2) b by simp
    have k64: "k < 64" "k \<in> {0, 1, 2}" using k(3) by auto
    have a1: "ahead (advance r [of_nat (192 + k)]) = put_le n v @ rest" using ahead_advance [of r "[of_nat (192 + k)]"] a by simp
    show ?thesis
      using rdbLoadLen_encoded [OF a k64(1)] rdbLoadIntegerObject_bytes [OF a1 k(2,3), of encode] k64(2) b v(1)
      by (auto simp: rdbGenericLoadStringObject_def sobj_ok_def createStringObjectFromLongLong_def simp del: put_le.simps)
  next
    case lzf
    let ?o = "lzf_out env s"
    have len: "4 < length s" "length s < 2 ^ 32" using lzf assms(3) by auto
    note o = lzf_out_spec(2,3) [OF assms(1) len]
    have b: "raw_bytes env s = of_nat (192 + 3) # len_bytes (length ?o) @ len_bytes (length s) @ ?o"
      unfolding raw_bytes_def if_not_P [OF lzf(1)] if_P [OF lzf(2)] by simp
    have a: "ahead r = of_nat (192 + 3) # (len_bytes (length ?o) @ len_bytes (length s) @ ?o @ rest)" using assms(2) unfolding b by simp
    have a1: "ahead (advance r [of_nat (192 + 3)]) = len_bytes (length ?o) @ len_bytes (length s) @ ?o @ rest"
      using ahead_advance [of r "[of_nat (192 + 3)]"] a by simp
    have load: "rdbLoadLen r = (3, True, advance r [of_nat (192 + 3)])" by (rule rdbLoadLen_encoded [OF a]) simp
    have "rdbLoadLzfStringObject (advance r [of_nat (192 + 3)]) = Some (Raw s, advance r (raw_bytes env s))"
      using rdbLoadLzf_bytes [OF a1 assms(3)] o lzf(2) len(1) unfolding b by force
    then show ?thesis using load by (simp add: rdbGenericLoadStringObject_def sobj_ok_def)
  next
    case verbatim
    have a: "ahead r = len_bytes (length s) @ s @ rest" using assms(2) verbatim by simp
    have load: "rdbLoadLen r = (length s, False, advance r (len_bytes (length s)))" using rdbLoadLen_bytes [OF a] assms(3) by simp
    have "(if length s \<noteq> 0 then rioRead (advance r (len_bytes (length s))) (length s) else Some ([], advance r (len_bytes (length s))))
        = Some (s, advance r (len_bytes (length s) @ s))"
      using rioRead_ahead [OF ahead_advance [OF a]] by (cases "s = []") simp_all
    then show ?thesis using load assms(3) verbatim
      by (simp add: rdbGenericLoadStringObject_def REDIS_RDB_LENERR_def createRawStringObject_def) (simp add: sobj_ok_def)
  qed
qed

end
