(* ===== verification/Set_Type.thy ===== *)
theory Set_Type
  imports Object Intset Dict_Iter
begin

text \<open>
  The set type of \<^verbatim>\<open>t_set.c\<close>: a set object is an integer set or a hash table without values, and is
  converted from the one to the other when an element is not an integer or there are too many.
  Two objects are the same key of the hash table when they stand for the same bytes
  (\<^verbatim>\<open>dictEncObjKeyCompare\<close>), and \<^verbatim>\<open>dictEncObjHash\<close> depends on these bytes only, so the keys are the
  bytes. \<open>set_elems\<close> is the set that an object stands for, in both encodings; the operations are
  shown to implement sets of byte strings.
\<close>

datatype setobj = SetIntset intset | SetHT "(u8 list, unit) dict"

text \<open>What the operations take from elsewhere: the bytes that a grown integer set starts with, whether
  hash tables may be resized, the hash function and \<^verbatim>\<open>set_max_intset_entries\<close>.\<close>

record set_env =
  env_junk :: "nat \<Rightarrow> u8"
  env_can_resize :: bool
  env_hash :: "u8 list \<Rightarrow> u32"
  set_max_intset_entries :: nat

section \<open>Operations\<close>

definition createSetObject :: setobj where
  "createSetObject = SetHT dictCreate"

definition createIntsetObject :: setobj where
  "createIntsetObject = SetIntset intsetNew"

definition setTypeCreate :: "sobj \<Rightarrow> setobj" where
  "setTypeCreate value = (if isObjectRepresentableAsLongLong value \<noteq> None then createIntsetObject else createSetObject)"

fun setTypeSize :: "setobj \<Rightarrow> nat" where
  "setTypeSize (SetHT d) = dictSize d"
| "setTypeSize (SetIntset is) = intsetLen is"

text \<open>Iterators: the result of a step is an object, an integer or nothing.\<close>

datatype set_iter = IterHT "(u8 list, unit) dictIterator" | IterInt nat

datatype set_elem = ObjElem "u8 list" | IntElem int

fun setTypeInitIterator :: "setobj \<Rightarrow> set_iter" where
  "setTypeInitIterator (SetHT d) = IterHT dictGetIterator"
| "setTypeInitIterator (SetIntset is) = IterInt 0"

fun setTypeReleaseIterator :: "u64 \<Rightarrow> u64 \<Rightarrow> setobj \<Rightarrow> set_iter \<Rightarrow> setobj option" where
  "setTypeReleaseIterator addr0 addr1 (SetHT d) (IterHT di) = map_option SetHT (dictReleaseIterator addr0 addr1 d di)"
| "setTypeReleaseIterator addr0 addr1 s si = Some s"

fun setTypeNext :: "u64 \<Rightarrow> u64 \<Rightarrow> setobj \<Rightarrow> set_iter \<Rightarrow> (setobj \<times> set_iter \<times> set_elem option) option" where
  "setTypeNext addr0 addr1 (SetHT d) (IterHT di) =
     do { (d', di', e) \<leftarrow> dictNext addr0 addr1 d di;
          Some (SetHT d', IterHT di', map_option (\<lambda>(k, _). ObjElem k) e) }"
| "setTypeNext addr0 addr1 (SetIntset is) (IterInt ii) =
     do { r \<leftarrow> intsetGet is ii; Some (SetIntset is, IterInt (ii + 1), map_option IntElem r) }"
| "setTypeNext addr0 addr1 s si = None"

definition elem_object :: "set_elem \<Rightarrow> sobj" where
  "elem_object e = (case e of IntElem v \<Rightarrow> createStringObjectFromLongLong v | ObjElem b \<Rightarrow> createStringObject b)"

definition setTypeNextObject :: "u64 \<Rightarrow> u64 \<Rightarrow> setobj \<Rightarrow> set_iter \<Rightarrow> (setobj \<times> set_iter \<times> sobj option) option" where
  "setTypeNextObject addr0 addr1 s si =
     do { (s', si', e) \<leftarrow> setTypeNext addr0 addr1 s si; Some (s', si', map_option elem_object e) }"

text \<open>Conversion to a hash table: the loop over the integer set, with the assertion that every element is
  new.\<close>

function convert_loop :: "set_env \<Rightarrow> intset \<Rightarrow> nat \<Rightarrow> (u8 list, unit) dict \<Rightarrow> (u8 list, unit) dict option" where
  "convert_loop env is ii d =
     (case intsetGet is ii of
        None \<Rightarrow> None
      | Some None \<Rightarrow> Some d
      | Some (Some v) \<Rightarrow>
          if ii < is_length is then
            do { (d', added) \<leftarrow> dictAdd (env_can_resize env) (env_hash env) d (str_bytes (createStringObjectFromLongLong v)) ();
                 if added then convert_loop env is (ii + 1) d' else None }
          else None)"
  by pat_completeness auto
termination by (relation "measure (\<lambda>(_, is, ii, _). is_length is - ii)") auto

declare convert_loop.simps [simp del]

fun setTypeConvert :: "set_env \<Rightarrow> setobj \<Rightarrow> setobj option" where
  "setTypeConvert env (SetIntset is) =
     (let (d, _) = dictExpand dictCreate (intsetLen is)
      in map_option SetHT (convert_loop env is 0 d))"
| "setTypeConvert env (SetHT d) = None"

fun setTypeAdd :: "set_env \<Rightarrow> setobj \<Rightarrow> sobj \<Rightarrow> (setobj \<times> bool) option" where
  "setTypeAdd env (SetHT d) value =
     do { (d', added) \<leftarrow> dictAdd (env_can_resize env) (env_hash env) d (str_bytes value) (); Some (SetHT d', added) }"
| "setTypeAdd env (SetIntset is) value =
     (case isObjectRepresentableAsLongLong value of
        Some llval \<Rightarrow>
          do { (is', success) \<leftarrow> intsetAdd (env_junk env) is llval;
               if success then
                 if intsetLen is' > set_max_intset_entries env
                 then do { s \<leftarrow> setTypeConvert env (SetIntset is'); Some (s, True) }
                 else Some (SetIntset is', True)
               else Some (SetIntset is', False) }
      | None \<Rightarrow>
          do { s \<leftarrow> setTypeConvert env (SetIntset is);
               (case s of
                  SetHT d \<Rightarrow>
                    do { (d', added) \<leftarrow> dictAdd (env_can_resize env) (env_hash env) d (str_bytes value) ();
                         if added then Some (SetHT d', True) else None }
                | SetIntset _ \<Rightarrow> None) })"

definition dictSlots :: "('k, 'v) dict \<Rightarrow> nat" where
  "dictSlots d = ht_size (ht0 d) + ht_size (ht1 d)"

definition REDIS_HT_MINFILL :: nat where
  "REDIS_HT_MINFILL = 10"

definition htNeedsResize :: "('k, 'v) dict \<Rightarrow> bool" where
  "htNeedsResize d =
     (let sz = dictSlots d; used = dictSize d
      in sz \<noteq> 0 \<and> used \<noteq> 0 \<and> sz > DICT_HT_INITIAL_SIZE \<and> used * 100 div sz < REDIS_HT_MINFILL)"

fun setTypeRemove :: "set_env \<Rightarrow> setobj \<Rightarrow> sobj \<Rightarrow> (setobj \<times> bool) option" where
  "setTypeRemove env (SetHT d) value =
     do { (d', deleted) \<leftarrow> dictDelete (env_hash env) d (str_bytes value);
          if deleted then Some (SetHT (if htNeedsResize d' then fst (dictResize (env_can_resize env) d') else d'), True)
          else Some (SetHT d', False) }"
| "setTypeRemove env (SetIntset is) value =
     (case isObjectRepresentableAsLongLong value of
        Some llval \<Rightarrow> do { (is', success) \<leftarrow> intsetRemove (env_junk env) is llval; Some (SetIntset is', success) }
      | None \<Rightarrow> Some (SetIntset is, False))"

fun setTypeIsMember :: "set_env \<Rightarrow> setobj \<Rightarrow> sobj \<Rightarrow> (setobj \<times> bool) option" where
  "setTypeIsMember env (SetHT d) value =
     do { (d', r) \<leftarrow> dictFind (env_hash env) d (str_bytes value); Some (SetHT d', r \<noteq> None) }"
| "setTypeIsMember env (SetIntset is) value =
     (case isObjectRepresentableAsLongLong value of
        Some llval \<Rightarrow> do { b \<leftarrow> intsetFind is llval; Some (SetIntset is, b) }
      | None \<Rightarrow> Some (SetIntset is, False))"

text \<open>The results of \<^verbatim>\<open>random\<close> and \<^verbatim>\<open>rand\<close> are arguments.\<close>

fun setTypeRandomElement :: "set_env \<Rightarrow> nat list \<Rightarrow> setobj \<Rightarrow> (setobj \<times> set_elem) option" where
  "setTypeRandomElement env rs (SetHT d) =
     do { (d', e) \<leftarrow> dictGetRandomKey (env_hash env) rs d; (k, _) \<leftarrow> e; Some (SetHT d', ObjElem k) }"
| "setTypeRandomElement env rs (SetIntset is) =
     (case rs of [] \<Rightarrow> None | r # _ \<Rightarrow> do { v \<leftarrow> intsetRandom r is; Some (SetIntset is, IntElem v) })"

section \<open>Invariant and abstraction\<close>

fun set_elems :: "setobj \<Rightarrow> u8 list set" where
  "set_elems (SetIntset is) = ll_repr ` set (intset_vals is)"
| "set_elems (SetHT d) = dom (dict_map d)"

text \<open>Sets have at most as many elements as a dictionary is known to take.\<close>

definition set_limit :: nat where
  "set_limit = 2 ^ 30"

fun set_ok :: "set_env \<Rightarrow> setobj \<Rightarrow> bool" where
  "set_ok env (SetIntset is) \<longleftrightarrow> intset_ok is \<and> is_length is \<le> set_max_intset_entries env"
| "set_ok env (SetHT d) \<longleftrightarrow> dict_ok (env_hash env) d \<and> indexable d \<and> card (dom (dict_map d)) \<le> set_limit"

lemma vals_int64: "intset_ok is \<Longrightarrow> v \<in> set (intset_vals is) \<Longrightarrow> int64_range v"
proof -
  assume ok: "intset_ok is" "v \<in> set (intset_vals is)"
  then have "fits_signed (is_encoding is) v" "is_encoding is \<le> 8"
    using intset_repD(1,3) [OF rep_of_ok(1) [OF ok(1)]] by auto
  then have "fits_signed 8 v" by (rule fits_signed_mono)
  then show ?thesis by (simp add: fits_signed_def)
qed

lemma repr_mem: "intset_ok is \<Longrightarrow> int64_range v \<Longrightarrow> ll_repr v \<in> ll_repr ` set (intset_vals is) \<longleftrightarrow> v \<in> set (intset_vals is)"
  using vals_int64 ll_repr_inj by blast

lemma dictResize_spec:
  assumes "dict_ok hash d" "indexable d" "card (dom (dict_map d)) \<le> set_limit"
  shows "dict_ok hash (fst (dictResize can_resize d)) \<and> indexable (fst (dictResize can_resize d)) \<and> dict_map (fst (dictResize can_resize d)) = dict_map d"
proof (cases "\<not> can_resize \<or> dictIsRehashing d")
  case False
  have used: "ht_used (ht0 d) \<le> 2 ^ 30"
    using assms(3) dict_limit_used [OF assms(1)] by (simp add: dictSize_def set_limit_def)
  then have "sign_extend 4 (int (ht_used (ht0 d))) = int (ht_used (ht0 d))" by (intro sign_extend_fit) (simp add: fits_signed_def)
  then have "dictResize can_resize d = dictExpand d (max 4 (ht_used (ht0 d)))"
    using False by (simp add: dictResize_def Let_def DICT_HT_INITIAL_SIZE_def max_def)
  then show ?thesis
    using False used dictExpand_spec(1,2) [OF assms(1), of "max 4 (ht_used (ht0 d))"] dictExpand_indexable [OF assms(2), of "max 4 (ht_used (ht0 d))"] by simp
qed (use assms in \<open>auto simp: dictResize_def\<close>)

lemma card_repr: "intset_ok is \<Longrightarrow> card (ll_repr ` set (intset_vals is)) = is_length is"
  using vals_int64 ll_repr_inj by (subst card_image) (auto intro!: inj_onI simp: length_card)

lemma set_limit_dict: "card A < set_limit \<Longrightarrow> card A < dict_limit"
  by (simp add: set_limit_def dict_limit_def)

lemma card_size: "set_ok env s \<Longrightarrow> setTypeSize s = card (set_elems s)"
  by (cases s) (auto simp: intsetLen_def card_repr dict_limit_used)

lemma finite_set_elems: "set_ok env s \<Longrightarrow> finite (set_elems s)"
  by (cases s) (auto simp: dict_map_def finite_dom_map_of)

section \<open>Conversion\<close>

lemma convert_loop_spec:
  assumes "intset_ok is" "dict_ok (env_hash env) d \<and> indexable d" "ii \<le> is_length is" "dom (dict_map d) = ll_repr ` set (take ii (intset_vals is))"
  shows "\<exists>d'. convert_loop env is ii d = Some d' \<and> (dict_ok (env_hash env) d' \<and> indexable d') \<and> dom (dict_map d') = ll_repr ` set (intset_vals is)"
  using assms(2-4)
proof (induction "is_length is - ii" arbitrary: ii d)
  case 0
  have len: "length (intset_vals is) = is_length is" using rep_of_ok(2) [OF assms(1)] by simp
  then have "intsetGet is ii = Some None" using get_in_range [OF assms(1), of ii] 0 by simp
  then show ?case using 0 len by (simp add: convert_loop.simps)
next
  case (Suc n)
  let ?vs = "intset_vals is"
  have len: "length ?vs = is_length is" using rep_of_ok(2) [OF assms(1)] by simp
  have ii: "ii < is_length is" using Suc(2) by simp
  have range: "int64_range (?vs ! ii)" using vals_int64 [OF assms(1)] ii len by simp
  have get: "intsetGet is ii = Some (Some (?vs ! ii))" using get_in_range [OF assms(1), of ii] ii len by simp
  have "sorted_wrt (<) ?vs" using assms(1) by (simp add: intset_ok_def)
  then have "distinct ?vs" by (simp add: strict_sorted_iff)
  then have "?vs ! ii \<notin> set (take ii ?vs)" using ii len
    by (auto simp: in_set_conv_nth distinct_conv_nth)
  have new: "ll_repr (?vs ! ii) \<notin> dom (dict_map d)"
  proof
    assume "ll_repr (?vs ! ii) \<in> dom (dict_map d)"
    then obtain v where v: "v \<in> set (take ii ?vs)" "ll_repr (?vs ! ii) = ll_repr v" using Suc.prems(3) by auto
    then have "int64_range v" using vals_int64 [OF assms(1)] in_set_takeD by fast
    then have "?vs ! ii = v" using v(2) range ll_repr_inj by simp
    then show False using v(1) \<open>?vs ! ii \<notin> set (take ii ?vs)\<close> by simp
  qed
  have "card (dom (dict_map d)) \<le> ii" using Suc.prems(3) card_image_le [of "set (take ii ?vs)" ll_repr] card_length [of "take ii ?vs"] by simp
  then have "card (dom (dict_map d)) < dict_limit" using ii assms(1) by (simp add: intset_ok_def dict_limit_def)
  from dict.add_spec [OF Suc.prems(1) this, where k = "ll_repr (?vs ! ii)" and v = "()" and can_resize = "env_can_resize env"]
  obtain d1 where d1: "dictAdd (env_can_resize env) (env_hash env) d (ll_repr (?vs ! ii)) () = Some (d1, True)"
      "dict_ok (env_hash env) d1 \<and> indexable d1" "dom (dict_map d1) = insert (ll_repr (?vs ! ii)) (dom (dict_map d))"
    using new by auto
  have "dom (dict_map d1) = ll_repr ` set (take (ii + 1) ?vs)"
    using d1(3) Suc.prems(3) ii len by (simp add: take_Suc_conv_app_nth)
  then have "\<exists>d'. convert_loop env is (ii + 1) d1 = Some d' \<and> (dict_ok (env_hash env) d' \<and> indexable d') \<and> dom (dict_map d') = ll_repr ` set ?vs"
    using Suc.hyps(1) [of "ii + 1" d1] Suc.hyps(2) d1(2) ii by simp
  then show ?case using get ii d1(1) by (subst convert_loop.simps) simp
qed

lemma setTypeConvert_spec:
  assumes "intset_ok is"
  shows "\<exists>d. setTypeConvert env (SetIntset is) = Some (SetHT d) \<and> set_ok env (SetHT d) \<and> dom (dict_map d) = ll_repr ` set (intset_vals is)"
proof -
  have lim: "is_length is < 2 ^ 29" using assms by (simp add: intset_ok_def)
  let ?d = "fst (dictExpand (dictCreate :: (u8 list, unit) dict) (is_length is))"
  have fresh: "\<not> dictIsRehashing (dictCreate :: (u8 list, unit) dict)" "ht_used (ht0 (dictCreate :: (u8 list, unit) dict)) \<le> is_length is" "is_length is \<le> 2 ^ 62"
    using lim by (simp_all add: dictIsRehashing_def dictCreate_def dictReset_def)
  have "dict_ok (env_hash env) ?d" "dict_map ?d = Map.empty"
    using dictExpand_spec(1,2) [OF dictCreate_ok(1) fresh(1,3,2)] by (simp_all add: dictCreate_ok)
  moreover have "indexable ?d" using lim by (intro dictExpand_indexable dictCreate_indexable) simp
  ultimately obtain d where "convert_loop env is 0 ?d = Some d" "dict_ok (env_hash env) d" "indexable d" "dom (dict_map d) = ll_repr ` set (intset_vals is)"
    using convert_loop_spec [OF assms, of env ?d 0] by auto
  moreover have "card (ll_repr ` set (intset_vals is)) \<le> set_limit" using card_repr [OF assms] lim by (simp add: set_limit_def)
  ultimately show ?thesis by (auto simp: intsetLen_def Let_def split: prod.splits)
qed

declare setTypeConvert.simps [simp del]

section \<open>Insertion, deletion, membership\<close>

lemma ht_add_spec:
  assumes "set_ok env (SetHT d)" "card (dom (dict_map d)) < set_limit"
  shows "\<exists>d'. dictAdd (env_can_resize env) (env_hash env) d k () = Some (d', k \<notin> dom (dict_map d))
    \<and> set_ok env (SetHT d') \<and> dom (dict_map d') = insert k (dom (dict_map d))"
proof -
  have fin: "finite (dom (dict_map d))" by (simp add: dict_map_def finite_dom_map_of)
  obtain d' where d': "dictAdd (env_can_resize env) (env_hash env) d k () = Some (d', k \<notin> dom (dict_map d))" "dict_ok (env_hash env) d'" "indexable d'"
      "dict_map d' = (if k \<in> dom (dict_map d) then dict_map d else (dict_map d)(k \<mapsto> ()))"
    using dict.add_spec [where hash = "env_hash env" and s = d and k = k and v = "()" and can_resize = "env_can_resize env"] assms set_limit_dict [of "dom (dict_map d)"] by auto
  then have dom: "dom (dict_map d') = insert k (dom (dict_map d))" by auto
  then have "card (dom (dict_map d')) \<le> set_limit" using assms fin by (simp add: card_insert_if)
  then show ?thesis using d' dom by auto
qed

lemma setTypeAdd_spec:
  assumes "set_ok env s" "sobj_ok value" "card (set_elems s) < set_limit" "set_max_intset_entries env < 2 ^ 29 - 1"
  shows "\<exists>s'. setTypeAdd env s value = Some (s', str_bytes value \<notin> set_elems s) \<and> set_ok env s'
    \<and> set_elems s' = insert (str_bytes value) (set_elems s)"
proof (cases s)
  case (SetHT d)
  then show ?thesis using ht_add_spec [of env d "str_bytes value"] assms by auto
next
  case (SetIntset "is")
  have ok: "intset_ok is" "is_length is \<le> set_max_intset_entries env" using assms(1) SetIntset by auto
  show ?thesis
  proof (cases "isObjectRepresentableAsLongLong value")
    case (Some v)
    then have v: "int64_range v" "str_bytes value = ll_repr v" using isObjectRepresentable_iff [OF assms(2)] by auto
    have "card (set (intset_vals is)) < 2 ^ 29 - 1" using ok assms(4) by (simp add: length_card)
    from intset.ins_spec [OF ok(1) v(1) this, of "env_junk env"] obtain is' where is':
      "intsetAdd (env_junk env) is v = Some (is', v \<notin> set (intset_vals is))" "intset_ok is'" "set (intset_vals is') = insert v (set (intset_vals is))"
      by blast
    have mem: "str_bytes value \<in> set_elems s \<longleftrightarrow> v \<in> set (intset_vals is)" using SetIntset v repr_mem [OF ok(1) v(1)] by simp
    have el: "ll_repr ` set (intset_vals is') = insert (str_bytes value) (set_elems s)" using is'(3) v(2) SetIntset by simp
    have same: "is_length is' = is_length is" if "v \<in> set (intset_vals is)"
      using length_card [OF is'(2)] length_card [OF ok(1)] is'(3) that by (simp add: insert_absorb)
    obtain d where "setTypeConvert env (SetIntset is') = Some (SetHT d)" "set_ok env (SetHT d)" "dom (dict_map d) = ll_repr ` set (intset_vals is')"
      using setTypeConvert_spec [OF is'(2)] by blast
    then show ?thesis
      using SetIntset Some is'(1,2) mem el ok same
      by (cases "v \<in> set (intset_vals is)"; cases "set_max_intset_entries env < is_length is'") (auto simp: intsetLen_def)
  next
    case None
    obtain d where d: "setTypeConvert env (SetIntset is) = Some (SetHT d)" "set_ok env (SetHT d)" "dom (dict_map d) = set_elems s"
      using setTypeConvert_spec [OF ok(1), of env] SetIntset by auto
    have new: "str_bytes value \<notin> set_elems s"
    proof
      assume "str_bytes value \<in> set_elems s"
      then obtain v where "v \<in> set (intset_vals is)" "str_bytes value = ll_repr v" using SetIntset by auto
      then show False using None isObjectRepresentable_iff [OF assms(2), of v] vals_int64 [OF ok(1)] by auto
    qed
    then show ?thesis using ht_add_spec [OF d(2), of "str_bytes value"] d assms(3) SetIntset None by auto
  qed
qed

lemma setTypeRemove_spec:
  assumes "set_ok env s" "sobj_ok value"
  shows "\<exists>s'. setTypeRemove env s value = Some (s', str_bytes value \<in> set_elems s) \<and> set_ok env s'
    \<and> set_elems s' = set_elems s - {str_bytes value}"
proof (cases s)
  case (SetHT d)
  let ?k = "str_bytes value"
  have d: "dict_ok (env_hash env) d \<and> indexable d" "card (dom (dict_map d)) \<le> set_limit" using assms(1) SetHT by auto
  obtain d' where d': "dictDelete (env_hash env) d ?k = Some (d', ?k \<in> dom (dict_map d))" "dict_ok (env_hash env) d'" "indexable d'" "dict_map d' = (dict_map d)(?k := None)"
    using dict.delete_spec [OF d(1)] by blast
  have dom: "dom (dict_map d') = dom (dict_map d) - {?k}" using d'(4) by auto
  have fin: "finite (dom (dict_map d))" by (simp add: dict_map_def finite_dom_map_of)
  have card: "card (dom (dict_map d')) \<le> set_limit" using d(2) card_mono [OF fin, of "dom (dict_map d')"] dom by auto
  show ?thesis
    using SetHT d' dom card dictResize_spec [OF d'(2,3) card] by (cases "?k \<in> dom (dict_map d)") auto
next
  case (SetIntset "is")
  have ok: "intset_ok is" "is_length is \<le> set_max_intset_entries env" using assms(1) SetIntset by auto
  show ?thesis
  proof (cases "isObjectRepresentableAsLongLong value")
    case (Some v)
    then have v: "int64_range v" "str_bytes value = ll_repr v" using isObjectRepresentable_iff [OF assms(2)] by auto
    obtain is' where is': "intsetRemove (env_junk env) is v = Some (is', v \<in> set (intset_vals is))" "intset_ok is'"
        "set (intset_vals is') = set (intset_vals is) - {v}"
      using intset.del_spec [OF ok(1) v(1)] by blast
    have "ll_repr ` (set (intset_vals is) - {v}) = ll_repr ` set (intset_vals is) - {ll_repr v}"
      using v(1) vals_int64 [OF ok(1)] ll_repr_inj by blast
    moreover have "is_length is' \<le> is_length is"
      using length_card [OF is'(2)] length_card [OF ok(1)] is'(3) by (metis List.finite_set card_Diff1_le)
    ultimately show ?thesis using SetIntset Some is' v repr_mem [OF ok(1) v(1)] ok by auto
  next
    case None
    have "str_bytes value \<notin> set_elems s"
      using None isObjectRepresentable_iff [OF assms(2)] vals_int64 [OF ok(1)] SetIntset by force
    then show ?thesis using SetIntset None assms(1) by auto
  qed
qed

lemma setTypeIsMember_spec:
  assumes "set_ok env s" "sobj_ok value"
  shows "\<exists>s'. setTypeIsMember env s value = Some (s', str_bytes value \<in> set_elems s) \<and> set_ok env s' \<and> set_elems s' = set_elems s"
proof (cases s)
  case (SetHT d)
  then have d: "dict_ok (env_hash env) d \<and> indexable d" "card (dom (dict_map d)) \<le> set_limit" using assms(1) by auto
  obtain d' where "dictFind (env_hash env) d (str_bytes value) = Some (d', dict_map d (str_bytes value))" "dict_ok (env_hash env) d' \<and> indexable d'" "dict_map d' = dict_map d"
    using dict.lookup_spec [OF d(1)] by blast
  then show ?thesis using SetHT d by auto
next
  case (SetIntset "is")
  have ok: "intset_ok is" using assms(1) SetIntset by auto
  show ?thesis
  proof (cases "isObjectRepresentableAsLongLong value")
    case (Some v)
    then have v: "int64_range v" "str_bytes value = ll_repr v" using isObjectRepresentable_iff [OF assms(2)] by auto
    then show ?thesis using SetIntset Some assms(1) intset.mem_spec [OF ok v(1)] repr_mem [OF ok v(1)] by auto
  next
    case None
    have "str_bytes value \<notin> set_elems s"
      using None isObjectRepresentable_iff [OF assms(2)] vals_int64 [OF ok] SetIntset by force
    then show ?thesis using SetIntset None assms(1) by auto
  qed
qed

section \<open>Sets of byte strings\<close>

text \<open>With a bound on the size of integer sets the operations are an implementation of sets.\<close>

locale intset_config =
  fixes env :: set_env
  assumes small: "set_max_intset_entries env < 2 ^ 29 - 1"

sublocale intset_config \<subseteq> settype: set_impl createIntsetObject "\<lambda>s x. setTypeAdd env s (createStringObject x)"
  "\<lambda>s x. setTypeRemove env s (createStringObject x)" "\<lambda>s x. map_option snd (setTypeIsMember env s (createStringObject x))"
  set_elems "set_ok env" "\<lambda>_. True" set_limit
proof (unfold_locales, goal_cases)
  case 1
  then show ?case by (simp add: createIntsetObject_def intsetNew_ok) (simp add: intsetNew_def)
next
  case 2
  then show ?case by (simp add: createIntsetObject_def intsetNew_ok)
next
  case (3 s)
  then show ?case by (rule finite_set_elems)
next
  case (4 s x)
  then show ?case using setTypeAdd_spec [of env s "createStringObject x"] small by simp
next
  case (5 s x)
  then show ?case using setTypeRemove_spec [of env s "createStringObject x"] by simp
next
  case (6 s x)
  then show ?case using setTypeIsMember_spec [of env s "createStringObject x"] by auto
qed

text \<open>The default of \<^verbatim>\<open>set-max-intset-entries\<close> is 512.\<close>

definition default_env :: "(nat \<Rightarrow> u8) \<Rightarrow> bool \<Rightarrow> (u8 list \<Rightarrow> u32) \<Rightarrow> set_env" where
  "default_env junk can_resize hash =
     \<lparr>env_junk = junk, env_can_resize = can_resize, env_hash = hash, set_max_intset_entries = 512\<rparr>"

interpretation redis_conf: intset_config "default_env junk can_resize hash"
  by unfold_locales (simp add: default_env_def)

section \<open>Iteration\<close>

text \<open>The loop \<^verbatim>\<open>while ((ele = setTypeNextObject (si)) != NULL)\<close>.\<close>

partial_function (option) set_collect ::
  "u64 \<Rightarrow> u64 \<Rightarrow> setobj \<Rightarrow> set_iter \<Rightarrow> sobj list \<Rightarrow> (sobj list \<times> setobj) option" where
  "set_collect addr0 addr1 s si acc =
     do { (s', si', e) \<leftarrow> setTypeNextObject addr0 addr1 s si;
          (case e of None \<Rightarrow> Some (acc, s') | Some x \<Rightarrow> set_collect addr0 addr1 s' si' (acc @ [x])) }"

lemma set_collect_int:
  assumes "intset_ok is" "ii \<le> is_length is"
  shows "set_collect addr0 addr1 (SetIntset is) (IterInt ii) acc
    = Some (acc @ map createStringObjectFromLongLong (drop ii (intset_vals is)), SetIntset is)"
  using assms(2)
proof (induction "is_length is - ii" arbitrary: ii acc)
  case 0
  then have "intsetGet is ii = Some None" "drop ii (intset_vals is) = []"
    using get_in_range [OF assms(1), of ii] rep_of_ok(2) [OF assms(1)] by simp_all
  then show ?case by (subst set_collect.simps) (simp add: setTypeNextObject_def)
next
  case (Suc n)
  let ?vs = "intset_vals is"
  have ii: "ii < is_length is" "length ?vs = is_length is" using Suc(2) rep_of_ok(2) [OF assms(1)] by simp_all
  then have get: "intsetGet is ii = Some (Some (?vs ! ii))" "drop ii ?vs = ?vs ! ii # drop (ii + 1) ?vs"
    using get_in_range [OF assms(1), of ii] by (simp_all add: Cons_nth_drop_Suc)
  have "set_collect addr0 addr1 (SetIntset is) (IterInt (ii + 1)) (acc @ [createStringObjectFromLongLong (?vs ! ii)])
      = Some ((acc @ [createStringObjectFromLongLong (?vs ! ii)]) @ map createStringObjectFromLongLong (drop (ii + 1) ?vs), SetIntset is)"
    using Suc.hyps(1) [of "ii + 1"] Suc.hyps(2) ii by simp
  then show ?case using get by (subst set_collect.simps) (simp add: setTypeNextObject_def elem_object_def)
qed

lemma set_collect_ht:
  assumes "tables_ok d" "iter_ok d it"
  shows "\<exists>d'. set_collect addr0 addr1 (SetHT d) (IterHT it) acc
      = Some (acc @ map (\<lambda>(k, _). createStringObject k) (remaining d it), SetHT d') \<and> same_tables d d'"
  using assms
proof (induction "length (remaining d it)" arbitrary: d it acc)
  case 0
  then obtain d' it' where "dictNext addr0 addr1 d it = Some (d', it', None)" "same_tables d d'"
    using dictNext_ok [OF 0(2,3), of addr0 addr1] unfolding next_ok_def by auto
  then show ?case using 0(1) by (subst set_collect.simps) (simp add: setTypeNextObject_def)
next
  case (Suc n)
  obtain d' it' x where n: "dictNext addr0 addr1 d it = Some (d', it', Some (x, ()))" "same_tables d d'"
      "iter_ok d it'" "remaining d it = (x, ()) # remaining d it'"
    using dictNext_ok [OF Suc(3,4), of addr0 addr1] Suc(2) unfolding next_ok_def by auto
  have "\<exists>d2. set_collect addr0 addr1 (SetHT d') (IterHT it') (acc @ [createStringObject x])
      = Some ((acc @ [createStringObject x]) @ map (\<lambda>(k, _). createStringObject k) (remaining d' it'), SetHT d2) \<and> same_tables d' d2"
    using Suc.hyps(1) [of d' it' "acc @ [createStringObject x]"] Suc.hyps(2) n tables_ok_same [OF Suc.prems(1) n(2)] same_tables_simps [OF n(2)] by simp
  then show ?case
    using n same_tables_trans [OF n(2)] same_tables_simps(4) [OF n(2)]
    by (subst set_collect.simps) (auto simp: setTypeNextObject_def elem_object_def)
qed

lemma same_tables_entries: "same_tables d d' \<Longrightarrow> dict_map d' = dict_map d"
  by (simp add: same_tables_def dict_map_def dict_entries_def)

section \<open>Properties\<close>

text \<open>C39: \<^verbatim>\<open>setTypeAdd\<close> implements insertion into a set of byte strings: whatever the encodings of set and
  element, it reports whether the element was new, the result stands for the set with the element,
  and a conversion to a hash table, because of a non-integer or of the size, loses and adds nothing.\<close>

theorem setTypeAdd_correct:
  assumes "set_ok env s" "sobj_ok value" "card (set_elems s) < 2 ^ 30" "set_max_intset_entries env < 2 ^ 29 - 1"
  shows "\<exists>s'. setTypeAdd env s value = Some (s', str_bytes value \<notin> set_elems s) \<and> set_ok env s'
    \<and> set_elems s' = insert (str_bytes value) (set_elems s)"
  using setTypeAdd_spec [OF assms(1,2) _ assms(4)] assms(3) by (simp add: set_limit_def)

definition example_env :: set_env where
  "example_env = default_env (\<lambda>_. 0) True (\<lambda>b. of_nat (length b))"

lemma example_set_ok: "set_ok example_env (SetIntset intset_example)" "set_elems (SetIntset intset_example) = {ll_repr 5, ll_repr 300}"
  using intset_example_ok by (simp_all add: example_env_def default_env_def) (simp add: intset_example_def)

theorem setTypeAdd_correct_witness:
  "\<exists>s'. setTypeAdd example_env (SetIntset intset_example) (Emb (bytes ''abc'')) = Some (s', True)
    \<and> set_elems s' = {bytes ''abc'', ll_repr 5, ll_repr 300}"
proof -
  have "ll_repr 5 \<noteq> bytes ''abc''" "ll_repr 300 \<noteq> bytes ''abc''" by (simp_all add: ll_repr_def dec_step bytes_def)
  moreover have "card (set_elems (SetIntset intset_example)) \<le> 2" unfolding example_set_ok(2) by (rule card_insert_le_m1) simp_all
  ultimately show ?thesis
    using setTypeAdd_correct [OF example_set_ok(1), of "Emb (bytes ''abc'')"] example_set_ok(2)
    by (auto simp: sobj_ok_def example_env_def default_env_def)
qed

text \<open>Iterating over a set with \<^verbatim>\<open>setTypeNextObject\<close> until it returns NULL ends and yields an object for
  every element exactly once, in both encodings.\<close>

theorem setType_iterate:
  assumes "set_ok env s"
  shows "\<exists>objs s'. set_collect addr0 addr1 s (setTypeInitIterator s) [] = Some (objs, s')
    \<and> distinct (map str_bytes objs) \<and> set (map str_bytes objs) = set_elems s \<and> set_elems s' = set_elems s"
proof (cases s)
  case (SetIntset "is")
  then have ok: "intset_ok is" using assms by simp
  then have "distinct (intset_vals is)" by (simp add: intset_ok_def strict_sorted_iff)
  then have "distinct (map ll_repr (intset_vals is))"
    using vals_int64 [OF ok] ll_repr_inj by (auto simp: distinct_map intro!: inj_onI)
  then show ?thesis using SetIntset set_collect_int [OF ok, of 0] by (simp add: comp_def image_image)
next
  case (SetHT d)
  then have ok: "dict_ok (env_hash env) d" using assms by simp
  have it: "iter_ok d dictGetIterator" by (simp add: iter_ok_def dictGetIterator_def)
  have rem: "remaining d dictGetIterator = dict_entries d"
    by (simp add: remaining_def dictGetIterator_def dict_entries_def)
  obtain d' where d': "set_collect addr0 addr1 (SetHT d) (IterHT dictGetIterator) [] = Some (map (\<lambda>(k, _). createStringObject k) (dict_entries d), SetHT d')"
      "same_tables d d'"
    using set_collect_ht [OF tables_ok_dict [OF ok] it, of addr0 addr1 "[]"] rem by auto
  define objs where "objs = map (\<lambda>(k, _). createStringObject k) (dict_entries d)"
  have b: "map str_bytes objs = map fst (dict_entries d)" by (auto simp: objs_def)
  have "distinct (map str_bytes objs)" using ok by (simp only: b dict_ok_def)
  moreover have "set (map str_bytes objs) = set_elems s"
    unfolding b using SetHT by (simp add: dict_map_def dom_map_of_conv_image_fst)
  ultimately show ?thesis using SetHT d' same_tables_entries [OF d'(2)] by (auto simp: objs_def [symmetric])
qed

theorem setType_iterate_witness:
  "\<exists>objs s'. set_collect 0 0 (SetIntset intset_example) (IterInt 0) [] = Some (objs, s') \<and> set (map str_bytes objs) = {ll_repr 5, ll_repr 300}"
  using setType_iterate [OF example_set_ok(1), of 0 0] example_set_ok(2) by auto

end
