(* ===== verification/Notify.thy ===== *)
theory Notify
  imports Util
begin

unbundle bit_operations_syntax

text \<open>
  Keyspace notifications, \<^verbatim>\<open>notify.c\<close>: the classes of events as flags and as letters, and the messages
  that an event publishes. \<open>publish_event\<close> is the list of channels and messages handed to
  \<^verbatim>\<open>pubsubPublishMessage\<close>.
\<close>

definition NOTIFY_KEYSPACE :: u32 where "NOTIFY_KEYSPACE = 1"
definition NOTIFY_KEYEVENT :: u32 where "NOTIFY_KEYEVENT = 2"
definition NOTIFY_GENERIC :: u32 where "NOTIFY_GENERIC = 4"
definition NOTIFY_STRING :: u32 where "NOTIFY_STRING = 8"
definition NOTIFY_LIST :: u32 where "NOTIFY_LIST = 16"
definition NOTIFY_SET :: u32 where "NOTIFY_SET = 32"
definition NOTIFY_HASH :: u32 where "NOTIFY_HASH = 64"
definition NOTIFY_ZSET :: u32 where "NOTIFY_ZSET = 128"
definition NOTIFY_EXPIRED :: u32 where "NOTIFY_EXPIRED = 256"
definition NOTIFY_EVICTED :: u32 where "NOTIFY_EVICTED = 512"

definition NOTIFY_ALL :: u32 where
  "NOTIFY_ALL = NOTIFY_GENERIC OR NOTIFY_STRING OR NOTIFY_LIST OR NOTIFY_SET OR NOTIFY_HASH OR NOTIFY_ZSET OR NOTIFY_EXPIRED OR NOTIFY_EVICTED"

lemmas notify_defs = NOTIFY_KEYSPACE_def NOTIFY_KEYEVENT_def NOTIFY_GENERIC_def NOTIFY_STRING_def NOTIFY_LIST_def NOTIFY_SET_def
  NOTIFY_HASH_def NOTIFY_ZSET_def NOTIFY_EXPIRED_def NOTIFY_EVICTED_def NOTIFY_ALL_def

section \<open>Classes as letters\<close>

definition class_flag :: "char \<Rightarrow> u32 option" where
  "class_flag c =
     (if c = CHR ''A'' then Some NOTIFY_ALL
      else if c = CHR ''g'' then Some NOTIFY_GENERIC
      else if c = CHR ''$'' then Some NOTIFY_STRING
      else if c = CHR ''l'' then Some NOTIFY_LIST
      else if c = CHR ''s'' then Some NOTIFY_SET
      else if c = CHR ''h'' then Some NOTIFY_HASH
      else if c = CHR ''z'' then Some NOTIFY_ZSET
      else if c = CHR ''x'' then Some NOTIFY_EXPIRED
      else if c = CHR ''e'' then Some NOTIFY_EVICTED
      else if c = CHR ''K'' then Some NOTIFY_KEYSPACE
      else if c = CHR ''E'' then Some NOTIFY_KEYEVENT
      else None)"

fun classes_loop :: "u32 \<Rightarrow> string \<Rightarrow> u32 option" where
  "classes_loop flags [] = Some flags"
| "classes_loop flags (c # p) = (case class_flag c of None \<Rightarrow> None | Some f \<Rightarrow> classes_loop (flags OR f) p)"

text \<open>\<open>None\<close> is the result \<open>-1\<close>.\<close>

definition keyspaceEventsStringToFlags :: "string \<Rightarrow> u32 option" where
  "keyspaceEventsStringToFlags classes = classes_loop 0 classes"

definition keyspaceEventsFlagsToString :: "u32 \<Rightarrow> string" where
  "keyspaceEventsFlagsToString flags =
     (if flags AND NOTIFY_ALL = NOTIFY_ALL then ''A''
      else
        (if flags AND NOTIFY_GENERIC \<noteq> 0 then ''g'' else '''') @
        (if flags AND NOTIFY_STRING \<noteq> 0 then ''$'' else '''') @
        (if flags AND NOTIFY_LIST \<noteq> 0 then ''l'' else '''') @
        (if flags AND NOTIFY_SET \<noteq> 0 then ''s'' else '''') @
        (if flags AND NOTIFY_HASH \<noteq> 0 then ''h'' else '''') @
        (if flags AND NOTIFY_ZSET \<noteq> 0 then ''z'' else '''') @
        (if flags AND NOTIFY_EXPIRED \<noteq> 0 then ''x'' else '''') @
        (if flags AND NOTIFY_EVICTED \<noteq> 0 then ''e'' else '''')) @
     (if flags AND NOTIFY_KEYSPACE \<noteq> 0 then ''K'' else '''') @
     (if flags AND NOTIFY_KEYEVENT \<noteq> 0 then ''E'' else '''')"

section \<open>Events\<close>

definition publish_event :: "u32 \<Rightarrow> u32 \<Rightarrow> string \<Rightarrow> u8 list \<Rightarrow> nat \<Rightarrow> (u8 list \<times> u8 list) list" where
  "publish_event flags type event key dbid =
     (if flags AND type = 0 then []
      else
        (if flags AND NOTIFY_KEYSPACE \<noteq> 0
         then [(bytes ''__keyspace@'' @ ll_repr (int dbid) @ bytes ''__:'' @ key, bytes event)] else []) @
        (if flags AND NOTIFY_KEYEVENT \<noteq> 0
         then [(bytes ''__keyevent@'' @ ll_repr (int dbid) @ bytes ''__:'' @ bytes event, key)] else []))"

section \<open>Properties\<close>

definition pick :: "u32 \<Rightarrow> u32 \<Rightarrow> u32" where
  "pick flags f = (if flags AND f \<noteq> 0 then f else 0)"

lemma classes_loop_append: "classes_loop f (p @ q) = classes_loop f p \<bind> (\<lambda>f. classes_loop f q)"
  by (induction p arbitrary: f) (auto split: option.splits)

lemma classes_loop_if:
  "classes_loop g (if flags AND f \<noteq> 0 then [c] else []) = Some (g OR pick flags f)" if "class_flag c = Some f"
  using that by (simp add: pick_def)

lemma pick_bit: "f = push_bit n 1 \<Longrightarrow> pick flags f = flags AND f"
proof -
  assume f: "f = push_bit n 1"
  have "flags AND f = (if bit flags n then f else 0)"
    by (rule bit_word_eqI) (auto simp: f bit_exp_iff bit_and_iff push_bit_of_1)
  then show ?thesis by (simp add: pick_def)
qed

lemma notify_bits:
  "NOTIFY_KEYSPACE = push_bit 0 1" "NOTIFY_KEYEVENT = push_bit 1 1" "NOTIFY_GENERIC = push_bit 2 1" "NOTIFY_STRING = push_bit 3 1"
  "NOTIFY_LIST = push_bit 4 1" "NOTIFY_SET = push_bit 5 1" "NOTIFY_HASH = push_bit 6 1" "NOTIFY_ZSET = push_bit 7 1"
  "NOTIFY_EXPIRED = push_bit 8 1" "NOTIFY_EVICTED = push_bit 9 1"
  by (simp_all add: notify_defs push_bit_eq_mult)

lemma class_flags:
  "class_flag CHR ''A'' = Some NOTIFY_ALL" "class_flag CHR ''g'' = Some NOTIFY_GENERIC" "class_flag CHR ''$'' = Some NOTIFY_STRING"
  "class_flag CHR ''l'' = Some NOTIFY_LIST" "class_flag CHR ''s'' = Some NOTIFY_SET" "class_flag CHR ''h'' = Some NOTIFY_HASH"
  "class_flag CHR ''z'' = Some NOTIFY_ZSET" "class_flag CHR ''x'' = Some NOTIFY_EXPIRED" "class_flag CHR ''e'' = Some NOTIFY_EVICTED"
  "class_flag CHR ''K'' = Some NOTIFY_KEYSPACE" "class_flag CHR ''E'' = Some NOTIFY_KEYEVENT"
  by (simp_all add: class_flag_def)

text \<open>The letters of a set of notification classes read back as the same classes, for all 1024
  combinations.\<close>

theorem notify_flags_roundtrip:
  "keyspaceEventsStringToFlags (keyspaceEventsFlagsToString flags) = Some (flags AND (NOTIFY_ALL OR NOTIFY_KEYSPACE OR NOTIFY_KEYEVENT))"
proof -
  have two: "classes_loop g ((if flags AND NOTIFY_KEYSPACE \<noteq> 0 then ''K'' else '''') @ (if flags AND NOTIFY_KEYEVENT \<noteq> 0 then ''E'' else ''''))
      = Some (g OR flags AND (NOTIFY_KEYSPACE OR NOTIFY_KEYEVENT))" for g
    unfolding classes_loop_append classes_loop_if [OF class_flags(10)] bind.bind_lunit classes_loop_if [OF class_flags(11)]
    by (simp only: pick_bit [OF notify_bits(1)] pick_bit [OF notify_bits(2)] or.assoc bit.conj_disj_distrib)
  show ?thesis
  proof (cases "flags AND NOTIFY_ALL = NOTIFY_ALL")
    case True
    then have "keyspaceEventsStringToFlags (keyspaceEventsFlagsToString flags) = Some (flags AND NOTIFY_ALL OR flags AND (NOTIFY_KEYSPACE OR NOTIFY_KEYEVENT))"
      using two [of NOTIFY_ALL] unfolding keyspaceEventsStringToFlags_def keyspaceEventsFlagsToString_def by (simp add: class_flags)
    then show ?thesis by (simp only: bit.conj_disj_distrib)
  next
    case False
    then show ?thesis
      unfolding keyspaceEventsStringToFlags_def keyspaceEventsFlagsToString_def if_not_P [OF False] append_assoc
        classes_loop_append [of _ "if flags AND NOTIFY_GENERIC \<noteq> 0 then ''g'' else ''''"] classes_loop_if [OF class_flags(2)] bind.bind_lunit
        classes_loop_append [of _ "if flags AND NOTIFY_STRING \<noteq> 0 then ''$'' else ''''"] classes_loop_if [OF class_flags(3)]
        classes_loop_append [of _ "if flags AND NOTIFY_LIST \<noteq> 0 then ''l'' else ''''"] classes_loop_if [OF class_flags(4)]
        classes_loop_append [of _ "if flags AND NOTIFY_SET \<noteq> 0 then ''s'' else ''''"] classes_loop_if [OF class_flags(5)]
        classes_loop_append [of _ "if flags AND NOTIFY_HASH \<noteq> 0 then ''h'' else ''''"] classes_loop_if [OF class_flags(6)]
        classes_loop_append [of _ "if flags AND NOTIFY_ZSET \<noteq> 0 then ''z'' else ''''"] classes_loop_if [OF class_flags(7)]
        classes_loop_append [of _ "if flags AND NOTIFY_EXPIRED \<noteq> 0 then ''x'' else ''''"] classes_loop_if [OF class_flags(8)]
        classes_loop_append [of _ "if flags AND NOTIFY_EVICTED \<noteq> 0 then ''e'' else ''''"] classes_loop_if [OF class_flags(9)] two
      by (simp only: pick_bit [OF notify_bits(3)] pick_bit [OF notify_bits(4)] pick_bit [OF notify_bits(5)] pick_bit [OF notify_bits(6)]
        pick_bit [OF notify_bits(7)] pick_bit [OF notify_bits(8)] pick_bit [OF notify_bits(9)] pick_bit [OF notify_bits(10)]
        or.assoc bit.conj_disj_distrib NOTIFY_ALL_def or.left_neutral)
  qed
qed

end
