(* ===== verification/Keyspace.thy ===== *)
theory Keyspace
  imports Set_Type Notify Glob
begin

text \<open>
  The keyspace, \<^verbatim>\<open>db.c\<close>, with the watched keys of \<^verbatim>\<open>multi.c\<close> that it touches. The dictionaries of a
  database are maps, which is what \<^verbatim>\<open>dict.c\<close> is proved to implement; the objects of a key are
  strings, sets, or lists, sorted sets and hashes, of which only the type matters here (the payload
  is a handle). Commands run in the context of a client, append replies to its output and return
  \<open>None\<close> when an assertion fails. The clock does not move during a command. Cluster mode, the LRU
  clock and saving to disk are left out.
\<close>

type_synonym key = "u8 list"

datatype robj = StringObj sobj | SetObj setobj | ListObj nat | ZsetObj nat | HashObj nat

datatype reply =
    Status string | Err string | IntReply int | Bulk "u8 list" | NullBulk | NullMultiBulk | MultiBulkLen nat

record redisDb =
  db_dict :: "key \<rightharpoonup> robj"
  db_expires :: "key \<rightharpoonup> int"
  db_watched :: "key \<rightharpoonup> nat list"
  db_blocking :: "key set"
  db_ready :: "key set"

record client =
  cl_db :: nat
  cl_multi :: bool
  cl_dirty_cas :: bool
  cl_dirty_exec :: bool
  cl_argv :: "u8 list list"
  cl_queue :: "u8 list list list"
  cl_watched :: "(nat \<times> key) list"
  cl_out :: "reply list"

record server =
  sv_dbs :: "redisDb list"
  sv_clients :: "nat \<Rightarrow> client"
  sv_client_ids :: "nat list"
  sv_ready_keys :: "(nat \<times> key) list"
  sv_dirty :: int
  sv_now :: int
  sv_lua :: "int option"
  sv_loading :: bool
  sv_slave :: bool
  sv_hits :: nat
  sv_misses :: nat
  sv_expired :: nat
  sv_notify :: u32
  sv_published :: "(u8 list \<times> u8 list) list"
  sv_propagated :: "(nat \<times> u8 list list) list"
  sv_env :: set_env

abbreviation get_db :: "nat \<Rightarrow> server \<Rightarrow> redisDb" where
  "get_db i s \<equiv> sv_dbs s ! i"

definition upd_db :: "nat \<Rightarrow> (redisDb \<Rightarrow> redisDb) \<Rightarrow> server \<Rightarrow> server" where
  "upd_db i f s = s\<lparr>sv_dbs := (sv_dbs s)[i := f (get_db i s)]\<rparr>"

definition upd_client :: "nat \<Rightarrow> (client \<Rightarrow> client) \<Rightarrow> server \<Rightarrow> server" where
  "upd_client c f s = s\<lparr>sv_clients := (sv_clients s)(c := f (sv_clients s c))\<rparr>"

section \<open>Replies\<close>

definition addReply :: "nat \<Rightarrow> reply \<Rightarrow> server \<Rightarrow> server" where
  "addReply c r = upd_client c (\<lambda>cl. cl\<lparr>cl_out := cl_out cl @ [r]\<rparr>)"

definition addReplyError :: "nat \<Rightarrow> string \<Rightarrow> server \<Rightarrow> server" where
  "addReplyError c err = addReply c (Err (''ERR '' @ err))"

text \<open>A formatted error; line breaks would end the reply early.\<close>

definition addReplyErrorFormat :: "nat \<Rightarrow> string \<Rightarrow> server \<Rightarrow> server" where
  "addReplyErrorFormat c err = addReplyError c (map (\<lambda>x. if x = CHR 0x0D \<or> x = CHR 0x0A then CHR '' '' else x) err)"

definition wrongtypeerr :: reply where
  "wrongtypeerr = Err ''WRONGTYPE Operation against a key holding the wrong kind of value''"

definition syntaxerr :: reply where
  "syntaxerr = Err ''ERR syntax error''"

definition nokeyerr :: reply where
  "nokeyerr = Err ''ERR no such key''"

definition sameobjecterr :: reply where
  "sameobjecterr = Err ''ERR source and destination objects are the same''"

definition outofrangeerr :: reply where
  "outofrangeerr = Err ''ERR index out of range''"

definition notifyKeyspaceEvent :: "u32 \<Rightarrow> string \<Rightarrow> key \<Rightarrow> nat \<Rightarrow> server \<Rightarrow> server" where
  "notifyKeyspaceEvent type event key i s =
     s\<lparr>sv_published := sv_published s @ publish_event (sv_notify s) type event key i\<rparr>"

text \<open>Numeric arguments: \<open>Inl\<close> is the state after the error reply.\<close>

definition getLongLongFromObjectOrReply :: "nat \<Rightarrow> sobj option \<Rightarrow> string option \<Rightarrow> server \<Rightarrow> server + int" where
  "getLongLongFromObjectOrReply c o1 msg s =
     (case getLongLongFromObject o1 of
        None \<Rightarrow> Inl (addReplyError c (case msg of Some m \<Rightarrow> m | None \<Rightarrow> ''value is not an integer or out of range'') s)
      | Some v \<Rightarrow> Inr v)"

definition getLongFromObjectOrReply :: "nat \<Rightarrow> sobj option \<Rightarrow> string option \<Rightarrow> server \<Rightarrow> server + int" where
  "getLongFromObjectOrReply c o1 msg s =
     (case getLongLongFromObjectOrReply c o1 msg s of
        Inl s' \<Rightarrow> Inl s'
      | Inr v \<Rightarrow>
          if v < - (2 ^ 63) \<or> v > 2 ^ 63 - 1
          then Inl (addReplyError c (case msg of Some m \<Rightarrow> m | None \<Rightarrow> ''value is out of range'') s)
          else Inr v)"

section \<open>Watched keys\<close>

definition mark_dirty :: "nat list \<Rightarrow> server \<Rightarrow> server" where
  "mark_dirty cs s = fold (\<lambda>c. upd_client c (\<lambda>cl. cl\<lparr>cl_dirty_cas := True\<rparr>)) cs s"

definition touchWatchedKey :: "nat \<Rightarrow> key \<Rightarrow> server \<Rightarrow> server" where
  "touchWatchedKey i key s = (case db_watched (get_db i s) key of None \<Rightarrow> s | Some clients \<Rightarrow> mark_dirty clients s)"

definition flush_hits :: "nat option \<Rightarrow> server \<Rightarrow> nat \<Rightarrow> bool" where
  "flush_hits dbid s c \<longleftrightarrow>
     list_ex (\<lambda>(i, k). (dbid = None \<or> dbid = Some i) \<and> db_dict (get_db i s) k \<noteq> None) (cl_watched (sv_clients s c))"

text \<open>\<open>None\<close> stands for the database \<open>-1\<close>, all databases.\<close>

definition touchWatchedKeysOnFlush :: "nat option \<Rightarrow> server \<Rightarrow> server" where
  "touchWatchedKeysOnFlush dbid s = mark_dirty (filter (flush_hits dbid s) (sv_client_ids s)) s"

definition signalModifiedKey :: "nat \<Rightarrow> key \<Rightarrow> server \<Rightarrow> server" where
  "signalModifiedKey i key = touchWatchedKey i key"

definition signalFlushedDb :: "nat option \<Rightarrow> server \<Rightarrow> server" where
  "signalFlushedDb dbid = touchWatchedKeysOnFlush dbid"

definition signalListAsReady :: "nat \<Rightarrow> key \<Rightarrow> server \<Rightarrow> server" where
  "signalListAsReady i key s =
     (if key \<notin> db_blocking (get_db i s) then s
      else if key \<in> db_ready (get_db i s) then s
      else upd_db i (\<lambda>db. db\<lparr>db_ready := insert key (db_ready db)\<rparr>) (s\<lparr>sv_ready_keys := sv_ready_keys s @ [(i, key)]\<rparr>))"

section \<open>Access to the keyspace\<close>

definition lookupKey :: "nat \<Rightarrow> key \<Rightarrow> server \<Rightarrow> robj option" where
  "lookupKey i key s = db_dict (get_db i s) key"

definition dbExists :: "nat \<Rightarrow> key \<Rightarrow> server \<Rightarrow> bool" where
  "dbExists i key s \<longleftrightarrow> db_dict (get_db i s) key \<noteq> None"

definition dbDelete :: "nat \<Rightarrow> key \<Rightarrow> server \<Rightarrow> server \<times> bool" where
  "dbDelete i key s =
     (upd_db i (\<lambda>db. db\<lparr>db_expires := (db_expires db)(key := None), db_dict := (db_dict db)(key := None)\<rparr>) s, dbExists i key s)"

definition removeExpire :: "nat \<Rightarrow> key \<Rightarrow> server \<Rightarrow> (server \<times> bool) option" where
  "removeExpire i key s =
     (if dbExists i key s
      then Some (upd_db i (\<lambda>db. db\<lparr>db_expires := (db_expires db)(key := None)\<rparr>) s, db_expires (get_db i s) key \<noteq> None)
      else None)"

definition setExpire :: "nat \<Rightarrow> key \<Rightarrow> int \<Rightarrow> server \<Rightarrow> server option" where
  "setExpire i key when1 s =
     (if dbExists i key s then Some (upd_db i (\<lambda>db. db\<lparr>db_expires := (db_expires db)(key \<mapsto> when1)\<rparr>) s) else None)"

definition getExpire :: "nat \<Rightarrow> key \<Rightarrow> server \<Rightarrow> int option" where
  "getExpire i key s =
     (case db_expires (get_db i s) key of
        None \<Rightarrow> Some (- 1)
      | Some when1 \<Rightarrow> if dbExists i key s then Some when1 else None)"

definition propagateExpire :: "nat \<Rightarrow> key \<Rightarrow> server \<Rightarrow> server" where
  "propagateExpire i key s = s\<lparr>sv_propagated := sv_propagated s @ [(i, [bytes ''DEL'', key])]\<rparr>"

definition expireIfNeeded :: "nat \<Rightarrow> key \<Rightarrow> server \<Rightarrow> (server \<times> bool) option" where
  "expireIfNeeded i key s =
     do { when1 \<leftarrow> getExpire i key s;
          if when1 < 0 then Some (s, False)
          else if sv_loading s then Some (s, False)
          else
            let now = (case sv_lua s of Some t \<Rightarrow> t | None \<Rightarrow> sv_now s)
            in if sv_slave s then Some (s, now > when1)
               else if now \<le> when1 then Some (s, False)
               else
                 let s1 = s\<lparr>sv_expired := sv_expired s + 1\<rparr>;
                     s2 = propagateExpire i key s1;
                     s3 = notifyKeyspaceEvent NOTIFY_EXPIRED ''expired'' key i s2
                 in Some (dbDelete i key s3) }"

definition lookupKeyRead :: "nat \<Rightarrow> key \<Rightarrow> server \<Rightarrow> (server \<times> robj option) option" where
  "lookupKeyRead i key s =
     do { (s1, _) \<leftarrow> expireIfNeeded i key s;
          let val = lookupKey i key s1 in
          Some (if val = None then s1\<lparr>sv_misses := sv_misses s1 + 1\<rparr> else s1\<lparr>sv_hits := sv_hits s1 + 1\<rparr>, val) }"

definition lookupKeyWrite :: "nat \<Rightarrow> key \<Rightarrow> server \<Rightarrow> (server \<times> robj option) option" where
  "lookupKeyWrite i key s = do { (s1, _) \<leftarrow> expireIfNeeded i key s; Some (s1, lookupKey i key s1) }"

definition lookupKeyReadOrReply :: "nat \<Rightarrow> key \<Rightarrow> reply \<Rightarrow> server \<Rightarrow> (server \<times> robj option) option" where
  "lookupKeyReadOrReply c key reply s =
     do { (s1, val) \<leftarrow> lookupKeyRead (cl_db (sv_clients s c)) key s;
          Some (if val = None then addReply c reply s1 else s1, val) }"

definition lookupKeyWriteOrReply :: "nat \<Rightarrow> key \<Rightarrow> reply \<Rightarrow> server \<Rightarrow> (server \<times> robj option) option" where
  "lookupKeyWriteOrReply c key reply s =
     do { (s1, val) \<leftarrow> lookupKeyWrite (cl_db (sv_clients s c)) key s;
          Some (if val = None then addReply c reply s1 else s1, val) }"

fun is_list :: "robj \<Rightarrow> bool" where
  "is_list (ListObj n) = True"
| "is_list _ = False"

definition put_key :: "nat \<Rightarrow> key \<Rightarrow> robj \<Rightarrow> server \<Rightarrow> server" where
  "put_key i key val = upd_db i (\<lambda>db. db\<lparr>db_dict := (db_dict db)(key \<mapsto> val)\<rparr>)"

definition dbAdd :: "nat \<Rightarrow> key \<Rightarrow> robj \<Rightarrow> server \<Rightarrow> server option" where
  "dbAdd i key val s =
     (if dbExists i key s then None
      else let s1 = put_key i key val s in Some (if is_list val then signalListAsReady i key s1 else s1))"

definition dbOverwrite :: "nat \<Rightarrow> key \<Rightarrow> robj \<Rightarrow> server \<Rightarrow> server option" where
  "dbOverwrite i key val s = (if dbExists i key s then Some (put_key i key val s) else None)"

definition setKey :: "nat \<Rightarrow> key \<Rightarrow> robj \<Rightarrow> server \<Rightarrow> server option" where
  "setKey i key val s =
     do { (s1, old) \<leftarrow> lookupKeyWrite i key s;
          s2 \<leftarrow> (if old = None then dbAdd i key val s1 else dbOverwrite i key val s1);
          (s3, _) \<leftarrow> removeExpire i key s2;
          Some (signalModifiedKey i key s3) }"

text \<open>The reference count decides only whether the object is copied; its content is the same.\<close>

definition dbUnshareStringValue :: "nat \<Rightarrow> key \<Rightarrow> sobj \<Rightarrow> server \<Rightarrow> (server \<times> u8 list) option" where
  "dbUnshareStringValue i key o1 s =
     (let s1 = str_bytes (getDecodedObject o1)
      in do { s2 \<leftarrow> dbOverwrite i key (StringObj (createRawStringObject s1)) s; Some (s2, s1) })"

definition selectDb :: "nat \<Rightarrow> int \<Rightarrow> server \<Rightarrow> server option" where
  "selectDb c id1 s =
     (if id1 < 0 \<or> id1 \<ge> int (length (sv_dbs s)) then None else Some (upd_client c (\<lambda>cl. cl\<lparr>cl_db := nat id1\<rparr>) s))"

definition clear_db :: "redisDb \<Rightarrow> redisDb" where
  "clear_db db = db\<lparr>db_dict := Map.empty, db_expires := Map.empty\<rparr>"

definition emptyDb :: "server \<Rightarrow> server \<times> nat" where
  "emptyDb s = (s\<lparr>sv_dbs := map clear_db (sv_dbs s)\<rparr>, sum_list (map (\<lambda>db. card (dom (db_dict db))) (sv_dbs s)))"

end
