(* ===== verification/Db_Commands.thy ===== *)
theory Db_Commands
  imports Keyspace
begin

text \<open>
  The commands of \<^verbatim>\<open>db.c\<close> that work on keys of any type. Arithmetic on times wraps at 64 bits. A command
  takes the client it runs for and the argument vector, whose length the command table has checked.
\<close>

abbreviation cur_db :: "nat \<Rightarrow> server \<Rightarrow> nat" where
  "cur_db c s \<equiv> cl_db (sv_clients s c)"

abbreviation arg_obj :: "u8 list \<Rightarrow> sobj option" where
  "arg_obj a \<equiv> Some (createStringObject a)"

definition add_dirty :: "int \<Rightarrow> server \<Rightarrow> server" where
  "add_dirty n s = s\<lparr>sv_dirty := sv_dirty s + n\<rparr>"

definition ll_wrap :: "int \<Rightarrow> int" where
  "ll_wrap v = sign_extend 8 v"

text \<open>Division in C rounds towards zero.\<close>

definition c_quot :: "int \<Rightarrow> int \<Rightarrow> int" where
  "c_quot a b = (if a < 0 then - (- a div b) else a div b)"

definition rewriteClientCommandVector :: "nat \<Rightarrow> u8 list list \<Rightarrow> server \<Rightarrow> server" where
  "rewriteClientCommandVector c argv = upd_client c (\<lambda>cl. cl\<lparr>cl_argv := argv\<rparr>)"

section \<open>Deletion, existence, selection\<close>

definition flushdbCommand :: "nat \<Rightarrow> u8 list list \<Rightarrow> server \<Rightarrow> server option" where
  "flushdbCommand c argv s =
     (let i = cur_db c s;
          s1 = add_dirty (int (card (dom (db_dict (get_db i s))))) s;
          s2 = signalFlushedDb (Some i) s1;
          s3 = upd_db i clear_db s2
      in Some (addReply c (Status ''OK'') s3))"

definition flushallCommand :: "nat \<Rightarrow> u8 list list \<Rightarrow> server \<Rightarrow> server option" where
  "flushallCommand c argv s =
     (let s1 = signalFlushedDb None s;
          (s2, removed) = emptyDb s1;
          s3 = add_dirty (int removed) s2;
          s4 = addReply c (Status ''OK'') s3
      in Some (add_dirty 1 s4))"

fun del_loop :: "nat \<Rightarrow> key list \<Rightarrow> nat \<Rightarrow> server \<Rightarrow> (server \<times> nat) option" where
  "del_loop i [] deleted s = Some (s, deleted)"
| "del_loop i (k # ks) deleted s =
     do { (s1, _) \<leftarrow> expireIfNeeded i k s;
          let (s2, gone) = dbDelete i k s1 in
          if gone then
            del_loop i ks (deleted + 1) (add_dirty 1 (notifyKeyspaceEvent NOTIFY_GENERIC ''del'' k i (signalModifiedKey i k s2)))
          else del_loop i ks deleted s2 }"

definition delCommand :: "nat \<Rightarrow> u8 list list \<Rightarrow> server \<Rightarrow> server option" where
  "delCommand c argv s =
     do { (s1, deleted) \<leftarrow> del_loop (cur_db c s) (tl argv) 0 s; Some (addReply c (IntReply (int deleted)) s1) }"

definition existsCommand :: "nat \<Rightarrow> u8 list list \<Rightarrow> server \<Rightarrow> server option" where
  "existsCommand c argv s =
     do { (s1, _) \<leftarrow> expireIfNeeded (cur_db c s) (argv ! 1) s;
          Some (addReply c (IntReply (if dbExists (cur_db c s) (argv ! 1) s1 then 1 else 0)) s1) }"

text \<open>The \<^verbatim>\<open>long\<close> that was read is passed as an \<^verbatim>\<open>int\<close>.\<close>

definition selectCommand :: "nat \<Rightarrow> u8 list list \<Rightarrow> server \<Rightarrow> server option" where
  "selectCommand c argv s =
     (case getLongFromObjectOrReply c (arg_obj (argv ! 1)) (Some ''invalid DB index'') s of
        Inl s1 \<Rightarrow> Some s1
      | Inr id1 \<Rightarrow>
          (case selectDb c (sign_extend 4 id1) s of
             None \<Rightarrow> Some (addReplyError c ''invalid DB index'' s)
           | Some s1 \<Rightarrow> Some (addReply c (Status ''OK'') s1)))"

definition dbsizeCommand :: "nat \<Rightarrow> u8 list list \<Rightarrow> server \<Rightarrow> server option" where
  "dbsizeCommand c argv s = Some (addReply c (IntReply (int (card (dom (db_dict (get_db (cur_db c s) s)))))) s)"

text \<open>\<open>order\<close> is the order in which the iterator returns the keys; \<open>emit\<close> collects the keys that match.\<close>

fun keys_loop :: "nat \<Rightarrow> u8 list \<Rightarrow> bool \<Rightarrow> key list \<Rightarrow> key list \<Rightarrow> server \<Rightarrow> (server \<times> key list) option" where
  "keys_loop i pattern allkeys [] emit s = Some (s, emit)"
| "keys_loop i pattern allkeys (k # order) emit s =
     do { m \<leftarrow> (if allkeys then Some True
                else stringmatchlen (pattern @ [0]) 0 (int (length pattern)) (k @ [0]) 0 (int (length k)) False);
          if m then
            do { (s1, gone) \<leftarrow> expireIfNeeded i k s;
                 keys_loop i pattern allkeys order (if gone then emit else emit @ [k]) s1 }
          else keys_loop i pattern allkeys order emit s }"

definition keysCommand :: "key list \<Rightarrow> nat \<Rightarrow> u8 list list \<Rightarrow> server \<Rightarrow> server option" where
  "keysCommand order c argv s =
     (let pattern = argv ! 1; allkeys = (take 2 (pattern @ [0]) = [ch CHR ''*'', 0])
      in do { (s1, ks) \<leftarrow> keys_loop (cur_db c s) pattern allkeys order [] s;
              Some (fold (\<lambda>k. addReply c (Bulk k)) ks (addReply c (MultiBulkLen (length ks)) s1)) })"

fun type_name :: "robj option \<Rightarrow> string" where
  "type_name None = ''none''"
| "type_name (Some (StringObj _)) = ''string''"
| "type_name (Some (ListObj _)) = ''list''"
| "type_name (Some (SetObj _)) = ''set''"
| "type_name (Some (ZsetObj _)) = ''zset''"
| "type_name (Some (HashObj _)) = ''hash''"

definition typeCommand :: "nat \<Rightarrow> u8 list list \<Rightarrow> server \<Rightarrow> server option" where
  "typeCommand c argv s =
     do { (s1, o1) \<leftarrow> lookupKeyRead (cur_db c s) (argv ! 1) s; Some (addReply c (Status (type_name o1)) s1) }"

section \<open>Renaming and moving\<close>

definition renameGenericCommand :: "bool \<Rightarrow> nat \<Rightarrow> u8 list list \<Rightarrow> server \<Rightarrow> server option" where
  "renameGenericCommand nx c argv s =
     (let i = cur_db c s; src = argv ! 1; dst = argv ! 2
      in if src = dst then Some (addReply c sameobjecterr s)
         else do {
           (s1, o1) \<leftarrow> lookupKeyWriteOrReply c src nokeyerr s;
           (case o1 of
              None \<Rightarrow> Some s1
            | Some val \<Rightarrow>
                do { expire \<leftarrow> getExpire i src s1;
                     (s2, o2) \<leftarrow> lookupKeyWrite i dst s1;
                     if o2 \<noteq> None \<and> nx then Some (addReply c (IntReply 0) s2)
                     else
                       let s3 = (if o2 \<noteq> None then fst (dbDelete i dst s2) else s2)
                       in do { s4 \<leftarrow> dbAdd i dst val s3;
                               s5 \<leftarrow> (if expire \<noteq> - 1 then setExpire i dst expire s4 else Some s4);
                               let s6 = fst (dbDelete i src s5);
                                   s7 = signalModifiedKey i dst (signalModifiedKey i src s6);
                                   s8 = notifyKeyspaceEvent NOTIFY_GENERIC ''rename_from'' src i s7;
                                   s9 = notifyKeyspaceEvent NOTIFY_GENERIC ''rename_to'' dst i s8
                               in Some (addReply c (if nx then IntReply 1 else Status ''OK'') (add_dirty 1 s9)) } }) })"

definition renameCommand :: "nat \<Rightarrow> u8 list list \<Rightarrow> server \<Rightarrow> server option" where
  "renameCommand = renameGenericCommand False"

definition renamenxCommand :: "nat \<Rightarrow> u8 list list \<Rightarrow> server \<Rightarrow> server option" where
  "renamenxCommand = renameGenericCommand True"

text \<open>The target database is found by selecting it for the client and going back.\<close>

definition moveCommand :: "nat \<Rightarrow> u8 list list \<Rightarrow> server \<Rightarrow> server option" where
  "moveCommand c argv s =
     (let src = cur_db c s; key = argv ! 1
      in case getLongLongFromObject (arg_obj (argv ! 2)) of
           None \<Rightarrow> Some (addReply c outofrangeerr s)
         | Some dbid \<Rightarrow>
             if dbid < - (2 ^ 31) \<or> dbid > 2 ^ 31 - 1 \<or> selectDb c dbid s = None
             then Some (addReply c outofrangeerr s)
             else
               let dst = nat dbid
               in if src = dst then Some (addReply c sameobjecterr s)
                  else do {
                    (s1, o1) \<leftarrow> lookupKeyWrite src key s;
                    (case o1 of
                       None \<Rightarrow> Some (addReply c (IntReply 0) s1)
                     | Some val \<Rightarrow>
                         do { (s2, o2) \<leftarrow> lookupKeyWrite dst key s1;
                              if o2 \<noteq> None then Some (addReply c (IntReply 0) s2)
                              else do { s3 \<leftarrow> dbAdd dst key val s2;
                                        let s4 = fst (dbDelete src key s3) in
                                        Some (addReply c (IntReply 1) (add_dirty 1 s4)) } }) })"

section \<open>Expiration\<close>

definition expireGenericCommand :: "int \<Rightarrow> bool \<Rightarrow> nat \<Rightarrow> u8 list list \<Rightarrow> server \<Rightarrow> server option" where
  "expireGenericCommand basetime seconds c argv s =
     (let i = cur_db c s; key = argv ! 1
      in case getLongLongFromObjectOrReply c (arg_obj (argv ! 2)) None s of
           Inl s1 \<Rightarrow> Some s1
         | Inr v \<Rightarrow>
             let w = (if seconds then ll_wrap (v * 1000) else v);
                 when1 = ll_wrap (w + basetime)
             in do {
               (s1, o1) \<leftarrow> lookupKeyRead i key s;
               if o1 = None then Some (addReply c (IntReply 0) s1)
               else if when1 \<le> sv_now s1 \<and> \<not> sv_loading s1 \<and> \<not> sv_slave s1 then
                 let (s2, gone) = dbDelete i key s1
                 in if \<not> gone then None
                    else
                      let s3 = rewriteClientCommandVector c [bytes ''DEL'', key] (add_dirty 1 s2);
                          s4 = notifyKeyspaceEvent NOTIFY_GENERIC ''del'' key i (signalModifiedKey i key s3)
                      in Some (addReply c (IntReply 1) s4)
               else
                 do { s2 \<leftarrow> setExpire i key when1 s1;
                      let s3 = signalModifiedKey i key (addReply c (IntReply 1) s2);
                          s4 = notifyKeyspaceEvent NOTIFY_GENERIC ''expire'' key i s3
                      in Some (add_dirty 1 s4) } })"

definition expireCommand :: "nat \<Rightarrow> u8 list list \<Rightarrow> server \<Rightarrow> server option" where
  "expireCommand c argv s = expireGenericCommand (sv_now s) True c argv s"

definition expireatCommand :: "nat \<Rightarrow> u8 list list \<Rightarrow> server \<Rightarrow> server option" where
  "expireatCommand c argv s = expireGenericCommand 0 True c argv s"

definition pexpireCommand :: "nat \<Rightarrow> u8 list list \<Rightarrow> server \<Rightarrow> server option" where
  "pexpireCommand c argv s = expireGenericCommand (sv_now s) False c argv s"

definition pexpireatCommand :: "nat \<Rightarrow> u8 list list \<Rightarrow> server \<Rightarrow> server option" where
  "pexpireatCommand c argv s = expireGenericCommand 0 False c argv s"

definition ttlGenericCommand :: "bool \<Rightarrow> nat \<Rightarrow> u8 list list \<Rightarrow> server \<Rightarrow> server option" where
  "ttlGenericCommand output_ms c argv s =
     (let i = cur_db c s
      in do {
        (s1, o1) \<leftarrow> lookupKeyRead i (argv ! 1) s;
        if o1 = None then Some (addReply c (IntReply (- 2)) s1)
        else do {
          expire \<leftarrow> getExpire i (argv ! 1) s1;
          let ttl = (if expire \<noteq> - 1 then let t = ll_wrap (expire - sv_now s1) in if t < 0 then 0 else t else - 1)
          in Some (addReply c (IntReply (if ttl = - 1 then - 1 else if output_ms then ttl else c_quot (ll_wrap (ttl + 500)) 1000)) s1) } })"

definition ttlCommand :: "nat \<Rightarrow> u8 list list \<Rightarrow> server \<Rightarrow> server option" where
  "ttlCommand = ttlGenericCommand False"

definition pttlCommand :: "nat \<Rightarrow> u8 list list \<Rightarrow> server \<Rightarrow> server option" where
  "pttlCommand = ttlGenericCommand True"

definition persistCommand :: "nat \<Rightarrow> u8 list list \<Rightarrow> server \<Rightarrow> server option" where
  "persistCommand c argv s =
     (let i = cur_db c s
      in if \<not> dbExists i (argv ! 1) s then Some (addReply c (IntReply 0) s)
         else do {
           (s1, removed) \<leftarrow> removeExpire i (argv ! 1) s;
           if removed then Some (add_dirty 1 (addReply c (IntReply 1) s1)) else Some (addReply c (IntReply 0) s1) })"

end
