(* ===== verification/T_String.thy ===== *)
theory T_String
  imports Db_Commands
begin

text \<open>
  The string commands, \<^verbatim>\<open>t_string.c\<close>. Arithmetic on \<^verbatim>\<open>long long\<close> wraps at 64 bits. \<^verbatim>\<open>INCRBYFLOAT\<close>, which
  computes with \<^verbatim>\<open>long double\<close>, is left out.
\<close>

section \<open>SET and GET\<close>

definition checkStringLength :: "nat \<Rightarrow> int \<Rightarrow> server \<Rightarrow> server option" where
  "checkStringLength c sz s =
     (if sz > 512 * 1024 * 1024 then Some (addReplyError c ''string exceeds maximum allowed size (512MB)'' s) else None)"

text \<open>The test of \<^verbatim>\<open>NX\<close> and \<^verbatim>\<open>XX\<close>.\<close>

definition set_aborts :: "bool \<Rightarrow> bool \<Rightarrow> nat \<Rightarrow> key \<Rightarrow> server \<Rightarrow> (server \<times> bool) option" where
  "set_aborts nx xx i key s =
     do { (s1, a) \<leftarrow> (if nx then do { (s', o1) \<leftarrow> lookupKeyWrite i key s; Some (s', o1 \<noteq> None) } else Some (s, False));
          if a then Some (s1, True)
          else if xx then do { (s', o1) \<leftarrow> lookupKeyWrite i key s1; Some (s', o1 = None) }
          else Some (s1, False) }"

definition setGenericCommand ::
  "string \<Rightarrow> bool \<Rightarrow> bool \<Rightarrow> key \<Rightarrow> sobj \<Rightarrow> u8 list option \<Rightarrow> bool \<Rightarrow> reply option \<Rightarrow> reply option \<Rightarrow> nat \<Rightarrow> server \<Rightarrow> server option" where
  "setGenericCommand name nx xx key val expire seconds ok_reply abort_reply c s =
     (let i = cur_db c s;
          ms = (case expire of None \<Rightarrow> Inr 0 | Some e \<Rightarrow> getLongLongFromObjectOrReply c (arg_obj e) None s)
      in case ms of
           Inl s1 \<Rightarrow> Some s1
         | Inr m \<Rightarrow>
             if expire \<noteq> None \<and> m \<le> 0 then Some (addReplyError c (''invalid expire time in '' @ name) s)
             else
               let milliseconds = (if expire \<noteq> None \<and> seconds then ll_wrap (m * 1000) else m)
               in do {
                 (s1, aborts) \<leftarrow> set_aborts nx xx i key s;
                 if aborts then Some (addReply c (case abort_reply of Some r \<Rightarrow> r | None \<Rightarrow> NullBulk) s1)
                 else do {
                   s2 \<leftarrow> setKey i key (StringObj val) s1;
                   let s3 = add_dirty 1 s2 in
                   do { s4 \<leftarrow> (if expire \<noteq> None then setExpire i key (ll_wrap (sv_now s3 + milliseconds)) s3 else Some s3);
                        let s5 = notifyKeyspaceEvent NOTIFY_STRING ''set'' key i s4;
                            s6 = (if expire \<noteq> None then notifyKeyspaceEvent NOTIFY_GENERIC ''expire'' key i s5 else s5)
                        in Some (addReply c (case ok_reply of Some r \<Rightarrow> r | None \<Rightarrow> Status ''OK'') s6) } } })"

text \<open>The options are compared up to the first zero byte.\<close>

definition opt_is :: "u8 list \<Rightarrow> string \<Rightarrow> bool" where
  "opt_is a opt \<longleftrightarrow> map tolower_byte (take 3 (a @ [0])) = bytes opt @ [0]"

fun set_options ::
  "u8 list list \<Rightarrow> bool \<Rightarrow> bool \<Rightarrow> u8 list option \<Rightarrow> bool \<Rightarrow> (bool \<times> bool \<times> u8 list option \<times> bool) option" where
  "set_options [] nx xx expire seconds = Some (nx, xx, expire, seconds)"
| "set_options (a # rest) nx xx expire seconds =
     (if opt_is a ''nx'' then set_options rest True xx expire seconds
      else if opt_is a ''xx'' then set_options rest nx True expire seconds
      else case rest of
        [] \<Rightarrow> None
      | next # rest' \<Rightarrow>
          if opt_is a ''ex'' then set_options rest' nx xx (Some next) True
          else if opt_is a ''px'' then set_options rest' nx xx (Some next) False
          else None)"

definition setCommand :: "nat \<Rightarrow> u8 list list \<Rightarrow> server \<Rightarrow> server option" where
  "setCommand c argv s =
     (case set_options (drop 3 argv) False False None True of
        None \<Rightarrow> Some (addReply c syntaxerr s)
      | Some (nx, xx, expire, seconds) \<Rightarrow>
          setGenericCommand ''set'' nx xx (argv ! 1) (tryObjectEncoding (createStringObject (argv ! 2))) expire seconds None None c s)"

definition setnxCommand :: "nat \<Rightarrow> u8 list list \<Rightarrow> server \<Rightarrow> server option" where
  "setnxCommand c argv s =
     setGenericCommand ''setnx'' True False (argv ! 1) (tryObjectEncoding (createStringObject (argv ! 2))) None True
       (Some (IntReply 1)) (Some (IntReply 0)) c s"

definition setexCommand :: "nat \<Rightarrow> u8 list list \<Rightarrow> server \<Rightarrow> server option" where
  "setexCommand c argv s =
     setGenericCommand ''setex'' False False (argv ! 1) (tryObjectEncoding (createStringObject (argv ! 3))) (Some (argv ! 2)) True None None c s"

definition psetexCommand :: "nat \<Rightarrow> u8 list list \<Rightarrow> server \<Rightarrow> server option" where
  "psetexCommand c argv s =
     setGenericCommand ''psetex'' False False (argv ! 1) (tryObjectEncoding (createStringObject (argv ! 3))) (Some (argv ! 2)) False None None c s"

text \<open>The flag of the result is \<^verbatim>\<open>REDIS_OK\<close>.\<close>

definition getGenericCommand :: "nat \<Rightarrow> u8 list list \<Rightarrow> server \<Rightarrow> (server \<times> bool) option" where
  "getGenericCommand c argv s =
     do { (s1, o1) \<leftarrow> lookupKeyReadOrReply c (argv ! 1) NullBulk s;
          (case o1 of
             None \<Rightarrow> Some (s1, True)
           | Some (StringObj val) \<Rightarrow> Some (addReply c (Bulk (str_bytes val)) s1, True)
           | Some _ \<Rightarrow> Some (addReply c wrongtypeerr s1, False)) }"

definition getCommand :: "nat \<Rightarrow> u8 list list \<Rightarrow> server \<Rightarrow> server option" where
  "getCommand c argv s = map_option fst (getGenericCommand c argv s)"

definition getsetCommand :: "nat \<Rightarrow> u8 list list \<Rightarrow> server \<Rightarrow> server option" where
  "getsetCommand c argv s =
     do { (s1, ok) \<leftarrow> getGenericCommand c argv s;
          if \<not> ok then Some s1
          else do {
            s2 \<leftarrow> setKey (cur_db c s) (argv ! 1) (StringObj (tryObjectEncoding (createStringObject (argv ! 2)))) s1;
            Some (add_dirty 1 (notifyKeyspaceEvent NOTIFY_STRING ''set'' (argv ! 1) (cur_db c s) s2)) } }"

section \<open>Ranges\<close>

text \<open>\<^verbatim>\<open>sdsgrowzero\<close> and \<^verbatim>\<open>memcpy\<close>; no allocator provides half of the address space, where \<^verbatim>\<open>zmalloc\<close> aborts.\<close>

definition overwrite_at :: "u8 list \<Rightarrow> nat \<Rightarrow> u8 list \<Rightarrow> u8 list option" where
  "overwrite_at str offset value =
     (if offset + length value \<ge> 2 ^ 63 then None
      else
        let grown = str @ replicate (offset + length value - length str) 0
        in Some (take offset grown @ value @ drop (offset + length value) grown))"

definition setrangeCommand :: "nat \<Rightarrow> u8 list list \<Rightarrow> server \<Rightarrow> server option" where
  "setrangeCommand c argv s =
     (let i = cur_db c s; key = argv ! 1; value = argv ! 3;
          store = (\<lambda>str offset s.
            do { str' \<leftarrow> overwrite_at str (nat offset) value;
                 s1 \<leftarrow> dbOverwrite i key (StringObj (Raw str')) s;
                 let s2 = notifyKeyspaceEvent NOTIFY_STRING ''setrange'' key i (signalModifiedKey i key s1)
                 in Some (addReply c (IntReply (int (length str'))) (add_dirty 1 s2)) })
      in case getLongFromObjectOrReply c (arg_obj (argv ! 2)) None s of
           Inl s1 \<Rightarrow> Some s1
         | Inr offset \<Rightarrow>
             if offset < 0 then Some (addReplyError c ''offset is out of range'' s)
             else do {
               (s1, o1) \<leftarrow> lookupKeyWrite i key s;
               (case o1 of
                  None \<Rightarrow>
                    if value = [] then Some (addReply c (IntReply 0) s1)
                    else (case checkStringLength c (ll_wrap (offset + int (length value))) s1 of
                       Some s2 \<Rightarrow> Some s2
                     | None \<Rightarrow> do { s2 \<leftarrow> dbAdd i key (StringObj (Raw [])) s1; store [] offset s2 })
                | Some (StringObj val) \<Rightarrow>
                    if value = [] then Some (addReply c (IntReply (int (stringObjectLen val))) s1)
                    else (case checkStringLength c (ll_wrap (offset + int (length value))) s1 of
                       Some s2 \<Rightarrow> Some s2
                     | None \<Rightarrow> do { (s2, str) \<leftarrow> dbUnshareStringValue i key val s1; store str offset s2 })
                | Some _ \<Rightarrow> Some (addReply c wrongtypeerr s1)) })"

text \<open>The ends of a range, negative ones counted from the end of the string.\<close>

definition range_ends :: "int \<Rightarrow> int \<Rightarrow> int \<Rightarrow> int \<times> int" where
  "range_ends start end1 strlen1 =
     (let start = (if start < 0 then strlen1 + start else start);
          end1 = (if end1 < 0 then strlen1 + end1 else end1);
          start = (if start < 0 then 0 else start);
          end1 = (if end1 < 0 then 0 else end1);
          end1 = (if end1 \<ge> strlen1 then strlen1 - 1 else end1)
      in (start, end1))"

definition getrangeCommand :: "nat \<Rightarrow> u8 list list \<Rightarrow> server \<Rightarrow> server option" where
  "getrangeCommand c argv s =
     (case getLongLongFromObjectOrReply c (arg_obj (argv ! 2)) None s of
        Inl s1 \<Rightarrow> Some s1
      | Inr start \<Rightarrow>
          (case getLongLongFromObjectOrReply c (arg_obj (argv ! 3)) None s of
             Inl s1 \<Rightarrow> Some s1
           | Inr end1 \<Rightarrow>
               do { (s1, o1) \<leftarrow> lookupKeyReadOrReply c (argv ! 1) (Bulk []) s;
                    (case o1 of
                       None \<Rightarrow> Some s1
                     | Some (StringObj val) \<Rightarrow>
                         let str = str_bytes val; (start, end1) = range_ends start end1 (int (length str))
                         in if start > end1 \<or> str = [] then Some (addReply c (Bulk []) s1)
                            else Some (addReply c (Bulk (take (nat (end1 - start + 1)) (drop (nat start) str))) s1)
                     | Some _ \<Rightarrow> Some (addReply c wrongtypeerr s1)) }))"

section \<open>Many keys\<close>

fun mget_loop :: "nat \<Rightarrow> key list \<Rightarrow> server \<Rightarrow> server option" where
  "mget_loop c [] s = Some s"
| "mget_loop c (k # ks) s =
     do { (s1, o1) \<leftarrow> lookupKeyRead (cur_db c s) k s;
          mget_loop c ks (addReply c (case o1 of Some (StringObj val) \<Rightarrow> Bulk (str_bytes val) | _ \<Rightarrow> NullBulk) s1) }"

definition mgetCommand :: "nat \<Rightarrow> u8 list list \<Rightarrow> server \<Rightarrow> server option" where
  "mgetCommand c argv s = mget_loop c (tl argv) (addReply c (MultiBulkLen (length argv - 1)) s)"

fun mset_busy :: "nat \<Rightarrow> u8 list list \<Rightarrow> nat \<Rightarrow> server \<Rightarrow> (server \<times> nat) option" where
  "mset_busy i (k # v # rest) busykeys s =
     do { (s1, o1) \<leftarrow> lookupKeyWrite i k s; mset_busy i rest (if o1 \<noteq> None then busykeys + 1 else busykeys) s1 }"
| "mset_busy i _ busykeys s = Some (s, busykeys)"

fun mset_loop :: "nat \<Rightarrow> u8 list list \<Rightarrow> server \<Rightarrow> server option" where
  "mset_loop i (k # v # rest) s =
     do { s1 \<leftarrow> setKey i k (StringObj (tryObjectEncoding (createStringObject v))) s;
          mset_loop i rest (notifyKeyspaceEvent NOTIFY_STRING ''set'' k i s1) }"
| "mset_loop i _ s = Some s"

definition msetGenericCommand :: "bool \<Rightarrow> nat \<Rightarrow> u8 list list \<Rightarrow> server \<Rightarrow> server option" where
  "msetGenericCommand nx c argv s =
     (if length argv mod 2 = 0 then Some (addReplyError c ''wrong number of arguments for MSET'' s)
      else do {
        (s1, busykeys) \<leftarrow> (if nx then mset_busy (cur_db c s) (tl argv) 0 s else Some (s, 0));
        if busykeys \<noteq> 0 then Some (addReply c (IntReply 0) s1)
        else do {
          s2 \<leftarrow> mset_loop (cur_db c s) (tl argv) s1;
          Some (addReply c (if nx then IntReply 1 else Status ''OK'') (add_dirty (int ((length argv - 1) div 2)) s2)) } })"

definition msetCommand :: "nat \<Rightarrow> u8 list list \<Rightarrow> server \<Rightarrow> server option" where
  "msetCommand = msetGenericCommand False"

definition msetnxCommand :: "nat \<Rightarrow> u8 list list \<Rightarrow> server \<Rightarrow> server option" where
  "msetnxCommand = msetGenericCommand True"

section \<open>Counters and APPEND\<close>

definition incr_overflows :: "int \<Rightarrow> int \<Rightarrow> bool" where
  "incr_overflows incr oldvalue \<longleftrightarrow>
     (incr < 0 \<and> oldvalue < 0 \<and> incr < - (2 ^ 63) - oldvalue) \<or> (incr > 0 \<and> oldvalue > 0 \<and> incr > (2 ^ 63 - 1) - oldvalue)"

text \<open>The object is changed in place or replaced, with the same content.\<close>

definition incrDecrCommand :: "int \<Rightarrow> nat \<Rightarrow> u8 list list \<Rightarrow> server \<Rightarrow> server option" where
  "incrDecrCommand incr c argv s =
     (let i = cur_db c s; key = argv ! 1;
          go = (\<lambda>old s1.
            case getLongLongFromObjectOrReply c old None s1 of
              Inl s2 \<Rightarrow> Some s2
            | Inr oldvalue \<Rightarrow>
                if incr_overflows incr oldvalue then Some (addReplyError c ''increment or decrement would overflow'' s1)
                else
                  let value = oldvalue + incr; new = StringObj (createStringObjectFromLongLong value)
                  in do {
                    s2 \<leftarrow> (if old \<noteq> None then dbOverwrite i key new s1 else dbAdd i key new s1);
                    let s3 = notifyKeyspaceEvent NOTIFY_STRING ''incrby'' key i (signalModifiedKey i key s2)
                    in Some (addReply c (IntReply value) (add_dirty 1 s3)) })
      in do {
        (s1, o1) \<leftarrow> lookupKeyWrite i key s;
        (case o1 of
           None \<Rightarrow> go None s1
         | Some (StringObj val) \<Rightarrow> go (Some val) s1
         | Some _ \<Rightarrow> Some (addReply c wrongtypeerr s1)) })"

definition incrCommand :: "nat \<Rightarrow> u8 list list \<Rightarrow> server \<Rightarrow> server option" where
  "incrCommand = incrDecrCommand 1"

definition decrCommand :: "nat \<Rightarrow> u8 list list \<Rightarrow> server \<Rightarrow> server option" where
  "decrCommand = incrDecrCommand (- 1)"

definition incrbyCommand :: "nat \<Rightarrow> u8 list list \<Rightarrow> server \<Rightarrow> server option" where
  "incrbyCommand c argv s =
     (case getLongLongFromObjectOrReply c (arg_obj (argv ! 2)) None s of
        Inl s1 \<Rightarrow> Some s1 | Inr incr \<Rightarrow> incrDecrCommand incr c argv s)"

definition decrbyCommand :: "nat \<Rightarrow> u8 list list \<Rightarrow> server \<Rightarrow> server option" where
  "decrbyCommand c argv s =
     (case getLongLongFromObjectOrReply c (arg_obj (argv ! 2)) None s of
        Inl s1 \<Rightarrow> Some s1 | Inr incr \<Rightarrow> incrDecrCommand (ll_wrap (- incr)) c argv s)"

definition appendCommand :: "nat \<Rightarrow> u8 list list \<Rightarrow> server \<Rightarrow> server option" where
  "appendCommand c argv s =
     (let i = cur_db c s; key = argv ! 1; append1 = argv ! 2;
          finish = (\<lambda>totlen s1.
            let s2 = notifyKeyspaceEvent NOTIFY_STRING ''append'' key i (signalModifiedKey i key s1)
            in Some (addReply c (IntReply (int totlen)) (add_dirty 1 s2)))
      in do {
        (s1, o1) \<leftarrow> lookupKeyWrite i key s;
        (case o1 of
           None \<Rightarrow>
             let val = tryObjectEncoding (createStringObject append1)
             in do { s2 \<leftarrow> dbAdd i key (StringObj val) s1; finish (stringObjectLen val) s2 }
         | Some (StringObj val) \<Rightarrow>
             (case checkStringLength c (int (stringObjectLen val + length append1)) s1 of
                Some s2 \<Rightarrow> Some s2
              | None \<Rightarrow>
                  do { (s2, str) \<leftarrow> dbUnshareStringValue i key val s1;
                       s3 \<leftarrow> dbOverwrite i key (StringObj (Raw (str @ append1))) s2;
                       finish (length (str @ append1)) s3 })
         | Some _ \<Rightarrow> Some (addReply c wrongtypeerr s1)) })"

definition strlenCommand :: "nat \<Rightarrow> u8 list list \<Rightarrow> server \<Rightarrow> server option" where
  "strlenCommand c argv s =
     do { (s1, o1) \<leftarrow> lookupKeyReadOrReply c (argv ! 1) (IntReply 0) s;
          (case o1 of
             None \<Rightarrow> Some s1
           | Some (StringObj val) \<Rightarrow> Some (addReply c (IntReply (int (stringObjectLen val))) s1)
           | Some _ \<Rightarrow> Some (addReply c wrongtypeerr s1)) }"

end
