(* ===== verification/Keyspace_View.thy ===== *)
theory Keyspace_View
  imports T_String
begin

text \<open>
  What clients see of the keyspace. \<open>vis\<close> is the map of the keys that have not expired, \<open>vttl\<close> their
  times to live: the abstract state that the commands are specified on, whatever has been purged
  already. \<open>server_ok\<close> is the invariant: only existing keys have a time to live, every value is
  well-formed in its encoding, no set is empty, and clients have selected an existing database.
  The lemmas say that the primitives of \<^verbatim>\<open>db.c\<close> never run into one of their assertions, keep the
  invariant, and act on the abstract state.
\<close>

section \<open>Invariant and abstract state\<close>

fun val_ok :: "set_env \<Rightarrow> robj \<Rightarrow> bool" where
  "val_ok env (StringObj o1) = sobj_ok o1"
| "val_ok env (SetObj o1) = (set_ok env o1 \<and> set_elems o1 \<noteq> {})"
| "val_ok env _ = True"

definition db_ok :: "set_env \<Rightarrow> redisDb \<Rightarrow> bool" where
  "db_ok env db \<longleftrightarrow> dom (db_expires db) \<subseteq> dom (db_dict db) \<and> (\<forall>k v. db_dict db k = Some v \<longrightarrow> val_ok env v)"

definition server_ok :: "server \<Rightarrow> bool" where
  "server_ok s \<longleftrightarrow> (\<forall>i<length (sv_dbs s). db_ok (sv_env s) (get_db i s)) \<and> (\<forall>c. cur_db c s < length (sv_dbs s))"

definition time_of :: "server \<Rightarrow> int" where
  "time_of s = (case sv_lua s of Some t \<Rightarrow> t | None \<Rightarrow> sv_now s)"

definition expired :: "nat \<Rightarrow> server \<Rightarrow> key \<Rightarrow> bool" where
  "expired i s k \<longleftrightarrow>
     (case db_expires (get_db i s) k of
        None \<Rightarrow> False
      | Some w \<Rightarrow> 0 \<le> w \<and> \<not> sv_loading s \<and> \<not> sv_slave s \<and> w < time_of s)"

lemma time_of_cong: "sv_lua s' = sv_lua s \<Longrightarrow> sv_now s' = sv_now s \<Longrightarrow> time_of s' = time_of s"
  by (simp add: time_of_def split: option.split)

lemma expired_cong:
  "db_expires (get_db i s') k = db_expires (get_db i s) k \<Longrightarrow> sv_loading s' = sv_loading s \<Longrightarrow> sv_slave s' = sv_slave s
    \<Longrightarrow> time_of s' = time_of s \<Longrightarrow> expired i s' k = expired i s k"
  by (simp add: expired_def split: option.split)

definition vis :: "nat \<Rightarrow> server \<Rightarrow> key \<rightharpoonup> robj" where
  "vis i s k = (if expired i s k then None else db_dict (get_db i s) k)"

definition vttl :: "nat \<Rightarrow> server \<Rightarrow> key \<rightharpoonup> int" where
  "vttl i s k = (if expired i s k then None else db_expires (get_db i s) k)"

definition same_dbs :: "server \<Rightarrow> server \<Rightarrow> bool" where
  "same_dbs s s' \<longleftrightarrow> length (sv_dbs s') = length (sv_dbs s) \<and> (\<forall>i. db_watched (get_db i s') = db_watched (get_db i s))
     \<and> (\<forall>i. vis i s' = vis i s) \<and> (\<forall>i. vttl i s' = vttl i s)"

definition same_ctx :: "server \<Rightarrow> server \<Rightarrow> bool" where
  "same_ctx s s' \<longleftrightarrow> sv_clients s' = sv_clients s \<and> sv_client_ids s' = sv_client_ids s \<and> sv_now s' = sv_now s \<and> sv_lua s' = sv_lua s
     \<and> sv_loading s' = sv_loading s \<and> sv_slave s' = sv_slave s \<and> sv_notify s' = sv_notify s \<and> sv_env s' = sv_env s \<and> sv_dirty s' = sv_dirty s"

text \<open>No client is blocked on a list: no key is waited for, and none is on the list of the keys to be served.\<close>

definition unblocked :: "server \<Rightarrow> bool" where
  "unblocked s \<longleftrightarrow> sv_ready_keys s = [] \<and> (\<forall>i<length (sv_dbs s). db_blocking (get_db i s) = {})"

lemma unblocked_cong: "sv_dbs s' = sv_dbs s \<Longrightarrow> sv_ready_keys s' = sv_ready_keys s \<Longrightarrow> unblocked s' = unblocked s"
  by (simp add: unblocked_def)

text \<open>\<open>quiet s s'\<close>: only expired keys and statistics differ.\<close>

definition quiet :: "server \<Rightarrow> server \<Rightarrow> bool" where
  "quiet s s' \<longleftrightarrow> same_ctx s s' \<and> same_dbs s s' \<and> server_ok s' \<and> (unblocked s \<longrightarrow> unblocked s')"

lemma quiet_refl: "server_ok s \<Longrightarrow> quiet s s"
  by (simp add: quiet_def same_ctx_def same_dbs_def)

lemma quiet_trans: "quiet s s1 \<Longrightarrow> quiet s1 s2 \<Longrightarrow> quiet s s2"
  by (simp add: quiet_def same_ctx_def same_dbs_def)

lemma quietD:
  assumes "quiet s s'"
  shows "server_ok s'" "sv_clients s' = sv_clients s" "sv_env s' = sv_env s" "sv_now s' = sv_now s" "sv_dirty s' = sv_dirty s"
    "length (sv_dbs s') = length (sv_dbs s)" "vis i s' = vis i s" "vttl i s' = vttl i s" "db_watched (get_db i s') = db_watched (get_db i s)"
    "sv_client_ids s' = sv_client_ids s" "sv_loading s' = sv_loading s" "sv_slave s' = sv_slave s" "time_of s' = time_of s"
proof -
  show "time_of s' = time_of s" using assms by (intro time_of_cong) (simp_all add: quiet_def same_ctx_def)
qed (use assms in \<open>simp_all add: quiet_def same_ctx_def same_dbs_def\<close>)

lemma server_okD:
  assumes "server_ok s" "i < length (sv_dbs s)"
  shows "db_ok (sv_env s) (get_db i s)" "dom (db_expires (get_db i s)) \<subseteq> dom (db_dict (get_db i s))"
    "db_dict (get_db i s) k = Some v \<Longrightarrow> val_ok (sv_env s) v"
  using assms by (auto simp: server_ok_def db_ok_def)

lemma server_ok_cur: "server_ok s \<Longrightarrow> cur_db c s < length (sv_dbs s)"
  by (simp add: server_ok_def)

lemma get_db_upd: "i < length (sv_dbs s) \<Longrightarrow> get_db j (upd_db i f s) = (if j = i then f (get_db i s) else get_db j s)"
  by (simp add: upd_db_def nth_list_update)

lemma upd_db_simps [simp]:
  "length (sv_dbs (upd_db i f s)) = length (sv_dbs s)" "sv_clients (upd_db i f s) = sv_clients s" "sv_env (upd_db i f s) = sv_env s"
  "sv_now (upd_db i f s) = sv_now s" "sv_lua (upd_db i f s) = sv_lua s" "sv_loading (upd_db i f s) = sv_loading s"
  "sv_slave (upd_db i f s) = sv_slave s" "sv_dirty (upd_db i f s) = sv_dirty s" "sv_notify (upd_db i f s) = sv_notify s"
  "sv_client_ids (upd_db i f s) = sv_client_ids s" "sv_ready_keys (upd_db i f s) = sv_ready_keys s" "time_of (upd_db i f s) = time_of s"
  by (simp_all add: upd_db_def) (rule time_of_cong, simp_all)

lemma server_ok_upd:
  assumes "server_ok s" "i < length (sv_dbs s)" "db_ok (sv_env s) (f (get_db i s))"
  shows "server_ok (upd_db i f s)"
  using assms by (auto simp: server_ok_def get_db_upd)

lemma unblocked_upd:
  assumes "unblocked s" "i < length (sv_dbs s)" "db_blocking (f (get_db i s)) = db_blocking (get_db i s)"
  shows "unblocked (upd_db i f s)"
  using assms by (simp add: unblocked_def get_db_upd)

section \<open>Changes outside the databases\<close>

text \<open>\<open>outer s s'\<close>: \<open>s'\<close> has the databases and the clock of \<open>s\<close>.\<close>

definition outer :: "server \<Rightarrow> server \<Rightarrow> bool" where
  "outer s s' \<longleftrightarrow> sv_dbs s' = sv_dbs s \<and> sv_env s' = sv_env s \<and> sv_now s' = sv_now s \<and> sv_lua s' = sv_lua s
     \<and> sv_loading s' = sv_loading s \<and> sv_slave s' = sv_slave s \<and> sv_client_ids s' = sv_client_ids s
     \<and> sv_ready_keys s' = sv_ready_keys s \<and> (\<forall>c. cur_db c s' = cur_db c s)"

lemma outer_refl [simp]: "outer s s"
  by (simp add: outer_def)

lemma outer_trans: "outer s s1 \<Longrightarrow> outer s1 s2 \<Longrightarrow> outer s s2"
  by (simp add: outer_def)

lemma outerD:
  assumes "outer s s'"
  shows "server_ok s' = server_ok s" "vis i s' = vis i s" "vttl i s' = vttl i s" "sv_dbs s' = sv_dbs s" "cur_db c s' = cur_db c s"
    "expired i s' k = expired i s k" "sv_now s' = sv_now s" "time_of s' = time_of s" "sv_slave s' = sv_slave s" "sv_loading s' = sv_loading s"
    "sv_client_ids s' = sv_client_ids s" "sv_env s' = sv_env s" "unblocked s' = unblocked s"
proof -
  show t: "time_of s' = time_of s" using assms by (intro time_of_cong) (simp_all add: outer_def)
  have e: "expired i s' k = expired i s k" for i k using assms t by (intro expired_cong) (simp_all add: outer_def)
  then show "expired i s' k = expired i s k" "vis i s' = vis i s" "vttl i s' = vttl i s"
    using assms by (auto simp: outer_def vis_def vttl_def)
qed (use assms in \<open>auto simp: outer_def server_ok_def unblocked_def\<close>)

lemma outer_upd_client: "(\<And>cl. cl_db (f cl) = cl_db cl) \<Longrightarrow> outer s (upd_client c f s)"
  by (simp add: outer_def upd_client_def)

lemma outer_addReply [simp]: "outer s (addReply c r s)"
  by (simp add: addReply_def outer_upd_client)

lemma outer_addReplyError [simp]: "outer s (addReplyError c r s)"
  by (simp add: addReplyError_def)

lemma outer_notify [simp]: "outer s (notifyKeyspaceEvent t e k i s)"
  by (simp add: outer_def notifyKeyspaceEvent_def)

lemma outer_dirty [simp]: "outer s (add_dirty n s)"
  by (simp add: outer_def add_dirty_def)

lemma outer_rewrite [simp]: "outer s (rewriteClientCommandVector c argv s)"
  by (simp add: rewriteClientCommandVector_def outer_upd_client)

lemma outer_mark_dirty [simp]: "outer s (mark_dirty cs s)"
proof (induction cs arbitrary: s)
  case (Cons c cs)
  have "outer s (upd_client c (\<lambda>cl. cl\<lparr>cl_dirty_cas := True\<rparr>) s)" by (simp add: outer_upd_client)
  from outer_trans [OF this Cons] show ?case by (simp add: mark_dirty_def)
qed (simp add: mark_dirty_def)

lemma outer_touch [simp]: "outer s (touchWatchedKey i k s)"
  by (simp add: touchWatchedKey_def split: option.split)

lemma outer_signal [simp]: "outer s (signalModifiedKey i k s)" "outer s (signalFlushedDb d s)"
  by (simp_all add: signalModifiedKey_def signalFlushedDb_def touchWatchedKeysOnFlush_def)

section \<open>Purging and lookup\<close>

lemma dbDelete_purge:
  assumes "server_ok s" "i < length (sv_dbs s)"
  shows "server_ok (fst (dbDelete i k s))" "vis i (fst (dbDelete i k s)) = (vis i s)(k := None)" "vttl i (fst (dbDelete i k s)) = (vttl i s)(k := None)"
    "j \<noteq> i \<Longrightarrow> vis j (fst (dbDelete i k s)) = vis j s" "j \<noteq> i \<Longrightarrow> vttl j (fst (dbDelete i k s)) = vttl j s"
    "db_watched (get_db j (fst (dbDelete i k s))) = db_watched (get_db j s)"
    "db_dict (get_db i (fst (dbDelete i k s))) = (db_dict (get_db i s))(k := None)"
    "db_expires (get_db i (fst (dbDelete i k s))) = (db_expires (get_db i s))(k := None)"
proof -
  show "server_ok (fst (dbDelete i k s))"
    using server_okD(1) [OF assms] assms by (simp add: dbDelete_def) (rule server_ok_upd, simp_all add: db_ok_def, blast)
  have e: "expired j (fst (dbDelete i k s)) k' = (if j = i \<and> k' = k then False else expired j s k')" for j k'
    using assms(2) by (auto simp: expired_def dbDelete_def get_db_upd split: option.splits)
  show "vis i (fst (dbDelete i k s)) = (vis i s)(k := None)" "vttl i (fst (dbDelete i k s)) = (vttl i s)(k := None)"
    "j \<noteq> i \<Longrightarrow> vis j (fst (dbDelete i k s)) = vis j s" "j \<noteq> i \<Longrightarrow> vttl j (fst (dbDelete i k s)) = vttl j s"
    by (simp_all add: fun_eq_iff vis_def vttl_def e) (use assms(2) in \<open>simp_all add: dbDelete_def get_db_upd\<close>)
qed (use assms in \<open>simp_all add: dbDelete_def get_db_upd\<close>)

lemma expired_not_vis: "expired i s k \<Longrightarrow> vis i s k = None" "expired i s k \<Longrightarrow> vttl i s k = None"
  by (simp_all add: vis_def vttl_def)

lemma expireIfNeeded_spec:
  assumes "server_ok s" "i < length (sv_dbs s)"
  shows "\<exists>s' b. expireIfNeeded i k s = Some (s', b) \<and> quiet s s' \<and> db_dict (get_db i s') k = vis i s k
    \<and> db_expires (get_db i s') k = vttl i s k \<and> (\<not> sv_slave s \<longrightarrow> b = expired i s k)"
proof (cases "db_expires (get_db i s) k")
  case None
  then have "\<not> expired i s k" by (simp add: expired_def)
  then show ?thesis using None assms by (auto simp: expireIfNeeded_def getExpire_def vis_def vttl_def quiet_refl)
next
  case (Some w)
  then have "dbExists i k s" using server_okD(2) [OF assms] by (auto simp: dbExists_def)
  then have get: "getExpire i k s = Some w" by (simp add: getExpire_def Some)
  show ?thesis
  proof (cases "expired i s k")
    case False
    then show ?thesis using Some get assms
      by (auto simp: expireIfNeeded_def expired_def time_of_def vis_def vttl_def quiet_refl Let_def split: option.splits if_splits)
  next
    case True
    let ?s = "notifyKeyspaceEvent NOTIFY_EXPIRED ''expired'' k i (propagateExpire i k (s\<lparr>sv_expired := sv_expired s + 1\<rparr>))"
    have o: "outer s ?s" by (simp add: outer_def notifyKeyspaceEvent_def propagateExpire_def)
    have ctx: "same_ctx s ?s" by (simp add: same_ctx_def notifyKeyspaceEvent_def propagateExpire_def)
    have ok: "server_ok ?s" "i < length (sv_dbs ?s)" using assms outerD [OF o] by simp_all
    note d = dbDelete_purge [OF ok, where k = k]
    have eq: "expireIfNeeded i k s = Some (dbDelete i k ?s)"
      using True Some get by (auto simp: expireIfNeeded_def expired_def time_of_def Let_def split: option.splits)
    have vis: "vis j (fst (dbDelete i k ?s)) = vis j s" "vttl j (fst (dbDelete i k ?s)) = vttl j s" for j
      using d(2-5) outerD(2,3) [OF o] expired_not_vis [OF True] by (cases "j = i", auto simp: fun_upd_idem)+
    have "db_watched (get_db j (fst (dbDelete i k ?s))) = db_watched (get_db j s)" for j using d(6) outerD(4) [OF o] by simp
    moreover have "unblocked s \<longrightarrow> unblocked (fst (dbDelete i k ?s))"
      using ok(2) outerD(13) [OF o] by (simp add: dbDelete_def unblocked_upd)
    moreover have "same_ctx ?s (fst (dbDelete i k ?s))" by (simp add: same_ctx_def dbDelete_def)
    ultimately have "quiet s (fst (dbDelete i k ?s))"
      using d(1) vis ctx outerD(4) [OF o] by (auto simp: quiet_def same_ctx_def same_dbs_def dbDelete_def)
    moreover have "snd (dbDelete i k ?s)" using \<open>dbExists i k s\<close> outerD(4) [OF o] by (simp add: dbDelete_def dbExists_def)
    ultimately show ?thesis
      using eq d(7,8) True expired_not_vis [OF True] by (cases "dbDelete i k ?s") auto
  qed
qed

lemma lookupKeyWrite_spec:
  assumes "server_ok s" "i < length (sv_dbs s)"
  shows "\<exists>s'. lookupKeyWrite i k s = Some (s', vis i s k) \<and> quiet s s' \<and> db_dict (get_db i s') k = vis i s k \<and> db_expires (get_db i s') k = vttl i s k"
  using expireIfNeeded_spec [OF assms, of k] by (auto simp: lookupKeyWrite_def lookupKey_def)

lemma quiet_stats: "quiet s s' \<Longrightarrow> quiet s (s'\<lparr>sv_misses := m\<rparr>)" "quiet s s' \<Longrightarrow> quiet s (s'\<lparr>sv_hits := m\<rparr>)"
proof -
  have o: "outer s' (s'\<lparr>sv_misses := m\<rparr>)" "outer s' (s'\<lparr>sv_hits := m\<rparr>)" by (simp_all add: outer_def)
  show "quiet s s' \<Longrightarrow> quiet s (s'\<lparr>sv_misses := m\<rparr>)" "quiet s s' \<Longrightarrow> quiet s (s'\<lparr>sv_hits := m\<rparr>)"
    using outerD(1-3,13) [OF o(1)] outerD(1-3,13) [OF o(2)] by (simp_all add: quiet_def same_ctx_def same_dbs_def)
qed

lemma lookupKeyRead_spec:
  assumes "server_ok s" "i < length (sv_dbs s)"
  shows "\<exists>s'. lookupKeyRead i k s = Some (s', vis i s k) \<and> quiet s s' \<and> db_dict (get_db i s') k = vis i s k \<and> db_expires (get_db i s') k = vttl i s k"
proof -
  obtain s' b where e: "expireIfNeeded i k s = Some (s', b)" "quiet s s'" "db_dict (get_db i s') k = vis i s k" "db_expires (get_db i s') k = vttl i s k"
    using expireIfNeeded_spec [OF assms, of k] by auto
  then show ?thesis by (auto simp: lookupKeyRead_def lookupKey_def Let_def quiet_stats)
qed

lemma not_expired: "db_expires (get_db i s) k = vttl i s k \<Longrightarrow> \<not> expired i s k"
  by (auto simp: vttl_def expired_def split: option.splits if_splits)

lemma quiet_not_expired:
  assumes "quiet s s'" "db_expires (get_db i s') k = vttl i s k"
  shows "\<not> expired i s' k"
  using not_expired [where i = i and s = s' and k = k] assms(2) quietD(8) [OF assms(1), where i = i] by simp

section \<open>Effects\<close>

definition watchers :: "nat \<Rightarrow> key \<Rightarrow> server \<Rightarrow> nat set" where
  "watchers i k s = (case db_watched (get_db i s) k of None \<Rightarrow> {} | Some cs \<Rightarrow> set cs)"

text \<open>
  \<open>performs c i s s' M T K rs\<close>: from \<open>s\<close> to \<open>s'\<close> the visible keys of database \<open>i\<close> become \<open>M\<close> and their
  times to live \<open>T\<close>, the clients that watch one of the keys \<open>K\<close> are marked, client \<open>c\<close> gets the
  replies \<open>rs\<close>, the invariant holds again and nothing else that a client could see changes.
\<close>

definition performs ::
  "nat \<Rightarrow> nat \<Rightarrow> server \<Rightarrow> server \<Rightarrow> (key \<rightharpoonup> robj) \<Rightarrow> (key \<rightharpoonup> int) \<Rightarrow> key set \<Rightarrow> reply list \<Rightarrow> bool" where
  "performs c i s s' M T K rs \<longleftrightarrow>
     server_ok s' \<and> vis i s' = M \<and> vttl i s' = T \<and> (\<forall>j. j \<noteq> i \<longrightarrow> vis j s' = vis j s \<and> vttl j s' = vttl j s)
     \<and> length (sv_dbs s') = length (sv_dbs s) \<and> (\<forall>j. db_watched (get_db j s') = db_watched (get_db j s))
     \<and> sv_env s' = sv_env s \<and> sv_now s' = sv_now s \<and> sv_lua s' = sv_lua s \<and> sv_loading s' = sv_loading s \<and> sv_slave s' = sv_slave s
     \<and> sv_client_ids s' = sv_client_ids s \<and> (unblocked s \<longrightarrow> unblocked s')
     \<and> (\<forall>a. cl_db (sv_clients s' a) = cl_db (sv_clients s a) \<and> cl_multi (sv_clients s' a) = cl_multi (sv_clients s a)
          \<and> cl_queue (sv_clients s' a) = cl_queue (sv_clients s a) \<and> cl_watched (sv_clients s' a) = cl_watched (sv_clients s a)
          \<and> cl_dirty_exec (sv_clients s' a) = cl_dirty_exec (sv_clients s a)
          \<and> cl_dirty_cas (sv_clients s' a) = (cl_dirty_cas (sv_clients s a) \<or> (\<exists>k\<in>K. a \<in> watchers i k s))
          \<and> cl_out (sv_clients s' a) = cl_out (sv_clients s a) @ (if a = c then rs else []))"

lemma performsD:
  assumes "performs c i s s' M T K rs"
  shows "server_ok s'" "vis i s' = M" "vttl i s' = T" "length (sv_dbs s') = length (sv_dbs s)" "cur_db a s' = cur_db a s"
    "sv_now s' = sv_now s" "sv_loading s' = sv_loading s" "sv_slave s' = sv_slave s" "time_of s' = time_of s" "sv_env s' = sv_env s"
    "db_watched (get_db j s') = db_watched (get_db j s)" "j \<noteq> i \<Longrightarrow> vis j s' = vis j s" "j \<noteq> i \<Longrightarrow> vttl j s' = vttl j s"
    "cl_out (sv_clients s' c) = cl_out (sv_clients s c) @ rs"
proof -
  show "time_of s' = time_of s" using assms by (intro time_of_cong) (simp_all add: performs_def)
qed (use assms in \<open>simp_all add: performs_def\<close>)

lemma performs_trans:
  assumes "performs c i s s1 M T K rs" "performs c i s1 s2 M' T' K' rs'"
  shows "performs c i s s2 M' T' (K \<union> K') (rs @ rs')"
proof -
  have "watchers i k s1 = watchers i k s" for k using performsD(11) [OF assms(1)] by (simp add: watchers_def)
  then show ?thesis using assms by (auto simp: performs_def)
qed

lemma performs_quiet: "quiet s s' \<Longrightarrow> performs c i s s' (vis i s) (vttl i s) {} []"
  by (simp add: performs_def quiet_def same_ctx_def same_dbs_def)

lemma performs_outer:
  assumes "outer s s'" "server_ok s" "sv_clients s' = sv_clients s"
  shows "performs c i s s' (vis i s) (vttl i s) {} []"
  using assms(3) outerD [OF assms(1)] assms(1,2) by (simp add: performs_def outer_def)

lemma performs_addReply: "server_ok s \<Longrightarrow> performs c i s (addReply c r s) (vis i s) (vttl i s) {} [r]"
  using outerD(1-3,13) [OF outer_addReply [of s c r]] by (simp add: performs_def) (simp add: addReply_def upd_client_def)

lemma performs_notify: "server_ok s \<Longrightarrow> performs c i s (notifyKeyspaceEvent t e k j s) (vis i s) (vttl i s) {} []"
  by (rule performs_outer) (simp_all add: notifyKeyspaceEvent_def outer_def)

lemma performs_dirty: "server_ok s \<Longrightarrow> performs c i s (add_dirty n s) (vis i s) (vttl i s) {} []"
  by (rule performs_outer) (simp_all add: add_dirty_def outer_def)

lemma performs_rewrite: "server_ok s \<Longrightarrow> performs c i s (rewriteClientCommandVector a argv s) (vis i s) (vttl i s) {} []"
  using outerD(1-3,13) [OF outer_rewrite [of s a argv]] by (simp add: performs_def) (simp add: rewriteClientCommandVector_def upd_client_def)

lemma mark_dirty_clients:
  "sv_clients (mark_dirty cs s) a = (if a \<in> set cs then (sv_clients s a)\<lparr>cl_dirty_cas := True\<rparr> else sv_clients s a)"
  by (induction cs arbitrary: s) (auto simp: mark_dirty_def upd_client_def)

lemma performs_signal: "server_ok s \<Longrightarrow> performs c i s (signalModifiedKey i k s) (vis i s) (vttl i s) {k} []"
proof -
  assume ok: "server_ok s"
  have "sv_clients (signalModifiedKey i k s) a = (if a \<in> watchers i k s then (sv_clients s a)\<lparr>cl_dirty_cas := True\<rparr> else sv_clients s a)" for a
    by (simp add: signalModifiedKey_def touchWatchedKey_def watchers_def mark_dirty_clients split: option.split)
  then show ?thesis
    using ok outerD [OF outer_signal(1) [of s i k]] outer_signal(1) [of s i k] by (auto simp: performs_def outer_def)
qed

lemma performs_upd_db:
  assumes "server_ok s" "i < length (sv_dbs s)" "db_ok (sv_env s) (f (get_db i s))" "db_watched (f (get_db i s)) = db_watched (get_db i s)"
    "db_blocking (f (get_db i s)) = db_blocking (get_db i s)"
  shows "performs c i s (upd_db i f s) (vis i (upd_db i f s)) (vttl i (upd_db i f s)) {} []"
proof -
  have "expired j (upd_db i f s) k = expired j s k" if "j \<noteq> i" for j k
    using that assms(2) by (intro expired_cong) (simp_all add: get_db_upd)
  then have "vis j (upd_db i f s) = vis j s" "vttl j (upd_db i f s) = vttl j s" if "j \<noteq> i" for j
    using that assms(2) by (simp_all add: fun_eq_iff vis_def vttl_def get_db_upd)
  then show ?thesis using assms server_ok_upd [OF assms(1,2), of f, OF assms(3)] unblocked_upd [of s i f, OF _ assms(2,5)] by (simp add: performs_def get_db_upd)
qed

lemma performs_put:
  assumes "server_ok s" "i < length (sv_dbs s)" "\<not> expired i s k" "val_ok (sv_env s) v"
  shows "performs c i s (put_key i k v s) ((vis i s)(k \<mapsto> v)) (vttl i s) {} []"
proof -
  let ?f = "\<lambda>db. db\<lparr>db_dict := (db_dict db)(k \<mapsto> v)\<rparr>"
  have "db_ok (sv_env s) (?f (get_db i s))" using server_okD(1) [OF assms(1,2)] assms(4) by (auto simp: db_ok_def)
  then have p: "performs c i s (upd_db i ?f s) (vis i (upd_db i ?f s)) (vttl i (upd_db i ?f s)) {} []"
    by (intro performs_upd_db assms(1,2)) simp_all
  have e: "expired i (upd_db i ?f s) k' = expired i s k'" for k' using assms(2) by (intro expired_cong) (simp_all add: get_db_upd)
  have "vis i (upd_db i ?f s) = (vis i s)(k \<mapsto> v)" "vttl i (upd_db i ?f s) = vttl i s"
    using assms(2,3) by (simp_all add: fun_eq_iff vis_def vttl_def e get_db_upd)
  then show ?thesis using p by (simp add: put_key_def)
qed

lemma performs_removeExpire:
  assumes "server_ok s" "i < length (sv_dbs s)" "\<not> expired i s k" "dbExists i k s"
  shows "\<exists>s' b. removeExpire i k s = Some (s', b) \<and> b = (vttl i s k \<noteq> None) \<and> performs c i s s' (vis i s) ((vttl i s)(k := None)) {} []"
proof -
  let ?f = "\<lambda>db. db\<lparr>db_expires := (db_expires db)(k := None)\<rparr>"
  have "db_ok (sv_env s) (?f (get_db i s))" using server_okD(1) [OF assms(1,2)] by (auto simp: db_ok_def)
  then have p: "performs c i s (upd_db i ?f s) (vis i (upd_db i ?f s)) (vttl i (upd_db i ?f s)) {} []"
    by (intro performs_upd_db assms(1,2)) simp_all
  have e: "expired i (upd_db i ?f s) k' = (k' \<noteq> k \<and> expired i s k')" for k'
    using assms(2) by (auto simp: expired_def get_db_upd split: option.splits)
  have "vis i (upd_db i ?f s) = vis i s" "vttl i (upd_db i ?f s) = (vttl i s)(k := None)"
    using assms(2,3) by (simp_all add: fun_eq_iff vis_def vttl_def e get_db_upd)
  then show ?thesis using p assms(3,4) by (auto simp: removeExpire_def vttl_def)
qed

lemma performs_setExpire:
  assumes "server_ok s" "i < length (sv_dbs s)" "\<not> expired i s k" "dbExists i k s"
  shows "\<exists>s'. setExpire i k w s = Some s'
    \<and> performs c i s s' (if 0 \<le> w \<and> w < time_of s \<and> \<not> sv_loading s \<and> \<not> sv_slave s then (vis i s)(k := None) else vis i s)
        (if 0 \<le> w \<and> w < time_of s \<and> \<not> sv_loading s \<and> \<not> sv_slave s then (vttl i s)(k := None) else (vttl i s)(k \<mapsto> w)) {} []"
proof -
  let ?f = "\<lambda>db. db\<lparr>db_expires := (db_expires db)(k \<mapsto> w)\<rparr>"
  have "db_ok (sv_env s) (?f (get_db i s))"
    using server_okD(1) [OF assms(1,2)] assms(4) by (auto simp: db_ok_def dbExists_def)
  then have p: "performs c i s (upd_db i ?f s) (vis i (upd_db i ?f s)) (vttl i (upd_db i ?f s)) {} []"
    by (intro performs_upd_db assms(1,2)) simp_all
  have e: "expired i (upd_db i ?f s) k' = (if k' = k then 0 \<le> w \<and> w < time_of s \<and> \<not> sv_loading s \<and> \<not> sv_slave s else expired i s k')" for k'
    using assms(2) by (auto simp: expired_def get_db_upd split: option.splits)
  have "vis i (upd_db i ?f s) = (if 0 \<le> w \<and> w < time_of s \<and> \<not> sv_loading s \<and> \<not> sv_slave s then (vis i s)(k := None) else vis i s)"
    "vttl i (upd_db i ?f s) = (if 0 \<le> w \<and> w < time_of s \<and> \<not> sv_loading s \<and> \<not> sv_slave s then (vttl i s)(k := None) else (vttl i s)(k \<mapsto> w))"
    using assms(2,3) by (auto simp: fun_eq_iff vis_def vttl_def e get_db_upd)
  then show ?thesis using p assms(4) by (simp only: setExpire_def if_True) auto
qed

lemma performs_delete:
  assumes "server_ok s" "i < length (sv_dbs s)"
  shows "performs c i s (fst (dbDelete i k s)) ((vis i s)(k := None)) ((vttl i s)(k := None)) {} []"
proof -
  let ?f = "\<lambda>db. db\<lparr>db_expires := (db_expires db)(k := None), db_dict := (db_dict db)(k := None)\<rparr>"
  have "db_ok (sv_env s) (?f (get_db i s))"
    using server_okD(1) [OF assms] by (simp add: db_ok_def) blast
  from performs_upd_db [OF assms, of ?f, OF this] show ?thesis
    using dbDelete_purge(2,3) [OF assms, where k = k] by (simp add: dbDelete_def)
qed

section \<open>Composed operations\<close>

lemma performs_lookupKeyWrite:
  assumes "server_ok s" "i < length (sv_dbs s)"
  shows "\<exists>s'. lookupKeyWrite i k s = Some (s', vis i s k) \<and> performs c i s s' (vis i s) (vttl i s) {} [] \<and> \<not> expired i s' k
    \<and> dbExists i k s' = (vis i s k \<noteq> None) \<and> db_expires (get_db i s') k = vttl i s k \<and> quiet s s'"
proof -
  obtain s' where "lookupKeyWrite i k s = Some (s', vis i s k)" "quiet s s'" "db_dict (get_db i s') k = vis i s k" "db_expires (get_db i s') k = vttl i s k"
    using lookupKeyWrite_spec [OF assms] by blast
  then show ?thesis using performs_quiet quiet_not_expired by (auto simp: dbExists_def)
qed

lemma performs_lookupKeyRead:
  assumes "server_ok s" "i < length (sv_dbs s)"
  shows "\<exists>s'. lookupKeyRead i k s = Some (s', vis i s k) \<and> performs c i s s' (vis i s) (vttl i s) {} [] \<and> \<not> expired i s' k
    \<and> dbExists i k s' = (vis i s k \<noteq> None) \<and> db_expires (get_db i s') k = vttl i s k \<and> quiet s s'"
proof -
  obtain s' where "lookupKeyRead i k s = Some (s', vis i s k)" "quiet s s'" "db_dict (get_db i s') k = vis i s k" "db_expires (get_db i s') k = vttl i s k"
    using lookupKeyRead_spec [OF assms] by blast
  then show ?thesis using performs_quiet quiet_not_expired by (auto simp: dbExists_def)
qed

text \<open>A first effect leaves a state on which the second one is described.\<close>

lemma performs_then:
  assumes "performs c i s s1 M T K rs"
    and "server_ok s1 \<Longrightarrow> vis i s1 = M \<Longrightarrow> vttl i s1 = T \<Longrightarrow> performs c i s1 s2 M' T' K' rs'"
  shows "performs c i s s2 M' T' (K \<union> K') (rs @ rs')"
  using performs_trans [OF assms(1)] assms(2) performsD(1-3) [OF assms(1)] by blast

lemma performs_reply_after:
  assumes "performs c i s s1 M T K rs"
  shows "performs c i s (addReply c r s1) M T K (rs @ [r])"
  using performs_trans [OF assms performs_addReply] performsD(1-3) [OF assms] by fastforce

lemma performs_finish:
  assumes "performs c i s s1 M T K rs"
  shows "performs c i s (addReply c r (add_dirty n (notifyKeyspaceEvent t e k' j (signalModifiedKey i k s1)))) M T (K \<union> {k}) (rs @ [r])"
proof -
  note d = performsD(1-3) [OF assms]
  have 1: "performs c i s (signalModifiedKey i k s1) M T (K \<union> {k}) rs"
    using performs_trans [OF assms performs_signal [OF d(1), of c i k]] d by simp
  have 2: "performs c i s (notifyKeyspaceEvent t e k' j (signalModifiedKey i k s1)) M T (K \<union> {k}) rs"
    using performs_trans [OF 1 performs_notify] performsD(1-3) [OF 1] by fastforce
  have 3: "performs c i s (add_dirty n (notifyKeyspaceEvent t e k' j (signalModifiedKey i k s1))) M T (K \<union> {k}) rs"
    using performs_trans [OF 2 performs_dirty] performsD(1-3) [OF 2] by fastforce
  show ?thesis by (rule performs_reply_after [OF 3])
qed

lemma performs_notify_after:
  assumes "performs c i s s1 M T K rs"
  shows "performs c i s (notifyKeyspaceEvent t e k j s1) M T K rs"
  using performs_trans [OF assms performs_notify] performsD(1-3) [OF assms] by fastforce

lemma performs_dirty_after:
  assumes "performs c i s s1 M T K rs"
  shows "performs c i s (add_dirty n s1) M T K rs"
  using performs_trans [OF assms performs_dirty] performsD(1-3) [OF assms] by fastforce

lemma performs_ready:
  assumes "server_ok s" "i < length (sv_dbs s)"
  shows "performs c i s (signalListAsReady i k s) (vis i s) (vttl i s) {} []"
proof (cases "k \<in> db_blocking (get_db i s) \<and> k \<notin> db_ready (get_db i s)")
  case False
  then have "signalListAsReady i k s = s" by (auto simp: signalListAsReady_def)
  then show ?thesis using performs_quiet [OF quiet_refl [OF assms(1)]] by simp
next
  case True
  let ?s = "s\<lparr>sv_ready_keys := sv_ready_keys s @ [(i, k)]\<rparr>" and ?f = "\<lambda>db. db\<lparr>db_ready := insert k (db_ready db)\<rparr>"
  have "time_of ?s = time_of s" by (rule time_of_cong) simp_all
  then have e: "expired j ?s k' = expired j s k'" for j k' by (intro expired_cong) simp_all
  have o: "vis j ?s = vis j s" "vttl j ?s = vttl j s" for j by (simp_all add: fun_eq_iff vis_def vttl_def e)
  have "\<not> unblocked s" using True assms(2) by (auto simp: unblocked_def)
  then have p1: "performs c i s ?s (vis i s) (vttl i s) {} []" using assms(1) o by (simp add: performs_def) (simp add: server_ok_def)
  note d = performsD(1-3) [OF p1]
  have p2: "performs c i ?s (upd_db i ?f ?s) (vis i (upd_db i ?f ?s)) (vttl i (upd_db i ?f ?s)) {} []"
    using server_okD(1) [OF assms] assms d(1) by (intro performs_upd_db) (simp_all add: db_ok_def)
  have e: "expired i (upd_db i ?f ?s) k' = expired i ?s k'" for k' using assms(2) by (intro expired_cong) (simp_all add: get_db_upd)
  have "vis i (upd_db i ?f ?s) = vis i ?s" "vttl i (upd_db i ?f ?s) = vttl i ?s"
    using assms(2) by (simp_all only: fun_eq_iff vis_def vttl_def e) (simp_all add: get_db_upd)
  then have "vis i (upd_db i ?f ?s) = vis i s" "vttl i (upd_db i ?f ?s) = vttl i s" using d(2,3) by simp_all
  then have "performs c i s (upd_db i ?f ?s) (vis i s) (vttl i s) {} []" using performs_trans [OF p1 p2] by simp
  then show ?thesis using True by (simp add: signalListAsReady_def)
qed

lemma performs_dbAdd:
  assumes "server_ok s" "i < length (sv_dbs s)" "\<not> expired i s k" "val_ok (sv_env s) v" "\<not> dbExists i k s"
  shows "\<exists>s'. dbAdd i k v s = Some s' \<and> performs c i s s' ((vis i s)(k \<mapsto> v)) (vttl i s) {} [] \<and> db_dict (get_db i s') = (db_dict (get_db i s))(k \<mapsto> v)
    \<and> db_expires (get_db i s') = db_expires (get_db i s)"
proof -
  have p: "performs c i s (put_key i k v s) ((vis i s)(k \<mapsto> v)) (vttl i s) {} []" using performs_put [OF assms(1-4)] .
  note d = performsD(1-4) [OF p]
  have g: "db_dict (get_db i (put_key i k v s)) = (db_dict (get_db i s))(k \<mapsto> v)" "db_expires (get_db i (put_key i k v s)) = db_expires (get_db i s)"
    using assms(2) by (simp_all add: put_key_def get_db_upd)
  have "db_dict (get_db i (signalListAsReady i k s')) = db_dict (get_db i s')" "db_expires (get_db i (signalListAsReady i k s')) = db_expires (get_db i s')"
    if "i < length (sv_dbs s')" for s' using that by (auto simp: signalListAsReady_def upd_db_def)
  then show ?thesis
    using p g performs_trans [OF p performs_ready] d assms(2,5) by (auto simp: dbAdd_def Let_def)
qed

lemma performs_dbOverwrite:
  assumes "server_ok s" "i < length (sv_dbs s)" "\<not> expired i s k" "val_ok (sv_env s) v" "dbExists i k s"
  shows "\<exists>s'. dbOverwrite i k v s = Some s' \<and> performs c i s s' ((vis i s)(k \<mapsto> v)) (vttl i s) {} [] \<and> db_dict (get_db i s') = (db_dict (get_db i s))(k \<mapsto> v)
    \<and> db_expires (get_db i s') = db_expires (get_db i s)"
  using performs_put [OF assms(1-4)] assms(2,5) by (simp add: dbOverwrite_def put_key_def get_db_upd)

text \<open>The state after a lookup, with what the next operation needs.\<close>

definition looked_up :: "nat \<Rightarrow> nat \<Rightarrow> key \<Rightarrow> server \<Rightarrow> server \<Rightarrow> bool" where
  "looked_up c i k s s' \<longleftrightarrow> performs c i s s' (vis i s) (vttl i s) {} [] \<and> server_ok s' \<and> i < length (sv_dbs s') \<and> \<not> expired i s' k
     \<and> dbExists i k s' = (vis i s k \<noteq> None) \<and> vis i s' = vis i s \<and> vttl i s' = vttl i s \<and> sv_env s' = sv_env s"

lemma looked_up_write:
  assumes "server_ok s" "i < length (sv_dbs s)"
  shows "\<exists>s'. lookupKeyWrite i k s = Some (s', vis i s k) \<and> looked_up c i k s s'"
  using performs_lookupKeyWrite [OF assms, of k c] assms(2) performsD(1-4,10) by (fastforce simp: looked_up_def)

lemma looked_up_read:
  assumes "server_ok s" "i < length (sv_dbs s)"
  shows "\<exists>s'. lookupKeyRead i k s = Some (s', vis i s k) \<and> looked_up c i k s s'"
  using performs_lookupKeyRead [OF assms, of k c] assms(2) performsD(1-4,10) by (fastforce simp: looked_up_def)

lemma performs_store:
  assumes "looked_up c i k s s1" "val_ok (sv_env s) v"
  shows "\<exists>s2. (if vis i s k = None then dbAdd i k v s1 else dbOverwrite i k v s1) = Some s2
    \<and> performs c i s s2 ((vis i s)(k \<mapsto> v)) (vttl i s) {} [] \<and> \<not> expired i s2 k \<and> dbExists i k s2"
proof -
  note l = assms(1) [unfolded looked_up_def]
  have "\<exists>s2. (if vis i s k = None then dbAdd i k v s1 else dbOverwrite i k v s1) = Some s2
      \<and> performs c i s1 s2 ((vis i s1)(k \<mapsto> v)) (vttl i s1) {} [] \<and> db_dict (get_db i s2) = (db_dict (get_db i s1))(k \<mapsto> v)
      \<and> db_expires (get_db i s2) = db_expires (get_db i s1)"
    using performs_dbAdd [of s1 i k v c] performs_dbOverwrite [of s1 i k v c] l assms(2) by auto
  then obtain s2 where s2: "(if vis i s k = None then dbAdd i k v s1 else dbOverwrite i k v s1) = Some s2"
      "performs c i s1 s2 ((vis i s1)(k \<mapsto> v)) (vttl i s1) {} []" "db_dict (get_db i s2) = (db_dict (get_db i s1))(k \<mapsto> v)"
      "db_expires (get_db i s2) = db_expires (get_db i s1)" by blast
  have "expired i s2 k = expired i s1 k" using s2(4) performsD(7-9) [OF s2(2)] by (intro expired_cong) simp_all
  moreover have "performs c i s s2 ((vis i s)(k \<mapsto> v)) (vttl i s) {} []" using performs_trans [OF l [THEN conjunct1] s2(2)] l by simp
  ultimately show ?thesis using s2(1,3) l by (auto simp: dbExists_def)
qed

lemma performs_setKey:
  assumes "server_ok s" "i < length (sv_dbs s)" "val_ok (sv_env s) v"
  shows "\<exists>s'. setKey i k v s = Some s' \<and> performs c i s s' ((vis i s)(k \<mapsto> v)) ((vttl i s)(k := None)) {k} [] \<and> \<not> expired i s' k \<and> dbExists i k s'"
proof -
  obtain s1 where s1: "lookupKeyWrite i k s = Some (s1, vis i s k)" "looked_up c i k s s1" using looked_up_write [OF assms(1,2)] by blast
  obtain s2 where s2: "(if vis i s k = None then dbAdd i k v s1 else dbOverwrite i k v s1) = Some s2"
      "performs c i s s2 ((vis i s)(k \<mapsto> v)) (vttl i s) {} []" "\<not> expired i s2 k" "dbExists i k s2"
    using performs_store [OF s1(2) assms(3)] by blast
  note d2 = performsD(1-4) [OF s2(2)]
  obtain s3 b where s3: "removeExpire i k s2 = Some (s3, b)" "performs c i s2 s3 (vis i s2) ((vttl i s2)(k := None)) {} []"
    using performs_removeExpire [OF d2(1) _ s2(3,4), of c] d2(4) assms(2) by auto
  have p3: "performs c i s s3 ((vis i s)(k \<mapsto> v)) ((vttl i s)(k := None)) {} []" using performs_trans [OF s2(2) s3(2)] d2 by simp
  have p4: "performs c i s (signalModifiedKey i k s3) ((vis i s)(k \<mapsto> v)) ((vttl i s)(k := None)) {k} []"
    using performs_trans [OF p3 performs_signal] performsD(1-3) [OF p3] by fastforce
  have "vttl i (signalModifiedKey i k s3) k = None" "vis i (signalModifiedKey i k s3) k \<noteq> None" using performsD(2,3) [OF p4] by simp_all
  then have "\<not> expired i (signalModifiedKey i k s3) k" "dbExists i k (signalModifiedKey i k s3)" by (auto simp: vis_def dbExists_def split: if_splits)
  then show ?thesis using s1(1) s2(1) s3(1) p4 by (simp add: setKey_def)
qed

end
