(* ===== verification/Rdb.thy ===== *)
theory Rdb
  imports Rdb_String Keyspace_View
begin

text \<open>
  Snapshots, \<^verbatim>\<open>rdb.c\<close>: values, pairs of a key and a value with the time to live, the whole keyspace. Strings and sets are
  modelled; a list, sorted set or hash, which is a handle here, is \<open>None\<close>. The order in which the iterator runs over
  the dictionary of a database is a parameter. Loading into an empty server is shown to restore every key that has
  not expired, with a value that stands for the same bytes or elements, whatever the configuration and the encodings.
\<close>

section \<open>Saving values\<close>

text \<open>The memory of an integer set: the header and the array.\<close>

definition intset_bytes :: "intset \<Rightarrow> u8 list" where
  "intset_bytes is = put_le 4 (int (is_encoding is)) @ put_le 4 (int (is_length is)) @ is_contents is"

definition intset_of_bytes :: "u8 list \<Rightarrow> intset option" where
  "intset_of_bytes b =
     (if length b < 8 then None
      else Some \<lparr>is_encoding = nat (get_le (take 4 b)), is_length = nat (get_le (take 4 (drop 4 b))), is_contents = drop 8 b\<rparr>)"

fun rdbSaveObjectType :: "writer \<Rightarrow> robj \<Rightarrow> (writer \<times> nat) option" where
  "rdbSaveObjectType w (StringObj o1) = rdbSaveType w 0"
| "rdbSaveObjectType w (SetObj (SetIntset is)) = rdbSaveType w 11"
| "rdbSaveObjectType w (SetObj (SetHT d)) = rdbSaveType w 2"
| "rdbSaveObjectType w _ = None"

text \<open>The loop over a hash table. Its keys are modelled by their bytes; by \<open>rdbSaveStringObject_emit\<close> the encoding of the
  object does not matter.\<close>

partial_function (option) save_ht_loop ::
  "rdb_env \<Rightarrow> writer \<Rightarrow> nat \<Rightarrow> (u8 list, unit) dict \<Rightarrow> (u8 list, unit) dictIterator \<Rightarrow> (writer \<times> nat) option" where
  "save_ht_loop env w nwritten d it =
     do { (d1, it1, e) \<leftarrow> dictNext (rdb_addr0 env) (rdb_addr1 env) d it;
          (case e of
             None \<Rightarrow> do { _ \<leftarrow> dictReleaseIterator (rdb_addr0 env) (rdb_addr1 env) d1 it1; Some (w, nwritten) }
           | Some (k, _) \<Rightarrow>
               do { (w1, n) \<leftarrow> rdbSaveStringObject env w (createStringObject k);
                    (w1, n) \<leftarrow> add_count w1 nwritten n;
                    save_ht_loop env w1 n d1 it1 }) }"

fun rdbSaveObject :: "rdb_env \<Rightarrow> writer \<Rightarrow> robj \<Rightarrow> (writer \<times> nat) option" where
  "rdbSaveObject env w (StringObj o1) = rdbSaveStringObject env w o1"
| "rdbSaveObject env w (SetObj (SetHT d)) =
     do { (w1, n) \<leftarrow> rdbSaveLen w (wrap32 (dictSize d)); save_ht_loop env w1 n d dictGetIterator }"
| "rdbSaveObject env w (SetObj (SetIntset is)) =
     do { b \<leftarrow> mem_read 0 (intsetBlobLen is) (intset_bytes is); rdbSaveRawString env w b }"
| "rdbSaveObject env w _ = None"

definition rdbSavedObjectLen :: "rdb_env \<Rightarrow> robj \<Rightarrow> nat option" where
  "rdbSavedObjectLen env o1 = map_option snd (rdbSaveObject env None o1)"

text \<open>The flag says whether the pair was saved.\<close>

definition rdbSaveKeyValuePair :: "rdb_env \<Rightarrow> writer \<Rightarrow> key \<Rightarrow> robj \<Rightarrow> int \<Rightarrow> int \<Rightarrow> (writer \<times> bool) option" where
  "rdbSaveKeyValuePair env w key val expiretime now =
     (if expiretime \<noteq> - 1 \<and> expiretime < now then Some (w, False)
      else do {
        w1 \<leftarrow> (if expiretime \<noteq> - 1
                then do { (w1, _) \<leftarrow> rdbSaveType w 252; (w2, _) \<leftarrow> rdbSaveMillisecondTime (rdb_be env) w1 expiretime; Some w2 }
                else Some w);
        (w2, _) \<leftarrow> rdbSaveObjectType w1 val;
        (w3, _) \<leftarrow> rdbSaveStringObject env w2 (Raw key);
        (w4, _) \<leftarrow> rdbSaveObject env w3 val;
        Some (w4, True) })"

fun save_keys :: "rdb_env \<Rightarrow> server \<Rightarrow> nat \<Rightarrow> key list \<Rightarrow> writer \<Rightarrow> writer option" where
  "save_keys env s j [] w = Some w"
| "save_keys env s j (k # ks) w =
     do { o1 \<leftarrow> db_dict (get_db j s) k;
          expire \<leftarrow> getExpire j k s;
          (w1, _) \<leftarrow> rdbSaveKeyValuePair env w k o1 expire (sv_now s);
          save_keys env s j ks w1 }"

fun save_dbs :: "rdb_env \<Rightarrow> (nat \<Rightarrow> key list) \<Rightarrow> server \<Rightarrow> nat list \<Rightarrow> writer \<Rightarrow> writer option" where
  "save_dbs env order s [] w = Some w"
| "save_dbs env order s (j # js) w =
     (if order j = [] then save_dbs env order s js w
      else do {
        (w1, _) \<leftarrow> rdbSaveType w 254;
        (w2, _) \<leftarrow> rdbSaveLen w1 j;
        w3 \<leftarrow> save_keys env s j (order j) w2;
        save_dbs env order s js w3 })"

definition rdbSaveRio :: "rdb_env \<Rightarrow> (nat \<Rightarrow> key list) \<Rightarrow> server \<Rightarrow> rio \<Rightarrow> rio option" where
  "rdbSaveRio env order s r =
     do { (w, _) \<leftarrow> rdbWriteRaw (Some (if rdb_checksum env then r\<lparr>r_update := True\<rparr> else r)) (bytes ''REDIS0006'');
          w1 \<leftarrow> save_dbs env order s [0..<length (sv_dbs s)] w;
          (w2, _) \<leftarrow> rdbSaveType w1 255;
          r2 \<leftarrow> w2;
          cksum \<leftarrow> memrevifbe (rdb_be env) memrev64 (store_native (rdb_be env) 8 (uint (r_cksum r2)));
          rioWrite r2 cksum }"

text \<open>
  The file system maps names to contents. The file is written under a temporary name and renamed at the end; \<open>room\<close> is the
  space on the device, and the results of the system calls are parameters.
\<close>

record save_sys =
  sys_room :: nat
  sys_fopen :: bool
  sys_flush :: bool
  sys_rename :: bool

definition rdbSave ::
  "rdb_env \<Rightarrow> (nat \<Rightarrow> key list) \<Rightarrow> save_sys \<Rightarrow> string \<Rightarrow> string \<Rightarrow> server \<times> (string \<rightharpoonup> u8 list) \<Rightarrow> (server \<times> (string \<rightharpoonup> u8 list)) \<times> bool" where
  "rdbSave env order sys tmpfile filename st =
     (let (s, fs) = st
      in if \<not> sys_fopen sys then ((s, fs), False)
         else
           (case rdbSaveRio env order s (rioInitWithFile [] (sys_room sys)) of
              None \<Rightarrow> ((s, fs(tmpfile := None)), False)
            | Some r \<Rightarrow>
                if \<not> sys_flush sys \<or> \<not> sys_rename sys then ((s, fs(tmpfile := None)), False)
                else ((s\<lparr>sv_dirty := 0\<rparr>, fs(tmpfile := None, filename \<mapsto> r_data r)), True)))"

section \<open>Loading values\<close>

definition load_elem :: "set_env \<Rightarrow> nat \<Rightarrow> setobj \<Rightarrow> sobj \<Rightarrow> setobj option" where
  "load_elem senv len s ele0 =
     (let ele = tryObjectEncoding ele0
      in do {
        s1 \<leftarrow> (case s of
                  SetHT d \<Rightarrow> Some s
                | SetIntset is \<Rightarrow>
                    (case isObjectRepresentableAsLongLong ele of
                       Some llval \<Rightarrow> do { (is', _) \<leftarrow> intsetAdd (env_junk senv) is llval; Some (SetIntset is') }
                     | None \<Rightarrow>
                         do { t \<leftarrow> setTypeConvert senv s;
                              (case t of SetHT d \<Rightarrow> Some (SetHT (fst (dictExpand d len))) | SetIntset _ \<Rightarrow> None) }));
        (case s1 of
           SetHT d \<Rightarrow> do { (d', _) \<leftarrow> dictAdd (env_can_resize senv) (env_hash senv) d (str_bytes ele) (); Some (SetHT d') }
         | SetIntset _ \<Rightarrow> Some s1) })"

fun load_elems :: "set_env \<Rightarrow> nat \<Rightarrow> nat \<Rightarrow> setobj \<Rightarrow> rio \<Rightarrow> (setobj \<times> rio) option" where
  "load_elems senv len 0 s r = Some (s, r)"
| "load_elems senv len (Suc i) s r =
     do { (ele, r1) \<leftarrow> rdbLoadEncodedStringObject r; s1 \<leftarrow> load_elem senv len s ele; load_elems senv len i s1 r1 }"

definition rdbLoadObject :: "set_env \<Rightarrow> u8 \<Rightarrow> rio \<Rightarrow> (robj \<times> rio) option" where
  "rdbLoadObject senv rdbtype r =
     (if rdbtype = 0 then do { (o1, r1) \<leftarrow> rdbLoadEncodedStringObject r; Some (StringObj (tryObjectEncoding o1), r1) }
      else if rdbtype = 2 then
        (let (len, _, r1) = rdbLoadLen r
         in if len = REDIS_RDB_LENERR then None
            else
              let s0 = (if len > set_max_intset_entries senv
                        then SetHT (if len > DICT_HT_INITIAL_SIZE then fst (dictExpand dictCreate len) else dictCreate)
                        else createIntsetObject)
              in do { (s1, r2) \<leftarrow> load_elems senv len len s0 r1; Some (SetObj s1, r2) })
      else if rdbtype = 11 then
        do { (aux, r1) \<leftarrow> rdbLoadStringObject r;
             is \<leftarrow> intset_of_bytes (str_bytes aux);
             s1 \<leftarrow> (if intsetLen is > set_max_intset_entries senv then setTypeConvert senv (SetIntset is) else Some (SetIntset is));
             Some (SetObj s1, r1) }
      else None)"

text \<open>The end of a load: an error code, the end of the process, or the server with its data.\<close>

datatype load_result = LoadErr | LoadExit | Loaded server

text \<open>The type of an entry behind its time to live, -1 for none.\<close>

definition load_type :: "rdb_env \<Rightarrow> rio \<Rightarrow> (int \<times> u8 \<times> rio) option" where
  "load_type env r =
     do { (type, r1) \<leftarrow> rdbLoadType r;
          if type = 253 then
            do { (t, r2) \<leftarrow> rdbLoadTime (rdb_be env) r1;
                 if t = - 1 then None else do { (type, r3) \<leftarrow> rdbLoadType r2; Some (t * 1000, type, r3) } }
          else if type = 252 then
            do { (t, r2) \<leftarrow> rdbLoadMillisecondTime (rdb_be env) r1;
                 if t = - 1 then None else do { (type, r3) \<leftarrow> rdbLoadType r2; Some (t, type, r3) } }
          else Some (- 1, type, r1) }"

definition load_pair :: "nat \<Rightarrow> int \<Rightarrow> u8 \<Rightarrow> int \<Rightarrow> rio \<Rightarrow> server \<Rightarrow> (rio \<times> server) option" where
  "load_pair i expiretime type now r s =
     do { (key, r1) \<leftarrow> rdbLoadStringObject r;
          (val, r2) \<leftarrow> rdbLoadObject (sv_env s) type r1;
          if \<not> sv_slave s \<and> expiretime \<noteq> - 1 \<and> expiretime < now then Some (r2, s)
          else do {
            s1 \<leftarrow> dbAdd i (str_bytes key) val s;
            s2 \<leftarrow> (if expiretime \<noteq> - 1 then setExpire i (str_bytes key) expiretime s1 else Some s1);
            Some (r2, s2) } }"

definition load_end :: "rdb_env \<Rightarrow> int \<Rightarrow> rio \<Rightarrow> server \<Rightarrow> load_result" where
  "load_end env rdbver r s =
     (if rdbver \<ge> 5 \<and> rdb_checksum env then
        (case do { (bs, r1) \<leftarrow> rioRead r 8; memrevifbe (rdb_be env) memrev64 bs } of
           None \<Rightarrow> LoadExit
         | Some bs \<Rightarrow>
             let cksum = load_native (rdb_be env) bs
             in if cksum \<noteq> 0 \<and> cksum \<noteq> uint (r_cksum r) then LoadExit else Loaded (s\<lparr>sv_loading := False\<rparr>))
      else Loaded (s\<lparr>sv_loading := False\<rparr>))"

text \<open>The loop over the entries; \<open>None\<close> would be a load that does not end.\<close>

partial_function (option) load_loop :: "rdb_env \<Rightarrow> int \<Rightarrow> int \<Rightarrow> rio \<Rightarrow> nat \<Rightarrow> server \<Rightarrow> load_result option" where
  "load_loop env rdbver now r i s =
     (case load_type env r of
        None \<Rightarrow> Some LoadExit
      | Some (expiretime, type, r1) \<Rightarrow>
          if type = 255 then Some (load_end env rdbver r1 s)
          else if type = 254 then
            (let (dbid, _, r2) = rdbLoadLen r1
             in if dbid = REDIS_RDB_LENERR \<or> dbid \<ge> length (sv_dbs s) then Some LoadExit else load_loop env rdbver now r2 dbid s)
          else
            (case load_pair i expiretime type now r1 s of
               None \<Rightarrow> Some LoadExit
             | Some (r2, s2) \<Rightarrow> load_loop env rdbver now r2 i s2))"

definition rdbLoad :: "rdb_env \<Rightarrow> u8 list \<Rightarrow> server \<Rightarrow> load_result option" where
  "rdbLoad env file s =
     (case rioRead ((rioInitWithFile file 0)\<lparr>r_update := rdb_checksum env, r_chunk := rdb_chunk env\<rparr>) 9 of
        None \<Rightarrow> Some LoadExit
      | Some (buf, r) \<Rightarrow>
          if take 5 buf \<noteq> bytes ''REDIS'' then Some LoadErr
          else
            let rdbver = fst (strtoll_end (drop 5 buf))
            in if rdbver < 1 \<or> rdbver > 6 then Some LoadErr
               else load_loop env rdbver (sv_now s) r 0 (s\<lparr>sv_loading := True\<rparr>))"

section \<open>What is written\<close>

lemma save_ht_loop_emit:
  assumes "env_ok env" "tables_ok d" "iter_ok d it" "fp_ok (rdb_addr0 env) (rdb_addr1 env) d it" "\<forall>(k, _) \<in> set (remaining d it). length k < 2 ^ 32"
    "nwritten < 2 ^ 31"
  shows "save_ht_loop env w nwritten d it = do { (w1, n) \<leftarrow> emit w (concat (map (raw_bytes env \<circ> fst) (remaining d it))); add_count w1 nwritten n }"
  using assms(3-6)
proof (induction "length (remaining d it)" arbitrary: it w nwritten)
  case 0
  obtain d' it' where n: "dictNext (rdb_addr0 env) (rdb_addr1 env) d it = Some (d', it', None)"
    using dictNext_ok [OF assms(2) 0(2), of "rdb_addr0 env" "rdb_addr1 env"] 0(1) unfolding next_ok_def by auto
  have "d' = d" "fp_ok (rdb_addr0 env) (rdb_addr1 env) d it'" using dictNext_unsafe [OF n 0(3)] by auto
  then show ?case using 0 n by (subst save_ht_loop.simps) (simp add: dictRelease_unsafe add_count_def)
next
  case (Suc m)
  obtain d' it' k where n: "dictNext (rdb_addr0 env) (rdb_addr1 env) d it = Some (d', it', Some (k, ()))" "iter_ok d it'"
      "remaining d it = (k, ()) # remaining d it'"
    using dictNext_ok [OF assms(2) Suc(3), of "rdb_addr0 env" "rdb_addr1 env"] Suc(2) unfolding next_ok_def by auto
  have d': "d' = d" "fp_ok (rdb_addr0 env) (rdb_addr1 env) d it'" using dictNext_unsafe [OF n(1) Suc(4)] by auto
  let ?b = "concat (map (raw_bytes env \<circ> fst) (remaining d it'))"
  have k: "rdbSaveStringObject env w (createStringObject k) = emit w (raw_bytes env k)"
    using rdbSaveStringObject_emit [OF assms(1), of "createStringObject k" w] Suc(5) n(3) by simp
  have IH: "save_ht_loop env w1 n1 d it' = do { (w2, n2) \<leftarrow> emit w1 ?b; add_count w2 n1 n2 }" if "n1 < 2 ^ 31" for w1 n1
    using Suc.hyps(1) [OF _ n(2) d'(2)] Suc.hyps(2) n(3) Suc.prems(3) that by simp
  have "save_ht_loop env w nwritten d it = do { (w1, n1) \<leftarrow> emit w (raw_bytes env k); (w1, n1) \<leftarrow> add_count w1 nwritten n1; save_ht_loop env w1 n1 d it' }"
    using n(1) d'(1) k by (subst save_ht_loop.simps) simp
  also have "\<dots> = do { (w1, n1) \<leftarrow> emit w (raw_bytes env k); (w1, n1) \<leftarrow> add_count w1 nwritten n1; (w2, n2) \<leftarrow> emit w1 ?b; add_count w2 n1 n2 }"
    using IH by (intro bind_option_cong refl) (auto simp: add_count_def split: if_splits)
  also have "\<dots> = do { (w1, n) \<leftarrow> emit w (raw_bytes env k @ ?b); add_count w1 nwritten n }"
    by (cases w) (auto simp: emit_def add_count_def fits_def split: option.splits)
  finally show ?case using n(3) by simp
qed

fun obj_bytes :: "rdb_env \<Rightarrow> robj \<Rightarrow> u8 list" where
  "obj_bytes env (StringObj o1) = raw_bytes env (str_bytes o1)"
| "obj_bytes env (SetObj (SetHT d)) = len_bytes (dictSize d) @ concat (map (raw_bytes env \<circ> fst) (dict_entries d))"
| "obj_bytes env (SetObj (SetIntset is)) = raw_bytes env (intset_bytes is)"
| "obj_bytes env _ = []"

fun type_byte :: "robj \<Rightarrow> u8" where
  "type_byte (SetObj (SetIntset is)) = 11"
| "type_byte (SetObj (SetHT d)) = 2"
| "type_byte _ = 0"

fun savable :: "set_env \<Rightarrow> robj \<Rightarrow> bool" where
  "savable senv (StringObj o1) \<longleftrightarrow> sobj_ok o1 \<and> length (str_bytes o1) < 2 ^ 32 - 1"
| "savable senv (SetObj s) \<longleftrightarrow> set_ok senv s \<and> (\<forall>x\<in>set_elems s. length x < 2 ^ 32 - 1) \<and> card (set_elems s) < 2 ^ 32 - 1"
| "savable senv _ \<longleftrightarrow> False"

lemma intset_bytes_spec:
  assumes "intset_ok is" "is_length is < 2 ^ 29 - 2"
  shows "length (intset_bytes is) < 2 ^ 32 - 1" "mem_read 0 (intsetBlobLen is) (intset_bytes is) = Some (intset_bytes is)"
    "intset_of_bytes (intset_bytes is) = Some is"
proof -
  have e: "is_encoding is \<in> {2, 4, 8}" "length (is_contents is) = is_length is * is_encoding is" using assms(1) by (auto simp: intset_ok_def)
  then have bound: "is_length is * is_encoding is < 2 ^ 32 - 16" using assms(2) by auto
  show "length (intset_bytes is) < 2 ^ 32 - 1" using e bound by (simp add: intset_bytes_def)
  have "intsetBlobLen is = length (intset_bytes is)" using e bound by (simp add: intsetBlobLen_def intset_bytes_def)
  then show "mem_read 0 (intsetBlobLen is) (intset_bytes is) = Some (intset_bytes is)" by (simp add: mem_read_def)
  have "nat (get_le (put_le 4 (int (is_encoding is)))) = is_encoding is" "nat (get_le (put_le 4 (int (is_length is)))) = is_length is"
    using e(1) assms(2) by (auto simp: get_le_put_le)
  then show "intset_of_bytes (intset_bytes is) = Some is" by (simp add: intset_of_bytes_def intset_bytes_def)
qed

lemma dict_entries_fst: "dict_ok hash d \<Longrightarrow> fst ` set (dict_entries d) = dom (dict_map d)" "dict_ok hash d \<Longrightarrow> length (dict_entries d) = dictSize d"
proof -
  assume d: "dict_ok hash d"
  then show f: "fst ` set (dict_entries d) = dom (dict_map d)" by (simp add: dict_map_def dom_map_of_conv_image_fst)
  have "distinct (map fst (dict_entries d))" using d by (simp add: dict_ok_def)
  then have "length (map fst (dict_entries d)) = card (set (map fst (dict_entries d)))" by (rule distinct_card [symmetric])
  then show "length (dict_entries d) = dictSize d" using f dict_limit_used [OF d] by simp
qed

lemma rdbSaveObject_emit:
  assumes "env_ok env" "savable senv v" "set_max_intset_entries senv < 2 ^ 29 - 2"
  shows "rdbSaveObject env w v = emit w (obj_bytes env v)" "rdbSaveObjectType w v = emit w [type_byte v]"
proof -
  have "rdbSaveObject env w (SetObj s) = emit w (obj_bytes env (SetObj s))" if v: "v = SetObj s" for s
  proof (cases s)
    case (SetIntset "is")
    then have ok: "intset_ok is" "is_length is < 2 ^ 29 - 2" using assms(2,3) v by auto
    have "length (intset_bytes is) < 2 ^ 32" using intset_bytes_spec(1) [OF ok] by linarith
    then show ?thesis using SetIntset intset_bytes_spec(2) [OF ok] by (simp add: rdbSaveRawString_emit [OF assms(1)])
  next
    case (SetHT d)
    have ok: "dict_ok (env_hash senv) d" "\<forall>x\<in>dom (dict_map d). length x < 2 ^ 32 - 1" "card (dom (dict_map d)) < 2 ^ 32 - 1"
      using assms(2) v SetHT by auto
    have size: "dictSize d < 2 ^ 32" using ok(3) dict_limit_used [OF ok(1)] by simp
    have rem: "remaining d dictGetIterator = dict_entries d" by (simp add: remaining_def dictGetIterator_def dict_entries_def)
    have it: "iter_ok d dictGetIterator" "fp_ok (rdb_addr0 env) (rdb_addr1 env) d dictGetIterator"
      by (simp_all add: iter_ok_def fp_ok_def dictGetIterator_def)
    have "\<forall>(k, _) \<in> set (dict_entries d). length k < 2 ^ 32" using ok(2) dict_entries_fst(1) [OF ok(1)] by force
    then have "save_ht_loop env w1 n d dictGetIterator = do { (w2, m) \<leftarrow> emit w1 (concat (map (raw_bytes env \<circ> fst) (dict_entries d))); add_count w2 n m }"
      if "n < 2 ^ 31" for w1 n
      using save_ht_loop_emit [OF assms(1) tables_ok_dict [OF ok(1)] it, of n w1] that unfolding rem by blast
    then have "rdbSaveObject env w (SetObj s) = do { (w1, n) \<leftarrow> emit w (len_bytes (dictSize d));
        (w2, m) \<leftarrow> emit w1 (concat (map (raw_bytes env \<circ> fst) (dict_entries d))); add_count w2 n m }"
      using SetHT size by (auto simp: rdbSaveLen_emit intro!: bind_option_cong dest: emit_pos) (auto simp: emit_def split: if_splits)
    then show ?thesis using SetHT by (simp add: emit_emit)
  qed
  then show "rdbSaveObject env w v = emit w (obj_bytes env v)"
    using assms by (cases v) (simp_all add: rdbSaveStringObject_emit)
  show "rdbSaveObjectType w v = emit w [type_byte v]"
    using assms(2) by (cases "(w, v)" rule: rdbSaveObjectType.cases) (simp_all add: rdbSaveType_def rdbWriteRaw_emit)
qed

section \<open>What is read\<close>

lemma dictExpand_any:
  assumes "dict_ok hash d" "indexable d" "n \<le> 2 ^ 31"
  shows "dict_ok hash (fst (dictExpand d n)) \<and> indexable (fst (dictExpand d n)) \<and> dict_map (fst (dictExpand d n)) = dict_map d"
proof (cases "dictIsRehashing d \<or> ht_used (ht0 d) > n")
  case True
  then show ?thesis using assms(1,2) by (auto simp: dictExpand_def)
next
  case False
  then show ?thesis using dictExpand_spec(1,2) [OF assms(1), of n] dictExpand_indexable [OF assms(2,3)] assms(3) by simp
qed

lemma load_elem_spec:
  assumes "set_ok senv s" "sobj_ok ele" "card (set_elems s) < 2 ^ 30" "set_max_intset_entries senv < 2 ^ 29 - 2" "len \<le> 2 ^ 30"
    "\<forall>is. s = SetIntset is \<longrightarrow> card (set_elems s) < set_max_intset_entries senv"
  shows "\<exists>s'. load_elem senv len s ele = Some s' \<and> set_ok senv s' \<and> set_elems s' = insert (str_bytes ele) (set_elems s)"
proof -
  have ele: "sobj_ok (tryObjectEncoding ele)" "str_bytes (tryObjectEncoding ele) = str_bytes ele" using assms(2) by simp_all
  have ht: "\<exists>d'. dictAdd (env_can_resize senv) (env_hash senv) d (str_bytes ele) () = Some (d', str_bytes ele \<notin> dom (dict_map d))
      \<and> set_ok senv (SetHT d') \<and> dom (dict_map d') = insert (str_bytes ele) (set_elems s)"
    if "set_ok senv (SetHT d)" "dom (dict_map d) = set_elems s" for d
    using ht_add_spec [OF that(1), of "str_bytes ele"] assms(3) that(2) by (simp add: set_limit_def)
  show ?thesis
  proof (cases s)
    case (SetHT d)
    then have h: "set_ok senv (SetHT d)" "dom (dict_map d) = set_elems s" using assms(1) by simp_all
    obtain d' where "dictAdd (env_can_resize senv) (env_hash senv) d (str_bytes ele) () = Some (d', str_bytes ele \<notin> dom (dict_map d))"
        "set_ok senv (SetHT d')" "dom (dict_map d') = insert (str_bytes ele) (set_elems s)"
      using ht [OF h] by blast
    then show ?thesis using SetHT ele(2) by (simp add: load_elem_def)
  next
    case (SetIntset "is")
    have ok: "intset_ok is" "is_length is \<le> set_max_intset_entries senv" using assms(1) SetIntset by auto
    show ?thesis
    proof (cases "isObjectRepresentableAsLongLong (tryObjectEncoding ele)")
      case (Some v)
      then have v: "int64_range v" "str_bytes ele = ll_repr v" using isObjectRepresentable_iff [OF ele(1)] by auto
      have "is_length is < set_max_intset_entries senv" using assms(6) SetIntset card_repr [OF ok(1)] by simp
      then have small: "card (set (intset_vals is)) < 2 ^ 29 - 1" "Suc (card (set (intset_vals is))) \<le> set_max_intset_entries senv"
        using assms(4) length_card [OF ok(1)] by simp_all
      obtain is' where is': "intsetAdd (env_junk senv) is v = Some (is', v \<notin> set (intset_vals is))" "intset_ok is'" "set (intset_vals is') = insert v (set (intset_vals is))"
        using intset.ins_spec [OF ok(1) v(1) small(1), of "env_junk senv"] by blast
      have "is_length is' \<le> set_max_intset_entries senv"
        using length_card [OF is'(2)] is'(3) small(2) by (simp add: card_insert_if split: if_splits)
      then show ?thesis using SetIntset Some is' v(2) by (simp add: load_elem_def)
    next
      case None
      obtain d where d: "setTypeConvert senv (SetIntset is) = Some (SetHT d)" "set_ok senv (SetHT d)" "dom (dict_map d) = set_elems s"
        using setTypeConvert_spec [OF ok(1), of senv] SetIntset by auto
      have h: "set_ok senv (SetHT (fst (dictExpand d len)))" "dom (dict_map (fst (dictExpand d len))) = set_elems s"
        using dictExpand_any [of "env_hash senv" d len] d(2,3) assms(5) by simp_all
      obtain d' where "dictAdd (env_can_resize senv) (env_hash senv) (fst (dictExpand d len)) (str_bytes ele) ()
            = Some (d', str_bytes ele \<notin> dom (dict_map (fst (dictExpand d len))))"
          "set_ok senv (SetHT d')" "dom (dict_map d') = insert (str_bytes ele) (set_elems s)"
        using ht [OF h] by blast
      then show ?thesis using SetIntset None d(1) ele(2) by (simp add: load_elem_def)
    qed
  qed
qed

lemma load_elems_spec:
  assumes "env_ok env" "set_max_intset_entries senv < 2 ^ 29 - 2" "\<forall>k\<in>set ks. length k < 2 ^ 32 - 1"
    "ahead r = concat (map (raw_bytes env) ks) @ rest" "set_ok senv s" "card (set_elems s) + length ks \<le> len" "len \<le> 2 ^ 30"
    "\<forall>is. s = SetIntset is \<longrightarrow> len \<le> set_max_intset_entries senv"
  shows "\<exists>s'. load_elems senv len (length ks) s r = Some (s', advance r (concat (map (raw_bytes env) ks))) \<and> set_ok senv s'
    \<and> set_elems s' = set_elems s \<union> set ks"
  using assms(3-6,8)
proof (induction ks arbitrary: r s)
  case Nil
  then show ?case by simp
next
  case (Cons k ks)
  let ?b = "raw_bytes env k"
  have a: "ahead r = ?b @ concat (map (raw_bytes env) ks) @ rest" using Cons.prems(2) by simp
  obtain ele where ele: "rdbLoadEncodedStringObject r = Some (ele, advance r ?b)" "str_bytes ele = k" "sobj_ok ele"
    using rdbGenericLoad_bytes [OF assms(1) a, of True] Cons.prems(1) by (auto simp: rdbLoadEncodedStringObject_def)
  have c: "card (set_elems s) < 2 ^ 30" "len \<le> 2 ^ 30" "\<forall>is. s = SetIntset is \<longrightarrow> card (set_elems s) < set_max_intset_entries senv"
    using Cons.prems(4,5) assms(7) by auto
  obtain s1 where s1: "load_elem senv len s ele = Some s1" "set_ok senv s1" "set_elems s1 = insert k (set_elems s)"
    using load_elem_spec [OF Cons.prems(3) ele(3) c(1) assms(2) c(2,3)] ele(2) by auto
  have fin: "finite (set_elems s)" using finite_set_elems [OF Cons.prems(3)] .
  have card: "card (set_elems s1) + length ks \<le> len" using s1(3) Cons.prems(4) fin by (simp add: card_insert_if split: if_splits)
  have "\<exists>is. s = SetIntset is" if "s1 = SetIntset is'" for is'
    using s1(1) that by (cases s) (auto simp: load_elem_def Let_def split: bind_splits)
  then have "\<forall>is. s1 = SetIntset is \<longrightarrow> len \<le> set_max_intset_entries senv" using Cons.prems(5) by blast
  then obtain s' where "load_elems senv len (length ks) s1 (advance r ?b) = Some (s', advance (advance r ?b) (concat (map (raw_bytes env) ks)))"
      "set_ok senv s'" "set_elems s' = set_elems s1 \<union> set ks"
    using Cons.IH [OF _ ahead_advance [OF a] s1(2) card] Cons.prems(1) by auto
  then show ?case using ele(1) s1 by auto
qed

fun same_value :: "robj \<Rightarrow> robj \<Rightarrow> bool" where
  "same_value (StringObj a) (StringObj b) \<longleftrightarrow> str_bytes a = str_bytes b"
| "same_value (SetObj a) (SetObj b) \<longleftrightarrow> set_elems a = set_elems b"
| "same_value _ _ \<longleftrightarrow> False"

text \<open>A value is read back from its bytes, in an encoding for the configuration \<open>senv'\<close> of the loading server.\<close>

lemma rdbLoadObject_bytes:
  assumes "env_ok env" "savable senv v" "set_max_intset_entries senv < 2 ^ 29 - 2" "set_max_intset_entries senv' < 2 ^ 29 - 2"
    "ahead r = obj_bytes env v @ rest"
  shows "\<exists>v'. rdbLoadObject senv' (type_byte v) r = Some (v', advance r (obj_bytes env v)) \<and> same_value v v'
    \<and> (\<forall>o1. v' = StringObj o1 \<longrightarrow> sobj_ok o1) \<and> (\<forall>s'. v' = SetObj s' \<longrightarrow> set_ok senv' s')"
proof (cases v)
  case (StringObj o1)
  then show ?thesis
    using rdbGenericLoad_bytes [OF assms(1), of r "str_bytes o1" rest True] assms(2,5)
    by (auto simp: rdbLoadObject_def rdbLoadEncodedStringObject_def)
next
  case (SetObj s)
  show ?thesis
  proof (cases s)
    case (SetIntset "is")
    then have ok: "intset_ok is" "is_length is < 2 ^ 29 - 2" using assms(2,3) SetObj by auto
    have "ahead r = raw_bytes env (intset_bytes is) @ rest" using assms(5) SetObj SetIntset by simp
    from rdbGenericLoad_bytes [OF assms(1) this intset_bytes_spec(1) [OF ok], of False]
    have aux: "rdbLoadStringObject r = Some (Raw (intset_bytes is), advance r (raw_bytes env (intset_bytes is)))"
      by (auto simp: rdbLoadStringObject_def)
    obtain d where "setTypeConvert senv' (SetIntset is) = Some (SetHT d)" "set_ok senv' (SetHT d)" "dom (dict_map d) = ll_repr ` set (intset_vals is)"
      using setTypeConvert_spec [OF ok(1)] by blast
    then show ?thesis using SetObj SetIntset aux intset_bytes_spec(3) [OF ok] ok
      by (cases "set_max_intset_entries senv' < is_length is") (simp_all add: rdbLoadObject_def intsetLen_def)
  next
    case (SetHT d)
    let ?ks = "map fst (dict_entries d)"
    have ok: "dict_ok (env_hash senv) d" "\<forall>x\<in>dom (dict_map d). length x < 2 ^ 32 - 1" "card (dom (dict_map d)) \<le> 2 ^ 30"
      using assms(2) SetObj SetHT by (auto simp: set_limit_def)
    have size: "dictSize d \<le> 2 ^ 30" "length ?ks = dictSize d" "set ?ks = dom (dict_map d)"
      using ok(3) dict_limit_used [OF ok(1)] dict_entries_fst [OF ok(1)] by simp_all
    define len where "len = dictSize d"
    have a: "ahead r = len_bytes len @ concat (map (raw_bytes env) ?ks) @ rest" using assms(5) SetObj SetHT by (simp add: len_def comp_def)
    have l: "rdbLoadLen r = (len, False, advance r (len_bytes len))" using rdbLoadLen_bytes [OF a] size(1) by (simp add: len_def)
    define s0 where "s0 = (if len > set_max_intset_entries senv'
        then SetHT (if len > DICT_HT_INITIAL_SIZE then fst (dictExpand dictCreate len) else dictCreate) else createIntsetObject)"
    let ?c = "dictCreate :: (u8 list, unit) dict"
    have e: "dict_ok (env_hash senv') (fst (dictExpand ?c len)) \<and> indexable (fst (dictExpand ?c len)) \<and> dict_map (fst (dictExpand ?c len)) = Map.empty"
      using dictExpand_any [OF dictCreate_ok(1) dictCreate_indexable, of len "env_hash senv'"] size(1) by (simp add: len_def dictCreate_ok(2))
    have s0: "set_ok senv' s0" "set_elems s0 = {}" "\<forall>is. s0 = SetIntset is \<longrightarrow> len \<le> set_max_intset_entries senv'"
      using e by (auto simp: s0_def createIntsetObject_def dictCreate_ok dictCreate_indexable intsetNew_ok) (simp_all add: intsetNew_def intset_vals_def)
    have "\<forall>k\<in>set ?ks. length k < 2 ^ 32 - 1" unfolding size(3) by (rule ok(2))
    then obtain s' where s': "load_elems senv' len (length ?ks) s0 (advance r (len_bytes len))
          = Some (s', advance (advance r (len_bytes len)) (concat (map (raw_bytes env) ?ks)))"
        "set_ok senv' s'" "set_elems s' = set_elems s0 \<union> set ?ks"
      using load_elems_spec [OF assms(1,4) _ ahead_advance [OF a] s0(1) _ _ s0(3)] s0(2) size by (auto simp: len_def)
    have load: "rdbLoadObject senv' 2 r = do { (s1, r2) \<leftarrow> load_elems senv' len len s0 (advance r (len_bytes len)); Some (SetObj s1, r2) }"
      using l size(1) unfolding rdbLoadObject_def by (simp add: s0_def REDIS_RDB_LENERR_def len_def)
    have "load_elems senv' len len s0 (advance r (len_bytes len)) = Some (s', advance r (obj_bytes env v))"
      using s'(1) size(2) SetObj SetHT by (simp add: len_def comp_def)
    then show ?thesis using load s'(2,3) s0(2) size(3) SetObj SetHT by simp
  qed
qed (use assms(2) in auto)

section \<open>The keyspace in a file\<close>

text \<open>Writing without a count.\<close>

definition put_bytes :: "writer \<Rightarrow> u8 list \<Rightarrow> writer option" where
  "put_bytes w bs = (if \<forall>r. w = Some r \<longrightarrow> fits r (length bs) then Some (map_option (\<lambda>r. wrote r bs) w) else None)"

lemma emit_put: "length bs < 2 ^ 31 \<Longrightarrow> emit w bs \<bind> (\<lambda>(w1, n). f w1) = put_bytes w bs \<bind> f"
  by (auto simp: emit_def put_bytes_def)

lemma put_put: "put_bytes w as \<bind> (\<lambda>w1. put_bytes w1 bs) = put_bytes w (as @ bs)"
  by (cases w) (auto simp: put_bytes_def fits_def split: option.splits)

lemma put_put_bind: "put_bytes w as \<bind> (\<lambda>w1. put_bytes w1 bs \<bind> f) = put_bytes w (as @ bs) \<bind> f"
  by (simp flip: put_put)

lemma put_Nil [simp]: "put_bytes w [] = Some w"
  by (cases w) (simp_all add: put_bytes_def)

lemma put_Some: "put_bytes (Some r) bs = (if fits r (length bs) then Some (Some (wrote r bs)) else None)"
  by (simp add: put_bytes_def)

text \<open>What is known of a key that is saved.\<close>

definition key_ok :: "rdb_env \<Rightarrow> set_env \<Rightarrow> server \<Rightarrow> nat \<Rightarrow> key \<Rightarrow> bool" where
  "key_ok env senv s j k \<longleftrightarrow>
     (\<exists>v. db_dict (get_db j s) k = Some v \<and> savable senv v \<and> length (obj_bytes env v) < 2 ^ 31) \<and> length k < 2 ^ 30
     \<and> (\<forall>t. db_expires (get_db j s) k = Some t \<longrightarrow> 0 \<le> t \<and> t < 2 ^ 63)"

definition saved :: "server \<Rightarrow> nat \<Rightarrow> key \<Rightarrow> bool" where
  "saved s j k \<longleftrightarrow> (case db_expires (get_db j s) k of None \<Rightarrow> True | Some t \<Rightarrow> sv_now s \<le> t)"

definition pair_bytes :: "rdb_env \<Rightarrow> server \<Rightarrow> nat \<Rightarrow> key \<Rightarrow> u8 list" where
  "pair_bytes env s j k =
     (if saved s j k
      then (case db_expires (get_db j s) k of None \<Rightarrow> [] | Some t \<Rightarrow> 252 # store_native (rdb_be env) 8 t)
           @ (let v = the (db_dict (get_db j s) k) in type_byte v # raw_bytes env k @ obj_bytes env v)
      else [])"

lemma length_len_bytes: "length (len_bytes n) \<le> 5"
  by (simp add: len_bytes_def)

lemma length_raw_bytes:
  assumes "env_ok env" "length s < 2 ^ 32"
  shows "length (raw_bytes env s) \<le> length s + 11"
proof -
  have e: "length (rdbTryIntegerEncoding s) \<le> 5" by (auto simp: rdbTryIntegerEncoding_def rdbEncodeInteger_def split: prod.split)
  have l: "length (lzf_out env s) \<le> length s" if "20 < length s"
    using lzf_out_spec(2) [OF assms(1) _ assms(2)] that by simp
  show ?thesis
    using e l length_len_bytes [of "length s"] length_len_bytes [of "length (lzf_out env s)"] by (auto simp: raw_bytes_def)
qed

lemma rdbSaveKeyValuePair_put:
  assumes "env_ok env" "key_ok env senv s j k" "set_max_intset_entries senv < 2 ^ 29 - 2" "db_dict (get_db j s) k = Some v"
    "getExpire j k s = Some e"
  shows "rdbSaveKeyValuePair env w k v e (sv_now s) \<bind> (\<lambda>(w1, b). f w1) = put_bytes w (pair_bytes env s j k) \<bind> f"
proof -
  have v: "savable senv v" "length (obj_bytes env v) < 2 ^ 31" "length k < 2 ^ 30" using assms(2,4) by (auto simp: key_ok_def)
  have key: "rdbSaveStringObject env w1 (Raw k) = emit w1 (raw_bytes env k)" "length (raw_bytes env k) < 2 ^ 31" for w1
    using rdbSaveStringObject_emit [OF assms(1), of "Raw k"] length_raw_bytes [OF assms(1), of k] v(3) by (simp_all add: sobj_ok_def)
  note obj = rdbSaveObject_emit [OF assms(1) v(1) assms(3)]
  let ?B = "type_byte v # raw_bytes env k @ obj_bytes env v"
  have body: "do { (w2, _) \<leftarrow> rdbSaveObjectType w1 v; (w3, _) \<leftarrow> rdbSaveStringObject env w2 (Raw k); (w4, _) \<leftarrow> rdbSaveObject env w3 v; Some (w4, True) }
      = put_bytes w1 ?B \<bind> (\<lambda>w2. Some (w2, True))" for w1
  proof -
    have "do { (w2, _) \<leftarrow> emit w1 [type_byte v]; (w3, _) \<leftarrow> emit w2 (raw_bytes env k); (w4, _) \<leftarrow> emit w3 (obj_bytes env v); Some (w4, True) }
        = put_bytes w1 ([type_byte v] @ raw_bytes env k @ obj_bytes env v) \<bind> (\<lambda>w2. Some (w2, True))"
      using key(2) v(2) by (simp add: emit_put put_put_bind)
    then show ?thesis by (simp only: obj key(1)) simp
  qed
  have "rdbSaveKeyValuePair env w k v e (sv_now s) = (if saved s j k then put_bytes w (pair_bytes env s j k) \<bind> (\<lambda>w2. Some (w2, True)) else Some (w, False))"
  proof (cases "db_expires (get_db j s) k")
    case None
    then have "e = - 1" "saved s j k" "pair_bytes env s j k = ?B" using assms(4,5) by (auto simp: getExpire_def saved_def pair_bytes_def)
    then show ?thesis unfolding rdbSaveKeyValuePair_def body by simp
  next
    case (Some t)
    then have t: "e = t" "0 \<le> t" "saved s j k \<longleftrightarrow> \<not> t < sv_now s" using assms(2,5) by (auto simp: getExpire_def key_ok_def saved_def split: if_splits)
    show ?thesis
    proof (cases "t < sv_now s")
      case True
      then show ?thesis using t by (simp add: rdbSaveKeyValuePair_def)
    next
      case False
      let ?T = "252 # store_native (rdb_be env) 8 t"
      have p: "pair_bytes env s j k = ?T @ ?B" using False t Some assms(4) by (simp add: pair_bytes_def)
      have T: "do { (w1, _) \<leftarrow> emit w [252]; (w2, _) \<leftarrow> emit w1 (store_native (rdb_be env) 8 t); Some w2 } = put_bytes w ?T"
        using put_put_bind [of w "[252]" "store_native (rdb_be env) 8 t" Some] by (simp add: emit_put)
      show ?thesis
        using False t put_put_bind [of w ?T ?B "\<lambda>w2. Some (w2, True)"]
        unfolding rdbSaveKeyValuePair_def body rdbSaveType_def rdbSaveMillisecondTime_def rdbWriteRaw_emit p t(1) T by simp
    qed
  qed
  moreover have "pair_bytes env s j k = []" if "\<not> saved s j k" using that by (simp add: pair_bytes_def)
  ultimately show ?thesis by simp
qed

lemma key_ok_expire: "key_ok env senv s j k \<Longrightarrow> \<exists>v e. db_dict (get_db j s) k = Some v \<and> getExpire j k s = Some e"
  by (auto simp: key_ok_def getExpire_def dbExists_def split: option.split)

lemma save_keys_put:
  assumes "env_ok env" "set_max_intset_entries senv < 2 ^ 29 - 2" "\<forall>k\<in>set ks. key_ok env senv s j k"
  shows "save_keys env s j ks w = put_bytes w (concat (map (pair_bytes env s j) ks))"
  using assms(3)
proof (induction ks arbitrary: w)
  case (Cons k ks)
  have k: "key_ok env senv s j k" using Cons.prems by simp
  obtain v e where "db_dict (get_db j s) k = Some v" "getExpire j k s = Some e" using key_ok_expire [OF k] by blast
  moreover have "save_keys env s j ks = (\<lambda>w1. put_bytes w1 (concat (map (pair_bytes env s j) ks)))" using Cons by (intro ext) simp
  ultimately show ?case
    using rdbSaveKeyValuePair_put [OF assms(1) k assms(2), of v e w "save_keys env s j ks"] by (simp add: put_put)
qed simp

definition db_bytes :: "rdb_env \<Rightarrow> (nat \<Rightarrow> key list) \<Rightarrow> server \<Rightarrow> nat \<Rightarrow> u8 list" where
  "db_bytes env order s j = (if order j = [] then [] else 254 # len_bytes j @ concat (map (pair_bytes env s j) (order j)))"

lemma save_dbs_put:
  assumes "env_ok env" "set_max_intset_entries senv < 2 ^ 29 - 2" "\<forall>j\<in>set js. \<forall>k\<in>set (order j). key_ok env senv s j k"
  shows "save_dbs env order s js w = put_bytes w (concat (map (db_bytes env order s) js))"
  using assms(3)
proof (induction js arbitrary: w)
  case (Cons j js)
  have keys: "save_keys env s j (order j) w1 = put_bytes w1 (concat (map (pair_bytes env s j) (order j)))" for w1
    using save_keys_put [OF assms(1,2)] Cons.prems by simp
  have "length (len_bytes j) < 2 ^ 31" using length_len_bytes [of j] by simp
  moreover have "save_dbs env order s js = (\<lambda>w1. put_bytes w1 (concat (map (db_bytes env order s) js)))" using Cons by (intro ext) simp
  ultimately show ?case
    using keys by (simp add: db_bytes_def [of env order s j] rdbSaveType_def rdbWriteRaw_emit rdbSaveLen_emit emit_put put_put_bind put_put)
qed simp

definition rdb_body :: "rdb_env \<Rightarrow> (nat \<Rightarrow> key list) \<Rightarrow> server \<Rightarrow> u8 list" where
  "rdb_body env order s = bytes ''REDIS0006'' @ concat (map (db_bytes env order s) [0..<length (sv_dbs s)]) @ [255]"

definition rdb_file :: "rdb_env \<Rightarrow> (nat \<Rightarrow> key list) \<Rightarrow> server \<Rightarrow> u8 list" where
  "rdb_file env order s = rdb_body env order s @ put_le 8 (uint (if rdb_checksum env then crc64 0 (rdb_body env order s) else 0))"

lemma rdbSaveRio_file:
  assumes "env_ok env" "set_max_intset_entries senv < 2 ^ 29 - 2" "\<forall>j<length (sv_dbs s). \<forall>k\<in>set (order j). key_ok env senv s j k"
  shows "map_option r_data (rdbSaveRio env order s (rioInitWithFile [] room))
    = (if length (rdb_file env order s) \<le> room then Some (rdb_file env order s) else None)"
proof -
  define r where "r = (if rdb_checksum env then (rioInitWithFile [] room)\<lparr>r_update := True\<rparr> else rioInitWithFile [] room)"
  have r: "r_data r = []" "r_room r = Some room" "r_cksum r = 0" "r_update r = rdb_checksum env"
    by (simp_all add: r_def rioInitWithFile_def)
  let ?b = "rdb_body env order s"
  have dbs: "save_dbs env order s [0..<length (sv_dbs s)] w = put_bytes w (concat (map (db_bytes env order s) [0..<length (sv_dbs s)]))" for w
    using save_dbs_put [OF assms(1,2)] assms(3) by simp
  have magic: "length (bytes ''REDIS0006'') < 2 ^ 31" by (simp add: bytes_def)
  have "rdbSaveRio env order s (rioInitWithFile [] room) = put_bytes (Some r) ?b \<bind> (\<lambda>w. w \<bind> (\<lambda>r2. rioWrite r2 (put_le 8 (uint (r_cksum r2)))))"
    unfolding rdbSaveRio_def r_def [symmetric] rdbWriteRaw_emit rdbSaveType_def dbs rev64.store_then_revifbe Option.bind.bind_lunit
    using magic by (simp add: emit_put put_put_bind rdb_body_def)
  also have "\<dots> = (if fits r (length ?b) then rioWrite (wrote r ?b) (put_le 8 (uint (r_cksum (wrote r ?b)))) else None)"
    by (simp add: put_Some r)
  also have "r_cksum (wrote r ?b) = (if rdb_checksum env then crc64 0 ?b else 0)" by (simp add: wrote_def r)
  finally show ?thesis by (auto simp: rioWrite_eq rdb_file_def r fits_def) (simp_all add: wrote_def r)
qed

section \<open>The keyspace out of a file\<close>

text \<open>A key survives when it had not expired at the time of the save nor, unless the loading server is a replica, at the time
  of the load.\<close>

definition survives :: "server \<Rightarrow> bool \<Rightarrow> int \<Rightarrow> nat \<Rightarrow> key \<Rightarrow> bool" where
  "survives s slave now j k \<longleftrightarrow>
     db_dict (get_db j s) k \<noteq> None \<and> saved s j k \<and> (case db_expires (get_db j s) k of None \<Rightarrow> True | Some t \<Rightarrow> slave \<or> now \<le> t)"

text \<open>\<open>restored s now j K t t'\<close>: \<open>t'\<close> is \<open>t\<close> with the keys \<open>K\<close> of database \<open>j\<close> as they are in \<open>s\<close>.\<close>

definition restored :: "server \<Rightarrow> int \<Rightarrow> nat \<Rightarrow> key set \<Rightarrow> server \<Rightarrow> server \<Rightarrow> bool" where
  "restored s now j K t t' \<longleftrightarrow>
     length (sv_dbs t') = length (sv_dbs t) \<and> sv_env t' = sv_env t \<and> sv_slave t' = sv_slave t \<and> sv_now t' = sv_now t
     \<and> (\<forall>i. i \<noteq> j \<longrightarrow> get_db i t' = get_db i t)
     \<and> (\<forall>k. if k \<in> K \<and> survives s (sv_slave t) now j k
            then rel_option same_value (db_dict (get_db j s) k) (db_dict (get_db j t') k) \<and> db_expires (get_db j t') k = db_expires (get_db j s) k
            else db_dict (get_db j t') k = db_dict (get_db j t) k \<and> db_expires (get_db j t') k = db_expires (get_db j t) k)"

lemma restored_empty: "restored s now j {} t t"
  by (simp add: restored_def)

lemma restored_trans:
  assumes "restored s now j K t t1" "restored s now j L t1 t2" "K \<inter> L = {}"
  shows "restored s now j (K \<union> L) t t2"
proof -
  have eq: "sv_slave t1 = sv_slave t" using assms(1) by (simp add: restored_def)
  have "if k \<in> K \<union> L \<and> survives s (sv_slave t) now j k
      then rel_option same_value (db_dict (get_db j s) k) (db_dict (get_db j t2) k) \<and> db_expires (get_db j t2) k = db_expires (get_db j s) k
      else db_dict (get_db j t2) k = db_dict (get_db j t) k \<and> db_expires (get_db j t2) k = db_expires (get_db j t) k" for k
  proof -
    have "k \<notin> K \<or> k \<notin> L" using assms(3) by blast
    moreover note assms(1) [unfolded restored_def, THEN conjunct2, THEN conjunct2, THEN conjunct2, THEN conjunct2, THEN conjunct2, rule_format, of k]
      assms(2) [unfolded restored_def eq, THEN conjunct2, THEN conjunct2, THEN conjunct2, THEN conjunct2, THEN conjunct2, rule_format, of k]
    ultimately show ?thesis by (auto split: if_splits)
  qed
  then show ?thesis using assms(1,2) by (simp add: restored_def)
qed

lemma type_byte_range: "type_byte v \<in> {0, 2, 11}"
  by (cases v rule: type_byte.cases) simp_all

lemma rdbLoadType_ahead: "ahead r = b # rest \<Longrightarrow> rdbLoadType r = Some (b, advance r [b])"
  by (simp add: rdbLoadType_def rioRead_Cons del: One_nat_def)

lemma load_store_time:
  assumes "ahead r = store_native be 8 t @ rest" "0 \<le> t" "t < 2 ^ 63"
  shows "rdbLoadMillisecondTime be r = Some (t, advance r (store_native be 8 t))"
proof -
  have "sign_extend 8 (t mod 256 ^ 8) = t" using assms(2,3) by (intro sign_extend_id) (simp add: fits_signed_def)
  then show ?thesis using rioRead_ahead [OF assms(1)] by (simp add: rdbLoadMillisecondTime_def load_store_native)
qed

text \<open>The type of an entry with its time to live.\<close>

lemma load_type_bytes:
  assumes "ahead r = (case e of None \<Rightarrow> [] | Some t \<Rightarrow> 252 # store_native (rdb_be env) 8 t) @ b # rest" "b \<notin> {252, 253}"
    "\<forall>t. e = Some t \<longrightarrow> 0 \<le> t \<and> t < 2 ^ 63"
  shows "load_type env r = Some (case e of None \<Rightarrow> - 1 | Some t \<Rightarrow> t, b,
    advance r ((case e of None \<Rightarrow> [] | Some t \<Rightarrow> 252 # store_native (rdb_be env) 8 t) @ [b]))"
proof (cases e)
  case None
  then show ?thesis using assms(1,2) rdbLoadType_ahead [of r b rest] by (simp add: load_type_def)
next
  case (Some t)
  let ?t = "store_native (rdb_be env) 8 t"
  have a: "ahead r = [252] @ ?t @ b # rest" using assms(1) Some by simp
  have r1: "rdbLoadType r = Some (252, advance r [252])" using rdbLoadType_ahead [of r 252] a by simp
  note a1 = ahead_advance [OF a]
  have r2: "rdbLoadMillisecondTime (rdb_be env) (advance r [252]) = Some (t, advance r ([252] @ ?t))"
    using load_store_time [OF a1] assms(3) Some by simp
  have "rdbLoadType (advance r ([252] @ ?t)) = Some (b, advance r ([252] @ ?t @ [b]))"
    using rdbLoadType_ahead [OF ahead_advance [OF a1]] by simp
  then show ?thesis using r1 r2 Some assms(3) by (simp add: load_type_def)
qed

lemma dbAdd_restores:
  assumes "j < length (sv_dbs t)" "db_dict (get_db j t) k = None" "db_expires (get_db j t) k = None" "\<not> is_list v'"
    "db_dict (get_db j s) k = Some v" "same_value v v'" "db_expires (get_db j s) k = e" "survives s (sv_slave t) now j k"
    "\<forall>w. e = Some w \<longrightarrow> 0 \<le> w"
  shows "\<exists>t'. do { s1 \<leftarrow> dbAdd j k v' t; if (case e of None \<Rightarrow> - 1 | Some w \<Rightarrow> w) \<noteq> - 1 then setExpire j k (case e of None \<Rightarrow> - 1 | Some w \<Rightarrow> w) s1 else Some s1 }
    = Some t' \<and> restored s now j {k} t t'"
proof -
  have add: "dbAdd j k v' t = Some (put_key j k v' t)" using assms(2,4) by (simp add: dbAdd_def dbExists_def)
  show ?thesis
  proof (cases e)
    case None
    then show ?thesis using add assms by (auto simp: restored_def put_key_def get_db_upd)
  next
    case (Some w)
    then have "w \<noteq> - 1" using assms(9) by auto
    moreover have "dbExists j k (put_key j k v' t)" using assms(1) by (simp add: dbExists_def put_key_def get_db_upd)
    ultimately show ?thesis using Some add assms by (auto simp: restored_def put_key_def setExpire_def get_db_upd)
  qed
qed

lemma load_loop_pair:
  assumes "env_ok env" "key_ok env senv s j k" "set_max_intset_entries senv < 2 ^ 29 - 2" "set_max_intset_entries (sv_env t) < 2 ^ 29 - 2"
    "rdb_be env' = rdb_be env" "ahead r = pair_bytes env s j k @ rest" "j < length (sv_dbs t)" "db_dict (get_db j t) k = None"
    "db_expires (get_db j t) k = None"
  shows "\<exists>t'. load_loop env' ver now r j t = load_loop env' ver now (advance r (pair_bytes env s j k)) j t' \<and> restored s now j {k} t t'"
proof (cases "saved s j k")
  case False
  then have "pair_bytes env s j k = []" "restored s now j {k} t t" by (auto simp: pair_bytes_def restored_def survives_def)
  then show ?thesis by (intro exI [of _ t]) simp
next
  case True
  obtain v where v: "db_dict (get_db j s) k = Some v" "savable senv v" "length k < 2 ^ 30" using assms(2) by (auto simp: key_ok_def)
  let ?e = "db_expires (get_db j s) k"
  let ?h = "case ?e of None \<Rightarrow> [] | Some t \<Rightarrow> 252 # store_native (rdb_be env) 8 t"
  let ?E = "case ?e of None \<Rightarrow> - 1 | Some t \<Rightarrow> t"
  have p: "pair_bytes env s j k = ?h @ type_byte v # raw_bytes env k @ obj_bytes env v" using True v(1) by (simp add: pair_bytes_def)
  have e: "\<forall>t. ?e = Some t \<longrightarrow> 0 \<le> t \<and> t < 2 ^ 63" using assms(2) by (simp add: key_ok_def)
  have tb: "type_byte v \<notin> {252, 253}" "type_byte v \<noteq> 255" "type_byte v \<noteq> 254" using type_byte_range [of v] by auto
  have a: "ahead r = (?h @ [type_byte v]) @ raw_bytes env k @ obj_bytes env v @ rest" using assms(6) p by simp
  have ty: "load_type env' r = Some (?E, type_byte v, advance r (?h @ [type_byte v]))"
    using load_type_bytes [where r = r and e = ?e and env = env' and b = "type_byte v" and rest = "raw_bytes env k @ obj_bytes env v @ rest",
        unfolded assms(5)] a tb(1) e by simp
  note a1 = ahead_advance [OF a]
  have key: "rdbLoadStringObject (advance r (?h @ [type_byte v])) = Some (Raw k, advance r (?h @ type_byte v # raw_bytes env k))"
    using rdbGenericLoad_bytes [OF assms(1) a1, of False] v(3) by (auto simp: rdbLoadStringObject_def)
  have a2: "ahead (advance r (?h @ type_byte v # raw_bytes env k)) = obj_bytes env v @ rest" using ahead_advance [OF a1] by simp
  obtain v' where v': "rdbLoadObject (sv_env t) (type_byte v) (advance r (?h @ type_byte v # raw_bytes env k)) = Some (v', advance r (pair_bytes env s j k))"
      "same_value v v'"
    using rdbLoadObject_bytes [OF assms(1) v(2) assms(3,4) a2] p by auto
  have nl: "\<not> is_list v'" using v'(2) by (cases v; cases v') simp_all
  have step: "load_loop env' ver now r j t = load_loop env' ver now (advance r (pair_bytes env s j k)) j t'"
    if "load_pair j ?E (type_byte v) now (advance r (?h @ [type_byte v])) t = Some (advance r (pair_bytes env s j k), t')" for t'
    using ty tb that by (subst load_loop.simps) simp
  show ?thesis
  proof (cases "\<not> sv_slave t \<and> ?E \<noteq> - 1 \<and> ?E < now")
    case True
    then have "restored s now j {k} t t" by (auto simp: restored_def survives_def split: option.splits)
    moreover have "load_pair j ?E (type_byte v) now (advance r (?h @ [type_byte v])) t = Some (advance r (pair_bytes env s j k), t)"
      using key v'(1) True by (simp add: load_pair_def)
    ultimately show ?thesis using step by blast
  next
    case False
    have sv: "survives s (sv_slave t) now j k" using v(1) \<open>saved s j k\<close> False e by (auto simp: survives_def split: option.splits)
    obtain t' where t': "do { s1 \<leftarrow> dbAdd j k v' t; if ?E \<noteq> - 1 then setExpire j k ?E s1 else Some s1 } = Some t'" "restored s now j {k} t t'"
      using dbAdd_restores [OF assms(7-9) nl v(1) v'(2) refl sv] e by blast
    have "load_pair j ?E (type_byte v) now (advance r (?h @ [type_byte v])) t = Some (advance r (pair_bytes env s j k), t')"
      using key v'(1) False t'(1) unfolding load_pair_def by (auto split: bind_splits)
    then show ?thesis using step t'(2) by blast
  qed
qed

lemma restoredD:
  assumes "restored s now j K t t'"
  shows "length (sv_dbs t') = length (sv_dbs t)" "sv_env t' = sv_env t" "sv_slave t' = sv_slave t" "i \<noteq> j \<Longrightarrow> get_db i t' = get_db i t"
    "k \<notin> K \<Longrightarrow> db_dict (get_db j t') k = db_dict (get_db j t) k" "k \<notin> K \<Longrightarrow> db_expires (get_db j t') k = db_expires (get_db j t) k"
    "sv_now t' = sv_now t"
  using assms by (auto simp: restored_def)

lemma load_loop_keys:
  assumes "env_ok env" "set_max_intset_entries senv < 2 ^ 29 - 2" "rdb_be env' = rdb_be env"
    "\<forall>k\<in>set ks. key_ok env senv s j k" "distinct ks" "set_max_intset_entries (sv_env t) < 2 ^ 29 - 2"
    "ahead r = concat (map (pair_bytes env s j) ks) @ rest" "j < length (sv_dbs t)"
    "\<forall>k\<in>set ks. db_dict (get_db j t) k = None \<and> db_expires (get_db j t) k = None"
  shows "\<exists>t'. load_loop env' ver now r j t = load_loop env' ver now (advance r (concat (map (pair_bytes env s j) ks))) j t' \<and> restored s now j (set ks) t t'"
  using assms(4-9)
proof (induction ks arbitrary: r t)
  case Nil
  then show ?case using restored_empty by auto
next
  case (Cons k ks)
  have a: "ahead r = pair_bytes env s j k @ concat (map (pair_bytes env s j) ks) @ rest" using Cons.prems(4) by simp
  have k: "key_ok env senv s j k" "db_dict (get_db j t) k = None" "db_expires (get_db j t) k = None" using Cons.prems(1,6) by simp_all
  obtain t1 where t1: "load_loop env' ver now r j t = load_loop env' ver now (advance r (pair_bytes env s j k)) j t1" "restored s now j {k} t t1"
    using load_loop_pair [OF assms(1) k(1) assms(2) Cons.prems(3) assms(3) a Cons.prems(5) k(2,3)] by blast
  note d = restoredD [OF t1(2)]
  have t: "db_dict (get_db j t1) x = None \<and> db_expires (get_db j t1) x = None" if "x \<in> set ks" for x
    using d(5,6) [of x] Cons.prems(2,6) that by auto
  obtain t2 where t2: "load_loop env' ver now (advance r (pair_bytes env s j k)) j t1
        = load_loop env' ver now (advance (advance r (pair_bytes env s j k)) (concat (map (pair_bytes env s j) ks))) j t2" "restored s now j (set ks) t1 t2"
    using Cons.IH [OF _ _ _ ahead_advance [OF a], of t1] Cons.prems(1-3,5) d(1,2) t by auto
  have "restored s now j ({k} \<union> set ks) t t2" using restored_trans [OF t1(2) t2(2)] Cons.prems(2) by simp
  then show ?case using t1(1) t2(1) by auto
qed

text \<open>A database of the loading server is a copy when it has exactly the surviving keys, with their values and times to live.\<close>

definition copy_of :: "server \<Rightarrow> bool \<Rightarrow> int \<Rightarrow> nat \<Rightarrow> redisDb \<Rightarrow> bool" where
  "copy_of s slave now j db \<longleftrightarrow>
     (\<forall>k. if survives s slave now j k
          then rel_option same_value (db_dict (get_db j s) k) (db_dict db k) \<and> db_expires db k = db_expires (get_db j s) k
          else db_dict db k = None \<and> db_expires db k = None)"

definition blank :: "redisDb \<Rightarrow> bool" where
  "blank db \<longleftrightarrow> db_dict db = Map.empty \<and> db_expires db = Map.empty"

lemma copy_of_restored:
  assumes "restored s now j K t t'" "blank (get_db j t)" "K = dom (db_dict (get_db j s))"
  shows "copy_of s (sv_slave t) now j (get_db j t')"
proof -
  have "k \<in> K" if "survives s (sv_slave t) now j k" for k using that assms(3) by (auto simp: survives_def)
  then show ?thesis using assms(1,2) by (auto simp: restored_def copy_of_def blank_def split: if_splits)
qed

lemma load_loop_dbs:
  assumes "env_ok env" "set_max_intset_entries senv < 2 ^ 29 - 2" "rdb_be env' = rdb_be env"
    "\<forall>j\<in>set js. set (order j) = dom (db_dict (get_db j s)) \<and> distinct (order j) \<and> (\<forall>k\<in>set (order j). key_ok env senv s j k)" "distinct js"
    "set_max_intset_entries (sv_env t) < 2 ^ 29 - 2" "ahead r = concat (map (db_bytes env order s) js) @ rest"
    "\<forall>j\<in>set js. j < length (sv_dbs t) \<and> j < 2 ^ 32 - 1 \<and> blank (get_db j t)"
  shows "\<exists>t' i'. load_loop env' ver now r i t = load_loop env' ver now (advance r (concat (map (db_bytes env order s) js))) i' t'
    \<and> length (sv_dbs t') = length (sv_dbs t) \<and> (\<forall>j\<in>set js. copy_of s (sv_slave t) now j (get_db j t')) \<and> (\<forall>j. j \<notin> set js \<longrightarrow> get_db j t' = get_db j t)"
  using assms(4-8)
proof (induction js arbitrary: r t i)
  case Nil
  then show ?case by auto
next
  case (Cons j js)
  let ?D = "db_bytes env order s j"
  have a: "ahead r = ?D @ concat (map (db_bytes env order s) js) @ rest" using Cons.prems(4) by simp
  have j: "j < length (sv_dbs t)" "j < 2 ^ 32 - 1" "blank (get_db j t)" "set (order j) = dom (db_dict (get_db j s))" "distinct (order j)"
      "\<forall>k\<in>set (order j). key_ok env senv s j k"
    using Cons.prems(1,5) by simp_all
  have "\<exists>t1 i1. load_loop env' ver now r i t = load_loop env' ver now (advance r ?D) i1 t1 \<and> restored s now j (set (order j)) t t1"
  proof (cases "order j = []")
    case True
    then show ?thesis using restored_empty [of s now j t] by (intro exI [of _ t] exI [of _ i]) (simp add: db_bytes_def)
  next
    case False
    let ?K = "concat (map (pair_bytes env s j) (order j))"
    have D: "?D = 254 # len_bytes j @ ?K" using False by (simp add: db_bytes_def)
    have a0: "ahead r = [254] @ len_bytes j @ ?K @ concat (map (db_bytes env order s) js) @ rest" using a D by simp
    have "load_type env' r = Some (- 1, 254, advance r [254])"
      using load_type_bytes [of r env' None 254] a0 by simp
    moreover have "rdbLoadLen (advance r [254]) = (j, False, advance r ([254] @ len_bytes j))"
      using rdbLoadLen_bytes [OF ahead_advance [OF a0]] j(2) by simp
    ultimately have sel: "load_loop env' ver now r i t = load_loop env' ver now (advance r ([254] @ len_bytes j)) j t"
      using j(1,2) by (subst load_loop.simps) (simp add: REDIS_RDB_LENERR_def)
    have a1: "ahead (advance r ([254] @ len_bytes j)) = ?K @ concat (map (db_bytes env order s) js) @ rest"
      using ahead_advance [OF ahead_advance [OF a0]] by simp
    have "\<forall>k\<in>set (order j). db_dict (get_db j t) k = None \<and> db_expires (get_db j t) k = None" using j(3) by (simp add: blank_def)
    then obtain t1 where "load_loop env' ver now (advance r ([254] @ len_bytes j)) j t = load_loop env' ver now (advance (advance r ([254] @ len_bytes j)) ?K) j t1"
        "restored s now j (set (order j)) t t1"
      using load_loop_keys [OF assms(1-3) j(6,5) Cons.prems(3) a1 j(1)] by blast
    then show ?thesis using sel D by auto
  qed
  then obtain t1 i1 where t1: "load_loop env' ver now r i t = load_loop env' ver now (advance r ?D) i1 t1" "restored s now j (set (order j)) t t1" by blast
  note d = restoredD [OF t1(2)]
  have prems: "\<forall>i\<in>set js. i < length (sv_dbs t1) \<and> i < 2 ^ 32 - 1 \<and> blank (get_db i t1)"
    using Cons.prems(2,5) d(1,4) by (metis distinct.simps(2) list.set_intros(2))
  obtain t' i' where t': "load_loop env' ver now (advance r ?D) i1 t1 = load_loop env' ver now (advance (advance r ?D) (concat (map (db_bytes env order s) js))) i' t'"
      "length (sv_dbs t') = length (sv_dbs t1)" "\<forall>j\<in>set js. copy_of s (sv_slave t1) now j (get_db j t')" "\<forall>j. j \<notin> set js \<longrightarrow> get_db j t' = get_db j t1"
    using Cons.IH [OF _ _ _ ahead_advance [OF a] prems, of i1] Cons.prems(1-3) d(2) by auto
  have "copy_of s (sv_slave t) now j (get_db j t')"
    using t'(4) copy_of_restored [OF t1(2) j(3,4)] Cons.prems(2) by simp
  then show ?case using t1(1) t' d(1,3,4) by (intro exI [of _ t'] exI [of _ i']) auto
qed

section \<open>Properties\<close>

lemma rdbLoad_file:
  assumes "env_ok env" "set_max_intset_entries senv < 2 ^ 29 - 2" "rdb_be env' = rdb_be env"
    "\<forall>j<length (sv_dbs s). set (order j) = dom (db_dict (get_db j s)) \<and> distinct (order j) \<and> (\<forall>k\<in>set (order j). key_ok env senv s j k)"
    "set_max_intset_entries (sv_env t) < 2 ^ 29 - 2" "length (sv_dbs s) \<le> length (sv_dbs t)" "length (sv_dbs s) < 2 ^ 32 - 1"
    "\<forall>j<length (sv_dbs s). blank (get_db j t)"
  shows "\<exists>t'. rdbLoad env' (rdb_file env order s) t = Some (Loaded t') \<and> (\<forall>j<length (sv_dbs s). copy_of s (sv_slave t) (sv_now t) j (get_db j t'))"
proof -
  define r where "r = (rioInitWithFile (rdb_file env order s) 0)\<lparr>r_update := rdb_checksum env', r_chunk := rdb_chunk env'\<rparr>"
  let ?m = "bytes ''REDIS0006''" and ?D = "concat (map (db_bytes env order s) [0..<length (sv_dbs s)])"
  define c where "c = put_le 8 (uint (if rdb_checksum env then crc64 0 (rdb_body env order s) else 0))"
  have a: "ahead r = ?m @ ?D @ [255] @ c" by (simp add: ahead_def r_def rioInitWithFile_def rdb_file_def rdb_body_def c_def)
  have len: "length ?m = 9" by (simp add: bytes_def)
  have m: "rioRead r 9 = Some (?m, advance r ?m)" using rioRead_ahead [OF a] unfolding len .
  have ver: "take 5 ?m = bytes ''REDIS''" "fst (strtoll_end (drop 5 ?m)) = 6"
    by (simp_all add: bytes_def strtoll_end_def isspace_def is_digit_def digit_val_def)
  let ?t = "t\<lparr>sv_loading := True\<rparr>"
  have start: "rdbLoad env' (rdb_file env order s) t = load_loop env' 6 (sv_now t) (advance r ?m) 0 ?t"
    unfolding rdbLoad_def r_def [symmetric] m using ver by simp
  obtain t1 i where t1: "load_loop env' 6 (sv_now t) (advance r ?m) 0 ?t = load_loop env' 6 (sv_now t) (advance (advance r ?m) ?D) i t1"
      "\<forall>j<length (sv_dbs s). copy_of s (sv_slave t) (sv_now t) j (get_db j t1)"
    using load_loop_dbs [OF assms(1-3) _ _ _ ahead_advance [OF a], of "?t" 6 "sv_now t" 0] assms(4-8) by auto
  have a1: "ahead (advance r (?m @ ?D)) = [255] @ c" using ahead_advance [OF ahead_advance [OF a]] by simp
  define r1 where "r1 = advance r (rdb_body env order s)"
  have ty: "load_type env' (advance r (?m @ ?D)) = Some (- 1, 255, r1)"
    using load_type_bytes [of "advance r (?m @ ?D)" env' None 255 c] a1 by (simp add: r1_def rdb_body_def)
  have a2: "ahead r1 = c @ []" using ahead_advance [OF a1] by (simp add: r1_def rdb_body_def)
  have rc: "rioRead r1 8 = Some (c, advance r1 c)" using rioRead_ahead [OF a2] by (simp add: c_def)
  have ck: "r_cksum r1 = (if rdb_checksum env' then crc64 0 (rdb_body env order s) else 0)" by (simp add: r1_def r_def rioInitWithFile_def)
  define x where "x = uint (if rdb_checksum env then crc64 0 (rdb_body env order s) else 0)"
  have x: "0 \<le> x" "x < 256 ^ 8" "c = put_le 8 x" using uint_bounded [of "if rdb_checksum env then crc64 0 (rdb_body env order s) else 0"] by (simp_all add: x_def c_def)
  obtain b where b: "memrevifbe (rdb_be env') memrev64 c = Some b" "load_native (rdb_be env') b = x"
    using rev64.load_after_revifbe [of "rdb_be env'" x] x by auto
  have "load_end env' 6 r1 t1 = Loaded (t1\<lparr>sv_loading := False\<rparr>)"
    using rc b ck by (auto simp: load_end_def x_def)
  then have "load_loop env' 6 (sv_now t) (advance r (?m @ ?D)) i t1 = Some (Loaded (t1\<lparr>sv_loading := False\<rparr>))"
    using ty by (subst load_loop.simps) simp
  then show ?thesis using start t1 by auto
qed

lemma rdbSavedObjectLen_bytes:
  assumes "env_ok env" "savable senv v" "set_max_intset_entries senv < 2 ^ 29 - 2"
  shows "rdbSavedObjectLen env v = (if length (obj_bytes env v) < 2 ^ 31 then Some (length (obj_bytes env v)) else None)"
  using rdbSaveObject_emit(1) [OF assms, of None] by (simp add: rdbSavedObjectLen_def emit_def)

text \<open>C3: A snapshot restores the keyspace. Let the databases hold strings and sets, in any encodings, whose size on disk can
  be computed. Then \<^verbatim>\<open>rdbSaveRio\<close> writes one file, or reports an error when the device is smaller than it, and
  \<^verbatim>\<open>rdbLoad\<close> of that file into an empty server returns with exactly the keys that had not expired at the time of the
  save nor, unless the server is a replica, at the time of the load. Each has its time to live and a value with the same
  bytes or elements. Compression, what its memory holds, checksums, the limit for integer sets, the chunks of the reads
  and the order of the iteration may differ between the servers; the byte order of the hosts may not.\<close>

theorem rdb_roundtrip:
  assumes "env_ok env" "rdb_be env' = rdb_be env"
    "set_max_intset_entries (sv_env s) < 2 ^ 29 - 2" "set_max_intset_entries (sv_env t) < 2 ^ 29 - 2"
    "\<forall>j<length (sv_dbs s). set (order j) = dom (db_dict (get_db j s)) \<and> distinct (order j)"
    "\<forall>j<length (sv_dbs s). \<forall>k v. db_dict (get_db j s) k = Some v \<longrightarrow> savable (sv_env s) v \<and> rdbSavedObjectLen env v \<noteq> None \<and> length k < 2 ^ 30"
    "\<forall>j<length (sv_dbs s). \<forall>k w. db_expires (get_db j s) k = Some w \<longrightarrow> 0 \<le> w \<and> w < 2 ^ 63"
    "length (sv_dbs s) \<le> length (sv_dbs t)" "length (sv_dbs s) < 2 ^ 32 - 1" "\<forall>j<length (sv_dbs s). blank (get_db j t)"
  shows "\<exists>file. (\<forall>room. map_option r_data (rdbSaveRio env order s (rioInitWithFile [] room)) = (if length file \<le> room then Some file else None))
    \<and> (\<exists>t'. rdbLoad env' file t = Some (Loaded t') \<and> (\<forall>j<length (sv_dbs s). copy_of s (sv_slave t) (sv_now t) j (get_db j t')))"
proof -
  have keys: "key_ok env (sv_env s) s j k" if jk: "j < length (sv_dbs s)" "k \<in> set (order j)" for j k
  proof -
    obtain v where v: "db_dict (get_db j s) k = Some v" using assms(5) jk by auto
    then have "savable (sv_env s) v" "rdbSavedObjectLen env v \<noteq> None" "length k < 2 ^ 30" using assms(6) jk(1) by blast+
    then show ?thesis using v assms(7) jk(1) rdbSavedObjectLen_bytes [OF assms(1) _ assms(3), of v] by (auto simp: key_ok_def split: if_splits)
  qed
  then have "\<forall>j<length (sv_dbs s). set (order j) = dom (db_dict (get_db j s)) \<and> distinct (order j) \<and> (\<forall>k\<in>set (order j). key_ok env (sv_env s) s j k)"
    using assms(5) by blast
  from rdbLoad_file [OF assms(1,3,2) this assms(4,8-10)] show ?thesis
    using rdbSaveRio_file [OF assms(1,3)] keys by blast
qed

definition snapshot_env :: rdb_env where
  "snapshot_env = \<lparr>rdb_compression = True, rdb_checksum = True, rdb_be = False, rdb_addr0 = 0, rdb_addr1 = 0, rdb_chunk = 2,
     rdb_junk = \<lambda>_ _. 0, rdb_htab = \<lambda>_ _. - 1\<rparr>"

definition one_key_server :: "(key \<rightharpoonup> robj) \<Rightarrow> (key \<rightharpoonup> int) \<Rightarrow> server" where
  "one_key_server d e =
     \<lparr>sv_dbs = [\<lparr>db_dict = d, db_expires = e, db_watched = Map.empty, db_blocking = {}, db_ready = {}\<rparr>],
      sv_clients = (\<lambda>_. \<lparr>cl_db = 0, cl_multi = False, cl_dirty_cas = False, cl_dirty_exec = False, cl_argv = [], cl_queue = [], cl_watched = [], cl_out = []\<rparr>),
      sv_client_ids = [], sv_ready_keys = [], sv_dirty = 0, sv_now = 1000, sv_lua = None, sv_loading = False, sv_slave = False, sv_hits = 0, sv_misses = 0,
      sv_expired = 0, sv_notify = 0, sv_published = [], sv_propagated = [], sv_env = example_env\<rparr>"

theorem rdb_roundtrip_witness:
  "\<exists>file t' o1. map_option r_data (rdbSaveRio snapshot_env (\<lambda>_. [[97]]) (one_key_server [[97] \<mapsto> StringObj (IntEnc 12)] [[97] \<mapsto> 5000]) (rioInitWithFile [] (length file))) = Some file
    \<and> rdbLoad snapshot_env file (one_key_server Map.empty Map.empty) = Some (Loaded t') \<and> db_dict (get_db 0 t') [97] = Some (StringObj o1)
    \<and> str_bytes o1 = ll_repr 12 \<and> db_expires (get_db 0 t') [97] = Some 5000"
proof -
  let ?s = "one_key_server [[97] \<mapsto> StringObj (IntEnc 12)] [[97] \<mapsto> 5000]"
  have env: "env_ok snapshot_env" by (simp add: env_ok_def snapshot_env_def)
  have len: "length (ll_repr 12) \<le> 20" by (rule length_ll_repr) simp
  have sav: "savable (sv_env ?s) (StringObj (IntEnc 12))" using len by (simp add: sobj_ok_def)
  have max: "set_max_intset_entries (sv_env ?s) < 2 ^ 29 - 2" by (simp add: one_key_server_def example_env_def default_env_def)
  have "length (raw_bytes snapshot_env (ll_repr 12)) \<le> length (ll_repr 12) + 11" using len by (intro length_raw_bytes [OF env]) simp
  then have "rdbSavedObjectLen snapshot_env (StringObj (IntEnc 12)) \<noteq> None" using len rdbSavedObjectLen_bytes [OF env sav max] by simp
  then have vals: "\<forall>j<length (sv_dbs ?s). \<forall>k v. db_dict (get_db j ?s) k = Some v \<longrightarrow> savable (sv_env ?s) v \<and> rdbSavedObjectLen snapshot_env v \<noteq> None \<and> length k < 2 ^ 30"
    using sav by (auto simp: one_key_server_def split: if_splits)
  have "\<exists>file. (\<forall>room. map_option r_data (rdbSaveRio snapshot_env (\<lambda>_. [[97]]) ?s (rioInitWithFile [] room)) = (if length file \<le> room then Some file else None))
      \<and> (\<exists>t'. rdbLoad snapshot_env file (one_key_server Map.empty Map.empty) = Some (Loaded t')
        \<and> (\<forall>j<length (sv_dbs ?s). copy_of ?s (sv_slave (one_key_server Map.empty Map.empty)) (sv_now (one_key_server Map.empty Map.empty)) j (get_db j t')))"
    using max by (intro rdb_roundtrip env vals refl) (simp_all add: one_key_server_def blank_def)
  then obtain f1 t' where f: "\<forall>room. map_option r_data (rdbSaveRio snapshot_env (\<lambda>_. [[97]]) ?s (rioInitWithFile [] room)) = (if length f1 \<le> room then Some f1 else None)"
      "rdbLoad snapshot_env f1 (one_key_server Map.empty Map.empty) = Some (Loaded t')" "copy_of ?s False 1000 0 (get_db 0 t')"
    by (auto simp: one_key_server_def)
  have sv: "survives ?s False 1000 0 [97]" by (simp add: survives_def saved_def one_key_server_def)
  have d: "db_dict (get_db 0 ?s) [97] = Some (StringObj (IntEnc 12))" "db_expires (get_db 0 ?s) [97] = Some 5000" by (simp_all add: one_key_server_def)
  have "rel_option same_value (Some (StringObj (IntEnc 12))) (db_dict (get_db 0 t') [97])" "db_expires (get_db 0 t') [97] = Some 5000"
    using f(3) [unfolded copy_of_def, rule_format, of "[97]"] sv d by simp_all
  moreover have "\<exists>o1. v' = StringObj o1 \<and> str_bytes o1 = ll_repr 12" if "same_value (StringObj (IntEnc 12)) v'" for v' using that by (cases v') auto
  ultimately obtain o1 where "db_dict (get_db 0 t') [97] = Some (StringObj o1)" "str_bytes o1 = ll_repr 12"
    by (auto simp: option_rel_Some1)
  then show ?thesis using f(1,2) \<open>db_expires (get_db 0 t') [97] = Some 5000\<close> by (intro exI [of _ f1] exI [of _ t'] exI [of _ o1]) simp
qed

text \<open>A failed save leaves the old file, and no save leaves a temporary one behind.\<close>

lemma rdbSave_atomic:
  assumes "tmpfile \<noteq> filename" "sys_fopen sys" "rdbSave env order sys tmpfile filename (s, fs) = ((s', fs'), ok)"
  shows "fs' tmpfile = None" "\<not> ok \<Longrightarrow> fs' filename = fs filename \<and> s' = s"
    "ok \<Longrightarrow> fs' filename = map_option r_data (rdbSaveRio env order s (rioInitWithFile [] (sys_room sys)))"
  using assms by (auto simp: rdbSave_def split: option.splits if_splits)

text \<open>Times are written in the order of the host, unlike lengths, integers and the checksum: a little endian snapshot is
  read with other deadlines on a big endian host.\<close>

lemma deadline_depends_on_host:
  assumes "ahead r = store_native False 8 1 @ rest"
  shows "rdbLoadMillisecondTime True r = Some (2 ^ 56, advance r (store_native False 8 1))"
proof -
  have "load_native True (store_native False 8 1) = 2 ^ 56" by (simp add: load_native_def store_native_def numeral_eq_Suc)
  then show ?thesis using rioRead_ahead [OF assms] by (simp add: rdbLoadMillisecondTime_def sign_extend_def)
qed

end
