(* ===== verification/T_Set.thy ===== *)
theory T_Set
  imports Db_Commands
begin

text \<open>
  The set commands, \<^verbatim>\<open>t_set.c\<close>. The sets are objects of the keyspace: an operation that changes one, if only
  by a step of rehashing during a lookup, puts it back under its key. Two keys never share a set, so the
  test whether two sets are the same object is one of keys. \<open>qs cmp\<close> is what \<^verbatim>\<open>qsort\<close> makes of an array of sets
  with a comparison; random numbers and the addresses of hash tables, which go into the fingerprints of
  iterators, are arguments. A reply whose length is set when it is known (\<^verbatim>\<open>setDeferredMultiBulkLength\<close>) is
  the list of its parts in the order in which the client receives them. \<^verbatim>\<open>SSCAN\<close> is left out.
\<close>

fun get_set :: "nat \<Rightarrow> key \<Rightarrow> server \<Rightarrow> setobj option" where
  "get_set i k s = (case db_dict (get_db i s) k of Some (SetObj o1) \<Rightarrow> Some o1 | _ \<Rightarrow> None)"

fun is_set :: "robj \<Rightarrow> bool" where
  "is_set (SetObj o1) = True"
| "is_set _ = False"

abbreviation put_set :: "nat \<Rightarrow> key \<Rightarrow> setobj \<Rightarrow> server \<Rightarrow> server" where
  "put_set i k o1 \<equiv> put_key i k (SetObj o1)"

section \<open>Single elements\<close>

fun sadd_loop :: "set_env \<Rightarrow> u8 list list \<Rightarrow> setobj \<Rightarrow> nat \<Rightarrow> (setobj \<times> nat) option" where
  "sadd_loop env [] o1 added = Some (o1, added)"
| "sadd_loop env (v # vs) o1 added =
     do { (o2, b) \<leftarrow> setTypeAdd env o1 (tryObjectEncoding (createStringObject v));
          sadd_loop env vs o2 (if b then added + 1 else added) }"

definition saddCommand :: "nat \<Rightarrow> u8 list list \<Rightarrow> server \<Rightarrow> server option" where
  "saddCommand c argv s =
     (let i = cur_db c s; key = argv ! 1;
          go = (\<lambda>o1 s2.
            do { (o2, added) \<leftarrow> sadd_loop (sv_env s) (drop 2 argv) o1 0;
                 let s3 = put_set i key o2 s2;
                     s4 = (if added > 0 then notifyKeyspaceEvent NOTIFY_SET ''sadd'' key i (signalModifiedKey i key s3) else s3)
                 in Some (addReply c (IntReply (int added)) (add_dirty (int added) s4)) })
      in do {
        (s1, o1) \<leftarrow> lookupKeyWrite i key s;
        (case o1 of
           None \<Rightarrow> let o2 = setTypeCreate (createStringObject (argv ! 2)) in do { s2 \<leftarrow> dbAdd i key (SetObj o2) s1; go o2 s2 }
         | Some (SetObj o2) \<Rightarrow> go o2 s1
         | Some _ \<Rightarrow> Some (addReply c wrongtypeerr s1)) })"

fun srem_loop :: "set_env \<Rightarrow> u8 list list \<Rightarrow> setobj \<Rightarrow> nat \<Rightarrow> (setobj \<times> nat \<times> bool) option" where
  "srem_loop env [] o1 deleted = Some (o1, deleted, False)"
| "srem_loop env (v # vs) o1 deleted =
     do { (o2, b) \<leftarrow> setTypeRemove env o1 (createStringObject v);
          if b then
            if setTypeSize o2 = 0 then Some (o2, deleted + 1, True) else srem_loop env vs o2 (deleted + 1)
          else srem_loop env vs o2 deleted }"

definition sremCommand :: "nat \<Rightarrow> u8 list list \<Rightarrow> server \<Rightarrow> server option" where
  "sremCommand c argv s =
     (let i = cur_db c s; key = argv ! 1
      in do {
        (s1, o1) \<leftarrow> lookupKeyWriteOrReply c key (IntReply 0) s;
        (case o1 of
           None \<Rightarrow> Some s1
         | Some (SetObj o2) \<Rightarrow>
             do { (o3, deleted, keyremoved) \<leftarrow> srem_loop (sv_env s) (drop 2 argv) o2 0;
                  let s2 = (if keyremoved then fst (dbDelete i key s1) else put_set i key o3 s1);
                      s3 = (if deleted > 0 then
                              let t1 = notifyKeyspaceEvent NOTIFY_SET ''srem'' key i (signalModifiedKey i key s2);
                                  t2 = (if keyremoved then notifyKeyspaceEvent NOTIFY_GENERIC ''del'' key i t1 else t1)
                              in add_dirty (int deleted) t2
                            else s2)
                  in Some (addReply c (IntReply (int deleted)) s3) }
         | Some _ \<Rightarrow> Some (addReply c wrongtypeerr s1)) })"

text \<open>The second half of SMOVE, once the element has been removed from the source.\<close>

definition smove_add :: "nat \<Rightarrow> key \<Rightarrow> setobj option \<Rightarrow> sobj \<Rightarrow> nat \<Rightarrow> server \<Rightarrow> server option" where
  "smove_add i dst dstset ele c s =
     do { (s1, o1) \<leftarrow> (case dstset of
                         None \<Rightarrow> let o2 = setTypeCreate ele in do { t \<leftarrow> dbAdd i dst (SetObj o2) s; Some (t, o2) }
                       | Some o2 \<Rightarrow> Some (s, o2));
          (o3, added) \<leftarrow> setTypeAdd (sv_env s) o1 ele;
          let s2 = put_set i dst o3 s1;
              s3 = (if added then notifyKeyspaceEvent NOTIFY_SET ''sadd'' dst i (add_dirty 1 s2) else s2)
          in Some (addReply c (IntReply 1) s3) }"

definition smoveCommand :: "nat \<Rightarrow> u8 list list \<Rightarrow> server \<Rightarrow> server option" where
  "smoveCommand c argv s =
     (let i = cur_db c s; src = argv ! 1; dst = argv ! 2; ele = tryObjectEncoding (createStringObject (argv ! 3))
      in do {
        (s1, srcset) \<leftarrow> lookupKeyWrite i src s;
        (s2, dstset) \<leftarrow> lookupKeyWrite i dst s1;
        (case srcset of
           None \<Rightarrow> Some (addReply c (IntReply 0) s2)
         | Some (SetObj o1) \<Rightarrow>
             if dstset \<noteq> None \<and> \<not> is_set (the dstset) then Some (addReply c wrongtypeerr s2)
             else if src = dst then Some (addReply c (IntReply 1) s2)
             else do {
               (o2, removed) \<leftarrow> setTypeRemove (sv_env s) o1 ele;
               let s3 = put_set i src o2 s2 in
               if \<not> removed then Some (addReply c (IntReply 0) s3)
               else
                 let s4 = notifyKeyspaceEvent NOTIFY_SET ''srem'' src i s3;
                     s5 = (if setTypeSize o2 = 0
                           then notifyKeyspaceEvent NOTIFY_GENERIC ''del'' src i (fst (dbDelete i src s4)) else s4);
                     s6 = add_dirty 1 (signalModifiedKey i dst (signalModifiedKey i src s5))
                 in smove_add i dst (case dstset of Some (SetObj o3) \<Rightarrow> Some o3 | _ \<Rightarrow> None) ele c s6 }
         | Some _ \<Rightarrow> Some (addReply c wrongtypeerr s2)) })"

definition sismemberCommand :: "nat \<Rightarrow> u8 list list \<Rightarrow> server \<Rightarrow> server option" where
  "sismemberCommand c argv s =
     do { (s1, o1) \<leftarrow> lookupKeyReadOrReply c (argv ! 1) (IntReply 0) s;
          (case o1 of
             None \<Rightarrow> Some s1
           | Some (SetObj o2) \<Rightarrow>
               do { (o3, b) \<leftarrow> setTypeIsMember (sv_env s) o2 (tryObjectEncoding (createStringObject (argv ! 2)));
                    Some (addReply c (IntReply (if b then 1 else 0)) (put_set (cur_db c s) (argv ! 1) o3 s1)) }
           | Some _ \<Rightarrow> Some (addReply c wrongtypeerr s1)) }"

definition scardCommand :: "nat \<Rightarrow> u8 list list \<Rightarrow> server \<Rightarrow> server option" where
  "scardCommand c argv s =
     do { (s1, o1) \<leftarrow> lookupKeyReadOrReply c (argv ! 1) (IntReply 0) s;
          (case o1 of
             None \<Rightarrow> Some s1
           | Some (SetObj o2) \<Rightarrow> Some (addReply c (IntReply (int (setTypeSize o2))) s1)
           | Some _ \<Rightarrow> Some (addReply c wrongtypeerr s1)) }"

text \<open>The element that SPOP removes, as an object, and the set without it.\<close>

fun spop_remove :: "set_env \<Rightarrow> setobj \<Rightarrow> set_elem \<Rightarrow> (setobj \<times> sobj) option" where
  "spop_remove env (SetIntset is) (IntElem v) =
     do { (is', _) \<leftarrow> intsetRemove (env_junk env) is v; Some (SetIntset is', createStringObjectFromLongLong v) }"
| "spop_remove env o1 e =
     do { (o2, _) \<leftarrow> setTypeRemove env o1 (elem_object e); Some (o2, elem_object e) }"

definition spopCommand :: "nat list \<Rightarrow> nat \<Rightarrow> u8 list list \<Rightarrow> server \<Rightarrow> server option" where
  "spopCommand rs c argv s =
     (let i = cur_db c s; key = argv ! 1
      in do {
        (s1, o1) \<leftarrow> lookupKeyWriteOrReply c key NullBulk s;
        (case o1 of
           None \<Rightarrow> Some s1
         | Some (SetObj o2) \<Rightarrow>
             do { (o3, e) \<leftarrow> setTypeRandomElement (sv_env s) rs o2;
                  (o4, ele) \<leftarrow> spop_remove (sv_env s) o3 e;
                  let s2 = notifyKeyspaceEvent NOTIFY_SET ''spop'' key i (put_set i key o4 s1);
                      s3 = rewriteClientCommandVector c [bytes ''SREM'', key, str_bytes ele] s2;
                      s4 = addReply c (Bulk (str_bytes ele)) s3;
                      s5 = (if setTypeSize o4 = 0
                            then notifyKeyspaceEvent NOTIFY_GENERIC ''del'' key i (fst (dbDelete i key s4)) else s4)
                  in Some (add_dirty 1 (signalModifiedKey i key s5)) }
         | Some _ \<Rightarrow> Some (addReply c wrongtypeerr s1)) })"

section \<open>Intersection\<close>

datatype sets_result = SetsMissing server | SetsWrongType server | SetsFound server

fun sinter_lookup :: "bool \<Rightarrow> nat \<Rightarrow> key list \<Rightarrow> server \<Rightarrow> sets_result option" where
  "sinter_lookup store i [] s = Some (SetsFound s)"
| "sinter_lookup store i (k # ks) s =
     do { (s1, o1) \<leftarrow> (if store then lookupKeyWrite i k s else lookupKeyRead i k s);
          (case o1 of
             None \<Rightarrow> Some (SetsMissing s1)
           | Some (SetObj _) \<Rightarrow> sinter_lookup store i ks s1
           | Some _ \<Rightarrow> Some (SetsWrongType s1)) }"

text \<open>An element against one of the other sets.\<close>

fun elem_in :: "set_env \<Rightarrow> setobj \<Rightarrow> set_elem \<Rightarrow> (setobj \<times> bool) option" where
  "elem_in env (SetIntset is) (IntElem v) = do { b \<leftarrow> intsetFind is v; Some (SetIntset is, b) }"
| "elem_in env (SetHT d) (IntElem v) = setTypeIsMember env (SetHT d) (createStringObjectFromLongLong v)"
| "elem_in env o1 (ObjElem b) = setTypeIsMember env o1 (createStringObject b)"

fun in_all :: "nat \<Rightarrow> key \<Rightarrow> key list \<Rightarrow> set_elem \<Rightarrow> server \<Rightarrow> (server \<times> bool) option" where
  "in_all i k0 [] e s = Some (s, True)"
| "in_all i k0 (k # ks) e s =
     (if k = k0 then in_all i k0 ks e s
      else do { o1 \<leftarrow> get_set i k s;
                (o2, b) \<leftarrow> elem_in (sv_env s) o1 e;
                if b then in_all i k0 ks e (put_set i k o2 s) else Some (put_set i k o2 s, False) })"

text \<open>The loop over the first set: \<open>out\<close> are the elements that are sent to the client, \<open>dst\<close> is the set that is
  to be stored.\<close>

partial_function (option) sinter_loop ::
  "u64 \<Rightarrow> u64 \<Rightarrow> bool \<Rightarrow> nat \<Rightarrow> key \<Rightarrow> key list \<Rightarrow> set_iter \<Rightarrow> sobj list \<Rightarrow> setobj \<Rightarrow> server \<Rightarrow> (server \<times> sobj list \<times> setobj) option" where
  "sinter_loop addr0 addr1 store i k0 ks si out dst s =
     do { o1 \<leftarrow> get_set i k0 s;
          (o2, si', e) \<leftarrow> setTypeNext addr0 addr1 o1 si;
          (case e of
             None \<Rightarrow> do { o3 \<leftarrow> setTypeReleaseIterator addr0 addr1 o2 si'; Some (put_set i k0 o3 s, out, dst) }
           | Some x \<Rightarrow>
               do { (s1, all1) \<leftarrow> in_all i k0 ks x (put_set i k0 o2 s);
                    if \<not> all1 then sinter_loop addr0 addr1 store i k0 ks si' out dst s1
                    else if store then
                      do { (dst', _) \<leftarrow> setTypeAdd (sv_env s) dst (elem_object x);
                           sinter_loop addr0 addr1 store i k0 ks si' out dst' s1 }
                    else sinter_loop addr0 addr1 store i k0 ks si' (out @ [elem_object x]) dst s1 }) }"

text \<open>Storing a result set, as both generic commands do it.\<close>

definition store_set :: "string \<Rightarrow> nat \<Rightarrow> key \<Rightarrow> setobj \<Rightarrow> nat \<Rightarrow> server \<Rightarrow> server option" where
  "store_set event i dstkey dstset c s =
     (let (s1, deleted) = dbDelete i dstkey s
      in do {
        s2 \<leftarrow> (if setTypeSize dstset > 0 then
                 do { t \<leftarrow> dbAdd i dstkey (SetObj dstset) s1;
                      Some (notifyKeyspaceEvent NOTIFY_SET event dstkey i (addReply c (IntReply (int (setTypeSize dstset))) t)) }
               else
                 let t = addReply c (IntReply 0) s1
                 in Some (if deleted then notifyKeyspaceEvent NOTIFY_GENERIC ''del'' dstkey i t else t));
        Some (add_dirty 1 (signalModifiedKey i dstkey s2)) })"

definition send_set :: "nat \<Rightarrow> u8 list list \<Rightarrow> server \<Rightarrow> server" where
  "send_set c vs s = fold (\<lambda>v. addReply c (Bulk v)) vs (addReply c (MultiBulkLen (length vs)) s)"

type_synonym sorter = "(key option \<Rightarrow> key option \<Rightarrow> int) \<Rightarrow> key option list \<Rightarrow> key option list"

definition set_card :: "nat \<Rightarrow> server \<Rightarrow> key option \<Rightarrow> nat" where
  "set_card i s k = (case Option.bind k (\<lambda>x. get_set i x s) of Some o1 \<Rightarrow> setTypeSize o1 | None \<Rightarrow> 0)"

definition qsortCompareSetsByCardinality :: "nat \<Rightarrow> server \<Rightarrow> key option \<Rightarrow> key option \<Rightarrow> int" where
  "qsortCompareSetsByCardinality i s a b = sign_extend 4 (int (set_card i s a) - int (set_card i s b))"

definition qsortCompareSetsByRevCardinality :: "nat \<Rightarrow> server \<Rightarrow> key option \<Rightarrow> key option \<Rightarrow> int" where
  "qsortCompareSetsByRevCardinality i s a b = sign_extend 4 (int (set_card i s b) - int (set_card i s a))"

definition sinterGenericCommand :: "sorter \<Rightarrow> u64 \<Rightarrow> u64 \<Rightarrow> key list \<Rightarrow> key option \<Rightarrow> nat \<Rightarrow> server \<Rightarrow> server option" where
  "sinterGenericCommand qs addr0 addr1 setkeys dstkey c s =
     (let i = cur_db c s
      in do {
        r \<leftarrow> sinter_lookup (dstkey \<noteq> None) i setkeys s;
        (case r of
           SetsMissing s1 \<Rightarrow>
             (case dstkey of
                None \<Rightarrow> Some (addReply c (MultiBulkLen 0) s1)
              | Some dst \<Rightarrow>
                  let (s2, deleted) = dbDelete i dst s1;
                      s3 = (if deleted then add_dirty 1 (signalModifiedKey i dst s2) else s2)
                  in Some (addReply c (IntReply 0) s3))
         | SetsWrongType s1 \<Rightarrow> Some (addReply c wrongtypeerr s1)
         | SetsFound s1 \<Rightarrow>
             do {
               let sets = List.map_filter id (qs (qsortCompareSetsByCardinality i s1) (map Some setkeys));
               (k0, ks) \<leftarrow> (case sets of [] \<Rightarrow> None | k # ks \<Rightarrow> Some (k, ks));
               o1 \<leftarrow> get_set i k0 s1;
               (s2, out, dstset) \<leftarrow> sinter_loop addr0 addr1 (dstkey \<noteq> None) i k0 ks (setTypeInitIterator o1) [] createIntsetObject s1;
               (case dstkey of
                  None \<Rightarrow> Some (send_set c (map str_bytes out) s2)
                | Some dst \<Rightarrow> store_set ''sinterstore'' i dst dstset c s2) }) })"

definition sinterCommand :: "sorter \<Rightarrow> u64 \<Rightarrow> u64 \<Rightarrow> nat \<Rightarrow> u8 list list \<Rightarrow> server \<Rightarrow> server option" where
  "sinterCommand qs addr0 addr1 c argv s = sinterGenericCommand qs addr0 addr1 (tl argv) None c s"

definition sinterstoreCommand :: "sorter \<Rightarrow> u64 \<Rightarrow> u64 \<Rightarrow> nat \<Rightarrow> u8 list list \<Rightarrow> server \<Rightarrow> server option" where
  "sinterstoreCommand qs addr0 addr1 c argv s = sinterGenericCommand qs addr0 addr1 (drop 2 argv) (Some (argv ! 1)) c s"

section \<open>Union and difference\<close>

datatype set_op = OP_UNION | OP_DIFF

text \<open>The sets by their keys, where a missing one is \<open>None\<close>; \<open>Inl\<close> is the state after an error of type.\<close>

fun union_lookup :: "bool \<Rightarrow> nat \<Rightarrow> key list \<Rightarrow> server \<Rightarrow> (server + server \<times> key option list) option" where
  "union_lookup store i [] s = Some (Inr (s, []))"
| "union_lookup store i (k # ks) s =
     do { (s1, o1) \<leftarrow> (if store then lookupKeyWrite i k s else lookupKeyRead i k s);
          if o1 \<noteq> None \<and> \<not> is_set (the o1) then Some (Inl s1)
          else do {
            r \<leftarrow> union_lookup store i ks s1;
            (case r of Inl s2 \<Rightarrow> Some (Inl s2) | Inr (s2, sets) \<Rightarrow> Some (Inr (s2, (if o1 = None then None else Some k) # sets))) } }"

definition diff_algo :: "nat \<Rightarrow> key option list \<Rightarrow> server \<Rightarrow> nat" where
  "diff_algo i sets s =
     (let present = filter (\<lambda>k. k \<noteq> None) sets;
          algo_one_work = sum_list (map (\<lambda>_. set_card i s (hd sets)) present) div 2;
          algo_two_work = sum_list (map (set_card i s) present)
      in if algo_one_work \<le> algo_two_work then 1 else 2)"

text \<open>The cardinality is an \<^verbatim>\<open>int\<close>; its overflow is undefined.\<close>

definition int_inc :: "int \<Rightarrow> int option" where
  "int_inc n = (if n < 2 ^ 31 - 1 then Some (n + 1) else None)"

text \<open>The elements of a set one by one: added to the result or removed from it.\<close>

partial_function (option) combine_elems ::
  "set_env \<Rightarrow> u64 \<Rightarrow> u64 \<Rightarrow> bool \<Rightarrow> setobj \<Rightarrow> set_iter \<Rightarrow> setobj \<Rightarrow> int \<Rightarrow> (setobj \<times> setobj \<times> int) option" where
  "combine_elems env addr0 addr1 add o1 si dst cardinality =
     do { (o2, si', e) \<leftarrow> setTypeNextObject addr0 addr1 o1 si;
          (case e of
             None \<Rightarrow> do { o3 \<leftarrow> setTypeReleaseIterator addr0 addr1 o2 si'; Some (o3, dst, cardinality) }
           | Some ele \<Rightarrow>
               if add then do { (dst', b) \<leftarrow> setTypeAdd env dst ele;
                                cardinality' \<leftarrow> (if b then int_inc cardinality else Some cardinality);
                                combine_elems env addr0 addr1 add o2 si' dst' cardinality' }
               else do { (dst', b) \<leftarrow> setTypeRemove env dst ele;
                         combine_elems env addr0 addr1 add o2 si' dst' (if b then cardinality - 1 else cardinality) }) }"

fun union_loop :: "u64 \<Rightarrow> u64 \<Rightarrow> nat \<Rightarrow> key option list \<Rightarrow> setobj \<Rightarrow> int \<Rightarrow> server \<Rightarrow> (server \<times> setobj \<times> int) option" where
  "union_loop addr0 addr1 i [] dst cardinality s = Some (s, dst, cardinality)"
| "union_loop addr0 addr1 i (None # ks) dst cardinality s = union_loop addr0 addr1 i ks dst cardinality s"
| "union_loop addr0 addr1 i (Some k # ks) dst cardinality s =
     do { o1 \<leftarrow> get_set i k s;
          (o2, dst', cardinality') \<leftarrow> combine_elems (sv_env s) addr0 addr1 True o1 (setTypeInitIterator o1) dst cardinality;
          union_loop addr0 addr1 i ks dst' cardinality' (put_set i k o2 s) }"

text \<open>Algorithm 1: is the element in one of the other sets?\<close>

fun in_any :: "nat \<Rightarrow> key \<Rightarrow> key option list \<Rightarrow> sobj \<Rightarrow> server \<Rightarrow> (server \<times> bool) option" where
  "in_any i k0 [] ele s = Some (s, False)"
| "in_any i k0 (None # ks) ele s = in_any i k0 ks ele s"
| "in_any i k0 (Some k # ks) ele s =
     (if k = k0 then Some (s, True)
      else do { o1 \<leftarrow> get_set i k s;
                (o2, b) \<leftarrow> setTypeIsMember (sv_env s) o1 ele;
                if b then Some (put_set i k o2 s, True) else in_any i k0 ks ele (put_set i k o2 s) })"

partial_function (option) diff1_loop ::
  "u64 \<Rightarrow> u64 \<Rightarrow> nat \<Rightarrow> key \<Rightarrow> key option list \<Rightarrow> set_iter \<Rightarrow> setobj \<Rightarrow> int \<Rightarrow> server \<Rightarrow> (server \<times> setobj \<times> int) option" where
  "diff1_loop addr0 addr1 i k0 ks si dst cardinality s =
     do { o1 \<leftarrow> get_set i k0 s;
          (o2, si', e) \<leftarrow> setTypeNextObject addr0 addr1 o1 si;
          (case e of
             None \<Rightarrow> do { o3 \<leftarrow> setTypeReleaseIterator addr0 addr1 o2 si'; Some (put_set i k0 o3 s, dst, cardinality) }
           | Some ele \<Rightarrow>
               do { (s1, found) \<leftarrow> in_any i k0 ks ele (put_set i k0 o2 s);
                    if found then diff1_loop addr0 addr1 i k0 ks si' dst cardinality s1
                    else do { (dst', _) \<leftarrow> setTypeAdd (sv_env s) dst ele;
                              cardinality' \<leftarrow> int_inc cardinality;
                              diff1_loop addr0 addr1 i k0 ks si' dst' cardinality' s1 } }) }"

text \<open>Algorithm 2: the elements of the first set without those of the others, until nothing is left.\<close>

fun diff2_loop :: "u64 \<Rightarrow> u64 \<Rightarrow> nat \<Rightarrow> bool \<Rightarrow> key option list \<Rightarrow> setobj \<Rightarrow> int \<Rightarrow> server \<Rightarrow> (server \<times> setobj \<times> int) option" where
  "diff2_loop addr0 addr1 i first [] dst cardinality s = Some (s, dst, cardinality)"
| "diff2_loop addr0 addr1 i first (None # ks) dst cardinality s = diff2_loop addr0 addr1 i False ks dst cardinality s"
| "diff2_loop addr0 addr1 i first (Some k # ks) dst cardinality s =
     do { o1 \<leftarrow> get_set i k s;
          (o2, dst', cardinality') \<leftarrow> combine_elems (sv_env s) addr0 addr1 first o1 (setTypeInitIterator o1) dst cardinality;
          let s1 = put_set i k o2 s in
          if cardinality' = 0 then Some (s1, dst', cardinality') else diff2_loop addr0 addr1 i False ks dst' cardinality' s1 }"

text \<open>The reply with the elements of the result.\<close>

partial_function (option) send_elems :: "u64 \<Rightarrow> u64 \<Rightarrow> nat \<Rightarrow> setobj \<Rightarrow> set_iter \<Rightarrow> server \<Rightarrow> server option" where
  "send_elems addr0 addr1 c o1 si s =
     do { (o2, si', e) \<leftarrow> setTypeNextObject addr0 addr1 o1 si;
          (case e of
             None \<Rightarrow> do { _ \<leftarrow> setTypeReleaseIterator addr0 addr1 o2 si'; Some s }
           | Some ele \<Rightarrow> send_elems addr0 addr1 c o2 si' (addReply c (Bulk (str_bytes ele)) s)) }"

text \<open>The part of the generic command between the lookups and the reply.\<close>

definition sunionDiff_sets :: "sorter \<Rightarrow> u64 \<Rightarrow> u64 \<Rightarrow> nat \<Rightarrow> key option list \<Rightarrow> set_op \<Rightarrow> server \<Rightarrow> (server \<times> setobj \<times> int) option" where
  "sunionDiff_sets qs addr0 addr1 i sets op s =
     (if op = OP_UNION then union_loop addr0 addr1 i sets createIntsetObject 0 s
      else (case sets of
              Some k0 # ks \<Rightarrow>
                if diff_algo i sets s = 1 then
                  do { o1 \<leftarrow> get_set i k0 s;
                       diff1_loop addr0 addr1 i k0 (if ks \<noteq> [] then qs (qsortCompareSetsByRevCardinality i s) ks else ks)
                         (setTypeInitIterator o1) createIntsetObject 0 s }
                else diff2_loop addr0 addr1 i True sets createIntsetObject 0 s
            | _ \<Rightarrow> Some (s, createIntsetObject, 0)))"

definition sunionDiffGenericCommand :: "sorter \<Rightarrow> u64 \<Rightarrow> u64 \<Rightarrow> key list \<Rightarrow> key option \<Rightarrow> set_op \<Rightarrow> nat \<Rightarrow> server \<Rightarrow> server option" where
  "sunionDiffGenericCommand qs addr0 addr1 setkeys dstkey op c s =
     (let i = cur_db c s
      in do {
        r \<leftarrow> union_lookup (dstkey \<noteq> None) i setkeys s;
        (case r of
           Inl s1 \<Rightarrow> Some (addReply c wrongtypeerr s1)
         | Inr (s1, sets) \<Rightarrow>
             do {
               (s2, dstset, cardinality) \<leftarrow> sunionDiff_sets qs addr0 addr1 i sets op s1;
               (case dstkey of
                  None \<Rightarrow> send_elems addr0 addr1 c dstset (setTypeInitIterator dstset) (addReply c (MultiBulkLen (nat cardinality)) s2)
                | Some dst \<Rightarrow> store_set (if op = OP_UNION then ''sunionstore'' else ''sdiffstore'') i dst dstset c s2) }) })"

definition sunionCommand :: "sorter \<Rightarrow> u64 \<Rightarrow> u64 \<Rightarrow> nat \<Rightarrow> u8 list list \<Rightarrow> server \<Rightarrow> server option" where
  "sunionCommand qs addr0 addr1 c argv s = sunionDiffGenericCommand qs addr0 addr1 (tl argv) None OP_UNION c s"

definition sunionstoreCommand :: "sorter \<Rightarrow> u64 \<Rightarrow> u64 \<Rightarrow> nat \<Rightarrow> u8 list list \<Rightarrow> server \<Rightarrow> server option" where
  "sunionstoreCommand qs addr0 addr1 c argv s = sunionDiffGenericCommand qs addr0 addr1 (drop 2 argv) (Some (argv ! 1)) OP_UNION c s"

definition sdiffCommand :: "sorter \<Rightarrow> u64 \<Rightarrow> u64 \<Rightarrow> nat \<Rightarrow> u8 list list \<Rightarrow> server \<Rightarrow> server option" where
  "sdiffCommand qs addr0 addr1 c argv s = sunionDiffGenericCommand qs addr0 addr1 (tl argv) None OP_DIFF c s"

definition sdiffstoreCommand :: "sorter \<Rightarrow> u64 \<Rightarrow> u64 \<Rightarrow> nat \<Rightarrow> u8 list list \<Rightarrow> server \<Rightarrow> server option" where
  "sdiffstoreCommand qs addr0 addr1 c argv s = sunionDiffGenericCommand qs addr0 addr1 (drop 2 argv) (Some (argv ! 1)) OP_DIFF c s"

section \<open>Random members\<close>

text \<open>Each extraction of a random element takes the results of \<^verbatim>\<open>random\<close> that it needs from the head of \<open>rss\<close>.\<close>

fun srand_repeat :: "set_env \<Rightarrow> nat \<Rightarrow> nat \<Rightarrow> nat list list \<Rightarrow> setobj \<Rightarrow> server \<Rightarrow> (setobj \<times> server) option" where
  "srand_repeat env c 0 rss o1 s = Some (o1, s)"
| "srand_repeat env c (Suc n) [] o1 s = None"
| "srand_repeat env c (Suc n) (rs # rss) o1 s =
     do { (o2, e) \<leftarrow> setTypeRandomElement env rs o1; srand_repeat env c n rss o2 (addReply c (Bulk (str_bytes (elem_object e))) s) }"

partial_function (option) srand_copy ::
  "set_env \<Rightarrow> u64 \<Rightarrow> u64 \<Rightarrow> setobj \<Rightarrow> set_iter \<Rightarrow> (u8 list, unit) dict \<Rightarrow> (setobj \<times> (u8 list, unit) dict) option" where
  "srand_copy env addr0 addr1 o1 si d =
     do { (o2, si', e) \<leftarrow> setTypeNext addr0 addr1 o1 si;
          (case e of
             None \<Rightarrow> do { o3 \<leftarrow> setTypeReleaseIterator addr0 addr1 o2 si'; Some (o3, d) }
           | Some x \<Rightarrow>
               do { (d', ok) \<leftarrow> dictAdd (env_can_resize env) (env_hash env) d (str_bytes (elem_object x)) ();
                    if ok then srand_copy env addr0 addr1 o2 si' d' else None }) }"

fun srand_remove :: "set_env \<Rightarrow> nat \<Rightarrow> nat list list \<Rightarrow> (u8 list, unit) dict \<Rightarrow> (u8 list, unit) dict option" where
  "srand_remove env 0 rss d = Some d"
| "srand_remove env (Suc n) [] d = None"
| "srand_remove env (Suc n) (rs # rss) d =
     do { (d1, de) \<leftarrow> dictGetRandomKey (env_hash env) rs d; (k, _) \<leftarrow> de; (d2, _) \<leftarrow> dictDelete (env_hash env) d1 k; srand_remove env n rss d2 }"

fun srand_pick :: "set_env \<Rightarrow> nat \<Rightarrow> nat list list \<Rightarrow> setobj \<Rightarrow> (u8 list, unit) dict \<Rightarrow> (setobj \<times> (u8 list, unit) dict) option" where
  "srand_pick env 0 rss o1 d = Some (o1, d)"
| "srand_pick env (Suc n) [] o1 d = None"
| "srand_pick env (Suc n) (rs # rss) o1 d =
     do { (o2, e) \<leftarrow> setTypeRandomElement env rs o1;
          (d', added) \<leftarrow> dictAdd (env_can_resize env) (env_hash env) d (str_bytes (elem_object e)) ();
          srand_pick env (if added then n else Suc n) rss o2 d' }"

text \<open>A count from 0 up is cut to 32 bits (\<^verbatim>\<open>(unsigned) l\<close>); \<^verbatim>\<open>-l\<close> is kept at its 64.\<close>

definition srandmemberWithCountCommand ::
  "sorter \<Rightarrow> u64 \<Rightarrow> u64 \<Rightarrow> nat list list \<Rightarrow> nat \<Rightarrow> u8 list list \<Rightarrow> server \<Rightarrow> server option" where
  "srandmemberWithCountCommand qs addr0 addr1 rss c argv s =
     (case getLongFromObjectOrReply c (arg_obj (argv ! 2)) None s of
        Inl s' \<Rightarrow> Some s'
      | Inr l \<Rightarrow>
          let i = cur_db c s; key = argv ! 1; uniq = (l \<ge> 0);
              count = (if l \<ge> 0 then nat (l mod 2 ^ 32) else nat (- l))
          in do {
            (s1, o1) \<leftarrow> lookupKeyReadOrReply c key (MultiBulkLen 0) s;
            (case o1 of
               None \<Rightarrow> Some s1
             | Some (SetObj o2) \<Rightarrow>
                 let size1 = setTypeSize o2 in
                 if count = 0 then Some (addReply c (MultiBulkLen 0) s1)
                 else if \<not> uniq then
                   do { (o3, s2) \<leftarrow> srand_repeat (sv_env s) c count rss o2 (addReply c (MultiBulkLen count) s1);
                        Some (put_set i key o3 s2) }
                 else if count \<ge> size1 then sunionDiffGenericCommand qs addr0 addr1 [key] None OP_UNION c s1
                 else do {
                   (o3, d) \<leftarrow>
                     (if count * 3 > size1 then
                        do { (o3, d) \<leftarrow> srand_copy (sv_env s) addr0 addr1 o2 (setTypeInitIterator o2) dictCreate;
                             d' \<leftarrow> (if dictSize d = size1 then srand_remove (sv_env s) (size1 - count) rss d else None);
                             Some (o3, d') }
                      else srand_pick (sv_env s) count rss o2 dictCreate);
                   send_elems addr0 addr1 c (SetHT d) (IterHT dictGetIterator) (addReply c (MultiBulkLen count) (put_set i key o3 s1)) }
             | Some _ \<Rightarrow> Some (addReply c wrongtypeerr s1)) })"

definition srandmemberCommand ::
  "sorter \<Rightarrow> u64 \<Rightarrow> u64 \<Rightarrow> nat list list \<Rightarrow> nat \<Rightarrow> u8 list list \<Rightarrow> server \<Rightarrow> server option" where
  "srandmemberCommand qs addr0 addr1 rss c argv s =
     (if length argv = 3 then srandmemberWithCountCommand qs addr0 addr1 rss c argv s
      else if length argv > 3 then Some (addReply c syntaxerr s)
      else do {
        (s1, o1) \<leftarrow> lookupKeyReadOrReply c (argv ! 1) NullBulk s;
        (case o1 of
           None \<Rightarrow> Some s1
         | Some (SetObj o2) \<Rightarrow>
             do { rs \<leftarrow> (case rss of [] \<Rightarrow> None | r # _ \<Rightarrow> Some r);
                  (o3, e) \<leftarrow> setTypeRandomElement (sv_env s) rs o2;
                  Some (addReply c (Bulk (str_bytes (elem_object e))) (put_set (cur_db c s) (argv ! 1) o3 s1)) }
         | Some _ \<Rightarrow> Some (addReply c wrongtypeerr s1)) })"

end
