(* ===== verification/String_Spec.thy ===== *)
theory String_Spec
  imports Keyspace_View
begin

text \<open>
  What the string commands do to the abstract keyspace: for every branch the visible keys, the times to
  live, the keys whose watchers are marked and the replies. The commands never fail an assertion.
\<close>

section \<open>Replies and lookups\<close>

lemma performs_error: "server_ok s \<Longrightarrow> performs c i s (addReplyError c e s) (vis i s) (vttl i s) {} [Err (''ERR '' @ e)]"
  by (simp add: addReplyError_def performs_addReply)

lemma looked_upD:
  assumes "looked_up c i k s s'"
  shows "performs c i s s' (vis i s) (vttl i s) {} []" "server_ok s'" "i < length (sv_dbs s')" "\<not> expired i s' k"
    "dbExists i k s' = (vis i s k \<noteq> None)" "vis i s' = vis i s" "vttl i s' = vttl i s" "sv_env s' = sv_env s"
  using assms by (simp_all add: looked_up_def)

lemma performs_looked_reply:
  "looked_up c i k s s' \<Longrightarrow> performs c i s (addReply c r s') (vis i s) (vttl i s) {} [r]"
  using performs_reply_after [OF looked_upD(1)] by fastforce

lemma performs_looked_error:
  "looked_up c i k s s' \<Longrightarrow> performs c i s (addReplyError c e s') (vis i s) (vttl i s) {} [Err (''ERR '' @ e)]"
  unfolding addReplyError_def by (rule performs_looked_reply)

text \<open>A command whose lookup for reading finds nothing has replied.\<close>

lemma read_or_reply:
  assumes "server_ok s"
  shows "\<exists>s'. lookupKeyReadOrReply c k r s = Some (if vis (cur_db c s) s k = None then addReply c r s' else s', vis (cur_db c s) s k)
    \<and> looked_up c (cur_db c s) k s s'"
  using looked_up_read [OF assms server_ok_cur [OF assms, of c], where k = k and c = c] by (auto simp: lookupKeyReadOrReply_def)

lemma write_or_reply:
  assumes "server_ok s"
  shows "\<exists>s'. lookupKeyWriteOrReply c k r s = Some (if vis (cur_db c s) s k = None then addReply c r s' else s', vis (cur_db c s) s k)
    \<and> looked_up c (cur_db c s) k s s'"
  using looked_up_write [OF assms server_ok_cur [OF assms, of c], where k = k and c = c] by (auto simp: lookupKeyWriteOrReply_def)

lemma looked_up_trans:
  assumes "looked_up c i k s s1" "looked_up c i k s1 s2"
  shows "looked_up c i k s s2"
  using performs_trans [OF looked_upD(1) [OF assms(1)] looked_upD(1) [OF assms(2)]] looked_upD [OF assms(1)] looked_upD [OF assms(2)]
  by (simp add: looked_up_def)

section \<open>SET\<close>

definition set_refused :: "bool \<Rightarrow> bool \<Rightarrow> robj option \<Rightarrow> bool" where
  "set_refused nx xx v \<longleftrightarrow> (nx \<and> v \<noteq> None) \<or> (xx \<and> v = None)"

lemma set_aborts_spec:
  assumes "server_ok s" "i < length (sv_dbs s)"
  shows "\<exists>s1. set_aborts nx xx i k s = Some (s1, set_refused nx xx (vis i s k)) \<and> performs c i s s1 (vis i s) (vttl i s) {} []"
proof -
  obtain s1 where s1: "lookupKeyWrite i k s = Some (s1, vis i s k)" "looked_up c i k s s1" using looked_up_write [OF assms] by blast
  obtain s2 where s2: "lookupKeyWrite i k s1 = Some (s2, vis i s1 k)" "looked_up c i k s1 s2"
    using looked_up_write [OF looked_upD(2,3) [OF s1(2)]] by blast
  note p = looked_upD(1) [OF s1(2)] looked_upD(1) [OF looked_up_trans [OF s1(2) s2(2)]] performs_quiet [OF quiet_refl [OF assms(1)]]
  show ?thesis using s1(1) s2(1) looked_upD(6) [OF s1(2)] p by (cases nx; cases xx; cases "vis i s k") (auto simp: set_aborts_def set_refused_def)
qed

lemma setGeneric_plain:
  assumes "server_ok s" "sobj_ok val"
  shows "\<exists>s'. setGenericCommand name nx xx k val None seconds okr abr c s = Some s' \<and>
    (if set_refused nx xx (vis (cur_db c s) s k)
     then performs c (cur_db c s) s s' (vis (cur_db c s) s) (vttl (cur_db c s) s) {} [case abr of Some r \<Rightarrow> r | None \<Rightarrow> NullBulk]
     else performs c (cur_db c s) s s' ((vis (cur_db c s) s)(k \<mapsto> StringObj val)) ((vttl (cur_db c s) s)(k := None)) {k}
       [case okr of Some r \<Rightarrow> r | None \<Rightarrow> Status ''OK''])"
proof -
  let ?i = "cur_db c s"
  obtain s1 where s1: "set_aborts nx xx ?i k s = Some (s1, set_refused nx xx (vis ?i s k))" "performs c ?i s s1 (vis ?i s) (vttl ?i s) {} []"
    using set_aborts_spec [OF assms(1) server_ok_cur [OF assms(1)]] by blast
  note d = performsD [OF s1(2)]
  obtain s2 where s2: "setKey ?i k (StringObj val) s1 = Some s2"
      "performs c ?i s1 s2 ((vis ?i s1)(k \<mapsto> StringObj val)) ((vttl ?i s1)(k := None)) {k} []"
    using performs_setKey [OF d(1), where i = ?i and v = "StringObj val" and k = k and c = c] d(4) assms server_ok_cur [OF assms(1)] by auto
  have p: "performs c ?i s s2 ((vis ?i s)(k \<mapsto> StringObj val)) ((vttl ?i s)(k := None)) {k} []"
    using performs_trans [OF s1(2) s2(2)] d(2,3) by simp
  show ?thesis
    using s1 s2(1) performs_reply_after [OF s1(2)] performs_reply_after [OF performs_notify_after [OF performs_dirty_after [OF p]]]
    by (auto simp: setGenericCommand_def Let_def)
qed

lemma outer_dbExists: "outer s s' \<Longrightarrow> dbExists i k s' = dbExists i k s"
  by (simp add: outer_def dbExists_def)

text \<open>A time that has passed on a server that expires keys.\<close>

definition lapsed :: "server \<Rightarrow> int \<Rightarrow> bool" where
  "lapsed s w \<longleftrightarrow> 0 \<le> w \<and> w < time_of s \<and> \<not> sv_loading s \<and> \<not> sv_slave s"

definition with_ttl :: "server \<Rightarrow> key \<Rightarrow> int \<Rightarrow> (key \<rightharpoonup> robj) \<Rightarrow> key \<rightharpoonup> robj" where
  "with_ttl s k w M = (if lapsed s w then M(k := None) else M)"

definition ttl_with :: "server \<Rightarrow> key \<Rightarrow> int \<Rightarrow> (key \<rightharpoonup> int) \<Rightarrow> key \<rightharpoonup> int" where
  "ttl_with s k w T = (if lapsed s w then T(k := None) else T(k \<mapsto> w))"

lemma performs_setExpire_after:
  assumes "performs c i s s1 M T K rs" "i < length (sv_dbs s)" "\<not> expired i s1 k" "dbExists i k s1"
  shows "\<exists>s2. setExpire i k w s1 = Some s2 \<and> performs c i s s2 (with_ttl s k w M) (ttl_with s k w T) K rs"
proof -
  note d = performsD [OF assms(1)]
  obtain s2 where s2: "setExpire i k w s1 = Some s2" "performs c i s1 s2 (with_ttl s1 k w M) (ttl_with s1 k w T) {} []"
    using performs_setExpire [OF d(1) _ assms(3,4), where c = c and w = w] assms(2) d(2-4) by (auto simp: with_ttl_def ttl_with_def lapsed_def)
  have "with_ttl s1 k w M = with_ttl s k w M" "ttl_with s1 k w T = ttl_with s k w T"
    using d(7-9) by (simp_all add: with_ttl_def ttl_with_def lapsed_def)
  then show ?thesis using s2 performs_trans [OF assms(1) s2(2)] by simp
qed

lemma setGeneric_expire:
  assumes "server_ok s" "sobj_ok val" "getLongLongFromObject (arg_obj e) = Some m" "0 < m"
    and w: "w = ll_wrap (sv_now s + (if seconds then ll_wrap (m * 1000) else m))"
  shows "\<exists>s'. setGenericCommand name nx xx k val (Some e) seconds okr abr c s = Some s' \<and>
    (if set_refused nx xx (vis (cur_db c s) s k)
     then performs c (cur_db c s) s s' (vis (cur_db c s) s) (vttl (cur_db c s) s) {} [case abr of Some r \<Rightarrow> r | None \<Rightarrow> NullBulk]
     else performs c (cur_db c s) s s' (with_ttl s k w ((vis (cur_db c s) s)(k \<mapsto> StringObj val)))
       (ttl_with s k w ((vttl (cur_db c s) s)(k := None))) {k} [case okr of Some r \<Rightarrow> r | None \<Rightarrow> Status ''OK''])"
proof -
  let ?i = "cur_db c s"
  obtain s1 where s1: "set_aborts nx xx ?i k s = Some (s1, set_refused nx xx (vis ?i s k))" "performs c ?i s s1 (vis ?i s) (vttl ?i s) {} []"
    using set_aborts_spec [OF assms(1) server_ok_cur [OF assms(1)]] by blast
  note d = performsD [OF s1(2)]
  obtain s2 where s2: "setKey ?i k (StringObj val) s1 = Some s2" "\<not> expired ?i s2 k" "dbExists ?i k s2"
      "performs c ?i s1 s2 ((vis ?i s1)(k \<mapsto> StringObj val)) ((vttl ?i s1)(k := None)) {k} []"
    using performs_setKey [OF d(1), where i = ?i and v = "StringObj val" and k = k and c = c] d(4) assms server_ok_cur [OF assms(1)] by auto
  have p: "performs c ?i s (add_dirty 1 s2) ((vis ?i s)(k \<mapsto> StringObj val)) ((vttl ?i s)(k := None)) {k} []"
    using performs_dirty_after [OF performs_trans [OF s1(2) s2(4)]] d(2,3) by simp
  have now: "sv_now (add_dirty 1 s2) = sv_now s" using performsD(6) [OF p] .
  obtain s3 where s3: "setExpire ?i k w (add_dirty 1 s2) = Some s3"
      "performs c ?i s s3 (with_ttl s k w ((vis ?i s)(k \<mapsto> StringObj val))) (ttl_with s k w ((vttl ?i s)(k := None))) {k} []"
    using performs_setExpire_after [OF p server_ok_cur [OF assms(1)], where k = k and w = w] s2(2,3) outerD(6) [OF outer_dirty] outer_dbExists [OF outer_dirty] by auto
  show ?thesis
    using s1 s2(1) s3(1) performs_reply_after [OF s1(2)] assms(3,4) now w
      performs_reply_after [OF performs_notify_after [OF performs_notify_after [OF s3(2)]]]
    by (auto simp: setGenericCommand_def getLongLongFromObjectOrReply_def Let_def simp del: getLongLongFromObject.simps)
qed

text \<open>An expire time that is not a positive number: the error, and nothing else happens.\<close>

lemma setGeneric_bad_expire:
  assumes "server_ok s" "\<And>m. getLongLongFromObject (arg_obj e) = Some m \<Longrightarrow> m \<le> 0"
  shows "\<exists>s' err. setGenericCommand name nx xx k val (Some e) seconds okr abr c s = Some s'
    \<and> performs c (cur_db c s) s s' (vis (cur_db c s) s) (vttl (cur_db c s) s) {} [Err err]"
proof -
  have e: "\<exists>err. performs c (cur_db c s) s (addReplyError c m s) (vis (cur_db c s) s) (vttl (cur_db c s) s) {} [Err err]" for m
    using performs_error [OF assms(1)] by blast
  show ?thesis using assms(2) e
    by (cases "getLongLongFromObject (arg_obj e)")
      (simp_all add: setGenericCommand_def getLongLongFromObjectOrReply_def Let_def del: getLongLongFromObject.simps)
qed

section \<open>GET, GETSET, STRLEN, GETRANGE, MGET\<close>

definition get_reply :: "robj option \<Rightarrow> reply" where
  "get_reply o1 = (case o1 of None \<Rightarrow> NullBulk | Some (StringObj v) \<Rightarrow> Bulk (str_bytes v) | Some _ \<Rightarrow> wrongtypeerr)"

definition is_str :: "robj option \<Rightarrow> bool" where
  "is_str o1 \<longleftrightarrow> (case o1 of None \<Rightarrow> True | Some (StringObj v) \<Rightarrow> True | Some _ \<Rightarrow> False)"

lemma str_cases:
  obtains (none) "o1 = None" | (str) v where "o1 = Some (StringObj v)" | (other) "\<not> is_str o1"
proof (cases o1)
  case (Some v)
  then show thesis using str other by (cases v) (auto simp: is_str_def)
qed (rule none)

lemma not_str_case: "\<not> is_str o1 \<Longrightarrow> case_option a (case_robj f (\<lambda>_. b) (\<lambda>_. b) (\<lambda>_. b) (\<lambda>_. b)) o1 = b"
  by (auto simp: is_str_def split: option.splits robj.splits)

lemma getGeneric_spec:
  assumes "server_ok s"
  shows "\<exists>s'. getGenericCommand c argv s = Some (s', is_str (vis (cur_db c s) s (argv ! 1)))
    \<and> performs c (cur_db c s) s s' (vis (cur_db c s) s) (vttl (cur_db c s) s) {} [get_reply (vis (cur_db c s) s (argv ! 1))]"
proof -
  obtain s1 where s1: "lookupKeyReadOrReply c (argv ! 1) NullBulk s = Some (if vis (cur_db c s) s (argv ! 1) = None then addReply c NullBulk s1 else s1, vis (cur_db c s) s (argv ! 1))"
      "looked_up c (cur_db c s) (argv ! 1) s s1" using read_or_reply [OF assms] by blast
  show ?thesis using s1(1) performs_looked_reply [OF s1(2)]
    by (cases "vis (cur_db c s) s (argv ! 1)") (auto simp: getGenericCommand_def get_reply_def is_str_def split: robj.split)
qed

lemma getCommand_spec:
  "server_ok s \<Longrightarrow> \<exists>s'. getCommand c argv s = Some s'
    \<and> performs c (cur_db c s) s s' (vis (cur_db c s) s) (vttl (cur_db c s) s) {} [get_reply (vis (cur_db c s) s (argv ! 1))]"
  using getGeneric_spec [of s c argv] by (auto simp: getCommand_def)

lemma getsetCommand_spec:
  assumes "server_ok s"
  shows "\<exists>s'. getsetCommand c argv s = Some s' \<and>
    (if is_str (vis (cur_db c s) s (argv ! 1))
     then performs c (cur_db c s) s s' ((vis (cur_db c s) s)(argv ! 1 \<mapsto> StringObj (tryObjectEncoding (createStringObject (argv ! 2)))))
       ((vttl (cur_db c s) s)(argv ! 1 := None)) {argv ! 1} [get_reply (vis (cur_db c s) s (argv ! 1))]
     else performs c (cur_db c s) s s' (vis (cur_db c s) s) (vttl (cur_db c s) s) {} [wrongtypeerr])"
proof -
  let ?i = "cur_db c s" and ?v = "StringObj (tryObjectEncoding (createStringObject (argv ! 2)))"
  obtain s1 where s1: "getGenericCommand c argv s = Some (s1, is_str (vis ?i s (argv ! 1)))"
      "performs c ?i s s1 (vis ?i s) (vttl ?i s) {} [get_reply (vis ?i s (argv ! 1))]"
    using getGeneric_spec [OF assms] by blast
  note d = performsD [OF s1(2)]
  obtain s2 where s2: "setKey ?i (argv ! 1) ?v s1 = Some s2"
      "performs c ?i s1 s2 ((vis ?i s1)(argv ! 1 \<mapsto> ?v)) ((vttl ?i s1)(argv ! 1 := None)) {argv ! 1} []"
    using performs_setKey [OF d(1), where i = ?i and v = ?v and k = "argv ! 1" and c = c] d(4) server_ok_cur [OF assms] by auto
  have "get_reply (vis ?i s (argv ! 1)) = wrongtypeerr" if "\<not> is_str (vis ?i s (argv ! 1))"
    using that by (auto simp: is_str_def get_reply_def split: option.splits robj.splits)
  then show ?thesis
    using s1 s2(1) performs_dirty_after [OF performs_notify_after [OF performs_trans [OF s1(2) s2(2)]]] d(2,3) by (auto simp: getsetCommand_def)
qed

lemma strlenCommand_spec:
  assumes "server_ok s"
  shows "\<exists>s'. strlenCommand c argv s = Some s' \<and> performs c (cur_db c s) s s' (vis (cur_db c s) s) (vttl (cur_db c s) s) {}
    [case vis (cur_db c s) s (argv ! 1) of None \<Rightarrow> IntReply 0 | Some (StringObj v) \<Rightarrow> IntReply (int (length (str_bytes v))) | Some _ \<Rightarrow> wrongtypeerr]"
proof -
  obtain s1 where s1: "lookupKeyReadOrReply c (argv ! 1) (IntReply 0) s = Some (if vis (cur_db c s) s (argv ! 1) = None then addReply c (IntReply 0) s1 else s1, vis (cur_db c s) s (argv ! 1))"
      "looked_up c (cur_db c s) (argv ! 1) s s1" using read_or_reply [OF assms] by blast
  show ?thesis using s1(1) performs_looked_reply [OF s1(2)]
    by (cases "vis (cur_db c s) s (argv ! 1)") (auto simp: strlenCommand_def stringObjectLen_def split: robj.split)
qed

lemma getrangeCommand_spec:
  assumes "server_ok s"
  shows "\<exists>s' r. getrangeCommand c argv s = Some s' \<and> performs c (cur_db c s) s s' (vis (cur_db c s) s) (vttl (cur_db c s) s) {} [r]"
proof -
  obtain s1 where s1: "lookupKeyReadOrReply c (argv ! 1) (Bulk []) s = Some (if vis (cur_db c s) s (argv ! 1) = None then addReply c (Bulk []) s1 else s1, vis (cur_db c s) s (argv ! 1))"
      "looked_up c (cur_db c s) (argv ! 1) s s1" using read_or_reply [OF assms] by blast
  have e: "\<exists>r. performs c (cur_db c s) s (addReplyError c m s) (vis (cur_db c s) s) (vttl (cur_db c s) s) {} [r]" for m
    using performs_error [OF assms(1)] by blast
  have r: "\<exists>r. performs c (cur_db c s) s (addReply c m s1) (vis (cur_db c s) s) (vttl (cur_db c s) s) {} [r]" for m
    using performs_looked_reply [OF s1(2)] by blast
  show ?thesis using s1(1) e r
    by (cases "vis (cur_db c s) s (argv ! 1)")
      (auto simp: getrangeCommand_def getLongLongFromObjectOrReply_def Let_def split: option.split robj.split prod.split simp del: getLongLongFromObject.simps)
qed

definition mget_reply :: "robj option \<Rightarrow> reply" where
  "mget_reply o1 = (case o1 of Some (StringObj v) \<Rightarrow> Bulk (str_bytes v) | _ \<Rightarrow> NullBulk)"

lemma mget_loop_spec:
  assumes "server_ok s"
  shows "\<exists>s'. mget_loop c ks s = Some s'
    \<and> performs c (cur_db c s) s s' (vis (cur_db c s) s) (vttl (cur_db c s) s) {} (map (\<lambda>k. mget_reply (vis (cur_db c s) s k)) ks)"
  using assms
proof (induction ks arbitrary: s)
  case Nil
  then show ?case using performs_quiet [OF quiet_refl] by auto
next
  case (Cons k ks)
  let ?i = "cur_db c s"
  obtain s1 where s1: "lookupKeyRead ?i k s = Some (s1, vis ?i s k)" "looked_up c ?i k s s1"
    using looked_up_read [OF Cons.prems server_ok_cur [OF Cons.prems]] by blast
  let ?s2 = "addReply c (mget_reply (vis ?i s k)) s1"
  have p: "performs c ?i s ?s2 (vis ?i s) (vttl ?i s) {} [mget_reply (vis ?i s k)]" using performs_looked_reply [OF s1(2)] .
  note d = performsD [OF p]
  obtain s3 where s3: "mget_loop c ks ?s2 = Some s3"
      "performs c ?i ?s2 s3 (vis ?i ?s2) (vttl ?i ?s2) {} (map (\<lambda>k. mget_reply (vis ?i ?s2 k)) ks)"
    using Cons.IH [OF d(1)] d(5) by auto
  show ?case using s1(1) s3(1) performs_trans [OF p s3(2)] d(2,3) by (auto simp flip: mget_reply_def)
qed

lemma mgetCommand_spec:
  assumes "server_ok s"
  shows "\<exists>s'. mgetCommand c argv s = Some s' \<and> performs c (cur_db c s) s s' (vis (cur_db c s) s) (vttl (cur_db c s) s) {}
    (MultiBulkLen (length argv - 1) # map (\<lambda>k. mget_reply (vis (cur_db c s) s k)) (tl argv))"
proof -
  let ?i = "cur_db c s" and ?s1 = "addReply c (MultiBulkLen (length argv - 1)) s"
  have p: "performs c ?i s ?s1 (vis ?i s) (vttl ?i s) {} [MultiBulkLen (length argv - 1)]" using performs_addReply [OF assms] .
  note d = performsD [OF p]
  obtain s2 where "mget_loop c (tl argv) ?s1 = Some s2" "performs c ?i ?s1 s2 (vis ?i ?s1) (vttl ?i ?s1) {} (map (\<lambda>k. mget_reply (vis ?i ?s1 k)) (tl argv))"
    using mget_loop_spec [OF d(1), where c = c and ks = "tl argv"] d(5) by auto
  then show ?thesis using performs_trans [OF p] d(2,3) by (auto simp: mgetCommand_def)
qed

section \<open>Writing commands\<close>

lemma performs_add_after:
  assumes "performs c i s s1 M T K rs" "i < length (sv_dbs s)" "\<not> expired i s1 k" "\<not> dbExists i k s1" "val_ok (sv_env s) v"
  shows "\<exists>s2. dbAdd i k v s1 = Some s2 \<and> performs c i s s2 (M(k \<mapsto> v)) T K rs \<and> \<not> expired i s2 k \<and> dbExists i k s2"
proof -
  note d = performsD [OF assms(1)]
  obtain s2 where s2: "dbAdd i k v s1 = Some s2" "performs c i s1 s2 ((vis i s1)(k \<mapsto> v)) (vttl i s1) {} []"
      "db_dict (get_db i s2) = (db_dict (get_db i s1))(k \<mapsto> v)" "db_expires (get_db i s2) = db_expires (get_db i s1)"
    using performs_dbAdd [OF d(1) _ assms(3) _ assms(4), where v = v and c = c] assms(2,5) d(4,10) by auto
  have "expired i s2 k = expired i s1 k" using s2(4) performsD(7-9) [OF s2(2)] by (intro expired_cong) simp_all
  then show ?thesis using s2 performs_trans [OF assms(1) s2(2)] d(2,3) assms(3) by (auto simp: dbExists_def)
qed

lemma performs_overwrite_after:
  assumes "performs c i s s1 M T K rs" "i < length (sv_dbs s)" "\<not> expired i s1 k" "dbExists i k s1" "val_ok (sv_env s) v"
  shows "\<exists>s2. dbOverwrite i k v s1 = Some s2 \<and> performs c i s s2 (M(k \<mapsto> v)) T K rs \<and> \<not> expired i s2 k \<and> dbExists i k s2"
proof -
  note d = performsD [OF assms(1)]
  obtain s2 where s2: "dbOverwrite i k v s1 = Some s2" "performs c i s1 s2 ((vis i s1)(k \<mapsto> v)) (vttl i s1) {} []"
      "db_dict (get_db i s2) = (db_dict (get_db i s1))(k \<mapsto> v)" "db_expires (get_db i s2) = db_expires (get_db i s1)"
    using performs_dbOverwrite [OF d(1) _ assms(3) _ assms(4), where v = v and c = c] assms(2,5) d(4,10) by auto
  have "expired i s2 k = expired i s1 k" using s2(4) performsD(7-9) [OF s2(2)] by (intro expired_cong) simp_all
  then show ?thesis using s2 performs_trans [OF assms(1) s2(2)] d(2,3) assms(3) by (auto simp: dbExists_def)
qed

text \<open>INCR and its variants.\<close>

definition old_number :: "robj option \<Rightarrow> int option" where
  "old_number o1 = (case o1 of None \<Rightarrow> Some 0 | Some (StringObj v) \<Rightarrow> getLongLongFromObject (Some v) | Some _ \<Rightarrow> None)"

lemma incrDecr_spec:
  assumes "server_ok s" and i_def: "i = cur_db c s" and k_def: "k = argv ! 1"
  shows "\<exists>s'. incrDecrCommand incr c argv s = Some s' \<and>
    (case old_number (vis i s k) of
       Some n \<Rightarrow>
         if incr_overflows incr n
         then performs c i s s' (vis i s) (vttl i s) {} [Err ''ERR increment or decrement would overflow'']
         else performs c i s s' ((vis i s)(k \<mapsto> StringObj (createStringObjectFromLongLong (n + incr)))) (vttl i s) {k} [IntReply (n + incr)]
     | None \<Rightarrow> \<exists>err. performs c i s s' (vis i s) (vttl i s) {} [Err err])"
proof -
  have i: "i < length (sv_dbs s)" using server_ok_cur [OF assms(1)] by (simp add: i_def)
  obtain s1 where s1: "lookupKeyWrite i k s = Some (s1, vis i s k)" "looked_up c i k s s1" using looked_up_write [OF assms(1) i] by blast
  note d = looked_upD [OF s1(2)]
  have add: "\<exists>s2. dbAdd i k (StringObj (createStringObjectFromLongLong v)) s1 = Some s2
      \<and> performs c i s s2 ((vis i s)(k \<mapsto> StringObj (createStringObjectFromLongLong v))) (vttl i s) {} []" if "vis i s k = None" for v
    using performs_add_after [OF d(1) i d(4), where v = "StringObj (createStringObjectFromLongLong v)"] that d(5) by auto
  have over: "\<exists>s2. dbOverwrite i k (StringObj (createStringObjectFromLongLong v)) s1 = Some s2
      \<and> performs c i s s2 ((vis i s)(k \<mapsto> StringObj (createStringObjectFromLongLong v))) (vttl i s) {} []" if "vis i s k \<noteq> None" for v
    using performs_overwrite_after [OF d(1) i d(4), where v = "StringObj (createStringObjectFromLongLong v)"] that d(5) by auto
  have err: "\<exists>e. performs c i s (addReplyError c m s1) (vis i s) (vttl i s) {} [Err e]" "\<exists>e. performs c i s (addReply c wrongtypeerr s1) (vis i s) (vttl i s) {} [Err e]" for m
    using performs_looked_error [OF s1(2)] performs_looked_reply [OF s1(2), of wrongtypeerr] by (auto simp: wrongtypeerr_def)
  have ovf: "performs c i s (addReplyError c ''increment or decrement would overflow'' s1) (vis i s) (vttl i s) {} [Err ''ERR increment or decrement would overflow'']"
    using performs_looked_error [OF s1(2), of "''increment or decrement would overflow''"] by simp
  let ?fin = "\<lambda>v s2. addReply c (IntReply v) (add_dirty 1 (notifyKeyspaceEvent NOTIFY_STRING ''incrby'' k i (signalModifiedKey i k s2)))"
  have fin: "performs c i s (?fin v s2) M T {k} [IntReply v]" if "performs c i s s2 M T {} []" for v s2 M T
    using performs_finish [OF that, of "IntReply v" 1 NOTIFY_STRING "''incrby''" k i k] by simp
  show ?thesis
  proof (cases rule: str_cases [of "vis i s k"])
    case none
    obtain s2 where s2: "dbAdd i k (StringObj (createStringObjectFromLongLong incr)) s1 = Some s2"
        "performs c i s s2 ((vis i s)(k \<mapsto> StringObj (createStringObjectFromLongLong incr))) (vttl i s) {} []"
      using add [OF none] by blast
    have "incrDecrCommand incr c argv s = Some (if incr_overflows incr 0 then addReplyError c ''increment or decrement would overflow'' s1 else ?fin incr s2)"
      using none s1(1) s2(1) by (simp add: incrDecrCommand_def getLongLongFromObjectOrReply_def Let_def i_def k_def)
    then show ?thesis using fin [OF s2(2)] ovf none by (simp add: old_number_def)
  next
    case (str v)
    show ?thesis
    proof (cases "getLongLongFromObject (Some v)")
      case None
      then show ?thesis using s1(1) str err(1)
        by (simp add: incrDecrCommand_def old_number_def getLongLongFromObjectOrReply_def Let_def i_def k_def)
    next
      case (Some n)
      obtain s2 where s2: "dbOverwrite i k (StringObj (createStringObjectFromLongLong (n + incr))) s1 = Some s2"
          "performs c i s s2 ((vis i s)(k \<mapsto> StringObj (createStringObjectFromLongLong (n + incr)))) (vttl i s) {} []"
        using over [of "n + incr"] str by auto
      have "incrDecrCommand incr c argv s = Some (if incr_overflows incr n then addReplyError c ''increment or decrement would overflow'' s1 else ?fin (n + incr) s2)"
        using str Some s1(1) s2(1) by (simp add: incrDecrCommand_def getLongLongFromObjectOrReply_def Let_def i_def k_def)
      then show ?thesis using fin [OF s2(2)] ovf str Some by (simp add: old_number_def)
    qed
  next
    case other
    then show ?thesis using s1(1) err(2)
      by (simp add: incrDecrCommand_def old_number_def Let_def i_def k_def not_str_case)
  qed
qed

text \<open>APPEND: \<open>appended\<close> is the new content, unless it is too long.\<close>

definition appended :: "robj option \<Rightarrow> u8 list \<Rightarrow> sobj" where
  "appended o1 a = (case o1 of Some (StringObj v) \<Rightarrow> Raw (str_bytes v @ a) | _ \<Rightarrow> tryObjectEncoding (createStringObject a))"

lemma appendCommand_spec:
  assumes "server_ok s" and i: "i = cur_db c s" and k: "k = argv ! 1"
  shows "\<exists>s'. appendCommand c argv s = Some s' \<and>
    (if is_str (vis i s k) \<and> (vis i s k \<noteq> None \<longrightarrow> length (str_bytes (appended (vis i s k) (argv ! 2))) \<le> 512 * 1024 * 1024)
     then performs c i s s' ((vis i s)(k \<mapsto> StringObj (appended (vis i s k) (argv ! 2)))) (vttl i s) {k}
       [IntReply (int (length (str_bytes (appended (vis i s k) (argv ! 2)))))]
     else \<exists>err. performs c i s s' (vis i s) (vttl i s) {} [Err err])"
proof -
  have il: "i < length (sv_dbs s)" using server_ok_cur [OF assms(1)] by (simp add: i)
  obtain s1 where s1: "lookupKeyWrite i k s = Some (s1, vis i s k)" "looked_up c i k s s1" using looked_up_write [OF assms(1) il] by blast
  note d = looked_upD [OF s1(2)]
  let ?fin = "\<lambda>v s2. addReply c (IntReply v) (add_dirty 1 (notifyKeyspaceEvent NOTIFY_STRING ''append'' k i (signalModifiedKey i k s2)))"
  have fin: "performs c i s (?fin v s2) M T {k} [IntReply v]" if "performs c i s s2 M T {} []" for v s2 M T
    using performs_finish [OF that, of "IntReply v" 1 NOTIFY_STRING "''append''" k i k] by simp
  have err: "\<exists>e. performs c i s (addReplyError c m s1) (vis i s) (vttl i s) {} [Err e]" "\<exists>e. performs c i s (addReply c wrongtypeerr s1) (vis i s) (vttl i s) {} [Err e]" for m
    using performs_looked_error [OF s1(2)] performs_looked_reply [OF s1(2), of wrongtypeerr] by (auto simp: wrongtypeerr_def)
  show ?thesis
  proof (cases rule: str_cases [of "vis i s k"])
    case none
    let ?v = "tryObjectEncoding (createStringObject (argv ! 2))"
    obtain s2 where s2: "dbAdd i k (StringObj ?v) s1 = Some s2" "performs c i s s2 ((vis i s)(k \<mapsto> StringObj ?v)) (vttl i s) {} []"
      using performs_add_after [OF d(1) il d(4), where v = "StringObj ?v"] none d(5) by auto
    have "appendCommand c argv s = Some (?fin (int (stringObjectLen ?v)) s2)"
      using s1(1) s2(1) none by (simp add: appendCommand_def Let_def i k)
    then show ?thesis using fin [OF s2(2)] none by (simp add: is_str_def appended_def stringObjectLen_def)
  next
    case (str v)
    let ?w = "str_bytes v @ argv ! 2"
    obtain s2 where s2: "dbOverwrite i k (StringObj (Raw (str_bytes v))) s1 = Some s2"
        "performs c i s s2 ((vis i s)(k \<mapsto> StringObj (Raw (str_bytes v)))) (vttl i s) {} []" "\<not> expired i s2 k" "dbExists i k s2"
      using performs_overwrite_after [OF d(1) il d(4), where v = "StringObj (Raw (str_bytes v))"] str d(5) by (auto simp: sobj_ok_def)
    obtain s3 where s3: "dbOverwrite i k (StringObj (Raw ?w)) s2 = Some s3" "performs c i s s3 ((vis i s)(k \<mapsto> StringObj (Raw ?w))) (vttl i s) {} []"
      using performs_overwrite_after [OF s2(2) il s2(3,4), where v = "StringObj (Raw ?w)"] by (auto simp: sobj_ok_def)
    have "appendCommand c argv s = Some (if length ?w > 512 * 1024 * 1024 then addReplyError c ''string exceeds maximum allowed size (512MB)'' s1 else ?fin (int (length ?w)) s3)"
      using s1(1) s2(1) s3(1) str
      by (simp add: appendCommand_def Let_def i k checkStringLength_def dbUnshareStringValue_def createRawStringObject_def stringObjectLen_def)
    then show ?thesis using fin [OF s3(2)] str err(1) by (simp add: is_str_def appended_def)
  next
    case other
    then show ?thesis using s1(1) err(2) by (simp add: appendCommand_def Let_def i k not_str_case)
  qed
qed

lemma ll_wrap_id: "- (2 ^ 63) \<le> v \<Longrightarrow> v < 2 ^ 63 \<Longrightarrow> ll_wrap v = v"
  unfolding ll_wrap_def by (rule sign_extend_fit) (simp add: fits_signed_def)

text \<open>SETRANGE, where the sum of the offset and the length does not wrap.\<close>

lemma setrangeCommand_spec:
  assumes "server_ok s" and i: "i = cur_db c s" and k: "k = argv ! 1"
    and fits: "\<And>n. getLongLongFromObject (arg_obj (argv ! 2)) = Some n \<Longrightarrow> n + int (length (argv ! 3)) < 2 ^ 63"
  shows "\<exists>s'. setrangeCommand c argv s = Some s' \<and>
    ((\<exists>r. performs c i s s' (vis i s) (vttl i s) {} [r]) \<or>
     (\<exists>n w. getLongLongFromObject (arg_obj (argv ! 2)) = Some n \<and> 0 \<le> n
        \<and> overwrite_at (case vis i s k of Some (StringObj v) \<Rightarrow> str_bytes v | _ \<Rightarrow> []) (nat n) (argv ! 3) = Some w
        \<and> performs c i s s' ((vis i s)(k \<mapsto> StringObj (Raw w))) (vttl i s) {k} [IntReply (int (length w))]))"
proof -
  have il: "i < length (sv_dbs s)" using server_ok_cur [OF assms(1)] by (simp add: i)
  obtain s1 where s1: "lookupKeyWrite i k s = Some (s1, vis i s k)" "looked_up c i k s s1" using looked_up_write [OF assms(1) il] by blast
  note d = looked_upD [OF s1(2)]
  let ?vbytes = "argv ! 3"
  let ?fin = "\<lambda>v s2. addReply c (IntReply v) (add_dirty 1 (notifyKeyspaceEvent NOTIFY_STRING ''setrange'' k i (signalModifiedKey i k s2)))"
  have fin: "performs c i s (?fin v s2) M T {k} [IntReply v]" if "performs c i s s2 M T {} []" for v s2 M T
    using performs_finish [OF that, of "IntReply v" 1 NOTIFY_STRING "''setrange''" k i k] by simp
  have quietly: "\<exists>r. performs c i s (addReplyError c m s) (vis i s) (vttl i s) {} [r]" "\<exists>r. performs c i s (addReply c x s1) (vis i s) (vttl i s) {} [r]"
    "\<exists>r. performs c i s (addReplyError c m s1) (vis i s) (vttl i s) {} [r]" for m x
    using performs_error [OF assms(1)] performs_looked_error [OF s1(2)] performs_looked_reply [OF s1(2)] by blast+
  show ?thesis
  proof (cases "getLongLongFromObject (arg_obj (argv ! 2))")
    case None
    then show ?thesis using quietly(1)
      by (simp add: setrangeCommand_def Let_def getLongFromObjectOrReply_def getLongLongFromObjectOrReply_def del: getLongLongFromObject.simps)
  next
    case (Some n)
    note cmd = setrangeCommand_def Let_def getLongFromObjectOrReply_def getLongLongFromObjectOrReply_def Some
    consider (bad) "n < 0 \<or> n > 2 ^ 63 - 1" | (empty) "0 \<le> n" "n \<le> 2 ^ 63 - 1" "?vbytes = []"
      | (long) "0 \<le> n" "n \<le> 2 ^ 63 - 1" "?vbytes \<noteq> []" "n + int (length ?vbytes) > 512 * 1024 * 1024"
      | (good) "0 \<le> n" "?vbytes \<noteq> []" "n + int (length ?vbytes) \<le> 512 * 1024 * 1024"
      by linarith
    then show ?thesis
    proof cases
      case bad
      then show ?thesis using quietly(1) by (auto simp: cmd simp del: getLongLongFromObject.simps)
    next
      case empty
      then show ?thesis using s1(1) quietly(2)
        by (cases rule: str_cases [of "vis i s k"]) (simp_all add: cmd i k not_str_case del: getLongLongFromObject.simps)
    next
      case long
      have "ll_wrap (n + int (length ?vbytes)) = n + int (length ?vbytes)" using fits [OF Some] long by (intro ll_wrap_id) simp_all
      then show ?thesis using s1(1) long quietly(2,3)
        by (cases rule: str_cases [of "vis i s k"]) (simp_all add: cmd i k not_str_case checkStringLength_def del: getLongLongFromObject.simps)
    next
      case good
      let ?old = "case vis i s k of Some (StringObj v) \<Rightarrow> str_bytes v | _ \<Rightarrow> []"
      have wrap: "ll_wrap (n + int (length ?vbytes)) = n + int (length ?vbytes)" using good by (intro ll_wrap_id) simp_all
      have "\<not> 2 ^ 63 \<le> nat n + length ?vbytes" using good by simp
      then obtain w where w: "overwrite_at ?old (nat n) ?vbytes = Some w" by (simp only: overwrite_at_def Let_def if_False)
      have "\<exists>s2. (if vis i s k = None then dbAdd i k (StringObj (Raw [])) s1 else dbOverwrite i k (StringObj (Raw ?old)) s1) = Some s2
          \<and> performs c i s s2 ((vis i s)(k \<mapsto> StringObj (Raw ?old))) (vttl i s) {} [] \<and> \<not> expired i s2 k \<and> dbExists i k s2"
        using performs_add_after [OF d(1) il d(4), where v = "StringObj (Raw [])"] performs_overwrite_after [OF d(1) il d(4), where v = "StringObj (Raw ?old)"] d(5)
        by (cases "vis i s k") (simp_all add: sobj_ok_def)
      then obtain s2 where s2: "(if vis i s k = None then dbAdd i k (StringObj (Raw [])) s1 else dbOverwrite i k (StringObj (Raw ?old)) s1) = Some s2"
          "performs c i s s2 ((vis i s)(k \<mapsto> StringObj (Raw ?old))) (vttl i s) {} []" "\<not> expired i s2 k" "dbExists i k s2" by blast
      obtain s3 where s3: "dbOverwrite i k (StringObj (Raw w)) s2 = Some s3" "performs c i s s3 ((vis i s)(k \<mapsto> StringObj (Raw w))) (vttl i s) {} []"
        using performs_overwrite_after [OF s2(2) il s2(3,4), where v = "StringObj (Raw w)"] by (auto simp: sobj_ok_def)
      have run: "setrangeCommand c argv s = Some (?fin (int (length w)) s3)" if "is_str (vis i s k)"
        using s1(1) s2(1) s3(1) w good wrap that
        by (cases rule: str_cases [of "vis i s k"])
          (simp_all add: cmd i k checkStringLength_def dbUnshareStringValue_def createRawStringObject_def del: getLongLongFromObject.simps)
      show ?thesis
      proof (cases "is_str (vis i s k)")
        case True
        then show ?thesis using run [OF True] fin [OF s3(2)] w good Some by blast
      next
        case False
        then show ?thesis using s1(1) good quietly(2) by (simp add: cmd i k not_str_case del: getLongLongFromObject.simps)
      qed
    qed
  qed
qed

text \<open>MSET and MSETNX: the pairs of the argument vector are stored one after the other.\<close>

fun mset_map :: "u8 list list \<Rightarrow> (key \<rightharpoonup> robj) \<Rightarrow> key \<rightharpoonup> robj" where
  "mset_map (k # v # rest) M = mset_map rest (M(k \<mapsto> StringObj (tryObjectEncoding (createStringObject v))))"
| "mset_map _ M = M"

fun mset_keys :: "u8 list list \<Rightarrow> key set" where
  "mset_keys (k # v # rest) = insert k (mset_keys rest)"
| "mset_keys _ = {}"

lemma mset_loop_spec:
  assumes "server_ok s" "i < length (sv_dbs s)"
  shows "\<exists>s'. mset_loop i kvs s = Some s' \<and> performs c i s s' (mset_map kvs (vis i s)) ((vttl i s) |` (- mset_keys kvs)) (mset_keys kvs) []"
  using assms
proof (induction kvs arbitrary: s rule: mset_keys.induct)
  case (1 k v rest)
  let ?v = "StringObj (tryObjectEncoding (createStringObject v))"
  obtain s1 where s1: "setKey i k ?v s = Some s1" "performs c i s s1 ((vis i s)(k \<mapsto> ?v)) ((vttl i s)(k := None)) {k} []"
    using performs_setKey [OF 1(2,3), where v = ?v and k = k and c = c] by auto
  note p = performs_notify_after [OF s1(2), of NOTIFY_STRING "''set''" k i]
  let ?s2 = "notifyKeyspaceEvent NOTIFY_STRING ''set'' k i s1"
  obtain s3 where s3: "mset_loop i rest ?s2 = Some s3"
      "performs c i ?s2 s3 (mset_map rest (vis i ?s2)) ((vttl i ?s2) |` (- mset_keys rest)) (mset_keys rest) []"
    using 1(1) [of ?s2] performsD(1,4) [OF p] 1(3) by auto
  have "((vttl i s)(k := None)) |` (- mset_keys rest) = (vttl i s) |` (- insert k (mset_keys rest))"
    by (auto simp: restrict_map_def fun_eq_iff)
  then show ?case using s1(1) s3(1) performs_trans [OF p s3(2)] performsD(2,3) [OF p] by auto
qed (use performs_quiet [OF quiet_refl] in \<open>auto simp: restrict_map_def\<close>)

lemma mset_busy_spec:
  assumes "server_ok s" "i < length (sv_dbs s)"
  shows "\<exists>s' n. mset_busy i kvs b s = Some (s', n) \<and> n \<ge> b \<and> (n = b \<longleftrightarrow> (\<forall>k\<in>mset_keys kvs. vis i s k = None)) \<and> performs c i s s' (vis i s) (vttl i s) {} []"
  using assms
proof (induction kvs arbitrary: s b rule: mset_keys.induct)
  case (1 k v rest)
  obtain s1 where s1: "lookupKeyWrite i k s = Some (s1, vis i s k)" "looked_up c i k s s1" using looked_up_write [OF 1(2,3)] by blast
  note d = looked_upD [OF s1(2)]
  let ?b = "if vis i s k \<noteq> None then b + 1 else b"
  obtain s2 n where "mset_busy i rest ?b s1 = Some (s2, n)" "n \<ge> ?b" "n = ?b \<longleftrightarrow> (\<forall>k\<in>mset_keys rest. vis i s1 k = None)"
      "performs c i s1 s2 (vis i s1) (vttl i s1) {} []" using 1(1) [OF d(2,3), of ?b] by blast
  then show ?case using s1(1) performs_trans [OF d(1)] d(6,7) by (auto split: if_splits)
qed (use performs_quiet [OF quiet_refl] in auto)

lemma msetGeneric_spec:
  assumes "server_ok s" "length argv mod 2 = 1"
  shows "\<exists>s'. msetGenericCommand nx c argv s = Some s' \<and>
    (if nx \<and> (\<exists>k\<in>mset_keys (tl argv). vis (cur_db c s) s k \<noteq> None)
     then performs c (cur_db c s) s s' (vis (cur_db c s) s) (vttl (cur_db c s) s) {} [IntReply 0]
     else performs c (cur_db c s) s s' (mset_map (tl argv) (vis (cur_db c s) s)) ((vttl (cur_db c s) s) |` (- mset_keys (tl argv)))
       (mset_keys (tl argv)) [if nx then IntReply 1 else Status ''OK''])"
proof -
  let ?i = "cur_db c s"
  obtain s1 n where s1: "(if nx then mset_busy ?i (tl argv) 0 s else Some (s, 0)) = Some (s1, n)"
      "n = 0 \<longleftrightarrow> \<not> (nx \<and> (\<exists>k\<in>mset_keys (tl argv). vis ?i s k \<noteq> None))" "performs c ?i s s1 (vis ?i s) (vttl ?i s) {} []"
    using mset_busy_spec [OF assms(1) server_ok_cur [OF assms(1)], of c "tl argv" 0 c] performs_quiet [OF quiet_refl [OF assms(1)]]
    by (cases nx) auto
  note d = performsD [OF s1(3)]
  obtain s2 where s2: "mset_loop ?i (tl argv) s1 = Some s2"
      "performs c ?i s1 s2 (mset_map (tl argv) (vis ?i s1)) ((vttl ?i s1) |` (- mset_keys (tl argv))) (mset_keys (tl argv)) []"
    using mset_loop_spec [OF d(1), where i = ?i and kvs = "tl argv" and c = c] d(4) server_ok_cur [OF assms(1), of c] by auto
  have "performs c ?i s s2 (mset_map (tl argv) (vis ?i s)) ((vttl ?i s) |` (- mset_keys (tl argv))) (mset_keys (tl argv)) []"
    using performs_trans [OF s1(3) s2(2)] d(2,3) by simp
  note p = performs_reply_after [OF performs_dirty_after [OF this]]
  show ?thesis
  proof (cases "n = 0")
    case True
    then show ?thesis using p s1(1,2) s2(1) assms(2) by (simp add: msetGenericCommand_def) fastforce
  next
    case False
    then show ?thesis using performs_reply_after [OF s1(3), of "IntReply 0"] s1(1,2) assms(2) by (simp add: msetGenericCommand_def)
  qed
qed

end
