(* ===== verification/Db_Spec.thy ===== *)
theory Db_Spec
  imports String_Spec
begin

text \<open>
  What the commands of \<^verbatim>\<open>db.c\<close> do to the abstract keyspace, and the contract that all commands have with
  the watched keys: \<open>wsafe s s'\<close> says that from \<open>s\<close> to \<open>s'\<close> the invariant is kept, transactions and watch
  lists are left alone, and every client that watches a key that is not as before is marked.
\<close>

section \<open>The contract of commands with watched keys\<close>

definition same_key :: "nat \<Rightarrow> key \<Rightarrow> server \<Rightarrow> server \<Rightarrow> bool" where
  "same_key j k s s' \<longleftrightarrow> vis j s' k = vis j s k \<and> vttl j s' k = vttl j s k"

definition same_watch :: "server \<Rightarrow> server \<Rightarrow> bool" where
  "same_watch s s' \<longleftrightarrow> length (sv_dbs s') = length (sv_dbs s) \<and> (\<forall>j<length (sv_dbs s). db_watched (get_db j s') = db_watched (get_db j s))
     \<and> sv_client_ids s' = sv_client_ids s
     \<and> (\<forall>a. cl_multi (sv_clients s' a) = cl_multi (sv_clients s a) \<and> cl_queue (sv_clients s' a) = cl_queue (sv_clients s a)
          \<and> cl_watched (sv_clients s' a) = cl_watched (sv_clients s a) \<and> cl_dirty_exec (sv_clients s' a) = cl_dirty_exec (sv_clients s a)
          \<and> (cl_dirty_cas (sv_clients s a) \<longrightarrow> cl_dirty_cas (sv_clients s' a)))"

definition wsafe :: "server \<Rightarrow> server \<Rightarrow> bool" where
  "wsafe s s' \<longleftrightarrow> server_ok s' \<and> same_watch s s' \<and> (unblocked s \<longrightarrow> unblocked s')
     \<and> (\<forall>j<length (sv_dbs s). \<forall>k. \<forall>a\<in>watchers j k s. same_key j k s s' \<or> cl_dirty_cas (sv_clients s' a))"

lemma wsafe_refl: "server_ok s \<Longrightarrow> wsafe s s"
  by (simp add: wsafe_def same_watch_def same_key_def)

lemma watchers_same: "same_watch s s' \<Longrightarrow> j < length (sv_dbs s) \<Longrightarrow> watchers j k s' = watchers j k s"
  by (simp add: same_watch_def watchers_def)

lemma wsafeD:
  assumes "wsafe s s'"
  shows "server_ok s'" "same_watch s s'" "j < length (sv_dbs s) \<Longrightarrow> a \<in> watchers j k s \<Longrightarrow> same_key j k s s' \<or> cl_dirty_cas (sv_clients s' a)"
    "length (sv_dbs s') = length (sv_dbs s)" "unblocked s \<Longrightarrow> unblocked s'"
  using assms unfolding wsafe_def same_watch_def by blast+

lemma wsafe_trans:
  assumes "wsafe s s1" "wsafe s1 s2"
  shows "wsafe s s2"
proof -
  have w: "watchers j k s1 = watchers j k s" if "j < length (sv_dbs s)" for j k using assms(1) that watchers_same by (simp add: wsafe_def)
  have "same_watch s s2" using assms by (simp add: wsafe_def same_watch_def)
  moreover have "same_key j k s s2 \<or> cl_dirty_cas (sv_clients s2 a)" if "j < length (sv_dbs s)" "a \<in> watchers j k s" for j k a
  proof -
    have "same_key j k s s1 \<or> cl_dirty_cas (sv_clients s1 a)" "same_key j k s1 s2 \<or> cl_dirty_cas (sv_clients s2 a)"
      "cl_dirty_cas (sv_clients s1 a) \<longrightarrow> cl_dirty_cas (sv_clients s2 a)"
      using wsafeD(3) [OF assms(1) that] wsafeD(3) [OF assms(2), where j = j and k = k and a = a] wsafeD(2) [OF assms(2)] wsafeD(4) [OF assms(1)] that w by (simp_all add: same_watch_def)
    then show ?thesis by (auto simp: same_key_def)
  qed
  ultimately show ?thesis using assms by (simp add: wsafe_def)
qed

text \<open>Effects that mark the watchers of all keys that they change.\<close>

lemma wsafe_performs:
  assumes "performs c i s s' M T K rs" "\<And>k. k \<notin> K \<Longrightarrow> M k = vis i s k \<and> T k = vttl i s k"
  shows "wsafe s s'"
proof -
  have "same_key j k s s' \<or> cl_dirty_cas (sv_clients s' a)" if "a \<in> watchers j k s" for j k a
    using assms that by (cases "j = i"; cases "k \<in> K") (auto simp: performs_def same_key_def)
  then show ?thesis using assms(1) by (simp add: wsafe_def same_watch_def performs_def)
qed

lemma wsafe_read: "performs c i s s' (vis i s) (vttl i s) {} rs \<Longrightarrow> wsafe s s'"
  by (rule wsafe_performs) simp_all

section \<open>String commands\<close>

lemma wsafe_setGeneric:
  assumes "server_ok s" "sobj_ok val"
  shows "\<exists>s'. setGenericCommand name nx xx k val expire seconds okr abr c s = Some s' \<and> wsafe s s'"
proof (cases expire)
  case None
  obtain s' where s': "setGenericCommand name nx xx k val None seconds okr abr c s = Some s'"
      "if set_refused nx xx (vis (cur_db c s) s k)
       then performs c (cur_db c s) s s' (vis (cur_db c s) s) (vttl (cur_db c s) s) {} [case abr of Some r \<Rightarrow> r | None \<Rightarrow> NullBulk]
       else performs c (cur_db c s) s s' ((vis (cur_db c s) s)(k \<mapsto> StringObj val)) ((vttl (cur_db c s) s)(k := None)) {k}
         [case okr of Some r \<Rightarrow> r | None \<Rightarrow> Status ''OK'']"
    using setGeneric_plain [OF assms] by blast
  have "wsafe s s'"
  proof (cases "set_refused nx xx (vis (cur_db c s) s k)")
    case False
    then show ?thesis using s'(2) by (simp only: if_False) (erule wsafe_performs, simp)
  qed (use s'(2) wsafe_read in simp)
  then show ?thesis using s'(1) None by simp
next
  case (Some e)
  show ?thesis
  proof (cases "\<exists>m>0. getLongLongFromObject (arg_obj e) = Some m")
    case True
    then obtain m where m: "getLongLongFromObject (arg_obj e) = Some m" "0 < m" by blast
    let ?w = "ll_wrap (sv_now s + (if seconds then ll_wrap (m * 1000) else m))"
    obtain s' where s': "setGenericCommand name nx xx k val (Some e) seconds okr abr c s = Some s'"
        "if set_refused nx xx (vis (cur_db c s) s k)
         then performs c (cur_db c s) s s' (vis (cur_db c s) s) (vttl (cur_db c s) s) {} [case abr of Some r \<Rightarrow> r | None \<Rightarrow> NullBulk]
         else performs c (cur_db c s) s s' (with_ttl s k ?w ((vis (cur_db c s) s)(k \<mapsto> StringObj val)))
           (ttl_with s k ?w ((vttl (cur_db c s) s)(k := None))) {k} [case okr of Some r \<Rightarrow> r | None \<Rightarrow> Status ''OK'']"
      using setGeneric_expire [OF assms m refl] by blast
    have "wsafe s s'"
    proof (cases "set_refused nx xx (vis (cur_db c s) s k)")
      case False
      then show ?thesis using s'(2) by (simp only: if_False) (erule wsafe_performs, simp add: with_ttl_def ttl_with_def)
    qed (use s'(2) wsafe_read in simp)
    then show ?thesis using s'(1) Some by simp
  next
    case False
    then have "\<And>m. getLongLongFromObject (arg_obj e) = Some m \<Longrightarrow> m \<le> 0" by (meson not_le)
    from setGeneric_bad_expire [OF assms(1) this] show ?thesis using Some wsafe_read by blast
  qed
qed

lemma wsafe_set:
  assumes "server_ok s"
  shows "\<exists>s'. setCommand c argv s = Some s' \<and> wsafe s s'" "\<exists>s'. setnxCommand c argv s = Some s' \<and> wsafe s s'"
    "\<exists>s'. setexCommand c argv s = Some s' \<and> wsafe s s'" "\<exists>s'. psetexCommand c argv s = Some s' \<and> wsafe s s'"
proof -
  note g = wsafe_setGeneric [OF assms, where c = c]
  show "\<exists>s'. setCommand c argv s = Some s' \<and> wsafe s s'"
    using g wsafe_read [OF performs_addReply [OF assms]] by (auto simp: setCommand_def split: option.split)
qed (use wsafe_setGeneric [OF assms, where c = c] in \<open>simp_all add: setnxCommand_def setexCommand_def psetexCommand_def\<close>)

lemma wsafe_incr:
  assumes "server_ok s"
  shows "\<exists>s'. incrDecrCommand incr c argv s = Some s' \<and> wsafe s s'"
proof -
  obtain s' where s': "incrDecrCommand incr c argv s = Some s'"
     "case old_number (vis (cur_db c s) s (argv ! 1)) of
       Some n \<Rightarrow>
         if incr_overflows incr n
         then performs c (cur_db c s) s s' (vis (cur_db c s) s) (vttl (cur_db c s) s) {} [Err ''ERR increment or decrement would overflow'']
         else performs c (cur_db c s) s s' ((vis (cur_db c s) s)(argv ! 1 \<mapsto> StringObj (createStringObjectFromLongLong (n + incr)))) (vttl (cur_db c s) s) {argv ! 1} [IntReply (n + incr)]
     | None \<Rightarrow> \<exists>err. performs c (cur_db c s) s s' (vis (cur_db c s) s) (vttl (cur_db c s) s) {} [Err err]"
    using incrDecr_spec [OF assms refl refl] by blast
  moreover have "wsafe s s'" using s'(2) wsafe_read wsafe_performs [where K = "{argv ! 1}"] by (fastforce split: option.splits if_splits)
  ultimately show ?thesis by blast
qed

lemma wsafe_counters:
  assumes "server_ok s"
  shows "\<exists>s'. incrCommand c argv s = Some s' \<and> wsafe s s'" "\<exists>s'. decrCommand c argv s = Some s' \<and> wsafe s s'"
    "\<exists>s'. incrbyCommand c argv s = Some s' \<and> wsafe s s'" "\<exists>s'. decrbyCommand c argv s = Some s' \<and> wsafe s s'"
  using wsafe_incr [OF assms, where c = c] wsafe_read [OF performs_error [OF assms]]
  by (auto simp: incrCommand_def decrCommand_def incrbyCommand_def decrbyCommand_def getLongLongFromObjectOrReply_def
      simp del: getLongLongFromObject.simps split: option.split)

lemma wsafe_reads:
  assumes "server_ok s"
  shows "\<exists>s'. getCommand c argv s = Some s' \<and> wsafe s s'" "\<exists>s'. strlenCommand c argv s = Some s' \<and> wsafe s s'"
    "\<exists>s'. getrangeCommand c argv s = Some s' \<and> wsafe s s'" "\<exists>s'. mgetCommand c argv s = Some s' \<and> wsafe s s'"
  using getCommand_spec [OF assms] strlenCommand_spec [OF assms] getrangeCommand_spec [OF assms] mgetCommand_spec [OF assms] wsafe_read by blast+

lemma wsafe_writes:
  assumes "server_ok s"
  shows "\<exists>s'. getsetCommand c argv s = Some s' \<and> wsafe s s'" "\<exists>s'. appendCommand c argv s = Some s' \<and> wsafe s s'"
    "\<exists>s'. msetCommand c argv s = Some s' \<and> wsafe s s'" "\<exists>s'. msetnxCommand c argv s = Some s' \<and> wsafe s s'"
proof -
  have upd: "wsafe s s'" if "performs c i s s' ((vis i s)(k \<mapsto> v)) T {k} rs" "\<And>k'. k' \<noteq> k \<Longrightarrow> T k' = vttl i s k'" for c i s s' k v T rs
    using that by (intro wsafe_performs [OF that(1)]) auto
  show "\<exists>s'. getsetCommand c argv s = Some s' \<and> wsafe s s'"
    using getsetCommand_spec [OF assms, of c argv] wsafe_read upd by (fastforce split: if_splits)
  show "\<exists>s'. appendCommand c argv s = Some s' \<and> wsafe s s'"
    using appendCommand_spec [OF assms refl refl, of c argv] wsafe_read upd by (fastforce split: if_splits)
  have m: "mset_map kvs M k = M k" if "k \<notin> mset_keys kvs" for kvs M k using that by (induction kvs M rule: mset_map.induct) auto
  have "\<exists>s'. msetGenericCommand nx c argv s = Some s' \<and> wsafe s s'" for nx
  proof (cases "length argv mod 2 = 1")
    case True
    have "wsafe s s'" if "performs c (cur_db c s) s s' (mset_map kvs (vis (cur_db c s) s)) (vttl (cur_db c s) s |` (- mset_keys kvs)) (mset_keys kvs) rs" for s' kvs rs
      using that by (rule wsafe_performs) (simp add: m)
    then show ?thesis using msetGeneric_spec [OF assms True, of nx c] wsafe_read by (fastforce split: if_splits)
  next
    case False
    then show ?thesis using wsafe_read [OF performs_error [OF assms]] by (auto simp: msetGenericCommand_def)
  qed
  then show "\<exists>s'. msetCommand c argv s = Some s' \<and> wsafe s s'" "\<exists>s'. msetnxCommand c argv s = Some s' \<and> wsafe s s'"
    by (simp_all add: msetCommand_def msetnxCommand_def)
qed

section \<open>DEL, EXISTS, TYPE, DBSIZE, KEYS\<close>

lemma dbDelete_gone: "snd (dbDelete i k s) = dbExists i k s"
  by (simp add: dbDelete_def)

lemma expireIfNeeded_performs:
  assumes "server_ok s" "i < length (sv_dbs s)"
  shows "\<exists>s' b. expireIfNeeded i k s = Some (s', b) \<and> looked_up c i k s s' \<and> (\<not> sv_slave s \<longrightarrow> b = expired i s k)"
proof -
  obtain s' b where e: "expireIfNeeded i k s = Some (s', b)" "quiet s s'" "db_dict (get_db i s') k = vis i s k"
      "db_expires (get_db i s') k = vttl i s k" "\<not> sv_slave s \<longrightarrow> b = expired i s k"
    using expireIfNeeded_spec [OF assms] by blast
  have "looked_up c i k s s'"
    using performs_quiet [OF e(2)] quietD(1,3,6-8) [OF e(2)] quiet_not_expired [OF e(2,4)] e(3) assms(2) by (simp add: looked_up_def dbExists_def)
  then show ?thesis using e(1,5) by blast
qed

lemma performs_delete_after:
  assumes "performs c i s s1 M T K rs" "i < length (sv_dbs s)"
  shows "performs c i s (fst (dbDelete i k s1)) (M(k := None)) (T(k := None)) K rs"
  using performs_trans [OF assms(1) performs_delete [OF performsD(1) [OF assms(1)], of i c k]] performsD(2-4) [OF assms(1)] assms(2) by simp

lemma performs_signal_after:
  assumes "performs c i s s1 M T K rs"
  shows "performs c i s (signalModifiedKey i k s1) M T (insert k K) rs"
  using performs_trans [OF assms performs_signal [OF performsD(1) [OF assms], of c i k]] performsD(2,3) [OF assms] by simp

lemma card_guarded: "finite A \<Longrightarrow> k \<notin> A \<Longrightarrow> card ((if h then {k} else {}) \<union> A) = (if h then 1 else 0) + card A"
  by simp

lemma del_loop_spec:
  assumes "server_ok s" "i < length (sv_dbs s)"
  shows "\<exists>s' n. del_loop i ks d s = Some (s', n) \<and> n = d + card {k \<in> set ks. vis i s k \<noteq> None}
    \<and> performs c i s s' ((vis i s) |` (- set ks)) ((vttl i s) |` (- set ks)) {k \<in> set ks. vis i s k \<noteq> None} []"
  using assms
proof (induction ks arbitrary: s d)
  case Nil
  then show ?case using performs_quiet [OF quiet_refl] by (auto simp: restrict_map_def)
next
  case (Cons k ks)
  obtain s1 b where s1: "expireIfNeeded i k s = Some (s1, b)" "looked_up c i k s s1"
    using expireIfNeeded_performs [OF Cons.prems] by blast
  note l = looked_upD [OF s1(2)]
  let ?hit = "vis i s k \<noteq> None"
  let ?s2 = "fst (dbDelete i k s1)"
  let ?s3 = "if ?hit then add_dirty 1 (notifyKeyspaceEvent NOTIFY_GENERIC ''del'' k i (signalModifiedKey i k ?s2)) else ?s2"
  have p2: "performs c i s ?s2 ((vis i s)(k := None)) ((vttl i s)(k := None)) {} []" using performs_delete_after [OF l(1) Cons.prems(2)] .
  have p3: "performs c i s ?s3 ((vis i s)(k := None)) ((vttl i s)(k := None)) (if ?hit then {k} else {}) []"
    using performs_dirty_after [OF performs_notify_after [OF performs_signal_after [OF p2]]] p2 by simp
  note d = performsD [OF p3]
  obtain s4 n where s4: "del_loop i ks (if ?hit then d + 1 else d) ?s3 = Some (s4, n)" "n = (if ?hit then d + 1 else d) + card {k' \<in> set ks. vis i ?s3 k' \<noteq> None}"
      "performs c i ?s3 s4 ((vis i ?s3) |` (- set ks)) ((vttl i ?s3) |` (- set ks)) {k \<in> set ks. vis i ?s3 k \<noteq> None} []"
    using Cons.IH [OF d(1), of "if ?hit then d + 1 else d"] d(4) Cons.prems(2) by auto
  have run: "del_loop i (k # ks) d s = del_loop i ks (if ?hit then d + 1 else d) ?s3"
    using s1(1) l(5) dbDelete_gone [of i k s1] by (cases "dbDelete i k s1") auto
  have sets: "{k' \<in> set (k # ks). vis i s k' \<noteq> None} = (if ?hit then {k} else {}) \<union> {k' \<in> set ks. vis i ?s3 k' \<noteq> None}"
    using d(2) by auto
  have "k \<notin> {k' \<in> set ks. vis i ?s3 k' \<noteq> None}" using d(2) by simp
  then have "card {k' \<in> set (k # ks). vis i s k' \<noteq> None} = (if ?hit then 1 else 0) + card {k' \<in> set ks. vis i ?s3 k' \<noteq> None}"
    unfolding sets by (intro card_guarded) simp_all
  moreover have "((vis i s)(k := None)) |` (- set ks) = (vis i s) |` (- set (k # ks))" "((vttl i s)(k := None)) |` (- set ks) = (vttl i s) |` (- set (k # ks))"
    by (auto simp: restrict_map_def fun_eq_iff)
  ultimately show ?case using run s4 performs_trans [OF p3 s4(3)] d(2,3) sets by auto
qed

lemma delCommand_spec:
  assumes "server_ok s" and i: "i = cur_db c s"
  shows "\<exists>s'. delCommand c argv s = Some s' \<and> performs c i s s' ((vis i s) |` (- set (tl argv))) ((vttl i s) |` (- set (tl argv)))
    {k \<in> set (tl argv). vis i s k \<noteq> None} [IntReply (int (card {k \<in> set (tl argv). vis i s k \<noteq> None}))]"
proof -
  obtain s1 n where "del_loop i (tl argv) 0 s = Some (s1, n)" "n = card {k \<in> set (tl argv). vis i s k \<noteq> None}"
      "performs c i s s1 ((vis i s) |` (- set (tl argv))) ((vttl i s) |` (- set (tl argv))) {k \<in> set (tl argv). vis i s k \<noteq> None} []"
    using del_loop_spec [OF assms(1), where i = i and ks = "tl argv" and d = 0 and c = c] server_ok_cur [OF assms(1)] i by auto
  then show ?thesis using performs_reply_after by (fastforce simp: delCommand_def i)
qed

lemma existsCommand_spec:
  assumes "server_ok s" and i: "i = cur_db c s"
  shows "\<exists>s'. existsCommand c argv s = Some s'
    \<and> performs c i s s' (vis i s) (vttl i s) {} [IntReply (if vis i s (argv ! 1) \<noteq> None then 1 else 0)]"
proof -
  obtain s1 b where s1: "expireIfNeeded i (argv ! 1) s = Some (s1, b)" "looked_up c i (argv ! 1) s s1"
    using expireIfNeeded_performs [OF assms(1)] server_ok_cur [OF assms(1)] i by blast
  then show ?thesis using performs_looked_reply [OF s1(2)] looked_upD(5) [OF s1(2)] by (auto simp: existsCommand_def i)
qed

lemma typeCommand_spec:
  assumes "server_ok s" and i: "i = cur_db c s"
  shows "\<exists>s'. typeCommand c argv s = Some s' \<and> performs c i s s' (vis i s) (vttl i s) {} [Status (type_name (vis i s (argv ! 1)))]"
proof -
  obtain s1 where s1: "lookupKeyRead i (argv ! 1) s = Some (s1, vis i s (argv ! 1))" "looked_up c i (argv ! 1) s s1"
    using looked_up_read [OF assms(1)] server_ok_cur [OF assms(1)] i by blast
  then show ?thesis using performs_looked_reply [OF s1(2)] by (auto simp: typeCommand_def i)
qed

definition key_matches :: "u8 list \<Rightarrow> key \<Rightarrow> bool option" where
  "key_matches pattern k = stringmatchlen (pattern @ [0]) 0 (int (length pattern)) (k @ [0]) 0 (int (length k)) False"

lemma expireIfNeeded_others:
  assumes "expireIfNeeded i k s = Some (s', b)" "i < length (sv_dbs s)" "k' \<noteq> k"
  shows "db_dict (get_db i s') k' = db_dict (get_db i s) k'"
  using assms
  by (auto simp: expireIfNeeded_def Let_def dbDelete_def get_db_upd notifyKeyspaceEvent_def propagateExpire_def
      split: Option.bind_splits if_splits option.splits)

lemma keys_loop_spec:
  assumes "server_ok s" "i < length (sv_dbs s)" "\<not> sv_slave s" "\<And>k. k \<in> set order \<Longrightarrow> allkeys \<or> key_matches pattern k \<noteq> None"
    and "distinct order" "\<And>k. k \<in> set order \<Longrightarrow> dbExists i k s"
  shows "\<exists>s'. keys_loop i pattern allkeys order emit s
      = Some (s', emit @ filter (\<lambda>k. (allkeys \<or> key_matches pattern k = Some True) \<and> vis i s k \<noteq> None) order)
    \<and> performs c i s s' (vis i s) (vttl i s) {} []"
  using assms
proof (induction order arbitrary: emit s)
  case Nil
  then show ?case using performs_quiet [OF quiet_refl] by auto
next
  case (Cons k order)
  show ?case
  proof (cases "allkeys \<or> key_matches pattern k = Some True")
    case False
    then have "key_matches pattern k = Some False" using Cons.prems(4) [of k] by auto
    then show ?thesis using Cons.IH [OF Cons.prems(1-3), of emit] Cons.prems(4-6) False by (auto simp: key_matches_def)
  next
    case True
    obtain s1 b where s1: "expireIfNeeded i k s = Some (s1, b)" "looked_up c i k s s1" "b = expired i s k"
      using expireIfNeeded_performs [OF Cons.prems(1,2), of k c] Cons.prems(3) by blast
    note l = looked_upD [OF s1(2)]
    have b: "b \<longleftrightarrow> vis i s k = None" using s1(3) Cons.prems(6) [of k] by (auto simp: vis_def dbExists_def)
    have ex: "dbExists i k' s1" if "k' \<in> set order" for k'
    proof -
      have "k' \<noteq> k" "dbExists i k' s" using that Cons.prems(5) Cons.prems(6) [of k'] by auto
      then show ?thesis using expireIfNeeded_others [OF s1(1) Cons.prems(2)] by (simp add: dbExists_def)
    qed
    obtain s2 where s2: "keys_loop i pattern allkeys order (if b then emit else emit @ [k]) s1
          = Some (s2, (if b then emit else emit @ [k]) @ filter (\<lambda>k. (allkeys \<or> key_matches pattern k = Some True) \<and> vis i s1 k \<noteq> None) order)"
        "performs c i s1 s2 (vis i s1) (vttl i s1) {} []"
      using Cons.IH [OF l(2,3), of "if b then emit else emit @ [k]"] performsD(8) [OF l(1)] Cons.prems(3-5) ex by auto
    have "keys_loop i pattern allkeys (k # order) emit s = keys_loop i pattern allkeys order (if b then emit else emit @ [k]) s1"
      using True s1(1) by (auto simp: key_matches_def)
    then show ?thesis using s2(1) performs_trans [OF l(1) s2(2)] l(6,7) b True by auto
  qed
qed

lemma performs_replies:
  assumes "performs c i s s1 M T K rs"
  shows "performs c i s (fold (\<lambda>k. addReply c (f k)) ks s1) M T K (rs @ map f ks)"
  using assms
proof (induction ks arbitrary: s1 rs)
  case (Cons k ks)
  from Cons.IH [OF performs_reply_after [OF Cons.prems]] show ?case by simp
qed simp

section \<open>RENAME and RENAMENX\<close>

lemma performs_twice:
  assumes "performs c i s s1 M T K rs" "i < length (sv_dbs s)"
  shows "\<exists>s2. lookupKeyWrite i k s1 = Some (s2, M k) \<and> performs c i s s2 M T K rs \<and> \<not> expired i s2 k \<and> dbExists i k s2 = (M k \<noteq> None)"
proof -
  note d = performsD [OF assms(1)]
  obtain s2 where s2: "lookupKeyWrite i k s1 = Some (s2, vis i s1 k)" "looked_up c i k s1 s2"
    using looked_up_write [OF d(1)] assms(2) d(4) by (metis (no_types))
  then show ?thesis using performs_trans [OF assms(1) looked_upD(1) [OF s2(2)]] looked_upD(4,5) [OF s2(2)] d(2,3) by auto
qed

text \<open>The clock of the expiration is not behind the one that the times to live were checked with, so the
  copied time to live is still to come.\<close>

lemma vttl_not_lapsed: "vttl i s k = Some w \<Longrightarrow> \<not> lapsed s w"
  by (auto simp: vttl_def expired_def lapsed_def split: if_splits)

lemma vttl_vis: "server_ok s \<Longrightarrow> i < length (sv_dbs s) \<Longrightarrow> vis i s k = None \<Longrightarrow> vttl i s k = None"
  using server_okD(2) [of s i] by (auto simp: vis_def vttl_def split: if_splits)

text \<open>Deleting a key if it is there.\<close>

lemma performs_delete_if:
  assumes "performs c i s s1 M T {} []" "i < length (sv_dbs s)" "\<not> expired i s1 k" "dbExists i k s1 = (M k \<noteq> None)"
  shows "performs c i s (if M k \<noteq> None then fst (dbDelete i k s1) else s1) (M(k := None)) (T(k := None)) {} []
    \<and> \<not> expired i (if M k \<noteq> None then fst (dbDelete i k s1) else s1) k \<and> \<not> dbExists i k (if M k \<noteq> None then fst (dbDelete i k s1) else s1)"
proof (cases "M k")
  case None
  then have "T k = None" using vttl_vis [OF performsD(1) [OF assms(1)], of i k] performsD(2-4) [OF assms(1)] assms(2) by simp
  then have "M(k := None) = M" "T(k := None) = T" using None by (simp_all add: fun_upd_idem)
  then show ?thesis using None assms by simp
next
  case (Some v)
  note d = performsD [OF assms(1)]
  have "i < length (sv_dbs s1)" using assms(2) d(4) by simp
  note g = dbDelete_purge(7,8) [OF d(1) this, of k]
  show ?thesis using performs_delete_after [OF assms(1,2), of k] Some g by (simp add: expired_def dbExists_def)
qed

lemma renameGeneric_spec:
  assumes "server_ok s" and i: "i = cur_db c s" and src: "src = argv ! 1" and dst: "dst = argv ! 2"
  shows "\<exists>s'. renameGenericCommand nx c argv s = Some s' \<and>
    (if src = dst then performs c i s s' (vis i s) (vttl i s) {} [sameobjecterr]
     else if vis i s src = None then performs c i s s' (vis i s) (vttl i s) {} [nokeyerr]
     else if nx \<and> vis i s dst \<noteq> None then performs c i s s' (vis i s) (vttl i s) {} [IntReply 0]
     else performs c i s s' ((vis i s)(dst := vis i s src, src := None))
       ((vttl i s)(dst := if vttl i s src = Some (- 1) then None else vttl i s src, src := None)) {src, dst} [if nx then IntReply 1 else Status ''OK''])"
proof (cases "src = dst \<or> vis i s src = None")
  case True
  have il: "i < length (sv_dbs s)" using server_ok_cur [OF assms(1)] by (simp add: i)
  obtain s1 where s1: "lookupKeyWriteOrReply c src nokeyerr s = Some (if vis i s src = None then addReply c nokeyerr s1 else s1, vis i s src)"
      "looked_up c i src s s1" using write_or_reply [OF assms(1)] i by blast
  show ?thesis using True s1(1) performs_looked_reply [OF s1(2)] performs_addReply [OF assms(1)]
    by (auto simp: renameGenericCommand_def Let_def i src dst)
next
  case False
  have il: "i < length (sv_dbs s)" using server_ok_cur [OF assms(1)] by (simp add: i)
  obtain val where val: "vis i s src = Some val" "src \<noteq> dst" using False by blast
  have vok: "val_ok (sv_env s) val" using val(1) server_okD(3) [OF assms(1) il] by (auto simp: vis_def split: if_splits)
  obtain s1 where s1: "lookupKeyWriteOrReply c src nokeyerr s = Some (s1, Some val)" "looked_up c i src s s1"
    using write_or_reply [OF assms(1), of c src nokeyerr] i val(1) by auto
  note l = looked_upD [OF s1(2)]
  have ex1: "db_expires (get_db i s1) src = vttl i s src" using l(4,7) by (auto simp: vttl_def fun_eq_iff split: if_splits)
  have ge: "getExpire i src s1 = Some (case vttl i s src of None \<Rightarrow> - 1 | Some w \<Rightarrow> w)"
    using ex1 l(5) val(1) by (simp add: getExpire_def split: option.split)
  obtain s2 where s2: "lookupKeyWrite i dst s1 = Some (s2, vis i s dst)" "performs c i s s2 (vis i s) (vttl i s) {} []"
      "\<not> expired i s2 dst" "dbExists i dst s2 = (vis i s dst \<noteq> None)" using performs_twice [OF l(1) il] by blast
  show ?thesis
  proof (cases "nx \<and> vis i s dst \<noteq> None")
    case True
    then show ?thesis using val s1(1) ge s2(1) performs_reply_after [OF s2(2)] by (auto simp: renameGenericCommand_def Let_def i src dst)
  next
    case go: False
    let ?s3 = "if vis i s dst \<noteq> None then fst (dbDelete i dst s2) else s2"
    have p3: "performs c i s ?s3 ((vis i s)(dst := None)) ((vttl i s)(dst := None)) {} []" "\<not> expired i ?s3 dst" "\<not> dbExists i dst ?s3"
      using performs_delete_if [OF s2(2) il s2(3,4)] by blast+
    obtain s4 where s4: "dbAdd i dst val ?s3 = Some s4" "performs c i s s4 ((vis i s)(dst \<mapsto> val)) ((vttl i s)(dst := None)) {} []"
        "\<not> expired i s4 dst" "dbExists i dst s4"
      using performs_add_after [OF p3(1) il p3(2,3) vok] by auto
    let ?w = "case vttl i s src of None \<Rightarrow> - 1 | Some w \<Rightarrow> w"
    let ?T = "(vttl i s)(dst := if vttl i s src = Some (- 1) then None else vttl i s src)"
    have "\<exists>s5. (if ?w \<noteq> - 1 then setExpire i dst ?w s4 else Some s4) = Some s5 \<and> performs c i s s5 ((vis i s)(dst \<mapsto> val)) ?T {} []"
    proof (cases "vttl i s src")
      case (Some w)
      then show ?thesis
        using performs_setExpire_after [OF s4(2) il s4(3,4), of w] s4(2) vttl_not_lapsed [OF Some] by (cases "w = - 1") (auto simp: with_ttl_def ttl_with_def)
    qed (use s4(2) in simp)
    then obtain s5 where s5: "(if ?w \<noteq> - 1 then setExpire i dst ?w s4 else Some s4) = Some s5" "performs c i s s5 ((vis i s)(dst \<mapsto> val)) ?T {} []"
      by blast
    let ?s9 = "notifyKeyspaceEvent NOTIFY_GENERIC ''rename_to'' dst i (notifyKeyspaceEvent NOTIFY_GENERIC ''rename_from'' src i
        (signalModifiedKey i dst (signalModifiedKey i src (fst (dbDelete i src s5)))))"
    have run: "renameGenericCommand nx c argv s = Some (addReply c (if nx then IntReply 1 else Status ''OK'') (add_dirty 1 ?s9))"
      using val s1(1) ge s2(1) s4(1) s5(1) go by (auto simp: renameGenericCommand_def Let_def i src dst)
    have p9: "performs c i s ?s9 (((vis i s)(dst \<mapsto> val))(src := None)) (?T(src := None)) {src, dst} []"
      using performs_notify_after [OF performs_notify_after [OF performs_signal_after [OF performs_signal_after [OF performs_delete_after [OF s5(2) il]]]]]
      by (simp add: insert_commute)
    show ?thesis using run performs_reply_after [OF performs_dirty_after [OF p9]] go val by auto
  qed
qed

section \<open>Times to live\<close>

lemma performs_rewrite_after:
  "performs c i s s1 M T K rs \<Longrightarrow> performs c i s (rewriteClientCommandVector a argv s1) M T K rs"
  using performs_trans [OF _ performs_rewrite] performsD(1-3) by fastforce

text \<open>The time at which a key is to expire, as the command computes it.\<close>

definition expire_at :: "int \<Rightarrow> bool \<Rightarrow> int \<Rightarrow> int" where
  "expire_at basetime seconds v = ll_wrap ((if seconds then ll_wrap (v * 1000) else v) + basetime)"

lemma expireGeneric_spec:
  assumes "server_ok s" and i: "i = cur_db c s" and k: "k = argv ! 1"
    and v: "getLongLongFromObject (arg_obj (argv ! 2)) = Some v" and w: "w = expire_at basetime seconds v"
  shows "\<exists>s'. expireGenericCommand basetime seconds c argv s = Some s' \<and>
    (if vis i s k = None then performs c i s s' (vis i s) (vttl i s) {} [IntReply 0]
     else if w \<le> sv_now s \<and> \<not> sv_loading s \<and> \<not> sv_slave s
     then performs c i s s' ((vis i s)(k := None)) ((vttl i s)(k := None)) {k} [IntReply 1]
     else performs c i s s' (with_ttl s k w (vis i s)) (ttl_with s k w (vttl i s)) {k} [IntReply 1])"
proof -
  have il: "i < length (sv_dbs s)" using server_ok_cur [OF assms(1)] by (simp add: i)
  obtain s1 where s1: "lookupKeyRead i k s = Some (s1, vis i s k)" "looked_up c i k s s1" using looked_up_read [OF assms(1) il] by blast
  note l = looked_upD [OF s1(2)] and d = performsD(6-8) [OF looked_upD(1) [OF s1(2)]]
  note cmd = expireGenericCommand_def Let_def getLongLongFromObjectOrReply_def v w expire_at_def
  have wdef: "ll_wrap ((if seconds then ll_wrap (v * 1000) else v) + basetime) = w" by (simp add: w expire_at_def)
  show ?thesis
  proof (cases "vis i s k")
    case None
    then show ?thesis using s1(1) performs_looked_reply [OF s1(2)] by (simp add: cmd i k del: getLongLongFromObject.simps)
  next
    case (Some val)
    then have ex: "dbExists i k s1" using l(5) by simp
    show ?thesis
    proof (cases "w \<le> sv_now s \<and> \<not> sv_loading s \<and> \<not> sv_slave s")
      case True
      obtain s2 where s2: "dbDelete i k s1 = (s2, True)" using ex by (simp add: dbDelete_def)
      let ?s4 = "notifyKeyspaceEvent NOTIFY_GENERIC ''del'' k i (signalModifiedKey i k (rewriteClientCommandVector c [bytes ''DEL'', k] (add_dirty 1 s2)))"
      have "expireGenericCommand basetime seconds c argv s = Some (addReply c (IntReply 1) ?s4)"
        unfolding expireGenericCommand_def Let_def getLongLongFromObjectOrReply_def v wdef option.case sum.case
        using s1(1) s2 True d Some by (simp only: i k option.case bind.bind_lunit prod.case) simp
      moreover have "performs c i s (addReply c (IntReply 1) ?s4) ((vis i s)(k := None)) ((vttl i s)(k := None)) {k} [IntReply 1]"
        using performs_reply_after [OF performs_notify_after [OF performs_signal_after [OF performs_rewrite_after [OF performs_dirty_after [OF performs_delete_after [OF l(1) il, of k]]]]]] s2
        by simp
      ultimately show ?thesis using True Some by simp
    next
      case False
      obtain s2 where s2: "setExpire i k w s1 = Some s2" "performs c i s s2 (with_ttl s k w (vis i s)) (ttl_with s k w (vttl i s)) {} []"
        using performs_setExpire_after [OF l(1) il l(4) ex] by blast
      let ?s4 = "add_dirty 1 (notifyKeyspaceEvent NOTIFY_GENERIC ''expire'' k i (signalModifiedKey i k (addReply c (IntReply 1) s2)))"
      have "expireGenericCommand basetime seconds c argv s = Some ?s4"
        unfolding expireGenericCommand_def Let_def getLongLongFromObjectOrReply_def v wdef option.case sum.case
        using s1(1) s2(1) False d Some by (simp only: i k option.case bind.bind_lunit prod.case) simp
      moreover have "performs c i s ?s4 (with_ttl s k w (vis i s)) (ttl_with s k w (vttl i s)) {k} [IntReply 1]"
        using performs_dirty_after [OF performs_notify_after [OF performs_signal_after [OF performs_reply_after [OF s2(2)]]]] by simp
      ultimately show ?thesis using False Some by auto
    qed
  qed
qed

lemma expireGeneric_bad:
  assumes "server_ok s" "getLongLongFromObject (arg_obj (argv ! 2)) = None"
  shows "\<exists>s' r. expireGenericCommand basetime seconds c argv s = Some s'
    \<and> performs c (cur_db c s) s s' (vis (cur_db c s) s) (vttl (cur_db c s) s) {} [r]"
  using assms performs_error [OF assms(1), of c "cur_db c s"]
  by (simp add: expireGenericCommand_def getLongLongFromObjectOrReply_def Let_def del: getLongLongFromObject.simps) blast

definition ttl_reply :: "bool \<Rightarrow> int \<Rightarrow> robj option \<Rightarrow> int option \<Rightarrow> int" where
  "ttl_reply ms now v w =
     (if v = None then - 2
      else case w of
        None \<Rightarrow> - 1
      | Some e \<Rightarrow>
          if e = - 1 then - 1
          else let t = ll_wrap (e - now); t = (if t < 0 then 0 else t) in if ms then t else c_quot (ll_wrap (t + 500)) 1000)"

lemma ttlGeneric_spec:
  assumes "server_ok s" and i: "i = cur_db c s" and k: "k = argv ! 1"
  shows "\<exists>s'. ttlGenericCommand ms c argv s = Some s'
    \<and> performs c i s s' (vis i s) (vttl i s) {} [IntReply (ttl_reply ms (sv_now s) (vis i s k) (vttl i s k))]"
proof -
  have il: "i < length (sv_dbs s)" using server_ok_cur [OF assms(1)] by (simp add: i)
  obtain s1 where s1: "lookupKeyRead i k s = Some (s1, vis i s k)" "looked_up c i k s s1" using looked_up_read [OF assms(1) il] by blast
  note l = looked_upD [OF s1(2)] and d = performsD(6) [OF looked_upD(1) [OF s1(2)]]
  have ex1: "db_expires (get_db i s1) k = vttl i s k" using l(4,7) by (auto simp: vttl_def fun_eq_iff split: if_splits)
  show ?thesis
  proof (cases "vis i s k")
    case None
    then show ?thesis using s1(1) performs_looked_reply [OF s1(2)] by (simp add: ttlGenericCommand_def Let_def ttl_reply_def i k)
  next
    case (Some v)
    then have "getExpire i k s1 = Some (case vttl i s k of None \<Rightarrow> - 1 | Some w \<Rightarrow> w)"
      using ex1 l(5) by (simp add: getExpire_def split: option.split)
    then have "ttlGenericCommand ms c argv s = Some (addReply c (IntReply (ttl_reply ms (sv_now s) (vis i s k) (vttl i s k))) s1)"
      using s1(1) Some d by (cases "vttl i s k") (simp_all add: ttlGenericCommand_def Let_def ttl_reply_def i k)
    then show ?thesis using performs_looked_reply [OF s1(2)] by simp
  qed
qed

text \<open>PERSIST does not look at the clock: a key whose time has passed comes back to life.\<close>

lemma persistCommand_spec:
  assumes "server_ok s" and i: "i = cur_db c s" and k: "k = argv ! 1"
  shows "\<exists>s'. persistCommand c argv s = Some s'
    \<and> performs c i s s' (if dbExists i k s then (vis i s)(k := db_dict (get_db i s) k) else vis i s) ((vttl i s)(k := None)) {}
        [IntReply (if db_expires (get_db i s) k \<noteq> None then 1 else 0)]"
proof (cases "dbExists i k s")
  case False
  have il: "i < length (sv_dbs s)" using server_ok_cur [OF assms(1)] by (simp add: i)
  have "db_expires (get_db i s) k = None" using False server_okD(2) [OF assms(1) il] by (auto simp: dbExists_def)
  then have "vttl i s k = None" by (simp add: vttl_def)
  then have "(vttl i s)(k := None) = vttl i s" by (simp add: fun_upd_idem)
  then show ?thesis
    using False \<open>db_expires (get_db i s) k = None\<close> performs_addReply [OF assms(1), of c i "IntReply 0"] by (simp add: persistCommand_def Let_def i k)
next
  case True
  have il: "i < length (sv_dbs s)" using server_ok_cur [OF assms(1)] by (simp add: i)
  let ?f = "\<lambda>db. db\<lparr>db_expires := (db_expires db)(k := None)\<rparr>"
  have "db_ok (sv_env s) (?f (get_db i s))" using server_okD(1) [OF assms(1) il] by (auto simp: db_ok_def)
  then have p: "performs c i s (upd_db i ?f s) (vis i (upd_db i ?f s)) (vttl i (upd_db i ?f s)) {} []"
    by (intro performs_upd_db assms(1) il) simp_all
  have e: "expired i (upd_db i ?f s) k' = (k' \<noteq> k \<and> expired i s k')" for k'
    using il by (auto simp: expired_def get_db_upd split: option.splits)
  have "vis i (upd_db i ?f s) = (vis i s)(k := db_dict (get_db i s) k)" "vttl i (upd_db i ?f s) = (vttl i s)(k := None)"
    using il by (simp_all add: fun_eq_iff vis_def vttl_def e get_db_upd)
  then have p: "performs c i s (upd_db i ?f s) ((vis i s)(k := db_dict (get_db i s) k)) ((vttl i s)(k := None)) {} []" using p by simp
  show ?thesis using True performs_dirty_after [OF performs_reply_after [OF p]] performs_reply_after [OF p, of "IntReply 0"]
    by (simp add: persistCommand_def removeExpire_def Let_def i k)
qed

section \<open>MOVE\<close>

lemma moveCommand_spec:
  assumes "server_ok s" and src: "src = cur_db c s" and k: "k = argv ! 1"
    and dbid: "getLongLongFromObject (arg_obj (argv ! 2)) = Some dbid" "0 \<le> dbid" "dbid \<le> 2 ^ 31 - 1" "nat dbid < length (sv_dbs s)" and dst: "dst = nat dbid" "dst \<noteq> src"
    and v: "vis src s k = Some v" "vis dst s k = None"
  shows "\<exists>s'. moveCommand c argv s = Some s' \<and> server_ok s' \<and> vis dst s' = (vis dst s)(k \<mapsto> v) \<and> vis src s' = (vis src s)(k := None)
    \<and> vttl dst s' = vttl dst s \<and> vttl src s' = (vttl src s)(k := None) \<and> cl_dirty_cas (sv_clients s' a) = cl_dirty_cas (sv_clients s a)
    \<and> cl_out (sv_clients s' c) = cl_out (sv_clients s c) @ [IntReply 1]"
proof -
  have sl: "src < length (sv_dbs s)" using server_ok_cur [OF assms(1)] by (simp add: src)
  have dl: "dst < length (sv_dbs s)" using dbid(4) dst(1) by simp
  have vok: "val_ok (sv_env s) v" using v(1) server_okD(3) [OF assms(1) sl] by (auto simp: vis_def split: if_splits)
  obtain s1 where s1: "lookupKeyWrite src k s = Some (s1, Some v)" "quiet s s1" using lookupKeyWrite_spec [OF assms(1) sl, of k] v(1) by auto
  note q1 = quietD [OF s1(2)]
  obtain s2 where s2: "lookupKeyWrite dst k s1 = Some (s2, None)" "quiet s1 s2" "db_dict (get_db dst s2) k = None" "db_expires (get_db dst s2) k = vttl dst s1 k"
    using lookupKeyWrite_spec [OF q1(1), of dst k] dl q1(6,7) v(2) by auto
  note q2 = quietD [OF s2(2)] and ne = quiet_not_expired [OF s2(2,4)]
  have p2: "performs c dst s s2 (vis dst s) (vttl dst s) {} []" using performs_quiet [OF quiet_trans [OF s1(2) s2(2)]] .
  obtain s3 where s3: "dbAdd dst k v s2 = Some s3" "performs c dst s s3 ((vis dst s)(k \<mapsto> v)) (vttl dst s) {} []"
    using performs_add_after [OF p2 dl ne _ vok] s2(3) by (auto simp: dbExists_def)
  note d3 = performsD [OF s3(2)]
  have p4: "performs c src s3 (fst (dbDelete src k s3)) ((vis src s3)(k := None)) ((vttl src s3)(k := None)) {} []"
    using performs_delete [OF d3(1)] sl d3(4) by simp
  have p5: "performs c src s3 (addReply c (IntReply 1) (add_dirty 1 (fst (dbDelete src k s3)))) ((vis src s3)(k := None)) ((vttl src s3)(k := None)) {} [IntReply 1]"
    using performs_reply_after [OF performs_dirty_after [OF p4]] by simp
  have sel: "selectDb c dbid s \<noteq> None" using dbid(2,4) by (simp add: selectDb_def nat_less_iff)
  have run: "moveCommand c argv s = Some (addReply c (IntReply 1) (add_dirty 1 (fst (dbDelete src k s3))))"
    using dbid(1-3) sel dst s1(1) s2(1) s3(1) by (auto simp: moveCommand_def Let_def src k simp del: getLongLongFromObject.simps)
  then show ?thesis using performsD [OF p5] d3 dst(2) p5 s3(2) by (simp add: performs_def)
qed

section \<open>FLUSHDB, FLUSHALL and SELECT\<close>

text \<open>The two views of the watched keys agree: those of the clients and those of the databases.\<close>

definition watch_ok :: "server \<Rightarrow> bool" where
  "watch_ok s \<longleftrightarrow>
     (\<forall>a j k. (j, k) \<in> set (cl_watched (sv_clients s a)) \<longleftrightarrow> j < length (sv_dbs s) \<and> a \<in> watchers j k s)
     \<and> (\<forall>a. cl_watched (sv_clients s a) \<noteq> [] \<longrightarrow> a \<in> set (sv_client_ids s))
     \<and> (\<forall>a. distinct (cl_watched (sv_clients s a)))
     \<and> (\<forall>j<length (sv_dbs s). \<forall>k cs. db_watched (get_db j s) k = Some cs \<longrightarrow> distinct cs \<and> cs \<noteq> [])"

lemma watch_ok_same: "same_watch s s' \<Longrightarrow> watch_ok s' = watch_ok s"
  using watchers_same [of s s'] by (auto simp: watch_ok_def same_watch_def)

lemma get_db_clear: "j < length (sv_dbs s) \<Longrightarrow> map clear_db (sv_dbs s) ! j = clear_db (get_db j s)"
  by simp

text \<open>A flush of the databases \<open>hit\<close> that marks every client with a watched key in one of them.\<close>

lemma wsafe_flush:
  assumes "server_ok s" "watch_ok s"
    and dbs: "length (sv_dbs s') = length (sv_dbs s)" "\<And>j. j < length (sv_dbs s) \<Longrightarrow> get_db j s' = (if hit j then clear_db (get_db j s) else get_db j s)"
    and env: "sv_env s' = sv_env s" "sv_loading s' = sv_loading s" "sv_slave s' = sv_slave s" "time_of s' = time_of s" "sv_client_ids s' = sv_client_ids s"
      "sv_ready_keys s' = sv_ready_keys s"
    and cl: "\<And>a. cl_multi (sv_clients s' a) = cl_multi (sv_clients s a) \<and> cl_queue (sv_clients s' a) = cl_queue (sv_clients s a)
          \<and> cl_watched (sv_clients s' a) = cl_watched (sv_clients s a) \<and> cl_dirty_exec (sv_clients s' a) = cl_dirty_exec (sv_clients s a)
          \<and> cur_db a s' = cur_db a s
          \<and> cl_dirty_cas (sv_clients s' a) = (cl_dirty_cas (sv_clients s a) \<or> a \<in> set (sv_client_ids s) \<and>
               (\<exists>(j, k) \<in> set (cl_watched (sv_clients s a)). hit j \<and> db_dict (get_db j s) k \<noteq> None))"
  shows "wsafe s s'" "\<And>j. j < length (sv_dbs s) \<Longrightarrow> vis j s' = (if hit j then Map.empty else vis j s)"
proof -
  have watched: "db_watched (get_db j s') = db_watched (get_db j s)" if "j < length (sv_dbs s)" for j using dbs(2) [OF that] by (simp add: clear_db_def)
  have e: "expired j s' k = (\<not> hit j \<and> expired j s k)" if "j < length (sv_dbs s)" for j k
    using dbs(2) [OF that] env by (auto simp: expired_def clear_db_def split: option.splits)
  show v: "vis j s' = (if hit j then Map.empty else vis j s)" if "j < length (sv_dbs s)" for j
    using dbs(2) [OF that] e [OF that] by (auto simp: fun_eq_iff vis_def clear_db_def)
  have t: "vttl j s' = (if hit j then Map.empty else vttl j s)" if "j < length (sv_dbs s)" for j
    using dbs(2) [OF that] e [OF that] by (auto simp: fun_eq_iff vttl_def clear_db_def)
  have "db_ok (sv_env s') (get_db j s')" if "j < length (sv_dbs s')" for j
    using that dbs(1) dbs(2) [of j] server_okD(1) [OF assms(1), of j] env(1) by (auto simp: db_ok_def clear_db_def)
  then have ok: "server_ok s'" using assms(1) cl dbs(1) by (simp add: server_ok_def)
  have "same_key j k s s' \<or> cl_dirty_cas (sv_clients s' a)" if a: "a \<in> watchers j k s" and j: "j < length (sv_dbs s)" for j k a
  proof (cases "hit j \<and> db_dict (get_db j s) k \<noteq> None")
    case True
    have m: "(j, k) \<in> set (cl_watched (sv_clients s a))" using assms(2) a j by (simp add: watch_ok_def)
    then have "cl_watched (sv_clients s a) \<noteq> []" by auto
    then have "a \<in> set (sv_client_ids s)" using assms(2) by (simp add: watch_ok_def)
    then show ?thesis using cl [of a] True m by blast
  next
    case False
    then have "vis j s k = None \<and> vttl j s k = None" if "hit j"
      using that server_okD(2) [OF assms(1) j] by (auto simp: vis_def vttl_def)
    then show ?thesis using v [OF j] t [OF j] by (auto simp: same_key_def)
  qed
  moreover have "same_watch s s'" using cl dbs(1) watched env by (simp add: same_watch_def)
  moreover have "unblocked s \<longrightarrow> unblocked s'" using dbs env(6) by (auto simp: unblocked_def clear_db_def)
  ultimately show "wsafe s s'" using ok by (auto simp: wsafe_def)
qed

lemma mark_dirty_rest:
  "sv_dbs (mark_dirty cs s) = sv_dbs s" "sv_env (mark_dirty cs s) = sv_env s" "sv_client_ids (mark_dirty cs s) = sv_client_ids s"
  "sv_loading (mark_dirty cs s) = sv_loading s" "sv_slave (mark_dirty cs s) = sv_slave s" "time_of (mark_dirty cs s) = time_of s"
  "sv_ready_keys (mark_dirty cs s) = sv_ready_keys s"
  using outerD(4,8-12) [OF outer_mark_dirty [of s cs]] outer_mark_dirty [of s cs] by (simp_all add: outer_def)

lemma flush_hits_iff:
  "flush_hits d s a \<longleftrightarrow> (\<exists>(j, k) \<in> set (cl_watched (sv_clients s a)). (d = None \<or> d = Some j) \<and> db_dict (get_db j s) k \<noteq> None)"
  by (auto simp: flush_hits_def list_ex_iff)

lemma reply_rest:
  "sv_dbs (addReply c r s) = sv_dbs s" "sv_env (addReply c r s) = sv_env s" "sv_client_ids (addReply c r s) = sv_client_ids s"
  "sv_loading (addReply c r s) = sv_loading s" "sv_slave (addReply c r s) = sv_slave s" "time_of (addReply c r s) = time_of s" "sv_ready_keys (addReply c r s) = sv_ready_keys s"
  "sv_clients (addReply c r s) a = (if a = c then (sv_clients s c)\<lparr>cl_out := cl_out (sv_clients s c) @ [r]\<rparr> else sv_clients s a)"
  using outerD(4,8-12) [OF outer_addReply [of s c r]] by (simp_all add: addReply_def upd_client_def)

lemma dirty_rest:
  "sv_dbs (add_dirty n s) = sv_dbs s" "sv_env (add_dirty n s) = sv_env s" "sv_client_ids (add_dirty n s) = sv_client_ids s"
  "sv_loading (add_dirty n s) = sv_loading s" "sv_slave (add_dirty n s) = sv_slave s" "time_of (add_dirty n s) = time_of s" "sv_ready_keys (add_dirty n s) = sv_ready_keys s"
  "sv_clients (add_dirty n s) = sv_clients s"
  using outerD(4,8-12) [OF outer_dirty [of s n]] by (simp_all add: add_dirty_def)

lemmas rest_simps = mark_dirty_rest reply_rest dirty_rest mark_dirty_clients flush_hits_iff

lemma flushdbCommand_spec:
  assumes "server_ok s" "watch_ok s" and i: "i = cur_db c s"
  shows "\<exists>s'. flushdbCommand c argv s = Some s' \<and> wsafe s s' \<and> vis i s' = Map.empty \<and> (\<forall>j<length (sv_dbs s). j \<noteq> i \<longrightarrow> vis j s' = vis j s)"
proof -
  have il: "i < length (sv_dbs s)" using server_ok_cur [OF assms(1)] by (simp add: i)
  let ?m = "filter (flush_hits (Some i) (add_dirty (int (card (dom (db_dict (get_db i s))))) s)) (sv_client_ids s)"
  let ?s' = "addReply c (Status ''OK'') (upd_db i clear_db (mark_dirty ?m (add_dirty (int (card (dom (db_dict (get_db i s))))) s)))"
  have run: "flushdbCommand c argv s = Some ?s'"
    by (simp add: flushdbCommand_def Let_def signalFlushedDb_def touchWatchedKeysOnFlush_def dirty_rest i)
  have "time_of ?s' = time_of s" by (simp add: rest_simps)
  have w: "wsafe s ?s'" "\<And>j. j < length (sv_dbs s) \<Longrightarrow> vis j ?s' = (if j = i then Map.empty else vis j s)"
    by (rule wsafe_flush [OF assms(1,2), where hit = "\<lambda>j. j = i"];
        use il in \<open>auto simp: rest_simps get_db_upd\<close>)+
  then show ?thesis using run il by auto
qed

lemma flushallCommand_spec:
  assumes "server_ok s" "watch_ok s"
  shows "\<exists>s'. flushallCommand c argv s = Some s' \<and> wsafe s s' \<and> (\<forall>j<length (sv_dbs s). vis j s' = Map.empty)"
proof -
  let ?s1 = "mark_dirty (filter (flush_hits None s) (sv_client_ids s)) s"
  let ?s2 = "?s1\<lparr>sv_dbs := map clear_db (sv_dbs s)\<rparr>"
  let ?n = "sum_list (map (\<lambda>db. card (dom (db_dict db))) (sv_dbs s))"
  let ?s' = "add_dirty 1 (addReply c (Status ''OK'') (add_dirty (int ?n) ?s2))"
  have run: "flushallCommand c argv s = Some ?s'"
    by (simp add: flushallCommand_def Let_def emptyDb_def signalFlushedDb_def touchWatchedKeysOnFlush_def mark_dirty_rest)
  have t: "time_of ?s2 = time_of s"
    using outer_mark_dirty [of s "filter (flush_hits None s) (sv_client_ids s)"] by (intro time_of_cong) (simp_all add: outer_def)
  have w: "wsafe s ?s'" "\<And>j. j < length (sv_dbs s) \<Longrightarrow> vis j ?s' = (if True then Map.empty else vis j s)"
    by (rule wsafe_flush [OF assms(1,2), where hit = "\<lambda>j. True"];
        use t in \<open>auto simp: rest_simps\<close>)+
  then show ?thesis using run by auto
qed

lemma selectCommand_spec:
  assumes "server_ok s"
  shows "\<exists>s'. selectCommand c argv s = Some s' \<and> wsafe s s'"
proof -
  have sel: "wsafe s (addReply c (Status ''OK'') s1)" if "selectDb c id1 s = Some s1" for id1 s1
  proof -
    have s1: "s1 = upd_client c (\<lambda>cl. cl\<lparr>cl_db := nat id1\<rparr>) s" "nat id1 < length (sv_dbs s)"
      using that by (auto simp: selectDb_def split: if_splits)
    have "time_of s1 = time_of s" by (rule time_of_cong) (simp_all add: s1(1) upd_client_def)
    then have e: "expired j s1 k = expired j s k" for j k by (intro expired_cong) (simp_all add: s1(1) upd_client_def)
    have "server_ok s1" using assms s1 by (simp add: server_ok_def upd_client_def)
    moreover have "same_watch s s1" by (simp add: same_watch_def s1(1) upd_client_def)
    moreover have "same_key j k s s1" for j k by (simp add: same_key_def vis_def vttl_def e) (simp add: s1(1) upd_client_def)
    moreover have "unblocked s1 = unblocked s" by (rule unblocked_cong) (simp_all add: s1(1) upd_client_def)
    ultimately have "wsafe s s1" by (simp add: wsafe_def)
    then show ?thesis using wsafe_trans wsafe_read [OF performs_addReply] wsafeD(1) by blast
  qed
  show ?thesis using sel wsafe_read [OF performs_error [OF assms]]
    by (auto simp: selectCommand_def getLongFromObjectOrReply_def getLongLongFromObjectOrReply_def simp del: getLongLongFromObject.simps split: option.split)
qed

section \<open>All commands but MOVE and PERSIST\<close>

lemma wsafe_keys:
  assumes "server_ok s"
  shows "\<exists>s'. delCommand c argv s = Some s' \<and> wsafe s s'" "\<exists>s'. existsCommand c argv s = Some s' \<and> wsafe s s'"
    "\<exists>s'. typeCommand c argv s = Some s' \<and> wsafe s s'" "\<exists>s'. dbsizeCommand c argv s = Some s' \<and> wsafe s s'"
    "\<exists>s'. ttlGenericCommand ms c argv s = Some s' \<and> wsafe s s'"
proof -
  let ?i = "cur_db c s"
  have "wsafe s s'" if "performs c ?i s s' ((vis ?i s) |` (- A)) ((vttl ?i s) |` (- A)) {k \<in> A. vis ?i s k \<noteq> None} rs" for s' A rs
    using that
  proof (rule wsafe_performs)
    fix k assume "k \<notin> {k \<in> A. vis ?i s k \<noteq> None}"
    then show "((vis ?i s) |` (- A)) k = vis ?i s k \<and> ((vttl ?i s) |` (- A)) k = vttl ?i s k"
      using vttl_vis [OF assms server_ok_cur [OF assms], of c k] by (auto simp: restrict_map_def)
  qed
  then show "\<exists>s'. delCommand c argv s = Some s' \<and> wsafe s s'" using delCommand_spec [OF assms refl, of c argv] by blast
  show "\<exists>s'. existsCommand c argv s = Some s' \<and> wsafe s s'" "\<exists>s'. typeCommand c argv s = Some s' \<and> wsafe s s'"
    "\<exists>s'. ttlGenericCommand ms c argv s = Some s' \<and> wsafe s s'"
    using existsCommand_spec [OF assms refl, of c argv] typeCommand_spec [OF assms refl, of c argv] ttlGeneric_spec [OF assms refl refl, of ms c argv] wsafe_read by blast+
  show "\<exists>s'. dbsizeCommand c argv s = Some s' \<and> wsafe s s'" using wsafe_read [OF performs_addReply [OF assms]] by (simp add: dbsizeCommand_def)
qed

lemma wsafe_rename:
  assumes "server_ok s"
  shows "\<exists>s'. renameGenericCommand nx c argv s = Some s' \<and> wsafe s s'"
proof -
  let ?i = "cur_db c s"
  have "wsafe s s'" if "performs c ?i s s' ((vis ?i s)(dst := v, src := None)) ((vttl ?i s)(dst := w, src := None)) {src, dst} rs" for s' src dst v w rs
    using that by (rule wsafe_performs) simp
  then show ?thesis using renameGeneric_spec [OF assms refl refl refl, of nx c argv] wsafe_read by (metis (no_types, lifting))
qed

lemma wsafe_expire:
  assumes "server_ok s"
  shows "\<exists>s'. expireGenericCommand basetime seconds c argv s = Some s' \<and> wsafe s s'"
proof (cases "getLongLongFromObject (arg_obj (argv ! 2))")
  case None
  then show ?thesis using expireGeneric_bad [OF assms None] wsafe_read by blast
next
  case (Some v)
  let ?i = "cur_db c s" and ?k = "argv ! 1" and ?w = "expire_at basetime seconds v"
  have "wsafe s s'" if "performs c ?i s s' (with_ttl s k w (vis ?i s)) (ttl_with s k w (vttl ?i s)) {k} rs" for s' k w rs
    using that by (rule wsafe_performs) (simp add: with_ttl_def ttl_with_def)
  moreover have "wsafe s s'" if "performs c ?i s s' ((vis ?i s)(k := None)) ((vttl ?i s)(k := None)) {k} rs" for s' k rs
    using that by (rule wsafe_performs) simp
  ultimately show ?thesis
    using expireGeneric_spec [OF assms refl refl Some refl, of basetime seconds] wsafe_read by (metis (no_types, lifting))
qed

end
