(* ===== verification/Set_Spec.thy ===== *)
theory Set_Spec
  imports T_Set Db_Spec
begin

text \<open>
  What the set commands compute. An iteration over a set leaves the object as it is, in both encodings; lookups may
  change the representation of the other sets, but not their elements (\<open>touched\<close>). With that the loops of union,
  difference, by either algorithm, and intersection are shown to compute the operations on sets.
\<close>

section \<open>Iteration\<close>

fun elems_left :: "setobj \<Rightarrow> set_iter \<Rightarrow> set_elem list" where
  "elems_left (SetIntset is) (IterInt ii) = map IntElem (drop ii (intset_vals is))"
| "elems_left (SetHT d) (IterHT it) = map (\<lambda>(k, _). ObjElem k) (remaining d it)"
| "elems_left _ _ = []"

fun si_ok :: "u64 \<Rightarrow> u64 \<Rightarrow> setobj \<Rightarrow> set_iter \<Rightarrow> bool" where
  "si_ok addr0 addr1 (SetIntset is) (IterInt ii) \<longleftrightarrow> ii \<le> is_length is"
| "si_ok addr0 addr1 (SetHT d) (IterHT it) \<longleftrightarrow> iter_ok d it \<and> fp_ok addr0 addr1 d it"
| "si_ok addr0 addr1 _ _ \<longleftrightarrow> False"

abbreviation elem_bytes :: "set_elem \<Rightarrow> u8 list" where
  "elem_bytes e \<equiv> str_bytes (elem_object e)"

definition next_elem :: "u64 \<Rightarrow> u64 \<Rightarrow> setobj \<Rightarrow> set_iter \<Rightarrow> bool" where
  "next_elem addr0 addr1 o1 si \<longleftrightarrow>
     (\<exists>si'. elems_left o1 si = [] \<and> setTypeNext addr0 addr1 o1 si = Some (o1, si', None) \<and> setTypeReleaseIterator addr0 addr1 o1 si' = Some o1)
     \<or> (\<exists>x si'. setTypeNext addr0 addr1 o1 si = Some (o1, si', Some x) \<and> si_ok addr0 addr1 o1 si' \<and> elems_left o1 si = x # elems_left o1 si')"

lemma setTypeNext_step:
  assumes "set_ok env o1" "si_ok addr0 addr1 o1 si"
  shows "next_elem addr0 addr1 o1 si"
proof (cases o1)
  case (SetIntset "is")
  then obtain ii where ii: "si = IterInt ii" "ii \<le> is_length is" using assms(2) by (cases si) auto
  have ok: "intset_ok is" using assms(1) SetIntset by simp
  have len: "length (intset_vals is) = is_length is" using rep_of_ok(2) [OF ok] by simp
  show ?thesis
  proof (cases "ii < is_length is")
    case True
    then have "intsetGet is ii = Some (Some (intset_vals is ! ii))" "drop ii (intset_vals is) = intset_vals is ! ii # drop (ii + 1) (intset_vals is)"
      using get_in_range [OF ok, of ii] len by (simp_all add: Cons_nth_drop_Suc)
    then show ?thesis using SetIntset ii True by (simp add: next_elem_def)
  next
    case False
    then have "intsetGet is ii = Some None" "drop ii (intset_vals is) = []" using get_in_range [OF ok, of ii] len by simp_all
    then show ?thesis using SetIntset ii by (simp add: next_elem_def)
  qed
next
  case (SetHT d)
  then obtain it where it: "si = IterHT it" "iter_ok d it" "fp_ok addr0 addr1 d it" using assms(2) by (cases si) auto
  have ok: "tables_ok d" using assms(1) SetHT tables_ok_dict by auto
  from dictNext_ok [OF ok it(2), of addr0 addr1] consider
      d' it' where "dictNext addr0 addr1 d it = Some (d', it', None)" "remaining d it = []"
    | d' it' x where "dictNext addr0 addr1 d it = Some (d', it', Some x)" "iter_ok d it'" "remaining d it = x # remaining d it'"
    unfolding next_ok_def by blast
  then show ?thesis
  proof cases
    case 1
    then have "d' = d" "fp_ok addr0 addr1 d it'" using dictNext_unsafe [OF 1(1) it(3)] by auto
    then show ?thesis using 1 SetHT it(1) by (simp add: next_elem_def dictRelease_unsafe)
  next
    case 2
    then have "d' = d" "fp_ok addr0 addr1 d it'" using dictNext_unsafe [OF 2(1) it(3)] by auto
    then show ?thesis using 2 SetHT it(1) by (cases x) (simp add: next_elem_def)
  qed
qed

lemma elem_object_ok [simp]: "sobj_ok (elem_object e)"
  by (cases e) (simp_all add: elem_object_def)

lemma elems_left_init:
  assumes "set_ok env o1"
  shows "si_ok addr0 addr1 o1 (setTypeInitIterator o1)" "elem_bytes ` set (elems_left o1 (setTypeInitIterator o1)) = set_elems o1"
    "length (elems_left o1 (setTypeInitIterator o1)) = card (set_elems o1)" "distinct (map elem_bytes (elems_left o1 (setTypeInitIterator o1)))"
proof -
  have 1: "si_ok addr0 addr1 o1 (setTypeInitIterator o1)"
    by (cases o1) (simp_all add: iter_ok_def fp_ok_def dictGetIterator_def)
  have 2: "map elem_bytes (elems_left o1 (setTypeInitIterator o1)) = (case o1 of SetIntset is \<Rightarrow> map ll_repr (intset_vals is) | SetHT d \<Rightarrow> map fst (dict_entries d))"
  proof (cases o1)
    case (SetIntset "is")
    then show ?thesis by (simp add: elem_object_def)
  next
    case (SetHT d)
    have "remaining d dictGetIterator = dict_entries d" by (simp add: remaining_def dictGetIterator_def dict_entries_def)
    then show ?thesis using SetHT by (auto simp: elem_object_def)
  qed
  have 3: "distinct (map elem_bytes (elems_left o1 (setTypeInitIterator o1)))"
  proof (cases o1)
    case (SetIntset "is")
    then have ok: "intset_ok is" using assms by simp
    then have "distinct (intset_vals is)" by (simp add: intset_ok_def strict_sorted_iff)
    then have "distinct (map ll_repr (intset_vals is))" using vals_int64 [OF ok] ll_repr_inj by (auto simp: distinct_map intro!: inj_onI)
    then show ?thesis unfolding 2 using SetIntset by simp
  next
    case (SetHT d)
    then show ?thesis unfolding 2 using assms by (simp add: dict_ok_def)
  qed
  have "set (map elem_bytes (elems_left o1 (setTypeInitIterator o1))) = set_elems o1"
    unfolding 2 by (cases o1) (simp_all add: dict_map_def dom_map_of_conv_image_fst)
  then show "elem_bytes ` set (elems_left o1 (setTypeInitIterator o1)) = set_elems o1" by simp
  then show "length (elems_left o1 (setTypeInitIterator o1)) = card (set_elems o1)"
    using distinct_card [OF 3] by simp
  show "si_ok addr0 addr1 o1 (setTypeInitIterator o1)" by (rule 1)
  show "distinct (map elem_bytes (elems_left o1 (setTypeInitIterator o1)))" by (rule 3)
qed

lemma nextObject_step:
  assumes "set_ok env o1" "si_ok addr0 addr1 o1 si"
  shows "(\<exists>si'. elems_left o1 si = [] \<and> setTypeNextObject addr0 addr1 o1 si = Some (o1, si', None) \<and> setTypeReleaseIterator addr0 addr1 o1 si' = Some o1)
    \<or> (\<exists>x si'. setTypeNextObject addr0 addr1 o1 si = Some (o1, si', Some (elem_object x)) \<and> si_ok addr0 addr1 o1 si' \<and> elems_left o1 si = x # elems_left o1 si')"
  using setTypeNext_step [OF assms] by (auto simp: next_elem_def setTypeNextObject_def)

section \<open>Union and difference of two sets\<close>

lemma combine_elems_spec:
  assumes "set_ok env o1" "si_ok addr0 addr1 o1 si" "set_ok env dst" "set_max_intset_entries env < 2 ^ 29 - 1"
    "add \<longrightarrow> card (set_elems dst \<union> elem_bytes ` set (elems_left o1 si)) < 2 ^ 30 \<or> card (set_elems dst) + length (elems_left o1 si) \<le> 2 ^ 30"
  shows "\<exists>dst'. combine_elems env addr0 addr1 add o1 si dst (int (card (set_elems dst))) = Some (o1, dst', int (card (set_elems dst'))) \<and> set_ok env dst'
    \<and> set_elems dst' = (if add then set_elems dst \<union> elem_bytes ` set (elems_left o1 si) else set_elems dst - elem_bytes ` set (elems_left o1 si))"
  using assms(2,3,5)
proof (induction "length (elems_left o1 si)" arbitrary: si dst)
  case 0
  then obtain si' where "setTypeNextObject addr0 addr1 o1 si = Some (o1, si', None)" "setTypeReleaseIterator addr0 addr1 o1 si' = Some o1"
    using nextObject_step [OF assms(1) 0(2)] by auto
  then show ?case using 0 by (subst combine_elems.simps) simp
next
  case (Suc n)
  obtain x si' where x: "setTypeNextObject addr0 addr1 o1 si = Some (o1, si', Some (elem_object x))" "si_ok addr0 addr1 o1 si'" "elems_left o1 si = x # elems_left o1 si'"
    using nextObject_step [OF assms(1) Suc(3)] Suc(2) by auto
  have fin: "finite (set_elems dst)" by (rule finite_set_elems [OF Suc(4)])
  let ?b = "elem_bytes x"
  show ?case
  proof (cases add)
    case True
    have "card (set_elems dst) \<le> card (set_elems dst \<union> elem_bytes ` set (elems_left o1 si))" using fin by (intro card_mono) auto
    then have lim: "card (set_elems dst) < set_limit" using Suc(5) True x(3) by (auto simp: set_limit_def)
    obtain dst1 where d: "setTypeAdd env dst (elem_object x) = Some (dst1, ?b \<notin> set_elems dst)" "set_ok env dst1" "set_elems dst1 = insert ?b (set_elems dst)"
      using setTypeAdd_spec [OF Suc(4) _ lim assms(4), of "elem_object x"] by auto
    have card: "(if ?b \<notin> set_elems dst then int_inc (int (card (set_elems dst))) else Some (int (card (set_elems dst)))) = Some (int (card (set_elems dst1)))"
      using d(3) fin lim by (simp add: insert_absorb int_inc_def set_limit_def)
    have "set_elems dst1 \<union> elem_bytes ` set (elems_left o1 si') = set_elems dst \<union> elem_bytes ` set (elems_left o1 si)" unfolding d(3) x(3) by simp
    moreover have "card (set_elems dst1) \<le> card (set_elems dst) + 1" unfolding d(3) using fin by (simp add: card_insert_if)
    ultimately have "add \<longrightarrow> card (set_elems dst1 \<union> elem_bytes ` set (elems_left o1 si')) < 2 ^ 30 \<or> card (set_elems dst1) + length (elems_left o1 si') \<le> 2 ^ 30"
      using Suc(5) True x(3) by auto
    then obtain dst' where "combine_elems env addr0 addr1 add o1 si' dst1 (int (card (set_elems dst1))) = Some (o1, dst', int (card (set_elems dst')))"
        "set_ok env dst'" "set_elems dst' = set_elems dst1 \<union> elem_bytes ` set (elems_left o1 si')"
      using Suc.hyps(1) [OF _ x(2) d(2)] Suc.hyps(2) x(3) True by auto
    then show ?thesis using x(1,3) d(1,3) card True by (subst combine_elems.simps) simp
  next
    case False
    obtain dst1 where d: "setTypeRemove env dst (elem_object x) = Some (dst1, ?b \<in> set_elems dst)" "set_ok env dst1" "set_elems dst1 = set_elems dst - {?b}"
      using setTypeRemove_spec [OF Suc(4), of "elem_object x"] by auto
    have card: "(if ?b \<in> set_elems dst then int (card (set_elems dst)) - 1 else int (card (set_elems dst))) = int (card (set_elems dst1))"
    proof (cases "?b \<in> set_elems dst")
      case True
      then have "Suc (card (set_elems dst1)) = card (set_elems dst)" unfolding d(3) by (rule card_Suc_Diff1 [OF fin])
      then show ?thesis using True by simp
    qed (simp add: d(3))
    obtain dst' where "combine_elems env addr0 addr1 add o1 si' dst1 (int (card (set_elems dst1))) = Some (o1, dst', int (card (set_elems dst')))"
        "set_ok env dst'" "set_elems dst' = set_elems dst1 - elem_bytes ` set (elems_left o1 si')"
      using Suc.hyps(1) [OF _ x(2) d(2)] Suc.hyps(2) x(3) False by auto
    moreover have "set_elems dst - {?b} - elem_bytes ` set (elems_left o1 si') = set_elems dst - elem_bytes ` set (elems_left o1 si)" using x(3) by auto
    ultimately show ?thesis using x(1) d(1,3) card False by (subst combine_elems.simps) simp
  qed
qed

lemma combine_set:
  assumes "set_ok env o1" "set_ok env dst" "set_max_intset_entries env < 2 ^ 29 - 1"
  shows "card (set_elems dst \<union> set_elems o1) < 2 ^ 30 \<or> card (set_elems dst) + card (set_elems o1) \<le> 2 ^ 30 \<Longrightarrow>
      \<exists>dst'. combine_elems env addr0 addr1 True o1 (setTypeInitIterator o1) dst (int (card (set_elems dst))) = Some (o1, dst', int (card (set_elems dst')))
        \<and> set_ok env dst' \<and> set_elems dst' = set_elems dst \<union> set_elems o1"
    "\<exists>dst'. combine_elems env addr0 addr1 False o1 (setTypeInitIterator o1) dst (int (card (set_elems dst))) = Some (o1, dst', int (card (set_elems dst')))
        \<and> set_ok env dst' \<and> set_elems dst' = set_elems dst - set_elems o1"
  using combine_elems_spec [OF assms(1) elems_left_init(1) [OF assms(1), of addr0 addr1] assms(2,3), of True]
    combine_elems_spec [OF assms(1) elems_left_init(1) [OF assms(1), of addr0 addr1] assms(2,3), of False] elems_left_init(2,3) [OF assms(1)] by simp_all

section \<open>The sets of a command\<close>

definition setof :: "nat \<Rightarrow> server \<Rightarrow> key option \<Rightarrow> u8 list set" where
  "setof i s k = (case Option.bind k (\<lambda>x. get_set i x s) of Some o1 \<Rightarrow> set_elems o1 | None \<Rightarrow> {})"

definition sets_ok :: "nat \<Rightarrow> server \<Rightarrow> key option list \<Rightarrow> bool" where
  "sets_ok i s ks \<longleftrightarrow> (\<forall>k. Some k \<in> set ks \<longrightarrow> (\<exists>o1. get_set i k s = Some o1 \<and> set_ok (sv_env s) o1))"

lemma sets_ok_Cons: "sets_ok i s (Some k # ks) \<longleftrightarrow> (\<exists>o1. get_set i k s = Some o1 \<and> set_ok (sv_env s) o1) \<and> sets_ok i s ks" "sets_ok i s (None # ks) \<longleftrightarrow> sets_ok i s ks"
  by (auto simp: sets_ok_def)

lemma setof_simps [simp]: "setof i s None = {}" "get_set i k s = Some o1 \<Longrightarrow> setof i s (Some k) = set_elems o1"
  by (simp_all add: setof_def)

lemma finite_setof: "sets_ok i s ks \<Longrightarrow> k \<in> set ks \<Longrightarrow> finite (setof i s k)"
  by (cases k) (auto simp: sets_ok_def finite_set_elems)

lemma get_setD: "get_set i k s = Some o1 \<Longrightarrow> db_dict (get_db i s) k = Some (SetObj o1)"
  by (auto split: option.splits robj.splits)

lemma put_same: "get_set i k s = Some o1 \<Longrightarrow> put_set i k o1 s = s"
proof -
  assume "get_set i k s = Some o1"
  then have "(db_dict (get_db i s))(k \<mapsto> SetObj o1) = db_dict (get_db i s)" by (metis get_setD fun_upd_triv)
  then show ?thesis by (simp add: put_key_def upd_db_def)
qed

declare get_set.simps [simp del]

lemma union_loop_spec:
  assumes "sets_ok i s ks" "set_ok (sv_env s) dst" "set_max_intset_entries (sv_env s) < 2 ^ 29 - 1"
    "card (set_elems dst \<union> (\<Union>k\<in>set ks. setof i s k)) < 2 ^ 30"
  shows "\<exists>dst'. union_loop addr0 addr1 i ks dst (int (card (set_elems dst))) s = Some (s, dst', int (card (set_elems dst'))) \<and> set_ok (sv_env s) dst'
    \<and> set_elems dst' = set_elems dst \<union> (\<Union>k\<in>set ks. setof i s k)"
  using assms(1,2,4)
proof (induction ks arbitrary: dst)
  case Nil
  then show ?case by simp
next
  case (Cons k ks)
  show ?case
  proof (cases k)
    case None
    then show ?thesis using Cons by (auto simp: sets_ok_Cons)
  next
    case (Some x)
    obtain o1 where o: "get_set i x s = Some o1" "set_ok (sv_env s) o1" "sets_ok i s ks" using Cons.prems(1) Some by (auto simp: sets_ok_Cons)
    have all: "set_elems dst \<union> (\<Union>k\<in>set (k # ks). setof i s k) = set_elems dst \<union> set_elems o1 \<union> (\<Union>k\<in>set ks. setof i s k)" using Some o(1) by auto
    have "finite (set_elems dst \<union> (\<Union>k\<in>set (k # ks). setof i s k))" using finite_set_elems [OF Cons.prems(2)] finite_setof [OF Cons.prems(1)] by blast
    then have "card (set_elems dst \<union> set_elems o1) \<le> card (set_elems dst \<union> (\<Union>k\<in>set (k # ks). setof i s k))" unfolding all by (rule card_mono) blast
    then have "card (set_elems dst \<union> set_elems o1) < 2 ^ 30 \<or> card (set_elems dst) + card (set_elems o1) \<le> 2 ^ 30" using Cons.prems(3) by linarith
    then obtain dst1 where d: "combine_elems (sv_env s) addr0 addr1 True o1 (setTypeInitIterator o1) dst (int (card (set_elems dst)))
          = Some (o1, dst1, int (card (set_elems dst1)))" "set_ok (sv_env s) dst1" "set_elems dst1 = set_elems dst \<union> set_elems o1"
      using combine_set(1) [OF o(2) Cons.prems(2) assms(3)] by blast
    have "card (set_elems dst1 \<union> (\<Union>k\<in>set ks. setof i s k)) < 2 ^ 30" using Cons.prems(3) unfolding all d(3) .
    then obtain dst' where "union_loop addr0 addr1 i ks dst1 (int (card (set_elems dst1))) s = Some (s, dst', int (card (set_elems dst')))" "set_ok (sv_env s) dst'"
        "set_elems dst' = set_elems dst1 \<union> (\<Union>k\<in>set ks. setof i s k)"
      using Cons.IH [OF o(3) d(2)] by blast
    then show ?thesis using Some o(1) d(1,3) put_same [OF o(1)] by (auto simp: Un_assoc)
  qed
qed

lemma diff2_rest_spec:
  assumes "sets_ok i s ks" "set_ok (sv_env s) dst" "set_max_intset_entries (sv_env s) < 2 ^ 29 - 1"
  shows "\<exists>dst'. diff2_loop addr0 addr1 i False ks dst (int (card (set_elems dst))) s = Some (s, dst', int (card (set_elems dst'))) \<and> set_ok (sv_env s) dst'
    \<and> set_elems dst' = set_elems dst - (\<Union>k\<in>set ks. setof i s k)"
  using assms(1,2)
proof (induction ks arbitrary: dst)
  case Nil
  then show ?case by simp
next
  case (Cons k ks)
  show ?case
  proof (cases k)
    case None
    then show ?thesis using Cons by (auto simp: sets_ok_Cons)
  next
    case (Some x)
    obtain o1 where o: "get_set i x s = Some o1" "set_ok (sv_env s) o1" "sets_ok i s ks" using Cons.prems(1) Some by (auto simp: sets_ok_Cons)
    obtain dst1 where d: "combine_elems (sv_env s) addr0 addr1 False o1 (setTypeInitIterator o1) dst (int (card (set_elems dst)))
          = Some (o1, dst1, int (card (set_elems dst1)))" "set_ok (sv_env s) dst1" "set_elems dst1 = set_elems dst - set_elems o1"
      using combine_set(2) [OF o(2) Cons.prems(2) assms(3)] by blast
    have minus: "set_elems dst - (\<Union>k\<in>set (k # ks). setof i s k) = set_elems dst1 - (\<Union>k\<in>set ks. setof i s k)" using Some o(1) d(3) by auto
    obtain dst' where d': "diff2_loop addr0 addr1 i False ks dst1 (int (card (set_elems dst1))) s = Some (s, dst', int (card (set_elems dst')))" "set_ok (sv_env s) dst'"
        "set_elems dst' = set_elems dst1 - (\<Union>k\<in>set ks. setof i s k)"
      using Cons.IH [OF o(3) d(2)] by blast
    show ?thesis
    proof (cases "card (set_elems dst1) = 0")
      case True
      then have "set_elems dst1 = {}" using finite_set_elems [OF d(2)] by simp
      then show ?thesis using Some o(1) d(1,2) put_same [OF o(1)] minus by auto
    next
      case False
      then show ?thesis using Some o(1) d(1) d' put_same [OF o(1)] minus by auto
    qed
  qed
qed

lemma diff2_spec:
  assumes "sets_ok i s (Some k # ks)" "set_max_intset_entries (sv_env s) < 2 ^ 29 - 1" "card (setof i s (Some k)) \<le> 2 ^ 30"
  shows "\<exists>dst'. diff2_loop addr0 addr1 i True (Some k # ks) createIntsetObject 0 s = Some (s, dst', int (card (set_elems dst'))) \<and> set_ok (sv_env s) dst'
    \<and> set_elems dst' = setof i s (Some k) - (\<Union>k\<in>set ks. setof i s k)"
proof -
  obtain o1 where o: "get_set i k s = Some o1" "set_ok (sv_env s) o1" "sets_ok i s ks" using assms(1) by (auto simp: sets_ok_Cons)
  have e: "set_ok (sv_env s) createIntsetObject" "set_elems createIntsetObject = {}" "card (set_elems createIntsetObject) = 0"
    by (simp_all add: createIntsetObject_def intsetNew_ok) (simp_all add: intsetNew_def intset_vals_def)
  have "card (set_elems createIntsetObject \<union> set_elems o1) < 2 ^ 30 \<or> card (set_elems createIntsetObject) + card (set_elems o1) \<le> 2 ^ 30" using assms(3) o(1) e(3) by simp
  from combine_set(1) [OF o(2) e(1) assms(2) this, of addr0 addr1]
  have "\<exists>dst1. combine_elems (sv_env s) addr0 addr1 True o1 (setTypeInitIterator o1) createIntsetObject 0 = Some (o1, dst1, int (card (set_elems dst1)))
      \<and> set_ok (sv_env s) dst1 \<and> set_elems dst1 = set_elems o1"
    using e(2,3) by simp
  then obtain dst1 where d: "combine_elems (sv_env s) addr0 addr1 True o1 (setTypeInitIterator o1) createIntsetObject 0
        = Some (o1, dst1, int (card (set_elems dst1)))" "set_ok (sv_env s) dst1" "set_elems dst1 = set_elems o1"
    by blast
  obtain dst' where d': "diff2_loop addr0 addr1 i False ks dst1 (int (card (set_elems dst1))) s = Some (s, dst', int (card (set_elems dst')))" "set_ok (sv_env s) dst'"
      "set_elems dst' = set_elems dst1 - (\<Union>k\<in>set ks. setof i s k)"
    using diff2_rest_spec [OF o(3) d(2) assms(2)] by blast
  show ?thesis
  proof (cases "card (set_elems dst1) = 0")
    case True
    then have "set_elems dst1 = {}" using finite_set_elems [OF d(2)] by simp
    then show ?thesis using o(1) d put_same [OF o(1)] by simp
  next
    case False
    then show ?thesis using o(1) d d' put_same [OF o(1)] by simp
  qed
qed

section \<open>Lookups in other sets\<close>

text \<open>The same value, or a set with the same elements.\<close>

definition resembles :: "set_env \<Rightarrow> robj option \<Rightarrow> robj option \<Rightarrow> bool" where
  "resembles env x y \<longleftrightarrow> y = x \<or> (\<exists>a b. x = Some (SetObj a) \<and> y = Some (SetObj b) \<and> set_ok env b \<and> set_elems b = set_elems a)"

lemma resembles_refl [simp]: "resembles env x x"
  by (simp add: resembles_def)

lemma resembles_trans: "resembles env x y \<Longrightarrow> resembles env y z \<Longrightarrow> resembles env x z"
  by (auto simp: resembles_def)

text \<open>\<open>touched i k0 s s'\<close>: other sets of database \<open>i\<close> than the one at \<open>k0\<close> may have another representation in \<open>s'\<close>.\<close>

definition touched :: "nat \<Rightarrow> key \<Rightarrow> server \<Rightarrow> server \<Rightarrow> bool" where
  "touched i k0 s s' \<longleftrightarrow>
     (\<exists>D. s' = upd_db i (\<lambda>db. db\<lparr>db_dict := D\<rparr>) s \<and> D k0 = db_dict (get_db i s) k0
        \<and> (\<forall>k. resembles (sv_env s) (db_dict (get_db i s) k) (D k)))"

lemma touched_refl: "touched i k0 s s"
  unfolding touched_def by (rule exI [of _ "db_dict (get_db i s)"]) (simp add: upd_db_def)

lemma upd_dict_twice:
  "i < length (sv_dbs s) \<Longrightarrow> upd_db i (\<lambda>db. db\<lparr>db_dict := E\<rparr>) (upd_db i (\<lambda>db. db\<lparr>db_dict := D\<rparr>) s) = upd_db i (\<lambda>db. db\<lparr>db_dict := E\<rparr>) s"
  by (simp add: upd_db_def)

lemma touched_fields:
  assumes "touched i k0 s s'"
  shows "sv_env s' = sv_env s" "length (sv_dbs s') = length (sv_dbs s)"
  using assms by (auto simp: touched_def)

lemma touched_trans:
  assumes "touched i k0 s s1" "touched i k0 s1 s2" "i < length (sv_dbs s)"
  shows "touched i k0 s s2"
proof -
  obtain D where D: "s1 = upd_db i (\<lambda>db. db\<lparr>db_dict := D\<rparr>) s" "D k0 = db_dict (get_db i s) k0"
      "\<And>k. resembles (sv_env s) (db_dict (get_db i s) k) (D k)"
    using assms(1) unfolding touched_def by blast
  obtain E where E: "s2 = upd_db i (\<lambda>db. db\<lparr>db_dict := E\<rparr>) s1" "E k0 = db_dict (get_db i s1) k0"
      "\<And>k. resembles (sv_env s1) (db_dict (get_db i s1) k) (E k)"
    using assms(2) unfolding touched_def by blast
  have g: "db_dict (get_db i s1) = D" "sv_env s1 = sv_env s" using D(1) assms(3) by (simp_all add: get_db_upd)
  have "resembles (sv_env s) (db_dict (get_db i s) k) (E k)" for k using resembles_trans [OF D(3)] E(3) unfolding g by blast
  moreover have "s2 = upd_db i (\<lambda>db. db\<lparr>db_dict := E\<rparr>) s" using E(1) D(1) assms(3) by (simp add: upd_dict_twice)
  moreover have "E k0 = db_dict (get_db i s) k0" using D(2) E(2) unfolding g by simp
  ultimately show ?thesis unfolding touched_def by blast
qed

lemma touched_put:
  assumes "get_set i k s = Some a" "set_ok (sv_env s) b" "set_elems b = set_elems a" "k \<noteq> k0"
  shows "touched i k0 s (put_set i k b s)"
  unfolding touched_def put_key_def
  using assms get_setD [OF assms(1)] by (intro exI [of _ "(db_dict (get_db i s))(k \<mapsto> SetObj b)"]) (auto simp: upd_db_def resembles_def)

lemma touched_get:
  assumes "touched i k0 s s'" "i < length (sv_dbs s)"
  shows "get_set i k0 s' = get_set i k0 s" "setof i s' k = setof i s k" "sets_ok i s ks \<Longrightarrow> sets_ok i s' ks"
proof -
  obtain D where D: "s' = upd_db i (\<lambda>db. db\<lparr>db_dict := D\<rparr>) s" "D k0 = db_dict (get_db i s) k0"
      "\<And>k. resembles (sv_env s) (db_dict (get_db i s) k) (D k)"
    using assms(1) unfolding touched_def by blast
  have g: "db_dict (get_db i s') = D" "sv_env s' = sv_env s" using D(1) assms(2) by (simp_all add: get_db_upd)
  show "get_set i k0 s' = get_set i k0 s" using D(2) g by (simp add: get_set.simps)
  have each: "get_set i x s' = get_set i x s \<or> (\<exists>a b. get_set i x s = Some a \<and> get_set i x s' = Some b \<and> set_ok (sv_env s) b \<and> set_elems b = set_elems a)" for x
    using D(3) [of x] g by (auto simp: get_set.simps resembles_def)
  show "setof i s' k = setof i s k"
  proof (cases k)
    case (Some x)
    then show ?thesis using each [of x] by (auto simp: setof_def)
  qed simp
  show "sets_ok i s ks \<Longrightarrow> sets_ok i s' ks" unfolding sets_ok_def g(2) using each by metis
qed

lemma in_any_spec:
  assumes "i < length (sv_dbs s)" "sets_ok i s ks" "sobj_ok ele"
  shows "\<exists>s'. in_any i k0 ks ele s = Some (s', \<exists>k\<in>set ks. k = Some k0 \<or> str_bytes ele \<in> setof i s k) \<and> touched i k0 s s'"
  using assms(1,2)
proof (induction ks arbitrary: s)
  case Nil
  then show ?case by (simp add: touched_refl)
next
  case (Cons k ks)
  show ?case
  proof (cases k)
    case None
    then show ?thesis using Cons by (simp add: sets_ok_Cons)
  next
    case (Some x)
    show ?thesis
    proof (cases "x = k0")
      case True
      then show ?thesis using Some by (simp add: touched_refl)
    next
      case False
      obtain o1 where o: "get_set i x s = Some o1" "set_ok (sv_env s) o1" "sets_ok i s ks" using Cons.prems(2) Some by (auto simp: sets_ok_Cons)
      obtain o2 where m: "setTypeIsMember (sv_env s) o1 ele = Some (o2, str_bytes ele \<in> set_elems o1)" "set_ok (sv_env s) o2" "set_elems o2 = set_elems o1"
        using setTypeIsMember_spec [OF o(2) assms(3)] by blast
      have t: "touched i k0 s (put_set i x o2 s)" using touched_put [OF o(1) m(2,3) False] .
      note g = touched_get [OF t Cons.prems(1)]
      obtain s' where "in_any i k0 ks ele (put_set i x o2 s) = Some (s', \<exists>k\<in>set ks. k = Some k0 \<or> str_bytes ele \<in> setof i s k)" "touched i k0 (put_set i x o2 s) s'"
        using Cons.IH [of "put_set i x o2 s"] Cons.prems(1) g(2) g(3) [OF o(3)] touched_fields(2) [OF t] by auto
      then show ?thesis
        using Some False o(1) m(1) t touched_trans [OF t _ Cons.prems(1)] by (cases "str_bytes ele \<in> set_elems o1") auto
    qed
  qed
qed

lemma diff1_loop_spec:
  assumes "i < length (sv_dbs s)" "get_set i k0 s = Some o1" "set_ok (sv_env s) o1" "si_ok addr0 addr1 o1 si" "sets_ok i s ks" "set_ok (sv_env s) dst"
    "set_max_intset_entries (sv_env s) < 2 ^ 29 - 1" "card (set_elems dst) + length (elems_left o1 si) \<le> 2 ^ 30"
    "distinct (map elem_bytes (elems_left o1 si))" "elem_bytes ` set (elems_left o1 si) \<inter> set_elems dst = {}" "elem_bytes ` set (elems_left o1 si) \<subseteq> set_elems o1"
  shows "\<exists>s' dst'. diff1_loop addr0 addr1 i k0 ks si dst (int (card (set_elems dst))) s = Some (s', dst', int (card (set_elems dst'))) \<and> touched i k0 s s'
    \<and> set_ok (sv_env s) dst' \<and> set_elems dst' = set_elems dst \<union> (elem_bytes ` set (elems_left o1 si) - (\<Union>k\<in>set ks. setof i s k))"
  using assms
proof (induction "length (elems_left o1 si)" arbitrary: si dst s)
  case 0
  then obtain si' where "setTypeNextObject addr0 addr1 o1 si = Some (o1, si', None)" "setTypeReleaseIterator addr0 addr1 o1 si' = Some o1"
    using nextObject_step [OF 0(4,5)] by auto
  then show ?case using 0 touched_refl put_same [OF 0(3)] by (subst diff1_loop.simps) simp
next
  case (Suc n)
  obtain x si' where x: "setTypeNextObject addr0 addr1 o1 si = Some (o1, si', Some (elem_object x))" "si_ok addr0 addr1 o1 si'" "elems_left o1 si = x # elems_left o1 si'"
    using nextObject_step [OF Suc(5,6)] Suc(2) by auto
  let ?b = "elem_bytes x" and ?U = "\<Union>k\<in>set ks. setof i s k"
  have b: "?b \<in> set_elems o1" "?b \<notin> set_elems dst" "?b \<notin> elem_bytes ` set (elems_left o1 si')" using Suc.prems(9-11) x(3) by auto
  obtain s1 where s1: "in_any i k0 ks (elem_object x) s = Some (s1, \<exists>k\<in>set ks. k = Some k0 \<or> ?b \<in> setof i s k)" "touched i k0 s s1"
    using in_any_spec [OF Suc.prems(1,5), of "elem_object x" k0] by auto
  have found: "(\<exists>k\<in>set ks. k = Some k0 \<or> ?b \<in> setof i s k) \<longleftrightarrow> ?b \<in> ?U"
    using b(1) setof_simps(2) [OF Suc.prems(2)] by auto
  note g = touched_get [OF s1(2) Suc.prems(1)] touched_fields [OF s1(2)]
  have U: "(\<Union>k\<in>set ks. setof i s1 k) = ?U" by (simp add: g(2))
  have IH: "\<exists>s' dst'. diff1_loop addr0 addr1 i k0 ks si' dst1 (int (card (set_elems dst1))) s1 = Some (s', dst', int (card (set_elems dst'))) \<and> touched i k0 s1 s'
      \<and> set_ok (sv_env s) dst' \<and> set_elems dst' = set_elems dst1 \<union> (elem_bytes ` set (elems_left o1 si') - ?U)"
    if "set_ok (sv_env s) dst1" "card (set_elems dst1) + length (elems_left o1 si') \<le> 2 ^ 30" "elem_bytes ` set (elems_left o1 si') \<inter> set_elems dst1 = {}" for dst1
    using Suc.hyps(1) [of si' s1 dst1] Suc.hyps(2) Suc.prems(1-3,5,7,9,11) x(2,3) g that unfolding U by simp
  have unf: "diff1_loop addr0 addr1 i k0 ks si dst (int (card (set_elems dst))) s
      = (if ?b \<in> ?U then diff1_loop addr0 addr1 i k0 ks si' dst (int (card (set_elems dst))) s1
         else do { (dst', _) \<leftarrow> setTypeAdd (sv_env s) dst (elem_object x); n \<leftarrow> int_inc (int (card (set_elems dst))); diff1_loop addr0 addr1 i k0 ks si' dst' n s1 })"
    using Suc.prems(2) x(1) s1(1) found put_same [OF Suc.prems(2)] by (subst diff1_loop.simps) simp
  show ?case
  proof (cases "?b \<in> ?U")
    case True
    obtain s' dst' where "diff1_loop addr0 addr1 i k0 ks si' dst (int (card (set_elems dst))) s1 = Some (s', dst', int (card (set_elems dst')))" "touched i k0 s1 s'"
        "set_ok (sv_env s) dst'" "set_elems dst' = set_elems dst \<union> (elem_bytes ` set (elems_left o1 si') - ?U)"
      using IH [OF Suc.prems(6)] Suc.prems(8,10) x(3) by auto
    then show ?thesis using unf True x(3) touched_trans [OF s1(2) _ Suc.prems(1)] by auto
  next
    case False
    have fin: "finite (set_elems dst)" by (rule finite_set_elems [OF Suc.prems(6)])
    have lim: "card (set_elems dst) < set_limit" using Suc.prems(8) x(3) by (simp add: set_limit_def)
    obtain dst1 where d: "setTypeAdd (sv_env s) dst (elem_object x) = Some (dst1, True)" "set_ok (sv_env s) dst1" "set_elems dst1 = insert ?b (set_elems dst)"
      using setTypeAdd_spec [OF Suc.prems(6) _ lim Suc.prems(7), of "elem_object x"] b(2) by auto
    have card: "card (set_elems dst1) = Suc (card (set_elems dst))" using d(3) b(2) fin by simp
    then have inc: "int_inc (int (card (set_elems dst))) = Some (int (card (set_elems dst1)))" using Suc.prems(8) x(3) by (simp add: int_inc_def)
    obtain s' dst' where "diff1_loop addr0 addr1 i k0 ks si' dst1 (int (card (set_elems dst1))) s1 = Some (s', dst', int (card (set_elems dst')))" "touched i k0 s1 s'"
        "set_ok (sv_env s) dst'" "set_elems dst' = set_elems dst1 \<union> (elem_bytes ` set (elems_left o1 si') - ?U)"
      using IH [OF d(2)] Suc.prems(8,10) x(3) d(3) b(3) card by auto
    then show ?thesis using unf False x(3) d(1,3) inc touched_trans [OF s1(2) _ Suc.prems(1)] by auto
  qed
qed

section \<open>Intersection\<close>

fun elem_ok :: "set_elem \<Rightarrow> bool" where
  "elem_ok (IntElem v) \<longleftrightarrow> int64_range v"
| "elem_ok (ObjElem b) \<longleftrightarrow> True"

lemma elems_left_ok: "set_ok env o1 \<Longrightarrow> e \<in> set (elems_left o1 si) \<Longrightarrow> elem_ok e"
proof (cases "(o1, si)" rule: elems_left.cases)
  case (1 "is" ii)
  assume a: "set_ok env o1" "e \<in> set (elems_left o1 si)"
  then obtain v where "e = IntElem v" "v \<in> set (drop ii (intset_vals is))" using 1 by auto
  then show ?thesis using a(1) 1 vals_int64 [of "is" v] in_set_dropD by fastforce
qed auto

lemma elem_in_spec:
  assumes "set_ok env o1" "elem_ok e"
  shows "\<exists>o2. elem_in env o1 e = Some (o2, elem_bytes e \<in> set_elems o1) \<and> set_ok env o2 \<and> set_elems o2 = set_elems o1"
proof (cases "\<exists>is v. o1 = SetIntset is \<and> e = IntElem v")
  case True
  then obtain "is" v where i: "o1 = SetIntset is" "e = IntElem v" by blast
  have ok: "intset_ok is" "int64_range v" using assms i by auto
  show ?thesis using i assms(1) intset.mem_spec [OF ok] repr_mem [OF ok] by (simp add: elem_object_def)
next
  case False
  then have "elem_in env o1 e = setTypeIsMember env o1 (elem_object e)" by (cases o1; cases e) (auto simp: elem_object_def)
  then show ?thesis using setTypeIsMember_spec [OF assms(1), of "elem_object e"] by simp
qed

lemma in_all_spec:
  assumes "i < length (sv_dbs s)" "sets_ok i s (map Some ks)" "elem_ok e"
  shows "\<exists>s'. in_all i k0 ks e s = Some (s', \<forall>k\<in>set ks. k = k0 \<or> elem_bytes e \<in> setof i s (Some k)) \<and> touched i k0 s s'"
  using assms(1,2)
proof (induction ks arbitrary: s)
  case Nil
  then show ?case by (simp add: touched_refl)
next
  case (Cons k ks)
  show ?case
  proof (cases "k = k0")
    case True
    then show ?thesis using Cons by (simp add: sets_ok_Cons)
  next
    case False
    obtain o1 where o: "get_set i k s = Some o1" "set_ok (sv_env s) o1" "sets_ok i s (map Some ks)" using Cons.prems(2) by (auto simp: sets_ok_Cons)
    obtain o2 where m: "elem_in (sv_env s) o1 e = Some (o2, elem_bytes e \<in> set_elems o1)" "set_ok (sv_env s) o2" "set_elems o2 = set_elems o1"
      using elem_in_spec [OF o(2) assms(3)] by blast
    have t: "touched i k0 s (put_set i k o2 s)" using touched_put [OF o(1) m(2,3) False] .
    note g = touched_get [OF t Cons.prems(1)]
    obtain s' where "in_all i k0 ks e (put_set i k o2 s) = Some (s', \<forall>k\<in>set ks. k = k0 \<or> elem_bytes e \<in> setof i s (Some k))" "touched i k0 (put_set i k o2 s) s'"
      using Cons.IH [of "put_set i k o2 s"] Cons.prems(1) g(2) g(3) [OF o(3)] touched_fields(2) [OF t] by auto
    then show ?thesis
      using False o(1) m(1) t touched_trans [OF t _ Cons.prems(1)] by (cases "elem_bytes e \<in> set_elems o1") auto
  qed
qed

lemma sinter_loop_spec:
  assumes "i < length (sv_dbs s)" "get_set i k0 s = Some o1" "set_ok (sv_env s) o1" "si_ok addr0 addr1 o1 si" "sets_ok i s (map Some ks)" "set_ok (sv_env s) dst"
    "set_max_intset_entries (sv_env s) < 2 ^ 29 - 1" "card (set_elems dst) + length (elems_left o1 si) \<le> 2 ^ 30"
    "elem_bytes ` set (elems_left o1 si) \<subseteq> set_elems o1"
  shows "\<exists>s' out' dst'. sinter_loop addr0 addr1 store i k0 ks si out dst s = Some (s', out', dst') \<and> touched i k0 s s'
    \<and> (\<not> store \<longrightarrow> map str_bytes out' = map str_bytes out @ filter (\<lambda>b. \<forall>k\<in>set ks. b \<in> setof i s (Some k)) (map elem_bytes (elems_left o1 si)))
    \<and> set_ok (sv_env s) dst' \<and> (store \<longrightarrow> set_elems dst' = set_elems dst \<union> {b \<in> elem_bytes ` set (elems_left o1 si). \<forall>k\<in>set ks. b \<in> setof i s (Some k)})"
  using assms
proof (induction "length (elems_left o1 si)" arbitrary: si out dst s)
  case 0
  then obtain si' where "setTypeNext addr0 addr1 o1 si = Some (o1, si', None)" "setTypeReleaseIterator addr0 addr1 o1 si' = Some o1"
    using setTypeNext_step [OF 0(4,5)] by (auto simp: next_elem_def)
  then show ?case using 0 touched_refl put_same [OF 0(3)] by (subst sinter_loop.simps) simp
next
  case (Suc n)
  obtain x si' where x: "setTypeNext addr0 addr1 o1 si = Some (o1, si', Some x)" "si_ok addr0 addr1 o1 si'" "elems_left o1 si = x # elems_left o1 si'"
    using setTypeNext_step [OF Suc(5,6)] Suc(2) by (auto simp: next_elem_def)
  let ?b = "elem_bytes x" and ?P = "\<lambda>b. \<forall>k\<in>set ks. b \<in> setof i s (Some k)"
  have b: "?b \<in> set_elems o1" "elem_ok x" using Suc.prems(9) x(3) elems_left_ok [OF Suc.prems(3), of x si] by auto
  obtain s1 where s1: "in_all i k0 ks x s = Some (s1, \<forall>k\<in>set ks. k = k0 \<or> ?b \<in> setof i s (Some k))" "touched i k0 s s1"
    using in_all_spec [OF Suc.prems(1,5) b(2)] by blast
  have all: "(\<forall>k\<in>set ks. k = k0 \<or> ?b \<in> setof i s (Some k)) \<longleftrightarrow> ?P ?b" using Suc.prems(2) b(1) by auto
  note g = touched_get [OF s1(2) Suc.prems(1)] touched_fields [OF s1(2)]
  have IH: "\<exists>s' out' dst'. sinter_loop addr0 addr1 store i k0 ks si' out1 dst1 s1 = Some (s', out', dst') \<and> touched i k0 s1 s'
      \<and> (\<not> store \<longrightarrow> map str_bytes out' = map str_bytes out1 @ filter ?P (map elem_bytes (elems_left o1 si')))
      \<and> set_ok (sv_env s) dst' \<and> (store \<longrightarrow> set_elems dst' = set_elems dst1 \<union> {b \<in> elem_bytes ` set (elems_left o1 si'). ?P b})"
    if "set_ok (sv_env s) dst1" "card (set_elems dst1) + length (elems_left o1 si') \<le> 2 ^ 30" for dst1 out1
    using Suc.hyps(1) [of si' s1 dst1 out1] Suc.hyps(2) Suc.prems(1-3,5,7,9) x(2,3) g that by simp
  have unf: "sinter_loop addr0 addr1 store i k0 ks si out dst s
      = (if \<not> ?P ?b then sinter_loop addr0 addr1 store i k0 ks si' out dst s1
         else if store then do { (dst', _) \<leftarrow> setTypeAdd (sv_env s) dst (elem_object x); sinter_loop addr0 addr1 store i k0 ks si' out dst' s1 }
         else sinter_loop addr0 addr1 store i k0 ks si' (out @ [elem_object x]) dst s1)"
    using Suc.prems(2) x(1) s1(1) all put_same [OF Suc.prems(2)] by (subst sinter_loop.simps) simp
  have len: "card (set_elems dst) + length (elems_left o1 si') \<le> 2 ^ 30" "card (set_elems dst) < set_limit" using Suc.prems(8) x(3) by (simp_all add: set_limit_def)
  have left: "{b \<in> elem_bytes ` set (elems_left o1 si). ?P b} = (if ?P ?b then {?b} else {}) \<union> {b \<in> elem_bytes ` set (elems_left o1 si'). ?P b}"
    unfolding x(3) by auto
  show ?case
  proof (cases "?P ?b \<and> store")
    case True
    have fin: "finite (set_elems dst)" by (rule finite_set_elems [OF Suc.prems(6)])
    obtain dst1 where d: "setTypeAdd (sv_env s) dst (elem_object x) = Some (dst1, ?b \<notin> set_elems dst)" "set_ok (sv_env s) dst1" "set_elems dst1 = insert ?b (set_elems dst)"
      using setTypeAdd_spec [OF Suc.prems(6) _ len(2) Suc.prems(7), of "elem_object x"] by auto
    have "card (set_elems dst1) + length (elems_left o1 si') \<le> 2 ^ 30" using d(3) fin Suc.prems(8) x(3) by (simp add: card_insert_if split: if_splits)
    from IH [OF d(2) this, of out] show ?thesis using unf True d(1,3) left touched_trans [OF s1(2) _ Suc.prems(1)] by auto
  next
    case False
    from IH [OF Suc.prems(6) len(1), of "if ?P ?b then out @ [elem_object x] else out"]
    show ?thesis using unf False x(3) left touched_trans [OF s1(2) _ Suc.prems(1)] by (cases "?P ?b") auto
  qed
qed

section \<open>The elements of a result\<close>

lemma send_elems_spec:
  assumes "set_ok env o1" "si_ok addr0 addr1 o1 si"
  shows "send_elems addr0 addr1 c o1 si s = Some (fold (\<lambda>b. addReply c (Bulk b)) (map elem_bytes (elems_left o1 si)) s)"
  using assms(2)
proof (induction "length (elems_left o1 si)" arbitrary: si s)
  case 0
  then obtain si' where "setTypeNextObject addr0 addr1 o1 si = Some (o1, si', None)" "setTypeReleaseIterator addr0 addr1 o1 si' = Some o1"
    using nextObject_step [OF assms(1) 0(2)] by auto
  then show ?case using 0 by (subst send_elems.simps) simp
next
  case (Suc n)
  obtain x si' where x: "setTypeNextObject addr0 addr1 o1 si = Some (o1, si', Some (elem_object x))" "si_ok addr0 addr1 o1 si'" "elems_left o1 si = x # elems_left o1 si'"
    using nextObject_step [OF assms(1) Suc(3)] Suc(2) by auto
  then show ?case using Suc.hyps(1) [OF _ x(2)] Suc.hyps(2) by (subst send_elems.simps) simp
qed

end
