(* ===== verification/Set_Props.thy ===== *)
theory Set_Props
  imports Set_Spec
begin

text \<open>
  The set commands as operations on the visible keyspace. After the lookups every key of a command is settled: what the
  database holds under it is what a client sees. The representation of sets that were read may change
  (\<open>resembles\<close>), their elements do not.
\<close>

section \<open>Lookups\<close>

definition vis_set :: "nat \<Rightarrow> server \<Rightarrow> key \<Rightarrow> u8 list set" where
  "vis_set i s k = (case vis i s k of Some (SetObj o1) \<Rightarrow> set_elems o1 | _ \<Rightarrow> {})"

definition none_or_set :: "robj option \<Rightarrow> bool" where
  "none_or_set v \<longleftrightarrow> v = None \<or> is_set (the v)"

abbreviation settled :: "nat \<Rightarrow> server \<Rightarrow> key \<Rightarrow> bool" where
  "settled i s k \<equiv> db_dict (get_db i s) k = vis i s k"

definition set_lookup :: "bool \<Rightarrow> nat \<Rightarrow> key \<Rightarrow> server \<Rightarrow> (server \<times> robj option) option" where
  "set_lookup store i k s = (if store then lookupKeyWrite i k s else lookupKeyRead i k s)"

lemma set_lookup_spec:
  assumes "server_ok s" "i < length (sv_dbs s)"
  shows "\<exists>s'. set_lookup store i k s = Some (s', vis i s k) \<and> quiet s s' \<and> settled i s' k \<and> (\<forall>k'. settled i s k' \<longrightarrow> settled i s' k')"
proof -
  obtain s' where s': "set_lookup store i k s = Some (s', vis i s k)" "quiet s s'" "db_dict (get_db i s') k = vis i s k"
    using lookupKeyRead_spec [OF assms, of k] lookupKeyWrite_spec [OF assms, of k] by (cases store) (auto simp: set_lookup_def)
  have v: "vis i s' = vis i s" by (rule quietD(7) [OF s'(2)])
  have "db_dict (get_db i s') k' = db_dict (get_db i s) k'" if "k' \<noteq> k" for k'
    using s'(1) expireIfNeeded_others [OF _ assms(2) that]
    by (cases store) (auto simp: set_lookup_def lookupKeyRead_def lookupKeyWrite_def lookupKey_def Let_def split: Option.bind_splits if_splits)
  then have "settled i s' k'" if "settled i s k'" for k' using that s'(3) v by (cases "k' = k") auto
  then show ?thesis using s' v by auto
qed

definition present :: "nat \<Rightarrow> server \<Rightarrow> key \<Rightarrow> key option" where
  "present i s k = (if vis i s k = None then None else Some k)"

lemma union_lookup_spec:
  assumes "server_ok s" "i < length (sv_dbs s)"
  shows "if \<forall>k\<in>set ks. none_or_set (vis i s k)
    then \<exists>s'. union_lookup store i ks s = Some (Inr (s', map (present i s) ks)) \<and> quiet s s' \<and> (\<forall>k. settled i s k \<or> k \<in> set ks \<longrightarrow> settled i s' k)
    else \<exists>s'. union_lookup store i ks s = Some (Inl s') \<and> quiet s s'"
  using assms
proof (induction ks arbitrary: s)
  case Nil
  then show ?case by (simp add: quiet_refl)
next
  case (Cons k ks)
  obtain s1 where s1: "set_lookup store i k s = Some (s1, vis i s k)" "quiet s s1" "settled i s1 k" "\<forall>k'. settled i s k' \<longrightarrow> settled i s1 k'"
    using set_lookup_spec [OF Cons.prems] by blast
  have v: "vis i s1 = vis i s" "present i s1 = present i s" using quietD(7) [OF s1(2)] by (simp_all add: present_def fun_eq_iff)
  have IH: "if \<forall>k\<in>set ks. none_or_set (vis i s k)
    then \<exists>s'. union_lookup store i ks s1 = Some (Inr (s', map (present i s) ks)) \<and> quiet s s' \<and> (\<forall>k. settled i s1 k \<or> k \<in> set ks \<longrightarrow> settled i s' k)
    else \<exists>s'. union_lookup store i ks s1 = Some (Inl s') \<and> quiet s s'"
    using Cons.IH [OF quietD(1) [OF s1(2)]] quietD(6) [OF s1(2)] Cons.prems(2) quiet_trans [OF s1(2)] unfolding v by (auto split: if_splits)
  have run: "union_lookup store i (k # ks) s =
      (if \<not> none_or_set (vis i s k) then Some (Inl s1)
       else do { r \<leftarrow> union_lookup store i ks s1;
                 (case r of Inl s2 \<Rightarrow> Some (Inl s2) | Inr (s2, sets) \<Rightarrow> Some (Inr (s2, present i s k # sets))) })"
    using s1(1) by (auto simp: set_lookup_def none_or_set_def present_def)
  show ?case
  proof (cases "none_or_set (vis i s k)")
    case True
    then show ?thesis using IH s1(3,4) unfolding run by (auto split: if_splits)
  next
    case False
    then show ?thesis using s1(2) unfolding run by auto
  qed
qed

lemma sinter_lookup_spec:
  assumes "server_ok s" "i < length (sv_dbs s)" "\<forall>k\<in>set ks. none_or_set (vis i s k)"
  shows "if \<forall>k\<in>set ks. vis i s k \<noteq> None
    then \<exists>s'. sinter_lookup store i ks s = Some (SetsFound s') \<and> quiet s s' \<and> (\<forall>k. settled i s k \<or> k \<in> set ks \<longrightarrow> settled i s' k)
    else \<exists>s'. sinter_lookup store i ks s = Some (SetsMissing s') \<and> quiet s s'"
  using assms
proof (induction ks arbitrary: s)
  case Nil
  then show ?case by (simp add: quiet_refl)
next
  case (Cons k ks)
  obtain s1 where s1: "set_lookup store i k s = Some (s1, vis i s k)" "quiet s s1" "settled i s1 k" "\<forall>k'. settled i s k' \<longrightarrow> settled i s1 k'"
    using set_lookup_spec [OF Cons.prems(1,2)] by blast
  have v: "vis i s1 = vis i s" using quietD(7) [OF s1(2)] .
  have IH: "if \<forall>k\<in>set ks. vis i s k \<noteq> None
    then \<exists>s'. sinter_lookup store i ks s1 = Some (SetsFound s') \<and> quiet s s' \<and> (\<forall>k. settled i s1 k \<or> k \<in> set ks \<longrightarrow> settled i s' k)
    else \<exists>s'. sinter_lookup store i ks s1 = Some (SetsMissing s') \<and> quiet s s'"
    using Cons.IH [OF quietD(1) [OF s1(2)]] quietD(6) [OF s1(2)] Cons.prems(2,3) quiet_trans [OF s1(2)] unfolding v by (auto split: if_splits)
  have run: "sinter_lookup store i (k # ks) s = (if vis i s k = None then Some (SetsMissing s1) else sinter_lookup store i ks s1)"
    using s1(1) Cons.prems(3) by (auto simp: set_lookup_def none_or_set_def split: robj.splits option.splits elim: is_set.elims)
  show ?case
  proof (cases "vis i s k = None")
    case True
    then show ?thesis using s1(2) unfolding run by auto
  next
    case False
    then show ?thesis using IH s1(3,4) unfolding run by (auto split: if_splits)
  qed
qed

text \<open>The settled sets are the visible ones.\<close>

lemma settled_setof:
  assumes "quiet s s1" "settled i s1 k" "none_or_set (vis i s k)"
  shows "setof i s1 (present i s k) = vis_set i s k"
proof -
  have "db_dict (get_db i s1) k = vis i s k" using assms(2) quietD(7) [OF assms(1)] by simp
  then show ?thesis using assms(3) by (cases "vis i s k") (auto simp: setof_def present_def vis_set_def get_set.simps none_or_set_def elim!: is_set.elims)
qed

lemma settled_ok:
  assumes "quiet s s1" "i < length (sv_dbs s)" "settled i s1 k" "none_or_set (vis i s k)" "vis i s k \<noteq> None"
  shows "\<exists>o1. get_set i k s1 = Some o1 \<and> set_ok (sv_env s1) o1 \<and> set_elems o1 = vis_set i s k"
proof -
  obtain o1 where o: "vis i s k = Some (SetObj o1)" using assms(4,5) by (auto simp: none_or_set_def elim!: is_set.elims)
  then have d: "db_dict (get_db i s1) k = Some (SetObj o1)" using assms(3) quietD(7) [OF assms(1)] by simp
  have "i < length (sv_dbs s1)" using quietD(6) [OF assms(1)] assms(2) by simp
  from server_okD(3) [OF quietD(1) [OF assms(1)] this d] have "set_ok (sv_env s1) o1" by simp
  then show ?thesis using d o by (auto simp: get_set.simps vis_set_def)
qed

lemma settled_sets_ok:
  assumes "quiet s s1" "i < length (sv_dbs s)" "\<forall>k\<in>set ks. settled i s1 k" "\<forall>k\<in>set ks. none_or_set (vis i s k)"
  shows "sets_ok i s1 (map (present i s) ks)" "map (setof i s1) (map (present i s) ks) = map (vis_set i s) ks"
proof -
  have "\<exists>o1. get_set i k s1 = Some o1 \<and> set_ok (sv_env s1) o1" if "k \<in> set ks" "vis i s k \<noteq> None" for k
    using settled_ok [OF assms(1,2)] assms(3,4) that by blast
  then show "sets_ok i s1 (map (present i s) ks)" by (auto simp: sets_ok_def present_def split: if_splits)
  show "map (setof i s1) (map (present i s) ks) = map (vis_set i s) ks" using settled_setof [OF assms(1)] assms(3,4) by simp
qed

section \<open>Effects\<close>

definition same_sets :: "nat \<Rightarrow> server \<Rightarrow> (key \<rightharpoonup> robj) \<Rightarrow> bool" where
  "same_sets i s M \<longleftrightarrow> (\<forall>k. resembles (sv_env s) (vis i s k) (M k))"

lemma touched_performs:
  assumes "touched i k0 s s'" "server_ok s" "i < length (sv_dbs s)"
  shows "\<exists>M. performs c i s s' M (vttl i s) {} [] \<and> same_sets i s M"
proof -
  obtain D where D: "s' = upd_db i (\<lambda>db. db\<lparr>db_dict := D\<rparr>) s" "\<And>k. resembles (sv_env s) (db_dict (get_db i s) k) (D k)"
    using assms(1) unfolding touched_def by blast
  have dom: "dom D = dom (db_dict (get_db i s))" using D(2) unfolding resembles_def by (force simp: set_eq_iff)
  have val: "val_ok (sv_env s) v" if "D k = Some v" for k v
    using D(2) [of k] that server_okD(3) [OF assms(2,3)] unfolding resembles_def by fastforce
  have "db_ok (sv_env s) ((get_db i s)\<lparr>db_dict := D\<rparr>)" using server_okD(2) [OF assms(2,3)] dom val by (auto simp: db_ok_def)
  then have p: "performs c i s s' (vis i s') (vttl i s') {} []" unfolding D(1) by (intro performs_upd_db assms(2,3)) simp_all
  have e: "expired i s' k = expired i s k" for k using assms(3) by (intro expired_cong) (simp_all add: D(1) get_db_upd)
  have "db_expires (get_db i s') = db_expires (get_db i s)" "db_dict (get_db i s') = D" using assms(3) by (simp_all add: D(1) get_db_upd)
  then have "vttl i s' = vttl i s" "same_sets i s (vis i s')" using D(2) by (simp_all add: vttl_def vis_def e same_sets_def fun_eq_iff)
  then show ?thesis using p by auto
qed

lemma same_sets_refl [simp]: "same_sets i s (vis i s)"
  by (simp add: same_sets_def)

lemma quiet_touched:
  assumes "quiet s s1" "touched i k0 s1 s2" "i < length (sv_dbs s)"
  shows "\<exists>M. performs c i s s2 M (vttl i s) {} [] \<and> same_sets i s M"
proof -
  obtain M where "performs c i s1 s2 M (vttl i s1) {} []" "same_sets i s1 M"
    using touched_performs [OF assms(2) quietD(1) [OF assms(1)]] quietD(6) [OF assms(1)] assms(3) by auto
  then have "performs c i s s2 M (vttl i s) {} []" "same_sets i s M"
    using performs_trans [OF performs_quiet [OF assms(1), of c i], of s2 M "vttl i s1" "{}" "[]"] quietD(3,7,8) [OF assms(1)] by (simp_all add: same_sets_def)
  then show ?thesis by blast
qed

lemma store_set_spec:
  assumes "performs c i s s1 M T {} []" "i < length (sv_dbs s)" "set_ok (sv_env s) d"
  shows "\<exists>s'. store_set event i dst d c s1 = Some s'
    \<and> performs c i s s' (M(dst := if set_elems d = {} then None else Some (SetObj d))) (T(dst := None)) {dst} [IntReply (int (card (set_elems d)))]"
proof -
  let ?s2 = "fst (dbDelete i dst s1)"
  have p2: "performs c i s ?s2 (M(dst := None)) (T(dst := None)) {} []" by (rule performs_delete_after [OF assms(1,2)])
  note d2 = performsD [OF p2]
  have size: "setTypeSize d = card (set_elems d)" by (rule card_size [OF assms(3)])
  have fin: "finite (set_elems d)" by (rule finite_set_elems [OF assms(3)])
  show ?thesis
  proof (cases "set_elems d = {}")
    case True
    let ?s3 = "addReply c (IntReply 0) ?s2"
    have p3: "performs c i s ?s3 (M(dst := None)) (T(dst := None)) {} [IntReply 0]" using performs_reply_after [OF p2] by simp
    have p4: "performs c i s (if b then notifyKeyspaceEvent NOTIFY_GENERIC ''del'' dst i ?s3 else ?s3) (M(dst := None)) (T(dst := None)) {} [IntReply 0]" for b
      using p3 performs_notify_after [OF p3] by simp
    show ?thesis using performs_dirty_after [OF performs_signal_after [OF p4 [of "snd (dbDelete i dst s1)"]], of 1 dst] True size
      by (simp add: store_set_def Let_def case_prod_beta)
  next
    case False
    have "i < length (sv_dbs s1)" using performsD(4) [OF assms(1)] assms(2) by simp
    then have "\<not> dbExists i dst ?s2" "db_expires (get_db i ?s2) dst = None" by (simp_all add: dbDelete_def dbExists_def get_db_upd)
    then have "\<not> dbExists i dst ?s2" "\<not> expired i ?s2 dst" by (simp_all add: expired_def)
    then obtain s3 where s3: "dbAdd i dst (SetObj d) ?s2 = Some s3" "performs c i ?s2 s3 ((vis i ?s2)(dst \<mapsto> SetObj d)) (vttl i ?s2) {} []"
      using performs_dbAdd [OF d2(1), of i dst "SetObj d" c] d2(4,10) assms(2,3) False by auto
    have p3: "performs c i s s3 (M(dst \<mapsto> SetObj d)) (T(dst := None)) {} []" using performs_trans [OF p2 s3(2)] d2(2,3) by simp
    have "setTypeSize d > 0" using size False fin by (simp add: card_gt_0_iff)
    then show ?thesis
      using performs_dirty_after [OF performs_signal_after [OF performs_notify_after [OF performs_reply_after [OF p3]]]] s3(1) False size
      by (auto simp: store_set_def split: prod.split)
  qed
qed

section \<open>Union and difference\<close>

fun set_result :: "set_op \<Rightarrow> 'a set list \<Rightarrow> 'a set" where
  "set_result OP_UNION As = \<Union> (set As)"
| "set_result OP_DIFF [] = {}"
| "set_result OP_DIFF (A # Bs) = A - \<Union> (set Bs)"

definition permutes_keys :: "sorter \<Rightarrow> bool" where
  "permutes_keys qs \<longleftrightarrow> (\<forall>cmp xs. mset (qs cmp xs) = mset xs)"

lemma permutes_set: "permutes_keys qs \<Longrightarrow> set (qs cmp xs) = set xs"
  unfolding permutes_keys_def by (metis set_mset_mset)

lemma empty_set_ok: "set_ok env createIntsetObject" "set_elems createIntsetObject = {}"
  by (simp_all add: createIntsetObject_def intsetNew_ok) (simp_all add: intsetNew_def intset_vals_def)

lemma set_card_limit:
  assumes "set_ok env o1" "set_max_intset_entries env < 2 ^ 29 - 1"
  shows "card (set_elems o1) \<le> 2 ^ 30"
proof (cases o1)
  case (SetIntset "is")
  then show ?thesis using card_size [OF assms(1)] assms by (simp add: intsetLen_def)
next
  case (SetHT d)
  then show ?thesis using assms(1) by (simp add: set_limit_def)
qed

lemma diff1_spec:
  assumes "i < length (sv_dbs s)" "sets_ok i s (Some k # ks)" "set_max_intset_entries (sv_env s) < 2 ^ 29 - 1" "get_set i k s = Some o1"
  shows "\<exists>s' dst. diff1_loop addr0 addr1 i k ks (setTypeInitIterator o1) createIntsetObject 0 s = Some (s', dst, int (card (set_elems dst))) \<and> touched i k s s'
    \<and> set_ok (sv_env s) dst \<and> set_elems dst = setof i s (Some k) - (\<Union>k\<in>set ks. setof i s k)"
proof -
  have o: "set_ok (sv_env s) o1" "sets_ok i s ks" using assms(2,4) by (auto simp: sets_ok_Cons)
  note init = elems_left_init [OF o(1)]
  have "\<exists>s' dst. diff1_loop addr0 addr1 i k ks (setTypeInitIterator o1) createIntsetObject (int (card (set_elems createIntsetObject))) s
        = Some (s', dst, int (card (set_elems dst))) \<and> touched i k s s' \<and> set_ok (sv_env s) dst
      \<and> set_elems dst = set_elems createIntsetObject \<union> (elem_bytes ` set (elems_left o1 (setTypeInitIterator o1)) - (\<Union>k\<in>set ks. setof i s k))"
    using init set_card_limit [OF o(1) assms(3)] empty_set_ok(2)
    by (intro diff1_loop_spec [OF assms(1,4) o(1) init(1) o(2) empty_set_ok(1) assms(3)]) simp_all
  then show ?thesis using init(2) assms(4) by (simp add: empty_set_ok(2))
qed

lemma sunionDiff_sets_spec:
  assumes "i < length (sv_dbs s)" "sets_ok i s sets" "set_max_intset_entries (sv_env s) < 2 ^ 29 - 1" "permutes_keys qs"
    "op = OP_UNION \<longrightarrow> card (\<Union>k\<in>set sets. setof i s k) < 2 ^ 30"
  shows "\<exists>s' dst. sunionDiff_sets qs addr0 addr1 i sets op s = Some (s', dst, int (card (set_elems dst))) \<and> (\<exists>k0. touched i k0 s s')
    \<and> set_ok (sv_env s) dst \<and> set_elems dst = set_result op (map (setof i s) sets)"
proof (cases op)
  case OP_UNION
  then show ?thesis
    using union_loop_spec [OF assms(2) empty_set_ok(1) assms(3), of addr0 addr1] assms(5) touched_refl
    by (auto simp: sunionDiff_sets_def empty_set_ok(2))
next
  case OP_DIFF
  show ?thesis
  proof (cases "sets = [] \<or> hd sets = None")
    case True
    then show ?thesis using OP_DIFF touched_refl empty_set_ok(1) [of "sv_env s"]
      by (cases sets) (auto simp: sunionDiff_sets_def empty_set_ok(2))
  next
    case False
    then obtain k ks where k: "sets = Some k # ks" by (cases sets) auto
    obtain o1 where o: "get_set i k s = Some o1" "set_ok (sv_env s) o1" using assms(2) k by (auto simp: sets_ok_Cons)
    have few: "card (setof i s (Some k)) \<le> 2 ^ 30" using set_card_limit [OF o(2) assms(3)] o(1) by simp
    let ?ks = "if ks \<noteq> [] then qs (qsortCompareSetsByRevCardinality i s) ks else ks"
    have ks: "set ?ks = set ks" using permutes_set [OF assms(4)] by simp
    have sok: "sets_ok i s (Some k # ?ks)" using assms(2) unfolding k sets_ok_def by (simp add: ks)
    show ?thesis
    proof (cases "diff_algo i sets s = 1")
      case True
      then have "sunionDiff_sets qs addr0 addr1 i sets op s = diff1_loop addr0 addr1 i k ?ks (setTypeInitIterator o1) createIntsetObject 0 s"
        using OP_DIFF k o(1) by (simp add: sunionDiff_sets_def)
      then show ?thesis using diff1_spec [OF assms(1) sok assms(3) o(1), of addr0 addr1] OP_DIFF k unfolding ks by auto
    next
      case False
      then have "sunionDiff_sets qs addr0 addr1 i sets op s = diff2_loop addr0 addr1 i True sets createIntsetObject 0 s"
        using OP_DIFF k by (simp add: sunionDiff_sets_def)
      then show ?thesis
        using diff2_spec [OF assms(2) [unfolded k] assms(3) few, of addr0 addr1] OP_DIFF k touched_refl by auto
    qed
  qed
qed

section \<open>What a command answers or stores\<close>

text \<open>The reply is a list of the elements of \<open>V\<close>, each once, and the keyspace stays as it is.\<close>

definition answers :: "nat \<Rightarrow> nat \<Rightarrow> server \<Rightarrow> server option \<Rightarrow> u8 list set \<Rightarrow> bool" where
  "answers c i s r V \<longleftrightarrow>
     (\<exists>s' M vs. r = Some s' \<and> performs c i s s' M (vttl i s) {} (MultiBulkLen (length vs) # map Bulk vs) \<and> same_sets i s M \<and> distinct vs \<and> set vs = V)"

text \<open>The set \<open>V\<close> replaces what was at \<open>dst\<close>, which is gone if \<open>V\<close> is empty; the reply is the number of its elements.
  Who watches \<open>dst\<close> is marked if there was a value or there is one now.\<close>

definition stores :: "nat \<Rightarrow> nat \<Rightarrow> server \<Rightarrow> server option \<Rightarrow> key \<Rightarrow> u8 list set \<Rightarrow> bool" where
  "stores c i s r dst V \<longleftrightarrow>
     (\<exists>s' M d K. r = Some s' \<and> performs c i s s' (M(dst := if V = {} then None else Some (SetObj d))) ((vttl i s)(dst := None)) K [IntReply (int (card V))]
       \<and> same_sets i s M \<and> set_elems d = V \<and> K \<subseteq> {dst} \<and> (V \<noteq> {} \<or> vis i s dst \<noteq> None \<longrightarrow> dst \<in> K))"

lemma store_set_stores:
  assumes "performs c i s s1 M (vttl i s) {} []" "i < length (sv_dbs s)" "set_ok (sv_env s) d" "same_sets i s M" "set_elems d = V"
  shows "stores c i s (store_set event i dst d c s1) dst V"
proof -
  obtain s' where "store_set event i dst d c s1 = Some s'"
      "performs c i s s' (M(dst := if V = {} then None else Some (SetObj d))) ((vttl i s)(dst := None)) {dst} [IntReply (int (card V))]"
    using store_set_spec [OF assms(1-3), of event dst] unfolding assms(5) by blast
  then show ?thesis unfolding stores_def
    using assms(4,5) by (intro exI [of _ s'] exI [of _ M] exI [of _ d] exI [of _ "{dst}"]) blast
qed

lemma sunionDiff_spec:
  assumes "server_ok s" and i: "i = cur_db c s" and sets: "\<forall>k\<in>set ks. none_or_set (vis i s k)"
    and max: "set_max_intset_entries (sv_env s) < 2 ^ 29 - 1" and qs: "permutes_keys qs" and few: "op = OP_UNION \<longrightarrow> card (\<Union>k\<in>set ks. vis_set i s k) < 2 ^ 30"
  shows "answers c i s (sunionDiffGenericCommand qs addr0 addr1 ks None op c s) (set_result op (map (vis_set i s) ks))"
    "stores c i s (sunionDiffGenericCommand qs addr0 addr1 ks (Some dst) op c s) dst (set_result op (map (vis_set i s) ks))"
proof -
  let ?V = "set_result op (map (vis_set i s) ks)"
  have il: "i < length (sv_dbs s)" using server_ok_cur [OF assms(1)] by (simp add: i)
  have core: "\<exists>s1 s2 d M. union_lookup store i ks s = Some (Inr (s1, map (present i s) ks))
      \<and> sunionDiff_sets qs addr0 addr1 i (map (present i s) ks) op s1 = Some (s2, d, int (card (set_elems d)))
      \<and> performs c i s s2 M (vttl i s) {} [] \<and> same_sets i s M \<and> set_ok (sv_env s) d \<and> set_elems d = ?V" for store
  proof -
    obtain s1 where s1: "union_lookup store i ks s = Some (Inr (s1, map (present i s) ks))" "quiet s s1" "\<forall>k\<in>set ks. settled i s1 k"
      using union_lookup_spec [OF assms(1) il, of ks store] sets by auto
    note ok = settled_sets_ok [OF s1(2) il s1(3) sets]
    have len: "i < length (sv_dbs s1)" using quietD(6) [OF s1(2)] il by simp
    have "(\<Union>k\<in>set (map (present i s) ks). setof i s1 k) = (\<Union>k\<in>set ks. vis_set i s k)"
      using arg_cong [OF ok(2), of "\<lambda>As. \<Union> (set As)"] by simp
    then obtain s2 d k0 where s2: "sunionDiff_sets qs addr0 addr1 i (map (present i s) ks) op s1 = Some (s2, d, int (card (set_elems d)))" "touched i k0 s1 s2"
        "set_ok (sv_env s1) d" "set_elems d = ?V"
      using sunionDiff_sets_spec [OF len ok(1) _ qs, of op addr0 addr1] max few quietD(3) [OF s1(2)] unfolding ok(2) by auto
    obtain M where "performs c i s s2 M (vttl i s) {} []" "same_sets i s M" using quiet_touched [OF s1(2) s2(2) il] by blast
    then show ?thesis using s1(1) s2 quietD(3) [OF s1(2)] by auto
  qed
  show "answers c i s (sunionDiffGenericCommand qs addr0 addr1 ks None op c s) ?V"
  proof -
    obtain s1 s2 d M where h: "union_lookup False i ks s = Some (Inr (s1, map (present i s) ks))"
        "sunionDiff_sets qs addr0 addr1 i (map (present i s) ks) op s1 = Some (s2, d, int (card (set_elems d)))"
        "performs c i s s2 M (vttl i s) {} []" "same_sets i s M" "set_ok (sv_env s) d" "set_elems d = ?V"
      using core by blast
    note init = elems_left_init [OF h(5)]
    let ?vs = "map elem_bytes (elems_left d (setTypeInitIterator d))"
    have run: "sunionDiffGenericCommand qs addr0 addr1 ks None op c s
        = Some (fold (\<lambda>b. addReply c (Bulk b)) ?vs (addReply c (MultiBulkLen (card (set_elems d))) s2))"
      using h(1,2) send_elems_spec [OF h(5) init(1), where c = c] by (simp add: sunionDiffGenericCommand_def i [symmetric])
    have "length ?vs = card (set_elems d)" "set ?vs = ?V" using init(2,3) h(6) by simp_all
    then show ?thesis
      using run performs_replies [OF performs_reply_after [OF h(3), of "MultiBulkLen (length ?vs)"], where f = Bulk and ks = ?vs] h(4) init(4)
      unfolding answers_def by (intro exI [of _ "fold (\<lambda>b. addReply c (Bulk b)) ?vs (addReply c (MultiBulkLen (length ?vs)) s2)"] exI [of _ M] exI [of _ ?vs]) simp
  qed
  show "stores c i s (sunionDiffGenericCommand qs addr0 addr1 ks (Some dst) op c s) dst ?V"
  proof -
    obtain s1 s2 d M where h: "union_lookup True i ks s = Some (Inr (s1, map (present i s) ks))"
        "sunionDiff_sets qs addr0 addr1 i (map (present i s) ks) op s1 = Some (s2, d, int (card (set_elems d)))"
        "performs c i s s2 M (vttl i s) {} []" "same_sets i s M" "set_ok (sv_env s) d" "set_elems d = ?V"
      using core by blast
    have run: "sunionDiffGenericCommand qs addr0 addr1 ks (Some dst) op c s = store_set (if op = OP_UNION then ''sunionstore'' else ''sdiffstore'') i dst d c s2"
      using h(1,2) by (simp add: sunionDiffGenericCommand_def i [symmetric])
    show ?thesis unfolding run by (rule store_set_stores [OF h(3) il h(5,4,6)])
  qed
qed

section \<open>Intersection\<close>

lemma mset_map_Some:
  assumes "mset xs = mset (map Some ks)"
  shows "\<exists>ks'. List.map_filter id xs = ks' \<and> set ks' = set ks \<and> (ks \<noteq> [] \<longrightarrow> ks' \<noteq> [])"
proof -
  have set_eq: "set xs = Some ` set ks" using arg_cong [OF assms, of set_mset] by simp
  then have "set (List.map_filter id xs) = set ks" by (auto simp: map_filter_def image_iff)
  then show ?thesis by (cases ks) auto
qed

lemma sinter_spec:
  assumes "server_ok s" and i: "i = cur_db c s" and ks: "ks \<noteq> []" and sets: "\<forall>k\<in>set ks. none_or_set (vis i s k)"
    and max: "set_max_intset_entries (sv_env s) < 2 ^ 29 - 1" and qs: "permutes_keys qs" and all: "\<forall>k\<in>set ks. vis i s k \<noteq> None"
  shows "answers c i s (sinterGenericCommand qs addr0 addr1 ks None c s) (\<Inter>k\<in>set ks. vis_set i s k)"
    "stores c i s (sinterGenericCommand qs addr0 addr1 ks (Some dst) c s) dst (\<Inter>k\<in>set ks. vis_set i s k)"
proof -
  let ?V = "\<Inter>k\<in>set ks. vis_set i s k"
  have il: "i < length (sv_dbs s)" using server_ok_cur [OF assms(1)] by (simp add: i)
  have core: "\<exists>s1 s2 out d M k0 ks' o1. sinter_lookup store i ks s = Some (SetsFound s1)
      \<and> List.map_filter id (qs (qsortCompareSetsByCardinality i s1) (map Some ks)) = k0 # ks' \<and> get_set i k0 s1 = Some o1
      \<and> sinter_loop addr0 addr1 store i k0 ks' (setTypeInitIterator o1) [] createIntsetObject s1 = Some (s2, out, d)
      \<and> performs c i s s2 M (vttl i s) {} [] \<and> same_sets i s M \<and> set_ok (sv_env s) d
      \<and> (store \<longrightarrow> set_elems d = ?V) \<and> (\<not> store \<longrightarrow> distinct (map str_bytes out) \<and> str_bytes ` set out = ?V)" for store
  proof -
    obtain s1 where s1: "sinter_lookup store i ks s = Some (SetsFound s1)" "quiet s s1" "\<forall>k\<in>set ks. settled i s1 k"
      using sinter_lookup_spec [OF assms(1) il sets, of store] all by auto
    note q = quietD [OF s1(2)]
    obtain k0 ks' where k: "List.map_filter id (qs (qsortCompareSetsByCardinality i s1) (map Some ks)) = k0 # ks'" "set (k0 # ks') = set ks"
      using mset_map_Some [of "qs (qsortCompareSetsByCardinality i s1) (map Some ks)" ks] qs ks unfolding permutes_keys_def by (metis neq_Nil_conv)
    have get: "\<exists>o1. get_set i k s1 = Some o1 \<and> set_ok (sv_env s1) o1 \<and> set_elems o1 = vis_set i s k" if "k \<in> set (k0 # ks')" for k
      using settled_ok [OF s1(2) il] s1(3) sets all that unfolding k(2) by blast
    obtain o1 where o: "get_set i k0 s1 = Some o1" "set_ok (sv_env s1) o1" "set_elems o1 = vis_set i s k0" using get [of k0] by auto
    have sok: "sets_ok i s1 (map Some ks')" using get by (auto simp: sets_ok_def)
    have of: "setof i s1 (Some k) = vis_set i s k" if "k \<in> set (k0 # ks')" for k
    proof -
      from get [OF that] obtain o2 where "get_set i k s1 = Some o2" "set_elems o2 = vis_set i s k" by blast
      then show ?thesis by simp
    qed
    note init = elems_left_init [OF o(2)]
    have len: "i < length (sv_dbs s1)" "set_max_intset_entries (sv_env s1) < 2 ^ 29 - 1" using q(3,6) il max by simp_all
    have bound: "card (set_elems createIntsetObject) + length (elems_left o1 (setTypeInitIterator o1)) \<le> 2 ^ 30"
      using init(3) set_card_limit [OF o(2) len(2)] by (simp add: empty_set_ok(2))
    obtain s2 out d where s2: "sinter_loop addr0 addr1 store i k0 ks' (setTypeInitIterator o1) [] createIntsetObject s1 = Some (s2, out, d)" "touched i k0 s1 s2"
        "\<not> store \<longrightarrow> map str_bytes out = filter (\<lambda>b. \<forall>k\<in>set ks'. b \<in> setof i s1 (Some k)) (map elem_bytes (elems_left o1 (setTypeInitIterator o1)))"
        "set_ok (sv_env s1) d" "store \<longrightarrow> set_elems d = {b \<in> elem_bytes ` set (elems_left o1 (setTypeInitIterator o1)). \<forall>k\<in>set ks'. b \<in> setof i s1 (Some k)}"
    proof -
      have "elem_bytes ` set (elems_left o1 (setTypeInitIterator o1)) \<subseteq> set_elems o1" using init(2) by simp
      from sinter_loop_spec [OF len(1) o(1,2) elems_left_init(1) [OF o(2), of addr0 addr1] sok empty_set_ok(1) len(2) bound this, where store = store and out = "[]"]
      show ?thesis unfolding empty_set_ok(2) Un_empty_left list.map(1) append_Nil by (elim exE conjE) (rule that; assumption)
    qed
    have V: "{b \<in> set_elems o1. \<forall>k\<in>set ks'. b \<in> setof i s1 (Some k)} = ?V" using of o(3) unfolding k(2) [symmetric] by auto
    have dist: "distinct (map str_bytes out)" "str_bytes ` set out = ?V" if "\<not> store"
    proof -
      have eq: "map str_bytes out = filter (\<lambda>b. \<forall>k\<in>set ks'. b \<in> setof i s1 (Some k)) (map elem_bytes (elems_left o1 (setTypeInitIterator o1)))"
        using s2(3) that by blast
      show "distinct (map str_bytes out)" unfolding eq by (rule distinct_filter [OF init(4)])
      have "set (map str_bytes out) = {b \<in> set_elems o1. \<forall>k\<in>set ks'. b \<in> setof i s1 (Some k)}" unfolding eq using init(2) by auto
      then show "str_bytes ` set out = ?V" using V by simp
    qed
    obtain M where "performs c i s s2 M (vttl i s) {} []" "same_sets i s M" using quiet_touched [OF s1(2) s2(2) il] by blast
    moreover have "store \<longrightarrow> set_elems d = ?V" using s2(5) unfolding init(2) V .
    moreover have "set_ok (sv_env s) d" using s2(4) q(3) by simp
    ultimately show ?thesis using s1(1) k(1) o(1) s2(1) dist
      by (intro exI [of _ s1] exI [of _ s2] exI [of _ out] exI [of _ d] exI [of _ M] exI [of _ k0] exI [of _ ks'] exI [of _ o1]) (intro conjI impI; assumption?; simp)
  qed
  show "answers c i s (sinterGenericCommand qs addr0 addr1 ks None c s) ?V"
  proof -
    obtain s1 s2 out d M k0 ks' o1 where h: "sinter_lookup False i ks s = Some (SetsFound s1)"
        "List.map_filter id (qs (qsortCompareSetsByCardinality i s1) (map Some ks)) = k0 # ks'" "get_set i k0 s1 = Some o1"
        "sinter_loop addr0 addr1 False i k0 ks' (setTypeInitIterator o1) [] createIntsetObject s1 = Some (s2, out, d)"
        "performs c i s s2 M (vttl i s) {} []" "same_sets i s M" "distinct (map str_bytes out)" "str_bytes ` set out = ?V"
      using core [of False] unfolding not_False_eq_True simp_thms by (elim exE conjE) (rule that; assumption)
    have run: "sinterGenericCommand qs addr0 addr1 ks None c s = Some (send_set c (map str_bytes out) s2)"
      using h(1-4) by (simp add: sinterGenericCommand_def i [symmetric])
    show ?thesis
      using run performs_replies [OF performs_reply_after [OF h(5), of "MultiBulkLen (length out)"], where f = Bulk and ks = "map str_bytes out"] h(6-8)
      unfolding answers_def by (intro exI [of _ "send_set c (map str_bytes out) s2"] exI [of _ M] exI [of _ "map str_bytes out"]) (simp add: send_set_def)
  qed
  show "stores c i s (sinterGenericCommand qs addr0 addr1 ks (Some dst) c s) dst ?V"
  proof -
    obtain s1 s2 out d M k0 ks' o1 where h: "sinter_lookup True i ks s = Some (SetsFound s1)"
        "List.map_filter id (qs (qsortCompareSetsByCardinality i s1) (map Some ks)) = k0 # ks'" "get_set i k0 s1 = Some o1"
        "sinter_loop addr0 addr1 True i k0 ks' (setTypeInitIterator o1) [] createIntsetObject s1 = Some (s2, out, d)"
        "performs c i s s2 M (vttl i s) {} []" "same_sets i s M" "set_ok (sv_env s) d" "set_elems d = ?V"
      using core [of True] unfolding not_True_eq_False simp_thms by (elim exE conjE) (rule that; assumption)
    have run: "sinterGenericCommand qs addr0 addr1 ks (Some dst) c s = store_set ''sinterstore'' i dst d c s2"
      using h(1-4) by (simp add: sinterGenericCommand_def i [symmetric])
    show ?thesis unfolding run by (rule store_set_stores [OF h(5) il h(7,6,8)])
  qed
qed

text \<open>With a missing key the intersection is empty, whatever the other keys hold.\<close>

lemma sinter_missing:
  assumes "server_ok s" and i: "i = cur_db c s" and sets: "\<forall>k\<in>set ks. none_or_set (vis i s k)" and miss: "\<exists>k\<in>set ks. vis i s k = None"
  shows "answers c i s (sinterGenericCommand qs addr0 addr1 ks None c s) {}" "stores c i s (sinterGenericCommand qs addr0 addr1 ks (Some dst) c s) dst {}"
proof -
  have il: "i < length (sv_dbs s)" using server_ok_cur [OF assms(1)] by (simp add: i)
  have core: "\<exists>s1. sinter_lookup store i ks s = Some (SetsMissing s1) \<and> quiet s s1" for store
    using sinter_lookup_spec [OF assms(1) il sets, of store] miss by (auto split: if_splits)
  obtain s1 where s1: "sinter_lookup False i ks s = Some (SetsMissing s1)" "quiet s s1" using core by blast
  then have "sinterGenericCommand qs addr0 addr1 ks None c s = Some (addReply c (MultiBulkLen 0) s1)" by (simp add: sinterGenericCommand_def i [symmetric])
  then show "answers c i s (sinterGenericCommand qs addr0 addr1 ks None c s) {}"
    using performs_reply_after [OF performs_quiet [OF s1(2)], of c i "MultiBulkLen 0"]
    unfolding answers_def by (intro exI [of _ "addReply c (MultiBulkLen 0) s1"] exI [of _ "vis i s"] exI [of _ "[]"]) simp
  obtain t1 where t1: "sinter_lookup True i ks s = Some (SetsMissing t1)" "quiet s t1" using core by blast
  let ?t2 = "fst (dbDelete i dst t1)" and ?b = "dbExists i dst t1"
  let ?t3 = "if ?b then add_dirty 1 (signalModifiedKey i dst ?t2) else ?t2"
  have p2: "performs c i s ?t2 ((vis i s)(dst := None)) ((vttl i s)(dst := None)) {} []" by (rule performs_delete_after [OF performs_quiet [OF t1(2)] il])
  have p3: "performs c i s ?t3 ((vis i s)(dst := None)) ((vttl i s)(dst := None)) (if ?b then {dst} else {}) []"
    using p2 performs_dirty_after [OF performs_signal_after [OF p2]] by simp
  have run: "sinterGenericCommand qs addr0 addr1 ks (Some dst) c s = Some (addReply c (IntReply 0) ?t3)"
    using t1(1) dbDelete_gone [of i dst t1] by (simp add: sinterGenericCommand_def i [symmetric] Let_def case_prod_beta)
  have ex: "?b" if "vis i s dst \<noteq> None" proof -
    have "vis i t1 dst \<noteq> None" using that quietD(7) [OF t1(2), of i] by simp
    then show ?thesis by (auto simp: vis_def dbExists_def split: if_splits)
  qed
  show "stores c i s (sinterGenericCommand qs addr0 addr1 ks (Some dst) c s) dst {}"
    unfolding stores_def
    using run performs_reply_after [OF p3, of "IntReply 0"] ex empty_set_ok(2)
    by (intro exI [of _ "addReply c (IntReply 0) ?t3"] exI [of _ "vis i s"] exI [of _ createIntsetObject] exI [of _ "if ?b then {dst} else {}"]) simp
qed

lemma sinter_all:
  assumes "server_ok s" "i = cur_db c s" "ks \<noteq> []" "\<forall>k\<in>set ks. none_or_set (vis i s k)"
    "set_max_intset_entries (sv_env s) < 2 ^ 29 - 1" "permutes_keys qs"
  shows sinter_answers: "answers c i s (sinterGenericCommand qs addr0 addr1 ks None c s) (\<Inter>k\<in>set ks. vis_set i s k)"
    and sinter_stores: "stores c i s (sinterGenericCommand qs addr0 addr1 ks (Some dst) c s) dst (\<Inter>k\<in>set ks. vis_set i s k)"
proof (atomize(full), cases "\<forall>k\<in>set ks. vis i s k \<noteq> None")
  case True
  then show "answers c i s (sinterGenericCommand qs addr0 addr1 ks None c s) (\<Inter>k\<in>set ks. vis_set i s k)
      \<and> stores c i s (sinterGenericCommand qs addr0 addr1 ks (Some dst) c s) dst (\<Inter>k\<in>set ks. vis_set i s k)"
    using sinter_spec [OF assms] by blast
next
  case False
  then obtain k where k: "k \<in> set ks" "vis i s k = None" by blast
  then have "vis_set i s k = {}" by (simp add: vis_set_def)
  then have none: "(\<Inter>k\<in>set ks. vis_set i s k) = {}" using k(1) by blast
  have "\<exists>k\<in>set ks. vis i s k = None" using k by blast
  from sinter_missing [OF assms(1,2,4) this] show "answers c i s (sinterGenericCommand qs addr0 addr1 ks None c s) (\<Inter>k\<in>set ks. vis_set i s k)
      \<and> stores c i s (sinterGenericCommand qs addr0 addr1 ks (Some dst) c s) dst (\<Inter>k\<in>set ks. vis_set i s k)"
    unfolding none by blast
qed

section \<open>Single elements\<close>

lemma arg_elem: "sobj_ok (tryObjectEncoding (createStringObject v))" "str_bytes (tryObjectEncoding (createStringObject v)) = v"
  by simp_all

lemma sadd_loop_spec:
  assumes "set_ok env o1" "set_max_intset_entries env < 2 ^ 29 - 1" "card (set_elems o1 \<union> set vs) < 2 ^ 30"
  shows "\<exists>o2. sadd_loop env vs o1 n = Some (o2, n + card (set vs - set_elems o1)) \<and> set_ok env o2 \<and> set_elems o2 = set_elems o1 \<union> set vs"
  using assms(1,3)
proof (induction vs arbitrary: o1 n)
  case Nil
  then show ?case by simp
next
  case (Cons v vs)
  have fin: "finite (set_elems o1)" by (rule finite_set_elems [OF Cons.prems(1)])
  have "card (set_elems o1) \<le> card (set_elems o1 \<union> set (v # vs))" using fin by (intro card_mono) auto
  then have "card (set_elems o1) < set_limit" using Cons.prems(2) by (simp add: set_limit_def)
  then obtain o2 where o: "setTypeAdd env o1 (tryObjectEncoding (createStringObject v)) = Some (o2, v \<notin> set_elems o1)" "set_ok env o2" "set_elems o2 = insert v (set_elems o1)"
    using setTypeAdd_spec [OF Cons.prems(1) arg_elem(1) _ assms(2), of v] arg_elem(2) [of v] by auto
  have "card (set_elems o2 \<union> set vs) < 2 ^ 30" using Cons.prems(2) unfolding o(3) by simp
  then obtain o3 where "sadd_loop env vs o2 (if v \<notin> set_elems o1 then n + 1 else n) = Some (o3, (if v \<notin> set_elems o1 then n + 1 else n) + card (set vs - set_elems o2))"
      "set_ok env o3" "set_elems o3 = set_elems o2 \<union> set vs"
    using Cons.IH [OF o(2)] by blast
  moreover have "card (set (v # vs) - set_elems o1) = (if v \<notin> set_elems o1 then 1 else 0) + card (set vs - set_elems o2)"
  proof (cases "v \<in> set_elems o1")
    case True
    then have "set (v # vs) - set_elems o1 = set vs - set_elems o2" using o(3) by auto
    then show ?thesis using True by simp
  next
    case False
    then have "set (v # vs) - set_elems o1 = insert v (set vs - set_elems o2)" "v \<notin> set vs - set_elems o2" using o(3) by auto
    then show ?thesis using False by simp
  qed
  ultimately show ?case using o(1,3) by (auto split: if_splits)
qed

lemma srem_loop_spec:
  assumes "set_ok env o1" "set_elems o1 \<noteq> {}"
  shows "\<exists>o2. srem_loop env vs o1 n = Some (o2, n + card (set_elems o1 \<inter> set vs), set_elems o1 \<subseteq> set vs) \<and> set_ok env o2 \<and> set_elems o2 = set_elems o1 - set vs"
  using assms
proof (induction vs arbitrary: o1 n)
  case Nil
  then show ?case by simp
next
  case (Cons v vs)
  have fin: "finite (set_elems o1)" by (rule finite_set_elems [OF Cons.prems(1)])
  obtain o2 where o: "setTypeRemove env o1 (createStringObject v) = Some (o2, v \<in> set_elems o1)" "set_ok env o2" "set_elems o2 = set_elems o1 - {v}"
    using setTypeRemove_spec [OF Cons.prems(1), of "createStringObject v"] by auto
  have size: "setTypeSize o2 = 0 \<longleftrightarrow> set_elems o1 - {v} = {}" using card_size [OF o(2)] o(3) fin by simp
  show ?case
  proof (cases "v \<in> set_elems o1")
    case False
    then have e: "set_elems o2 = set_elems o1" "set_elems o1 \<inter> set (v # vs) = set_elems o1 \<inter> set vs" "set_elems o1 - set (v # vs) = set_elems o1 - set vs"
        "set_elems o1 \<subseteq> set (v # vs) \<longleftrightarrow> set_elems o1 \<subseteq> set vs" using o(3) by auto
    from Cons.IH [OF o(2), of n] show ?thesis using Cons.prems(2) o(1) False unfolding e by auto
  next
    case True
    have meet: "set_elems o1 \<inter> set (v # vs) = insert v (set_elems o2 \<inter> set vs)" "v \<notin> set_elems o2 \<inter> set vs" "set_elems o1 - set (v # vs) = set_elems o2 - set vs"
        "set_elems o1 \<subseteq> set (v # vs) \<longleftrightarrow> set_elems o2 \<subseteq> set vs"
      using True o(3) by auto
    then have card: "card (set_elems o1 \<inter> set (v # vs)) = Suc (card (set_elems o2 \<inter> set vs))" by simp
    show ?thesis
    proof (cases "set_elems o2 = {}")
      case True
      then show ?thesis using \<open>v \<in> set_elems o1\<close> o size card meet(3,4) by auto
    next
      case False
      from Cons.IH [OF o(2) this, of "n + 1"] show ?thesis
        using \<open>v \<in> set_elems o1\<close> o(1,3) size False unfolding card meet(3,4) by auto
    qed
  qed
qed

lemma put_twice: "put_key i k v (put_key i k w s) = put_key i k v s"
  by (cases "i < length (sv_dbs s)") (simp_all add: put_key_def upd_db_def list_update_beyond)

lemma vis_set_cases:
  assumes "server_ok s" "i < length (sv_dbs s)" "none_or_set (vis i s k)"
  shows "(vis i s k = None \<and> vis_set i s k = {}) \<or> (\<exists>o1. vis i s k = Some (SetObj o1) \<and> set_ok (sv_env s) o1 \<and> vis_set i s k = set_elems o1 \<and> set_elems o1 \<noteq> {})"
proof (cases "vis i s k")
  case (Some v)
  then obtain o1 where o: "vis i s k = Some (SetObj o1)" using assms(3) by (auto simp: none_or_set_def elim!: is_set.elims)
  then have "db_dict (get_db i s) k = Some (SetObj o1)" by (auto simp: vis_def split: if_splits)
  from server_okD(3) [OF assms(1,2) this] show ?thesis using o by (auto simp: vis_set_def)
qed (simp add: vis_set_def)

lemma set_create_ok:
  "set_ok env (setTypeCreate value)" "set_elems (setTypeCreate value) = {}"
proof -
  have "dict_ok (env_hash env) (dictCreate :: (u8 list, unit) dict)" "dict_map (dictCreate :: (u8 list, unit) dict) = Map.empty" by (rule dictCreate_ok)+
  then show "set_ok env (setTypeCreate value)" "set_elems (setTypeCreate value) = {}"
    using empty_set_ok by (simp_all add: dictCreate_indexable setTypeCreate_def createSetObject_def)
qed

lemma sadd_spec:
  assumes "server_ok s" and i: "i = cur_db c s" and k: "k = argv ! 1" and v: "none_or_set (vis i s k)" and max: "set_max_intset_entries (sv_env s) < 2 ^ 29 - 1"
    and vs: "vs = drop 2 argv" "vs \<noteq> []" and few: "card (vis_set i s k \<union> set vs) < 2 ^ 30"
  shows "\<exists>s' d. saddCommand c argv s = Some s' \<and> set_elems d = vis_set i s k \<union> set vs
    \<and> performs c i s s' ((vis i s)(k \<mapsto> SetObj d)) (vttl i s) (if set vs \<subseteq> vis_set i s k then {} else {k}) [IntReply (int (card (set vs - vis_set i s k)))]"
proof -
  have il: "i < length (sv_dbs s)" using server_ok_cur [OF assms(1)] by (simp add: i)
  obtain s1 where s1: "lookupKeyWrite i k s = Some (s1, vis i s k)" "looked_up c i k s s1" using looked_up_write [OF assms(1) il] by blast
  note l = looked_upD [OF s1(2)]
  let ?A = "vis_set i s k"
  let ?o = "case vis i s k of Some (SetObj o1) \<Rightarrow> o1 | _ \<Rightarrow> setTypeCreate (createStringObject (argv ! 2))"
  have o: "set_ok (sv_env s) ?o" "set_elems ?o = ?A" using vis_set_cases [OF assms(1) il v] set_create_ok by auto
  obtain d where d: "sadd_loop (sv_env s) vs ?o 0 = Some (d, card (set vs - ?A))" "set_ok (sv_env s) d" "set_elems d = ?A \<union> set vs"
    using sadd_loop_spec [OF o(1) max, of vs 0] few unfolding o(2) by auto
  let ?s3 = "put_set i k d s1"
  let ?s4 = "if card (set vs - ?A) > 0 then notifyKeyspaceEvent NOTIFY_SET ''sadd'' k i (signalModifiedKey i k ?s3) else ?s3"
  have run: "saddCommand c argv s = Some (addReply c (IntReply (int (card (set vs - ?A)))) (add_dirty (int (card (set vs - ?A))) ?s4))"
  proof (cases "vis i s k = None")
    case True
    have "dbAdd i k (SetObj (setTypeCreate (createStringObject (argv ! 2)))) s1 = Some (put_set i k (setTypeCreate (createStringObject (argv ! 2))) s1)"
      using l(5) True by (simp add: dbAdd_def)
    then show ?thesis using s1(1) d(1) True unfolding saddCommand_def Let_def i [symmetric] k [symmetric] vs(1) [symmetric] by (simp add: put_twice card_gt_0_iff)
  next
    case False
    then obtain o1 where "vis i s k = Some (SetObj o1)" using vis_set_cases [OF assms(1) il v] by auto
    then show ?thesis using s1(1) d(1) unfolding saddCommand_def Let_def i [symmetric] k [symmetric] vs(1) [symmetric] by (simp add: card_gt_0_iff)
  qed
  have "val_ok (sv_env s1) (SetObj d)" using d(2,3) vs(2) l(8) by auto
  then have "performs c i s1 ?s3 ((vis i s1)(k \<mapsto> SetObj d)) (vttl i s1) {} []" by (rule performs_put [OF l(2-4)])
  then have p3: "performs c i s ?s3 ((vis i s)(k \<mapsto> SetObj d)) (vttl i s) {} []" using performs_trans [OF l(1)] l(6,7) by fastforce
  have new: "card (set vs - ?A) > 0 \<longleftrightarrow> \<not> set vs \<subseteq> ?A" by (auto simp: card_gt_0_iff)
  have "performs c i s ?s4 ((vis i s)(k \<mapsto> SetObj d)) (vttl i s) (if set vs \<subseteq> ?A then {} else {k}) []"
    using p3 performs_notify_after [OF performs_signal_after [OF p3]] unfolding new by simp
  from performs_reply_after [OF performs_dirty_after [OF this]] show ?thesis using run d(3) unfolding append_Nil by blast
qed

lemma srem_spec:
  assumes "server_ok s" and i: "i = cur_db c s" and k: "k = argv ! 1" and v: "none_or_set (vis i s k)" and vs: "vs = drop 2 argv"
  shows "\<exists>s' d. sremCommand c argv s = Some s' \<and> set_elems d = vis_set i s k - set vs
    \<and> performs c i s s' ((vis i s)(k := if vis_set i s k \<subseteq> set vs then None else Some (SetObj d)))
        (if vis_set i s k \<subseteq> set vs then (vttl i s)(k := None) else vttl i s) (if vis_set i s k \<inter> set vs = {} then {} else {k})
        [IntReply (int (card (vis_set i s k \<inter> set vs)))]"
proof -
  have il: "i < length (sv_dbs s)" using server_ok_cur [OF assms(1)] by (simp add: i)
  obtain s1 where s1: "lookupKeyWriteOrReply c k (IntReply 0) s = Some (if vis i s k = None then addReply c (IntReply 0) s1 else s1, vis i s k)" "looked_up c i k s s1"
    using write_or_reply [OF assms(1), of c k "IntReply 0"] unfolding i by blast
  note l = looked_upD [OF s1(2)]
  let ?A = "vis_set i s k"
  from vis_set_cases [OF assms(1) il v] show ?thesis
  proof
    assume n: "vis i s k = None \<and> ?A = {}"
    then have "vttl i s k = None" using vttl_vis [OF assms(1) il] by simp
    then have "(vis i s)(k := None) = vis i s" "(vttl i s)(k := None) = vttl i s" using n by (simp_all add: fun_upd_idem)
    moreover have "sremCommand c argv s = Some (addReply c (IntReply 0) s1)"
      using s1(1) n unfolding sremCommand_def Let_def i [symmetric] k [symmetric] by simp
    ultimately show ?thesis using performs_reply_after [OF l(1), of "IntReply 0"] n set_create_ok(2)
      by (intro exI [of _ "addReply c (IntReply 0) s1"] exI [of _ "setTypeCreate (createStringObject [])"]) simp
  next
    assume "\<exists>o1. vis i s k = Some (SetObj o1) \<and> set_ok (sv_env s) o1 \<and> ?A = set_elems o1 \<and> set_elems o1 \<noteq> {}"
    then obtain o1 where o: "vis i s k = Some (SetObj o1)" "set_ok (sv_env s) o1" "?A = set_elems o1" "set_elems o1 \<noteq> {}" by blast
    obtain d where d: "srem_loop (sv_env s) vs o1 0 = Some (d, card (?A \<inter> set vs), ?A \<subseteq> set vs)" "set_ok (sv_env s) d" "set_elems d = ?A - set vs"
      using srem_loop_spec [OF o(2,4), of vs 0] unfolding o(3) by auto
    let ?all = "?A \<subseteq> set vs" and ?n = "card (?A \<inter> set vs)"
    let ?M = "(vis i s)(k := if ?all then None else Some (SetObj d))" and ?T = "if ?all then (vttl i s)(k := None) else vttl i s"
    let ?s2 = "if ?all then fst (dbDelete i k s1) else put_set i k d s1"
    let ?t1 = "notifyKeyspaceEvent NOTIFY_SET ''srem'' k i (signalModifiedKey i k ?s2)"
    let ?t2 = "if ?all then notifyKeyspaceEvent NOTIFY_GENERIC ''del'' k i ?t1 else ?t1"
    let ?s3 = "if ?n > 0 then add_dirty (int ?n) ?t2 else ?s2"
    have run: "sremCommand c argv s = Some (addReply c (IntReply (int ?n)) ?s3)"
      using s1(1) o(1) d(1) unfolding sremCommand_def Let_def i [symmetric] k [symmetric] vs [symmetric] by simp
    have p2: "performs c i s ?s2 ?M ?T {} []"
    proof (cases ?all)
      case True
      then show ?thesis using performs_delete_after [OF l(1) il, of k] by simp
    next
      case False
      then have "val_ok (sv_env s1) (SetObj d)" using d(2,3) l(8) by auto
      from performs_trans [OF l(1) performs_put [OF l(2-4) this]] show ?thesis using False l(6,7) by simp
    qed
    have p3: "performs c i s ?t2 ?M ?T {k} []"
      using performs_notify_after [OF performs_signal_after [OF p2, of k]] performs_notify_after [OF performs_notify_after [OF performs_signal_after [OF p2, of k]]]
      by (cases ?all) (simp_all only: if_True if_False)
    have fin: "finite ?A" using finite_set_elems [OF o(2)] o(3) by simp
    have pos: "?n > 0 \<longleftrightarrow> ?A \<inter> set vs \<noteq> {}" using fin by (simp add: card_gt_0_iff)
    have "performs c i s ?s3 ?M ?T (if ?A \<inter> set vs = {} then {} else {k}) []"
    proof (cases "?A \<inter> set vs = {}")
      case True
      then have "\<not> ?n > 0" using pos by blast
      then show ?thesis unfolding if_P [OF True] using p2 by (simp only: if_False)
    next
      case False
      then have "?n > 0" using pos by blast
      then show ?thesis unfolding if_not_P [OF False] using performs_dirty_after [OF p3] by (simp only: if_True)
    qed
    from performs_reply_after [OF this] show ?thesis using run d(3) unfolding append_Nil by blast
  qed
qed

section \<open>SISMEMBER and SCARD\<close>

lemma performs_reread:
  assumes "looked_up c i k s s1" "vis i s k = Some (SetObj o1)" "set_ok (sv_env s) o2" "set_elems o2 = set_elems o1" "set_elems o1 \<noteq> {}"
  shows "\<exists>M. performs c i s (put_set i k o2 s1) M (vttl i s) {} [] \<and> same_sets i s M"
proof -
  note l = looked_upD [OF assms(1)]
  have "val_ok (sv_env s1) (SetObj o2)" using assms(3-5) l(8) by simp
  from performs_trans [OF l(1) performs_put [OF l(2-4) this]]
  have "performs c i s (put_set i k o2 s1) ((vis i s)(k \<mapsto> SetObj o2)) (vttl i s) {} []" using l(6,7) by simp
  moreover have "same_sets i s ((vis i s)(k \<mapsto> SetObj o2))" using assms(2-4) by (auto simp: same_sets_def resembles_def)
  ultimately show ?thesis by blast
qed

lemma sismember_spec:
  assumes "server_ok s" and i: "i = cur_db c s" and k: "k = argv ! 1" and v: "none_or_set (vis i s k)"
  shows "\<exists>s' M. sismemberCommand c argv s = Some s' \<and> same_sets i s M
    \<and> performs c i s s' M (vttl i s) {} [IntReply (if argv ! 2 \<in> vis_set i s k then 1 else 0)]"
proof -
  have il: "i < length (sv_dbs s)" using server_ok_cur [OF assms(1)] by (simp add: i)
  obtain s1 where s1: "lookupKeyReadOrReply c k (IntReply 0) s = Some (if vis i s k = None then addReply c (IntReply 0) s1 else s1, vis i s k)" "looked_up c i k s s1"
    using read_or_reply [OF assms(1), of c k "IntReply 0"] unfolding i by blast
  from vis_set_cases [OF assms(1) il v] show ?thesis
  proof
    assume n: "vis i s k = None \<and> vis_set i s k = {}"
    then have "sismemberCommand c argv s = Some (addReply c (IntReply 0) s1)" using s1(1) unfolding sismemberCommand_def k [symmetric] by simp
    then show ?thesis using performs_looked_reply [OF s1(2), of "IntReply 0"] n
      by (intro exI [of _ "addReply c (IntReply 0) s1"] exI [of _ "vis i s"]) simp
  next
    assume "\<exists>o1. vis i s k = Some (SetObj o1) \<and> set_ok (sv_env s) o1 \<and> vis_set i s k = set_elems o1 \<and> set_elems o1 \<noteq> {}"
    then obtain o1 where o: "vis i s k = Some (SetObj o1)" "set_ok (sv_env s) o1" "vis_set i s k = set_elems o1" "set_elems o1 \<noteq> {}" by blast
    obtain o2 where m: "setTypeIsMember (sv_env s) o1 (tryObjectEncoding (createStringObject (argv ! 2))) = Some (o2, argv ! 2 \<in> set_elems o1)"
        "set_ok (sv_env s) o2" "set_elems o2 = set_elems o1"
      using setTypeIsMember_spec [OF o(2) arg_elem(1), of "argv ! 2"] unfolding arg_elem(2) by blast
    obtain M where M: "performs c i s (put_set i k o2 s1) M (vttl i s) {} []" "same_sets i s M" using performs_reread [OF s1(2) o(1) m(2,3) o(4)] by blast
    have "sismemberCommand c argv s = Some (addReply c (IntReply (if argv ! 2 \<in> vis_set i s k then 1 else 0)) (put_set i k o2 s1))"
      using s1(1) o(1,3) m(1) unfolding sismemberCommand_def k [symmetric] i [symmetric] by simp
    then show ?thesis using performs_reply_after [OF M(1)] M(2) unfolding append_Nil by blast
  qed
qed

lemma scard_spec:
  assumes "server_ok s" and i: "i = cur_db c s" and k: "k = argv ! 1" and v: "none_or_set (vis i s k)"
  shows "\<exists>s'. scardCommand c argv s = Some s' \<and> performs c i s s' (vis i s) (vttl i s) {} [IntReply (int (card (vis_set i s k)))]"
proof -
  have il: "i < length (sv_dbs s)" using server_ok_cur [OF assms(1)] by (simp add: i)
  obtain s1 where s1: "lookupKeyReadOrReply c k (IntReply 0) s = Some (if vis i s k = None then addReply c (IntReply 0) s1 else s1, vis i s k)" "looked_up c i k s s1"
    using read_or_reply [OF assms(1), of c k "IntReply 0"] unfolding i by blast
  have "scardCommand c argv s = Some (addReply c (IntReply (int (card (vis_set i s k)))) s1)"
    using vis_set_cases [OF assms(1) il v] s1(1) card_size unfolding scardCommand_def k [symmetric] by fastforce
  then show ?thesis using performs_looked_reply [OF s1(2)] by blast
qed

section \<open>SMOVE\<close>

lemma notify_put: "notifyKeyspaceEvent t e k j (put_key i k' v s) = put_key i k' v (notifyKeyspaceEvent t e k j s)"
  by (simp add: notifyKeyspaceEvent_def put_key_def upd_db_def)

lemma delete_put: "fst (dbDelete i k (put_key i k v s)) = fst (dbDelete i k s)"
  by (cases "i < length (sv_dbs s)") (simp_all add: dbDelete_def put_key_def upd_db_def list_update_beyond)

lemma lookupKeyWrite_others:
  assumes "server_ok s" "i < length (sv_dbs s)" "lookupKeyWrite i k s = Some (s', v)" "k' \<noteq> k" "\<not> expired i s k'"
  shows "\<not> expired i s' k'" "dbExists i k' s' = dbExists i k' s"
proof -
  obtain b where e: "expireIfNeeded i k s = Some (s', b)" using assms(3) by (auto simp: lookupKeyWrite_def split: Option.bind_splits)
  have "db_expires (get_db i s') k' = db_expires (get_db i s) k'"
    using e assms(2,4)
    by (auto simp: expireIfNeeded_def Let_def dbDelete_def get_db_upd notifyKeyspaceEvent_def propagateExpire_def
        split: Option.bind_splits if_splits option.splits)
  moreover have "quiet s s'" using expireIfNeeded_spec [OF assms(1,2), of k] e by auto
  ultimately show "\<not> expired i s' k'" using assms(5) expired_cong [where i = i and s' = s' and k = k' and s = s] quietD(11-13) by blast
  show "dbExists i k' s' = dbExists i k' s" using expireIfNeeded_others [OF e assms(2,4)] by (simp add: dbExists_def)
qed

text \<open>Both keys of SMOVE have been looked up.\<close>

lemma smove_lookups:
  assumes "server_ok s" "i < length (sv_dbs s)" "src \<noteq> dst"
  shows "\<exists>s1 s2. lookupKeyWrite i src s = Some (s1, vis i s src) \<and> lookupKeyWrite i dst s1 = Some (s2, vis i s dst) \<and> looked_up c i dst s s2
    \<and> \<not> expired i s2 src \<and> dbExists i src s2 = (vis i s src \<noteq> None)"
proof -
  obtain s1 where s1: "lookupKeyWrite i src s = Some (s1, vis i s src)" "looked_up c i src s s1" using looked_up_write [OF assms(1,2)] by blast
  note l1 = looked_upD [OF s1(2)]
  obtain s2 where s2: "lookupKeyWrite i dst s1 = Some (s2, vis i s1 dst)" "looked_up c i dst s1 s2" using looked_up_write [OF l1(2,3)] by blast
  note l2 = looked_upD [OF s2(2)]
  have "looked_up c i dst s s2"
    using performs_trans [OF l1(1) l2(1)] l1(5-8) l2(2-8) by (simp add: looked_up_def)
  then show ?thesis using s1(1) s2(1) l1(4,5,6) lookupKeyWrite_others [OF l1(2,3) s2(1) assms(3) l1(4)] by auto
qed

lemma smove_add_spec:
  assumes "performs c i s t M T K []" "i < length (sv_dbs s)" "\<not> expired i t dst" "dbExists i dst t = (dstset \<noteq> None)" "sobj_ok ele"
    and B: "B = (case dstset of Some o1 \<Rightarrow> o1 | None \<Rightarrow> setTypeCreate ele)" "set_ok (sv_env s) B" "card (set_elems B) < 2 ^ 30"
    and max: "set_max_intset_entries (sv_env s) < 2 ^ 29 - 1"
  shows "\<exists>t' d. smove_add i dst dstset ele c t = Some t' \<and> set_elems d = insert (str_bytes ele) (set_elems B) \<and> performs c i s t' (M(dst \<mapsto> SetObj d)) T K [IntReply 1]"
proof -
  note p = performsD [OF assms(1)]
  have "card (set_elems B) < set_limit" using B(3) by (simp add: set_limit_def)
  then obtain d where d: "setTypeAdd (sv_env s) B ele = Some (d, str_bytes ele \<notin> set_elems B)" "set_ok (sv_env s) d" "set_elems d = insert (str_bytes ele) (set_elems B)"
    using setTypeAdd_spec [OF B(2) assms(5) _ max] by blast
  let ?t2 = "put_set i dst d t"
  let ?t3 = "if str_bytes ele \<notin> set_elems B then notifyKeyspaceEvent NOTIFY_SET ''sadd'' dst i (add_dirty 1 ?t2) else ?t2"
  have run: "smove_add i dst dstset ele c t = Some (addReply c (IntReply 1) ?t3)"
  proof (cases dstset)
    case None
    then show ?thesis using d(1) B(1) assms(4) p(10) by (simp add: smove_add_def dbAdd_def put_twice Let_def)
  next
    case (Some o1)
    then show ?thesis using d(1) B(1) p(10) by (simp add: smove_add_def Let_def)
  qed
  have "val_ok (sv_env t) (SetObj d)" using d(2,3) p(10) by simp
  then have "performs c i t ?t2 ((vis i t)(dst \<mapsto> SetObj d)) (vttl i t) {} []" using performs_put [OF p(1) _ assms(3)] p(4) assms(2) by simp
  from performs_trans [OF assms(1) this] have p2: "performs c i s ?t2 (M(dst \<mapsto> SetObj d)) T K []" using p(2,3) by simp
  have "performs c i s ?t3 (M(dst \<mapsto> SetObj d)) T K []" using p2 performs_notify_after [OF performs_dirty_after [OF p2]] by simp
  from performs_reply_after [OF this] show ?thesis using run d(3) unfolding append_Nil by blast
qed

text \<open>Removing an element from the source, and the source with its last one.\<close>

definition smove_removed :: "nat \<Rightarrow> key \<Rightarrow> key \<Rightarrow> setobj \<Rightarrow> server \<Rightarrow> server" where
  "smove_removed i src dst o1 s =
     (let s1 = notifyKeyspaceEvent NOTIFY_SET ''srem'' src i (put_set i src o1 s);
          s2 = (if setTypeSize o1 = 0 then notifyKeyspaceEvent NOTIFY_GENERIC ''del'' src i (fst (dbDelete i src s1)) else s1)
      in add_dirty 1 (signalModifiedKey i dst (signalModifiedKey i src s2)))"

lemma smove_removed_spec:
  assumes "looked_up c i dst s s2" "i < length (sv_dbs s)" "\<not> expired i s2 src" "src \<noteq> dst" "set_ok (sv_env s) d"
  shows "performs c i s (smove_removed i src dst d s2) ((vis i s)(src := if set_elems d = {} then None else Some (SetObj d)))
      (if set_elems d = {} then (vttl i s)(src := None) else vttl i s) {src, dst} []"
    "\<not> expired i (smove_removed i src dst d s2) dst" "dbExists i dst (smove_removed i src dst d s2) = (vis i s dst \<noteq> None)"
proof -
  note l = looked_upD [OF assms(1)]
  have size: "setTypeSize d = 0 \<longleftrightarrow> set_elems d = {}" using card_size [OF assms(5)] finite_set_elems [OF assms(5)] by simp
  let ?M = "(vis i s)(src := if set_elems d = {} then None else Some (SetObj d))" and ?T = "if set_elems d = {} then (vttl i s)(src := None) else vttl i s"
  let ?s4 = "notifyKeyspaceEvent NOTIFY_SET ''srem'' src i (put_set i src d s2)"
  let ?s5 = "if setTypeSize d = 0 then notifyKeyspaceEvent NOTIFY_GENERIC ''del'' src i (fst (dbDelete i src ?s4)) else ?s4"
  let ?s6 = "add_dirty 1 (signalModifiedKey i dst (signalModifiedKey i src ?s5))"
  have s6: "smove_removed i src dst d s2 = ?s6" by (simp only: smove_removed_def Let_def)
  have p5: "performs c i s ?s5 ?M ?T {} []"
  proof (cases "set_elems d = {}")
    case True
    have "fst (dbDelete i src ?s4) = fst (dbDelete i src (notifyKeyspaceEvent NOTIFY_SET ''srem'' src i s2))" unfolding notify_put delete_put ..
    then show ?thesis using performs_notify_after [OF performs_delete_after [OF performs_notify_after [OF l(1)] assms(2)]] True size by simp
  next
    case False
    then have "val_ok (sv_env s2) (SetObj d)" using assms(5) l(8) by auto
    from performs_notify_after [OF performs_trans [OF l(1) performs_put [OF l(2,3) assms(3) this]]] show ?thesis using False size l(6,7) by simp
  qed
  show p6: "performs c i s (smove_removed i src dst d s2) ?M ?T {src, dst} []"
    using performs_dirty_after [OF performs_signal_after [OF performs_signal_after [OF p5, of src], of dst], of 1] unfolding s6 by (simp only: insert_commute)
  have "sv_dbs ?s6 = sv_dbs ?s5" using outerD(4) [OF outer_signal(1)] by (simp add: add_dirty_def)
  moreover have "db_dict (get_db i ?s5) dst = db_dict (get_db i s2) dst" "db_expires (get_db i ?s5) dst = db_expires (get_db i s2) dst"
    using l(3) assms(4) by (simp_all add: notifyKeyspaceEvent_def dbDelete_def put_key_def get_db_upd)
  ultimately have "db_dict (get_db i ?s6) dst = db_dict (get_db i s2) dst" "db_expires (get_db i ?s6) dst = db_expires (get_db i s2) dst" by simp_all
  then show "\<not> expired i (smove_removed i src dst d s2) dst" "dbExists i dst (smove_removed i src dst d s2) = (vis i s dst \<noteq> None)"
    using l(4,5) expired_cong [where i = i and s' = ?s6 and s = s2 and k = dst] performsD(7-9) [OF p6] performsD(7-9) [OF l(1)] unfolding s6 by (simp_all add: dbExists_def)
qed

lemma smove_spec:
  assumes "server_ok s" and i: "i = cur_db c s" and args: "src = argv ! 1" "dst = argv ! 2" "v = argv ! 3" and ne: "src \<noteq> dst"
    and sets: "none_or_set (vis i s src)" "none_or_set (vis i s dst)" and max: "set_max_intset_entries (sv_env s) < 2 ^ 29 - 1"
    and few: "card (vis_set i s dst) < 2 ^ 30" and mem: "v \<in> vis_set i s src"
  shows "\<exists>s' d1 d2. smoveCommand c argv s = Some s' \<and> set_elems d1 = vis_set i s src - {v} \<and> set_elems d2 = insert v (vis_set i s dst)
    \<and> performs c i s s' ((vis i s)(src := if vis_set i s src = {v} then None else Some (SetObj d1), dst \<mapsto> SetObj d2))
        (if vis_set i s src = {v} then (vttl i s)(src := None) else vttl i s) {src, dst} [IntReply 1]"
proof -
  let ?A = "vis_set i s src" and ?ele = "tryObjectEncoding (createStringObject v)"
  have il: "i < length (sv_dbs s)" using server_ok_cur [OF assms(1)] by (simp add: i)
  obtain s1 s2 where s2: "lookupKeyWrite i src s = Some (s1, vis i s src)" "lookupKeyWrite i dst s1 = Some (s2, vis i s dst)" "looked_up c i dst s s2" "\<not> expired i s2 src"
    using smove_lookups [OF assms(1) il ne] by blast
  obtain o1 where o: "vis i s src = Some (SetObj o1)" "set_ok (sv_env s) o1" "?A = set_elems o1" using vis_set_cases [OF assms(1) il sets(1)] mem by blast
  obtain d1 where d1: "setTypeRemove (sv_env s) o1 ?ele = Some (d1, v \<in> ?A)" "set_ok (sv_env s) d1" "set_elems d1 = ?A - {v}"
    using setTypeRemove_spec [OF o(2) arg_elem(1), of v] unfolding arg_elem(2) o(3) by blast
  let ?dst = "case vis i s dst of Some (SetObj o3) \<Rightarrow> Some o3 | _ \<Rightarrow> None"
  let ?B = "case ?dst of Some o3 \<Rightarrow> o3 | None \<Rightarrow> setTypeCreate ?ele"
  have B: "set_ok (sv_env s) ?B" "set_elems ?B = vis_set i s dst" "?dst \<noteq> None \<longleftrightarrow> vis i s dst \<noteq> None" "\<not> (vis i s dst \<noteq> None \<and> \<not> is_set (the (vis i s dst)))"
    using vis_set_cases [OF assms(1) il sets(2)] set_create_ok by auto
  have single: "set_elems d1 = {} \<longleftrightarrow> ?A = {v}" using mem unfolding d1(3) by blast
  note rem = smove_removed_spec [OF s2(3) il s2(4) ne d1(2), unfolded single]
  have run: "smoveCommand c argv s = smove_add i dst ?dst ?ele c (smove_removed i src dst d1 s2)"
    using s2(1,2) o(1) d1(1) mem B(4) ne unfolding smoveCommand_def Let_def i [symmetric] args [symmetric] smove_removed_def by auto
  have "\<exists>t' d. smove_add i dst ?dst ?ele c (smove_removed i src dst d1 s2) = Some t' \<and> set_elems d = insert (str_bytes ?ele) (set_elems ?B)
      \<and> performs c i s t' (((vis i s)(src := if ?A = {v} then None else Some (SetObj d1)))(dst \<mapsto> SetObj d)) (if ?A = {v} then (vttl i s)(src := None) else vttl i s) {src, dst} [IntReply 1]"
    using rem(3) B(3) few unfolding B(2) [symmetric] by (intro smove_add_spec [OF rem(1) il rem(2) _ arg_elem(1) refl B(1) _ max]) simp_all
  then show ?thesis using d1(3) unfolding run arg_elem(2) B(2) by blast
qed

text \<open>An element that is not in the source stays where it is.\<close>

lemma smove_absent:
  assumes "server_ok s" and i: "i = cur_db c s" and args: "src = argv ! 1" "dst = argv ! 2" "v = argv ! 3" and ne: "src \<noteq> dst"
    and sets: "none_or_set (vis i s src)" "none_or_set (vis i s dst)" and mem: "v \<notin> vis_set i s src"
  shows "\<exists>s' M. smoveCommand c argv s = Some s' \<and> same_sets i s M \<and> performs c i s s' M (vttl i s) {} [IntReply 0]"
proof -
  let ?ele = "tryObjectEncoding (createStringObject v)"
  have il: "i < length (sv_dbs s)" using server_ok_cur [OF assms(1)] by (simp add: i)
  obtain s1 s2 where s2: "lookupKeyWrite i src s = Some (s1, vis i s src)" "lookupKeyWrite i dst s1 = Some (s2, vis i s dst)" "looked_up c i dst s s2" "\<not> expired i s2 src"
      "dbExists i src s2 = (vis i s src \<noteq> None)"
    using smove_lookups [OF assms(1) il ne] by blast
  have B: "\<not> (vis i s dst \<noteq> None \<and> \<not> is_set (the (vis i s dst)))" using sets(2) by (auto simp: none_or_set_def)
  from vis_set_cases [OF assms(1) il sets(1)] show ?thesis
  proof
    assume n: "vis i s src = None \<and> vis_set i s src = {}"
    then have "smoveCommand c argv s = Some (addReply c (IntReply 0) s2)"
      using s2(1,2) unfolding smoveCommand_def Let_def i [symmetric] args [symmetric] by simp
    then show ?thesis using performs_looked_reply [OF s2(3), of "IntReply 0"] by (intro exI [of _ "addReply c (IntReply 0) s2"] exI [of _ "vis i s"]) simp
  next
    assume "\<exists>o1. vis i s src = Some (SetObj o1) \<and> set_ok (sv_env s) o1 \<and> vis_set i s src = set_elems o1 \<and> set_elems o1 \<noteq> {}"
    then obtain o1 where o: "vis i s src = Some (SetObj o1)" "set_ok (sv_env s) o1" "vis_set i s src = set_elems o1" "set_elems o1 \<noteq> {}" by blast
    obtain d1 where d1: "setTypeRemove (sv_env s) o1 ?ele = Some (d1, v \<in> set_elems o1)" "set_ok (sv_env s) d1" "set_elems d1 = set_elems o1 - {v}"
      using setTypeRemove_spec [OF o(2) arg_elem(1), of v] unfolding arg_elem(2) by blast
    have v: "v \<notin> set_elems o1" "set_elems d1 = set_elems o1" using mem o(3) d1(3) by auto
    have run: "smoveCommand c argv s = Some (addReply c (IntReply 0) (put_set i src d1 s2))"
      using s2(1,2) o(1) d1(1) v(1) B ne unfolding smoveCommand_def Let_def i [symmetric] args [symmetric] by auto
    have "looked_up c i src s s2" using looked_upD [OF s2(3)] s2(4,5) by (simp add: looked_up_def)
    then obtain M where "performs c i s (put_set i src d1 s2) M (vttl i s) {} []" "same_sets i s M" using performs_reread [OF _ o(1) d1(2) v(2) o(4)] by blast
    then show ?thesis using performs_reply_after run unfolding append_Nil by fastforce
  qed
qed

section \<open>Properties of the set commands\<close>

text \<open>C12: SINTER replies the elements that all of the sets have, SDIFF, by either algorithm, those of the first set
  that no other one has and SUNION those of any of them, each element once and with the right count in front; missing keys are
  empty sets. What the sets hold, the times to live and the watchers' marks stay as they are. The order in which \<^verbatim>\<open>qsort\<close>
  leaves the sets does not matter. The union has fewer than \<open>2\<^sup>3\<^sup>0\<close> elements, which a dictionary is known to take and an \<^verbatim>\<open>int\<close> to
  count; for the other two the sets themselves are within that bound.\<close>

theorem set_algebra_reply:
  assumes "server_ok s" "i = cur_db c s" "tl argv \<noteq> []" "\<forall>k\<in>set (tl argv). none_or_set (vis i s k)"
    "set_max_intset_entries (sv_env s) < 2 ^ 29 - 1" "permutes_keys qs"
  shows "answers c i s (sinterCommand qs addr0 addr1 c argv s) (\<Inter>k\<in>set (tl argv). vis_set i s k)
    \<and> answers c i s (sdiffCommand qs addr0 addr1 c argv s) (vis_set i s (argv ! 1) - (\<Union>k\<in>set (drop 2 argv). vis_set i s k))
    \<and> (card (\<Union>k\<in>set (tl argv). vis_set i s k) < 2 ^ 30 \<longrightarrow> answers c i s (sunionCommand qs addr0 addr1 c argv s) (\<Union>k\<in>set (tl argv). vis_set i s k))"
proof (intro conjI impI)
  obtain k ks where argv: "tl argv = k # ks" "argv ! 1 = k" "drop 2 argv = ks"
    using assms(3) by (cases argv rule: list.exhaust) (auto simp: neq_Nil_conv numeral_2_eq_2)
  show "answers c i s (sinterCommand qs addr0 addr1 c argv s) (\<Inter>k\<in>set (tl argv). vis_set i s k)"
    unfolding sinterCommand_def by (rule sinter_answers [OF assms])
  show "answers c i s (sdiffCommand qs addr0 addr1 c argv s) (vis_set i s (argv ! 1) - (\<Union>k\<in>set (drop 2 argv). vis_set i s k))"
    using sunionDiff_spec(1) [OF assms(1,2,4-6), of OP_DIFF addr0 addr1] unfolding sdiffCommand_def argv by simp
  show "answers c i s (sunionCommand qs addr0 addr1 c argv s) (\<Union>k\<in>set (tl argv). vis_set i s k)" if "card (\<Union>k\<in>set (tl argv). vis_set i s k) < 2 ^ 30"
    using sunionDiff_spec(1) [OF assms(1,2,4-6), of OP_UNION addr0 addr1] that unfolding sunionCommand_def by simp
qed

text \<open>Two sets, with 5 and 300 and with 300.\<close>

definition one_int :: intset where
  "one_int = \<lparr>is_encoding = 2, is_length = 1, is_contents = [44, 1]\<rparr>"

definition example_sets :: server where
  "example_sets =
     \<lparr>sv_dbs = [\<lparr>db_dict = [[97] \<mapsto> SetObj (SetIntset intset_example), [98] \<mapsto> SetObj (SetIntset one_int)],
                 db_expires = Map.empty, db_watched = Map.empty, db_blocking = {}, db_ready = {}\<rparr>],
      sv_clients = (\<lambda>_. \<lparr>cl_db = 0, cl_multi = False, cl_dirty_cas = False, cl_dirty_exec = False, cl_argv = [], cl_queue = [], cl_watched = [], cl_out = []\<rparr>),
      sv_client_ids = [], sv_ready_keys = [], sv_dirty = 0, sv_now = 1000, sv_lua = None, sv_loading = False, sv_slave = False, sv_hits = 0, sv_misses = 0,
      sv_expired = 0, sv_notify = 0, sv_published = [], sv_propagated = [], sv_env = example_env\<rparr>"

lemma one_int_set: "set_ok example_env (SetIntset one_int)" "set_elems (SetIntset one_int) = {ll_repr 300}"
proof -
  have "intset_vals one_int = [300]" by code_simp
  then show "set_ok example_env (SetIntset one_int)" "set_elems (SetIntset one_int) = {ll_repr 300}"
    by (simp_all add: intset_ok_def example_env_def default_env_def) (simp add: one_int_def)
qed

lemma example_sets_vis: "vis 0 example_sets = [[97] \<mapsto> SetObj (SetIntset intset_example), [98] \<mapsto> SetObj (SetIntset one_int)]"
  by (simp add: fun_eq_iff vis_def expired_def example_sets_def)

lemma example_sets_ok: "server_ok example_sets" "cur_db c example_sets = 0" "none_or_set (vis 0 example_sets k)" "vis_set 0 example_sets [97] = {ll_repr 5, ll_repr 300}"
    "vis_set 0 example_sets [98] = {ll_repr 300}" "set_max_intset_entries (sv_env example_sets) = 512"
proof -
  show "server_ok example_sets"
    using example_set_ok one_int_set by (auto simp: server_ok_def db_ok_def example_sets_def split: if_splits simp del: set_elems.simps set_ok.simps)
  show "none_or_set (vis 0 example_sets k)" by (simp add: example_sets_vis none_or_set_def)
  show "vis_set 0 example_sets [97] = {ll_repr 5, ll_repr 300}" "vis_set 0 example_sets [98] = {ll_repr 300}"
    using example_set_ok(2) one_int_set(2) by (simp_all add: vis_set_def example_sets_vis del: set_elems.simps)
qed (simp_all add: example_sets_def example_env_def default_env_def)

theorem set_algebra_reply_witness:
  "answers 0 0 example_sets (sinterCommand (\<lambda>_ xs. xs) 1 2 0 [[1], [97], [98]] example_sets) {ll_repr 300}
    \<and> answers 0 0 example_sets (sdiffCommand (\<lambda>_ xs. xs) 1 2 0 [[1], [97], [98]] example_sets) {ll_repr 5}"
proof -
  have "permutes_keys (\<lambda>_ xs. xs)" by (simp add: permutes_keys_def)
  moreover have "ll_repr 5 \<noteq> ll_repr 300" using ll_repr_inj [of 5 300] by auto
  ultimately show ?thesis
    using set_algebra_reply [of example_sets 0 0 "[[1], [97], [98]]" "\<lambda>_ xs. xs" 1 2] example_sets_ok by (simp add: insert_Diff_if card_insert_if)
qed

text \<open>C13: SINTERSTORE, SDIFFSTORE and SUNIONSTORE put the result at the destination, in place of what was there and without
  its time to live, and reply the number of elements. An empty result deletes the destination. The clients that watch it are
  marked when there was a value or there is one now. The destination may be one of the sources.
  The union is bounded as for SUNION.\<close>

theorem set_algebra_store:
  assumes "server_ok s" "i = cur_db c s" "drop 2 argv \<noteq> []" "\<forall>k\<in>set (drop 2 argv). none_or_set (vis i s k)"
    "set_max_intset_entries (sv_env s) < 2 ^ 29 - 1" "permutes_keys qs"
  shows "stores c i s (sinterstoreCommand qs addr0 addr1 c argv s) (argv ! 1) (\<Inter>k\<in>set (drop 2 argv). vis_set i s k)
    \<and> stores c i s (sdiffstoreCommand qs addr0 addr1 c argv s) (argv ! 1) (vis_set i s (argv ! 2) - (\<Union>k\<in>set (drop 3 argv). vis_set i s k))
    \<and> (card (\<Union>k\<in>set (drop 2 argv). vis_set i s k) < 2 ^ 30 \<longrightarrow> stores c i s (sunionstoreCommand qs addr0 addr1 c argv s) (argv ! 1) (\<Union>k\<in>set (drop 2 argv). vis_set i s k))"
proof (intro conjI impI)
  have argv: "drop 2 argv = argv ! 2 # drop 3 argv" using assms(3) Cons_nth_drop_Suc [of 2 argv] by (simp add: numeral_3_eq_3)
  show "stores c i s (sinterstoreCommand qs addr0 addr1 c argv s) (argv ! 1) (\<Inter>k\<in>set (drop 2 argv). vis_set i s k)"
    unfolding sinterstoreCommand_def by (rule sinter_stores [OF assms])
  have "map (vis_set i s) (drop 2 argv) = vis_set i s (argv ! 2) # map (vis_set i s) (drop 3 argv)" unfolding argv by simp
  then show "stores c i s (sdiffstoreCommand qs addr0 addr1 c argv s) (argv ! 1) (vis_set i s (argv ! 2) - (\<Union>k\<in>set (drop 3 argv). vis_set i s k))"
    using sunionDiff_spec(2) [OF assms(1,2,4-6), of OP_DIFF addr0 addr1 "argv ! 1"] unfolding sdiffstoreCommand_def by simp
  show "stores c i s (sunionstoreCommand qs addr0 addr1 c argv s) (argv ! 1) (\<Union>k\<in>set (drop 2 argv). vis_set i s k)" if "card (\<Union>k\<in>set (drop 2 argv). vis_set i s k) < 2 ^ 30"
    using sunionDiff_spec(2) [OF assms(1,2,4-6), of OP_UNION addr0 addr1 "argv ! 1"] that unfolding sunionstoreCommand_def by simp
qed

theorem set_algebra_store_witness:
  "stores 0 0 example_sets (sdiffstoreCommand (\<lambda>_ xs. xs) 1 2 0 [[1], [97], [97], [98]] example_sets) [97] {ll_repr 5}"
proof -
  have "permutes_keys (\<lambda>_ xs. xs)" by (simp add: permutes_keys_def)
  moreover have "ll_repr 5 \<noteq> ll_repr 300" using ll_repr_inj [of 5 300] by auto
  ultimately show ?thesis
    using set_algebra_store [of example_sets 0 0 "[[1], [97], [97], [98]]" "\<lambda>_ xs. xs" 1 2] example_sets_ok by (simp add: insert_Diff_if card_insert_if)
qed

text \<open>C14: SADD adds all of its arguments to the set, which it creates if the key is missing, and replies how many of them were
  new; SREM removes its arguments, deletes the key with the last element and replies how many were there. The times to live stay, but
  for that of a deleted key, and exactly the commands that change something mark the watchers of the key.\<close>

theorem sadd_srem_exact:
  assumes "server_ok s" "i = cur_db c s" "k = argv ! 1" "A = vis_set i s k" "vs = drop 2 argv" "vs \<noteq> []" "none_or_set (vis i s k)"
    "set_max_intset_entries (sv_env s) < 2 ^ 29 - 1" "card (A \<union> set vs) < 2 ^ 30"
  shows "(\<exists>s' d. saddCommand c argv s = Some s' \<and> set_elems d = A \<union> set vs
      \<and> performs c i s s' ((vis i s)(k \<mapsto> SetObj d)) (vttl i s) (if set vs \<subseteq> A then {} else {k}) [IntReply (int (card (set vs - A)))])
    \<and> (\<exists>s' d. sremCommand c argv s = Some s' \<and> set_elems d = A - set vs
      \<and> performs c i s s' ((vis i s)(k := if A \<subseteq> set vs then None else Some (SetObj d))) (if A \<subseteq> set vs then (vttl i s)(k := None) else vttl i s)
          (if A \<inter> set vs = {} then {} else {k}) [IntReply (int (card (A \<inter> set vs)))])"
  using sadd_spec [OF assms(1-3,7,8,5,6)] srem_spec [OF assms(1-3,7,5)] assms(9) unfolding assms(4) by blast

theorem sadd_srem_exact_witness:
  "\<exists>s' d T. sremCommand 0 [[1], [98], ll_repr 300, ll_repr 300] example_sets = Some s' \<and> set_elems d = {}
    \<and> performs 0 0 example_sets s' [[97] \<mapsto> SetObj (SetIntset intset_example)] T {[98]} [IntReply 1]"
proof -
  have "\<exists>s' d. sremCommand 0 [[1], [98], ll_repr 300, ll_repr 300] example_sets = Some s' \<and> set_elems d = {ll_repr 300} - set [ll_repr 300, ll_repr 300]
      \<and> performs 0 0 example_sets s' ((vis 0 example_sets)([98] := if {ll_repr 300} \<subseteq> set [ll_repr 300, ll_repr 300] then None else Some (SetObj d)))
          (if {ll_repr 300} \<subseteq> set [ll_repr 300, ll_repr 300] then (vttl 0 example_sets)([98] := None) else vttl 0 example_sets)
          (if {ll_repr 300} \<inter> set [ll_repr 300, ll_repr 300] = {} then {} else {[98]}) [IntReply (int (card ({ll_repr 300} \<inter> set [ll_repr 300, ll_repr 300])))]"
    by (rule sadd_srem_exact [THEN conjunct2]) (simp_all add: example_sets_ok)
  then show ?thesis by (auto simp: example_sets_vis)
qed

text \<open>C15: SMOVE between two different keys takes a member out of the source and puts it into the destination, which is created if it is
  missing, deletes a source that has no other member, marks the watchers of both and replies 1. If the element is not in the source
  nothing changes and the reply is 0.\<close>

theorem smove_moves:
  assumes "server_ok s" "i = cur_db c s" "src = argv ! 1" "dst = argv ! 2" "v = argv ! 3" "src \<noteq> dst"
    "A = vis_set i s src" "B = vis_set i s dst" "none_or_set (vis i s src)" "none_or_set (vis i s dst)" "set_max_intset_entries (sv_env s) < 2 ^ 29 - 1" "card B < 2 ^ 30"
  shows "if v \<in> A
    then \<exists>s' d1 d2. smoveCommand c argv s = Some s' \<and> set_elems d1 = A - {v} \<and> set_elems d2 = insert v B
      \<and> performs c i s s' ((vis i s)(src := if A = {v} then None else Some (SetObj d1), dst \<mapsto> SetObj d2)) (if A = {v} then (vttl i s)(src := None) else vttl i s)
          {src, dst} [IntReply 1]
    else \<exists>s' M. smoveCommand c argv s = Some s' \<and> same_sets i s M \<and> performs c i s s' M (vttl i s) {} [IntReply 0]"
  using smove_spec [OF assms(1-6,9-11)] smove_absent [OF assms(1-6,9,10)] assms(12) unfolding assms(7,8) by (cases "v \<in> vis_set i s src") simp_all

theorem smove_moves_witness:
  "\<exists>s' d. smoveCommand 0 [[1], [98], [99], ll_repr 300] example_sets = Some s' \<and> set_elems d = {ll_repr 300} \<and> vis 0 s' [98] = None \<and> vis 0 s' [99] = Some (SetObj d)"
proof -
  have "vis_set 0 example_sets [99] = {}" by (simp add: vis_set_def example_sets_vis)
  then have "\<exists>s' d1 d2. smoveCommand 0 [[1], [98], [99], ll_repr 300] example_sets = Some s' \<and> set_elems d1 = {ll_repr 300} - {ll_repr 300} \<and> set_elems d2 = insert (ll_repr 300) {}
      \<and> performs 0 0 example_sets s' ((vis 0 example_sets)([98] := None, [99] \<mapsto> SetObj d2)) ((vttl 0 example_sets)([98] := None)) {[98], [99]} [IntReply 1]"
    using smove_moves [of example_sets 0 0 "[98]" "[[1], [98], [99], ll_repr 300]" "[99]" "ll_repr 300" "{ll_repr 300}" "{}"] by (simp add: example_sets_ok)
  then show ?thesis by (auto dest: performsD(2))
qed

section \<open>Findings\<close>

text \<open>SMOVE from a key to itself replies 1 for any element, member or not.\<close>

lemma smove_same_key:
  assumes "server_ok s" and i: "i = cur_db c s" and args: "k = argv ! 1" "k = argv ! 2" and set: "vis i s k = Some (SetObj o1)"
  shows "\<exists>s'. smoveCommand c argv s = Some s' \<and> performs c i s s' (vis i s) (vttl i s) {} [IntReply 1]"
proof -
  have il: "i < length (sv_dbs s)" using server_ok_cur [OF assms(1)] by (simp add: i)
  obtain s1 where s1: "lookupKeyWrite i k s = Some (s1, vis i s k)" "looked_up c i k s s1" using looked_up_write [OF assms(1) il] by blast
  note l = looked_upD [OF s1(2)]
  obtain s2 where s2: "lookupKeyWrite i k s1 = Some (s2, vis i s1 k)" "looked_up c i k s1 s2" using looked_up_write [OF l(2,3)] by blast
  have "smoveCommand c argv s = Some (addReply c (IntReply 1) s2)"
    using s1(1) s2(1) l(6) set unfolding smoveCommand_def Let_def i [symmetric] args(1) [symmetric] args(2) [symmetric] by simp
  moreover have "performs c i s (addReply c (IntReply 1) s2) (vis i s) (vttl i s) {} [IntReply 1]"
    using performs_reply_after [OF performs_trans [OF l(1) looked_upD(1) [OF s2(2)]]] l(6,7) by simp
  ultimately show ?thesis by blast
qed

text \<open>A count for SRANDMEMBER that is a multiple of \<open>2\<^sup>3\<^sup>2\<close> is taken as 0: the reply is empty, whatever the set holds.\<close>

lemma srandmember_count_cut:
  assumes "server_ok s" "vis (cur_db c s) s k = Some (SetObj o1)" and n: "getLongLongFromObject (arg_obj n) = Some l" "0 \<le> l" "l < 2 ^ 63" "l mod 2 ^ 32 = 0"
  shows "\<exists>s'. srandmemberCommand qs addr0 addr1 rss c [cmd, k, n] s = Some s'
    \<and> performs c (cur_db c s) s s' (vis (cur_db c s) s) (vttl (cur_db c s) s) {} [MultiBulkLen 0]"
proof -
  obtain s1 where s1: "lookupKeyReadOrReply c k (MultiBulkLen 0) s = Some (s1, Some (SetObj o1))" "looked_up c (cur_db c s) k s s1"
    using read_or_reply [OF assms(1), of c k "MultiBulkLen 0"] assms(2) by auto
  have "srandmemberCommand qs addr0 addr1 rss c [cmd, k, n] s = Some (addReply c (MultiBulkLen 0) s1)"
    using s1(1) n by (simp add: srandmemberCommand_def srandmemberWithCountCommand_def getLongFromObjectOrReply_def getLongLongFromObjectOrReply_def del: getLongLongFromObject.simps)
  then show ?thesis using performs_looked_reply [OF s1(2), of "MultiBulkLen 0"] by blast
qed

text \<open>SINTERSTORE with a missing source deletes the destination without publishing a keyspace event, unlike with an intersection
  that turns out to be empty.\<close>

lemma sinterstore_silent_delete:
  assumes "sinter_lookup True (cur_db c s) ks s = Some (SetsMissing s1)" "dbExists (cur_db c s) dst s1" "cur_db c s < length (sv_dbs s1)"
  shows "\<exists>s'. sinterGenericCommand qs addr0 addr1 ks (Some dst) c s = Some s' \<and> sv_published s' = sv_published s1 \<and> \<not> dbExists (cur_db c s) dst s'"
proof -
  let ?i = "cur_db c s"
  let ?s2 = "fst (dbDelete ?i dst s1)"
  have pub: "sv_published (mark_dirty cs t) = sv_published t" "sv_dbs (mark_dirty cs t) = sv_dbs t" for cs t
    by (induction cs arbitrary: t) (simp_all add: mark_dirty_def upd_client_def)
  have "sinterGenericCommand qs addr0 addr1 ks (Some dst) c s = Some (addReply c (IntReply 0) (add_dirty 1 (signalModifiedKey ?i dst ?s2)))"
    using assms(1,2) dbDelete_gone [of ?i dst s1] by (simp add: sinterGenericCommand_def Let_def case_prod_beta)
  moreover have "sv_published (signalModifiedKey ?i dst ?s2) = sv_published s1" "sv_dbs (signalModifiedKey ?i dst ?s2) = sv_dbs ?s2"
    by (simp_all add: signalModifiedKey_def touchWatchedKey_def pub dbDelete_def upd_db_def split: option.split)
  moreover have "db_dict (get_db ?i ?s2) dst = None" using assms(3) by (simp add: dbDelete_def get_db_upd)
  ultimately show ?thesis by (simp add: addReply_def upd_client_def add_dirty_def dbExists_def)
qed

end
