(* ===== verification/Multi.thy ===== *)
theory Multi
  imports T_String
begin

text \<open>
  The execution of commands: the command table, \<^verbatim>\<open>processCommand\<close> and \<^verbatim>\<open>call\<close> of \<^verbatim>\<open>redis.c\<close>, and the
  transactions of \<^verbatim>\<open>multi.c\<close>. The checks of \<^verbatim>\<open>processCommand\<close> that depend on authentication, replication
  and persistence read a record of conditions. Cluster mode and the limit on memory are off; statistics,
  the slow log and \<^verbatim>\<open>MONITOR\<close> are left out. A command whose procedure is not modelled gives \<open>None\<close>.
\<close>

section \<open>The command table\<close>

datatype proc =
    GetCommand | SetCommand | SetnxCommand | SetexCommand | PsetexCommand | AppendCommand | StrlenCommand | DelCommand | ExistsCommand | SetrangeCommand | GetrangeCommand | IncrCommand | DecrCommand | MgetCommand | IncrbyCommand | DecrbyCommand | GetsetCommand | MsetCommand | MsetnxCommand | SelectCommand | MoveCommand | RenameCommand | RenamenxCommand | ExpireCommand | ExpireatCommand | PexpireCommand | PexpireatCommand | KeysCommand | DbsizeCommand | TypeCommand | MultiCommand | ExecCommand | DiscardCommand | FlushdbCommand | FlushallCommand | TtlCommand | PttlCommand | PersistCommand | WatchCommand | UnwatchCommand | Other

text \<open>Name, procedure, arity (negative: at least that many arguments), flags.\<close>

definition redisCommandTable :: "(string \<times> proc \<times> int \<times> string) list" where
  "redisCommandTable =
     [(''get'', GetCommand, 2, ''rF''),
      (''set'', SetCommand, - 3, ''wm''),
      (''setnx'', SetnxCommand, 3, ''wmF''),
      (''setex'', SetexCommand, 4, ''wm''),
      (''psetex'', PsetexCommand, 4, ''wm''),
      (''append'', AppendCommand, 3, ''wm''),
      (''strlen'', StrlenCommand, 2, ''rF''),
      (''del'', DelCommand, - 2, ''w''),
      (''exists'', ExistsCommand, 2, ''rF''),
      (''setbit'', Other, 4, ''wm''),
      (''getbit'', Other, 3, ''rF''),
      (''setrange'', SetrangeCommand, 4, ''wm''),
      (''getrange'', GetrangeCommand, 4, ''r''),
      (''substr'', GetrangeCommand, 4, ''r''),
      (''incr'', IncrCommand, 2, ''wmF''),
      (''decr'', DecrCommand, 2, ''wmF''),
      (''mget'', MgetCommand, - 2, ''r''),
      (''rpush'', Other, - 3, ''wmF''),
      (''lpush'', Other, - 3, ''wmF''),
      (''rpushx'', Other, 3, ''wmF''),
      (''lpushx'', Other, 3, ''wmF''),
      (''linsert'', Other, 5, ''wm''),
      (''rpop'', Other, 2, ''wF''),
      (''lpop'', Other, 2, ''wF''),
      (''brpop'', Other, - 3, ''ws''),
      (''brpoplpush'', Other, 4, ''wms''),
      (''blpop'', Other, - 3, ''ws''),
      (''llen'', Other, 2, ''rF''),
      (''lindex'', Other, 3, ''r''),
      (''lset'', Other, 4, ''wm''),
      (''lrange'', Other, 4, ''r''),
      (''ltrim'', Other, 4, ''w''),
      (''lrem'', Other, 4, ''w''),
      (''rpoplpush'', Other, 3, ''wm''),
      (''sadd'', Other, - 3, ''wmF''),
      (''srem'', Other, - 3, ''wF''),
      (''smove'', Other, 4, ''wF''),
      (''sismember'', Other, 3, ''rF''),
      (''scard'', Other, 2, ''rF''),
      (''spop'', Other, 2, ''wRsF''),
      (''srandmember'', Other, - 2, ''rR''),
      (''sinter'', Other, - 2, ''rS''),
      (''sinterstore'', Other, - 3, ''wm''),
      (''sunion'', Other, - 2, ''rS''),
      (''sunionstore'', Other, - 3, ''wm''),
      (''sdiff'', Other, - 2, ''rS''),
      (''sdiffstore'', Other, - 3, ''wm''),
      (''smembers'', Other, 2, ''rS''),
      (''sscan'', Other, - 3, ''rR''),
      (''zadd'', Other, - 4, ''wmF''),
      (''zincrby'', Other, 4, ''wmF''),
      (''zrem'', Other, - 3, ''wF''),
      (''zremrangebyscore'', Other, 4, ''w''),
      (''zremrangebyrank'', Other, 4, ''w''),
      (''zremrangebylex'', Other, 4, ''w''),
      (''zunionstore'', Other, - 4, ''wm''),
      (''zinterstore'', Other, - 4, ''wm''),
      (''zrange'', Other, - 4, ''r''),
      (''zrangebyscore'', Other, - 4, ''r''),
      (''zrevrangebyscore'', Other, - 4, ''r''),
      (''zrangebylex'', Other, - 4, ''r''),
      (''zrevrangebylex'', Other, - 4, ''r''),
      (''zcount'', Other, 4, ''rF''),
      (''zlexcount'', Other, 4, ''rF''),
      (''zrevrange'', Other, - 4, ''r''),
      (''zcard'', Other, 2, ''rF''),
      (''zscore'', Other, 3, ''rF''),
      (''zrank'', Other, 3, ''rF''),
      (''zrevrank'', Other, 3, ''rF''),
      (''zscan'', Other, - 3, ''rR''),
      (''hset'', Other, 4, ''wmF''),
      (''hsetnx'', Other, 4, ''wmF''),
      (''hget'', Other, 3, ''rF''),
      (''hmset'', Other, - 4, ''wm''),
      (''hmget'', Other, - 3, ''r''),
      (''hincrby'', Other, 4, ''wmF''),
      (''hincrbyfloat'', Other, 4, ''wmF''),
      (''hdel'', Other, - 3, ''wF''),
      (''hlen'', Other, 2, ''rF''),
      (''hkeys'', Other, 2, ''rS''),
      (''hvals'', Other, 2, ''rS''),
      (''hgetall'', Other, 2, ''r''),
      (''hexists'', Other, 3, ''rF''),
      (''hscan'', Other, - 3, ''rR''),
      (''incrby'', IncrbyCommand, 3, ''wmF''),
      (''decrby'', DecrbyCommand, 3, ''wmF''),
      (''incrbyfloat'', Other, 3, ''wmF''),
      (''getset'', GetsetCommand, 3, ''wm''),
      (''mset'', MsetCommand, - 3, ''wm''),
      (''msetnx'', MsetnxCommand, - 3, ''wm''),
      (''randomkey'', Other, 1, ''rR''),
      (''select'', SelectCommand, 2, ''rlF''),
      (''move'', MoveCommand, 3, ''wF''),
      (''rename'', RenameCommand, 3, ''w''),
      (''renamenx'', RenamenxCommand, 3, ''wF''),
      (''expire'', ExpireCommand, 3, ''wF''),
      (''expireat'', ExpireatCommand, 3, ''wF''),
      (''pexpire'', PexpireCommand, 3, ''wF''),
      (''pexpireat'', PexpireatCommand, 3, ''wF''),
      (''keys'', KeysCommand, 2, ''rS''),
      (''scan'', Other, - 2, ''rR''),
      (''dbsize'', DbsizeCommand, 1, ''rF''),
      (''auth'', Other, 2, ''rsltF''),
      (''ping'', Other, - 1, ''rtF''),
      (''echo'', Other, 2, ''rF''),
      (''save'', Other, 1, ''ars''),
      (''bgsave'', Other, 1, ''ar''),
      (''bgrewriteaof'', Other, 1, ''ar''),
      (''shutdown'', Other, - 1, ''arlt''),
      (''lastsave'', Other, 1, ''rRF''),
      (''type'', TypeCommand, 2, ''rF''),
      (''multi'', MultiCommand, 1, ''rsF''),
      (''exec'', ExecCommand, 1, ''sM''),
      (''discard'', DiscardCommand, 1, ''rsF''),
      (''sync'', Other, 1, ''ars''),
      (''psync'', Other, 3, ''ars''),
      (''replconf'', Other, - 1, ''arslt''),
      (''flushdb'', FlushdbCommand, 1, ''w''),
      (''flushall'', FlushallCommand, 1, ''w''),
      (''sort'', Other, - 2, ''wm''),
      (''info'', Other, - 1, ''rlt''),
      (''monitor'', Other, 1, ''ars''),
      (''ttl'', TtlCommand, 2, ''rF''),
      (''pttl'', PttlCommand, 2, ''rF''),
      (''persist'', PersistCommand, 2, ''wF''),
      (''slaveof'', Other, 3, ''ast''),
      (''role'', Other, 1, ''lst''),
      (''debug'', Other, - 2, ''as''),
      (''config'', Other, - 2, ''art''),
      (''subscribe'', Other, - 2, ''rpslt''),
      (''unsubscribe'', Other, - 1, ''rpslt''),
      (''psubscribe'', Other, - 2, ''rpslt''),
      (''punsubscribe'', Other, - 1, ''rpslt''),
      (''publish'', Other, 3, ''pltrF''),
      (''pubsub'', Other, - 2, ''pltrR''),
      (''watch'', WatchCommand, - 2, ''rsF''),
      (''unwatch'', UnwatchCommand, 1, ''rsF''),
      (''cluster'', Other, - 2, ''ar''),
      (''restore'', Other, - 4, ''wm''),
      (''restore-asking'', Other, - 4, ''wmk''),
      (''migrate'', Other, - 6, ''w''),
      (''asking'', Other, 1, ''r''),
      (''readonly'', Other, 1, ''rF''),
      (''readwrite'', Other, 1, ''rF''),
      (''dump'', Other, 2, ''r''),
      (''object'', Other, 3, ''r''),
      (''client'', Other, - 2, ''rs''),
      (''eval'', Other, - 3, ''s''),
      (''evalsha'', Other, - 3, ''s''),
      (''slowlog'', Other, - 2, ''r''),
      (''script'', Other, - 2, ''rs''),
      (''time'', Other, 1, ''rRF''),
      (''bitop'', Other, - 4, ''wm''),
      (''bitcount'', Other, - 2, ''r''),
      (''bitpos'', Other, - 3, ''r''),
      (''wait'', Other, 3, ''rs''),
      (''command'', Other, 0, ''rlt''),
      (''pfselftest'', Other, 1, ''r''),
      (''pfadd'', Other, - 2, ''wmF''),
      (''pfcount'', Other, - 2, ''r''),
      (''pfmerge'', Other, - 2, ''wm''),
      (''pfdebug'', Other, - 3, ''w''),
      (''latency'', Other, - 2, ''arslt'')]"

record redisCommand =
  cmd_name :: string
  cmd_proc :: proc
  cmd_arity :: int
  cmd_flags :: string

text \<open>The dictionary of commands ignores the case of names.\<close>

definition lookupCommand :: "u8 list \<Rightarrow> redisCommand option" where
  "lookupCommand name =
     map_option (\<lambda>(n, p, a, f). \<lparr>cmd_name = n, cmd_proc = p, cmd_arity = a, cmd_flags = f\<rparr>)
       (find (\<lambda>(n, _). bytes n = map tolower_byte name) redisCommandTable)"

definition has_flag :: "char \<Rightarrow> redisCommand \<Rightarrow> bool" where
  "has_flag f cmd \<longleftrightarrow> f \<in> set (cmd_flags cmd)"

section \<open>Watched keys\<close>

definition upd_watch :: "nat \<Rightarrow> key \<Rightarrow> nat list option \<Rightarrow> server \<Rightarrow> server" where
  "upd_watch j k cs = upd_db j (\<lambda>db. db\<lparr>db_watched := (db_watched db)(k := cs)\<rparr>)"

definition watchForKey :: "nat \<Rightarrow> key \<Rightarrow> server \<Rightarrow> server" where
  "watchForKey c key s =
     (let j = cur_db c s
      in if (j, key) \<in> set (cl_watched (sv_clients s c)) then s
         else
           let clients = (case db_watched (get_db j s) key of None \<Rightarrow> [] | Some cs \<Rightarrow> cs);
               s1 = upd_watch j key (Some (clients @ [c])) s
           in upd_client c (\<lambda>cl. cl\<lparr>cl_watched := cl_watched cl @ [(j, key)]\<rparr>) s1)"

text \<open>The loop over the list of the client; \<open>None\<close> is the assertion, or the deletion of a node that is not
  there.\<close>

fun unwatch_loop :: "nat \<Rightarrow> (nat \<times> key) list \<Rightarrow> server \<Rightarrow> server option" where
  "unwatch_loop c [] s = Some (upd_client c (\<lambda>cl. cl\<lparr>cl_watched := []\<rparr>) s)"
| "unwatch_loop c ((j, k) # wks) s =
     do { clients \<leftarrow> db_watched (get_db j s) k;
          if c \<notin> set clients then None
          else
            let clients' = remove1 c clients
            in unwatch_loop c wks (upd_watch j k (if clients' = [] then None else Some clients') s) }"

definition unwatchAllKeys :: "nat \<Rightarrow> server \<Rightarrow> server option" where
  "unwatchAllKeys c s =
     (if cl_watched (sv_clients s c) = [] then Some s else unwatch_loop c (cl_watched (sv_clients s c)) s)"

section \<open>Transactions\<close>

definition initClientMultiState :: "nat \<Rightarrow> server \<Rightarrow> server" where
  "initClientMultiState c = upd_client c (\<lambda>cl. cl\<lparr>cl_queue := []\<rparr>)"

definition queueMultiCommand :: "nat \<Rightarrow> server \<Rightarrow> server" where
  "queueMultiCommand c = upd_client c (\<lambda>cl. cl\<lparr>cl_queue := cl_queue cl @ [cl_argv cl]\<rparr>)"

definition discardTransaction :: "nat \<Rightarrow> server \<Rightarrow> server option" where
  "discardTransaction c s =
     unwatchAllKeys c (upd_client c (\<lambda>cl. cl\<lparr>cl_multi := False, cl_dirty_cas := False, cl_dirty_exec := False\<rparr>) (initClientMultiState c s))"

definition flagTransaction :: "nat \<Rightarrow> server \<Rightarrow> server" where
  "flagTransaction c = upd_client c (\<lambda>cl. if cl_multi cl then cl\<lparr>cl_dirty_exec := True\<rparr> else cl)"

definition multiCommand :: "nat \<Rightarrow> u8 list list \<Rightarrow> server \<Rightarrow> server option" where
  "multiCommand c argv s =
     (if cl_multi (sv_clients s c) then Some (addReplyError c ''MULTI calls can not be nested'' s)
      else Some (addReply c (Status ''OK'') (upd_client c (\<lambda>cl. cl\<lparr>cl_multi := True\<rparr>) s)))"

definition discardCommand :: "nat \<Rightarrow> u8 list list \<Rightarrow> server \<Rightarrow> server option" where
  "discardCommand c argv s =
     (if \<not> cl_multi (sv_clients s c) then Some (addReplyError c ''DISCARD without MULTI'' s)
      else do { s1 \<leftarrow> discardTransaction c s; Some (addReply c (Status ''OK'') s1) })"

definition watchCommand :: "nat \<Rightarrow> u8 list list \<Rightarrow> server \<Rightarrow> server option" where
  "watchCommand c argv s =
     (if cl_multi (sv_clients s c) then Some (addReplyError c ''WATCH inside MULTI is not allowed'' s)
      else Some (addReply c (Status ''OK'') (fold (watchForKey c) (tl argv) s)))"

definition unwatchCommand :: "nat \<Rightarrow> u8 list list \<Rightarrow> server \<Rightarrow> server option" where
  "unwatchCommand c argv s =
     do { s1 \<leftarrow> unwatchAllKeys c s;
          Some (addReply c (Status ''OK'') (upd_client c (\<lambda>cl. cl\<lparr>cl_dirty_cas := False\<rparr>) s1)) }"

section \<open>Calling a command\<close>

text \<open>\<open>ko\<close> is the order in which the keys of a database are iterated. EXEC is not among the queued commands.\<close>

fun proc_of :: "((key \<rightharpoonup> robj) \<Rightarrow> key list) \<Rightarrow> proc \<Rightarrow> nat \<Rightarrow> u8 list list \<Rightarrow> server \<Rightarrow> server option" where
  "proc_of ko GetCommand c argv s = getCommand c argv s"
| "proc_of ko SetCommand c argv s = setCommand c argv s"
| "proc_of ko SetnxCommand c argv s = setnxCommand c argv s"
| "proc_of ko SetexCommand c argv s = setexCommand c argv s"
| "proc_of ko PsetexCommand c argv s = psetexCommand c argv s"
| "proc_of ko AppendCommand c argv s = appendCommand c argv s"
| "proc_of ko StrlenCommand c argv s = strlenCommand c argv s"
| "proc_of ko DelCommand c argv s = delCommand c argv s"
| "proc_of ko ExistsCommand c argv s = existsCommand c argv s"
| "proc_of ko SetrangeCommand c argv s = setrangeCommand c argv s"
| "proc_of ko GetrangeCommand c argv s = getrangeCommand c argv s"
| "proc_of ko IncrCommand c argv s = incrCommand c argv s"
| "proc_of ko DecrCommand c argv s = decrCommand c argv s"
| "proc_of ko MgetCommand c argv s = mgetCommand c argv s"
| "proc_of ko IncrbyCommand c argv s = incrbyCommand c argv s"
| "proc_of ko DecrbyCommand c argv s = decrbyCommand c argv s"
| "proc_of ko GetsetCommand c argv s = getsetCommand c argv s"
| "proc_of ko MsetCommand c argv s = msetCommand c argv s"
| "proc_of ko MsetnxCommand c argv s = msetnxCommand c argv s"
| "proc_of ko SelectCommand c argv s = selectCommand c argv s"
| "proc_of ko MoveCommand c argv s = moveCommand c argv s"
| "proc_of ko RenameCommand c argv s = renameCommand c argv s"
| "proc_of ko RenamenxCommand c argv s = renamenxCommand c argv s"
| "proc_of ko ExpireCommand c argv s = expireCommand c argv s"
| "proc_of ko ExpireatCommand c argv s = expireatCommand c argv s"
| "proc_of ko PexpireCommand c argv s = pexpireCommand c argv s"
| "proc_of ko PexpireatCommand c argv s = pexpireatCommand c argv s"
| "proc_of ko DbsizeCommand c argv s = dbsizeCommand c argv s"
| "proc_of ko TypeCommand c argv s = typeCommand c argv s"
| "proc_of ko FlushdbCommand c argv s = flushdbCommand c argv s"
| "proc_of ko FlushallCommand c argv s = flushallCommand c argv s"
| "proc_of ko TtlCommand c argv s = ttlCommand c argv s"
| "proc_of ko PttlCommand c argv s = pttlCommand c argv s"
| "proc_of ko PersistCommand c argv s = persistCommand c argv s"
| "proc_of ko KeysCommand c argv s = keysCommand (ko (db_dict (get_db (cur_db c s) s))) c argv s"
| "proc_of ko MultiCommand c argv s = multiCommand c argv s"
| "proc_of ko DiscardCommand c argv s = discardCommand c argv s"
| "proc_of ko WatchCommand c argv s = watchCommand c argv s"
| "proc_of ko UnwatchCommand c argv s = unwatchCommand c argv s"
| "proc_of ko ExecCommand c argv s = None"
| "proc_of ko Other c argv s = None"

definition propagate :: "nat \<Rightarrow> u8 list list \<Rightarrow> server \<Rightarrow> server" where
  "propagate dbid argv s = s\<lparr>sv_propagated := sv_propagated s @ [(dbid, argv)]\<rparr>"

text \<open>A command that changed the data set is propagated with the arguments that it left behind. The flags that force the
  propagation and the list of further commands to propagate are left out: only PUBLISH
  and the scripts set the flags, which are not modelled, and nothing in the sources fills the list (\<^verbatim>\<open>alsoPropagate\<close>).\<close>

definition call_with :: "(nat \<Rightarrow> u8 list list \<Rightarrow> server \<Rightarrow> server option) \<Rightarrow> nat \<Rightarrow> server \<Rightarrow> server option" where
  "call_with p c s =
     do { s1 \<leftarrow> p c (cl_argv (sv_clients s c)) s;
          if sv_dirty s1 - sv_dirty s > 0 then Some (propagate (cur_db c s1) (cl_argv (sv_clients s1 c)) s1) else Some s1 }"

definition set_argv :: "nat \<Rightarrow> u8 list list \<Rightarrow> server \<Rightarrow> server" where
  "set_argv c argv = upd_client c (\<lambda>cl. cl\<lparr>cl_argv := argv\<rparr>)"

definition execCommandPropagateMulti :: "nat \<Rightarrow> server \<Rightarrow> server" where
  "execCommandPropagateMulti c s = propagate (cur_db c s) [bytes ''MULTI''] s"

fun exec_loop :: "((key \<rightharpoonup> robj) \<Rightarrow> key list) \<Rightarrow> nat \<Rightarrow> u8 list list list \<Rightarrow> bool \<Rightarrow> server \<Rightarrow> (server \<times> bool) option" where
  "exec_loop ko c [] must_propagate s = Some (s, must_propagate)"
| "exec_loop ko c (argv # queue) must_propagate s =
     do { cmd \<leftarrow> lookupCommand (argv ! 0);
          let s1 = set_argv c argv s;
              first = (\<not> must_propagate \<and> \<not> has_flag CHR ''r'' cmd);
              s2 = (if first then execCommandPropagateMulti c s1 else s1)
          in do { s3 \<leftarrow> call_with (proc_of ko (cmd_proc cmd)) c s2;
                  exec_loop ko c queue (must_propagate \<or> first) s3 } }"

definition execaborterr :: reply where
  "execaborterr = Err ''EXECABORT Transaction discarded because of previous errors.''"

definition execCommand :: "((key \<rightharpoonup> robj) \<Rightarrow> key list) \<Rightarrow> nat \<Rightarrow> u8 list list \<Rightarrow> server \<Rightarrow> server option" where
  "execCommand ko c argv s =
     (let cl = sv_clients s c
      in if \<not> cl_multi cl then Some (addReplyError c ''EXEC without MULTI'' s)
         else if cl_dirty_cas cl \<or> cl_dirty_exec cl then
           discardTransaction c (addReply c (if cl_dirty_exec cl then execaborterr else NullMultiBulk) s)
         else do {
           s1 \<leftarrow> unwatchAllKeys c s;
           let s2 = addReply c (MultiBulkLen (length (cl_queue cl))) s1 in
           do { (s3, must_propagate) \<leftarrow> exec_loop ko c (cl_queue cl) False s2;
                s4 \<leftarrow> discardTransaction c (set_argv c (cl_argv cl) s3);
                Some (if must_propagate then add_dirty 1 s4 else s4) } })"

section \<open>Processing a request\<close>

text \<open>
  The conditions that \<^verbatim>\<open>processCommand\<close> reads: an unauthenticated client, an error of the last save or
  append (with its reply), too few replicas, a read only replica, a subscribed client, a broken link
  to the master, a script that takes too long.
\<close>

record gate =
  gate_noauth :: bool
  gate_misconf :: "reply option"
  gate_noreplicas :: bool
  gate_slave_ro :: bool
  gate_pubsub :: bool
  gate_stale :: bool
  gate_busy :: bool

definition noautherr :: reply where
  "noautherr = Err ''NOAUTH Authentication required.''"

definition noreplicaserr :: reply where
  "noreplicaserr = Err ''NOREPLICAS Not enough good slaves to write.''"

definition roslaveerr :: reply where
  "roslaveerr = Err ''READONLY You can't write against a read only slave.''"

definition masterdownerr :: reply where
  "masterdownerr = Err ''MASTERDOWN Link with MASTER is down and slave-serve-stale-data is set to 'no'.''"

definition loadingerr :: reply where
  "loadingerr = Err ''LOADING Redis is loading the dataset in memory''"

definition slowscripterr :: reply where
  "slowscripterr = Err ''BUSY Redis is busy running a script. You can only call SCRIPT KILL or SHUTDOWN NOSAVE.''"

text \<open>The commands that are accepted while a script is running too long.\<close>

definition allowed_busy :: "redisCommand \<Rightarrow> u8 list list \<Rightarrow> bool" where
  "allowed_busy cmd argv \<longleftrightarrow>
     cmd_name cmd = ''auth'' \<or> cmd_name cmd = ''replconf''
     \<or> (cmd_name cmd = ''shutdown'' \<and> length argv = 2 \<and> map tolower_byte (take 1 (argv ! 1)) = bytes ''n'')
     \<or> (cmd_name cmd = ''script'' \<and> length argv = 2 \<and> map tolower_byte (take 1 (argv ! 1)) = bytes ''k'')"

definition pubsub_commands :: "string list" where
  "pubsub_commands = [''ping'', ''subscribe'', ''unsubscribe'', ''psubscribe'', ''punsubscribe'']"

text \<open>The checks in their order: the reply that refuses the command, and whether a transaction is flagged.\<close>

definition refuse :: "gate \<Rightarrow> server \<Rightarrow> redisCommand \<Rightarrow> u8 list list \<Rightarrow> (reply \<times> bool) option" where
  "refuse g s cmd argv =
     (if gate_noauth g \<and> cmd_name cmd \<noteq> ''auth'' then Some (noautherr, True)
      else if gate_misconf g \<noteq> None \<and> \<not> sv_slave s \<and> (has_flag CHR ''w'' cmd \<or> cmd_name cmd = ''ping'') then Some (the (gate_misconf g), True)
      else if \<not> sv_slave s \<and> gate_noreplicas g \<and> has_flag CHR ''w'' cmd then Some (noreplicaserr, True)
      else if sv_slave s \<and> gate_slave_ro g \<and> has_flag CHR ''w'' cmd then Some (roslaveerr, False)
      else if gate_pubsub g \<and> cmd_name cmd \<notin> set pubsub_commands
        then Some (Err ''ERR only (P)SUBSCRIBE / (P)UNSUBSCRIBE / QUIT allowed in this context'', False)
      else if sv_slave s \<and> gate_stale g \<and> \<not> has_flag CHR ''t'' cmd then Some (masterdownerr, True)
      else if sv_loading s \<and> \<not> has_flag CHR ''l'' cmd then Some (loadingerr, False)
      else if gate_busy g \<and> \<not> allowed_busy cmd argv then Some (slowscripterr, True)
      else None)"

definition run_proc :: "((key \<rightharpoonup> robj) \<Rightarrow> key list) \<Rightarrow> proc \<Rightarrow> nat \<Rightarrow> u8 list list \<Rightarrow> server \<Rightarrow> server option" where
  "run_proc ko p = (if p = ExecCommand then execCommand ko else proc_of ko p)"

definition queued_proc :: "proc \<Rightarrow> bool" where
  "queued_proc p \<longleftrightarrow> p \<noteq> ExecCommand \<and> p \<noteq> DiscardCommand \<and> p \<noteq> MultiCommand \<and> p \<noteq> WatchCommand"

definition quoted :: "string \<Rightarrow> string" where
  "quoted name = CHR 0x27 # name @ [CHR 0x27]"

text \<open>
  A request, whose words the reader has put into the argument vector of the client. QUIT, which closes
  the connection, is left to the caller. The name is printed up to its first zero byte. Serving the clients that block
  on lists (\<^verbatim>\<open>handleClientsBlockedOnLists\<close> of \<^verbatim>\<open>t_list.c\<close>), which happens when the command has made a list for which a client
  waits, is not modelled: \<open>None\<close>.
\<close>

definition processCommand :: "gate \<Rightarrow> ((key \<rightharpoonup> robj) \<Rightarrow> key list) \<Rightarrow> nat \<Rightarrow> server \<Rightarrow> server option" where
  "processCommand g ko c s =
     (let argv = cl_argv (sv_clients s c)
      in case lookupCommand (argv ! 0) of
           None \<Rightarrow> Some (addReplyErrorFormat c (''unknown command '' @ quoted (map (\<lambda>b. char_of (unat b)) (takeWhile (\<lambda>b. b \<noteq> 0) (argv ! 0)))) (flagTransaction c s))
         | Some cmd \<Rightarrow>
             if (cmd_arity cmd > 0 \<and> cmd_arity cmd \<noteq> int (length argv)) \<or> int (length argv) < - cmd_arity cmd
             then Some (addReplyErrorFormat c (''wrong number of arguments for '' @ quoted (cmd_name cmd) @ '' command'') (flagTransaction c s))
             else
               (case refuse g s cmd argv of
                  Some (err, flag) \<Rightarrow> Some (addReply c err (if flag then flagTransaction c s else s))
                | None \<Rightarrow>
                    if cl_multi (sv_clients s c) \<and> queued_proc (cmd_proc cmd)
                    then Some (addReply c (Status ''QUEUED'') (queueMultiCommand c s))
                    else do {
                      s1 \<leftarrow> call_with (run_proc ko (cmd_proc cmd)) c s;
                      if sv_ready_keys s1 \<noteq> [] then None else Some s1 }))"

end
