(* ===== verification/Multi_Spec.thy ===== *)
theory Multi_Spec
  imports Multi Db_Spec
begin

text \<open>
  Transactions. \<open>csafe a s s'\<close> is what the requests of other clients leave of the promise to client \<open>a\<close>:
  its transaction is as it was, and a watched key is as it was or the client is marked.
\<close>

section \<open>All modelled commands obey the contract\<close>

definition offset_fits :: "u8 list list \<Rightarrow> bool" where
  "offset_fits argv \<longleftrightarrow> (\<forall>n. getLongLongFromObject (arg_obj (argv ! 2)) = Some n \<longrightarrow> n + int (length (argv ! 3)) < 2 ^ 63)"

lemma wsafe_setrange:
  assumes "server_ok s" "offset_fits argv"
  shows "\<exists>s'. setrangeCommand c argv s = Some s' \<and> wsafe s s'"
proof -
  have f: "\<And>n. getLongLongFromObject (arg_obj (argv ! 2)) = Some n \<Longrightarrow> n + int (length (argv ! 3)) < 2 ^ 63"
    using assms(2) by (simp add: offset_fits_def)
  have "wsafe s s'" if "performs c i s s' ((vis i s)(k \<mapsto> v)) (vttl i s) {k} rs" for i s' k v rs
    using that by (rule wsafe_performs) simp
  then show ?thesis using setrangeCommand_spec [OF assms(1) refl refl f, where c = c] wsafe_read by blast
qed

text \<open>The procedures that signal the keys they modify; the others are MOVE and PERSIST, and those that are
  not modelled or use more than the keyspace.\<close>

definition signalling :: "proc \<Rightarrow> bool" where
  "signalling p \<longleftrightarrow> p \<notin> {MoveCommand, PersistCommand, KeysCommand, MultiCommand, ExecCommand, DiscardCommand, WatchCommand, UnwatchCommand, Other}"

lemma wsafe_flushes:
  assumes "server_ok s" "watch_ok s"
  shows "\<exists>s'. flushdbCommand c argv s = Some s' \<and> wsafe s s'" "\<exists>s'. flushallCommand c argv s = Some s' \<and> wsafe s s'"
  using flushdbCommand_spec [OF assms refl] flushallCommand_spec [OF assms] by blast+

lemma wsafe_proc:
  assumes "server_ok s" "watch_ok s" "signalling p" "p = SetrangeCommand \<longrightarrow> offset_fits argv"
  shows "\<exists>s'. proc_of ko p c argv s = Some s' \<and> wsafe s s'"
  using assms(3,4)
  by (cases p) (simp_all add: signalling_def wsafe_set [OF assms(1)] wsafe_counters [OF assms(1)] wsafe_reads [OF assms(1)] wsafe_writes [OF assms(1)]
      wsafe_keys [OF assms(1)] wsafe_setrange [OF assms(1)] selectCommand_spec [OF assms(1)] renameCommand_def renamenxCommand_def wsafe_rename [OF assms(1)]
      expireCommand_def expireatCommand_def pexpireCommand_def pexpireatCommand_def wsafe_expire [OF assms(1)] ttlCommand_def pttlCommand_def
      wsafe_flushes [OF assms(1,2)])

section \<open>Changes of the watch lists and of other clients\<close>

definition same_data :: "server \<Rightarrow> server \<Rightarrow> bool" where
  "same_data s s' \<longleftrightarrow> length (sv_dbs s') = length (sv_dbs s)
     \<and> (\<forall>j. db_dict (get_db j s') = db_dict (get_db j s) \<and> db_expires (get_db j s') = db_expires (get_db j s))
     \<and> sv_env s' = sv_env s \<and> sv_now s' = sv_now s \<and> sv_lua s' = sv_lua s \<and> sv_loading s' = sv_loading s \<and> sv_slave s' = sv_slave s
     \<and> sv_client_ids s' = sv_client_ids s \<and> (\<forall>b. cur_db b s' = cur_db b s)
     \<and> sv_ready_keys s' = sv_ready_keys s \<and> (\<forall>j. db_blocking (get_db j s') = db_blocking (get_db j s))"

lemma same_data_refl [simp]: "same_data s s"
  by (simp add: same_data_def)

lemma same_data_trans: "same_data s s1 \<Longrightarrow> same_data s1 s2 \<Longrightarrow> same_data s s2"
  by (simp add: same_data_def)

lemma same_dataD:
  assumes "same_data s s'"
  shows "server_ok s' = server_ok s" "same_key j k s s'" "length (sv_dbs s') = length (sv_dbs s)" "sv_client_ids s' = sv_client_ids s"
    "vis j s' = vis j s" "vttl j s' = vttl j s" "unblocked s' = unblocked s"
proof -
  have "time_of s' = time_of s" using assms by (intro time_of_cong) (simp_all add: same_data_def)
  then have e: "expired j s' k = expired j s k" for j k using assms by (intro expired_cong) (simp_all add: same_data_def)
  then show "vis j s' = vis j s" "vttl j s' = vttl j s" using assms by (simp_all add: fun_eq_iff vis_def vttl_def same_data_def)
  then show "same_key j k s s'" by (simp add: same_key_def)
  show "server_ok s' = server_ok s" using assms by (simp add: server_ok_def db_ok_def same_data_def)
qed (use assms in \<open>simp_all add: same_data_def unblocked_def\<close>)

lemma same_data_upd_client: "(\<And>cl. cl_db (f cl) = cl_db cl) \<Longrightarrow> same_data s (upd_client c f s)"
  by (simp add: same_data_def upd_client_def)

lemma same_data_upd_watch: "j < length (sv_dbs s) \<Longrightarrow> same_data s (upd_watch j k cs s)"
  by (simp add: same_data_def upd_watch_def get_db_upd)

lemma same_data_addReply [simp]: "same_data s (addReply c r s)"
  by (simp add: addReply_def same_data_upd_client)

lemma watchers_upd_watch:
  assumes "j < length (sv_dbs s)"
  shows "watchers i k' (upd_watch j k cs s) = (if i = j \<and> k' = k then (case cs of None \<Rightarrow> {} | Some l \<Rightarrow> set l) else watchers i k' s)"
  using assms by (simp add: watchers_def upd_watch_def get_db_upd)

lemma db_watched_upd_watch:
  "j < length (sv_dbs s) \<Longrightarrow> db_watched (get_db i (upd_watch j k cs s)) k' = (if i = j \<and> k' = k then cs else db_watched (get_db i s) k')"
  by (simp add: upd_watch_def get_db_upd)

lemma sv_clients_upd_watch [simp]: "sv_clients (upd_watch j k cs s) = sv_clients s" "length (sv_dbs (upd_watch j k cs s)) = length (sv_dbs s)"
  by (simp_all add: upd_watch_def)

definition lists_ok :: "server \<Rightarrow> bool" where
  "lists_ok s \<longleftrightarrow> (\<forall>j<length (sv_dbs s). \<forall>k cs. db_watched (get_db j s) k = Some cs \<longrightarrow> distinct cs \<and> cs \<noteq> [])"

text \<open>Unwatching removes the client from all its lists and touches nothing else.\<close>

lemma unwatch_loop_spec:
  assumes "lists_ok s" "distinct wks" "\<And>j k. (j, k) \<in> set wks \<Longrightarrow> j < length (sv_dbs s) \<and> c \<in> watchers j k s"
  shows "\<exists>s'. unwatch_loop c wks s = Some s' \<and> same_data s s' \<and> lists_ok s'
    \<and> sv_clients s' = (sv_clients s)(c := (sv_clients s c)\<lparr>cl_watched := []\<rparr>)
    \<and> (\<forall>j<length (sv_dbs s). \<forall>k. watchers j k s' = (if (j, k) \<in> set wks then watchers j k s - {c} else watchers j k s))"
  using assms
proof (induction wks arbitrary: s)
  case Nil
  let ?s = "upd_client c (\<lambda>cl. cl\<lparr>cl_watched := []\<rparr>) s"
  have "same_data s ?s" by (simp add: same_data_upd_client)
  moreover have "lists_ok ?s" using Nil(1) by (simp add: lists_ok_def upd_client_def)
  moreover have "watchers j k ?s = watchers j k s" for j k by (simp add: watchers_def upd_client_def)
  ultimately show ?case by (simp add: upd_client_def fun_upd_def)
next
  case (Cons wk wks)
  obtain j k where wk: "wk = (j, k)" by (cases wk)
  have j: "j < length (sv_dbs s)" "c \<in> watchers j k s" using Cons.prems(3) [of j k] wk by simp_all
  then obtain cs where cs: "db_watched (get_db j s) k = Some cs" "c \<in> set cs" by (auto simp: watchers_def split: option.splits)
  have d: "distinct cs" using Cons.prems(1) j cs(1) by (auto simp: lists_ok_def)
  let ?cs = "if remove1 c cs = [] then None else Some (remove1 c cs)"
  let ?s = "upd_watch j k ?cs s"
  have w: "watchers i k' ?s = (if i = j \<and> k' = k then watchers j k s - {c} else watchers i k' s)" for i k'
  proof -
    have "(case ?cs of None \<Rightarrow> {} | Some l \<Rightarrow> set l) = set (remove1 c cs)" by simp
    also have "\<dots> = watchers j k s - {c}" using cs d by (simp add: watchers_def)
    finally show ?thesis by (simp only: watchers_upd_watch [OF j(1)])
  qed
  have ok: "lists_ok ?s" using Cons.prems(1) d j(1) cs(1) by (auto simp: lists_ok_def db_watched_upd_watch)
  have "(j, k) \<notin> set wks" "distinct wks" using Cons.prems(2) wk by simp_all
  then obtain s' where s': "unwatch_loop c wks ?s = Some s'" "same_data ?s s'" "lists_ok s'"
      "sv_clients s' = (sv_clients ?s)(c := (sv_clients ?s c)\<lparr>cl_watched := []\<rparr>)"
      "\<forall>j<length (sv_dbs ?s). \<forall>k. watchers j k s' = (if (j, k) \<in> set wks then watchers j k ?s - {c} else watchers j k ?s)"
    using Cons.IH [OF ok] Cons.prems(3) w by (metis (no_types, lifting) list.set_intros(2) sv_clients_upd_watch(2))
  have "unwatch_loop c (wk # wks) s = Some s'" using wk cs s'(1) by simp
  moreover have "same_data s s'" using same_data_trans [OF same_data_upd_watch [OF j(1)] s'(2)] .
  moreover have "watchers i k' s' = (if (i, k') \<in> set (wk # wks) then watchers i k' s - {c} else watchers i k' s)" if "i < length (sv_dbs s)" for i k'
  proof -
    have "watchers i k' s' = (if (i, k') \<in> set wks then watchers i k' ?s - {c} else watchers i k' ?s)" using s'(5) that by simp
    then show ?thesis unfolding w using wk \<open>(j, k) \<notin> set wks\<close> by (auto split: if_splits)
  qed
  ultimately show ?case using s'(3,4) by (simp add: fun_upd_def)
qed

lemma unwatchAllKeys_spec:
  assumes "watch_ok s"
  shows "\<exists>s'. unwatchAllKeys c s = Some s' \<and> same_data s s' \<and> watch_ok s'
    \<and> sv_clients s' = (sv_clients s)(c := (sv_clients s c)\<lparr>cl_watched := []\<rparr>)"
proof -
  have l: "lists_ok s" "distinct (cl_watched (sv_clients s c))"
    "\<And>j k. (j, k) \<in> set (cl_watched (sv_clients s c)) \<Longrightarrow> j < length (sv_dbs s) \<and> c \<in> watchers j k s"
    using assms unfolding lists_ok_def watch_ok_def by blast+
  obtain s' where s': "unwatch_loop c (cl_watched (sv_clients s c)) s = Some s'" "same_data s s'" "lists_ok s'"
      "sv_clients s' = (sv_clients s)(c := (sv_clients s c)\<lparr>cl_watched := []\<rparr>)"
      "\<And>j k. j < length (sv_dbs s) \<Longrightarrow> watchers j k s' = (if (j, k) \<in> set (cl_watched (sv_clients s c)) then watchers j k s - {c} else watchers j k s)"
    using unwatch_loop_spec [OF l] by blast
  show ?thesis
  proof (cases "cl_watched (sv_clients s c) = []")
    case True
    then have "(sv_clients s)(c := (sv_clients s c)\<lparr>cl_watched := []\<rparr>) = sv_clients s" by (simp add: fun_eq_iff)
    then show ?thesis using True assms by (simp add: unwatchAllKeys_def)
  next
    case False
    note wo = assms [unfolded watch_ok_def]
    have "(i, k) \<in> set (cl_watched (sv_clients s' b)) \<longleftrightarrow> i < length (sv_dbs s') \<and> b \<in> watchers i k s'" for b i k
      using wo s'(4) s'(5) [of i k] same_dataD(3) [OF s'(2)] by (cases "i < length (sv_dbs s)"; cases "b = c") auto
    then have "watch_ok s'" using wo s'(3,4) same_dataD(4) [OF s'(2)] by (simp add: watch_ok_def lists_ok_def)
    then show ?thesis using False s'(1,2,4) by (simp add: unwatchAllKeys_def)
  qed
qed

section \<open>What other clients may do\<close>

text \<open>Requests that keep the contract, and queues of such requests.\<close>

definition queueable :: "u8 list list \<Rightarrow> bool" where
  "queueable argv \<longleftrightarrow>
     (case lookupCommand (argv ! 0) of
        None \<Rightarrow> False
      | Some cmd \<Rightarrow> (signalling (cmd_proc cmd) \<or> cmd_proc cmd = UnwatchCommand) \<and> (cmd_proc cmd = SetrangeCommand \<longrightarrow> offset_fits argv))"

text \<open>The state in which requests are served: the invariants hold, no client is blocked on a list, and the queues hold
  commands that keep the contract.\<close>

definition sound :: "server \<Rightarrow> bool" where
  "sound s \<longleftrightarrow> server_ok s \<and> watch_ok s \<and> unblocked s \<and> (\<forall>b. \<forall>argv\<in>set (cl_queue (sv_clients s b)). queueable argv)"

definition same_tx :: "client \<Rightarrow> client \<Rightarrow> bool" where
  "same_tx cl cl' \<longleftrightarrow> cl_multi cl' = cl_multi cl \<and> cl_queue cl' = cl_queue cl \<and> cl_watched cl' = cl_watched cl \<and> cl_dirty_exec cl' = cl_dirty_exec cl
     \<and> (cl_dirty_cas cl \<longrightarrow> cl_dirty_cas cl')"

definition csafe :: "nat \<Rightarrow> server \<Rightarrow> server \<Rightarrow> bool" where
  "csafe a s s' \<longleftrightarrow> sound s' \<and> sv_client_ids s' = sv_client_ids s \<and> same_tx (sv_clients s a) (sv_clients s' a)
     \<and> (\<forall>j k. (j, k) \<in> set (cl_watched (sv_clients s a)) \<longrightarrow> same_key j k s s' \<or> cl_dirty_cas (sv_clients s' a))"

lemma csafeD:
  assumes "csafe a s s'"
  shows "sound s'" "sv_client_ids s' = sv_client_ids s" "same_tx (sv_clients s a) (sv_clients s' a)"
    "(j, k) \<in> set (cl_watched (sv_clients s a)) \<Longrightarrow> same_key j k s s' \<or> cl_dirty_cas (sv_clients s' a)"
  using assms unfolding csafe_def by blast+

lemma soundD:
  "sound s \<Longrightarrow> server_ok s" "sound s \<Longrightarrow> watch_ok s" "sound s \<Longrightarrow> argv \<in> set (cl_queue (sv_clients s b)) \<Longrightarrow> queueable argv"
  "sound s \<Longrightarrow> unblocked s" "sound s \<Longrightarrow> sv_ready_keys s = []"
  unfolding sound_def unblocked_def by blast+

lemma csafe_refl: "sound s \<Longrightarrow> csafe a s s"
  by (simp add: csafe_def same_tx_def same_key_def)

lemma csafe_trans:
  assumes "csafe a s s1" "csafe a s1 s2"
  shows "csafe a s s2"
proof -
  have t: "same_tx (sv_clients s a) (sv_clients s2 a)" using csafeD(3) [OF assms(1)] csafeD(3) [OF assms(2)] by (simp add: same_tx_def)
  have "same_key j k s s2 \<or> cl_dirty_cas (sv_clients s2 a)" if "(j, k) \<in> set (cl_watched (sv_clients s a))" for j k
    using csafeD(3,4) [OF assms(1)] csafeD(3,4) [OF assms(2)] that by (auto simp: same_tx_def same_key_def)
  then show ?thesis using csafeD(1,2) [OF assms(1)] csafeD(1,2) [OF assms(2)] t by (simp add: csafe_def)
qed

lemma csafe_wsafe:
  assumes "sound s" "wsafe s s'"
  shows "csafe a s s'"
proof -
  note w = wsafeD(1,2) [OF assms(2)]
  have "sound s'" using assms(1) w wsafeD(5) [OF assms(2)] watch_ok_same [OF w(2)] by (simp add: sound_def same_watch_def)
  moreover have "same_key j k s s' \<or> cl_dirty_cas (sv_clients s' a)" if "(j, k) \<in> set (cl_watched (sv_clients s a))" for j k
    using that wsafeD(3) [OF assms(2)] soundD(2) [OF assms(1)] unfolding watch_ok_def by blast
  moreover have "same_tx (sv_clients s a) (sv_clients s' a)" using w(2) by (simp add: same_tx_def same_watch_def)
  ultimately show ?thesis using w(2) by (simp add: csafe_def same_watch_def)
qed

text \<open>A change of another client that leaves its database and its watched keys alone.\<close>

lemma csafe_upd_client:
  assumes "sound s" "b \<noteq> a" "\<And>cl. cl_db (f cl) = cl_db cl" "\<And>cl. cl_watched (f cl) = cl_watched cl"
    and "\<And>argv. argv \<in> set (cl_queue (f (sv_clients s b))) \<Longrightarrow> queueable argv"
  shows "csafe a s (upd_client b f s)"
proof -
  let ?s = "upd_client b f s"
  have sd: "same_data s ?s" using assms(3) by (rule same_data_upd_client)
  have "watchers j k ?s = watchers j k s" "db_watched (get_db j ?s) = db_watched (get_db j s)" for j k by (simp_all add: watchers_def upd_client_def)
  moreover have "cl_watched (sv_clients ?s d) = cl_watched (sv_clients s d)" for d using assms(4) by (simp add: upd_client_def)
  ultimately have "watch_ok ?s" using soundD(2) [OF assms(1)] same_dataD(3,4) [OF sd] by (simp add: watch_ok_def)
  moreover have "queueable argv" if "argv \<in> set (cl_queue (sv_clients ?s d))" for d argv
    using that assms(5) soundD(3) [OF assms(1)] by (cases "d = b") (auto simp: upd_client_def)
  ultimately have "sound ?s" using same_dataD(1,7) [OF sd] soundD(1,4) [OF assms(1)] by (simp add: sound_def)
  then show ?thesis using same_dataD(2,4) [OF sd] assms(2) by (simp add: csafe_def same_tx_def) (simp add: upd_client_def)
qed

lemma csafe_reply:
  assumes "sound s" "b \<noteq> a"
  shows "csafe a s (addReply b r s)"
  unfolding addReply_def by (rule csafe_upd_client [OF assms]) (simp_all add: soundD(3) [OF assms(1)])

lemma csafe_unwatch:
  assumes "sound s" "b \<noteq> a"
  shows "\<exists>s'. unwatchAllKeys b s = Some s' \<and> csafe a s s'"
proof -
  obtain s' where s': "unwatchAllKeys b s = Some s'" "same_data s s'" "watch_ok s'" "sv_clients s' = (sv_clients s)(b := (sv_clients s b)\<lparr>cl_watched := []\<rparr>)"
    using unwatchAllKeys_spec [OF soundD(2) [OF assms(1)]] by blast
  have "sound s'" using s'(3,4) same_dataD(1,7) [OF s'(2)] soundD [OF assms(1)] by (simp add: sound_def)
  then show ?thesis using s'(1,4) same_dataD(2,4) [OF s'(2)] assms(2) by (simp add: csafe_def same_tx_def)
qed

lemma csafe_discard:
  assumes "sound s" "b \<noteq> a"
  shows "\<exists>s'. discardTransaction b s = Some s' \<and> csafe a s s'"
proof -
  have 1: "csafe a s (initClientMultiState b s)" unfolding initClientMultiState_def by (rule csafe_upd_client [OF assms]) simp_all
  let ?s2 = "upd_client b (\<lambda>cl. cl\<lparr>cl_multi := False, cl_dirty_cas := False, cl_dirty_exec := False\<rparr>) (initClientMultiState b s)"
  have 2: "csafe a (initClientMultiState b s) ?s2"
    by (rule csafe_upd_client [OF csafeD(1) [OF 1] assms(2)]) (simp_all add: soundD(3) [OF csafeD(1) [OF 1]])
  show ?thesis using csafe_unwatch [OF csafeD(1) [OF 2] assms(2)] csafe_trans [OF csafe_trans [OF 1 2]] by (auto simp: discardTransaction_def)
qed

lemma csafe_watchForKey:
  assumes "sound s" "b \<noteq> a" "b \<in> set (sv_client_ids s)"
  shows "csafe a s (watchForKey b k s)"
proof (cases "(cur_db b s, k) \<in> set (cl_watched (sv_clients s b))")
  case True
  then show ?thesis using csafe_refl [OF assms(1)] by (simp add: watchForKey_def)
next
  case False
  let ?j = "cur_db b s"
  define cs where "cs = (case db_watched (get_db ?j s) k of None \<Rightarrow> [] | Some cs \<Rightarrow> cs)"
  define s1 where "s1 = upd_watch ?j k (Some (cs @ [b])) s"
  define s2 where "s2 = upd_client b (\<lambda>cl. cl\<lparr>cl_watched := cl_watched cl @ [(?j, k)]\<rparr>) s1"
  have eq: "watchForKey b k s = s2" using False by (simp add: watchForKey_def Let_def s1_def s2_def cs_def)
  have j: "?j < length (sv_dbs s)" using server_ok_cur [OF soundD(1) [OF assms(1)]] .
  note wo = soundD(2) [OF assms(1), unfolded watch_ok_def]
  have cs: "set cs = watchers ?j k s" by (simp add: cs_def watchers_def split: option.split)
  have b: "b \<notin> watchers ?j k s" using False wo j by blast
  have dist: "distinct cs" using wo j by (cases "db_watched (get_db ?j s) k") (auto simp: cs_def)
  have sd: "same_data s s2" unfolding s2_def s1_def
    using same_data_trans [OF same_data_upd_watch [OF j] same_data_upd_client] by simp
  have w: "watchers i k' s2 = (if i = ?j \<and> k' = k then insert b (watchers ?j k s) else watchers i k' s)" for i k'
  proof -
    have "watchers i k' s2 = watchers i k' s1" by (simp add: s2_def watchers_def upd_client_def)
    then show ?thesis by (simp add: s1_def watchers_upd_watch [OF j] cs)
  qed
  have lists: "distinct l \<and> l \<noteq> []" if "i < length (sv_dbs s2)" "db_watched (get_db i s2) k' = Some l" for i k' l
  proof -
    have "db_watched (get_db i s2) k' = (if i = ?j \<and> k' = k then Some (cs @ [b]) else db_watched (get_db i s) k')"
      by (simp add: s2_def upd_client_def) (simp add: s1_def db_watched_upd_watch [OF j])
    then show ?thesis using that dist b cs wo same_dataD(3) [OF sd] by (auto split: if_splits)
  qed
  have clw: "cl_watched (sv_clients s2 d) = (if d = b then cl_watched (sv_clients s b) @ [(?j, k)] else cl_watched (sv_clients s d))" for d
    by (simp add: s2_def upd_client_def) (simp add: s1_def)
  have "(i, k') \<in> set (cl_watched (sv_clients s2 d)) \<longleftrightarrow> i < length (sv_dbs s2) \<and> d \<in> watchers i k' s2" for d i k'
    using wo j by (auto simp: clw w same_dataD(3) [OF sd])
  moreover have "distinct (cl_watched (sv_clients s2 d))" for d using wo False by (simp add: clw)
  moreover have "cl_watched (sv_clients s2 d) \<noteq> [] \<longrightarrow> d \<in> set (sv_client_ids s2)" for d
    using wo assms(3) same_dataD(4) [OF sd] by (simp add: clw)
  ultimately have "watch_ok s2" using lists unfolding watch_ok_def by blast
  moreover have rest: "cl_queue (sv_clients s2 d) = cl_queue (sv_clients s d)" "d \<noteq> b \<Longrightarrow> sv_clients s2 d = sv_clients s d" for d
    by (simp_all add: s2_def upd_client_def) (simp_all add: s1_def)
  ultimately have "sound s2" using same_dataD(1,7) [OF sd] soundD(1,3,4) [OF assms(1)] by (simp add: sound_def)
  then show ?thesis using eq rest(2) assms(2) same_dataD(2,4) [OF sd] by (simp add: csafe_def same_tx_def)
qed

lemma csafe_watches:
  assumes "sound s" "b \<noteq> a" "b \<in> set (sv_client_ids s)"
  shows "csafe a s (fold (watchForKey b) ks s)"
  using assms
proof (induction ks arbitrary: s)
  case (Cons k ks)
  note c = csafe_watchForKey [OF Cons.prems, of k]
  have "csafe a (watchForKey b k s) (fold (watchForKey b) ks (watchForKey b k s))"
    using Cons.IH [OF csafeD(1) [OF c] Cons.prems(2)] csafeD(2) [OF c] Cons.prems(3) by simp
  then show ?case using csafe_trans [OF c] by simp
qed (simp add: csafe_refl)

lemma csafe_dirty_off:
  assumes "sound s" "b \<noteq> a"
  shows "csafe a s (upd_client b (\<lambda>cl. cl\<lparr>cl_dirty_cas := False\<rparr>) s)"
  by (rule csafe_upd_client [OF assms]) (simp_all add: soundD(3) [OF assms(1)])

lemma csafe_unwatchCommand:
  assumes "sound s" "b \<noteq> a"
  shows "\<exists>s'. unwatchCommand b argv s = Some s' \<and> csafe a s s'"
proof -
  obtain s1 where s1: "unwatchAllKeys b s = Some s1" "csafe a s s1" using csafe_unwatch [OF assms] by blast
  note 2 = csafe_dirty_off [OF csafeD(1) [OF s1(2)] assms(2)]
  show ?thesis using s1 csafe_trans [OF csafe_trans [OF s1(2) 2] csafe_reply [OF csafeD(1) [OF 2] assms(2)]] by (simp add: unwatchCommand_def)
qed

section \<open>Calls and transactions of other clients\<close>

lemma csafe_outer:
  assumes "sound s" "outer s s'" "sv_clients s' = sv_clients s"
  shows "csafe a s s'"
  using csafe_wsafe [OF assms(1) wsafe_read [OF performs_outer [OF assms(2) soundD(1) [OF assms(1)] assms(3)]]] .

lemma csafe_propagate: "sound s \<Longrightarrow> csafe a s (propagate d argv s)"
  by (rule csafe_outer) (simp_all add: propagate_def outer_def)

lemma csafe_call:
  assumes "\<exists>s'. p b (cl_argv (sv_clients s b)) s = Some s' \<and> csafe a s s'"
  shows "\<exists>s'. call_with p b s = Some s' \<and> csafe a s s'"
  using assms csafe_trans [OF _ csafe_propagate] csafeD(1) by (auto simp: call_with_def)

lemma csafe_set_argv: "sound s \<Longrightarrow> b \<noteq> a \<Longrightarrow> csafe a s (set_argv b argv s)"
  unfolding set_argv_def by (rule csafe_upd_client) (simp_all add: soundD(3))

lemma csafe_queued:
  assumes "sound s" "b \<noteq> a" "lookupCommand (argv ! 0) = Some cmd" "queueable argv"
  shows "\<exists>s'. proc_of ko (cmd_proc cmd) b argv s = Some s' \<and> csafe a s s'"
proof (cases "cmd_proc cmd = UnwatchCommand")
  case True
  then show ?thesis using csafe_unwatchCommand [OF assms(1,2)] by simp
next
  case False
  then have "signalling (cmd_proc cmd)" "cmd_proc cmd = SetrangeCommand \<longrightarrow> offset_fits argv" using assms(3,4) by (simp_all add: queueable_def)
  then show ?thesis using wsafe_proc [OF soundD(1) [OF assms(1)] soundD(2) [OF assms(1)]] csafe_wsafe [OF assms(1)] by meson
qed

lemma csafe_exec_loop:
  assumes "sound s" "b \<noteq> a" "\<And>argv. argv \<in> set queue \<Longrightarrow> queueable argv"
  shows "\<exists>s' m'. exec_loop ko b queue m s = Some (s', m') \<and> csafe a s s'"
  using assms
proof (induction queue arbitrary: s m)
  case Nil
  then show ?case by (simp add: csafe_refl)
next
  case (Cons argv queue)
  have q: "queueable argv" using Cons.prems(3) by simp
  then obtain cmd where cmd: "lookupCommand (argv ! 0) = Some cmd" by (auto simp: queueable_def split: option.splits)
  let ?first = "\<not> m \<and> \<not> has_flag CHR ''r'' cmd"
  let ?s1 = "set_argv b argv s"
  let ?s2 = "if ?first then execCommandPropagateMulti b ?s1 else ?s1"
  have 1: "csafe a s ?s1" using csafe_set_argv [OF Cons.prems(1,2)] .
  have 2: "csafe a s ?s2" using csafe_trans [OF 1 csafe_propagate [OF csafeD(1) [OF 1]]] 1 by (simp add: execCommandPropagateMulti_def)
  have "cl_argv (sv_clients ?s2 b) = argv" by (simp add: execCommandPropagateMulti_def propagate_def set_argv_def upd_client_def)
  then obtain s3 where s3: "call_with (proc_of ko (cmd_proc cmd)) b ?s2 = Some s3" "csafe a ?s2 s3"
    using csafe_call csafe_queued [OF csafeD(1) [OF 2] Cons.prems(2) cmd q] by metis
  obtain s4 m4 where "exec_loop ko b queue (m \<or> ?first) s3 = Some (s4, m4)" "csafe a s3 s4"
    using Cons.IH [OF csafeD(1) [OF s3(2)] Cons.prems(2)] Cons.prems(3) by (metis list.set_intros(2))
  then show ?case using cmd s3(1) csafe_trans [OF csafe_trans [OF 2 s3(2)]] by (auto simp: Let_def)
qed

lemma csafe_exec:
  assumes "sound s" "b \<noteq> a"
  shows "\<exists>s'. execCommand ko b argv s = Some s' \<and> csafe a s s'"
proof -
  let ?cl = "sv_clients s b"
  consider (none) "\<not> cl_multi ?cl" | (abort) "cl_multi ?cl" "cl_dirty_cas ?cl \<or> cl_dirty_exec ?cl" | (go) "cl_multi ?cl" "\<not> cl_dirty_cas ?cl" "\<not> cl_dirty_exec ?cl"
    by blast
  then show ?thesis
  proof cases
    case none
    then show ?thesis using csafe_reply [OF assms] by (simp add: execCommand_def Let_def addReplyError_def)
  next
    case abort
    let ?s1 = "addReply b (if cl_dirty_exec ?cl then execaborterr else NullMultiBulk) s"
    note 1 = csafe_reply [OF assms, of "if cl_dirty_exec ?cl then execaborterr else NullMultiBulk"]
    show ?thesis using csafe_discard [OF csafeD(1) [OF 1] assms(2)] csafe_trans [OF 1] abort by (auto simp: execCommand_def Let_def)
  next
    case go
    obtain s1 where s1: "unwatchAllKeys b s = Some s1" "csafe a s s1" using csafe_unwatch [OF assms] by blast
    let ?s2 = "addReply b (MultiBulkLen (length (cl_queue ?cl))) s1"
    have 2: "csafe a s ?s2" using csafe_trans [OF s1(2) csafe_reply [OF csafeD(1) [OF s1(2)] assms(2)]] .
    obtain s3 m where s3: "exec_loop ko b (cl_queue ?cl) False ?s2 = Some (s3, m)" "csafe a ?s2 s3"
      using csafe_exec_loop [OF csafeD(1) [OF 2] assms(2)] soundD(3) [OF assms(1)] by blast
    have 3: "csafe a s (set_argv b (cl_argv ?cl) s3)"
      using csafe_trans [OF csafe_trans [OF 2 s3(2)] csafe_set_argv [OF csafeD(1) [OF s3(2)] assms(2)]] .
    obtain s4 where s4: "discardTransaction b (set_argv b (cl_argv ?cl) s3) = Some s4" "csafe a s s4"
      using csafe_discard [OF csafeD(1) [OF 3] assms(2)] csafe_trans [OF 3] by blast
    have "csafe a s4 (add_dirty 1 s4)" using csafe_outer [OF csafeD(1) [OF s4(2)] outer_dirty] by (simp add: add_dirty_def)
    then have "csafe a s (if m then add_dirty 1 s4 else s4)" using s4(2) csafe_trans by simp
    then show ?thesis using go s1(1) s3(1) s4(1) by (simp add: execCommand_def Let_def)
  qed
qed

text \<open>The requests that are covered: unknown commands, and the commands of the table whose procedure signals the keys it
  modifies or belongs to the transactions. Not covered are MOVE and PERSIST, which do not signal, KEYS, a SETRANGE whose
  end does not fit into 64 bits, the set commands, which are specified on their own, and all that is not modelled.\<close>

definition signals :: "u8 list list \<Rightarrow> bool" where
  "signals argv \<longleftrightarrow>
     (case lookupCommand (argv ! 0) of
        None \<Rightarrow> True
      | Some cmd \<Rightarrow> cmd_proc cmd \<notin> {MoveCommand, PersistCommand, KeysCommand, Other} \<and> (cmd_proc cmd = SetrangeCommand \<longrightarrow> offset_fits argv))"

lemma csafe_flag: "sound s \<Longrightarrow> b \<noteq> a \<Longrightarrow> csafe a s (flagTransaction b s)"
  unfolding flagTransaction_def by (rule csafe_upd_client) (auto dest: soundD(3) split: if_splits)

lemma csafe_run_proc:
  assumes "sound s" "b \<noteq> a" "b \<in> set (sv_client_ids s)" "lookupCommand (argv ! 0) = Some cmd" "signals argv"
  shows "\<exists>s'. run_proc ko (cmd_proc cmd) b argv s = Some s' \<and> csafe a s s'"
proof -
  consider (sig) "signalling (cmd_proc cmd)" | (exec) "cmd_proc cmd = ExecCommand" | (disc) "cmd_proc cmd = DiscardCommand"
    | (multi) "cmd_proc cmd = MultiCommand" | (watch) "cmd_proc cmd = WatchCommand" | (unwatch) "cmd_proc cmd = UnwatchCommand"
    using assms(4,5) by (auto simp: signals_def signalling_def)
  then show ?thesis
  proof cases
    case sig
    then have "cmd_proc cmd \<noteq> ExecCommand" "cmd_proc cmd = SetrangeCommand \<longrightarrow> offset_fits argv"
      using assms(4,5) by (auto simp: signalling_def signals_def)
    then have "run_proc ko (cmd_proc cmd) = proc_of ko (cmd_proc cmd)" "\<exists>s'. proc_of ko (cmd_proc cmd) b argv s = Some s' \<and> wsafe s s'"
      using wsafe_proc [OF soundD(1) [OF assms(1)] soundD(2) [OF assms(1)] sig] by (simp_all add: run_proc_def)
    then show ?thesis using csafe_wsafe [OF assms(1)] by auto
  next
    case exec
    then show ?thesis using csafe_exec [OF assms(1,2)] by (simp add: run_proc_def)
  next
    case disc
    obtain s1 where "discardTransaction b s = Some s1" "csafe a s s1" using csafe_discard [OF assms(1,2)] by blast
    then show ?thesis using disc csafe_reply [OF assms(1,2)] csafe_trans [OF _ csafe_reply [OF csafeD(1) assms(2)]]
      by (auto simp: run_proc_def discardCommand_def addReplyError_def)
  next
    case multi
    have 1: "csafe a s (upd_client b (\<lambda>cl. cl\<lparr>cl_multi := True\<rparr>) s)" by (rule csafe_upd_client [OF assms(1,2)]) (simp_all add: soundD(3) [OF assms(1)])
    then show ?thesis using multi csafe_reply [OF assms(1,2)] csafe_trans [OF 1 csafe_reply [OF csafeD(1) [OF 1] assms(2)]]
      by (auto simp: run_proc_def multiCommand_def addReplyError_def)
  next
    case watch
    note 1 = csafe_watches [OF assms(1-3), of "tl argv"]
    show ?thesis using watch csafe_reply [OF assms(1,2)] csafe_trans [OF 1 csafe_reply [OF csafeD(1) [OF 1] assms(2)]]
      by (auto simp: run_proc_def watchCommand_def addReplyError_def)
  next
    case unwatch
    then show ?thesis using csafe_unwatchCommand [OF assms(1,2)] by (simp add: run_proc_def)
  qed
qed

lemma csafe_process:
  assumes "sound s" "b \<noteq> a" "b \<in> set (sv_client_ids s)" "argv = cl_argv (sv_clients s b)" "signals argv"
  shows "\<exists>s'. processCommand g ko b s = Some s' \<and> csafe a s s'"
proof -
  note reply = csafe_reply [OF assms(1,2)]
  have flag: "csafe a s (addReply b r (flagTransaction b s))" for r
    using csafe_trans [OF csafe_flag [OF assms(1,2)] csafe_reply [OF csafeD(1) [OF csafe_flag [OF assms(1,2)]] assms(2)]] .
  show ?thesis
  proof (cases "lookupCommand (argv ! 0)")
    case None
    then show ?thesis using flag assms(4) by (simp add: processCommand_def Let_def addReplyErrorFormat_def addReplyError_def)
  next
    case (Some cmd)
    consider (arity) "(cmd_arity cmd > 0 \<and> cmd_arity cmd \<noteq> int (length argv)) \<or> int (length argv) < - cmd_arity cmd"
      | (refused) err fl where "\<not> ((cmd_arity cmd > 0 \<and> cmd_arity cmd \<noteq> int (length argv)) \<or> int (length argv) < - cmd_arity cmd)" "refuse g s cmd argv = Some (err, fl)"
      | (ok) "\<not> ((cmd_arity cmd > 0 \<and> cmd_arity cmd \<noteq> int (length argv)) \<or> int (length argv) < - cmd_arity cmd)" "refuse g s cmd argv = None"
      by (cases "refuse g s cmd argv") auto
    then show ?thesis
    proof cases
      case arity
      show ?thesis unfolding processCommand_def Let_def assms(4) [symmetric] Some option.case if_P [OF arity] addReplyErrorFormat_def addReplyError_def using flag by blast
    next
      case refused
      show ?thesis unfolding processCommand_def Let_def assms(4) [symmetric] Some option.case if_not_P [OF refused(1)] refused(2) prod.case
        using flag reply by (cases fl) auto
    next
      case ok
      note run = processCommand_def [of g ko b s, unfolded Let_def, folded assms(4), unfolded Some option.case if_not_P [OF ok(1)] ok(2)]
      show ?thesis
      proof (cases "cl_multi (sv_clients s b) \<and> queued_proc (cmd_proc cmd)")
        case True
        have "queueable argv" using True Some assms(5) by (auto simp: queueable_def signals_def signalling_def queued_proc_def)
        then have 1: "csafe a s (queueMultiCommand b s)" unfolding queueMultiCommand_def
          by (intro csafe_upd_client [OF assms(1,2)]) (auto simp: assms(4) dest: soundD(3) [OF assms(1)])
        show ?thesis unfolding run if_P [OF True] using csafe_trans [OF 1 csafe_reply [OF csafeD(1) [OF 1] assms(2)]] by blast
      next
        case False
        obtain s1 where s1: "call_with (run_proc ko (cmd_proc cmd)) b s = Some s1" "csafe a s s1"
          using csafe_call csafe_run_proc [OF assms(1-3) Some assms(5)] assms(4) by metis
        then show ?thesis unfolding run if_not_P [OF False] using soundD(5) [OF csafeD(1) [OF s1(2)]] by simp
      qed
    qed
  qed
qed

end
