(* ===== verification/Server_Props.thy ===== *)
theory Server_Props
  imports Multi_Spec
begin

text \<open>
  Properties of the server as a whole: of commands in sequence, of the passing of time, and of
  transactions among the requests of other clients; and where the code does not do what its comments say.
\<close>

section \<open>A server to try the properties on\<close>

text \<open>Two databases; the key \<^verbatim>\<open>k\<close> of the first holds 41, and client 0 watches it in an open transaction.\<close>

definition key_k :: key where
  "key_k = bytes ''k''"

definition example_db :: redisDb where
  "example_db = \<lparr>db_dict = [key_k \<mapsto> StringObj (IntEnc 41)], db_expires = Map.empty, db_watched = [key_k \<mapsto> [0]], db_blocking = {}, db_ready = {}\<rparr>"

definition empty_db :: redisDb where
  "empty_db = \<lparr>db_dict = Map.empty, db_expires = Map.empty, db_watched = Map.empty, db_blocking = {}, db_ready = {}\<rparr>"

definition idle_client :: client where
  "idle_client = \<lparr>cl_db = 0, cl_multi = False, cl_dirty_cas = False, cl_dirty_exec = False, cl_argv = [], cl_queue = [], cl_watched = [], cl_out = []\<rparr>"

definition example_server :: server where
  "example_server = \<lparr>sv_dbs = [example_db, empty_db], sv_clients = (\<lambda>_. idle_client)(0 := idle_client\<lparr>cl_multi := True, cl_watched := [(0, key_k)]\<rparr>),
     sv_client_ids = [0, 1], sv_ready_keys = [], sv_dirty = 0, sv_now = 1000, sv_lua = None, sv_loading = False, sv_slave = False, sv_hits = 0, sv_misses = 0,
     sv_expired = 0, sv_notify = 0, sv_published = [], sv_propagated = [], sv_env = example_env\<rparr>"

definition example_gate :: gate where
  "example_gate = \<lparr>gate_noauth = False, gate_misconf = None, gate_noreplicas = False, gate_slave_ro = True, gate_pubsub = False, gate_stale = False,
     gate_busy = False\<rparr>"

lemma example_server_ok: "server_ok example_server"
  by (auto simp: server_ok_def db_ok_def example_server_def example_db_def empty_db_def idle_client_def sobj_ok_def less_Suc_eq numeral_2_eq_2 split: if_splits)

lemma example_vis: "vis 0 example_server = [key_k \<mapsto> StringObj (IntEnc 41)]" "vttl 0 example_server = Map.empty"
  by (simp_all add: fun_eq_iff vis_def vttl_def expired_def example_server_def example_db_def)

lemma example_sound: "sound example_server"
proof -
  have "watch_ok example_server"
    by (auto simp: watch_ok_def watchers_def example_server_def example_db_def empty_db_def idle_client_def less_Suc_eq numeral_2_eq_2 nth_Cons'
        split: if_splits option.splits)
  moreover have "unblocked example_server"
    by (simp add: unblocked_def example_server_def example_db_def empty_db_def less_Suc_eq numeral_2_eq_2)
  ultimately show ?thesis using example_server_ok by (simp add: sound_def example_server_def idle_client_def)
qed

section \<open>Strings\<close>

text \<open>C7: What SET stores, GET returns, to every client that has selected the same database: for all byte
  strings, whatever encoding the value gets, whatever was stored at the key before and whether it had expired.\<close>

theorem set_get:
  assumes "server_ok s" "cur_db d s = cur_db c s"
  shows "\<exists>s1 s2. setCommand c [bytes ''SET'', k, v] s = Some s1 \<and> getCommand d [bytes ''GET'', k] s1 = Some s2
    \<and> cl_out (sv_clients s2 d) = cl_out (sv_clients s1 d) @ [Bulk v] \<and> server_ok s2"
proof -
  let ?v = "tryObjectEncoding (createStringObject v)" and ?i = "cur_db c s"
  obtain s1 where s1: "setCommand c [bytes ''SET'', k, v] s = Some s1"
      "performs c ?i s s1 ((vis ?i s)(k \<mapsto> StringObj ?v)) ((vttl ?i s)(k := None)) {k} [Status ''OK'']"
    using setGeneric_plain [OF assms(1), where val = ?v and name = "''set''" and nx = False and xx = False and k = k and seconds = True and okr = None and abr = None and c = c]
    by (auto simp: setCommand_def set_refused_def)
  note d1 = performsD [OF s1(2)]
  obtain s2 where s2: "getCommand d [bytes ''GET'', k] s1 = Some s2"
      "performs d (cur_db d s1) s1 s2 (vis (cur_db d s1) s1) (vttl (cur_db d s1) s1) {} [get_reply (vis (cur_db d s1) s1 ([bytes ''GET'', k] ! 1))]"
    using getCommand_spec [OF d1(1)] by blast
  have "get_reply (vis (cur_db d s1) s1 ([bytes ''GET'', k] ! 1)) = Bulk v" using assms(2) d1(2,5) by (simp add: get_reply_def)
  then show ?thesis using s1(1) s2(1) performsD(1,14) [OF s2(2)] by auto
qed

theorem set_get_witness:
  "\<exists>s1 s2. setCommand 1 [bytes ''SET'', key_k, bytes ''x''] example_server = Some s1 \<and> getCommand 0 [bytes ''GET'', key_k] s1 = Some s2
    \<and> cl_out (sv_clients s2 0) = cl_out (sv_clients s1 0) @ [Bulk (bytes ''x'')] \<and> server_ok s2"
  by (rule set_get) (simp add: example_server_ok, simp add: example_server_def idle_client_def)

lemma strtoll_range: "strtoll_all s = Some v \<Longrightarrow> int64_range v"
  by (auto simp: strtoll_all_def Let_def split: list.splits if_splits)

lemma getLongLong_range: "(\<And>x. o1 = Some x \<Longrightarrow> sobj_ok x) \<Longrightarrow> getLongLongFromObject o1 = Some v \<Longrightarrow> int64_range v"
  by (cases o1 rule: getLongLongFromObject.cases) (auto simp: sobj_ok_def dest: strtoll_range)

lemma old_number_range:
  assumes "server_ok s" "i < length (sv_dbs s)" "old_number (vis i s k) = Some n"
  shows "int64_range n"
proof (cases rule: str_cases [of "vis i s k"])
  case (str v)
  then have "db_dict (get_db i s) k = Some (StringObj v)" by (simp add: vis_def split: if_splits)
  then have "val_ok (sv_env s) (StringObj v)" by (rule server_okD(3) [OF assms(1,2)])
  then show ?thesis using str assms(3) getLongLong_range [of "Some v" n] by (simp add: old_number_def)
qed (use assms(3) in \<open>auto simp: old_number_def not_str_case\<close>)

lemma incr_overflows_iff: "int64_range n \<Longrightarrow> int64_range d \<Longrightarrow> incr_overflows d n \<longleftrightarrow> \<not> int64_range (n + d)"
  by (auto simp: incr_overflows_def)

text \<open>C8: INCRBY is exact or refuses: if the sum of the stored number (0 for no key) and the increment is a
  64 bit signed integer, the key holds its decimal notation afterwards, with the time to live it had, and
  the reply is the sum; otherwise the reply is the overflow error and no key changes. No sum wraps.\<close>

theorem incrby_exact:
  assumes "server_ok s" "i = cur_db c s" "old_number (vis i s k) = Some n" "getLongLongFromObject (arg_obj incr) = Some d"
  shows "\<exists>s'. incrbyCommand c [bytes ''INCRBY'', k, incr] s = Some s' \<and> server_ok s' \<and> vttl i s' = vttl i s \<and>
    (if int64_range (n + d)
     then (\<exists>v. vis i s' = (vis i s)(k \<mapsto> StringObj v) \<and> str_bytes v = ll_repr (n + d)) \<and> cl_out (sv_clients s' c) = cl_out (sv_clients s c) @ [IntReply (n + d)]
     else vis i s' = vis i s \<and> cl_out (sv_clients s' c) = cl_out (sv_clients s c) @ [Err ''ERR increment or decrement would overflow''])"
proof -
  let ?argv = "[bytes ''INCRBY'', k, incr]"
  have "int64_range n" using old_number_range [OF assms(1) _ assms(3)] server_ok_cur [OF assms(1)] assms(2) by simp
  moreover have "int64_range d" by (rule getLongLong_range [OF _ assms(4)]) auto
  ultimately have o: "incr_overflows d n \<longleftrightarrow> \<not> int64_range (n + d)" by (rule incr_overflows_iff)
  have run: "incrbyCommand c ?argv s = incrDecrCommand d c ?argv s"
    using assms(4) by (simp add: incrbyCommand_def getLongLongFromObjectOrReply_def del: getLongLongFromObject.simps)
  obtain s' where s': "incrDecrCommand d c ?argv s = Some s'"
      "if incr_overflows d n
       then performs c i s s' (vis i s) (vttl i s) {} [Err ''ERR increment or decrement would overflow'']
       else performs c i s s' ((vis i s)(k \<mapsto> StringObj (createStringObjectFromLongLong (n + d)))) (vttl i s) {k} [IntReply (n + d)]"
    using incrDecr_spec [OF assms(1,2), where k = k and argv = ?argv and incr = d] assms(3) by auto
  show ?thesis
  proof (cases "int64_range (n + d)")
    case True
    then have p: "performs c i s s' ((vis i s)(k \<mapsto> StringObj (createStringObjectFromLongLong (n + d)))) (vttl i s) {k} [IntReply (n + d)]"
      using s'(2) o by simp
    show ?thesis unfolding run if_P [OF True] using s'(1) performsD(1-3,14) [OF p] str_bytes_create(4) by blast
  next
    case False
    then have "incr_overflows d n" using o by blast
    then have p: "performs c i s s' (vis i s) (vttl i s) {} [Err ''ERR increment or decrement would overflow'']" using s'(2) by (simp only: if_True)
    show ?thesis unfolding run if_not_P [OF False] using s'(1) performsD(1-3,14) [OF p] by blast
  qed
qed

theorem incrby_exact_witness:
  "\<exists>s'. incrbyCommand 1 [bytes ''INCRBY'', key_k, bytes ''1''] example_server = Some s' \<and> cl_out (sv_clients s' 1) = [IntReply 42]"
proof -
  have "old_number (vis 0 example_server key_k) = Some 41" by (simp add: example_vis old_number_def)
  moreover have "getLongLongFromObject (arg_obj (bytes ''1'')) = Some 1" by code_simp
  ultimately have "\<exists>s'. incrbyCommand 1 [bytes ''INCRBY'', key_k, bytes ''1''] example_server = Some s'
      \<and> cl_out (sv_clients s' 1) = cl_out (sv_clients example_server 1) @ [IntReply (41 + 1)]"
    using incrby_exact [OF example_server_ok, where c = 1 and i = 0 and k = key_k and n = 41 and d = 1 and incr = "bytes ''1''"]
    by (auto simp: example_server_def idle_client_def)
  then show ?thesis by (auto simp: example_server_def idle_client_def)
qed

text \<open>C9: MSETNX sets all of its keys or none: if one of them exists the reply is 0 and nothing a client can
  see changes, otherwise the reply is 1, each key holds the last value given for it and no time to live.\<close>

theorem msetnx_all_or_nothing:
  assumes "server_ok s" "i = cur_db c s" "length argv mod 2 = 1"
  shows "\<exists>s'. msetnxCommand c argv s = Some s' \<and> server_ok s' \<and>
    (if \<exists>k\<in>mset_keys (tl argv). vis i s k \<noteq> None
     then vis i s' = vis i s \<and> vttl i s' = vttl i s \<and> cl_out (sv_clients s' c) = cl_out (sv_clients s c) @ [IntReply 0]
     else vis i s' = mset_map (tl argv) (vis i s) \<and> vttl i s' = (vttl i s) |` (- mset_keys (tl argv))
       \<and> cl_out (sv_clients s' c) = cl_out (sv_clients s c) @ [IntReply 1])"
proof -
  obtain s' where s': "msetGenericCommand True c argv s = Some s'"
      "if \<exists>k\<in>mset_keys (tl argv). vis i s k \<noteq> None
       then performs c i s s' (vis i s) (vttl i s) {} [IntReply 0]
       else performs c i s s' (mset_map (tl argv) (vis i s)) ((vttl i s) |` (- mset_keys (tl argv))) (mset_keys (tl argv)) [IntReply 1]"
    using msetGeneric_spec [OF assms(1,3), where nx = True and c = c] unfolding assms(2) [symmetric] simp_thms if_True by blast
  then show ?thesis using performsD(1-3,14) by (cases "\<exists>k\<in>mset_keys (tl argv). vis i s k \<noteq> None") (auto simp: msetnxCommand_def)
qed

theorem msetnx_all_or_nothing_witness:
  "\<exists>s'. msetnxCommand 1 (map bytes [''MSETNX'', ''a'', ''1'', ''k'', ''2'']) example_server = Some s' \<and> vis 0 s' = vis 0 example_server"
proof -
  have "key_k \<in> mset_keys (tl (map bytes [''MSETNX'', ''a'', ''1'', ''k'', ''2'']))" by (simp add: key_k_def)
  moreover have "vis 0 example_server key_k \<noteq> None" by (simp add: example_vis)
  ultimately show ?thesis
    using msetnx_all_or_nothing [OF example_server_ok, where c = 1 and i = 0 and argv = "map bytes [''MSETNX'', ''a'', ''1'', ''k'', ''2'']"]
    by (force simp: example_server_def idle_client_def)
qed

section \<open>Keys\<close>

text \<open>C10: RENAME of an existing key to another name moves the value and its time to live to the new name,
  whatever was stored there, removes the old name and changes no other key; the reply is OK and the watchers
  of both names are marked.\<close>

theorem rename_moves:
  assumes "server_ok s" "i = cur_db c s" "vis i s src = Some v" "src \<noteq> dst" "vttl i s src \<noteq> Some (- 1)"
  shows "\<exists>s'. renameCommand c [bytes ''RENAME'', src, dst] s = Some s' \<and> server_ok s'
    \<and> vis i s' = (vis i s)(dst \<mapsto> v, src := None) \<and> vttl i s' = (vttl i s)(dst := vttl i s src, src := None)
    \<and> cl_out (sv_clients s' c) = cl_out (sv_clients s c) @ [Status ''OK'']
    \<and> (\<forall>a\<in>watchers i src s \<union> watchers i dst s. cl_dirty_cas (sv_clients s' a))"
proof -
  let ?argv = "[bytes ''RENAME'', src, dst]"
  obtain s' where s': "renameGenericCommand False c ?argv s = Some s'"
      "performs c i s s' ((vis i s)(dst := vis i s src, src := None)) ((vttl i s)(dst := vttl i s src, src := None)) {src, dst} [Status ''OK'']"
    using renameGeneric_spec [OF assms(1,2), where argv = ?argv and src = src and dst = dst and nx = False] assms(3-5) by auto
  have "cl_dirty_cas (sv_clients s' a)" if "a \<in> watchers i src s \<union> watchers i dst s" for a using s'(2) that by (auto simp: performs_def)
  then show ?thesis using s'(1) performsD(1-3,14) [OF s'(2)] assms(3) by (simp add: renameCommand_def)
qed

theorem rename_moves_witness:
  "\<exists>s'. renameCommand 1 [bytes ''RENAME'', key_k, bytes ''n''] example_server = Some s' \<and> vis 0 s' = [bytes ''n'' \<mapsto> StringObj (IntEnc 41)]
    \<and> cl_dirty_cas (sv_clients s' 0)"
proof -
  have n: "key_k \<noteq> bytes ''n''" by (simp add: key_k_def bytes_def)
  have w: "0 \<in> watchers 0 key_k example_server" by (simp add: watchers_def example_server_def example_db_def)
  have m: "[key_k \<mapsto> StringObj (IntEnc 41)](bytes ''n'' \<mapsto> StringObj (IntEnc 41), key_k := None) = [bytes ''n'' \<mapsto> StringObj (IntEnc 41)]"
    using n by (auto simp: fun_eq_iff)
  have "0 = cur_db 1 example_server" by (simp add: example_server_def idle_client_def)
  from rename_moves [OF example_server_ok this, of key_k "StringObj (IntEnc 41)" "bytes ''n''"]
  show ?thesis using n w m by (auto simp: example_vis)
qed

lemma server_ok_clock: "server_ok (s\<lparr>sv_now := t\<rparr>) = server_ok s"
  by (simp add: server_ok_def)

lemma watchers_clock: "watchers i k (s\<lparr>sv_now := t\<rparr>) = watchers i k s"
  by (simp add: watchers_def)

text \<open>C11: A key with EXPIRE lives exactly as long as asked for: after EXPIRE with a positive number of
  seconds that fits, at every later time up to the deadline GET replies as it would have before, and at every time
  behind it GET replies that there is no such key.\<close>

theorem expire_deadline:
  assumes "server_ok s" "i = cur_db c s" "vis i s k \<noteq> None" "\<not> sv_loading s" "\<not> sv_slave s" "sv_lua s = None" "0 \<le> sv_now s"
    and "getLongLongFromObject (arg_obj secs) = Some n" "0 < n" "n * 1000 + sv_now s < 2 ^ 63" "sv_now s \<le> t"
  shows "\<exists>s1 s2. expireCommand c [bytes ''EXPIRE'', k, secs] s = Some s1 \<and> getCommand c [bytes ''GET'', k] (s1\<lparr>sv_now := t\<rparr>) = Some s2
    \<and> cl_out (sv_clients s2 c) = cl_out (sv_clients s c) @ [IntReply 1, if t \<le> sv_now s + n * 1000 then get_reply (vis i s k) else NullBulk]"
proof -
  let ?w = "n * 1000 + sv_now s" and ?argv = "[bytes ''EXPIRE'', k, secs]"
  have w: "expire_at (sv_now s) True n = ?w" using assms(7,9,10) by (simp add: expire_at_def ll_wrap_id)
  have nl: "\<not> lapsed s ?w" using assms(6,7,9) by (simp add: lapsed_def time_of_def)
  obtain s1 where s1: "expireCommand c ?argv s = Some s1" "performs c i s s1 (vis i s) ((vttl i s)(k \<mapsto> ?w)) {k} [IntReply 1]"
    using expireGeneric_spec [OF assms(1,2), where k = k and argv = ?argv and v = n and seconds = True and basetime = "sv_now s", OF _ _ refl] assms(3,8,9) w nl
    by (auto simp: expireCommand_def with_ttl_def ttl_with_def simp del: getLongLongFromObject.simps)
  note d = performsD [OF s1(2)]
  let ?s = "s1\<lparr>sv_now := t\<rparr>"
  have ok: "server_ok ?s" and i: "cur_db c ?s = i" using d(1,5) assms(2) by (simp_all add: server_ok_clock)
  have "\<not> expired i s1 k" "db_expires (get_db i s1) k = Some ?w" "db_dict (get_db i s1) k = vis i s k"
    using fun_cong [OF d(2), of k] fun_cong [OF d(3), of k] by (auto simp: vis_def vttl_def split: if_splits)
  moreover have "sv_lua s1 = None" using s1(2) assms(6) by (simp add: performs_def)
  ultimately have v: "vis i ?s k = (if t \<le> ?w then vis i s k else None)"
    using assms(4,5,7,9) d(7,8) by (simp add: vis_def expired_def time_of_def)
  obtain s2 where "getCommand c [bytes ''GET'', k] ?s = Some s2"
      "performs c i ?s s2 (vis i ?s) (vttl i ?s) {} [get_reply (vis i ?s ([bytes ''GET'', k] ! 1))]"
    using getCommand_spec [OF ok, of c "[bytes ''GET'', k]"] i by auto
  then show ?thesis using s1(1) d(14) v performsD(14) by (fastforce simp: get_reply_def add.commute)
qed

theorem expire_deadline_witness:
  "\<exists>s1 s2. expireCommand 1 [bytes ''EXPIRE'', key_k, bytes ''10''] example_server = Some s1
    \<and> getCommand 1 [bytes ''GET'', key_k] (s1\<lparr>sv_now := 11001\<rparr>) = Some s2 \<and> cl_out (sv_clients s2 1) = [IntReply 1, NullBulk]"
proof -
  have n: "getLongLongFromObject (arg_obj (bytes ''10'')) = Some 10" by code_simp
  show ?thesis
    using expire_deadline [OF example_server_ok, where c = 1 and i = 0 and k = key_k and secs = "bytes ''10''" and n = 10 and t = 11001] n
    by (simp add: example_vis) (simp add: example_server_def idle_client_def)
qed

section \<open>Commands and transactions\<close>

text \<open>C6: The string commands GET, SET, SETNX, SETEX, PSETEX, APPEND, STRLEN, SETRANGE, GETRANGE, INCR, DECR, INCRBY,
  DECRBY, GETSET, MGET, MSET and MSETNX and the key commands DEL, EXISTS, SELECT, RENAME, RENAMENX, EXPIRE, EXPIREAT, PEXPIRE,
  PEXPIREAT, TTL, PTTL, TYPE, DBSIZE, FLUSHDB and FLUSHALL, with any arguments, return without running into an
  assertion, keep the invariant of the keyspace and the agreement of the watch lists, and mark every client that watches a
  key whose value or time to live is not as before. SETRANGE is covered if the sum of its offset and the length of its value
  fits into 64 bits (it runs into an assertion otherwise). MOVE and PERSIST do not signal; KEYS, the transaction commands
  and the set commands are not among these.\<close>

theorem commands_keep_contract:
  assumes "server_ok s" "watch_ok s" "signalling p" "p = SetrangeCommand \<longrightarrow> offset_fits argv"
  shows "\<exists>s'. proc_of ko p c argv s = Some s' \<and> server_ok s' \<and> watch_ok s'
    \<and> (\<forall>j<length (sv_dbs s). \<forall>k. \<forall>a\<in>watchers j k s. vis j s' k = vis j s k \<and> vttl j s' k = vttl j s k \<or> cl_dirty_cas (sv_clients s' a))"
proof -
  obtain s' where s': "proc_of ko p c argv s = Some s'" "wsafe s s'" using wsafe_proc [OF assms] by blast
  have "\<forall>j<length (sv_dbs s). \<forall>k. \<forall>a\<in>watchers j k s. vis j s' k = vis j s k \<and> vttl j s' k = vttl j s k \<or> cl_dirty_cas (sv_clients s' a)"
    using wsafeD(3) [OF s'(2)] unfolding same_key_def by blast
  then show ?thesis using s'(1) wsafeD(1,2) [OF s'(2)] watch_ok_same assms(2) by blast
qed

theorem commands_keep_contract_witness:
  "\<exists>s'. proc_of (\<lambda>_. []) FlushallCommand 1 [bytes ''FLUSHALL''] example_server = Some s' \<and> server_ok s' \<and> watch_ok s'"
proof -
  have "watch_ok example_server" using example_sound by (simp add: sound_def)
  then show ?thesis using commands_keep_contract [OF example_server_ok, of FlushallCommand "[bytes ''FLUSHALL'']" "\<lambda>_. []" 1] by (auto simp: signalling_def)
qed





lemma example_lookup:
  "lookupCommand (bytes ''SET'') = Some \<lparr>cmd_name = ''set'', cmd_proc = SetCommand, cmd_arity = - 3, cmd_flags = ''wm''\<rparr>"
  by code_simp


section \<open>Where the code departs from its intention\<close>

text \<open>C40: PERSIST looks the key up without looking at the clock: a key whose time to live has passed, which
  no other command sees any more, comes back to life when it has not been purged yet.\<close>

theorem persist_revives_expired:
  assumes "server_ok s" "i = cur_db c s" "db_dict (get_db i s) k = Some v" "expired i s k"
  shows "\<exists>s'. vis i s k = None \<and> persistCommand c [bytes ''PERSIST'', k] s = Some s' \<and> vis i s' k = Some v \<and> vttl i s' k = None
    \<and> cl_out (sv_clients s' c) = cl_out (sv_clients s c) @ [IntReply 1]"
proof -
  obtain s' where s': "persistCommand c [bytes ''PERSIST'', k] s = Some s'"
      "performs c i s s' ((vis i s)(k := Some v)) ((vttl i s)(k := None)) {} [IntReply 1]"
    using persistCommand_spec [OF assms(1,2), where k = k and argv = "[bytes ''PERSIST'', k]"] assms(3,4)
    by (auto simp: dbExists_def expired_def split: option.splits)
  then show ?thesis using performsD(2,3,14) [OF s'(2)] expired_not_vis(1) [OF assms(4)] by simp
qed

definition late_server :: server where
  "late_server = example_server\<lparr>sv_dbs := [example_db\<lparr>db_expires := [key_k \<mapsto> 999]\<rparr>, empty_db]\<rparr>"

theorem persist_revives_expired_witness:
  "\<exists>s'. vis 0 late_server key_k = None \<and> persistCommand 1 [bytes ''PERSIST'', key_k] late_server = Some s' \<and> vis 0 s' key_k = Some (StringObj (IntEnc 41))"
proof -
  have "server_ok late_server"
    by (auto simp: late_server_def server_ok_def db_ok_def example_server_def example_db_def empty_db_def idle_client_def sobj_ok_def less_Suc_eq numeral_2_eq_2 split: if_splits)
  moreover have "expired 0 late_server key_k" "db_dict (get_db 0 late_server) key_k = Some (StringObj (IntEnc 41))" "0 = cur_db 1 late_server"
    by (simp_all add: expired_def late_server_def example_server_def example_db_def time_of_def idle_client_def)
  ultimately show ?thesis using persist_revives_expired [of late_server 0 1 key_k "StringObj (IntEnc 41)"] by blast
qed

text \<open>SELECT passes the number it has read, a \<^verbatim>\<open>long\<close>, on as an \<^verbatim>\<open>int\<close>: with two databases, SELECT 4294967297
  replies OK and selects database 1 instead of the error for an index out of range.\<close>

theorem select_wraps:
  "\<exists>s'. selectCommand 1 [bytes ''SELECT'', bytes ''4294967297''] example_server = Some s' \<and> cur_db 1 s' = 1
    \<and> cl_out (sv_clients s' 1) = [Status ''OK'']"
proof -
  have n: "getLongLongFromObject (arg_obj (bytes ''4294967297'')) = Some 4294967297"
    by (simp add: createStringObject_def createEmbeddedStringObject_def REDIS_ENCODING_EMBSTR_SIZE_LIMIT_def strtoll_all_def bytes_def isspace_def is_digit_def digit_val_def Let_def)
  have "sign_extend 4 4294967297 = 1" by (simp add: sign_extend_def Let_def)
  then have "selectDb 1 (sign_extend 4 4294967297) example_server = Some (upd_client 1 (\<lambda>cl. cl\<lparr>cl_db := 1\<rparr>) example_server)"
    by (simp add: selectDb_def example_server_def)
  then show ?thesis
    using n by (simp add: selectCommand_def getLongFromObjectOrReply_def getLongLongFromObjectOrReply_def del: getLongLongFromObject.simps)
      (simp add: addReply_def upd_client_def example_server_def idle_client_def)
qed

text \<open>EXPIRE multiplies the seconds by 1000 without a check: a number of seconds that is large enough wraps to
  a time in the past and the key is deleted.\<close>

theorem expire_wraps_deletes:
  assumes "server_ok s" "i = cur_db c s" "vis i s k \<noteq> None" "\<not> sv_loading s" "\<not> sv_slave s" "0 \<le> sv_now s" "sv_now s < 2 ^ 62"
    and "getLongLongFromObject (arg_obj secs) = Some 9223372036854776"
  shows "\<exists>s'. expireCommand c [bytes ''EXPIRE'', k, secs] s = Some s' \<and> vis i s' k = None"
proof -
  let ?argv = "[bytes ''EXPIRE'', k, secs]"
  have m: "ll_wrap (9223372036854776 * 1000) = - 9223372036854775616" by (simp add: ll_wrap_def sign_extend_def Let_def)
  have w: "expire_at (sv_now s) True 9223372036854776 = - 9223372036854775616 + sv_now s"
    unfolding expire_at_def if_True m using assms(6,7) by (intro ll_wrap_id) simp_all
  obtain s' where "expireCommand c ?argv s = Some s'" "performs c i s s' ((vis i s)(k := None)) ((vttl i s)(k := None)) {k} [IntReply 1]"
    using expireGeneric_spec [OF assms(1,2), where k = k and argv = ?argv and v = 9223372036854776 and seconds = True and basetime = "sv_now s", OF _ _ refl] assms(3-8) w
    by (auto simp: expireCommand_def simp del: getLongLongFromObject.simps)
  then show ?thesis using performsD(2) by fastforce
qed

text \<open>MOVE changes two keys without signalling them, and the moved key loses its time to live: the clients that
  watch one of them are not marked.\<close>

theorem move_does_not_signal:
  assumes "server_ok s" "cur_db c s = 0" "length (sv_dbs s) = 2" "vis 0 s k = Some v" "vis 1 s k = None"
  shows "\<exists>s'. moveCommand c [bytes ''MOVE'', k, bytes ''1''] s = Some s' \<and> vis 0 s' k = None \<and> vis 1 s' k = Some v
    \<and> vttl 1 s' = vttl 1 s \<and> cl_dirty_cas (sv_clients s' a) = cl_dirty_cas (sv_clients s a)"
proof -
  have n: "getLongLongFromObject (arg_obj ([bytes ''MOVE'', k, bytes ''1''] ! 2)) = Some 1" by (simp, code_simp)
  show ?thesis
    using moveCommand_spec [OF assms(1), where src = 0 and c = c and k = k and argv = "[bytes ''MOVE'', k, bytes ''1'']" and dbid = 1 and dst = 1 and v = v and a = a, OF _ _ n] assms(2-5)
    by auto
qed

text \<open>A write that a read only replica refuses inside of a transaction does not flag it, although every error while
  queueing should: the rest of the transaction is executed by EXEC.\<close>

theorem readonly_refusal_not_flagged:
  assumes "cl_argv (sv_clients s c) = map bytes [''SET'', ''k'', ''v'']" "cl_multi (sv_clients s c)" "sv_slave s"
    "g = example_gate"
  shows "processCommand g ko c s = Some (addReply c roslaveerr s)"
  using assms example_lookup
  by (simp add: processCommand_def Let_def refuse_def example_gate_def has_flag_def)

text \<open>DECRBY negates its argument: the smallest number is its own negation, and instead of the overflow error
  the counter 0 becomes the smallest number.\<close>

theorem decrby_min_wraps:
  assumes "server_ok s" "i = cur_db c s" "old_number (vis i s k) = Some 0" "getLongLongFromObject (arg_obj d) = Some (- (2 ^ 63))"
  shows "\<exists>s'. decrbyCommand c [bytes ''DECRBY'', k, d] s = Some s' \<and> cl_out (sv_clients s' c) = cl_out (sv_clients s c) @ [IntReply (- (2 ^ 63))]"
proof -
  let ?argv = "[bytes ''DECRBY'', k, d]"
  have "ll_wrap (- (- (2 ^ 63))) = - (2 ^ 63)" by (simp add: ll_wrap_def sign_extend_def Let_def)
  then have run: "decrbyCommand c ?argv s = incrDecrCommand (- (2 ^ 63)) c ?argv s"
    using assms(4) by (simp add: decrbyCommand_def getLongLongFromObjectOrReply_def del: getLongLongFromObject.simps)
  obtain s' where "incrDecrCommand (- (2 ^ 63)) c ?argv s = Some s'"
      "performs c i s s' ((vis i s)(k \<mapsto> StringObj (createStringObjectFromLongLong (- (2 ^ 63))))) (vttl i s) {k} [IntReply (- (2 ^ 63))]"
    using incrDecr_spec [OF assms(1,2), where k = k and argv = ?argv and incr = "- (2 ^ 63)"] assms(3) by (auto simp: incr_overflows_def)
  then show ?thesis using run performsD(14) by auto
qed

text \<open>SETRANGE adds the offset and the length without a check: with the largest offset the sum is negative, passes
  the limit on the length of strings, and the allocation aborts the server.\<close>

theorem setrange_wraps_aborts:
  assumes "server_ok s" "i = cur_db c s" "vis i s k = None" "getLongLongFromObject (arg_obj offset) = Some (2 ^ 63 - 1)" "length v = 1"
  shows "setrangeCommand c [bytes ''SETRANGE'', k, offset, v] s = None"
proof -
  have il: "i < length (sv_dbs s)" using server_ok_cur [OF assms(1)] by (simp add: assms(2))
  obtain s1 where s1: "lookupKeyWrite i k s = Some (s1, None)" using looked_up_write [OF assms(1) il, of k c] assms(3) by auto
  have w: "ll_wrap (2 ^ 63 - 1 + 1) = - (2 ^ 63)" by (simp add: ll_wrap_def sign_extend_def Let_def)
  have o: "overwrite_at [] (nat (2 ^ 63 - 1)) v = None" using assms(5) by (simp add: overwrite_at_def)
  have "v \<noteq> []" using assms(5) by auto
  then show ?thesis using s1 w o assms(4,5) unfolding assms(2)
    by (simp add: setrangeCommand_def Let_def getLongFromObjectOrReply_def getLongLongFromObjectOrReply_def checkStringLength_def
        del: getLongLongFromObject.simps split: Option.bind_split)
qed

end
