(* ===== verification/Query_Parser.thy ===== *)
theory Query_Parser
  imports Sds Util
begin

text \<open>
  The request parser of \<^verbatim>\<open>networking.c\<close>: \<^verbatim>\<open>processInlineBuffer\<close>, \<^verbatim>\<open>processMultibulkBuffer\<close> and what they call. The
  record \<open>query\<close> has the fields of a client that hold the state of the parser between two reads. The query buffer
  is given by its bytes (\<open>Sds\<close> proves that \<^verbatim>\<open>sdsrange (s, n, -1)\<close> drops \<open>n\<close> of them); a bulk length of \<open>-1\<close>, which is
  unknown, is \<open>None\<close>; lengths stay below \<open>2 ^ 31\<close>, so that the casts to \<^verbatim>\<open>int\<close> lose nothing. The second half of the
  theory gives the encoding of a request and shows that the parser inverts it, whatever the pieces in which the
  bytes come.
\<close>

definition REDIS_INLINE_MAX_SIZE :: nat where
  "REDIS_INLINE_MAX_SIZE = 65536"

definition REDIS_MBULK_BIG_ARG :: nat where
  "REDIS_MBULK_BIG_ARG = 32768"

datatype reqtype = REQ_NONE | REQ_INLINE | REQ_MULTIBULK

record query =
  querybuf :: "u8 list"
  reqtype :: reqtype
  multibulklen :: nat
  bulklen :: "nat option"
  q_argv :: "u8 list list"
  close_after_reply :: bool

datatype parse = ParseOk query | ParseMore query | ParseError string query

text \<open>\<^verbatim>\<open>strchr\<close> on a string that ends at its first zero byte, as an offset.\<close>

fun strchr_pos :: "u8 list \<Rightarrow> u8 \<Rightarrow> nat option" where
  "strchr_pos [] c = None"
| "strchr_pos (x # xs) c = (if x = c then Some 0 else if x = 0 then None else map_option Suc (strchr_pos xs c))"

definition freshClient :: query where
  "freshClient = \<lparr>querybuf = [], reqtype = REQ_NONE, multibulklen = 0, bulklen = None, q_argv = [], close_after_reply = False\<rparr>"

definition resetClient :: "query \<Rightarrow> query" where
  "resetClient q = q\<lparr>q_argv := [], reqtype := REQ_NONE, multibulklen := 0, bulklen := None\<rparr>"

definition setProtocolError :: "query \<Rightarrow> nat \<Rightarrow> query" where
  "setProtocolError q pos = q\<lparr>close_after_reply := True, querybuf := drop pos (querybuf q)\<rparr>"

section \<open>Inline requests\<close>

definition processInlineBuffer :: "(nat \<Rightarrow> u8) \<Rightarrow> query \<Rightarrow> parse option" where
  "processInlineBuffer junk q =
     (let buf = querybuf q
      in case strchr_pos buf 10 of
           None \<Rightarrow>
             Some (if length buf > REDIS_INLINE_MAX_SIZE
                   then ParseError ''Protocol error: too big inline request'' (setProtocolError q 0) else ParseMore q)
         | Some newline \<Rightarrow>
             let querylen = (if newline \<noteq> 0 \<and> buf ! (newline - 1) = 13 then newline - 1 else newline)
             in do {
               argv \<leftarrow> sdssplitargs junk (take querylen buf @ [0]) [];
               (case argv of
                  None \<Rightarrow> Some (ParseError ''Protocol error: unbalanced quotes in request'' (setProtocolError q 0))
                | Some toks \<Rightarrow>
                    Some (ParseOk (q\<lparr>querybuf := drop (querylen + 2) buf, q_argv := filter (\<lambda>a. a \<noteq> []) (map sds_val toks)\<rparr>))) })"

section \<open>Multi bulk requests\<close>

text \<open>The length of the next argument: not yet complete; an error with the position that \<^verbatim>\<open>setProtocolError\<close> is given;
  or the length, with the buffer and the position after it.\<close>

datatype bulk_header = BulkMore | BulkError string nat | BulkLen nat "u8 list" nat

definition expected_dollar :: "u8 \<Rightarrow> string" where
  "expected_dollar b =
     ''Protocol error: expected '' @ [CHR 0x27, CHR ''$'', CHR 0x27] @ '', got '' @ [CHR 0x27] @
     (if b = 0 then [] else [if b = 10 \<or> b = 13 then CHR '' '' else char_of (unat b), CHR 0x27])"

definition mb_bulklen :: "u8 list \<Rightarrow> nat \<Rightarrow> bulk_header" where
  "mb_bulklen buf pos =
     (case strchr_pos (drop pos buf) 13 of
        None \<Rightarrow>
          if length buf > REDIS_INLINE_MAX_SIZE then BulkError ''Protocol error: too big bulk count string'' 0 else BulkMore
      | Some n \<Rightarrow>
          let newline = pos + n
          in if int newline > int (length buf) - 2 then BulkMore
             else if buf ! pos \<noteq> ch CHR ''$'' then BulkError (expected_dollar (buf ! pos)) pos
             else (case string2ll (take (newline - (pos + 1)) (drop (pos + 1) buf)) of
                     None \<Rightarrow> BulkError ''Protocol error: invalid bulk length'' pos
                   | Some ll \<Rightarrow>
                       if ll < 0 \<or> ll > 512 * 1024 * 1024 then BulkError ''Protocol error: invalid bulk length'' pos
                       else if nat ll \<ge> REDIS_MBULK_BIG_ARG then BulkLen (nat ll) (drop (newline + 2) buf) 0
                       else BulkLen (nat ll) buf (newline + 2)))"

text \<open>The loop over the arguments. It ends with the values of \<^verbatim>\<open>multibulklen\<close>, \<^verbatim>\<open>bulklen\<close>, the buffer, the position
  and the argument vector.\<close>

datatype mb_end = MbEnd nat "nat option" "u8 list" nat "u8 list list" | MbError string nat nat "u8 list" "u8 list list"

fun mb_loop :: "nat \<Rightarrow> nat option \<Rightarrow> u8 list \<Rightarrow> nat \<Rightarrow> u8 list list \<Rightarrow> mb_end" where
  "mb_loop 0 bl buf pos argv = MbEnd 0 bl buf pos argv"
| "mb_loop (Suc m) bl buf pos argv =
     (case (case bl of Some l \<Rightarrow> BulkLen l buf pos | None \<Rightarrow> mb_bulklen buf pos) of
        BulkMore \<Rightarrow> MbEnd (Suc m) None buf pos argv
      | BulkError err p \<Rightarrow> MbError err p (Suc m) buf argv
      | BulkLen l buf pos \<Rightarrow>
          if length buf - pos < l + 2 then MbEnd (Suc m) (Some l) buf pos argv
          else if pos = 0 \<and> l \<ge> REDIS_MBULK_BIG_ARG \<and> length buf = l + 2
          then mb_loop m None [] 0 (argv @ [take l buf])
          else mb_loop m None buf (pos + (l + 2)) (argv @ [take l (drop pos buf)]))"

definition mb_args :: "query \<Rightarrow> nat \<Rightarrow> parse" where
  "mb_args q pos =
     (case mb_loop (multibulklen q) (bulklen q) (querybuf q) pos (q_argv q) of
        MbError err p m buf argv \<Rightarrow>
          ParseError err (setProtocolError (q\<lparr>multibulklen := m, bulklen := None, querybuf := buf, q_argv := argv\<rparr>) p)
      | MbEnd m bl buf p argv \<Rightarrow>
          let q' = q\<lparr>multibulklen := m, bulklen := bl, querybuf := drop p buf, q_argv := argv\<rparr>
          in if m = 0 then ParseOk q' else ParseMore q')"

definition processMultibulkBuffer :: "query \<Rightarrow> parse option" where
  "processMultibulkBuffer q =
     (let buf = querybuf q
      in if multibulklen q \<noteq> 0 then Some (mb_args q 0)
         else if q_argv q \<noteq> [] then None
         else (case strchr_pos buf 13 of
                 None \<Rightarrow>
                   Some (if length buf > REDIS_INLINE_MAX_SIZE
                         then ParseError ''Protocol error: too big mbulk count string'' (setProtocolError q 0) else ParseMore q)
               | Some newline \<Rightarrow>
                   if int newline > int (length buf) - 2 then Some (ParseMore q)
                   else if buf ! 0 \<noteq> ch CHR ''*'' then None
                   else
                     let invalid = Some (ParseError ''Protocol error: invalid multibulk length'' (setProtocolError q 0))
                     in (case string2ll (take (newline - 1) (drop 1 buf)) of
                           None \<Rightarrow> invalid
                         | Some ll \<Rightarrow>
                             if ll > 1024 * 1024 then invalid
                             else if ll \<le> 0 then Some (ParseOk (q\<lparr>querybuf := drop (newline + 2) buf\<rparr>))
                             else Some (mb_args (q\<lparr>multibulklen := nat ll\<rparr>) (newline + 2)))))"

section \<open>A parsed request has been taken out of the buffer\<close>

lemma strchr_pos_less: "strchr_pos xs c = Some n \<Longrightarrow> n < length xs"
  by (induction xs arbitrary: n) (auto split: if_splits)

lemma mb_bulklen_shrinks:
  assumes "mb_bulklen buf pos = BulkLen l buf' pos'" "pos \<le> length buf"
  shows "pos' \<le> length buf' \<and> length buf' - pos' \<le> length buf - pos"
  using assms strchr_pos_less [of "drop pos buf" 13]
  by (auto simp: mb_bulklen_def Let_def split: option.splits if_splits)

lemma mb_loop_shrinks:
  "mb_loop m bl buf pos argv = MbEnd m' bl' buf' pos' argv' \<Longrightarrow> pos \<le> length buf \<Longrightarrow>
   pos' \<le> length buf' \<and> length buf' - pos' + 2 * (m - m') \<le> length buf - pos \<and> m' \<le> m"
proof (induction m arbitrary: bl buf pos argv)
  case (Suc m)
  show ?case
  proof (cases "case bl of Some l \<Rightarrow> BulkLen l buf pos | None \<Rightarrow> mb_bulklen buf pos")
    case (BulkLen l buf1 pos1)
    then have one: "pos1 \<le> length buf1 \<and> length buf1 - pos1 \<le> length buf - pos"
      using Suc.prems(2) mb_bulklen_shrinks by (auto split: option.splits)
    show ?thesis
    proof (cases "length buf1 - pos1 < l + 2")
      case True
      with BulkLen Suc.prems one show ?thesis by auto
    next
      case False
      consider (whole) "mb_loop m None [] 0 (argv @ [take l buf1]) = MbEnd m' bl' buf' pos' argv'"
        | (part) "mb_loop m None buf1 (pos1 + (l + 2)) (argv @ [take l (drop pos1 buf1)]) = MbEnd m' bl' buf' pos' argv'"
        using False BulkLen Suc.prems(1) by (auto split: if_splits)
      then show ?thesis
      proof cases
        case whole
        show ?thesis using Suc.IH [OF whole] False one by auto
      next
        case part
        have "pos1 + (l + 2) \<le> length buf1" using False one by linarith
        with Suc.IH [OF part this] one show ?thesis by (auto simp: Suc_diff_le)
      qed
    qed
  qed (use Suc.prems in auto)
qed auto

lemma mb_args_ok:
  assumes "mb_args q pos = ParseOk q'" "pos \<le> length (querybuf q)"
  shows "length (querybuf q') + 2 * multibulklen q \<le> length (querybuf q) - pos"
  using assms mb_loop_shrinks [of "multibulklen q" "bulklen q" "querybuf q" pos "q_argv q"]
  by (fastforce simp: mb_args_def Let_def split: mb_end.splits if_splits)

lemma processMultibulkBuffer_shrinks:
  assumes "processMultibulkBuffer q = Some (ParseOk q')" "querybuf q \<noteq> []"
  shows "length (querybuf q') < length (querybuf q)"
proof (cases "multibulklen q = 0")
  case True
  then obtain newline ll where n: "strchr_pos (querybuf q) 13 = Some newline"
      "int newline \<le> int (length (querybuf q)) - 2"
    and "q' = q\<lparr>querybuf := drop (newline + 2) (querybuf q)\<rparr>
         \<or> mb_args (q\<lparr>multibulklen := nat ll\<rparr>) (newline + 2) = ParseOk q'"
    using assms(1) by (auto simp: processMultibulkBuffer_def Let_def split: option.splits if_splits)
  then show ?thesis using mb_args_ok [of "q\<lparr>multibulklen := nat ll\<rparr>" "newline + 2" q'] by auto
next
  case False
  then have "mb_args q 0 = ParseOk q'" using assms(1) by (simp add: processMultibulkBuffer_def Let_def)
  then show ?thesis using mb_args_ok [of q 0 q'] False by auto
qed

lemma processInlineBuffer_shrinks:
  assumes "processInlineBuffer junk q = Some (ParseOk q')" "querybuf q \<noteq> []"
  shows "length (querybuf q') < length (querybuf q)"
  using assms by (auto simp: processInlineBuffer_def Let_def split: option.splits if_splits bind_splits)

section \<open>The encoding of requests\<close>

definition enc_bulk :: "u8 list \<Rightarrow> u8 list" where
  "enc_bulk a = ch CHR ''$'' # dec (length a) @ [13, 10] @ a @ [13, 10]"

definition enc_req :: "u8 list list \<Rightarrow> u8 list" where
  "enc_req argv = ch CHR ''*'' # dec (length argv) @ [13, 10] @ concat (map enc_bulk argv)"

definition req_ok :: "u8 list list \<Rightarrow> bool" where
  "req_ok argv \<longleftrightarrow> argv \<noteq> [] \<and> length argv \<le> 1024 * 1024 \<and> (\<forall>a\<in>set argv. length a \<le> 512 * 1024 * 1024)"

lemma dec_plain [simp]: "13 \<notin> set (dec n)" "0 \<notin> set (dec n)"
  using dec_digits(1) [of n] by (auto simp: is_digit_def)

lemma string2ll_dec: "n < 2 ^ 63 \<Longrightarrow> string2ll (dec n) = Some (int n)"
  by (simp add: string2ll_iff ll_repr_def)

lemma strchr_line:
  "xs @ rest = h @ 13 # t \<Longrightarrow> 13 \<notin> set h \<Longrightarrow> 0 \<notin> set h \<Longrightarrow>
   strchr_pos xs 13 = (if length h < length xs then Some (length h) else None)"
proof (induction h arbitrary: xs)
  case Nil
  then show ?case by (cases xs) auto
next
  case (Cons c h)
  then show ?case by (cases xs) auto
qed

text \<open>A line of the protocol in a buffer that holds the beginning of what is to come.\<close>

lemma line_read:
  assumes "drop pos buf @ rest = c # dec n @ 13 # 10 # t" "c \<noteq> 13" "c \<noteq> 0" "pos \<le> length buf"
  defines "k \<equiv> length (dec n)"
  shows "length buf - pos \<le> k + 1 \<Longrightarrow> strchr_pos (drop pos buf) 13 = None"
    and "length buf - pos = k + 2 \<Longrightarrow> strchr_pos (drop pos buf) 13 = Some (k + 1)"
    and "k + 3 \<le> length buf - pos \<Longrightarrow> strchr_pos (drop pos buf) 13 = Some (k + 1) \<and> buf ! pos = c
           \<and> take k (drop (pos + 1) buf) = dec n \<and> drop (pos + (k + 3)) buf @ rest = t"
proof -
  have line: "drop pos buf @ rest = (c # dec n) @ 13 # (10 # t)" using assms(1) by simp
  note find = strchr_line [OF line]
  show "length buf - pos \<le> k + 1 \<Longrightarrow> strchr_pos (drop pos buf) 13 = None"
    using find assms by simp
  show "length buf - pos = k + 2 \<Longrightarrow> strchr_pos (drop pos buf) 13 = Some (k + 1)"
    using find assms by simp
  assume len: "k + 3 \<le> length buf - pos"
  have pre: "take (k + 3) (drop pos buf) = c # dec n @ [13, 10]"
    using arg_cong [OF assms(1), of "take (k + 3)"] len by (simp add: k_def numeral_3_eq_3)
  have "buf ! pos = c"
    using arg_cong [OF pre, of "\<lambda>x. x ! 0"] len by simp
  moreover have "take k (drop (pos + 1) buf) = dec n"
    using arg_cong [OF pre, of "\<lambda>x. take k (drop 1 x)"] by (simp add: k_def drop_take add.commute)
  moreover have "drop (pos + (k + 3)) buf @ rest = t"
    using arg_cong [OF assms(1), of "drop (k + 3)"] len by (simp add: k_def numeral_3_eq_3 add.commute)
  ultimately show "strchr_pos (drop pos buf) 13 = Some (k + 1) \<and> buf ! pos = c
      \<and> take k (drop (pos + 1) buf) = dec n \<and> drop (pos + (k + 3)) buf @ rest = t"
    using find assms len by simp
qed

lemma mb_bulklen_found:
  assumes "drop pos buf @ rest = enc_bulk a @ t" "length a \<le> 512 * 1024 * 1024" "pos \<le> length buf"
  defines "k \<equiv> length (dec (length a)) + 3"
  assumes long: "k \<le> length buf - pos"
  shows "mb_bulklen buf pos = (if length a \<ge> REDIS_MBULK_BIG_ARG then BulkLen (length a) (drop (pos + k) buf) 0 else BulkLen (length a) buf (pos + k))
      \<and> drop (pos + k) buf @ rest = a @ [13, 10] @ t"
proof -
  have line: "drop pos buf @ rest = ch CHR ''$'' # dec (length a) @ 13 # 10 # a @ [13, 10] @ t"
    using assms(1) by (simp add: enc_bulk_def)
  have "(ch CHR ''$'' :: u8) \<noteq> 13" "(ch CHR ''$'' :: u8) \<noteq> 0" by simp_all
  note found = line_read(3) [OF line this assms(3) long [unfolded k_def]]
  have "string2ll (take (pos + (length (dec (length a)) + 1) - (pos + 1)) (drop (pos + 1) buf)) = Some (int (length a))"
    using found string2ll_dec [of "length a"] assms(2) by simp
  moreover have "\<not> int (pos + (length (dec (length a)) + 1)) > int (length buf) - 2" using long assms(3) by (simp add: k_def)
  ultimately show ?thesis
    using found assms(2) by (simp add: mb_bulklen_def Let_def k_def numeral_3_eq_3)
qed

lemma mb_bulklen_more:
  assumes "drop pos buf @ rest = enc_bulk a @ t" "pos \<le> length buf" "length buf - pos < length (dec (length a)) + 3"
  shows "mb_bulklen buf pos
         = (if length buf > REDIS_INLINE_MAX_SIZE \<and> length buf - pos \<le> length (dec (length a)) + 1
            then BulkError ''Protocol error: too big bulk count string'' 0 else BulkMore)"
proof -
  have line: "drop pos buf @ rest = ch CHR ''$'' # dec (length a) @ 13 # 10 # a @ [13, 10] @ t"
    using assms(1) by (simp add: enc_bulk_def)
  have "(ch CHR ''$'' :: u8) \<noteq> 13" "(ch CHR ''$'' :: u8) \<noteq> 0" by simp_all
  note read = line_read(1,2) [OF line this assms(2)]
  show ?thesis
    using read assms(2,3) by (cases "length buf - pos = length (dec (length a)) + 2") (auto simp: mb_bulklen_def Let_def)
qed

section \<open>The loop over the arguments\<close>

fun pending :: "nat option \<Rightarrow> u8 list list \<Rightarrow> u8 list" where
  "pending None args = concat (map enc_bulk args)"
| "pending (Some l) args = hd args @ [13, 10] @ concat (map enc_bulk (tl args))"

fun bl_ok :: "nat option \<Rightarrow> u8 list list \<Rightarrow> bool" where
  "bl_ok None args = True"
| "bl_ok (Some l) args \<longleftrightarrow> args \<noteq> [] \<and> l = length (hd args)"

text \<open>The number of bytes that are left in the buffer of a parser that needs more.\<close>

fun waiting :: "nat option \<Rightarrow> nat \<Rightarrow> bool" where
  "waiting None n \<longleftrightarrow> n \<le> 16"
| "waiting (Some l) n \<longleftrightarrow> n < l + 2"

definition fits :: "nat option \<Rightarrow> nat \<Rightarrow> bool" where
  "fits bl n \<longleftrightarrow> n \<le> REDIS_INLINE_MAX_SIZE \<or> (\<exists>l. bl = Some l \<and> REDIS_MBULK_BIG_ARG \<le> l \<and> n \<le> l + 2)"

definition mb_result :: "u8 list list \<Rightarrow> u8 list list \<Rightarrow> u8 list \<Rightarrow> u8 list \<Rightarrow> mb_end \<Rightarrow> bool" where
  "mb_result args argv rest t r \<longleftrightarrow>
     (\<exists>k bl buf pos. k \<le> length args \<and> r = MbEnd (length args - k) bl buf pos (argv @ take k args)
        \<and> drop pos buf @ rest = pending bl (drop k args) @ t \<and> bl_ok bl (drop k args)
        \<and> (if k < length args then waiting bl (length buf - pos) \<and> rest \<noteq> [] else length buf - pos \<le> REDIS_INLINE_MAX_SIZE))"

lemma mb_resultI:
  assumes "k \<le> length args" "r = MbEnd (length args - k) bl buf pos (argv @ take k args)"
    "drop pos buf @ rest = pending bl (drop k args) @ t" "bl_ok bl (drop k args)"
    "if k < length args then waiting bl (length buf - pos) \<and> rest \<noteq> [] else length buf - pos \<le> REDIS_INLINE_MAX_SIZE"
  shows "mb_result args argv rest t r"
  using assms unfolding mb_result_def by blast

lemma mb_result_Cons:
  assumes "mb_result args (argv @ [a]) rest t r"
  shows "mb_result (a # args) argv rest t r"
proof -
  obtain k bl buf pos where "k \<le> length args" "r = MbEnd (length args - k) bl buf pos ((argv @ [a]) @ take k args)"
      "drop pos buf @ rest = pending bl (drop k args) @ t" "bl_ok bl (drop k args)"
      "if k < length args then waiting bl (length buf - pos) \<and> rest \<noteq> [] else length buf - pos \<le> REDIS_INLINE_MAX_SIZE"
    using assms unfolding mb_result_def by blast
  then show ?thesis by (intro mb_resultI [where k = "Suc k"]) auto
qed

text \<open>One argument, whose length is known.\<close>

lemma mb_bulk_spec:
  assumes IH: "\<And>bl buf pos argv. drop pos buf @ rest = pending bl args @ t \<Longrightarrow> pos \<le> length buf \<Longrightarrow> bl_ok bl args \<Longrightarrow>
        fits bl (length buf) \<and> (length buf \<le> REDIS_INLINE_MAX_SIZE \<or> pos = 0) \<Longrightarrow>
        mb_result args argv rest t (mb_loop (length args) bl buf pos argv)"
    and "drop pos buf @ rest = a @ [13, 10] @ concat (map enc_bulk args) @ t" "pos \<le> length buf"
    and fit: "fits (Some (length a)) (length buf) \<and> (length buf \<le> REDIS_INLINE_MAX_SIZE \<or> pos = 0)"
  shows "mb_result (a # args) argv rest t (mb_loop (Suc (length args)) (Some (length a)) buf pos argv)"
proof (cases "length buf - pos < length a + 2")
  case True
  have "rest \<noteq> []" using arg_cong [OF assms(2), of length] True by auto
  with True show ?thesis using assms by (intro mb_resultI [where k = 0]) auto
next
  case False
  have "take (length a) (drop pos buf) = a"
    using arg_cong [OF assms(2), of "take (length a)"] False by simp
  moreover have "drop (pos + (length a + 2)) buf @ rest = concat (map enc_bulk args) @ t"
    using arg_cong [OF assms(2), of "drop (length a + 2)"] False by (simp add: add.commute add.left_commute)
  moreover have "length buf \<le> REDIS_INLINE_MAX_SIZE \<or> (pos = 0 \<and> length a \<ge> REDIS_MBULK_BIG_ARG \<and> length buf = length a + 2)"
    using fit False by (auto simp: fits_def)
  ultimately show ?thesis
    using False IH [of 0 "[]" None "argv @ [a]"] IH [of "pos + (length a + 2)" buf None "argv @ [a]"] assms(3)
    by (auto simp: fits_def intro!: mb_result_Cons)
qed

lemma mb_loop_spec:
  "drop pos buf @ rest = pending bl args @ t \<Longrightarrow> pos \<le> length buf \<Longrightarrow> bl_ok bl args \<Longrightarrow>
   \<forall>a\<in>set args. length a \<le> 512 * 1024 * 1024 \<Longrightarrow>
   fits bl (length buf) \<and> (length buf \<le> REDIS_INLINE_MAX_SIZE \<or> pos = 0) \<Longrightarrow>
   mb_result args argv rest t (mb_loop (length args) bl buf pos argv)"
proof (induction args arbitrary: bl buf pos argv)
  case Nil
  then have "bl = None" by (cases bl) auto
  with Nil show ?case by (intro mb_resultI [where k = 0]) (auto simp: fits_def)
next
  case (Cons a args)
  have step: "mb_result (a # args) argv rest t (mb_loop (Suc (length args)) (Some (length a)) buf pos argv)"
    if "drop pos buf @ rest = a @ [13, 10] @ concat (map enc_bulk args) @ t" "pos \<le> length buf"
      "fits (Some (length a)) (length buf) \<and> (length buf \<le> REDIS_INLINE_MAX_SIZE \<or> pos = 0)" for pos buf
    using that Cons.prems(4) by (intro mb_bulk_spec Cons.IH) auto
  show ?case
  proof (cases bl)
    case (Some l)
    then show ?thesis using Cons.prems step [of pos buf] by auto
  next
    case None
    let ?k = "length (dec (length a)) + 3"
    have pre: "drop pos buf @ rest = enc_bulk a @ concat (map enc_bulk args) @ t" using Cons.prems(1) None by simp
    have small: "length a \<le> 512 * 1024 * 1024" "length buf \<le> REDIS_INLINE_MAX_SIZE"
      using Cons.prems(4,5) None by (auto simp: fits_def)
    show ?thesis
    proof (cases "length buf - pos < ?k")
      case True
      have "length (dec (length a)) \<le> 9" using length_dec_le [of "length a" 8] small(1) by simp
      moreover have "rest \<noteq> []" using arg_cong [OF pre, of length] True by (auto simp: enc_bulk_def)
      ultimately show ?thesis
        using mb_bulklen_more [OF pre Cons.prems(2) True] small(2) True Cons.prems None by (intro mb_resultI [where k = 0]) auto
    next
      case False
      then have len: "?k \<le> length buf - pos" by simp
      note found = mb_bulklen_found [OF pre small(1) Cons.prems(2) len]
      have loop: "mb_loop (Suc (length args)) None buf pos argv
          = (if length a \<ge> REDIS_MBULK_BIG_ARG then mb_loop (Suc (length args)) (Some (length a)) (drop (pos + ?k) buf) 0 argv
             else mb_loop (Suc (length args)) (Some (length a)) buf (pos + ?k) argv)"
        using found by simp
      show ?thesis
        using step [of 0 "drop (pos + ?k) buf"] step [of "pos + ?k" buf]
          found len small Cons.prems(2,4) None
        unfolding None list.size loop by (auto simp: fits_def)
    qed
  qed
qed

section \<open>Requests\<close>

text \<open>The parser is somewhere in the first of the requests \<open>reqs\<close>, and \<open>rest\<close> has not been read yet.\<close>

definition awaits :: "query \<Rightarrow> u8 list \<Rightarrow> u8 list list list \<Rightarrow> bool" where
  "awaits q rest reqs \<longleftrightarrow>
     \<not> close_after_reply q \<and> reqtype q \<noteq> REQ_INLINE \<and>
     (if multibulklen q = 0
      then bulklen q = None \<and> q_argv q = [] \<and> querybuf q @ rest = concat (map enc_req reqs)
        \<and> (reqtype q = REQ_MULTIBULK \<longrightarrow> reqs \<noteq> [])
      else reqtype q = REQ_MULTIBULK \<and> reqs \<noteq> [] \<and>
        (\<exists>args. hd reqs = q_argv q @ args \<and> multibulklen q = length args \<and> bl_ok (bulklen q) args
           \<and> querybuf q @ rest = pending (bulklen q) args @ concat (map enc_req (tl reqs))))"

definition parsed :: "u8 list \<Rightarrow> u8 list list \<Rightarrow> u8 list list list \<Rightarrow> query \<Rightarrow> bool" where
  "parsed rest argv reqs q \<longleftrightarrow>
     q_argv q = argv \<and> \<not> close_after_reply q \<and> querybuf q @ rest = concat (map enc_req reqs)
     \<and> length (querybuf q) \<le> REDIS_INLINE_MAX_SIZE"

definition progress :: "u8 list \<Rightarrow> u8 list list \<Rightarrow> u8 list list list \<Rightarrow> parse \<Rightarrow> bool" where
  "progress rest argv reqs r \<longleftrightarrow>
     (\<exists>q. (r = ParseOk q \<and> parsed rest argv reqs q)
        \<or> (r = ParseMore q \<and> awaits q rest (argv # reqs) \<and> waiting (bulklen q) (length (querybuf q)) \<and> rest \<noteq> []))"

lemma mb_args_spec:
  assumes "drop pos (querybuf q) @ rest = pending (bulklen q) args @ concat (map enc_req reqs)" "pos \<le> length (querybuf q)"
    "multibulklen q = length args" "bl_ok (bulklen q) args" "req_ok (q_argv q @ args)"
    "fits (bulklen q) (length (querybuf q)) \<and> (length (querybuf q) \<le> REDIS_INLINE_MAX_SIZE \<or> pos = 0)"
    "reqtype q = REQ_MULTIBULK" "\<not> close_after_reply q"
  shows "progress rest (q_argv q @ args) reqs (mb_args q pos)"
proof -
  have "mb_result args (q_argv q) rest (concat (map enc_req reqs)) (mb_loop (length args) (bulklen q) (querybuf q) pos (q_argv q))"
    using assms by (intro mb_loop_spec) (auto simp: req_ok_def)
  then obtain k bl buf p where k: "k \<le> length args"
      "mb_loop (length args) (bulklen q) (querybuf q) pos (q_argv q) = MbEnd (length args - k) bl buf p (q_argv q @ take k args)"
      "drop p buf @ rest = pending bl (drop k args) @ concat (map enc_req reqs)" "bl_ok bl (drop k args)"
      "if k < length args then waiting bl (length buf - p) \<and> rest \<noteq> [] else length buf - p \<le> REDIS_INLINE_MAX_SIZE"
    unfolding mb_result_def by blast
  let ?q = "q\<lparr>multibulklen := length args - k, bulklen := bl, querybuf := drop p buf, q_argv := q_argv q @ take k args\<rparr>"
  show ?thesis
  proof (cases "k < length args")
    case True
    then have "mb_args q pos = ParseMore ?q" using k(2) assms(3) by (simp add: mb_args_def Let_def)
    moreover have "awaits ?q rest ((q_argv q @ args) # reqs)"
      using k True assms(7,8) by (auto simp: awaits_def intro!: exI [of _ "drop k args"])
    ultimately show ?thesis using True k(5) by (auto simp: progress_def)
  next
    case False
    then have "mb_args q pos = ParseOk ?q" using k(1,2) assms(3) by (simp add: mb_args_def Let_def)
    moreover have "bl = None" using k(4) False by (cases bl) auto
    ultimately show ?thesis using False k assms(8) by (auto simp: progress_def parsed_def)
  qed
qed

text \<open>The first line of a request.\<close>

lemma mb_first_line_found:
  assumes "querybuf q @ rest = ch CHR ''*'' # dec n @ 13 # 10 # t" "length (dec n) + 3 \<le> length (querybuf q)" "0 < n" "n \<le> 1024 * 1024"
    "multibulklen q = 0" "q_argv q = []"
  shows "processMultibulkBuffer q = Some (mb_args (q\<lparr>multibulklen := n\<rparr>) (length (dec n) + 3))
    \<and> drop (length (dec n) + 3) (querybuf q) @ rest = t"
proof -
  have line: "drop 0 (querybuf q) @ rest = ch CHR ''*'' # dec n @ 13 # 10 # t" using assms(1) by simp
  have "(ch CHR ''*'' :: u8) \<noteq> 13" "(ch CHR ''*'' :: u8) \<noteq> 0" by simp_all
  note found = line_read(3) [OF line this, simplified, OF assms(2)]
  have "string2ll (take (length (dec n) + 1 - 1) (drop 1 (querybuf q))) = Some (int n)"
    using found string2ll_dec [of n] assms(4) by simp
  then show ?thesis
    using found assms(2-6) by (simp add: processMultibulkBuffer_def Let_def numeral_3_eq_3)
qed

lemma mb_first_line:
  assumes "awaits q rest (argv # reqs)" "multibulklen q = 0" "querybuf q \<noteq> []" "req_ok argv"
    "length (querybuf q) \<le> REDIS_INLINE_MAX_SIZE" "reqtype q = REQ_MULTIBULK"
  shows "\<exists>r. processMultibulkBuffer q = Some r \<and> progress rest argv reqs r"
proof -
  let ?n = "length argv" and ?buf = "querybuf q" and ?t = "concat (map enc_bulk argv) @ concat (map enc_req reqs)"
  let ?k = "length (dec ?n)"
  have idle: "\<not> close_after_reply q" "bulklen q = None" "q_argv q = []" and n: "0 < ?n" "?n \<le> 1024 * 1024"
    using assms by (auto simp: awaits_def req_ok_def)
  have line: "drop 0 ?buf @ rest = ch CHR ''*'' # dec ?n @ 13 # 10 # ?t"
    using assms(1,2) by (simp add: awaits_def enc_req_def)
  have "(ch CHR ''*'' :: u8) \<noteq> 13" "(ch CHR ''*'' :: u8) \<noteq> 0" by simp_all
  note read = line_read [OF line this, simplified]
  show ?thesis
  proof (cases "length ?buf < ?k + 3")
    case True
    have "length (dec ?n) \<le> 7" using length_dec_le [of ?n 6] n(2) by simp
    with True have "waiting (bulklen q) (length ?buf)" using idle by simp
    moreover have "processMultibulkBuffer q = Some (ParseMore q)"
      using True read(1,2) assms(2,5) idle
      by (cases "length ?buf = ?k + 2") (auto simp: processMultibulkBuffer_def Let_def)
    moreover have "rest \<noteq> []" using arg_cong [OF line, of length] True by auto
    ultimately show ?thesis using assms(1) by (auto simp: progress_def)
  next
    case False
    then have found: "processMultibulkBuffer q = Some (mb_args (q\<lparr>multibulklen := ?n\<rparr>) (?k + 3))" "drop (?k + 3) ?buf @ rest = ?t"
      using mb_first_line_found [of q rest ?n ?t] line n assms(2) idle by simp_all
    moreover have "progress rest (q_argv (q\<lparr>multibulklen := ?n\<rparr>) @ argv) reqs (mb_args (q\<lparr>multibulklen := ?n\<rparr>) (?k + 3))"
      using found(2) False assms(4,5,6) idle by (intro mb_args_spec) (auto simp: fits_def)
    ultimately show ?thesis using idle by simp
  qed
qed

lemma processMultibulkBuffer_spec:
  assumes "awaits q rest (argv # reqs)" "querybuf q \<noteq> []" "req_ok argv" "fits (bulklen q) (length (querybuf q))" "reqtype q = REQ_MULTIBULK"
  shows "\<exists>r. processMultibulkBuffer q = Some r \<and> progress rest argv reqs r"
proof (cases "multibulklen q = 0")
  case True
  with mb_first_line [OF assms(1) True assms(2,3)] assms show ?thesis by (simp add: awaits_def fits_def)
next
  case False
  then obtain args where args: "argv = q_argv q @ args" "multibulklen q = length args" "bl_ok (bulklen q) args"
      "querybuf q @ rest = pending (bulklen q) args @ concat (map enc_req reqs)"
    using assms(1) by (auto simp: awaits_def)
  have "progress rest (q_argv q @ args) reqs (mb_args q 0)"
    using args assms by (intro mb_args_spec) (auto simp: awaits_def)
  with False args(1) show ?thesis by (simp add: processMultibulkBuffer_def Let_def)
qed

text \<open>Arguments that are in the buffer as a whole are taken out one by one.\<close>

lemma mb_loop_takes:
  "drop pos buf @ rest = concat (map enc_bulk args) @ t \<Longrightarrow> pos + length (concat (map enc_bulk args)) \<le> length buf \<Longrightarrow>
   \<forall>a\<in>set args. length a < REDIS_MBULK_BIG_ARG \<Longrightarrow>
   mb_loop (length args + m) None buf pos argv = mb_loop m None buf (pos + length (concat (map enc_bulk args))) (argv @ args)"
proof (induction args arbitrary: pos argv)
  case (Cons a args)
  let ?k = "length (dec (length a)) + 3"
  have pre: "drop pos buf @ rest = enc_bulk a @ concat (map enc_bulk args) @ t" using Cons.prems(1) by simp
  have len: "length (enc_bulk a) = ?k + (length a + 2)" by (simp add: enc_bulk_def)
  have small: "length a < REDIS_MBULK_BIG_ARG" "length a \<le> 512 * 1024 * 1024" using Cons.prems(3) by (auto simp: REDIS_MBULK_BIG_ARG_def)
  have bounds: "pos \<le> length buf" "?k \<le> length buf - pos" "length a + 2 \<le> length buf - (pos + ?k)" using Cons.prems(2) len by auto
  note found = mb_bulklen_found [OF pre small(2) bounds(1,2)]
  have arg: "take (length a) (drop (pos + ?k) buf) = a"
    using arg_cong [OF conjunct2 [OF found], of "take (length a)"] bounds(3) by simp
  have "drop (pos + (?k + (length a + 2))) buf @ rest = concat (map enc_bulk args) @ t"
    using arg_cong [OF Cons.prems(1), of "drop (length (enc_bulk a))"] Cons.prems(2) len
    by (simp add: add.commute add.left_commute)
  then have "mb_loop (length args + m) None buf (pos + (?k + (length a + 2))) (argv @ [a])
      = mb_loop m None buf (pos + (?k + (length a + 2)) + length (concat (map enc_bulk args))) ((argv @ [a]) @ args)"
    using Cons.IH [of "pos + (?k + (length a + 2))" "argv @ [a]"] Cons.prems(2,3) len by simp
  moreover have "mb_loop (length (a # args) + m) None buf pos argv = mb_loop (length args + m) None buf (pos + (?k + (length a + 2))) (argv @ [a])"
    using found small bounds(3) arg by (simp add: add.assoc add.left_commute)
  ultimately show ?case using len by (simp add: add.assoc)
qed simp

end
