(* ===== verification/Networking.thy ===== *)
theory Networking
  imports Multi Query_Parser
begin

text \<open>
  From the socket to the commands: \<^verbatim>\<open>readQueryFromClient\<close> and \<^verbatim>\<open>processInputBuffer\<close> of \<^verbatim>\<open>networking.c\<close>, over the
  parser of \<open>Query_Parser\<close> and the execution of commands of \<open>Multi\<close>. The state is the query of a client and the
  server; the argument vector that has been parsed is handed to the client record of the server. No modelled command
  blocks a client; whether the clients are paused is a parameter of each event. A freed client is \<open>None\<close> in the place of
  its query.
\<close>

definition REDIS_IOBUF_LEN :: nat where
  "REDIS_IOBUF_LEN = 16384"

text \<open>QUIT is recognised before the command table is asked.\<close>

definition is_quit :: "u8 list list \<Rightarrow> bool" where
  "is_quit argv \<longleftrightarrow> map tolower_byte (takeWhile (\<lambda>b. b \<noteq> 0) (argv ! 0)) = bytes ''quit''"

definition run_request :: "gate \<Rightarrow> ((key \<rightharpoonup> robj) \<Rightarrow> key list) \<Rightarrow> nat \<Rightarrow> u8 list list \<Rightarrow> server \<Rightarrow> server option" where
  "run_request g ko c argv s = do { s1 \<leftarrow> processCommand g ko c (set_argv c argv s); Some (set_argv c [] s1) }"

definition parse_request :: "(nat \<Rightarrow> u8) \<Rightarrow> query \<Rightarrow> parse option" where
  "parse_request junk q =
     (let q1 = (if reqtype q = REQ_NONE
                then q\<lparr>reqtype := (if querybuf q ! 0 = ch CHR ''*'' then REQ_MULTIBULK else REQ_INLINE)\<rparr> else q)
      in if reqtype q1 = REQ_INLINE then processInlineBuffer junk q1 else processMultibulkBuffer q1)"

lemma parse_request_shrinks:
  assumes "parse_request junk q = Some (ParseOk q')" "querybuf q \<noteq> []"
  shows "length (querybuf q') < length (querybuf q)"
proof -
  let ?q1 = "if reqtype q = REQ_NONE
     then q\<lparr>reqtype := (if querybuf q ! 0 = ch CHR ''*'' then REQ_MULTIBULK else REQ_INLINE)\<rparr> else q"
  have "querybuf ?q1 = querybuf q" by simp
  then show ?thesis
    using assms processInlineBuffer_shrinks [of junk ?q1 q'] processMultibulkBuffer_shrinks [of ?q1 q']
    unfolding parse_request_def Let_def by (metis (no_types, lifting))
qed

function processInputBuffer ::
  "(nat \<Rightarrow> u8) \<Rightarrow> bool \<Rightarrow> gate \<Rightarrow> ((key \<rightharpoonup> robj) \<Rightarrow> key list) \<Rightarrow> nat \<Rightarrow> query \<Rightarrow> server \<Rightarrow> (query \<times> server) option" where
  "processInputBuffer junk paused g ko c q s =
     (if querybuf q = [] \<or> paused \<or> close_after_reply q then Some (q, s)
      else (case parse_request junk q of
              None \<Rightarrow> None
            | Some (ParseMore q1) \<Rightarrow> Some (q1, s)
            | Some (ParseError err q1) \<Rightarrow> Some (q1, addReplyError c err s)
            | Some (ParseOk q1) \<Rightarrow>
                if q_argv q1 = [] then processInputBuffer junk paused g ko c (resetClient q1) s
                else if is_quit (q_argv q1)
                then processInputBuffer junk paused g ko c (q1\<lparr>close_after_reply := True\<rparr>) (addReply c (Status ''OK'') s)
                else (case run_request g ko c (q_argv q1) s of
                        None \<Rightarrow> None
                      | Some s1 \<Rightarrow> processInputBuffer junk paused g ko c (resetClient q1) s1)))"
  by pat_completeness auto
termination
  by (relation "measure (\<lambda>(junk, paused, g, ko, c, q, s). length (querybuf q))")
     (auto simp: resetClient_def dest: parse_request_shrinks)

declare processInputBuffer.simps [simp del]

text \<open>The number of bytes that a read asks for.\<close>

definition query_readlen :: "query \<Rightarrow> int" where
  "query_readlen q =
     (case bulklen q of
        Some l \<Rightarrow>
          if reqtype q = REQ_MULTIBULK \<and> multibulklen q \<noteq> 0 \<and> l \<ge> REDIS_MBULK_BIG_ARG
          then min (int (l + 2) - int (length (querybuf q))) (int REDIS_IOBUF_LEN)
          else int REDIS_IOBUF_LEN
      | None \<Rightarrow> int REDIS_IOBUF_LEN)"

text \<open>\<^verbatim>\<open>read\<close> on a connection: \<open>avail\<close> bytes have arrived; \<open>n\<close> bounds what the kernel hands over at a time. Nothing is
  there yet: \<open>None\<close>, which is \<^verbatim>\<open>EAGAIN\<close>. Reading no bytes looks like the end of the connection.\<close>

definition read_socket :: "nat \<Rightarrow> int \<Rightarrow> u8 list \<Rightarrow> (u8 list \<times> u8 list) option" where
  "read_socket n readlen avail =
     (if avail = [] \<and> readlen > 0 then None else let k = min n (nat readlen) in Some (take k avail, drop k avail))"

text \<open>A negative \<^verbatim>\<open>readlen\<close>, which would be an enormous size for the allocation and for \<^verbatim>\<open>read\<close>, is \<open>None\<close>.\<close>

definition readQueryFromClient ::
  "nat \<Rightarrow> (nat \<Rightarrow> u8) \<Rightarrow> bool \<Rightarrow> gate \<Rightarrow> ((key \<rightharpoonup> robj) \<Rightarrow> key list) \<Rightarrow> nat \<Rightarrow> nat \<Rightarrow> query \<times> u8 list \<times> server
   \<Rightarrow> (query option \<times> u8 list \<times> server) option" where
  "readQueryFromClient max_querybuf junk paused g ko c n = (\<lambda>(q, sock, s).
     (if query_readlen q < 0 then None
      else case read_socket n (query_readlen q) sock of
        None \<Rightarrow> Some (Some q, sock, s)
      | Some (data, sock') \<Rightarrow>
          if data = [] then Some (None, sock', s)
          else
            let q1 = q\<lparr>querybuf := querybuf q @ data\<rparr>
            in if length (querybuf q1) > max_querybuf then Some (None, sock', s)
               else do { (q2, s1) \<leftarrow> processInputBuffer junk paused g ko c q1 s; Some (Some q2, sock', s1) }))"

text \<open>The read events of one connection, with the bounds on the reads.\<close>

fun read_events ::
  "nat \<Rightarrow> (nat \<Rightarrow> u8) \<Rightarrow> bool \<Rightarrow> gate \<Rightarrow> ((key \<rightharpoonup> robj) \<Rightarrow> key list) \<Rightarrow> nat \<Rightarrow> nat list \<Rightarrow> query \<times> u8 list \<times> server
   \<Rightarrow> (query option \<times> u8 list \<times> server) option" where
  "read_events mq junk paused g ko c [] (q, sock, s) = Some (Some q, sock, s)"
| "read_events mq junk paused g ko c (n # ns) (q, sock, s) =
     do { r \<leftarrow> readQueryFromClient mq junk paused g ko c n (q, sock, s);
          (case r of
             (None, sock', s') \<Rightarrow> Some (None, sock', s')
           | (Some q', sock', s') \<Rightarrow> read_events mq junk paused g ko c ns (q', sock', s')) }"

fun run_requests :: "gate \<Rightarrow> ((key \<rightharpoonup> robj) \<Rightarrow> key list) \<Rightarrow> nat \<Rightarrow> u8 list list list \<Rightarrow> server \<Rightarrow> server option" where
  "run_requests g ko c [] s = Some s"
| "run_requests g ko c (argv # reqs) s = do { s1 \<leftarrow> run_request g ko c argv s; run_requests g ko c reqs s1 }"

section \<open>A stream of requests is executed in order, whatever the reads\<close>

lemma awaits_first:
  assumes "awaits q rest reqs" "querybuf q \<noteq> []"
  shows "\<exists>argv reqs'. reqs = argv # reqs'" "reqtype q = REQ_NONE \<Longrightarrow> querybuf q ! 0 = ch CHR ''*''"
proof -
  show nonempty: "\<exists>argv reqs'. reqs = argv # reqs'"
    using assms by (cases reqs) (auto simp: awaits_def split: if_splits)
  assume "reqtype q = REQ_NONE"
  with assms have "querybuf q @ rest = concat (map enc_req reqs)" by (auto simp: awaits_def split: if_splits)
  with nonempty assms(2) show "querybuf q ! 0 = ch CHR ''*''" by (cases "querybuf q") (auto simp: enc_req_def)
qed

lemma enc_req_nonempty [simp]: "enc_req argv \<noteq> []"
  by (simp add: enc_req_def)

lemma pending_nonempty: "args \<noteq> [] \<Longrightarrow> pending bl args \<noteq> []"
  by (cases bl; cases args) (simp_all add: enc_bulk_def)

lemma awaits_rest:
  assumes "awaits q rest reqs" "querybuf q = []" "reqs \<noteq> []"
  shows "rest \<noteq> []"
proof (cases "multibulklen q = 0")
  case True
  then show ?thesis using assms by (cases reqs) (auto simp: awaits_def)
next
  case False
  then show ?thesis using assms pending_nonempty by (auto simp: awaits_def)
qed

lemma parse_request_spec:
  assumes "awaits q rest (argv # reqs)" "querybuf q \<noteq> []" "req_ok argv" "fits (bulklen q) (length (querybuf q))"
  shows "\<exists>r. parse_request junk q = Some r \<and> progress rest argv reqs r"
proof -
  let ?q1 = "q\<lparr>reqtype := REQ_MULTIBULK\<rparr>"
  have type: "reqtype q = REQ_NONE \<or> reqtype q = REQ_MULTIBULK" using assms(1) by (cases "reqtype q") (auto simp: awaits_def)
  have "parse_request junk q = processMultibulkBuffer ?q1"
  proof (cases "reqtype q = REQ_MULTIBULK")
    case True
    then have same: "?q1 = q" by (cases q) simp
    show ?thesis unfolding same using True by (simp add: parse_request_def)
  next
    case False
    with type awaits_first(2) [OF assms(1,2)] show ?thesis by (simp add: parse_request_def)
  qed
  moreover have "awaits ?q1 rest (argv # reqs)" using assms(1) type by (auto simp: awaits_def split: if_splits)
  ultimately show ?thesis using processMultibulkBuffer_spec [of ?q1 rest argv reqs] assms by simp
qed

definition ready :: "query \<Rightarrow> u8 list \<Rightarrow> u8 list list list \<Rightarrow> bool" where
  "ready q rest reqs \<longleftrightarrow> awaits q rest reqs \<and> waiting (bulklen q) (length (querybuf q)) \<and> (reqs \<noteq> [] \<longrightarrow> rest \<noteq> [])
     \<and> (\<forall>r\<in>set reqs. req_ok r \<and> \<not> is_quit r)"

lemma processInputBuffer_spec:
  assumes "awaits q rest reqs" "fits (bulklen q) (length (querybuf q))" "\<forall>r\<in>set reqs. req_ok r \<and> \<not> is_quit r"
    "run_requests g ko c reqs s = Some s'"
  shows "\<exists>q1 s1 reqs1. processInputBuffer junk False g ko c q s = Some (q1, s1) \<and> ready q1 rest reqs1
     \<and> run_requests g ko c reqs1 s1 = Some s'"
  using assms
proof (induction "length (querybuf q)" arbitrary: q s reqs rule: less_induct)
  case less
  show ?case
  proof (cases "querybuf q = []")
    case True
    moreover have "reqs \<noteq> [] \<Longrightarrow> rest \<noteq> []" using awaits_rest [OF less.prems(1) True] .
    ultimately have "ready q rest reqs" using less.prems by (cases "bulklen q") (auto simp: ready_def)
    with True less.prems(4) show ?thesis by (subst processInputBuffer.simps) auto
  next
    case False
    obtain argv reqs' where reqs: "reqs = argv # reqs'" using awaits_first(1) [OF less.prems(1) False] by blast
    obtain r where r: "parse_request junk q = Some r" "progress rest argv reqs' r"
      using parse_request_spec [of q rest argv reqs' junk] less.prems(1-3) False reqs by auto
    have open1: "\<not> close_after_reply q" using less.prems(1) by (simp add: awaits_def)
    from r(2) consider (ok) q1 where "r = ParseOk q1" "parsed rest argv reqs' q1"
      | (more) q1 where "r = ParseMore q1" "awaits q1 rest reqs" "waiting (bulklen q1) (length (querybuf q1))" "rest \<noteq> []"
      unfolding progress_def reqs by blast
    then show ?thesis
    proof cases
      case ok
      have q1: "q_argv q1 = argv" "argv \<noteq> []" "\<not> is_quit argv"
        using ok(2) less.prems(3) reqs by (auto simp: parsed_def req_ok_def)
      obtain s1 where s1: "run_request g ko c argv s = Some s1" "run_requests g ko c reqs' s1 = Some s'"
        using less.prems(4) reqs by (auto split: bind_splits)
      have "length (querybuf (resetClient q1)) < length (querybuf q)"
        using parse_request_shrinks [of junk q q1] r(1) ok(1) False by (simp add: resetClient_def)
      then have "\<exists>q2 s2 reqs2. processInputBuffer junk False g ko c (resetClient q1) s1 = Some (q2, s2) \<and> ready q2 rest reqs2
          \<and> run_requests g ko c reqs2 s2 = Some s'"
        by (rule less.hyps) (use ok(2) less.prems(3) reqs s1(2) in \<open>auto simp: parsed_def awaits_def resetClient_def fits_def\<close>)
      then show ?thesis
        using False open1 r(1) ok(1) q1 s1(1) by (subst processInputBuffer.simps) simp
    next
      case more
      then have "ready q1 rest reqs" using less.prems(3) by (simp add: ready_def)
      then show ?thesis using False open1 r(1) more(1) less.prems(4) by (subst processInputBuffer.simps) auto
    qed
  qed
qed

text \<open>A read leaves the buffer short enough for the checks of the parser.\<close>

lemma query_readlen_fits:
  assumes "ready q rest reqs" "length data \<le> nat (query_readlen q)"
  shows "0 < query_readlen q" "fits (bulklen q) (length (querybuf q @ data))"
    "length (querybuf q @ data) \<le> 512 * 1024 * 1024 + 2"
proof -
  have wait: "waiting (bulklen q) (length (querybuf q))" and a: "awaits q rest reqs" using assms(1) by (simp_all add: ready_def)
  have "0 < query_readlen q \<and> fits (bulklen q) (length (querybuf q @ data)) \<and> length (querybuf q @ data) \<le> 512 * 1024 * 1024 + 2"
  proof (cases "bulklen q")
    case None
    then show ?thesis
      using wait assms(2) by (simp add: query_readlen_def fits_def REDIS_IOBUF_LEN_def REDIS_INLINE_MAX_SIZE_def)
  next
    case (Some l)
    obtain args where "multibulklen q \<noteq> 0" "reqtype q = REQ_MULTIBULK" "reqs \<noteq> []" "hd reqs = q_argv q @ args" "bl_ok (Some l) args"
      using a Some by (auto simp: awaits_def split: if_splits)
    then have mb: "multibulklen q \<noteq> 0" "reqtype q = REQ_MULTIBULK" and "hd args \<in> set (hd reqs)" "hd reqs \<in> set reqs" "l = length (hd args)"
      using hd_in_set [of reqs] by auto
    then have "l \<le> 512 * 1024 * 1024" using assms(1) by (auto simp: ready_def req_ok_def)
    with mb wait assms(2) Some show ?thesis
      by (cases "REDIS_MBULK_BIG_ARG \<le> l")
         (auto simp: query_readlen_def fits_def REDIS_IOBUF_LEN_def REDIS_INLINE_MAX_SIZE_def REDIS_MBULK_BIG_ARG_def)
  qed
  then show "0 < query_readlen q" "fits (bulklen q) (length (querybuf q @ data))"
    "length (querybuf q @ data) \<le> 512 * 1024 * 1024 + 2" by simp_all
qed

lemma readQueryFromClient_spec:
  assumes "ready q sock reqs" "run_requests g ko c reqs s = Some s'" "0 < n" "512 * 1024 * 1024 + 2 \<le> mq"
  shows "\<exists>q1 sock1 s1 reqs1. readQueryFromClient mq junk False g ko c n (q, sock, s) = Some (Some q1, sock1, s1)
     \<and> ready q1 sock1 reqs1 \<and> run_requests g ko c reqs1 s1 = Some s' \<and> length sock1 \<le> length sock - 1"
proof (cases "sock = []")
  case True
  then show ?thesis
    using assms query_readlen_fits(1) [OF assms(1), of "[]"]
    by (auto simp: readQueryFromClient_def read_socket_def)
next
  case False
  define k where "k = min n (nat (query_readlen q))"
  let ?q = "q\<lparr>querybuf := querybuf q @ take k sock\<rparr>"
  note len = query_readlen_fits [OF assms(1), of "take k sock"]
  have k: "0 < k" using assms(3) len(1) by (simp add: k_def)
  then have positive: "\<not> query_readlen q < 0" by (auto simp: k_def)
  have "awaits ?q (drop k sock) reqs" using assms(1) by (auto simp: ready_def awaits_def split: if_splits)
  moreover have "fits (bulklen ?q) (length (querybuf ?q))" using len(2) by (simp add: k_def)
  moreover have "\<forall>r\<in>set reqs. req_ok r \<and> \<not> is_quit r" using assms(1) by (simp add: ready_def)
  ultimately obtain q1 s1 reqs1 where "processInputBuffer junk False g ko c ?q s = Some (q1, s1)" "ready q1 (drop k sock) reqs1"
      "run_requests g ko c reqs1 s1 = Some s'"
    using processInputBuffer_spec [OF _ _ _ assms(2)] by blast
  moreover have "length (querybuf ?q) \<le> 512 * 1024 * 1024 + 2" using len(3) by (simp add: k_def)
  then have "\<not> mq < length (querybuf ?q)" using assms(4) by linarith
  ultimately show ?thesis
    using False k positive by (auto simp: readQueryFromClient_def read_socket_def k_def [symmetric] Let_def)
qed

lemma read_events_spec:
  "ready q sock reqs \<Longrightarrow> run_requests g ko c reqs s = Some s' \<Longrightarrow> \<forall>n\<in>set ns. 0 < n \<Longrightarrow> 512 * 1024 * 1024 + 2 \<le> mq \<Longrightarrow>
   \<exists>q1 sock1 s1 reqs1. read_events mq junk False g ko c ns (q, sock, s) = Some (Some q1, sock1, s1)
     \<and> ready q1 sock1 reqs1 \<and> run_requests g ko c reqs1 s1 = Some s' \<and> length sock1 \<le> length sock - length ns"
proof (induction ns arbitrary: q sock s reqs)
  case (Cons n ns)
  obtain q1 sock1 s1 reqs1 where one: "readQueryFromClient mq junk False g ko c n (q, sock, s) = Some (Some q1, sock1, s1)"
      "ready q1 sock1 reqs1" "run_requests g ko c reqs1 s1 = Some s'" "length sock1 \<le> length sock - 1"
    using readQueryFromClient_spec [OF Cons.prems(1,2)] Cons.prems(3,4) by (meson list.set_intros(1))
  then show ?case using Cons.IH [OF one(2,3)] Cons.prems(3,4) by fastforce
qed auto

end
