(* ===== verification/Reply_Buffer.thy ===== *)
theory Reply_Buffer
  imports Keyspace
begin

text \<open>
  The output side of a client, \<^verbatim>\<open>networking.c\<close>: replies go into a static buffer of 16 kilobytes and, when it is
  full, into a list of string objects, and \<^verbatim>\<open>sendReplyToClient\<close> writes them to the socket in the pieces that the
  kernel takes. The state is the record \<open>outbuf\<close>; a node of the list is a string object, or \<open>None\<close> for the object without
  a string that holds the place of a length which is not known yet. The accounting of the memory of the list, with the
  limits after which a client is closed, and the clients that get no replies (\<^verbatim>\<open>prepareClientToWrite\<close>) are left out.
  \<open>queued\<close> abstracts the state to the bytes that are still to be sent.
\<close>

definition REDIS_REPLY_CHUNK_BYTES :: nat where
  "REDIS_REPLY_CHUNK_BYTES = 16384"

definition REDIS_SHARED_BULKHDR_LEN :: nat where
  "REDIS_SHARED_BULKHDR_LEN = 32"

definition REDIS_MAX_WRITE_PER_EVENT :: nat where
  "REDIS_MAX_WRITE_PER_EVENT = 65536"

record outbuf =
  o_buf :: "u8 list"
  o_reply :: "sobj option list"
  o_sentlen :: nat
  o_close :: bool

section \<open>Adding bytes\<close>

text \<open>The flag is \<^verbatim>\<open>REDIS_OK\<close>.\<close>

definition addReplyToBuffer :: "u8 list \<Rightarrow> outbuf \<Rightarrow> outbuf \<times> bool" where
  "addReplyToBuffer s out =
     (let available = REDIS_REPLY_CHUNK_BYTES - length (o_buf out)
      in if o_close out then (out, True)
         else if o_reply out \<noteq> [] then (out, False)
         else if length s > available then (out, False)
         else (out\<lparr>o_buf := o_buf out @ s\<rparr>, True))"

text \<open>The bytes are appended to the last object if it is a raw string with room; else \<open>node\<close> becomes a new last object.\<close>

definition reply_list_append :: "sobj \<Rightarrow> u8 list \<Rightarrow> sobj option list \<Rightarrow> sobj option list" where
  "reply_list_append node s nodes =
     (if nodes = [] then [Some node]
      else (case last nodes of
              Some (Raw t) \<Rightarrow>
                if length t + length s \<le> REDIS_REPLY_CHUNK_BYTES then butlast nodes @ [Some (Raw (t @ s))] else nodes @ [Some node]
            | _ \<Rightarrow> nodes @ [Some node]))"

definition addReplyObjectToList :: "sobj \<Rightarrow> outbuf \<Rightarrow> outbuf" where
  "addReplyObjectToList o1 out =
     (if o_close out then out else out\<lparr>o_reply := reply_list_append o1 (str_bytes o1) (o_reply out)\<rparr>)"

definition addReplySdsToList :: "u8 list \<Rightarrow> outbuf \<Rightarrow> outbuf" where
  "addReplySdsToList s out =
     (if o_close out then out else out\<lparr>o_reply := reply_list_append (Raw s) s (o_reply out)\<rparr>)"

definition addReplyStringToList :: "u8 list \<Rightarrow> outbuf \<Rightarrow> outbuf" where
  "addReplyStringToList s out =
     (if o_close out then out else out\<lparr>o_reply := reply_list_append (createStringObject s) s (o_reply out)\<rparr>)"

definition addReplyString :: "u8 list \<Rightarrow> outbuf \<Rightarrow> outbuf" where
  "addReplyString s out = (let (out1, ok) = addReplyToBuffer s out in if ok then out1 else addReplyStringToList s out1)"

definition addReplySds :: "u8 list \<Rightarrow> outbuf \<Rightarrow> outbuf" where
  "addReplySds s out = (let (out1, ok) = addReplyToBuffer s out in if ok then out1 else addReplySdsToList s out1)"

definition addReplySdsObject :: "sobj \<Rightarrow> outbuf \<Rightarrow> outbuf" where
  "addReplySdsObject o1 out = (let (out1, ok) = addReplyToBuffer (str_bytes o1) out in if ok then out1 else addReplyObjectToList o1 out1)"

definition addReplyObject :: "(nat \<Rightarrow> u8) \<Rightarrow> sobj \<Rightarrow> outbuf \<Rightarrow> outbuf option" where
  "addReplyObject junk o1 out =
     (case o1 of
        IntEnc v \<Rightarrow>
          if o_reply out = [] \<and> REDIS_REPLY_CHUNK_BYTES - length (o_buf out) \<ge> 32
          then do { (buf, len) \<leftarrow> ll2string (map junk [0..<32]) 32 v;
                    let (out1, ok) = addReplyToBuffer (take len buf) out in
                    Some (if ok then out1 else addReplySdsObject (getDecodedObject o1) out1) }
          else Some (addReplySdsObject (getDecodedObject o1) out)
      | _ \<Rightarrow> Some (addReplySdsObject o1 out))"

section \<open>Replies of the protocol\<close>

definition crlf :: "u8 list" where
  "crlf = [13, 10]"

definition addReplyErrorLength :: "u8 list \<Rightarrow> outbuf \<Rightarrow> outbuf" where
  "addReplyErrorLength s out = addReplyString crlf (addReplyString s (addReplyString (bytes ''-ERR '') out))"

definition addReplyStatusLength :: "u8 list \<Rightarrow> outbuf \<Rightarrow> outbuf" where
  "addReplyStatusLength s out = addReplyString crlf (addReplyString s (addReplyString (bytes ''+'') out))"

text \<open>The shared headers of small lengths; \<open>None\<close> is an index out of the array.\<close>

definition shared_header :: "u8 \<Rightarrow> int \<Rightarrow> sobj option" where
  "shared_header prefix n = (if 0 \<le> n \<and> n < int REDIS_SHARED_BULKHDR_LEN then Some (Raw (prefix # ll_repr n @ crlf)) else None)"

definition addReplyLongLongWithPrefix :: "(nat \<Rightarrow> u8) \<Rightarrow> int \<Rightarrow> u8 \<Rightarrow> outbuf \<Rightarrow> outbuf option" where
  "addReplyLongLongWithPrefix junk ll prefix out =
     (if (prefix = ch CHR ''*'' \<or> prefix = ch CHR ''$'') \<and> ll < int REDIS_SHARED_BULKHDR_LEN
      then do { o1 \<leftarrow> shared_header prefix ll; addReplyObject junk o1 out }
      else do { (buf, len) \<leftarrow> ll2string (map junk [0..<127]) 127 ll;
                Some (addReplyString (prefix # take len buf @ crlf) out) })"

definition addReplyLongLong :: "(nat \<Rightarrow> u8) \<Rightarrow> int \<Rightarrow> outbuf \<Rightarrow> outbuf option" where
  "addReplyLongLong junk ll out =
     (if ll = 0 then addReplyObject junk (Raw (bytes '':0'' @ crlf)) out
      else if ll = 1 then addReplyObject junk (Raw (bytes '':1'' @ crlf)) out
      else addReplyLongLongWithPrefix junk ll (ch CHR '':'') out)"

definition addReplyMultiBulkLen :: "(nat \<Rightarrow> u8) \<Rightarrow> int \<Rightarrow> outbuf \<Rightarrow> outbuf option" where
  "addReplyMultiBulkLen junk len out =
     (if len < int REDIS_SHARED_BULKHDR_LEN then do { o1 \<leftarrow> shared_header (ch CHR ''*'') len; addReplyObject junk o1 out }
      else addReplyLongLongWithPrefix junk len (ch CHR ''*'') out)"

text \<open>The digits of an integer, counted as the code does, with a division that truncates.\<close>

function count_digits :: "int \<Rightarrow> nat \<Rightarrow> nat" where
  "count_digits n len = (let q = (if n < 0 then - (- n div 10) else n div 10) in if q = 0 then len else count_digits q (len + 1))"
  by pat_completeness auto
termination
  by (relation "measure (\<lambda>(n, len). nat \<bar>n\<bar>)") (auto simp: abs_mult)

declare count_digits.simps [simp del]

fun bulk_len :: "sobj \<Rightarrow> nat" where
  "bulk_len (IntEnc n) = (if n < 0 then count_digits (sign_extend 8 (- n)) 2 else count_digits n 1)"
| "bulk_len o1 = length (str_bytes o1)"

definition addReplyBulkLen :: "(nat \<Rightarrow> u8) \<Rightarrow> sobj \<Rightarrow> outbuf \<Rightarrow> outbuf option" where
  "addReplyBulkLen junk o1 out =
     (let len = bulk_len o1
      in if len < REDIS_SHARED_BULKHDR_LEN then do { h \<leftarrow> shared_header (ch CHR ''$'') (int len); addReplyObject junk h out }
         else addReplyLongLongWithPrefix junk (int len) (ch CHR ''$'') out)"

definition addReplyBulk :: "(nat \<Rightarrow> u8) \<Rightarrow> sobj \<Rightarrow> outbuf \<Rightarrow> outbuf option" where
  "addReplyBulk junk o1 out =
     do { out1 \<leftarrow> addReplyBulkLen junk o1 out; out2 \<leftarrow> addReplyObject junk o1 out1; addReplyObject junk (Raw crlf) out2 }"

definition addReplyBulkCBuffer :: "(nat \<Rightarrow> u8) \<Rightarrow> u8 list \<Rightarrow> outbuf \<Rightarrow> outbuf option" where
  "addReplyBulkCBuffer junk p out =
     do { out1 \<leftarrow> addReplyLongLongWithPrefix junk (int (length p)) (ch CHR ''$'') out;
          addReplyObject junk (Raw crlf) (addReplyString p out1) }"

definition addReplyBulkLongLong :: "(nat \<Rightarrow> u8) \<Rightarrow> int \<Rightarrow> outbuf \<Rightarrow> outbuf option" where
  "addReplyBulkLongLong junk ll out = do { (buf, len) \<leftarrow> ll2string (map junk [0..<64]) 64 ll; addReplyBulkCBuffer junk (take len buf) out }"

text \<open>The place for a length that comes later: the node is the last one, and is filled in when the elements have
  been added behind it.\<close>

definition addDeferredMultiBulkLength :: "outbuf \<Rightarrow> outbuf \<times> nat" where
  "addDeferredMultiBulkLength out = (out\<lparr>o_reply := o_reply out @ [None]\<rparr>, length (o_reply out))"

definition setDeferredMultiBulkLength :: "nat \<Rightarrow> int \<Rightarrow> outbuf \<Rightarrow> outbuf" where
  "setDeferredMultiBulkLength node len out =
     (let hdr = ch CHR ''*'' # ll_repr len @ crlf; nodes = o_reply out
      in out\<lparr>o_reply :=
           (if node + 1 < length nodes then
              (case nodes ! (node + 1) of
                 Some next \<Rightarrow> take node nodes @ Some (Raw (hdr @ str_bytes next)) # drop (node + 2) nodes
               | None \<Rightarrow> nodes[node := Some (Raw hdr)])
            else nodes[node := Some (Raw hdr)])\<rparr>)"

section \<open>Writing\<close>

datatype write_result = Wrote nat | WriteAgain | WriteFail

fun nwritten :: "write_result \<Rightarrow> u8 list \<Rightarrow> nat" where
  "nwritten (Wrote n) chunk = min n (length chunk)"
| "nwritten _ chunk = 0"

text \<open>The loop: \<open>ws\<close> are the results of the calls of \<^verbatim>\<open>write\<close> (no more of them counts as \<^verbatim>\<open>EAGAIN\<close>), \<open>sent\<close> the bytes written
  so far and \<open>totwritten\<close> their number. \<open>busy\<close>: the server is beyond its memory limit, and the limit per event does not
  hold. \<^verbatim>\<open>objlen\<close> and \<^verbatim>\<open>totwritten\<close> are \<^verbatim>\<open>int\<close>s: the length of an object is converted to 32 bits. The flag of the result is an
  error of the connection; \<open>None\<close>, that an object without a string was met, that the size handed to \<^verbatim>\<open>write\<close> is negative
  (as a \<^verbatim>\<open>size_t\<close> it goes far beyond the object), or that \<^verbatim>\<open>totwritten\<close> overflows. \<^verbatim>\<open>sentlen\<close>, an \<^verbatim>\<open>int\<close> too, never exceeds the
  length it is compared with.\<close>

function send_loop :: "bool \<Rightarrow> write_result list \<Rightarrow> outbuf \<Rightarrow> int \<Rightarrow> u8 list \<Rightarrow> (outbuf \<times> u8 list \<times> bool) option" where
  "send_loop busy ws out totwritten sent =
     (if o_buf out = [] \<and> o_reply out = [] then Some (out, sent, False)
      else if o_buf out \<noteq> [] then
        (case ws of
           [] \<Rightarrow> Some (out, sent, False)
         | w # ws' \<Rightarrow>
             let chunk = drop (o_sentlen out) (o_buf out); n = nwritten w chunk; sent1 = sent @ take n chunk; tot1 = totwritten + int n;
                 out1 = (if o_sentlen out + n = length (o_buf out) then out\<lparr>o_buf := [], o_sentlen := 0\<rparr> else out\<lparr>o_sentlen := o_sentlen out + n\<rparr>)
             in if n = 0 then Some (out, sent, w = WriteFail)
                else if tot1 \<ge> 2 ^ 31 then None
                else if tot1 > int REDIS_MAX_WRITE_PER_EVENT \<and> \<not> busy then Some (out1, sent1, False)
                else send_loop busy ws' out1 tot1 sent1)
      else
        (case hd (o_reply out) of
           None \<Rightarrow> None
         | Some o1 \<Rightarrow>
             let objlen = sign_extend 4 (int (length (str_bytes o1)))
             in if objlen = 0 then send_loop busy ws (out\<lparr>o_reply := tl (o_reply out)\<rparr>) totwritten sent
                else if objlen < int (o_sentlen out) then None
                else (case ws of
                        [] \<Rightarrow> Some (out, sent, False)
                      | w # ws' \<Rightarrow>
                          let chunk = take (nat (objlen - int (o_sentlen out))) (drop (o_sentlen out) (str_bytes o1)); n = nwritten w chunk;
                              sent1 = sent @ take n chunk; tot1 = totwritten + int n;
                              out1 = (if int (o_sentlen out + n) = objlen then out\<lparr>o_reply := tl (o_reply out), o_sentlen := 0\<rparr>
                                      else out\<lparr>o_sentlen := o_sentlen out + n\<rparr>)
                          in if n = 0 then Some (out, sent, w = WriteFail)
                             else if tot1 \<ge> 2 ^ 31 then None
                             else if tot1 > int REDIS_MAX_WRITE_PER_EVENT \<and> \<not> busy then Some (out1, sent1, False)
                             else send_loop busy ws' out1 tot1 sent1)))"
  by pat_completeness auto
termination
  by (relation "measures [\<lambda>(busy, ws, out, tot, sent). length ws, \<lambda>(busy, ws, out, tot, sent). length (o_reply out)]") auto

declare send_loop.simps [simp del]

text \<open>The client is freed, \<open>None\<close> in its place, after an error and when it is to be closed and everything has been sent.\<close>

definition sendReplyToClient :: "bool \<Rightarrow> write_result list \<Rightarrow> outbuf \<Rightarrow> (outbuf option \<times> u8 list) option" where
  "sendReplyToClient busy ws out =
     do { (out1, sent, failed) \<leftarrow> send_loop busy ws out 0 [];
          Some (if failed then (None, sent)
                else if o_buf out1 = [] \<and> o_reply out1 = []
                then (if o_close out1 then None else Some (out1\<lparr>o_sentlen := 0\<rparr>), sent)
                else (Some out1, sent)) }"

section \<open>The bytes to be sent\<close>

fun node_bytes :: "sobj option \<Rightarrow> u8 list" where
  "node_bytes None = []"
| "node_bytes (Some o1) = str_bytes o1"

definition queued :: "outbuf \<Rightarrow> u8 list" where
  "queued out = drop (o_sentlen out) (o_buf out @ concat (map node_bytes (o_reply out)))"

text \<open>With objects below this limit, neither \<^verbatim>\<open>objlen\<close> nor, in an event with a limit, \<^verbatim>\<open>totwritten\<close> leaves the range of an \<^verbatim>\<open>int\<close>.\<close>

definition node_limit :: nat where
  "node_limit = 2 ^ 31 - REDIS_MAX_WRITE_PER_EVENT"

definition out_ok :: "outbuf \<Rightarrow> bool" where
  "out_ok out \<longleftrightarrow>
     length (o_buf out) \<le> REDIS_REPLY_CHUNK_BYTES \<and> None \<notin> set (o_reply out) \<and>
     (\<forall>node\<in>set (o_reply out). length (node_bytes node) < node_limit) \<and>
     (o_sentlen out = 0 \<or> o_sentlen out < length (if o_buf out \<noteq> [] then o_buf out else if o_reply out \<noteq> [] then node_bytes (hd (o_reply out)) else []))"

definition appends :: "outbuf \<Rightarrow> u8 list \<Rightarrow> outbuf \<Rightarrow> bool" where
  "appends out bs out' \<longleftrightarrow> out_ok out' \<and> \<not> o_close out' \<and> queued out' = queued out @ bs"

lemma appends_trans: "appends out a out1 \<Longrightarrow> appends out1 b out2 \<Longrightarrow> appends out (a @ b) out2"
  by (simp add: appends_def)

lemma appendsD: "appends out bs out' \<Longrightarrow> out_ok out'" "appends out bs out' \<Longrightarrow> \<not> o_close out'"
  by (simp_all add: appends_def)

lemma sentlen_le: "out_ok out \<Longrightarrow> o_sentlen out \<le> length (o_buf out @ concat (map node_bytes (o_reply out)))"
  by (cases "o_reply out") (auto simp: out_ok_def split: if_splits)

lemma reply_list_append_bytes:
  "str_bytes node = s \<Longrightarrow> concat (map node_bytes (reply_list_append node s nodes)) = concat (map node_bytes nodes) @ s"
  by (cases nodes rule: rev_cases) (auto simp: reply_list_append_def split: option.splits sobj.splits)

lemma reply_list_append_cases:
  obtains "reply_list_append node s nodes = nodes @ [Some node]"
  | ns t where "nodes = ns @ [Some (Raw t)]" "reply_list_append node s nodes = ns @ [Some (Raw (t @ s))]"
proof (cases nodes rule: rev_cases)
  case (snoc ns x)
  show ?thesis
  proof (cases "\<exists>t. x = Some (Raw t) \<and> length t + length s \<le> REDIS_REPLY_CHUNK_BYTES")
    case True
    then show ?thesis using that(2) snoc by (auto simp: reply_list_append_def)
  next
    case False
    then have "reply_list_append node s nodes = nodes @ [Some node]"
      using snoc by (auto simp: reply_list_append_def split: option.splits sobj.splits)
    then show ?thesis by (rule that(1))
  qed
qed (use that in \<open>simp add: reply_list_append_def\<close>)

lemma reply_list_append_props:
  "None \<notin> set nodes \<Longrightarrow> None \<notin> set (reply_list_append node s nodes)"
  "reply_list_append node s nodes \<noteq> []"
  "nodes \<noteq> [] \<Longrightarrow> length (node_bytes (hd nodes)) \<le> length (node_bytes (hd (reply_list_append node s nodes)))"
  by (cases rule: reply_list_append_cases [where node = node and s = s and nodes = nodes]; auto simp: hd_append)+

lemma reply_list_append_limit:
  "str_bytes node = s \<Longrightarrow> length s < node_limit \<Longrightarrow> \<forall>n\<in>set nodes. length (node_bytes n) < node_limit \<Longrightarrow>
   \<forall>n\<in>set (reply_list_append node s nodes). length (node_bytes n) < node_limit"
  by (cases nodes rule: rev_cases)
    (auto simp: reply_list_append_def node_limit_def REDIS_REPLY_CHUNK_BYTES_def REDIS_MAX_WRITE_PER_EVENT_def split: option.splits sobj.splits)

text \<open>Both ways of adding bytes, for whatever object the list gets.\<close>

lemma add_bytes_spec:
  assumes "out_ok out" "\<not> o_close out" "str_bytes node = s" "length s < node_limit"
  shows "appends out s (let (out1, ok) = addReplyToBuffer s out in
           if ok then out1 else if o_close out1 then out1 else out1\<lparr>o_reply := reply_list_append node s (o_reply out1)\<rparr>)"
proof (cases "o_reply out = [] \<and> length s \<le> REDIS_REPLY_CHUNK_BYTES - length (o_buf out)")
  case True
  then show ?thesis
    using assms sentlen_le [OF assms(1)]
    by (auto simp: addReplyToBuffer_def appends_def queued_def out_ok_def Let_def split: if_splits)
next
  case False
  then have "addReplyToBuffer s out = (out, False)" using assms(2) by (auto simp: addReplyToBuffer_def Let_def)
  moreover have "out_ok (out\<lparr>o_reply := reply_list_append node s (o_reply out)\<rparr>)"
    using assms(1) reply_list_append_limit [OF assms(3,4), of "o_reply out"]
      reply_list_append_props [where nodes = "o_reply out" and node = node and s = s] by (auto simp: out_ok_def split: if_splits)
  ultimately show ?thesis
    using assms reply_list_append_bytes [OF assms(3), of "o_reply out"] sentlen_le [OF assms(1)]
    by (simp add: appends_def queued_def)
qed

lemma addReplyString_appends: "out_ok out \<Longrightarrow> \<not> o_close out \<Longrightarrow> length s < node_limit \<Longrightarrow> appends out s (addReplyString s out)"
  unfolding addReplyString_def addReplyStringToList_def by (rule add_bytes_spec) (simp_all add: str_bytes_create)

lemma addReplySds_appends: "out_ok out \<Longrightarrow> \<not> o_close out \<Longrightarrow> length s < node_limit \<Longrightarrow> appends out s (addReplySds s out)"
  unfolding addReplySds_def addReplySdsToList_def by (rule add_bytes_spec) simp_all

lemma addReplySdsObject_appends:
  "out_ok out \<Longrightarrow> \<not> o_close out \<Longrightarrow> length (str_bytes o1) < node_limit \<Longrightarrow> appends out (str_bytes o1) (addReplySdsObject o1 out)"
  unfolding addReplySdsObject_def addReplyObjectToList_def by (rule add_bytes_spec) simp_all

lemma str_bytes_decoded: "str_bytes (getDecodedObject o1) = str_bytes o1"
  by (cases o1) (simp_all add: str_bytes_create)

lemma addReplyObject_appends:
  assumes "out_ok out" "\<not> o_close out" "length (str_bytes o1) < node_limit" "\<And>v. o1 = IntEnc v \<Longrightarrow> int64_range v"
  shows "\<exists>out'. addReplyObject junk o1 out = Some out' \<and> appends out (str_bytes o1) out'"
proof (cases o1)
  case (IntEnc v)
  then have v: "int64_range v" using assms(4) by simp
  have str: "ll2string (map junk [0..<32]) 32 v = Some (ll_repr v @ 0 # drop (length (ll_repr v) + 1) (map junk [0..<32]), length (ll_repr v))"
    using ll2string_repr [OF v, of 32 "map junk [0..<32]"] length_ll_repr [OF v] by simp
  show ?thesis
  proof (cases "o_reply out = [] \<and> REDIS_REPLY_CHUNK_BYTES - length (o_buf out) \<ge> 32")
    case True
    then have ok: "addReplyToBuffer (ll_repr v) out = (out\<lparr>o_buf := o_buf out @ ll_repr v\<rparr>, True)"
      using assms(2) length_ll_repr [OF v] by (simp add: addReplyToBuffer_def Let_def)
    then have "appends out (ll_repr v) (out\<lparr>o_buf := o_buf out @ ll_repr v\<rparr>)"
      using add_bytes_spec [OF assms(1,2), of "Raw (ll_repr v)"] assms(3) IntEnc by simp
    then show ?thesis using IntEnc True str ok by (simp add: addReplyObject_def)
  next
    case False
    then show ?thesis
      using IntEnc assms(3) addReplySdsObject_appends [OF assms(1,2), of "getDecodedObject o1"] by (auto simp: addReplyObject_def str_bytes_decoded)
  qed
qed (use addReplySdsObject_appends [OF assms(1-3)] in \<open>auto simp: addReplyObject_def\<close>)

section \<open>What the replies add\<close>

text \<open>The protocol: the bytes of a reply.\<close>

fun reply_bytes :: "reply \<Rightarrow> u8 list" where
  "reply_bytes (Status s) = bytes ''+'' @ bytes s @ crlf"
| "reply_bytes (Err e) = bytes ''-'' @ bytes e @ crlf"
| "reply_bytes (IntReply n) = bytes '':'' @ ll_repr n @ crlf"
| "reply_bytes (Bulk b) = bytes ''$'' @ ll_repr (int (length b)) @ crlf @ b @ crlf"
| "reply_bytes NullBulk = bytes ''$-1'' @ crlf"
| "reply_bytes NullMultiBulk = bytes ''*-1'' @ crlf"
| "reply_bytes (MultiBulkLen n) = bytes ''*'' @ ll_repr (int n) @ crlf"

text \<open>How the commands send a reply: a status and an error are strings, or shared objects with the whole line.\<close>

fun put_reply :: "(nat \<Rightarrow> u8) \<Rightarrow> reply \<Rightarrow> outbuf \<Rightarrow> outbuf option" where
  "put_reply junk (Status s) out = Some (addReplyStatusLength (bytes s) out)"
| "put_reply junk (Err e) out = addReplyObject junk (Raw (bytes ''-'' @ bytes e @ crlf)) out"
| "put_reply junk (IntReply n) out = addReplyLongLong junk n out"
| "put_reply junk (Bulk b) out = addReplyBulkCBuffer junk b out"
| "put_reply junk NullBulk out = addReplyObject junk (Raw (bytes ''$-1'' @ crlf)) out"
| "put_reply junk NullMultiBulk out = addReplyObject junk (Raw (bytes ''*-1'' @ crlf)) out"
| "put_reply junk (MultiBulkLen n) out = addReplyMultiBulkLen junk (int n) out"

text \<open>The strings of a reply have at most one gigabyte (the commands keep strings below half of it, \<^verbatim>\<open>checkStringLength\<close>).\<close>

fun reply_fits :: "reply \<Rightarrow> bool" where
  "reply_fits (Status s) \<longleftrightarrow> length s \<le> 2 ^ 30"
| "reply_fits (Err e) \<longleftrightarrow> length e \<le> 2 ^ 30"
| "reply_fits (IntReply n) \<longleftrightarrow> int64_range n"
| "reply_fits (Bulk b) \<longleftrightarrow> length b \<le> 2 ^ 30"
| "reply_fits (MultiBulkLen n) \<longleftrightarrow> n < 2 ^ 63"
| "reply_fits _ \<longleftrightarrow> True"

lemma node_limit_eq: "node_limit = 2147418112"
  by (simp add: node_limit_def REDIS_MAX_WRITE_PER_EVENT_def)

lemma header_limit: "int64_range ll \<Longrightarrow> length (prefix # ll_repr ll @ crlf) < node_limit"
  using length_ll_repr [of ll] by (simp add: node_limit_eq crlf_def)

lemma addReplyRaw_appends:
  "out_ok out \<Longrightarrow> \<not> o_close out \<Longrightarrow> length s < node_limit \<Longrightarrow> \<exists>out'. addReplyObject junk (Raw s) out = Some out' \<and> appends out s out'"
  using addReplyObject_appends [of out "Raw s" junk] by simp

lemma addReplyLongLongWithPrefix_appends:
  assumes "out_ok out" "\<not> o_close out" "int64_range ll" "prefix = ch CHR '':'' \<or> 0 \<le> ll"
  shows "\<exists>out'. addReplyLongLongWithPrefix junk ll prefix out = Some out' \<and> appends out (prefix # ll_repr ll @ crlf) out'"
proof (cases "(prefix = ch CHR ''*'' \<or> prefix = ch CHR ''$'') \<and> ll < int REDIS_SHARED_BULKHDR_LEN")
  case True
  then have "0 \<le> ll" using assms(4) by auto
  then show ?thesis
    using True addReplyRaw_appends [OF assms(1,2) header_limit [OF assms(3)]] by (simp add: addReplyLongLongWithPrefix_def shared_header_def)
next
  case False
  have str: "ll2string (map junk [0..<127]) 127 ll = Some (ll_repr ll @ 0 # drop (length (ll_repr ll) + 1) (map junk [0..<127]), length (ll_repr ll))"
    using ll2string_repr [OF assms(3), of 127 "map junk [0..<127]"] length_ll_repr [OF assms(3)] by simp
  show ?thesis
    unfolding addReplyLongLongWithPrefix_def if_not_P [OF False] str
    using addReplyString_appends [OF assms(1,2) header_limit [OF assms(3)]] by simp
qed

lemma addReplyLongLong_appends:
  assumes "out_ok out" "\<not> o_close out" "int64_range ll"
  shows "\<exists>out'. addReplyLongLong junk ll out = Some out' \<and> appends out (bytes '':'' @ ll_repr ll @ crlf) out'"
  using addReplyLongLongWithPrefix_appends [OF assms, of "ch CHR '':''" junk]
    addReplyRaw_appends [OF assms(1,2), of "bytes '':0'' @ crlf" junk] addReplyRaw_appends [OF assms(1,2), of "bytes '':1'' @ crlf" junk]
  by (auto simp: addReplyLongLong_def bytes_def ll_repr_def node_limit_eq crlf_def)

lemma addReplyMultiBulkLen_appends:
  assumes "out_ok out" "\<not> o_close out" "n < 2 ^ 63"
  shows "\<exists>out'. addReplyMultiBulkLen junk (int n) out = Some out' \<and> appends out (bytes ''*'' @ ll_repr (int n) @ crlf) out'"
  using addReplyLongLongWithPrefix_appends [OF assms(1,2), of "int n" "ch CHR ''*''" junk] assms(3)
    addReplyRaw_appends [OF assms(1,2) header_limit [of "int n"], of junk "ch CHR ''*''"]
  by (auto simp: addReplyMultiBulkLen_def shared_header_def bytes_def)

lemma addReplyBulkCBuffer_appends:
  assumes "out_ok out" "\<not> o_close out" "length b \<le> 2 ^ 30"
  shows "\<exists>out'. addReplyBulkCBuffer junk b out = Some out' \<and> appends out (bytes ''$'' @ ll_repr (int (length b)) @ crlf @ b @ crlf) out'"
proof -
  have "int64_range (int (length b))" using assms(3) by simp
  then obtain out1 where out1: "addReplyLongLongWithPrefix junk (int (length b)) (ch CHR ''$'') out = Some out1"
      "appends out (ch CHR ''$'' # ll_repr (int (length b)) @ crlf) out1"
    using addReplyLongLongWithPrefix_appends [OF assms(1,2), of "int (length b)" "ch CHR ''$''" junk] by auto
  have limits: "length b < node_limit" "length crlf < node_limit" using assms(3) by (simp_all add: node_limit_eq crlf_def)
  note two = addReplyString_appends [OF appendsD [OF out1(2)] limits(1)]
  obtain out3 where out3: "addReplyObject junk (Raw crlf) (addReplyString b out1) = Some out3" "appends (addReplyString b out1) crlf out3"
    using addReplyRaw_appends [OF appendsD [OF two] limits(2)] by blast
  show ?thesis
    using out1(1) out3(1) appends_trans [OF appends_trans [OF out1(2) two] out3(2)] by (simp add: addReplyBulkCBuffer_def bytes_def)
qed

lemma addReplyStatusLength_appends:
  assumes "out_ok out" "\<not> o_close out" "length s \<le> 2 ^ 30"
  shows "appends out (bytes ''+'' @ s @ crlf) (addReplyStatusLength s out)"
proof -
  have limits: "length (bytes ''+'') < node_limit" "length s < node_limit" "length crlf < node_limit"
    using assms(3) by (simp_all add: node_limit_eq crlf_def bytes_def)
  note one = addReplyString_appends [OF assms(1,2) limits(1)]
  note two = addReplyString_appends [OF appendsD [OF one] limits(2)]
  note three = addReplyString_appends [OF appendsD [OF two] limits(3)]
  show ?thesis using appends_trans [OF appends_trans [OF one two] three] by (simp add: addReplyStatusLength_def)
qed

lemma addReplyErrorLength_appends:
  assumes "out_ok out" "\<not> o_close out" "length s \<le> 2 ^ 30"
  shows "appends out (bytes ''-ERR '' @ s @ crlf) (addReplyErrorLength s out)"
proof -
  have limits: "length (bytes ''-ERR '') < node_limit" "length s < node_limit" "length crlf < node_limit"
    using assms(3) by (simp_all add: node_limit_eq crlf_def bytes_def)
  note one = addReplyString_appends [OF assms(1,2) limits(1)]
  note two = addReplyString_appends [OF appendsD [OF one] limits(2)]
  note three = addReplyString_appends [OF appendsD [OF two] limits(3)]
  show ?thesis using appends_trans [OF appends_trans [OF one two] three] by (simp add: addReplyErrorLength_def)
qed

lemma put_reply_appends:
  assumes "out_ok out" "\<not> o_close out" "reply_fits r"
  shows "\<exists>out'. put_reply junk r out = Some out' \<and> appends out (reply_bytes r) out'"
  using assms(3) addReplyStatusLength_appends [OF assms(1,2)] addReplyRaw_appends [OF assms(1,2)] addReplyLongLong_appends [OF assms(1,2)]
    addReplyBulkCBuffer_appends [OF assms(1,2)] addReplyMultiBulkLen_appends [OF assms(1,2)]
  by (cases r) (simp_all add: node_limit_eq crlf_def bytes_def)

text \<open>The length in front of an integer object is the number of its bytes.\<close>

lemma count_digits_dec: "count_digits n len + 1 = len + length (dec (nat \<bar>n\<bar>))"
proof (induction n len rule: count_digits.induct)
  case (1 n len)
  define q where "q = (if n < 0 then - (- n div 10) else n div 10)"
  have q: "nat \<bar>q\<bar> = nat \<bar>n\<bar> div 10" by (auto simp: q_def nat_div_distrib)
  show ?case
  proof (cases "q = 0")
    case True
    then have "nat \<bar>n\<bar> < 10" using q by simp
    with True show ?thesis by (subst count_digits.simps) (simp add: Let_def flip: q_def)
  next
    case False
    then have "nat \<bar>n\<bar> div 10 \<noteq> 0" using q by simp
    then have "\<not> nat \<bar>n\<bar> < 10" by simp
    with False 1 [OF q_def] q show ?thesis
      by (subst count_digits.simps) (simp add: Let_def length_dec_div10 [of "nat \<bar>n\<bar>"] flip: q_def)
  qed
qed

lemma bulk_len_bytes:
  assumes "\<And>v. o1 = IntEnc v \<Longrightarrow> int64_range v"
  shows "bulk_len o1 = length (str_bytes o1)"
proof (cases o1)
  case (IntEnc n)
  have range: "int64_range n" using assms IntEnc by blast
  have "nat \<bar>sign_extend 8 (- n)\<bar> = nat (- n)" if "n < 0"
    using that range by (auto simp: sign_extend_def)
  then show ?thesis
    using count_digits_dec [of n 1] count_digits_dec [of "sign_extend 8 (- n)" 2] IntEnc by (auto simp: ll_repr_def)
qed auto

lemma addReplyBulk_appends:
  assumes "out_ok out" "\<not> o_close out" "\<And>v. o1 = IntEnc v \<Longrightarrow> int64_range v" "length (str_bytes o1) \<le> 2 ^ 30"
  shows "\<exists>out'. addReplyBulk junk o1 out = Some out' \<and> appends out (reply_bytes (Bulk (str_bytes o1))) out'"
proof -
  let ?n = "length (str_bytes o1)" and ?h = "ch CHR ''$'' # ll_repr (int (length (str_bytes o1))) @ crlf"
  have len: "bulk_len o1 = ?n" by (rule bulk_len_bytes) (rule assms(3))
  have limits: "length (str_bytes o1) < node_limit" "length crlf < node_limit" using assms(4) by (simp_all add: node_limit_eq crlf_def)
  have "int64_range (int ?n)" using assms(4) by simp
  then obtain out1 where out1: "addReplyBulkLen junk o1 out = Some out1" "appends out ?h out1"
    using addReplyLongLongWithPrefix_appends [OF assms(1,2), of "int ?n" "ch CHR ''$''" junk] addReplyRaw_appends [OF assms(1,2) header_limit [of "int ?n"], of junk "ch CHR ''$''"] len
    by (cases "?n < REDIS_SHARED_BULKHDR_LEN") (auto simp: addReplyBulkLen_def shared_header_def Let_def)
  obtain out2 where out2: "addReplyObject junk o1 out1 = Some out2" "appends out1 (str_bytes o1) out2"
    using addReplyObject_appends [OF appendsD [OF out1(2)] limits(1) assms(3)] by blast
  obtain out3 where out3: "addReplyObject junk (Raw crlf) out2 = Some out3" "appends out2 crlf out3"
    using addReplyRaw_appends [OF appendsD [OF out2(2)] limits(2)] by blast
  show ?thesis
    using out1(1) out2(1) out3(1) appends_trans [OF appends_trans [OF out1(2) out2(2)] out3(2)] by (simp add: addReplyBulk_def bytes_def)
qed

text \<open>Filling in a length puts the header in front of what was added since its place was taken, whether or not it is
  glued to the next object.\<close>

lemma setDeferredMultiBulkLength_bytes:
  assumes "o_reply out = pre @ None # post"
  shows "concat (map node_bytes (o_reply (setDeferredMultiBulkLength (length pre) len out)))
         = concat (map node_bytes pre) @ (ch CHR ''*'' # ll_repr len @ crlf) @ concat (map node_bytes post)"
proof (cases "\<exists>o1 b. post = Some o1 # b")
  case True
  then show ?thesis using assms by (auto simp: setDeferredMultiBulkLength_def Let_def nth_append)
next
  case False
  then have "o_reply (setDeferredMultiBulkLength (length pre) len out) = pre @ Some (Raw (ch CHR ''*'' # ll_repr len @ crlf)) # post"
    using assms by (cases post) (auto simp: setDeferredMultiBulkLength_def Let_def nth_append list_update_append split: option.splits)
  then show ?thesis by simp
qed

section \<open>Sending\<close>

lemma nwritten_le: "nwritten w chunk \<le> length chunk"
  by (cases w) auto

text \<open>One call of \<^verbatim>\<open>write\<close> for the head of what is queued: \<open>head\<close> is the static buffer or the first object.\<close>

lemma write_head:
  assumes "n \<le> length (drop k head)" "k < length head"
  shows "k + n = length head \<Longrightarrow> drop k (head @ t) = take n (drop k head) @ t"
    and "drop k (head @ t) = take n (drop k head) @ drop (k + n) (head @ t)"
proof -
  show "k + n = length head \<Longrightarrow> drop k (head @ t) = take n (drop k head) @ t" using assms(2) by simp
  have "take n (drop k head) @ drop (k + n) head = drop k head" by (metis append_take_drop_id drop_drop add.commute)
  then show "drop k (head @ t) = take n (drop k head) @ drop (k + n) (head @ t)"
    using assms by simp
qed

definition after_buf :: "outbuf \<Rightarrow> nat \<Rightarrow> outbuf" where
  "after_buf out n = (if o_sentlen out + n = length (o_buf out) then out\<lparr>o_buf := [], o_sentlen := 0\<rparr> else out\<lparr>o_sentlen := o_sentlen out + n\<rparr>)"

definition after_node :: "outbuf \<Rightarrow> sobj \<Rightarrow> nat \<Rightarrow> outbuf" where
  "after_node out o1 n = (if o_sentlen out + n = length (str_bytes o1) then out\<lparr>o_reply := tl (o_reply out), o_sentlen := 0\<rparr>
     else out\<lparr>o_sentlen := o_sentlen out + n\<rparr>)"

definition send_chunk :: "bool \<Rightarrow> write_result \<Rightarrow> write_result list \<Rightarrow> u8 list \<Rightarrow> (nat \<Rightarrow> outbuf) \<Rightarrow> outbuf \<Rightarrow> u8 list \<Rightarrow> (outbuf \<times> u8 list \<times> bool) option" where
  "send_chunk busy w ws chunk next out sent =
     (let n = nwritten w chunk; sent1 = sent @ take n chunk
      in if n = 0 then Some (out, sent, w = WriteFail)
         else if length sent1 \<ge> 2 ^ 31 then None
         else if length sent1 > REDIS_MAX_WRITE_PER_EVENT \<and> \<not> busy then Some (next n, sent1, False)
         else send_loop busy ws (next n) (int (length sent1)) sent1)"

lemma send_chunk_cong:
  assumes "n = nwritten w chunk" "out1 = next n"
  shows "(if n = 0 then Some (out, sent, w = WriteFail)
          else if int (length sent) + int n \<ge> 2 ^ 31 then None
          else if int (length sent) + int n > int REDIS_MAX_WRITE_PER_EVENT \<and> \<not> busy then Some (out1, sent @ take n chunk, False)
          else send_loop busy ws out1 (int (length sent) + int n) (sent @ take n chunk)) = send_chunk busy w ws chunk next out sent"
proof -
  have len: "int (length sent) + int n = int (length (sent @ take n chunk))" using assms(1) nwritten_le [of w chunk] by simp
  show ?thesis unfolding send_chunk_def Let_def len using assms by (simp del: length_append)
qed

lemma send_loop_buf:
  "o_buf out \<noteq> [] \<Longrightarrow> send_loop busy (w # ws) out (int (length sent)) sent
   = send_chunk busy w ws (drop (o_sentlen out) (o_buf out)) (after_buf out) out sent"
  by (subst send_loop.simps, subst send_chunk_cong [symmetric]) (simp_all add: after_buf_def Let_def)

text \<open>An object below the limit is handed to \<^verbatim>\<open>write\<close> as it is.\<close>

lemma objlen_eq: "length s < node_limit \<Longrightarrow> sign_extend 4 (int (length s)) = int (length s)"
  by (simp add: sign_extend_def node_limit_eq)

lemma send_loop_node:
  assumes "o_buf out = []" "o_reply out = Some o1 # nodes" "str_bytes o1 \<noteq> []" "out_ok out"
  shows "send_loop busy (w # ws) out (int (length sent)) sent
    = send_chunk busy w ws (drop (o_sentlen out) (str_bytes o1)) (after_node out o1) out sent"
proof -
  have len: "sign_extend 4 (int (length (str_bytes o1))) = int (length (str_bytes o1))"
    using assms(2,4) by (intro objlen_eq) (auto simp: out_ok_def)
  have le: "o_sentlen out \<le> length (str_bytes o1)" using assms by (auto simp: out_ok_def)
  show ?thesis
    using assms(1-3) le by (subst send_loop.simps, subst send_chunk_cong [symmetric]) (simp_all add: after_node_def Let_def len)
qed

lemma after_buf_spec:
  assumes "out_ok out" "o_buf out \<noteq> []" "n \<le> length (drop (o_sentlen out) (o_buf out))"
  shows "out_ok (after_buf out n) \<and> o_close (after_buf out n) = o_close out
    \<and> queued out = take n (drop (o_sentlen out) (o_buf out)) @ queued (after_buf out n)"
proof -
  have lt: "o_sentlen out < length (o_buf out)" using assms(1,2) by (auto simp: out_ok_def)
  have "out_ok (after_buf out n)" using assms lt by (auto simp: after_buf_def out_ok_def)
  then show ?thesis using write_head [OF assms(3) lt] by (simp add: after_buf_def queued_def)
qed

lemma after_node_spec:
  assumes "out_ok out" "o_buf out = []" "o_reply out = Some o1 # nodes" "str_bytes o1 \<noteq> []" "n \<le> length (drop (o_sentlen out) (str_bytes o1))"
  shows "out_ok (after_node out o1 n) \<and> o_close (after_node out o1 n) = o_close out
    \<and> queued out = take n (drop (o_sentlen out) (str_bytes o1)) @ queued (after_node out o1 n)"
proof -
  have lt: "o_sentlen out < length (str_bytes o1)" using assms(1-4) by (auto simp: out_ok_def)
  have "out_ok (after_node out o1 n)" using assms lt by (auto simp: after_node_def out_ok_def)
  then show ?thesis using write_head [OF assms(5) lt] assms(2,3) by (simp add: after_node_def queued_def)
qed

text \<open>Room in \<^verbatim>\<open>totwritten\<close>: in an event without a limit all that is queued has to fit.\<close>

definition room :: "bool \<Rightarrow> outbuf \<Rightarrow> u8 list \<Rightarrow> bool" where
  "room busy out sent \<longleftrightarrow> (if busy then length sent + length (queued out) < 2 ^ 31 else length sent \<le> REDIS_MAX_WRITE_PER_EVENT)"

text \<open>What a run of the loop does; it writes something if something is queued and the first call takes a byte.\<close>

definition sends :: "write_result list \<Rightarrow> outbuf \<Rightarrow> u8 list \<Rightarrow> (outbuf \<times> u8 list \<times> bool) option \<Rightarrow> bool" where
  "sends ws out sent r \<longleftrightarrow>
     (\<exists>out' sent' failed. r = Some (out', sent', failed) \<and> out_ok out' \<and> o_close out' = o_close out \<and> sent' @ queued out' = sent @ queued out
        \<and> length sent \<le> length sent' \<and> length (o_reply out') \<le> length (o_reply out) \<and> (failed \<longrightarrow> WriteFail \<in> set ws)
        \<and> ((\<exists>n ws'. ws = Wrote (Suc n) # ws') \<longrightarrow> queued out' = [] \<or> length sent < length sent'))"

definition step_ok :: "outbuf \<Rightarrow> u8 list \<Rightarrow> (nat \<Rightarrow> outbuf) \<Rightarrow> bool" where
  "step_ok out chunk next \<longleftrightarrow> chunk \<noteq> [] \<and> length chunk < node_limit \<and>
     (\<forall>n \<le> length chunk. out_ok (next n) \<and> o_close (next n) = o_close out \<and> length (o_reply (next n)) \<le> length (o_reply out)
        \<and> queued out = take n chunk @ queued (next n))"

lemma send_chunk_sends:
  assumes "out_ok out" "step_ok out chunk next" "room busy out sent"
    and IH: "\<And>out sent. out_ok out \<Longrightarrow> room busy out sent \<Longrightarrow> sends ws out sent (send_loop busy ws out (int (length sent)) sent)"
  shows "sends (w # ws) out sent (send_chunk busy w ws chunk next out sent)"
proof -
  define n where "n = nwritten w chunk"
  define sent1 where "sent1 = sent @ take n chunk"
  have step: "out_ok (next n)" "o_close (next n) = o_close out" "length (o_reply (next n)) \<le> length (o_reply out)" "queued out = take n chunk @ queued (next n)"
    using assms(2) nwritten_le [of w chunk] unfolding step_ok_def n_def by blast+
  have n: "n \<le> length chunk" "length chunk < node_limit" "chunk \<noteq> []" using assms(2) nwritten_le [of w chunk] by (simp_all add: step_ok_def n_def)
  have len: "length sent1 = length sent + n" using n(1) by (simp add: sent1_def)
  have fits: "length sent1 < 2 ^ 31"
    using assms(3) n len arg_cong [OF step(4), of length]
    by (auto simp: room_def node_limit_def REDIS_MAX_WRITE_PER_EVENT_def split: if_splits)
  have zero: "\<not> (\<exists>k ws'. w # ws = Wrote (Suc k) # ws')" if "n = 0" using that n(3) by (cases chunk) (auto simp: n_def)
  consider "n = 0" | "n \<noteq> 0" "length sent1 > REDIS_MAX_WRITE_PER_EVENT \<and> \<not> busy" | "n \<noteq> 0" "\<not> (length sent1 > REDIS_MAX_WRITE_PER_EVENT \<and> \<not> busy)"
    by blast
  then show ?thesis
  proof cases
    case 1
    then show ?thesis using assms(1) zero by (auto simp: send_chunk_def sends_def simp flip: n_def)
  next
    case 2
    then have "send_chunk busy w ws chunk next out sent = Some (next n, sent1, False)"
      using fits by (simp add: send_chunk_def flip: n_def sent1_def)
    then show ?thesis using step len 2(1) by (auto simp: sends_def sent1_def)
  next
    case 3
    have "room busy (next n) sent1" using assms(3) 3(2) step(4) len n(1) by (auto simp: room_def)
    moreover have "send_chunk busy w ws chunk next out sent = send_loop busy ws (next n) (int (length sent1)) sent1"
      unfolding send_chunk_def n_def [symmetric] Let_def sent1_def [symmetric] if_not_P [OF 3(1)] if_not_P [OF 3(2)] using fits by simp
    ultimately have "sends ws (next n) sent1 (send_chunk busy w ws chunk next out sent)" using IH [OF step(1)] by simp
    then show ?thesis using step len 3(1) unfolding sends_def sent1_def by fastforce
  qed
qed

lemma step_ok_buf: "out_ok out \<Longrightarrow> o_buf out \<noteq> [] \<Longrightarrow> step_ok out (drop (o_sentlen out) (o_buf out)) (after_buf out)"
  using after_buf_spec [of out]
  by (auto simp: step_ok_def out_ok_def node_limit_eq REDIS_REPLY_CHUNK_BYTES_def after_buf_def)

lemma step_ok_node:
  "out_ok out \<Longrightarrow> o_buf out = [] \<Longrightarrow> o_reply out = Some o1 # nodes \<Longrightarrow> str_bytes o1 \<noteq> [] \<Longrightarrow>
   step_ok out (drop (o_sentlen out) (str_bytes o1)) (after_node out o1)"
  using after_node_spec [of out o1 nodes] by (auto simp: step_ok_def out_ok_def after_node_def)

text \<open>Objects without a byte are skipped.\<close>

definition head_bytes :: "outbuf \<Rightarrow> bool" where
  "head_bytes out \<longleftrightarrow> o_buf out \<noteq> [] \<or> (\<exists>o1 nodes. o_reply out = Some o1 # nodes \<and> str_bytes o1 \<noteq> [])"

lemma send_loop_empty_node:
  "o_buf out = [] \<Longrightarrow> o_reply out = Some o1 # nodes \<Longrightarrow> str_bytes o1 = [] \<Longrightarrow>
   send_loop busy ws out tot sent = send_loop busy ws (out\<lparr>o_reply := nodes\<rparr>) tot sent"
  by (subst send_loop.simps) (simp add: sign_extend_def)

lemma skip_empty_node:
  assumes "out_ok out" "o_buf out = []" "o_reply out = Some o1 # nodes" "str_bytes o1 = []"
  shows "out_ok (out\<lparr>o_reply := nodes\<rparr>)" "queued (out\<lparr>o_reply := nodes\<rparr>) = queued out"
  using assms by (auto simp: out_ok_def queued_def)

lemma send_loop_skip:
  assumes "\<And>out. out_ok out \<Longrightarrow> room busy out sent \<Longrightarrow> head_bytes out \<Longrightarrow> sends ws out sent (send_loop busy ws out (int (length sent)) sent)"
  shows "out_ok out \<Longrightarrow> room busy out sent \<Longrightarrow> sends ws out sent (send_loop busy ws out (int (length sent)) sent)"
proof (induction "o_reply out" arbitrary: out)
  case Nil
  then show ?case
    using assms [of out] by (cases "o_buf out = []") (subst send_loop.simps, auto simp: sends_def head_bytes_def queued_def)
next
  case (Cons x nodes)
  show ?case
  proof (cases "head_bytes out")
    case True
    with assms Cons.prems show ?thesis by blast
  next
    case False
    obtain o1 where x: "x = Some o1" using Cons.prems Cons.hyps(2) by (cases x) (auto simp: out_ok_def simp flip: Cons.hyps(2))
    have empty: "o_buf out = []" "o_reply out = Some o1 # nodes" "str_bytes o1 = []"
      using False Cons.hyps(2) [symmetric] x by (auto simp: head_bytes_def)
    let ?out = "out\<lparr>o_reply := nodes\<rparr>"
    note out = skip_empty_node [OF Cons.prems(1) empty]
    have "room busy ?out sent" using Cons.prems(2) unfolding room_def out(2) .
    then have "sends ws ?out sent (send_loop busy ws ?out (int (length sent)) sent)" using Cons.hyps(1) [of ?out] out(1) by simp
    then show ?thesis unfolding send_loop_empty_node [OF empty] using out(2) empty(2) by (auto simp: sends_def)
  qed
qed

lemma send_loop_sends:
  "out_ok out \<Longrightarrow> room busy out sent \<Longrightarrow> sends ws out sent (send_loop busy ws out (int (length sent)) sent)"
proof (induction ws arbitrary: out sent)
  case Nil
  show ?case
  proof (rule send_loop_skip [OF _ Nil])
    fix out assume out: "out_ok out" "head_bytes out"
    have "sign_extend 4 (int (length (str_bytes o1))) = int (length (str_bytes o1)) \<and> (o_buf out = [] \<longrightarrow> o_sentlen out \<le> length (str_bytes o1))"
      if "o_reply out = Some o1 # nodes" for o1 nodes
      using out(1) that by (auto simp: out_ok_def intro!: objlen_eq)
    then show "sends [] out sent (send_loop busy [] out (int (length sent)) sent)"
      using out by (subst send_loop.simps) (auto simp: sends_def head_bytes_def Let_def)
  qed
next
  case (Cons w ws)
  show ?case
  proof (rule send_loop_skip [OF _ Cons.prems])
    fix out assume out: "out_ok out" "room busy out sent" "head_bytes out"
    show "sends (w # ws) out sent (send_loop busy (w # ws) out (int (length sent)) sent)"
    proof (cases "o_buf out = []")
      case False
      then show ?thesis
        unfolding send_loop_buf [OF False] using step_ok_buf [OF out(1) False] by (intro send_chunk_sends out Cons.IH)
    next
      case True
      then obtain o1 nodes where node: "o_reply out = Some o1 # nodes" "str_bytes o1 \<noteq> []" using out(3) by (auto simp: head_bytes_def)
      show ?thesis
        unfolding send_loop_node [OF True node out(1)] using step_ok_node [OF out(1) True node] by (intro send_chunk_sends out Cons.IH)
    qed
  qed
qed

text \<open>When the kernel takes whatever it is offered, an event sends everything or more than the limit of an event: the
  static buffer and each object need one call.\<close>

definition fills :: "bool \<Rightarrow> (outbuf \<times> u8 list \<times> bool) option \<Rightarrow> bool" where
  "fills busy r \<longleftrightarrow> (\<exists>out' sent'. r = Some (out', sent', False)
     \<and> ((o_buf out' = [] \<and> o_reply out' = []) \<or> (\<not> busy \<and> length sent' > REDIS_MAX_WRITE_PER_EVENT)))"

lemma send_chunk_fills:
  assumes "step_ok out chunk next" "room busy out sent" "length chunk \<le> k"
    and IH: "room busy (next (length chunk)) (sent @ chunk) \<Longrightarrow> fills busy (send_loop busy ws (next (length chunk)) (int (length (sent @ chunk))) (sent @ chunk))"
  shows "fills busy (send_chunk busy (Wrote k) ws chunk next out sent)"
proof -
  have n: "nwritten (Wrote k) chunk = length chunk" "length chunk \<noteq> 0" using assms(1,3) by (simp_all add: step_ok_def)
  have step: "queued out = chunk @ queued (next (length chunk))" "length chunk < node_limit" using assms(1) by (auto simp: step_ok_def)
  have fits: "length (sent @ chunk) < 2 ^ 31"
    using assms(2) step(2) arg_cong [OF step(1), of length]
    by (auto simp: room_def node_limit_def REDIS_MAX_WRITE_PER_EVENT_def split: if_splits)
  show ?thesis
  proof (cases "length (sent @ chunk) > REDIS_MAX_WRITE_PER_EVENT \<and> \<not> busy")
    case True
    then show ?thesis using n fits by (simp add: send_chunk_def fills_def)
  next
    case False
    then have "room busy (next (length chunk)) (sent @ chunk)" using assms(2) step(1) by (auto simp: room_def)
    then have "fills busy (send_loop busy ws (next (length chunk)) (int (length (sent @ chunk))) (sent @ chunk))" by (rule IH)
    moreover have "send_chunk busy (Wrote k) ws chunk next out sent = send_loop busy ws (next (length chunk)) (int (length (sent @ chunk))) (sent @ chunk)"
      unfolding send_chunk_def Let_def n(1) take_all [OF order_refl] if_not_P [OF n(2)] if_not_P [OF False]
      using fits by simp
    ultimately show ?thesis by simp
  qed
qed

lemma send_loop_fills:
  "out_ok out \<Longrightarrow> room busy out sent \<Longrightarrow> o_buf out = [] \<Longrightarrow> length (o_reply out) \<le> m \<Longrightarrow> length (queued out) \<le> k \<Longrightarrow>
   fills busy (send_loop busy (replicate m (Wrote k)) out (int (length sent)) sent)"
proof (induction "o_reply out" arbitrary: out sent m)
  case Nil
  then show ?case by (subst send_loop.simps) (auto simp: fills_def)
next
  case (Cons x nodes)
  obtain o1 where x: "o_reply out = Some o1 # nodes" using Cons.prems(1) Cons.hyps(2) by (cases x) (auto simp: out_ok_def simp flip: Cons.hyps(2))
  show ?case
  proof (cases "str_bytes o1 = []")
    case True
    note out = skip_empty_node [OF Cons.prems(1,3) x True]
    have "room busy (out\<lparr>o_reply := nodes\<rparr>) sent" using Cons.prems(2) unfolding room_def out(2) .
    then show ?thesis
      unfolding send_loop_empty_node [OF Cons.prems(3) x True]
      using Cons.hyps(1) [of "out\<lparr>o_reply := nodes\<rparr>" sent m] out Cons.prems x by simp
  next
    case False
    obtain m' where m: "m = Suc m'" using Cons.prems(4) x by (cases m) auto
    let ?chunk = "drop (o_sentlen out) (str_bytes o1)"
    have lt: "o_sentlen out < length (str_bytes o1)" using Cons.prems(1,3) x False by (auto simp: out_ok_def)
    have next1: "after_node out o1 (length ?chunk) = out\<lparr>o_reply := nodes, o_sentlen := 0\<rparr>" using lt x by (simp add: after_node_def)
    have q: "queued out = ?chunk @ queued (out\<lparr>o_reply := nodes, o_sentlen := 0\<rparr>)" using lt Cons.prems(3) x by (simp add: queued_def)
    have ok: "out_ok (out\<lparr>o_reply := nodes, o_sentlen := 0\<rparr>)" using Cons.prems(1,3) x by (auto simp: out_ok_def)
    show ?thesis
      unfolding m replicate_Suc send_loop_node [OF Cons.prems(3) x False Cons.prems(1)]
    proof (rule send_chunk_fills [OF step_ok_node [OF Cons.prems(1,3) x False] Cons.prems(2)], unfold next1)
      show "length ?chunk \<le> k" using Cons.prems(5) q by simp
      show "fills busy (send_loop busy (replicate m' (Wrote k)) (out\<lparr>o_reply := nodes, o_sentlen := 0\<rparr>) (int (length (sent @ ?chunk))) (sent @ ?chunk))"
        if "room busy (out\<lparr>o_reply := nodes, o_sentlen := 0\<rparr>) (sent @ ?chunk)"
        using Cons.hyps(1) [of "out\<lparr>o_reply := nodes, o_sentlen := 0\<rparr>" "sent @ ?chunk" m'] that ok q Cons.prems(3-5) m x by simp
    qed
  qed
qed

lemma send_event_fills:
  assumes "out_ok out" "room busy out []" "length (o_reply out) < m" "length (queued out) \<le> k"
  shows "fills busy (send_loop busy (replicate m (Wrote k)) out 0 [])"
proof (cases "o_buf out = []")
  case True
  then show ?thesis using send_loop_fills [OF assms(1,2) True, of m k] assms(3,4) by simp
next
  case False
  obtain m' where m: "m = Suc m'" using assms(3) by (cases m) auto
  let ?chunk = "drop (o_sentlen out) (o_buf out)" and ?out = "out\<lparr>o_buf := [], o_sentlen := 0\<rparr>"
  have lt: "o_sentlen out < length (o_buf out)" using assms(1) False by (auto simp: out_ok_def)
  have next1: "after_buf out (length ?chunk) = ?out" using lt by (simp add: after_buf_def)
  have q: "queued out = ?chunk @ queued ?out" using lt by (simp add: queued_def)
  have ok: "out_ok ?out" using assms(1) by (auto simp: out_ok_def)
  have "fills busy (send_chunk busy (Wrote k) (replicate m' (Wrote k)) ?chunk (after_buf out) out [])"
  proof (rule send_chunk_fills [OF step_ok_buf [OF assms(1) False] assms(2)], unfold next1)
    show "length ?chunk \<le> k" using assms(4) q by simp
    show "fills busy (send_loop busy (replicate m' (Wrote k)) ?out (int (length ([] @ ?chunk))) ([] @ ?chunk))" if "room busy ?out ([] @ ?chunk)"
      using send_loop_fills [OF ok that, of m' k] q assms(3,4) m by simp
  qed
  then show ?thesis using send_loop_buf [OF False, of busy "Wrote k" "replicate m' (Wrote k)" "[]"] m by simp
qed

section \<open>The output of a client is a queue of bytes\<close>

datatype ('r, 'w) out_event = PutReply 'r | Writable 'w

fun out_replies :: "('r, 'w) out_event list \<Rightarrow> 'r list" where
  "out_replies [] = []"
| "out_replies (PutReply r # es) = r # out_replies es"
| "out_replies (Writable w # es) = out_replies es"

text \<open>Replies and write events, until the client is freed; the bytes that the peer has got are collected.\<close>

fun run_out ::
  "('r \<Rightarrow> 's \<Rightarrow> 's option) \<Rightarrow> ('w \<Rightarrow> 's \<Rightarrow> ('s option \<times> u8 list) option) \<Rightarrow> ('r, 'w) out_event list \<Rightarrow> 's \<Rightarrow> u8 list \<Rightarrow> ('s option \<times> u8 list) option" where
  "run_out put send [] s got = Some (Some s, got)"
| "run_out put send (PutReply r # es) s got = do { s1 \<leftarrow> put r s; run_out put send es s1 got }"
| "run_out put send (Writable w # es) s got =
     do { (r, sent) \<leftarrow> send w s;
          (case r of None \<Rightarrow> Some (None, got @ sent) | Some s1 \<Rightarrow> run_out put send es s1 (got @ sent)) }"

lemma run_out_append:
  "run_out put send (es1 @ es2) s got =
     (case run_out put send es1 s got of Some (Some s1, got1) \<Rightarrow> run_out put send es2 s1 got1 | r \<Rightarrow> r)"
  by (induction es1 arbitrary: s got rule: out_replies.induct) (auto split: bind_splits option.splits)

text \<open>What the commands and the event loop rely on: \<open>fits w n\<close> says that the event \<open>w\<close> can cope with a queue of \<open>n\<close> bytes.\<close>

locale byte_queue =
  fixes put :: "'r \<Rightarrow> 's \<Rightarrow> 's option"
    and send :: "'w \<Rightarrow> 's \<Rightarrow> ('s option \<times> u8 list) option"
    and enc :: "'r \<Rightarrow> u8 list"
    and content :: "'s \<Rightarrow> u8 list"
    and inv :: "'s \<Rightarrow> bool"
    and valid :: "'r \<Rightarrow> bool"
    and fits :: "'w \<Rightarrow> nat \<Rightarrow> bool"
  assumes put_spec: "inv s \<Longrightarrow> valid r \<Longrightarrow> \<exists>s'. put r s = Some s' \<and> inv s' \<and> content s' = content s @ enc r"
    and send_spec: "inv s \<Longrightarrow> fits w (length (content s)) \<Longrightarrow> \<exists>r sent rest. send w s = Some (r, sent) \<and> content s = sent @ rest
      \<and> (\<forall>s'. r = Some s' \<longrightarrow> inv s' \<and> content s' = rest)"
    and fits_mono: "fits w n \<Longrightarrow> k \<le> n \<Longrightarrow> fits w k"
begin

lemma run_out_spec:
  "inv s \<Longrightarrow> \<forall>r\<in>set (out_replies es). valid r \<Longrightarrow>
   \<forall>w. Writable w \<in> set es \<longrightarrow> fits w (length (content s @ concat (map enc (out_replies es)))) \<Longrightarrow>
   \<exists>r got' rest. run_out put send es s got = Some (r, got') \<and> got @ content s @ concat (map enc (out_replies es)) = got' @ rest
     \<and> (\<forall>s'. r = Some s' \<longrightarrow> inv s' \<and> content s' = rest)"
proof (induction es arbitrary: s got)
  case (Cons e es)
  show ?case
  proof (cases e)
    case (PutReply r)
    then obtain s1 where s1: "put r s = Some s1" "inv s1" "content s1 = content s @ enc r"
      using put_spec [OF Cons.prems(1), of r] Cons.prems(2) by auto
    show ?thesis using Cons.IH [OF s1(2), of got] Cons.prems(2,3) PutReply s1 by simp
  next
    case (Writable w)
    have "fits w (length (content s @ concat (map enc (out_replies es))))" using Cons.prems(3) Writable by simp
    then have "fits w (length (content s))" by (rule fits_mono) simp
    then obtain r sent rest where r: "send w s = Some (r, sent)" "content s = sent @ rest"
        "\<forall>s'. r = Some s' \<longrightarrow> inv s' \<and> content s' = rest"
      using send_spec [OF Cons.prems(1), of w] by blast
    show ?thesis
    proof (cases r)
      case None
      then show ?thesis using Writable r by simp
    next
      case (Some s1)
      then have s1: "inv s1" "content s1 = rest" using r(3) by auto
      have "\<forall>w. Writable w \<in> set es \<longrightarrow> fits w (length (content s1 @ concat (map enc (out_replies es))))"
        using Cons.prems(3) Writable r(2) s1(2)
        by (auto intro: fits_mono [of _ "length (content s @ concat (map enc (out_replies es)))"])
      then show ?thesis using Cons.IH [OF s1(1), of "got @ sent"] Cons.prems(2) Writable r(1,2) Some s1(2) by simp
    qed
  qed
qed simp

end

text \<open>A queue that is emptied: an event that the peer is \<open>ready\<close> for sends all, or at least a quota.\<close>

locale draining_queue = byte_queue +
  fixes ready :: "'w \<Rightarrow> 's \<Rightarrow> bool" and quota :: nat
  assumes progress: "inv s \<Longrightarrow> fits w (length (content s)) \<Longrightarrow> ready w s \<Longrightarrow>
    \<exists>s' sent. send w s = Some (Some s', sent) \<and> content s = sent @ content s' \<and> inv s' \<and> (content s' = [] \<or> quota \<le> length sent)
      \<and> (\<forall>w'. ready w' s \<longrightarrow> ready w' s')"
begin

lemma drains:
  "inv s \<Longrightarrow> \<forall>w\<in>set ws. ready w s \<and> fits w (length (content s)) \<Longrightarrow> length (content s) \<le> length ws * quota \<Longrightarrow>
   \<exists>s'. run_out put send (map Writable ws) s got = Some (Some s', got @ content s) \<and> inv s' \<and> content s' = []"
proof (induction ws arbitrary: s got)
  case (Cons w ws)
  obtain s1 sent where s1: "send w s = Some (Some s1, sent)" "content s = sent @ content s1" "inv s1"
      "content s1 = [] \<or> quota \<le> length sent" "\<forall>w'. ready w' s \<longrightarrow> ready w' s1"
    using progress [OF Cons.prems(1), of w] Cons.prems(2) by auto
  have "\<forall>w'\<in>set ws. ready w' s1 \<and> fits w' (length (content s1))"
    using Cons.prems(2) s1(2,5) fits_mono [of _ "length (content s)" "length (content s1)"] by auto
  moreover have "length (content s1) \<le> length ws * quota" using Cons.prems(3) s1(2,4) by auto
  ultimately obtain s' where "run_out put send (map Writable ws) s1 (got @ sent) = Some (Some s', (got @ sent) @ content s1)" "inv s'" "content s' = []"
    using Cons.IH [OF s1(3), of "got @ sent"] by blast
  then show ?case using s1(1,2) by simp
qed simp

end

text \<open>The server beyond its memory limit writes all that is queued in one event, and counts it in an \<^verbatim>\<open>int\<close>.\<close>

fun event_fits :: "bool \<times> write_result list \<Rightarrow> nat \<Rightarrow> bool" where
  "event_fits (busy, ws) n \<longleftrightarrow> (busy \<longrightarrow> n < 2 ^ 31)"

fun peer_reads :: "bool \<times> write_result list \<Rightarrow> outbuf \<Rightarrow> bool" where
  "peer_reads (busy, ws) out \<longleftrightarrow> (\<exists>n ws'. ws = Wrote (Suc n) # ws') \<and> WriteFail \<notin> set ws"

fun takes_all :: "bool \<times> write_result list \<Rightarrow> outbuf \<Rightarrow> bool" where
  "takes_all (busy, ws) out \<longleftrightarrow> (\<exists>m k. ws = replicate m (Wrote k) \<and> length (o_reply out) < m \<and> length (queued out) \<le> k)"

lemma event_room: "event_fits (busy, ws) (length (queued out)) \<Longrightarrow> room busy out []"
  by (simp add: room_def)

lemma sendReplyToClient_spec:
  assumes "out_ok out" "\<not> o_close out" "event_fits (busy, ws) (length (queued out))"
  shows "\<exists>r sent rest. sendReplyToClient busy ws out = Some (r, sent) \<and> queued out = sent @ rest
     \<and> (\<forall>out'. r = Some out' \<longrightarrow> (out_ok out' \<and> \<not> o_close out') \<and> queued out' = rest \<and> length (o_reply out') \<le> length (o_reply out))
     \<and> (r = None \<longrightarrow> WriteFail \<in> set ws)
     \<and> ((\<exists>n ws'. ws = Wrote (Suc n) # ws') \<longrightarrow> rest = [] \<or> 1 \<le> length sent)
     \<and> (takes_all (busy, ws) out \<longrightarrow> rest = [] \<or> REDIS_MAX_WRITE_PER_EVENT \<le> length sent)"
proof -
  obtain out1 sent failed where s: "send_loop busy ws out 0 [] = Some (out1, sent, failed)" "out_ok out1" "\<not> o_close out1" "queued out = sent @ queued out1"
      "length (o_reply out1) \<le> length (o_reply out)" "failed \<longrightarrow> WriteFail \<in> set ws" "(\<exists>n ws'. ws = Wrote (Suc n) # ws') \<longrightarrow> queued out1 = [] \<or> 1 \<le> length sent"
    using send_loop_sends [OF assms(1) event_room [OF assms(3)], of ws] assms(2) unfolding sends_def by (auto simp: Suc_le_eq)
  have full: "takes_all (busy, ws) out \<longrightarrow> queued out1 = [] \<or> REDIS_MAX_WRITE_PER_EVENT \<le> length sent"
  proof
    assume "takes_all (busy, ws) out"
    then have "fills busy (send_loop busy ws out 0 [])" using send_event_fills [OF assms(1) event_room [OF assms(3)]] by auto
    then show "queued out1 = [] \<or> REDIS_MAX_WRITE_PER_EVENT \<le> length sent" using s(1) by (auto simp: fills_def queued_def)
  qed
  have "out_ok (out1\<lparr>o_sentlen := 0\<rparr>)" "o_buf out1 = [] \<Longrightarrow> o_reply out1 = [] \<Longrightarrow> queued (out1\<lparr>o_sentlen := 0\<rparr>) = queued out1"
    using s(2) by (auto simp: out_ok_def queued_def)
  then show ?thesis using s full by (intro exI [of _ "fst (the (sendReplyToClient busy ws out))"] exI [of _ sent] exI [of _ "queued out1"]) (auto simp: sendReplyToClient_def)
qed

interpretation out: byte_queue "put_reply junk" "\<lambda>(busy, ws). sendReplyToClient busy ws" reply_bytes queued "\<lambda>out. out_ok out \<and> \<not> o_close out" reply_fits event_fits
proof unfold_locales
  show "\<exists>s'. put_reply junk r s = Some s' \<and> (out_ok s' \<and> \<not> o_close s') \<and> queued s' = queued s @ reply_bytes r"
    if "out_ok s \<and> \<not> o_close s" "reply_fits r" for s r
    using put_reply_appends [of s r junk] that unfolding appends_def by blast
  show "\<exists>r sent rest. (case w of (busy, ws) \<Rightarrow> sendReplyToClient busy ws) s = Some (r, sent) \<and> queued s = sent @ rest
      \<and> (\<forall>s'. r = Some s' \<longrightarrow> (out_ok s' \<and> \<not> o_close s') \<and> queued s' = rest)"
    if "out_ok s \<and> \<not> o_close s" "event_fits w (length (queued s))" for s w
    using sendReplyToClient_spec [of s "fst w" "snd w"] that by (simp add: case_prod_beta) blast
  show "event_fits w n \<Longrightarrow> k \<le> n \<Longrightarrow> event_fits w k" for w n k by (cases w) auto
qed

interpretation slow: draining_queue "put_reply junk" "\<lambda>(busy, ws). sendReplyToClient busy ws" reply_bytes queued "\<lambda>out. out_ok out \<and> \<not> o_close out"
  reply_fits event_fits peer_reads 1
proof unfold_locales
  show "\<exists>s' sent. (case w of (busy, ws) \<Rightarrow> sendReplyToClient busy ws) s = Some (Some s', sent) \<and> queued s = sent @ queued s'
      \<and> (out_ok s' \<and> \<not> o_close s') \<and> (queued s' = [] \<or> 1 \<le> length sent) \<and> (\<forall>w'. peer_reads w' s \<longrightarrow> peer_reads w' s')"
    if "out_ok s \<and> \<not> o_close s" "event_fits w (length (queued s))" "peer_reads w s" for s w
    using that sendReplyToClient_spec [of s "fst w" "snd w"] by (cases w) fastforce
qed

interpretation fast: draining_queue "put_reply junk" "\<lambda>(busy, ws). sendReplyToClient busy ws" reply_bytes queued "\<lambda>out. out_ok out \<and> \<not> o_close out"
  reply_fits event_fits takes_all REDIS_MAX_WRITE_PER_EVENT
proof unfold_locales
  show "\<exists>s' sent. (case w of (busy, ws) \<Rightarrow> sendReplyToClient busy ws) s = Some (Some s', sent) \<and> queued s = sent @ queued s'
      \<and> (out_ok s' \<and> \<not> o_close s') \<and> (queued s' = [] \<or> REDIS_MAX_WRITE_PER_EVENT \<le> length sent) \<and> (\<forall>w'. takes_all w' s \<longrightarrow> takes_all w' s')"
    if s: "out_ok s \<and> \<not> o_close s" "event_fits w (length (queued s))" "takes_all w s" for s w
  proof (cases w)
    case (Pair busy ws)
    have "WriteFail \<notin> set ws" using s(3) Pair by auto
    then obtain s' sent where s': "sendReplyToClient busy ws s = Some (Some s', sent)" "queued s = sent @ queued s'" "out_ok s' \<and> \<not> o_close s'"
        "queued s' = [] \<or> REDIS_MAX_WRITE_PER_EVENT \<le> length sent" "length (o_reply s') \<le> length (o_reply s)"
      using sendReplyToClient_spec [of s busy ws] s Pair by fastforce
    have "takes_all w' s'" if "takes_all w' s" for w'
      using that s'(2,5) by (cases w') (auto intro: le_less_trans)
    then show ?thesis using s' Pair by auto
  qed
qed

lemma busy_event_flushes:
  assumes "out_ok out" "\<not> o_close out" "length (o_reply out) < m" "length (queued out) \<le> k" "length (queued out) < 2 ^ 31"
  shows "\<exists>out'. sendReplyToClient True (replicate m (Wrote k)) out = Some (Some out', queued out) \<and> queued out' = []"
proof -
  have room: "room True out []" using assms(5) by (simp add: room_def)
  obtain out1 sent where s: "send_loop True (replicate m (Wrote k)) out 0 [] = Some (out1, sent, False)" "o_buf out1 = []" "o_reply out1 = []"
    using send_event_fills [OF assms(1) room assms(3,4)] by (auto simp: fills_def)
  have "sent = queued out" "o_close out1 = o_close out"
    using send_loop_sends [OF assms(1) room, of "replicate m (Wrote k)"] s by (auto simp: sends_def queued_def)
  then show ?thesis using s assms(2) by (simp add: sendReplyToClient_def queued_def)
qed

definition empty_out :: outbuf where
  "empty_out = \<lparr>o_buf = [], o_reply = [], o_sentlen = 0, o_close = False\<rparr>"

lemma empty_out_ok: "out_ok empty_out \<and> \<not> o_close empty_out" "queued empty_out = []"
  by (simp_all add: empty_out_def out_ok_def queued_def)

definition send_event :: "bool \<times> write_result list \<Rightarrow> outbuf \<Rightarrow> (outbuf option \<times> u8 list) option" where
  "send_event = (\<lambda>(busy, ws). sendReplyToClient busy ws)"

text \<open>The bound for the events of a server beyond its memory limit, over a whole run.\<close>

definition busy_fits :: "(reply, bool \<times> write_result list) out_event list \<Rightarrow> bool" where
  "busy_fits es \<longleftrightarrow> (\<forall>ws. Writable (True, ws) \<in> set es \<longrightarrow> length (concat (map reply_bytes (out_replies es))) < 2 ^ 31)"

lemma run_from_empty:
  assumes "\<forall>r\<in>set (out_replies es). reply_fits r" "busy_fits es"
  shows "\<exists>r got rest. run_out (put_reply junk) send_event es empty_out [] = Some (r, got)
    \<and> concat (map reply_bytes (out_replies es)) = got @ rest
    \<and> (\<forall>out. r = Some out \<longrightarrow> (out_ok out \<and> \<not> o_close out) \<and> queued out = rest)"
proof -
  have "event_fits w (length (queued empty_out @ concat (map reply_bytes (out_replies es))))" if "Writable w \<in> set es" for w
    using assms(2) that empty_out_ok(2) by (cases w) (auto simp: busy_fits_def)
  then show ?thesis
    unfolding send_event_def using out.run_out_spec [OF empty_out_ok(1) assms(1), of junk "[]"] empty_out_ok(2) by simp
qed

text \<open>C2: Whatever the replies that the commands add, and however the kernel cuts the writes, what the peer has got is
  an initial part of the replies in the protocol's notation, in their order and without loss or repetition; while
  the connection is open, the rest is still queued. When the kernel takes what it is offered, each ordinary write event
  sends at least 64 kilobytes, so that the rest is sent after as many events as it has chunks of that size; beyond the
  memory limit one event sends it all. No reply and no write fails an assertion, overruns a buffer or overflows an \<^verbatim>\<open>int\<close>.
  The strings of the replies have at most one gigabyte, and events beyond the memory limit are allowed in runs of less than
  two gigabytes.\<close>

theorem replies_in_order:
  assumes "\<forall>r\<in>set (out_replies es). reply_fits r" "busy_fits es"
  shows "\<exists>r got rest. run_out (put_reply junk) send_event es empty_out [] = Some (r, got)
    \<and> concat (map reply_bytes (out_replies es)) = got @ rest
    \<and> (\<forall>out. r = Some out \<longrightarrow> queued out = rest
         \<and> (\<forall>m k. length (o_reply out) < m \<and> length rest \<le> k \<longrightarrow>
              (\<forall>j. length rest \<le> j * REDIS_MAX_WRITE_PER_EVENT \<longrightarrow>
                 (\<exists>out'. run_out (put_reply junk) send_event (replicate j (Writable (False, replicate m (Wrote k)))) out got
                    = Some (Some out', got @ rest) \<and> queued out' = []))
              \<and> (length rest < 2 ^ 31 \<longrightarrow>
                 (\<exists>out'. send_event (True, replicate m (Wrote k)) out = Some (Some out', rest) \<and> queued out' = []))))"
proof -
  obtain r got rest where r: "run_out (put_reply junk) send_event es empty_out [] = Some (r, got)"
      "concat (map reply_bytes (out_replies es)) = got @ rest" "\<forall>out. r = Some out \<longrightarrow> (out_ok out \<and> \<not> o_close out) \<and> queued out = rest"
    using run_from_empty [OF assms] by blast
  have drain: "\<exists>out'. run_out (put_reply junk) send_event (replicate j (Writable (False, replicate m (Wrote k)))) out got = Some (Some out', got @ rest) \<and> queued out' = []"
    if "r = Some out" "length (o_reply out) < m" "length rest \<le> k" "length rest \<le> j * REDIS_MAX_WRITE_PER_EVENT" for out m k j
    using fast.drains [of out "replicate j (False, replicate m (Wrote k))" junk got] r(3) that unfolding send_event_def by (auto simp: map_replicate)
  have flush: "\<exists>out'. send_event (True, replicate m (Wrote k)) out = Some (Some out', rest) \<and> queued out' = []"
    if "r = Some out" "length (o_reply out) < m" "length rest \<le> k" "length rest < 2 ^ 31" for out m k
    using busy_event_flushes [of out m k] r(3) that by (simp add: send_event_def)
  show ?thesis using r drain flush by blast
qed

theorem replies_in_order_witness:
  "\<exists>r got rest. run_out (put_reply (\<lambda>_. 7)) send_event
      [PutReply (MultiBulkLen 2), Writable (False, [Wrote 1, WriteAgain]), PutReply (Bulk (bytes ''ab'')), PutReply (IntReply 70),
       Writable (True, [Wrote 3, Wrote 5])] empty_out [] = Some (r, got)
    \<and> concat (map reply_bytes [MultiBulkLen 2, Bulk (bytes ''ab''), IntReply 70]) = got @ rest
    \<and> (\<forall>out. r = Some out \<longrightarrow> queued out = rest)"
  (is "\<exists>r got rest. run_out _ _ ?es _ _ = _ \<and> _ \<and> _")
proof -
  have "\<forall>r\<in>set (out_replies ?es). reply_fits r" by (simp add: bytes_def)
  moreover have "busy_fits ?es" using length_ll_repr [of 70] by (simp add: busy_fits_def bytes_def crlf_def ll_repr_def)
  ultimately show ?thesis using replies_in_order [of ?es "\<lambda>_. 7"] by (simp del: run_out.simps reply_bytes.simps) blast
qed

text \<open>C34: A peer that reads slowly gets everything: if in every one of some further write events the kernel takes at
  least one byte at first and reports no error, and there are as many of them as bytes are missing, the peer has got all the
  replies of the run, whether or not the server is beyond its memory limit, and the connection is open with an empty
  queue.\<close>

theorem slow_peer_gets_all:
  assumes "\<forall>r\<in>set (out_replies es). reply_fits r" "busy_fits (es @ map Writable evs)"
    and "run_out (put_reply junk) send_event es empty_out [] = Some (Some out, got)"
    and "\<forall>(busy, ws)\<in>set evs. \<exists>n ws'. ws = Wrote (Suc n) # ws' \<and> WriteFail \<notin> set ws'"
    and "length (concat (map reply_bytes (out_replies es))) \<le> length got + length evs"
  shows "\<exists>out'. run_out (put_reply junk) send_event (es @ map Writable evs) empty_out []
      = Some (Some out', concat (map reply_bytes (out_replies es))) \<and> queued out' = []"
proof -
  have replies: "out_replies (es @ map Writable evs) = out_replies es"
    by (induction es rule: out_replies.induct) (simp_all, induction evs, simp_all)
  have "busy_fits es" using assms(2) by (auto simp: busy_fits_def replies)
  then have out: "concat (map reply_bytes (out_replies es)) = got @ queued out" "out_ok out \<and> \<not> o_close out"
    using run_from_empty [OF assms(1), of junk] assms(3) by auto
  have "\<forall>w\<in>set evs. peer_reads w out \<and> event_fits w (length (queued out))"
    using assms(2,4) out(1) by (fastforce simp: busy_fits_def replies)
  then show ?thesis
    using slow.drains [OF out(2), of evs junk got] assms(3,5) out(1) by (auto simp: run_out_append send_event_def)
qed

theorem slow_peer_gets_all_witness:
  "\<exists>out'. run_out (put_reply (\<lambda>_. 7)) send_event
      ([PutReply NullBulk] @ map Writable [(False, [Wrote 1]), (True, [Wrote 2, WriteAgain]), (False, [Wrote 1]), (False, [Wrote 9]), (False, [Wrote 1])])
      empty_out [] = Some (Some out', bytes ''$-1'' @ crlf) \<and> queued out' = []"
proof -
  let ?evs = "[(False, [Wrote 1]), (True, [Wrote 2, WriteAgain]), (False, [Wrote 1]), (False, [Wrote 9]), (False, [Wrote 1])]"
  have run: "run_out (put_reply (\<lambda>_. 7)) send_event [PutReply NullBulk] empty_out []
      = Some (Some (empty_out\<lparr>o_buf := bytes ''$-1'' @ crlf\<rparr>), [])"
    by (simp add: addReplyObject_def addReplySdsObject_def addReplyToBuffer_def empty_out_def REDIS_REPLY_CHUNK_BYTES_def bytes_def crlf_def)
  show ?thesis
    using slow_peer_gets_all [OF _ _ run, of ?evs] by (simp add: busy_fits_def bytes_def crlf_def del: run_out.simps)
qed

end
