(* ===== verification/Client_Props.thy ===== *)
theory Client_Props
  imports Server_Props Networking Reply_Buffer
begin

text \<open>
  Properties of a connection: the requests that a client sends are executed in order however the bytes arrive, and
  the places where the request parser departs from the protocol.
\<close>

section \<open>Requests\<close>

text \<open>C1: A client that sends requests one after the other, without waiting for replies, has them executed one
  after the other, whatever they contain, however the network and the kernel cut the stream into pieces, and also when a
  large argument takes the path that avoids copying: once the bytes have been read, the state of the server is the one
  that the commands produce in their order, nothing is left in the query buffer, and the parser is as for a new client.\<close>

theorem requests_any_reads:
  assumes "\<forall>argv\<in>set reqs. req_ok argv \<and> \<not> is_quit argv" "run_requests g ko c reqs s = Some s'"
    "\<forall>n\<in>set ns. 0 < n" "length (concat (map enc_req reqs)) \<le> length ns" "512 * 1024 * 1024 + 2 \<le> max_querybuf"
  shows "read_events max_querybuf junk False g ko c ns (freshClient, concat (map enc_req reqs), s) = Some (Some freshClient, [], s')"
proof -
  have "ready freshClient (concat (map enc_req reqs)) reqs"
    using assms(1) by (cases reqs) (simp_all add: ready_def awaits_def freshClient_def)
  then obtain q1 sock1 s1 reqs1 where run: "read_events max_querybuf junk False g ko c ns (freshClient, concat (map enc_req reqs), s) = Some (Some q1, sock1, s1)"
      "ready q1 sock1 reqs1" "run_requests g ko c reqs1 s1 = Some s'" "length sock1 \<le> length (concat (map enc_req reqs)) - length ns"
    using read_events_spec [OF _ assms(2,3,5)] by blast
  then have sock: "sock1 = []" using assms(4) by simp
  have "reqs1 = []" using run(2) sock by (auto simp: ready_def)
  then have "q1 = freshClient" using run(2) sock by (cases q1; cases "reqtype q1") (auto simp: ready_def awaits_def freshClient_def split: if_splits)
  with run(1,3) sock \<open>reqs1 = []\<close> show ?thesis by simp
qed

lemma run_one_request:
  assumes "sound s" "b \<noteq> a" "b \<in> set (sv_client_ids s)" "signals argv"
  shows "\<exists>s'. run_request g ko b argv s = Some s'"
proof -
  have 1: "csafe a s (set_argv b argv s)" using csafe_set_argv [OF assms(1,2)] .
  have "cl_argv (sv_clients (set_argv b argv s) b) = argv" by (simp add: set_argv_def upd_client_def)
  then obtain s1 where "processCommand g ko b (set_argv b argv s) = Some s1"
    using csafe_process [OF csafeD(1) [OF 1] assms(2), where argv = argv and ko = ko] assms(3,4) csafeD(2) [OF 1] by auto
  then show ?thesis by (simp add: run_request_def)
qed

theorem requests_any_reads_witness:
  "\<exists>s'. run_requests example_gate (\<lambda>_. []) 1 [map bytes [''SET'', ''k'', ''2'']] example_server = Some s'
    \<and> read_events (2 ^ 30) (\<lambda>_. 7) False example_gate (\<lambda>_. []) 1 (replicate 40 1)
        (freshClient, concat (map enc_req [map bytes [''SET'', ''k'', ''2'']]), example_server) = Some (Some freshClient, [], s')"
proof -
  let ?r = "map bytes [''SET'', ''k'', ''2'']"
  have "signals ?r" "1 \<in> set (sv_client_ids example_server)" by (auto simp: signals_def example_lookup example_server_def)
  then obtain s' where s': "run_requests example_gate (\<lambda>_. []) 1 [?r] example_server = Some s'"
    using run_one_request [OF example_sound, of 1 0 ?r example_gate "\<lambda>_. []"] by auto
  have "req_ok ?r \<and> \<not> is_quit ?r" by (simp add: req_ok_def is_quit_def bytes_def tolower_byte_def)
  moreover have "length (concat (map enc_req [?r])) \<le> length (replicate 40 (1::nat))" by (simp add: enc_req_def enc_bulk_def bytes_def)
  ultimately show ?thesis using requests_any_reads [OF _ s', of "replicate 40 1" "2 ^ 30" "\<lambda>_. 7"] s' by simp
qed

section \<open>Where the parser departs from the protocol\<close>

text \<open>C16: The end of an inline request is taken to be two bytes, also when the line ends with a line feed alone, as
  the code accepts it: the first byte of the next request is lost.\<close>

theorem inline_newline_drops_byte:
  assumes "10 \<notin> set line" "0 \<notin> set line" "line = [] \<or> last line \<noteq> 13" "querybuf q = line @ 10 # b # next"
    "processInlineBuffer junk q = Some (ParseOk q')"
  shows "querybuf q' = next"
proof -
  have find: "strchr_pos (line @ 10 # b # next) 10 = Some (length line)"
    using assms(1,2) by (induction line) auto
  have "length line = 0 \<or> (line @ 10 # b # next) ! (length line - 1) \<noteq> 13"
    using assms(3) by (cases line rule: rev_cases) (auto simp: nth_append)
  then have cut: "(if length line \<noteq> 0 \<and> (line @ 10 # b # next) ! (length line - 1) = 13 then length line - 1 else length line) = length line"
    by auto
  show ?thesis
    using assms(5) unfolding processInlineBuffer_def Let_def assms(4) find option.case cut by (auto split: option.splits bind_splits)
qed

theorem inline_newline_drops_byte_witness:
  "\<exists>q'. processInlineBuffer (\<lambda>_. 7) (freshClient\<lparr>querybuf := [] @ 10 # ch CHR ''P'' # bytes ''ING''\<rparr>) = Some (ParseOk q') \<and> querybuf q' = bytes ''ING''"
proof -
  let ?q = "freshClient\<lparr>querybuf := [] @ 10 # ch CHR ''P'' # bytes ''ING''\<rparr>"
  obtain q' where q': "processInlineBuffer (\<lambda>_. 7) ?q = Some (ParseOk q')"
    by (simp add: processInlineBuffer_def sdssplitargs.simps)
  then show ?thesis using inline_newline_drops_byte [of "[]" ?q "ch CHR ''P''" "bytes ''ING''" "\<lambda>_. 7" q'] by simp
qed

text \<open>C17: If the length of a large argument (32 kilobytes or more) has been parsed when the clients are paused, the buffer
  fills up during the pause until the argument is complete; a further read event in the pause then asks for no bytes at
  all, gets none, and takes this for the end of the connection: the client is freed although the peer is still there and
  has sent a valid request. (A request that begins during the pause is not parsed, and not affected.)\<close>

theorem paused_argument_disconnects:
  assumes "reqtype q = REQ_MULTIBULK" "multibulklen q \<noteq> 0" "bulklen q = Some l" "REDIS_MBULK_BIG_ARG \<le> l" "l + 2 \<le> max_querybuf"
    "length (querybuf q) \<le> l + 2" "l + 2 \<le> length (querybuf q) + length sock" "\<forall>n\<in>set ns. 0 < n" "l + 2 < length (querybuf q) + length ns"
  shows "\<exists>sock'. read_events max_querybuf junk True g ko c ns (q, sock, s) = Some (None, sock', s)"
  using assms
proof (induction ns arbitrary: q sock)
  case (Cons n ns)
  define k where "k = min n (nat (query_readlen q))"
  have readlen: "query_readlen q = min (int (l + 2) - int (length (querybuf q))) (int REDIS_IOBUF_LEN)"
    using Cons.prems(1-4) by (simp add: query_readlen_def)
  show ?case
  proof (cases "length (querybuf q) = l + 2")
    case True
    then show ?thesis using readlen by (simp add: readQueryFromClient_def read_socket_def REDIS_IOBUF_LEN_def)
  next
    case False
    then have missing: "length (querybuf q) < l + 2" using Cons.prems(6) by simp
    then have some: "0 < k" "sock \<noteq> []" using readlen Cons.prems(7,8) by (auto simp: k_def REDIS_IOBUF_LEN_def)
    have positive: "\<not> query_readlen q < 0" using readlen missing by simp
    have fits: "length (querybuf q) + k \<le> l + 2" using readlen missing by (simp add: k_def)
    let ?q = "q\<lparr>querybuf := querybuf q @ take k sock\<rparr>"
    have "\<not> max_querybuf < length (querybuf ?q)" using fits Cons.prems(5) by simp
    then have "read_events max_querybuf junk True g ko c (n # ns) (q, sock, s) = read_events max_querybuf junk True g ko c ns (?q, drop k sock, s)"
      using some positive by (simp add: readQueryFromClient_def read_socket_def Let_def processInputBuffer.simps [of junk True g ko c ?q s] flip: k_def)
    moreover have "\<exists>sock'. read_events max_querybuf junk True g ko c ns (?q, drop k sock, s) = Some (None, sock', s)"
      using some fits Cons.prems by (intro Cons.IH) auto
    ultimately show ?thesis by simp
  qed
qed simp

theorem paused_argument_disconnects_witness:
  "\<exists>sock'. read_events (2 ^ 30) (\<lambda>_. 7) True example_gate (\<lambda>_. []) 1 (replicate 32771 1)
     (freshClient\<lparr>reqtype := REQ_MULTIBULK, multibulklen := 1, bulklen := Some 32768\<rparr>, replicate 40000 65, example_server) = Some (None, sock', example_server)"
  by (rule paused_argument_disconnects [where l = 32768]) (simp_all add: freshClient_def REDIS_MBULK_BIG_ARG_def)

text \<open>When more than 64 kilobytes have been collected, which takes a pause of the clients, a valid request is refused if
  the buffer happens to end in the line with the length of an argument: the check for a line that is too long looks at
  the whole buffer and not at the line.\<close>

lemma valid_request_too_big:
  assumes "req_ok (args @ a # args')" "\<forall>x\<in>set args. length x < REDIS_MBULK_BIG_ARG"
    "buf = ch CHR ''*'' # dec (length (args @ a # args')) @ [13, 10] @ concat (map enc_bulk args) @ [ch CHR ''$'']" "length buf > REDIS_INLINE_MAX_SIZE"
  shows "\<exists>rest q'. buf @ rest = enc_req (args @ a # args')
    \<and> processMultibulkBuffer (freshClient\<lparr>querybuf := buf, reqtype := REQ_MULTIBULK\<rparr>) = Some (ParseError ''Protocol error: too big bulk count string'' q')"
proof -
  let ?n = "length (args @ a # args')" and ?q = "freshClient\<lparr>querybuf := buf, reqtype := REQ_MULTIBULK\<rparr>"
  let ?k = "length (dec ?n) + 3" and ?pos = "length (dec ?n) + 3 + length (concat (map enc_bulk args))"
  define rest where "rest = dec (length a) @ [13, 10] @ a @ [13, 10] @ concat (map enc_bulk args')"
  have all: "buf @ rest = enc_req (args @ a # args')" by (simp add: assms(3) rest_def enc_req_def enc_bulk_def)
  have len: "length buf = ?pos + 1" by (simp add: assms(3))
  have first: "processMultibulkBuffer ?q = Some (mb_args (?q\<lparr>multibulklen := ?n\<rparr>) ?k)" "drop ?k buf @ rest = concat (map enc_bulk args) @ concat (map enc_bulk (a # args'))"
    using mb_first_line_found [of ?q rest ?n "concat (map enc_bulk (args @ a # args'))"] all len assms(1)
    by (auto simp: enc_req_def req_ok_def freshClient_def)
  have loop: "mb_loop (length args + (1 + length args')) None buf ?k [] = mb_loop (1 + length args') None buf ?pos args"
    using mb_loop_takes [OF first(2), of "1 + length args'" "[]"] len assms(2) by simp
  have tail: "drop ?pos buf @ rest = enc_bulk a @ concat (map enc_bulk args')"
    using arg_cong [OF first(2), of "drop (length (concat (map enc_bulk args)))"] len by (simp add: add.commute)
  have "mb_bulklen buf ?pos = BulkError ''Protocol error: too big bulk count string'' 0"
    using mb_bulklen_more [OF tail] len assms(4) by simp
  then have "\<exists>q'. mb_args (?q\<lparr>multibulklen := ?n\<rparr>) ?k = ParseError ''Protocol error: too big bulk count string'' q'"
    using loop by (simp add: mb_args_def freshClient_def)
  then show ?thesis using all first(1) by auto
qed

end
