(* ===== verification/Spec2Isabelle.thy ===== *)
theory Spec2Isabelle
  imports Intset Util Adlist Glob Sds Dict Dict_Scan Dict_Iter Crc Sha1 Rdb Set_Props Client_Props
begin

text \<open>
  A verification library for the Redis server that is vendored under \<^verbatim>\<open>src/redis-stable/src\<close>: its data
  structures, its keyspace with the commands on keys, strings and sets, its transactions, and the way of a request from the
  bytes of the connection to the bytes of the reply.

  \<^bold>\<open>Parts of the program and theories.\<close> A client sends a request, which is cut out of the query buffer
  (\<^verbatim>\<open>networking.c\<close>); \<^verbatim>\<open>processCommand\<close> (\<^verbatim>\<open>redis.c\<close>) finds its
  command in the table, checks it and queues it (\<^verbatim>\<open>multi.c\<close>) or calls it; the command works on the
  dictionaries of a database (\<^verbatim>\<open>db.c\<close>, \<^verbatim>\<open>t_string.c\<close>), whose values are objects (\<^verbatim>\<open>object.c\<close>, \<^verbatim>\<open>t_set.c\<close>),
  which are made of strings, dictionaries and integer sets (\<^verbatim>\<open>sds.c\<close>, \<^verbatim>\<open>dict.c\<close>, \<^verbatim>\<open>intset.c\<close>).

  \<^item> \<open>Redis_Prelude\<close>: machine integers, byte strings, checked memory, shared lemmas.
  \<^item> \<open>Interfaces\<close>: the contracts of sets, maps, sequences and list heaps as locales. Each is interpreted on the
    model's own operations in the theory that provides them.
  \<^item> \<open>Endian\<close> (\<^verbatim>\<open>endianconv.c\<close>), \<open>Intset\<close> (\<^verbatim>\<open>intset.c\<close>): byte order; the sorted array of integers in an
    encoding that fits its largest element so far, as bytes behind bounds-checked accesses.
  \<^item> \<open>Util\<close>, \<open>Glob\<close> (\<^verbatim>\<open>util.c\<close>): numbers to strings and back, the pattern matcher.
  \<^item> \<open>Adlist\<close> (\<^verbatim>\<open>adlist.c\<close>): doubly linked lists in an explicit heap of nodes.
  \<^item> \<open>Sds\<close> (\<^verbatim>\<open>sds.c\<close>): strings with a header, over the bytes of their allocation.
  \<^item> \<open>Dict\<close>, \<open>Dict_Scan\<close>, \<open>Dict_Iter\<close> (\<^verbatim>\<open>dict.c\<close>): the hash table with incremental rehashing, the scan cursor,
    iterators, hash functions.
  \<^item> \<open>Lzf\<close> (\<^verbatim>\<open>lzf_c.c\<close>, \<^verbatim>\<open>lzf_d.c\<close>): the compression of strings in snapshots, with its uninitialised hash table.
  \<^item> \<open>Rio\<close> (\<^verbatim>\<open>rio.c\<close>), \<open>Rdb_String\<close>, \<open>Rdb\<close> (\<^verbatim>\<open>rdb.c\<close>): streams with checksums; lengths, strings, sets and whole keyspaces in
    snapshots.
  \<^item> \<open>Crc\<close> (\<^verbatim>\<open>crc16.c\<close>, \<^verbatim>\<open>crc64.c\<close>, \<^verbatim>\<open>keyHashSlot\<close> of \<^verbatim>\<open>cluster.c\<close>), \<open>Sha1\<close> (\<^verbatim>\<open>sha1.c\<close>).
  \<^item> \<open>Object\<close> (\<^verbatim>\<open>object.c\<close>), \<open>Set_Type\<close> (\<^verbatim>\<open>t_set.c\<close>), \<open>Notify\<close> (\<^verbatim>\<open>notify.c\<close>): string objects, the set type over
    integer sets and hash tables, keyspace events.
  \<^item> \<open>Keyspace\<close>, \<open>Db_Commands\<close> (\<^verbatim>\<open>db.c\<close>), \<open>T_String\<close> (\<^verbatim>\<open>t_string.c\<close>), \<open>Multi\<close> (\<^verbatim>\<open>multi.c\<close>, \<^verbatim>\<open>redis.c\<close>): the record of
    the server and the operations on it, by explicit state passing; \<open>None\<close> is a failed assertion, an aborted
    allocation, an access out of bounds, or a procedure that is not modelled.
  \<^item> \<open>Keyspace_View\<close>, \<open>String_Spec\<close>, \<open>Db_Spec\<close>, \<open>Multi_Spec\<close>: the abstract keyspace (the keys that have not expired
    and their times to live), the invariants, and what every command does to them.
  \<^item> \<open>T_Set\<close>, \<open>Set_Spec\<close>, \<open>Set_Props\<close> (\<^verbatim>\<open>t_set.c\<close>): the set commands on the keyspace, the specifications of their loops, and
    what they answer and store.
  \<^item> \<open>Server_Props\<close>: the properties that span these parts.
  \<^item> \<open>Query_Parser\<close>, \<open>Networking\<close>, \<open>Reply_Buffer\<close> (\<^verbatim>\<open>networking.c\<close>): the parser of inline and multi bulk requests as a state
    machine over the query buffer, a read event with the commands it executes, and the output buffers of a client
    with the partial writes that empty them.
  \<^item> \<open>Client_Props\<close>: the properties of a connection.

  \<^bold>\<open>What is shown.\<close> The data structures implement sets, maps, sequences and lists, keep their invariants and stay
  within their allocations: \<open>Intset\<close> (sorted, upgraded to the encoding that a new element needs), \<open>Dict\<close> (a map during every stage of a rehashing;
  rehashing completes; an iteration and a scan return what they promise), \<open>Set_Type\<close> (a set of byte strings across
  the conversion of encodings), \<open>Sds\<close> (appending, slicing, formatting, splitting and quoting with their round
  trips), \<open>Adlist\<close>. The number parser accepts exactly the canonical notations; the pattern matcher decides the
  language of its pattern; the checksums are the polynomial divisions and the digest is the one of the standard. For
  the server: GET returns what SET stored; INCRBY is exact or refuses; MSETNX is atomic; RENAME moves value and time
  to live; a key with EXPIRE lives up to its deadline; the string and key commands but MOVE and
  PERSIST (and a SETRANGE whose end does not fit into 64 bits) never fail an assertion and mark the watchers of what they change;
  hence EXEC aborts when another client has changed a watched key by one of them. The set
  commands compute intersection, union and difference, by either algorithm, and SMOVE moves. For a connection: requests are executed in order
  however the stream is cut into reads, and replies leave in order without loss however the socket takes them, and completely when it takes something. What
  \<^verbatim>\<open>lzf_compress\<close> returns is decompressed to the input, and no access leaves the buffers; a snapshot restores exactly the
  keys that have not expired. Theorems of kind error exhibit inputs
  on which the code departs from its comments or from the obvious intention.

  \<^bold>\<open>Bounds and parameters.\<close> The insertions into dictionaries and sets are specified for fewer than \<open>dict_limit\<close> and
  \<open>set_limit\<close> entries (1073741824, two to the power of 30) in tables of at most two to the power of 31 slots (\<open>indexable\<close>, which
  they preserve): there the \<^verbatim>\<open>int\<close> in which \<^verbatim>\<open>dict.c\<close> keeps a slot is not negative; in larger tables the model's accesses fail
  as those of the code do. The sizes of integer sets are bounded by what 32 bit lengths can express, the
  strings of replies by two to the power of 30 bytes. Below these bounds no size computation of these operations wraps. Fuel is used nowhere: loops
  are structural, have a measure, or are partial functions in \<open>option\<close> that are proved to return. The bytes of
  fresh memory, hash functions, addresses, random numbers, the order of iteration over a database, and the
  conditions that \<^verbatim>\<open>processCommand\<close> reads from the rest of the server (the record \<open>gate\<close>) are parameters. The clock stands still during a
  command; a host has 64 bit \<^verbatim>\<open>long\<close>. The dictionaries of a database and its watch lists are maps and lists, as
  \<open>Dict\<close> and \<open>Adlist\<close> are proved to implement them.

  \<^bold>\<open>Not modelled.\<close> Lists, hashes and sorted sets (handles in the keyspace) and their commands, the clients that block on lists (a
  request that would serve one has no result in the model, and the properties of transactions assume that there are none),
  SSCAN, bit operations, HyperLogLog, SORT, SCAN and publish/subscribe are not modelled yet; floating point (INCRBYFLOAT,
  scores), the system calls on sockets and the event loop, the append only file, replication,
  cluster and sentinel, Lua scripting, memory limits,
  statistics and configuration are outside of the development, as are the dependencies under
  \<^verbatim>\<open>src/redis-stable/deps\<close> and the web application that vendors the server.
\<close>

end
